(* ===== verification/Prelude.thy ===== *)
theory Prelude
  imports Main "HOL-Library.Word" "HOL-Library.Char_ord" "HOL-Library.List_Lexorder"
begin

text \<open>
  The prelude of the stele-sync development: the types that every component shares,
  fallible computations, Go's integers and strings, and generic list lemmas.

  \<^item> A Go function that returns a value and an error is a HOL function into a sum,
    \<open>Inl\<close> the error and \<open>Inr\<close> the value; \<open>rbind\<close> chains two of them.
  \<^item> A Go string is the list of its bytes (\<open>string\<close> is a list of the 256 HOL
    characters), so \<open>length\<close> is Go's \<open>len\<close> and the order is the byte order of
    Go's string comparison.
  \<^item> Go's \<open>int\<close> and \<open>int64\<close> are HOL integers; where the code relies on not
    overflowing, a theorem states the bound.
\<close>

named_theorems go_string "byte strings: prefixes, suffixes, searching and trimming"
named_theorems sum_split "case analysis of fallible computations"

section \<open>Fallible computations\<close>

fun rbind :: "'e + 'a \<Rightarrow> ('a \<Rightarrow> 'e + 'b) \<Rightarrow> 'e + 'b" where
  "rbind (Inl e) f = Inl e"
| "rbind (Inr x) f = f x"

lemma rbind_Inr_iff [sum_split]: "rbind m f = Inr y \<longleftrightarrow> (\<exists>x. m = Inr x \<and> f x = Inr y)"
  by (cases m) auto

lemma rbind_Inl_iff [sum_split]:
  "rbind m f = Inl e \<longleftrightarrow> m = Inl e \<or> (\<exists>x. m = Inr x \<and> f x = Inl e)"
  by (cases m) auto

definition guard :: "bool \<Rightarrow> 'e \<Rightarrow> 'e + unit" where
  "guard b e = (if b then Inr () else Inl e)"

lemma guard_simps [simp]:
  "guard b e = Inr x \<longleftrightarrow> b"
  "guard b e = Inl e' \<longleftrightarrow> \<not> b \<and> e' = e"
  by (auto simp: guard_def)

definition is_ok :: "'e + 'a \<Rightarrow> bool" where
  "is_ok m = (case m of Inl _ \<Rightarrow> False | Inr _ \<Rightarrow> True)"

lemma is_ok_simps [simp]: "is_ok (Inl e) = False" "is_ok (Inr x) = True"
  by (simp_all add: is_ok_def)

section \<open>Bytes\<close>

abbreviation bv :: "char \<Rightarrow> nat" where
  "bv c \<equiv> of_char c"

lemma bv_less: "bv c < 256"
  by simp

lemma bv_inj: "bv c = bv d \<longleftrightarrow> c = d"
  by (simp add: of_char_eq_iff)

lemma bv_char_of: "n < 256 \<Longrightarrow> bv (char_of n) = n"
  by simp

section \<open>Lists\<close>

lemma take_append_drop_eq: "n \<le> length xs \<Longrightarrow> take n (take n xs @ ys) = take n xs"
  by simp

lemma list_update_last: "(xs @ [x])[length xs := y] = xs @ [y]"
  by simp

lemma nth_last_append: "(xs @ [x]) ! length xs = x"
  by simp

lemma successively_snoc:
  "successively P (xs @ [x]) \<longleftrightarrow> successively P xs \<and> (xs \<noteq> [] \<longrightarrow> P (last xs) x)"
  by (auto simp: successively_append_iff)

lemma sum_list_nonneg_int: "(\<And>x. x \<in> set xs \<Longrightarrow> 0 \<le> f x) \<Longrightarrow> 0 \<le> sum_list (map f xs)"
  for f :: "'a \<Rightarrow> int"
  by (induction xs) auto

end
