(* ===== verification/Unicode.thy ===== *)
theory Unicode
  imports Prelude
begin

text \<open>
  What the sources use of Go's \<open>unicode/utf8\<close>, \<open>unicode/utf16\<close> and
  \<open>for _, r := range s\<close>: decoding the first rune of a byte string (with Go's
  \<open>RuneError, 1\<close> result on malformed bytes), encoding a rune, splitting a string
  into runes, and the UTF-16 forms. A rune is a natural number.

  The lemmas are the round trips the components rest on: encoding and decoding a scalar
  are inverse in UTF-8 and in UTF-16, a valid string is the concatenation of the
  encodings of its runes, and the UTF-16 form of scalars is well formed.
\<close>

type_synonym u16 = "16 word"

section \<open>UTF-8\<close>

definition rune_error :: nat where
  "rune_error = 0xFFFD"

definition scalar :: "nat \<Rightarrow> bool" where
  "scalar r \<longleftrightarrow> r < 0xD800 \<or> (0xE000 \<le> r \<and> r < 0x110000)"

text \<open>The length the first byte announces; 0 for a byte that starts no sequence.\<close>

definition seq_len :: "nat \<Rightarrow> nat" where
  "seq_len b = (if b < 0x80 then 1 else if b < 0xC2 then 0 else if b < 0xE0 then 2
    else if b < 0xF0 then 3 else if b < 0xF5 then 4 else 0)"

text \<open>Go's \<open>acceptRanges\<close>: the admissible second bytes for a first byte.\<close>

definition second_ok :: "nat \<Rightarrow> char \<Rightarrow> bool" where
  "second_ok b c \<longleftrightarrow>
     (if b = 0xE0 then 0xA0 else if b = 0xF0 then 0x90 else 0x80) \<le> bv c \<and>
     bv c \<le> (if b = 0xED then 0x9F else if b = 0xF4 then 0x8F else 0xBF)"

definition cont_ok :: "char \<Rightarrow> bool" where
  "cont_ok c \<longleftrightarrow> 0x80 \<le> bv c \<and> bv c \<le> 0xBF"

text \<open>\<open>utf8.DecodeRuneInString\<close>: the first rune and the number of bytes it took.\<close>

definition decode_rune :: "string \<Rightarrow> nat \<times> nat" where
  "decode_rune s = (case s of [] \<Rightarrow> (rune_error, 0)
    | c # t \<Rightarrow>
      (if seq_len (bv c) = 1 then (bv c, 1)
       else if seq_len (bv c) = 2 then
         (case t of d # _ \<Rightarrow> if second_ok (bv c) d
             then ((bv c - 0xC0) * 64 + (bv d - 0x80), 2) else (rune_error, 1)
          | _ \<Rightarrow> (rune_error, 1))
       else if seq_len (bv c) = 3 then
         (case t of d # e # _ \<Rightarrow> if second_ok (bv c) d \<and> cont_ok e
             then ((bv c - 0xE0) * 4096 + (bv d - 0x80) * 64 + (bv e - 0x80), 3)
             else (rune_error, 1)
          | _ \<Rightarrow> (rune_error, 1))
       else if seq_len (bv c) = 4 then
         (case t of d # e # f # _ \<Rightarrow> if second_ok (bv c) d \<and> cont_ok e \<and> cont_ok f
             then ((bv c - 0xF0) * 262144 + (bv d - 0x80) * 4096
                   + (bv e - 0x80) * 64 + (bv f - 0x80), 4)
             else (rune_error, 1)
          | _ \<Rightarrow> (rune_error, 1))
       else (rune_error, 1)))"

text \<open>\<open>utf8.AppendRune\<close>: surrogates and values past U+10FFFF encode as U+FFFD.\<close>

definition encode_rune :: "nat \<Rightarrow> string" where
  "encode_rune r =
    (let r = (if scalar r then r else rune_error) in
     if r < 0x80 then [char_of r]
     else if r < 0x800 then [char_of (0xC0 + r div 64), char_of (0x80 + r mod 64)]
     else if r < 0x10000 then
       [char_of (0xE0 + r div 4096), char_of (0x80 + r div 64 mod 64), char_of (0x80 + r mod 64)]
     else [char_of (0xF0 + r div 262144), char_of (0x80 + r div 4096 mod 64),
           char_of (0x80 + r div 64 mod 64), char_of (0x80 + r mod 64)])"

text \<open>\<open>for _, r := range s\<close> and \<open>utf8.ValidString\<close>.\<close>

lemma decode_rune_progress: "s \<noteq> [] \<Longrightarrow> 0 < snd (decode_rune s)"
  by (auto simp: decode_rune_def split: list.splits)

function runes :: "string \<Rightarrow> nat list" where
  "runes s = (if s = [] then []
     else fst (decode_rune s) # runes (drop (snd (decode_rune s)) s))"
  by pat_completeness auto
termination
  by (relation "measure length") (auto dest: decode_rune_progress intro: diff_less)

function valid_string :: "string \<Rightarrow> bool" where
  "valid_string s = (if s = [] then True
     else decode_rune s \<noteq> (rune_error, 1) \<and> valid_string (drop (snd (decode_rune s)) s))"
  by pat_completeness auto
termination
  by (relation "measure length") (auto dest: decode_rune_progress intro: diff_less)

declare runes.simps [simp del] valid_string.simps [simp del]

lemma runes_Nil [simp]: "runes [] = []"
  by (simp add: runes.simps)

lemma valid_string_Nil [simp]: "valid_string []"
  by (simp add: valid_string.simps)

text \<open>Go's \<open>string(rs)\<close> on runes.\<close>

definition string_of_runes :: "nat list \<Rightarrow> string" where
  "string_of_runes rs = concat (map encode_rune rs)"

section \<open>UTF-8 round trips\<close>

lemma encode_rune_nonempty [simp]: "encode_rune r \<noteq> []"
  by (simp add: encode_rune_def Let_def)

lemma seq_len_cases:
  obtains "seq_len b = 1" | "seq_len b = 2" | "seq_len b = 3" | "seq_len b = 4" | "seq_len b = 0"
  unfolding seq_len_def by presburger

lemma decode1: "a < 0x80 \<Longrightarrow> decode_rune (char_of a # s) = (a, 1)"
  by (simp add: decode_rune_def seq_len_def bv_char_of)

lemma decode2:
  assumes "2 \<le> a" "a < 32" "b < 64"
  shows "decode_rune (char_of (0xC0 + a) # char_of (0x80 + b) # s) = (a * 64 + b, 2)"
  using assms by (simp add: decode_rune_def seq_len_def second_ok_def bv_char_of del: of_char_of)

lemma decode3:
  assumes "a < 16" "b < 64" "c < 64" "a = 0 \<longrightarrow> 32 \<le> b" "a = 13 \<longrightarrow> b < 32"
  shows "decode_rune (char_of (0xE0 + a) # char_of (0x80 + b) # char_of (0x80 + c) # s)
    = (a * 4096 + b * 64 + c, 3)"
  using assms
  by (auto simp add: decode_rune_def seq_len_def second_ok_def cont_ok_def bv_char_of simp del: of_char_of)

lemma decode4:
  assumes "a < 5" "b < 64" "c < 64" "d < 64" "a = 0 \<longrightarrow> 16 \<le> b" "a = 4 \<longrightarrow> b < 16"
  shows "decode_rune (char_of (0xF0 + a) # char_of (0x80 + b) # char_of (0x80 + c)
      # char_of (0x80 + d) # s)
    = (a * 262144 + b * 4096 + c * 64 + d, 4)"
  using assms
  by (auto simp add: decode_rune_def seq_len_def second_ok_def cont_ok_def bv_char_of simp del: of_char_of)

text \<open>Base-64 digits of a rune, as the encoder reads them off.\<close>

lemma digit:
  fixes a b :: nat
  assumes "b < 64"
  shows "(a * 64 + b) div 64 = a" and "(a * 64 + b) mod 64 = b"
  using assms by simp_all

lemma digit_shift:
  fixes r :: nat
  shows "r div 4096 = r div 64 div 64" and "r div 262144 = r div 64 div 64 div 64"
  by (simp_all add: div_mult2_eq [symmetric])

lemma encode1: "r < 0x80 \<Longrightarrow> encode_rune r = [char_of r]"
  by (simp add: encode_rune_def scalar_def)

lemma encode2:
  assumes "2 \<le> a" "a < 32" "b < 64"
  shows "encode_rune (a * 64 + b) = [char_of (0xC0 + a), char_of (0x80 + b)]"
  using assms by (simp add: encode_rune_def scalar_def Let_def)

lemma encode3:
  assumes "a < 16" "b < 64" "c < 64" "a = 0 \<longrightarrow> 32 \<le> b" "a = 13 \<longrightarrow> b < 32"
  shows "scalar (a * 4096 + b * 64 + c)"
    and "encode_rune (a * 4096 + b * 64 + c)
      = [char_of (0xE0 + a), char_of (0x80 + b), char_of (0x80 + c)]"
proof -
  define r where "r = (a * 64 + b) * 64 + c"
  have r: "a * 4096 + b * 64 + c = r" by (simp add: r_def)
  have s: "scalar r"
  proof (cases "a = 13")
    case True
    then have "r < 0xD800" using assms(3,5) unfolding r_def by simp
    then show ?thesis by (simp add: scalar_def)
  next
    case False
    then have "a < 13 \<or> 13 < a" by auto
    then have "r < 0xD800 \<or> 0xE000 \<le> r \<and> r < 0x110000"
      using assms(1-3) unfolding r_def by auto
    then show ?thesis by (simp add: scalar_def)
  qed
  then show "scalar (a * 4096 + b * 64 + c)" by (simp only: r)
  have "r div 64 = a * 64 + b" "r mod 64 = c" unfolding r_def using digit [OF assms(3)] by blast+
  moreover from this have "r div 4096 = a" "r div 64 mod 64 = b"
    using digit [OF assms(2)] by (simp_all only: digit_shift)
  moreover have "0x800 \<le> r" "r < 0x10000"
    using assms(1-4) unfolding r_def by (cases "a = 0"; simp)+
  ultimately have "encode_rune r = [char_of (0xE0 + a), char_of (0x80 + b), char_of (0x80 + c)]"
    using s by (simp add: encode_rune_def)
  then show "encode_rune (a * 4096 + b * 64 + c)
      = [char_of (0xE0 + a), char_of (0x80 + b), char_of (0x80 + c)]" by (simp only: r)
qed

lemma encode4:
  assumes "a < 5" "b < 64" "c < 64" "d < 64" "a = 0 \<longrightarrow> 16 \<le> b" "a = 4 \<longrightarrow> b < 16"
  shows "scalar (a * 262144 + b * 4096 + c * 64 + d)"
    and "encode_rune (a * 262144 + b * 4096 + c * 64 + d)
      = [char_of (0xF0 + a), char_of (0x80 + b), char_of (0x80 + c), char_of (0x80 + d)]"
proof -
  define r where "r = ((a * 64 + b) * 64 + c) * 64 + d"
  have r: "a * 262144 + b * 4096 + c * 64 + d = r" by (simp add: r_def)
  have lo: "0x10000 \<le> r" using assms(5) unfolding r_def by (cases "a = 0") simp_all
  have hi: "r < 0x110000" using assms(1-4,6) unfolding r_def by (cases "a = 4") simp_all
  then have s: "scalar r" using lo by (simp add: scalar_def)
  then show "scalar (a * 262144 + b * 4096 + c * 64 + d)" by (simp only: r)
  have q: "r div 64 = (a * 64 + b) * 64 + c" "r mod 64 = d"
    unfolding r_def using digit [OF assms(4)] by blast+
  then have q': "r div 64 div 64 = a * 64 + b" "r div 64 mod 64 = c"
    unfolding q(1) using digit [OF assms(3)] by blast+
  then have "r div 262144 = a" "r div 4096 mod 64 = b"
    using digit [OF assms(2)] by (simp_all only: digit_shift)
  then have "encode_rune r
      = [char_of (0xF0 + a), char_of (0x80 + b), char_of (0x80 + c), char_of (0x80 + d)]"
    using s lo q q' by (simp add: encode_rune_def)
  then show "encode_rune (a * 262144 + b * 4096 + c * 64 + d)
      = [char_of (0xF0 + a), char_of (0x80 + b), char_of (0x80 + c), char_of (0x80 + d)]"
    by (simp only: r)
qed

theorem decode_encode:
  assumes "scalar r"
  shows "decode_rune (encode_rune r @ s) = (r, length (encode_rune r))"
proof -
  have m: "x = x div 64 * 64 + x mod 64 \<and> x mod 64 < 64" for x :: nat by simp
  consider "r < 0x80" | "0x80 \<le> r" "r < 0x800" | "0x800 \<le> r" "r < 0x10000" | "0x10000 \<le> r"
    by linarith
  then show ?thesis
  proof cases
    case 1
    then show ?thesis by (simp add: encode1 decode1)
  next
    case 2
    define a b where "a = r div 64" and "b = r mod 64"
    have ab: "r = a * 64 + b" "b < 64" using m [of r] by (simp_all add: a_def b_def)
    have lim: "2 \<le> a" "a < 32" "b < 64" using 2 ab by linarith+
    show ?thesis unfolding ab(1) encode2 [OF lim] using decode2 [OF lim] by simp
  next
    case 3
    define q where "q = r div 64"
    define a b c where "a = q div 64" and "b = q mod 64" and "c = r mod 64"
    have abc: "r = q * 64 + c" "c < 64" "q = a * 64 + b" "b < 64"
      using m [of r] m [of q] by (simp_all add: q_def a_def b_def c_def)
    then have r: "r = a * 4096 + b * 64 + c" by simp
    have lim: "a < 16" "b < 64" "c < 64" "a = 0 \<longrightarrow> 32 \<le> b" "a = 13 \<longrightarrow> b < 32"
      using 3 assms abc unfolding scalar_def by arith+
    have "encode_rune r = [char_of (0xE0 + a), char_of (0x80 + b), char_of (0x80 + c)]"
      unfolding r by (rule encode3(2) [OF lim])
    then show ?thesis using decode3 [OF lim] by (simp only: r append.simps list.size) simp
  next
    case 4
    then have r: "0x10000 \<le> r" "r < 0x110000" using assms by (auto simp: scalar_def)
    define p where "p = r div 64"
    define q where "q = p div 64"
    define a b c d where "a = q div 64" and "b = q mod 64" and "c = p mod 64" and "d = r mod 64"
    have abcd: "r = p * 64 + d" "d < 64" "p = q * 64 + c" "c < 64" "q = a * 64 + b" "b < 64"
      using m [of r] m [of p] m [of q] by (simp_all add: p_def q_def a_def b_def c_def d_def)
    then have r': "r = a * 262144 + b * 4096 + c * 64 + d" by simp
    have lim: "a < 5" "b < 64" "c < 64" "d < 64" "a = 0 \<longrightarrow> 16 \<le> b" "a = 4 \<longrightarrow> b < 16"
      using r abcd by arith+
    have "encode_rune r = [char_of (0xF0 + a), char_of (0x80 + b), char_of (0x80 + c), char_of (0x80 + d)]"
      unfolding r' by (rule encode4(2) [OF lim])
    then show ?thesis using decode4 [OF lim] by (simp only: r' append.simps list.size) simp
  qed
qed

lemma bv_split: "m \<le> bv c \<Longrightarrow> \<exists>a. bv c = m + a \<and> c = char_of (m + a)"
  by (rule exI [of _ "bv c - m"]) simp

lemma decode_shape:
  assumes "s \<noteq> []" and "decode_rune s \<noteq> (rune_error, 1)"
  obtains (one) c t where "s = c # t" "bv c < 0x80"
    | (two) a b u where "s = char_of (0xC0 + a) # char_of (0x80 + b) # u"
        "2 \<le> a" "a < (32::nat)" "b < (64::nat)"
    | (three) a b e u where "s = char_of (0xE0 + a) # char_of (0x80 + b) # char_of (0x80 + e) # u"
        "a < (16::nat)" "b < (64::nat)" "e < (64::nat)" "a = 0 \<longrightarrow> 32 \<le> b" "a = 13 \<longrightarrow> b < 32"
    | (four) a b e f u where "s = char_of (0xF0 + a) # char_of (0x80 + b) # char_of (0x80 + e)
          # char_of (0x80 + f) # u"
        "a < (5::nat)" "b < (64::nat)" "e < (64::nat)" "f < (64::nat)" "a = 0 \<longrightarrow> 16 \<le> b" "a = 4 \<longrightarrow> b < 16"
proof -
  obtain c t where s: "s = c # t" using assms(1) by (cases s) auto
  have cont: "\<exists>a. a < 64 \<and> d = char_of (0x80 + a) \<and> bv d = 0x80 + a" if "cont_ok d" for d
    using that bv_split [of "0x80" d] by (auto simp: cont_ok_def)
  have second: "cont_ok d" if "second_ok m d" for m d
    using that by (auto simp: second_ok_def cont_ok_def split: if_splits)
  show thesis
  proof (cases rule: seq_len_cases [of "bv c"])
    case 1
    then show thesis using one s by (auto simp: seq_len_def split: if_splits)
  next
    case 2
    then obtain d u where t: "t = d # u" "second_ok (bv c) d"
      using assms(2) by (auto simp: s decode_rune_def split: list.splits if_splits)
    obtain a where "bv c = 0xC0 + a" "c = char_of (0xC0 + a)"
      using 2 bv_split [of "0xC0" c] by (auto simp: seq_len_def split: if_splits)
    moreover obtain b :: nat where "b < 64" "d = char_of (0x80 + b)"
      using cont [OF second [OF t(2)]] by auto
    ultimately show thesis using two [of a b u] 2 by (simp add: s t seq_len_def split: if_splits)
  next
    case 3
    then obtain d e u where t: "t = d # e # u" "second_ok (bv c) d" "cont_ok e"
      using assms(2) by (auto simp: s decode_rune_def split: list.splits if_splits)
    obtain a where a: "bv c = 0xE0 + a" "c = char_of (0xE0 + a)"
      using 3 bv_split [of "0xE0" c] by (auto simp: seq_len_def split: if_splits)
    moreover obtain b :: nat where b: "b < 64" "d = char_of (0x80 + b)" "bv d = 0x80 + b"
      using cont [OF second [OF t(2)]] by auto
    moreover obtain f :: nat where "f < 64" "e = char_of (0x80 + f)" using cont [OF t(3)] by auto
    moreover have "a < 16" using 3 a by (simp add: seq_len_def split: if_splits)
    moreover have "a = 0 \<longrightarrow> 32 \<le> b" "a = 13 \<longrightarrow> b < 32" using t(2) a(1) b(3)
      by (auto simp: second_ok_def)
    ultimately show thesis using three [of a b f u] by (simp add: s t)
  next
    case 4
    then obtain d e f u where t: "t = d # e # f # u" "second_ok (bv c) d" "cont_ok e" "cont_ok f"
      using assms(2) by (auto simp: s decode_rune_def split: list.splits if_splits)
    obtain a where a: "bv c = 0xF0 + a" "c = char_of (0xF0 + a)"
      using 4 bv_split [of "0xF0" c] by (auto simp: seq_len_def split: if_splits)
    moreover obtain b :: nat where b: "b < 64" "d = char_of (0x80 + b)" "bv d = 0x80 + b"
      using cont [OF second [OF t(2)]] by auto
    moreover obtain x :: nat where "x < 64" "e = char_of (0x80 + x)" using cont [OF t(3)] by auto
    moreover obtain y :: nat where "y < 64" "f = char_of (0x80 + y)" using cont [OF t(4)] by auto
    moreover have "a < 5" using 4 a by (simp add: seq_len_def split: if_splits)
    moreover have "a = 0 \<longrightarrow> 16 \<le> b" "a = 4 \<longrightarrow> b < 16" using t(2) a(1) b(3)
      by (auto simp: second_ok_def)
    ultimately show thesis using four [of a b x y u] by (simp add: s t)
  next
    case 5
    then show thesis using assms(2) by (simp add: s decode_rune_def)
  qed
qed

theorem encode_decode:
  assumes "s \<noteq> []" and "decode_rune s \<noteq> (rune_error, 1)"
  shows "scalar (fst (decode_rune s)) \<and>
    encode_rune (fst (decode_rune s)) = take (snd (decode_rune s)) s"
  using assms
proof (cases rule: decode_shape)
  case (one c t)
  then show ?thesis by (simp add: decode_rune_def seq_len_def encode1 scalar_def)
next
  case (two a b u)
  then show ?thesis by (simp add: decode2 encode2 scalar_def)
next
  case (three a b e u)
  show ?thesis unfolding three(1) decode3 [OF three(2-6)]
    using encode3 [OF three(2-6)] by simp
next
  case (four a b e f u)
  show ?thesis unfolding four(1) decode4 [OF four(2-7)]
    using encode4 [OF four(2-7)] by simp
qed

lemma valid_string_cons:
  "s \<noteq> [] \<Longrightarrow> valid_string s \<longleftrightarrow>
     decode_rune s \<noteq> (rune_error, 1) \<and> valid_string (drop (snd (decode_rune s)) s)"
  by (simp add: valid_string.simps [of s])

lemma runes_cons:
  "s \<noteq> [] \<Longrightarrow> runes s = fst (decode_rune s) # runes (drop (snd (decode_rune s)) s)"
  by (simp add: runes.simps [of s])

text \<open>ASCII strings are their own runes.\<close>

lemma ascii_string:
  "\<forall>c \<in> set s. bv c < 0x80 \<Longrightarrow> valid_string s \<and> runes s = map bv s"
proof (induction s)
  case (Cons c s)
  have "decode_rune (c # s) = (bv c, 1)" using Cons.prems by (simp add: decode_rune_def seq_len_def)
  with Cons show ?case by (simp add: valid_string_cons runes_cons rune_error_def)
qed simp

lemma valid_string_runes:
  "valid_string s \<Longrightarrow> string_of_runes (runes s) = s \<and> (\<forall>r \<in> set (runes s). scalar r)"
proof (induction s rule: valid_string.induct)
  case (1 s)
  show ?case
  proof (cases "s = []")
    case True
    then show ?thesis by (simp add: string_of_runes_def)
  next
    case False
    then have d: "decode_rune s \<noteq> (rune_error, 1)"
      and v: "valid_string (drop (snd (decode_rune s)) s)"
      using "1.prems" by (simp_all add: valid_string_cons)
    from "1.IH" [OF False v] encode_decode [OF False d] show ?thesis
      by (simp add: runes_cons False string_of_runes_def)
  qed
qed

lemma decode_not_error: "scalar r \<Longrightarrow> decode_rune (encode_rune r @ s) \<noteq> (rune_error, 1)"
  by (simp add: decode_encode) (auto simp: rune_error_def encode_rune_def scalar_def)

lemma runes_string_of_runes:
  "\<forall>r \<in> set rs. scalar r \<Longrightarrow>
     runes (string_of_runes rs) = rs \<and> valid_string (string_of_runes rs)"
proof (induction rs)
  case Nil
  then show ?case by (simp add: string_of_runes_def)
next
  case (Cons r rs)
  let ?s = "encode_rune r @ string_of_runes rs"
  have s: "string_of_runes (r # rs) = ?s" by (simp add: string_of_runes_def)
  have "scalar r" using Cons.prems by simp
  then have "decode_rune ?s = (r, length (encode_rune r))" "decode_rune ?s \<noteq> (rune_error, 1)"
    by (rule decode_encode, rule decode_not_error)
  then show ?case unfolding s
    using Cons by (simp add: runes_cons valid_string_cons)
qed

section \<open>UTF-16\<close>

definition is_hi :: "u16 \<Rightarrow> bool" where
  "is_hi x \<longleftrightarrow> 0xD800 \<le> x \<and> x \<le> 0xDBFF"

definition is_lo :: "u16 \<Rightarrow> bool" where
  "is_lo x \<longleftrightarrow> 0xDC00 \<le> x \<and> x \<le> 0xDFFF"

text \<open>\<open>utf16.AppendRune\<close> and \<open>utf16.Decode\<close>.\<close>

definition encode_utf16 :: "nat \<Rightarrow> u16 list" where
  "encode_utf16 r =
    (if \<not> scalar r then [of_nat rune_error]
     else if r < 0x10000 then [of_nat r]
     else [of_nat (0xD800 + (r - 0x10000) div 1024), of_nat (0xDC00 + (r - 0x10000) mod 1024)])"

fun decode_utf16 :: "u16 list \<Rightarrow> nat list" where
  "decode_utf16 [] = []"
| "decode_utf16 [x] = [if is_hi x \<or> is_lo x then rune_error else unat x]"
| "decode_utf16 (x # y # u) =
    (if is_hi x \<and> is_lo y
     then ((unat x - 0xD800) * 1024 + (unat y - 0xDC00) + 0x10000) # decode_utf16 u
     else (if is_hi x \<or> is_lo x then rune_error else unat x) # decode_utf16 (y # u))"

text \<open>Well-formed UTF-16: every surrogate is part of a pair.\<close>

fun wf16 :: "u16 list \<Rightarrow> bool" where
  "wf16 [] = True"
| "wf16 [x] = (\<not> is_hi x \<and> \<not> is_lo x)"
| "wf16 (x # y # u) = (if is_hi x then is_lo y \<and> wf16 u else \<not> is_lo x \<and> wf16 (y # u))"

definition units_of_runes :: "nat list \<Rightarrow> u16 list" where
  "units_of_runes rs = concat (map encode_utf16 rs)"

lemma not_hi_lo: "is_hi x \<Longrightarrow> \<not> is_lo x"
  by (auto simp: is_hi_def is_lo_def word_le_nat_alt)

lemma wf16_hi: "is_hi x \<Longrightarrow> wf16 (x # u) \<longleftrightarrow> (\<exists>y v. u = y # v \<and> is_lo y \<and> wf16 v)"
  by (cases u) auto

lemma wf16_bmp: "\<not> is_hi x \<Longrightarrow> wf16 (x # u) \<longleftrightarrow> \<not> is_lo x \<and> wf16 u"
  by (cases u) auto

lemma wf16_append: "wf16 u \<Longrightarrow> wf16 (u @ v) \<longleftrightarrow> wf16 v"
  by (induction u rule: wf16.induct) (auto simp: wf16_bmp split: if_splits)

lemma wf16_drop: "wf16 u \<Longrightarrow> wf16 (take n u) \<Longrightarrow> wf16 (drop n u)"
  using wf16_append [of "take n u" "drop n u"] by simp

lemma u16_bound: "unat (x :: u16) < 0x10000"
  using unsigned_less [of x] by simp

lemma unat_of_nat16: "n < 0x10000 \<Longrightarrow> unat (of_nat n :: u16) = n"
  by (simp add: unat_of_nat)

lemma encode_utf16_shape:
  obtains (bmp) x where "encode_utf16 r = [x]" "\<not> is_hi x" "\<not> is_lo x" "scalar r \<longrightarrow> unat x = r"
  | (pair) x y where "encode_utf16 r = [x, y]" "is_hi x" "is_lo y"
      "(unat x - 0xD800) * 1024 + (unat y - 0xDC00) + 0x10000 = r"
proof -
  consider "\<not> scalar r" | "scalar r" "r < 0x10000" | "scalar r" "0x10000 \<le> r" by linarith
  then show thesis
  proof cases
    case 1
    then show thesis
      using bmp [of "of_nat rune_error"]
      by (simp add: encode_utf16_def rune_error_def is_hi_def is_lo_def)
  next
    case 2
    then show thesis
      using bmp [of "of_nat r"]
      by (auto simp: encode_utf16_def scalar_def is_hi_def is_lo_def word_le_nat_alt unat_of_nat16)
  next
    case 3
    define h l where "h = (r - 0x10000) div 1024" and "l = (r - 0x10000) mod 1024"
    have hl: "r - 0x10000 = h * 1024 + l" "l < 1024" by (simp_all add: h_def l_def)
    moreover have "r < 0x110000" using 3 by (auto simp: scalar_def)
    ultimately have h: "h < 1024" and r: "r = h * 1024 + l + 0x10000" using 3 by linarith+
    show thesis
      using pair [of "of_nat (0xD800 + h)" "of_nat (0xDC00 + l)"] 3 h hl(2) r
      by (simp add: encode_utf16_def h_def [symmetric] l_def [symmetric]
          is_hi_def is_lo_def word_le_nat_alt unat_of_nat16 del: of_nat_add)
  qed
qed

lemma wf16_units_of_runes [simp]: "wf16 (units_of_runes rs)"
proof (induction rs)
  case (Cons r rs)
  have "wf16 (encode_utf16 r)"
    by (rule encode_utf16_shape [of r]) auto
  with Cons show ?case by (simp add: units_of_runes_def wf16_append)
qed (simp add: units_of_runes_def)

lemma decode_units_of_runes: "\<forall>r \<in> set rs. scalar r \<Longrightarrow> decode_utf16 (units_of_runes rs) = rs"
proof (induction rs)
  case (Cons r rs)
  let ?u = "units_of_runes rs"
  have IH: "decode_utf16 ?u = rs" and r: "scalar r" using Cons by simp_all
  have "decode_utf16 (encode_utf16 r @ ?u) = r # decode_utf16 ?u"
  proof (rule encode_utf16_shape [of r])
    fix x assume "encode_utf16 r = [x]" "\<not> is_hi x" "\<not> is_lo x" "scalar r \<longrightarrow> unat x = r"
    then show ?thesis using r by (cases ?u) simp_all
  qed simp
  then show ?case using IH by (simp add: units_of_runes_def)
qed (simp add: units_of_runes_def)

lemma encode_decode_utf16:
  "wf16 u \<Longrightarrow> units_of_runes (decode_utf16 u) = u \<and> (\<forall>r \<in> set (decode_utf16 u). scalar r)"
proof (induction u rule: wf16.induct)
  case 1
  then show ?case by (simp add: units_of_runes_def)
next
  case (2 x)
  then have "scalar (unat x)"
    using u16_bound [of x] by (auto simp: scalar_def is_hi_def is_lo_def word_le_nat_alt)
  with 2 show ?case using u16_bound [of x] by (simp add: units_of_runes_def encode_utf16_def)
next
  case (3 x y u)
  show ?case
  proof (cases "is_hi x")
    case True
    then have y: "is_lo y" "wf16 u" using 3 by auto
    let ?r = "(unat x - 0xD800) * 1024 + (unat y - 0xDC00) + 0x10000"
    have lim: "0xD800 \<le> unat x" "unat x \<le> 0xDBFF" "0xDC00 \<le> unat y" "unat y \<le> 0xDFFF"
      using True y(1) by (auto simp: is_hi_def is_lo_def word_le_nat_alt)
    then have r: "scalar ?r" by (simp add: scalar_def)
    have "(h * 1024 + l) div 1024 = h \<and> (h * 1024 + l) mod 1024 = l" if "l < 1024" for h l :: nat
      using that by simp
    moreover have "?r - 0x10000 = (unat x - 0xD800) * 1024 + (unat y - 0xDC00)" by simp
    ultimately have
      "(?r - 0x10000) div 1024 = unat x - 0xD800" "(?r - 0x10000) mod 1024 = unat y - 0xDC00"
      using lim by (simp_all only:)
    then have "encode_utf16 ?r = [x, y]"
      using r lim by (simp add: encode_utf16_def del: of_nat_add)
    then show ?thesis using True y r "3.IH"(1) by (simp add: units_of_runes_def)
  next
    case False
    then have x: "\<not> is_lo x" "wf16 (y # u)" using 3 by auto
    then have "scalar (unat x)"
      using False u16_bound [of x] by (auto simp: scalar_def is_hi_def is_lo_def word_le_nat_alt)
    then show ?thesis using False x "3.IH"(2) u16_bound [of x]
      by (simp add: units_of_runes_def encode_utf16_def)
  qed
qed

section \<open>Validity of concatenations\<close>

lemma valid_string_runes_append: "\<forall>r \<in> set rs. scalar r \<Longrightarrow> valid_string (string_of_runes rs @ t) = valid_string t"
proof (induction rs)
  case (Cons r rs)
  have r: "scalar r" using Cons.prems by simp
  let ?u = "string_of_runes rs @ t" and ?s = "encode_rune r @ string_of_runes rs @ t"
  have d: "decode_rune ?s = (r, length (encode_rune r))" by (rule decode_encode [OF r])
  have e: "decode_rune ?s \<noteq> (rune_error, 1)" by (rule decode_not_error [OF r])
  have "?s \<noteq> []" by simp
  then have "valid_string ?s = valid_string (drop (snd (decode_rune ?s)) ?s)" using e valid_string_cons [of ?s] by blast
  moreover have "drop (snd (decode_rune ?s)) ?s = ?u" unfolding d by simp
  moreover have "valid_string ?u = valid_string t" using Cons by simp
  moreover have "string_of_runes (r # rs) @ t = ?s" by (simp add: string_of_runes_def)
  ultimately show ?case by (simp only:)
qed (simp add: string_of_runes_def)

lemma valid_string_append: "valid_string s \<Longrightarrow> valid_string (s @ t) = valid_string t"
  using valid_string_runes_append [of "runes s" t] valid_string_runes [of s] by simp

lemma ascii_valid: "\<forall>c \<in> set s. bv c < 0x80 \<Longrightarrow> valid_string s"
  using ascii_string by blast

text \<open>An ASCII byte always starts a rune, so a valid string may be cut before it.\<close>

lemma decode_before_ascii:
  assumes b: "b \<noteq> []" and c: "bv c < 0x80" and d: "decode_rune (b @ c # r) \<noteq> (rune_error, 1)"
  shows "decode_rune b = decode_rune (b @ c # r) \<and> snd (decode_rune b) \<le> length b"
proof -
  have hi: "char_of (0x80 + n) \<noteq> c" if "n < 64" for n :: nat
    using c that bv_char_of [of "0x80 + n"] by auto
  have ne: "b @ c # r \<noteq> []" by simp
  from ne d show ?thesis
  proof (cases rule: decode_shape)
    case (one x t)
    then show ?thesis using b by (cases b) (simp_all add: decode_rune_def seq_len_def)
  next
    case (two x y u)
    then obtain b' where "b = char_of (0xC0 + x) # char_of (0x80 + y) # b'"
      using b hi [OF two(4)] by (cases b; cases "tl b") auto
    then show ?thesis using two by (simp add: decode2)
  next
    case (three x y z u)
    then obtain b' where "b = char_of (0xE0 + x) # char_of (0x80 + y) # char_of (0x80 + z) # b'"
      using b hi [OF three(3)] hi [OF three(4)] by (cases b; cases "tl b"; cases "tl (tl b)") auto
    then show ?thesis using three by (simp add: decode3)
  next
    case (four x y z w u)
    then obtain b' where "b = char_of (0xF0 + x) # char_of (0x80 + y) # char_of (0x80 + z) # char_of (0x80 + w) # b'"
      using b hi [OF four(3)] hi [OF four(4)] hi [OF four(5)] by (cases b; cases "tl b"; cases "tl (tl b)"; cases "tl (tl (tl b))") auto
    then show ?thesis using four by (simp add: decode4)
  qed
qed

lemma valid_ascii_Cons [simp]: "bv c < 0x80 \<Longrightarrow> valid_string (c # s) = valid_string s"
  using valid_string_append [of "[c]" s] ascii_valid [of "[c]"] by simp

lemma valid_before_ascii:
  "bv c < 0x80 \<Longrightarrow> valid_string (b @ c # r) \<longleftrightarrow> valid_string b \<and> valid_string r"
proof
  assume c: "bv c < 0x80" and "valid_string (b @ c # r)"
  from this(2) show "valid_string b \<and> valid_string r"
  proof (induction b rule: length_induct)
    case (1 b)
    show ?case
    proof (cases "b = []")
      case True
      then show ?thesis using 1 c by simp
    next
      case False
      have ne: "b @ c # r \<noteq> []" by simp
      note v = "1.prems" [unfolded valid_string_cons [OF ne]]
      note d = decode_before_ascii [OF False c v [THEN conjunct1]]
      let ?n = "snd (decode_rune b)"
      have eq: "decode_rune (b @ c # r) = decode_rune b" and le: "?n \<le> length b" using d by (blast intro: sym, blast)
      have "drop ?n (b @ c # r) = drop ?n b @ c # r" using le by simp
      then have "valid_string (drop ?n b @ c # r)" using v unfolding eq by simp
      moreover have "length (drop ?n b) < length b" using decode_rune_progress [OF False] False by simp
      ultimately have "valid_string (drop ?n b) \<and> valid_string r" using "1.IH" by blast
      then show ?thesis using v d valid_string_cons [OF False] by simp
    qed
  qed
next
  assume "bv c < 0x80" "valid_string b \<and> valid_string r"
  then show "valid_string (b @ c # r)" by (simp add: valid_string_append)
qed

end
