(* ===== verification/Textop_Doc.thy ===== *)
theory Textop_Doc
  imports Unicode
begin

text \<open>
  Documents and limits of the text-operation core: \<^verbatim>\<open>internal/core/textop/textop.go\<close>
  (errors, \<open>Limits\<close>), \<^verbatim>\<open>doc.go\<close> (\<open>Doc\<close>) and \<^verbatim>\<open>textopUtil.go\<close>.
  A document is its list of UTF-16 units. The lemmas relate the code's boundary test
  and byte counter to well-formed UTF-16: a boundary of a well-formed document splits
  it into two well-formed parts, and the counter adds up over such parts.
\<close>

section \<open>Errors and limits\<close>

text \<open>\<open>ErrComponent i e\<close> is \<^verbatim>\<open>fmt.Errorf("component %d: %w", i, e)\<close>.\<close>

datatype textop_error =
    ErrInvalidUTF8 | ErrInvalidJSON | ErrInvalidCount | ErrNonCanonical | ErrLengthMismatch
  | ErrSplitsSurrogate | ErrInvalidUnicode | ErrLimit | ErrInvalidLimits
  | ErrComponent nat textop_error

record limits =
  MaxUnits :: int
  MaxDocBytes :: int
  MaxComponents :: int
  MaxJSONBytes :: int

definition default_limits :: limits where
  "default_limits = \<lparr>MaxUnits = 8 * 2 ^ 20, MaxDocBytes = 8 * 2 ^ 20,
     MaxComponents = 65536, MaxJSONBytes = 2 ^ 20\<rparr>"

definition limits_check :: "limits \<Rightarrow> textop_error + unit" where
  "limits_check l =
    (if MaxUnits l \<le> 0 \<or> MaxDocBytes l \<le> 0 \<or> MaxComponents l \<le> 0 \<or> MaxJSONBytes l \<le> 0
     then Inl ErrInvalidLimits
     else if MaxUnits l > 2 ^ 53 - 1 then Inl ErrInvalidLimits
     else Inr ())"

lemma limits_check_Inr:
  "limits_check l = Inr x \<longleftrightarrow> 0 < MaxUnits l \<and> MaxUnits l < 2 ^ 53 \<and> 0 < MaxDocBytes l
     \<and> 0 < MaxComponents l \<and> 0 < MaxJSONBytes l"
  by (auto simp: limits_check_def)

lemma limits_check_Inl: "limits_check l = Inl e \<Longrightarrow> e = ErrInvalidLimits"
  by (auto simp: limits_check_def split: if_splits)

lemma default_limits_ok: "limits_check default_limits = Inr ()"
  by (simp add: limits_check_def default_limits_def)

section \<open>Documents\<close>

record doc =
  units :: "u16 list"

fun units_in_loop :: "nat list \<Rightarrow> int \<Rightarrow> int \<Rightarrow> textop_error + int" where
  "units_in_loop [] limit n = Inr n"
| "units_in_loop (r # rs) limit n =
    (let width = (if r > 0xFFFF then 2 else 1) in
     if width > limit - n then Inl ErrLimit else units_in_loop rs limit (n + width))"

definition units_in :: "string \<Rightarrow> int \<Rightarrow> textop_error + int" where
  "units_in s limit = (if \<not> valid_string s then Inl ErrInvalidUTF8
     else units_in_loop (runes s) limit 0)"

definition doc_from_string :: "limits \<Rightarrow> string \<Rightarrow> textop_error + doc" where
  "doc_from_string l s =
    rbind (limits_check l) (\<lambda>_.
    if int (length s) > MaxDocBytes l then Inl ErrLimit
    else rbind (units_in s (MaxUnits l)) (\<lambda>n.
      Inr \<lparr>units = units_of_runes (runes s)\<rparr>))"

definition doc_string :: "doc \<Rightarrow> string" where
  "doc_string d = string_of_runes (decode_utf16 (units d))"

definition doc_len :: "doc \<Rightarrow> int" where
  "doc_len d = int (length (units d))"

section \<open>Boundaries and byte counts\<close>

definition boundary :: "u16 list \<Rightarrow> int \<Rightarrow> bool" where
  "boundary u p \<longleftrightarrow> p = 0 \<or> p = int (length u) \<or> u ! nat (p - 1) < 0xD800 \<or> u ! nat (p - 1) > 0xDBFF
     \<or> u ! nat p < 0xDC00 \<or> u ! nat p > 0xDFFF"

function count_bytes_loop :: "u16 list \<Rightarrow> int \<Rightarrow> int \<Rightarrow> textop_error + int" where
  "count_bytes_loop [] budget n = Inr n"
| "count_bytes_loop (x # u) budget n =
    (let width = (if x < 0x80 then 1 else if x < 0x800 then 2
                  else if 0xD800 \<le> x \<and> x \<le> 0xDBFF then 4 else 3);
         u' = (if \<not> x < 0x80 \<and> \<not> x < 0x800 \<and> 0xD800 \<le> x \<and> x \<le> 0xDBFF then drop 1 u else u)
     in if width > budget - n then Inl ErrLimit else count_bytes_loop u' budget (n + width))"
  by pat_completeness auto
termination
  by (relation "measure (\<lambda>(u, _, _). length u)") auto

definition count_bytes :: "u16 list \<Rightarrow> int \<Rightarrow> textop_error + int" where
  "count_bytes u budget = count_bytes_loop u budget 0"

text \<open>The UTF-8 size of well-formed units, as a reference for the counter.\<close>

definition rune_width :: "nat \<Rightarrow> int" where
  "rune_width r = int (length (encode_rune r))"

definition byte_size :: "u16 list \<Rightarrow> int" where
  "byte_size u = sum_list (map rune_width (decode_utf16 u))"

lemma rune_width_eq:
  "scalar r \<Longrightarrow> rune_width r =
     (if r < 0x80 then 1 else if r < 0x800 then 2 else if r < 0x10000 then 3 else 4)"
  by (simp add: rune_width_def encode_rune_def Let_def)

lemma rune_width_pos: "0 < rune_width r"
  by (simp add: rune_width_def)

lemma byte_size_nonneg: "0 \<le> byte_size u"
  unfolding byte_size_def by (rule sum_list_nonneg_int) (simp add: rune_width_pos less_imp_le)

lemma byte_size_Nil [simp]: "byte_size [] = 0"
  by (simp add: byte_size_def)

lemma decode_utf16_append:
  "wf16 u \<Longrightarrow> decode_utf16 (u @ v) = decode_utf16 u @ decode_utf16 v"
proof (induction u rule: wf16.induct)
  case (2 x)
  then show ?case by (cases v) auto
qed (auto split: if_splits)

lemma byte_size_append: "wf16 u \<Longrightarrow> byte_size (u @ v) = byte_size u + byte_size v"
  by (simp add: byte_size_def decode_utf16_append)

lemma doc_string_length: "int (length (doc_string d)) = byte_size (units d)"
proof -
  have "int (length (string_of_runes rs)) = sum_list (map rune_width rs)" for rs
    by (induction rs) (simp_all add: string_of_runes_def rune_width_def)
  then show ?thesis by (simp add: doc_string_def byte_size_def)
qed

text \<open>The counter succeeds exactly within its budget, and then counts the UTF-8 size.\<close>

lemma bmp_width:
  assumes "\<not> is_hi x" "\<not> is_lo x"
  shows "rune_width (unat x) = (if x < 0x80 then 1 else if x < 0x800 then 2 else 3)"
proof -
  have "scalar (unat x)"
    using assms u16_bound [of x] by (auto simp: scalar_def is_hi_def is_lo_def word_le_nat_alt)
  then show ?thesis using u16_bound [of x] by (simp add: rune_width_eq word_less_nat_alt)
qed

lemma byte_size_bmp:
  "\<not> is_hi x \<Longrightarrow> \<not> is_lo x \<Longrightarrow> byte_size (x # u) = rune_width (unat x) + byte_size u"
  by (cases u) (auto simp: byte_size_def)

lemma byte_size_pair:
  assumes "is_hi x" "is_lo y"
  shows "byte_size (x # y # u) = 4 + byte_size u"
proof -
  let ?r = "(unat x - 0xD800) * 1024 + (unat y - 0xDC00) + 0x10000"
  have "scalar ?r" using assms by (auto simp: scalar_def is_hi_def is_lo_def word_le_nat_alt)
  then show ?thesis using assms by (simp add: byte_size_def rune_width_eq)
qed

lemma hi_not_low: "is_hi x \<Longrightarrow> \<not> x < 0x80 \<and> \<not> x < 0x800"
  by (auto simp: is_hi_def word_le_nat_alt word_less_nat_alt)

lemma count_bytes_loop_eq:
  "wf16 u \<Longrightarrow> n \<le> budget \<Longrightarrow> count_bytes_loop u budget n =
     (if n + byte_size u \<le> budget then Inr (n + byte_size u) else Inl ErrLimit)"
proof (induction u budget n rule: count_bytes_loop.induct)
  case (2 x u budget n)
  show ?case
  proof (cases "is_hi x")
    case True
    then obtain y v where u: "u = y # v" "is_lo y" "wf16 v" using "2.prems" by (auto simp: wf16_hi)
    show ?thesis
      using "2.IH" [OF refl refl] "2.prems" True u hi_not_low [OF True] byte_size_nonneg [of v]
      by (auto simp: byte_size_pair is_hi_def)
  next
    case False
    then have x: "\<not> is_lo x" "wf16 u" using "2.prems" by (auto simp: wf16_bmp)
    define w where "w = rune_width (unat x)"
    have "count_bytes_loop (x # u) budget n =
        (if w > budget - n then Inl ErrLimit else count_bytes_loop u budget (n + w))"
      using False bmp_width [OF False x(1)] by (auto simp: Let_def is_hi_def w_def)
    moreover have "w \<le> budget - n \<Longrightarrow> count_bytes_loop u budget (n + w) =
        (if n + w + byte_size u \<le> budget then Inr (n + w + byte_size u) else Inl ErrLimit)"
      using "2.IH" [OF refl refl] False x bmp_width [OF False x(1)]
      by (auto simp: Let_def is_hi_def w_def split: if_splits)
    ultimately show ?thesis
      using byte_size_bmp [OF False x(1)] byte_size_nonneg [of u]
      by (auto simp: w_def [symmetric])
  qed
qed simp

lemma count_bytes_eq:
  "wf16 u \<Longrightarrow> 0 \<le> budget \<Longrightarrow>
     count_bytes u budget = (if byte_size u \<le> budget then Inr (byte_size u) else Inl ErrLimit)"
  by (simp add: count_bytes_def count_bytes_loop_eq)

text \<open>A boundary of a well-formed document splits it into well-formed parts.\<close>

lemma boundary_append:
  "boundary (u @ v) (int (length u)) \<longleftrightarrow>
     \<not> (u \<noteq> [] \<and> v \<noteq> [] \<and> is_hi (last u) \<and> is_lo (hd v))"
proof (cases "u = [] \<or> v = []")
  case False
  then have "(u @ v) ! nat (int (length u) - 1) = last u" "(u @ v) ! length u = hd v"
    by (auto simp: last_conv_nth hd_conv_nth nth_append nat_diff_distrib')
  with False show ?thesis by (auto simp: boundary_def is_hi_def is_lo_def not_le not_less)
qed (auto simp: boundary_def)

lemma wf16_split:
  "wf16 (u @ v) \<Longrightarrow>
     wf16 u \<longleftrightarrow> \<not> (u \<noteq> [] \<and> v \<noteq> [] \<and> is_hi (last u) \<and> is_lo (hd v))"
proof (induction u rule: wf16.induct)
  case (2 x)
  then show ?case by (cases v) (auto dest: not_hi_lo split: if_splits)
next
  case (3 x y u)
  then show ?case by (cases "u = []") (auto dest: not_hi_lo split: if_splits)
qed simp

lemma boundary_iff:
  "wf16 (u @ v) \<Longrightarrow> boundary (u @ v) (int (length u)) \<longleftrightarrow> wf16 u"
  by (simp add: boundary_append wf16_split)

lemma boundary_take:
  assumes "wf16 u" "0 \<le> p" "p \<le> int (length u)"
  shows "boundary u p \<longleftrightarrow> wf16 (take (nat p) u)"
proof -
  have "int (length (take (nat p) u)) = p" using assms by auto
  then show ?thesis using boundary_iff [of "take (nat p) u" "drop (nat p) u"] assms by simp
qed

text \<open>
  At an offset \<open>p\<close> that is itself a boundary, the next piece is well formed exactly when
  it ends at a boundary.
\<close>

lemma boundary_piece:
  assumes "wf16 u" "wf16 (take p u)" "p + n \<le> length u"
  shows "boundary u (int (p + n)) \<longleftrightarrow> wf16 (take n (drop p u))"
proof -
  have "take (p + n) u = take p u @ take n (drop p u)" by (rule take_add)
  then show ?thesis
    using assms boundary_take [of u "int (p + n)"] by (simp add: wf16_append nat_int_add)
qed

section \<open>Conversions\<close>

lemma doc_from_string_wf:
  "doc_from_string l s = Inr d \<Longrightarrow> wf16 (units d) \<and> doc_string d = s"
  by (auto simp: doc_from_string_def doc_string_def units_in_def sum_split
      decode_units_of_runes valid_string_runes split: if_splits)

lemma units_in_loop_eq:
  "\<forall>r \<in> set rs. scalar r \<Longrightarrow> n \<le> limit \<Longrightarrow> units_in_loop rs limit n =
     (if n + int (length (units_of_runes rs)) \<le> limit
      then Inr (n + int (length (units_of_runes rs))) else Inl ErrLimit)"
proof (induction rs arbitrary: n)
  case (Cons r rs)
  have w: "int (length (encode_utf16 r)) = (if r > 0xFFFF then 2 else 1)"
    using Cons.prems(1) by (simp add: encode_utf16_def)
  show ?case
  proof (cases "(if r > 0xFFFF then 2 else 1) > limit - n")
    case True
    then show ?thesis using w by (auto simp: units_of_runes_def split: if_splits)
  next
    case False
    then show ?thesis
      using Cons.IH [of "n + (if r > 0xFFFF then 2 else 1)"] Cons.prems w
      by (auto simp: units_of_runes_def split: if_splits)
  qed
qed (simp add: units_of_runes_def)

end
