(* ===== verification/Textop_Op.thy ===== *)
theory Textop_Op
  imports Textop_Doc
begin

text \<open>
  Operations: \<^verbatim>\<open>internal/core/textop/op.go\<close> and the canonical form that
  \<^verbatim>\<open>doc.go\<close> states (positive components, adjacent components of different kinds,
  insertion before deletion at a position).

  The abstract meaning of a component list is \<open>run\<close>: the text it produces from the text
  it consumes. \<open>cuts\<close> says that every piece it consumes is well-formed UTF-16, which is
  what validation against a document establishes. \<open>refines\<close> compares two component lists
  by these meanings; it is the contract between the builder and its clients.
\<close>

datatype kind = Retain | Insert | DeleteText

record component =
  c_kind :: kind
  c_n :: int
  c_u :: "u16 list"

record op =
  comps :: "component list"
  op_base :: int
  op_target :: int

definition empty_op :: op where
  "empty_op = \<lparr>comps = [], op_base = 0, op_target = 0\<rparr>"

abbreviation mk_retain :: "int \<Rightarrow> component" where
  "mk_retain n \<equiv> \<lparr>c_kind = Retain, c_n = n, c_u = []\<rparr>"

abbreviation mk_delete :: "int \<Rightarrow> component" where
  "mk_delete n \<equiv> \<lparr>c_kind = DeleteText, c_n = n, c_u = []\<rparr>"

abbreviation mk_insert :: "u16 list \<Rightarrow> component" where
  "mk_insert u \<equiv> \<lparr>c_kind = Insert, c_n = int (length u), c_u = u\<rparr>"

definition admit :: "limits \<Rightarrow> op \<Rightarrow> textop_error + unit" where
  "admit l o1 =
    (if op_base o1 > MaxUnits l \<or> op_target o1 > MaxUnits l \<or> int (length (comps o1)) > MaxComponents l
     then Inl ErrLimit else Inr ())"

lemma admit_Inr:
  "admit l o1 = Inr x \<longleftrightarrow> op_base o1 \<le> MaxUnits l \<and> op_target o1 \<le> MaxUnits l
     \<and> int (length (comps o1)) \<le> MaxComponents l"
  by (auto simp: admit_def)

section \<open>Well-formed components and canonical operations\<close>

text \<open>A component that a builder call can emit: a count, or well-formed text.\<close>

fun comp_ok :: "component \<Rightarrow> bool" where
  "comp_ok c \<longleftrightarrow> (case c_kind c of
      Insert \<Rightarrow> c_n c = int (length (c_u c)) \<and> wf16 (c_u c)
    | _ \<Rightarrow> 0 \<le> c_n c \<and> c_u c = [])"

declare comp_ok.simps [simp del]

lemma comp_ok_cases:
  assumes "comp_ok c"
  obtains (retain) n where "c = mk_retain n" "0 \<le> n"
    | (insert) u where "c = mk_insert u" "wf16 u"
    | (delete) n where "c = mk_delete n" "0 \<le> n"
proof -
  obtain k n u where c: "c = \<lparr>c_kind = k, c_n = n, c_u = u\<rparr>" by (cases c)
  show thesis using assms retain insert delete by (cases k) (auto simp: c comp_ok.simps)
qed

lemma comp_ok_simps [simp]:
  "comp_ok (mk_retain n) \<longleftrightarrow> 0 \<le> n"
  "comp_ok (mk_delete n) \<longleftrightarrow> 0 \<le> n"
  "comp_ok \<lparr>c_kind = Insert, c_n = n, c_u = u\<rparr> \<longleftrightarrow> n = int (length u) \<and> wf16 u"
  by (simp_all add: comp_ok.simps)

lemma comp_ok_nonneg: "comp_ok c \<Longrightarrow> 0 \<le> c_n c"
  by (cases rule: comp_ok_cases) auto

definition follows :: "component \<Rightarrow> component \<Rightarrow> bool" where
  "follows c d \<longleftrightarrow> c_kind c \<noteq> c_kind d \<and> \<not> (c_kind c = DeleteText \<and> c_kind d = Insert)"

definition canonical :: "component list \<Rightarrow> bool" where
  "canonical cs \<longleftrightarrow> (\<forall>c \<in> set cs. comp_ok c \<and> 0 < c_n c) \<and> successively follows cs"

section \<open>Lengths and meaning\<close>

definition consumes :: "component \<Rightarrow> int" where
  "consumes c = (if c_kind c = Insert then 0 else c_n c)"

definition produces :: "component \<Rightarrow> int" where
  "produces c = (if c_kind c = DeleteText then 0 else c_n c)"

definition consumed :: "component list \<Rightarrow> int" where
  "consumed cs = sum_list (map consumes cs)"

definition produced :: "component list \<Rightarrow> int" where
  "produced cs = sum_list (map produces cs)"

lemma consumed_simps [simp]:
  "consumed [] = 0" "consumed (c # cs) = consumes c + consumed cs"
  "consumed (cs @ ds) = consumed cs + consumed ds"
  by (simp_all add: consumed_def)

lemma produced_simps [simp]:
  "produced [] = 0" "produced (c # cs) = produces c + produced cs"
  "produced (cs @ ds) = produced cs + produced ds"
  by (simp_all add: produced_def)

lemma consumes_simps [simp]:
  "consumes \<lparr>c_kind = Retain, c_n = n, c_u = u\<rparr> = n"
  "consumes \<lparr>c_kind = DeleteText, c_n = n, c_u = u\<rparr> = n"
  "consumes \<lparr>c_kind = Insert, c_n = n, c_u = u\<rparr> = 0"
  by (simp_all add: consumes_def)

lemma produces_simps [simp]:
  "produces \<lparr>c_kind = Retain, c_n = n, c_u = u\<rparr> = n"
  "produces \<lparr>c_kind = DeleteText, c_n = n, c_u = u\<rparr> = 0"
  "produces \<lparr>c_kind = Insert, c_n = n, c_u = u\<rparr> = n"
  by (simp_all add: produces_def)

definition all_ok :: "component list \<Rightarrow> bool" where
  "all_ok cs \<longleftrightarrow> (\<forall>c \<in> set cs. comp_ok c)"

lemma all_ok_simps [simp]:
  "all_ok []" "all_ok (c # cs) \<longleftrightarrow> comp_ok c \<and> all_ok cs"
  "all_ok (cs @ ds) \<longleftrightarrow> all_ok cs \<and> all_ok ds"
  by (auto simp: all_ok_def)

lemma canonical_all_ok: "canonical cs \<Longrightarrow> all_ok cs"
  by (simp add: canonical_def all_ok_def)

lemma consumes_nonneg: "comp_ok c \<Longrightarrow> 0 \<le> consumes c"
  by (simp add: consumes_def comp_ok_nonneg)

lemma produces_nonneg: "comp_ok c \<Longrightarrow> 0 \<le> produces c"
  by (simp add: produces_def comp_ok_nonneg)

lemma consumed_nonneg: "all_ok cs \<Longrightarrow> 0 \<le> consumed cs"
  by (induction cs) (auto simp: consumes_nonneg)

lemma produced_nonneg: "all_ok cs \<Longrightarrow> 0 \<le> produced cs"
  by (induction cs) (auto simp: produces_nonneg)

fun run :: "component list \<Rightarrow> u16 list \<Rightarrow> u16 list" where
  "run [] d = []"
| "run (c # cs) d =
    (case c_kind c of
       Retain \<Rightarrow> take (nat (c_n c)) d @ run cs (drop (nat (c_n c)) d)
     | Insert \<Rightarrow> c_u c @ run cs d
     | DeleteText \<Rightarrow> run cs (drop (nat (c_n c)) d))"

fun cuts :: "component list \<Rightarrow> u16 list \<Rightarrow> bool" where
  "cuts [] d = True"
| "cuts (c # cs) d =
    (case c_kind c of
       Insert \<Rightarrow> cuts cs d
     | _ \<Rightarrow> wf16 (take (nat (c_n c)) d) \<and> cuts cs (drop (nat (c_n c)) d))"

lemma run_append:
  "all_ok cs \<Longrightarrow> run (cs @ ds) d = run cs d @ run ds (drop (nat (consumed cs)) d)"
proof (induction cs arbitrary: d)
  case (Cons c cs)
  then have "0 \<le> consumed cs" by (simp add: consumed_nonneg)
  with Cons show ?case
    by (auto elim!: comp_ok_cases simp: nat_add_distrib add.commute)
qed simp

lemma cuts_append:
  "all_ok cs \<Longrightarrow> cuts (cs @ ds) d \<longleftrightarrow> cuts cs d \<and> cuts ds (drop (nat (consumed cs)) d)"
proof (induction cs arbitrary: d)
  case (Cons c cs)
  then have "0 \<le> consumed cs" by (simp add: consumed_nonneg)
  with Cons show ?case
    by (auto elim!: comp_ok_cases simp: nat_add_distrib add.commute)
qed simp

lemma length_run:
  "all_ok cs \<Longrightarrow> consumed cs \<le> int (length d) \<Longrightarrow> int (length (run cs d)) = produced cs"
proof (induction cs arbitrary: d)
  case (Cons c cs)
  then have "0 \<le> consumed cs" by (simp add: consumed_nonneg)
  with Cons.prems(2) have "consumes c \<le> int (length d)" by simp
  with Cons show ?case by (auto elim!: comp_ok_cases)
qed simp

lemma wf16_run: "all_ok cs \<Longrightarrow> cuts cs d \<Longrightarrow> wf16 (run cs d)"
  by (induction cs arbitrary: d) (auto elim!: comp_ok_cases simp: wf16_append)

text \<open>
  \<open>ds\<close> refines \<open>cs\<close>: same lengths, same text on every document, and no new cut inside a
  pair.
\<close>

definition refines :: "component list \<Rightarrow> component list \<Rightarrow> bool" where
  "refines cs ds \<longleftrightarrow> consumed ds = consumed cs \<and> produced ds = produced cs \<and>
     (\<forall>d. consumed cs \<le> int (length d) \<longrightarrow> run ds d = run cs d \<and> (cuts cs d \<longrightarrow> cuts ds d))"

lemma refines_refl [simp]: "refines cs cs"
  by (simp add: refines_def)

lemma refines_trans: "refines cs ds \<Longrightarrow> refines ds es \<Longrightarrow> refines cs es"
  by (simp add: refines_def)

lemma refines_append:
  assumes "refines cs ds" "all_ok cs" "all_ok ds" "all_ok es"
  shows "refines (cs @ es) (ds @ es)"
  using assms consumed_nonneg [OF assms(4)]
  by (auto simp: refines_def run_append cuts_append)

lemma refinesD:
  assumes "refines cs ds" "consumed cs \<le> int (length d)"
  shows "consumed ds = consumed cs" "produced ds = produced cs" "run ds d = run cs d"
    "cuts cs d \<Longrightarrow> cuts ds d"
  using assms by (auto simp: refines_def)

text \<open>An operation as the package constructs it.\<close>

definition op_ok :: "op \<Rightarrow> bool" where
  "op_ok o1 \<longleftrightarrow> canonical (comps o1) \<and> op_base o1 = consumed (comps o1)
     \<and> op_target o1 = produced (comps o1)"

end
