(* ===== verification/Textop_Builder.thy ===== *)
theory Textop_Builder
  imports Textop_Op
begin

text \<open>
  The operation builder: \<^verbatim>\<open>internal/core/textop/builder.go\<close>. The state is the
  \<open>Builder\<close> struct; every method is a state transformer. Errors are sticky: once
  \<open>b_err\<close> is set, no method changes it.

  The locale \<open>op_sink\<close> is the interface that the algebra (\<open>Compose\<close>, \<open>Transform\<close>)
  and the parser rely on: emitting a component either fails for good or appends it up
  to \<open>refines\<close>. The builder is proved to implement it.
\<close>

section \<open>The builder\<close>

record builder =
  b_limits :: limits
  b_configured :: bool
  b_comps :: "component list"
  b_base :: int
  b_target :: int
  b_err :: "textop_error option"

text \<open>The zero value; \<open>b_limits\<close> is unused until \<open>initLimits\<close> replaces it.\<close>

definition zero_builder :: builder where
  "zero_builder = \<lparr>b_limits = \<lparr>MaxUnits = 0, MaxDocBytes = 0, MaxComponents = 0, MaxJSONBytes = 0\<rparr>,
     b_configured = False, b_comps = [], b_base = 0, b_target = 0, b_err = None\<rparr>"

definition new_builder :: "limits \<Rightarrow> textop_error + builder" where
  "new_builder l = rbind (limits_check l)
     (\<lambda>_. Inr (zero_builder\<lparr>b_limits := l, b_configured := True\<rparr>))"

definition init_limits :: "builder \<Rightarrow> builder" where
  "init_limits b = (if \<not> b_configured b
     then b\<lparr>b_limits := default_limits, b_configured := True\<rparr> else b)"

definition grow :: "int \<Rightarrow> int \<Rightarrow> builder \<Rightarrow> builder \<times> bool" where
  "grow dbase dtarget b0 =
    (let b = init_limits b0 in
     if b_err b \<noteq> None then (b, False)
     else if dbase < 0 \<or> dtarget < 0 then (b\<lparr>b_err := Some ErrInvalidCount\<rparr>, False)
     else if dbase > MaxUnits (b_limits b) - b_base b \<or> dtarget > MaxUnits (b_limits b) - b_target b
     then (b\<lparr>b_err := Some ErrLimit\<rparr>, False)
     else (b\<lparr>b_base := b_base b + dbase, b_target := b_target b + dtarget\<rparr>, True))"

definition append_comp :: "component \<Rightarrow> builder \<Rightarrow> builder" where
  "append_comp c b =
    (if int (length (b_comps b)) \<ge> MaxComponents (b_limits b) then b\<lparr>b_err := Some ErrLimit\<rparr>
     else b\<lparr>b_comps := b_comps b @ [c]\<rparr>)"

text \<open>
  \<open>insertUnits\<close>: after \<open>grow\<close> the text joins the last insertion, also the one that stands
  before a final deletion; otherwise it becomes a component of its own, moved before a
  final deletion.
\<close>

definition place_insert :: "u16 list \<Rightarrow> builder \<Rightarrow> builder" where
  "place_insert u b =
    (let cs = b_comps b;
         last = int (length cs) - 1;
         i = (if last \<ge> 0 \<and> c_kind (cs ! nat last) = DeleteText then last - 1 else last)
     in if i \<ge> 0 \<and> c_kind (cs ! nat i) = Insert
        then let c = cs ! nat i in
             b\<lparr>b_comps := cs[nat i := c\<lparr>c_u := c_u c @ u, c_n := c_n c + int (length u)\<rparr>]\<rparr>
        else let c = mk_insert u in
             if last \<ge> 0 \<and> c_kind (cs ! nat last) = DeleteText
             then let d = cs ! nat last; b' = append_comp d b in
                  if b_err b' = None then b'\<lparr>b_comps := (b_comps b')[nat last := c]\<rparr> else b'
             else append_comp c b)"

definition insert_units :: "u16 list \<Rightarrow> builder \<Rightarrow> builder" where
  "insert_units u b0 =
    (case grow 0 (int (length u)) b0 of (b, ok) \<Rightarrow>
     if \<not> ok \<or> u = [] then b else place_insert u b)"

text \<open>\<open>Retain\<close> and \<open>Delete\<close> grow the counts and merge with a last component of their kind.\<close>

definition merge_last :: "component \<Rightarrow> builder \<Rightarrow> builder" where
  "merge_last c b =
    (let cs = b_comps b; i = int (length cs) - 1 in
     if i \<ge> 0 \<and> c_kind (cs ! nat i) = c_kind c
     then b\<lparr>b_comps := cs[nat i := (cs ! nat i)\<lparr>c_n := c_n (cs ! nat i) + c_n c\<rparr>]\<rparr>
     else append_comp c b)"

definition retain :: "int \<Rightarrow> builder \<Rightarrow> builder" where
  "retain n b0 = (case grow n n b0 of (b, ok) \<Rightarrow>
     if \<not> ok \<or> n = 0 then b else merge_last (mk_retain n) b)"

definition delete :: "int \<Rightarrow> builder \<Rightarrow> builder" where
  "delete n b0 = (case grow n 0 b0 of (b, ok) \<Rightarrow>
     if \<not> ok \<or> n = 0 then b else merge_last (mk_delete n) b)"

definition insert_string :: "string \<Rightarrow> builder \<Rightarrow> builder" where
  "insert_string s b0 =
    (let b = init_limits b0 in
     if b_err b \<noteq> None then b
     else case units_in s (MaxUnits (b_limits b) - b_target b) of
       Inl e \<Rightarrow> b\<lparr>b_err := Some e\<rparr>
     | Inr n \<Rightarrow> insert_units (units_of_runes (runes s)) b)"

text \<open>\<open>Op\<close> copies the components, so the result does not alias the builder.\<close>

definition builder_op :: "builder \<Rightarrow> textop_error + op" where
  "builder_op b0 =
    (let b = init_limits b0 in
     case b_err b of Some e \<Rightarrow> Inl e
     | None \<Rightarrow> Inr \<lparr>comps = b_comps b, op_base = b_base b, op_target = b_target b\<rparr>)"

section \<open>The builder's invariant\<close>

definition builder_ok :: "builder \<Rightarrow> bool" where
  "builder_ok b \<longleftrightarrow> b_configured b \<and> limits_check (b_limits b) = Inr () \<and>
     (b_err b = None \<longrightarrow> canonical (b_comps b) \<and> b_base b = consumed (b_comps b)
        \<and> b_target b = produced (b_comps b)
        \<and> b_base b \<le> MaxUnits (b_limits b) \<and> b_target b \<le> MaxUnits (b_limits b)
        \<and> int (length (b_comps b)) \<le> MaxComponents (b_limits b))"

lemma init_limits_id [simp]: "b_configured b \<Longrightarrow> init_limits b = b"
  by (simp add: init_limits_def)

lemma builder_ok_init: "builder_ok b \<Longrightarrow> init_limits b = b"
  by (simp add: builder_ok_def)

lemma new_builder_ok: "new_builder l = Inr b \<Longrightarrow> builder_ok b \<and> b_err b = None \<and> b_comps b = []
    \<and> b_limits b = l"
  by (auto simp: new_builder_def builder_ok_def zero_builder_def canonical_def sum_split limits_check_Inr)

lemma init_zero_builder_ok: "builder_ok (init_limits zero_builder)"
  by (simp add: init_limits_def builder_ok_def zero_builder_def canonical_def default_limits_ok)
    (simp add: default_limits_def)

text \<open>What a successful \<open>grow\<close> leaves: only the two counters move, within the limits.\<close>

lemma grow_True:
  assumes "builder_ok b" "grow x y b = (b', True)"
  shows "b' = b\<lparr>b_base := b_base b + x, b_target := b_target b + y\<rparr>" "b_err b = None"
    "0 \<le> x" "0 \<le> y" "b_base b + x \<le> MaxUnits (b_limits b)" "b_target b + y \<le> MaxUnits (b_limits b)"
  using assms by (auto simp: grow_def builder_ok_init Let_def split: if_splits)

lemma grow_False:
  assumes "builder_ok b" "grow x y b = (b', False)"
  shows "builder_ok b'" "b_err b' \<noteq> None" "b_limits b' = b_limits b"
  using assms by (auto simp: grow_def builder_ok_init Let_def builder_ok_def split: if_splits)

section \<open>Effect of each method on the components\<close>

lemma refines_prefix:
  assumes "refines cs ds" "all_ok xs"
  shows "refines (xs @ cs) (xs @ ds)"
proof -
  have "consumed cs \<le> int (length (drop (nat (consumed xs)) d))"
    if "consumed (xs @ cs) \<le> int (length d)" for d
    using that consumed_nonneg [OF assms(2)] by (simp add: nat_le_iff of_nat_diff)
  with assms show ?thesis
    by (auto simp: refines_def run_append cuts_append simp del: length_drop)
qed

lemma take_two: "take n d @ take m (drop n d) = take (n + m) d"
  by (simp add: take_add)

lemma merge_pairs:
  "0 \<le> n \<Longrightarrow> 0 \<le> m \<Longrightarrow> refines [mk_retain n, mk_retain m] [mk_retain (n + m)]"
  "0 \<le> n \<Longrightarrow> 0 \<le> m \<Longrightarrow> refines [mk_delete n, mk_delete m] [mk_delete (n + m)]"
  "refines [mk_insert u, mk_insert v] [mk_insert (u @ v)]"
  "0 \<le> n \<Longrightarrow> refines [mk_delete n, mk_insert u] [mk_insert u, mk_delete n]"
  "0 \<le> n \<Longrightarrow> refines [mk_insert u, mk_delete n, mk_insert v] [mk_insert (u @ v), mk_delete n]"
  by (auto simp: refines_def nat_add_distrib take_add wf16_append add.commute [of m])

lemma canonical_snoc:
  "canonical (xs @ [c]) \<longleftrightarrow> canonical xs \<and> comp_ok c \<and> 0 < c_n c \<and> (xs \<noteq> [] \<longrightarrow> follows (last xs) c)"
  by (auto simp: canonical_def successively_snoc)

lemma canonical_same_kind:
  "canonical (xs @ [c]) \<Longrightarrow> c_kind c' = c_kind c \<Longrightarrow> comp_ok c' \<Longrightarrow> 0 < c_n c' \<Longrightarrow> canonical (xs @ [c'])"
  by (simp add: canonical_snoc follows_def)

text \<open>
  \<open>extends c cs cs'\<close>: \<open>cs'\<close> is the canonical list that stands for \<open>cs\<close> followed by the
  component \<open>c\<close>.
\<close>

definition extends :: "component \<Rightarrow> component list \<Rightarrow> component list \<Rightarrow> bool" where
  "extends c cs cs' \<longleftrightarrow> canonical cs' \<and> refines (cs @ [c]) cs'"

lemma extends_push:
  "canonical cs \<Longrightarrow> comp_ok c \<Longrightarrow> 0 < c_n c \<Longrightarrow> (cs \<noteq> [] \<Longrightarrow> follows (last cs) c) \<Longrightarrow> extends c cs (cs @ [c])"
  by (simp add: extends_def canonical_snoc)

lemma extends_merge:
  assumes "canonical (xs @ [d])" "comp_ok c" "c_kind d = c_kind c" "c_kind c \<noteq> Insert"
  shows "extends c (xs @ [d]) (xs @ [d\<lparr>c_n := c_n d + c_n c\<rparr>])"
proof -
  have d: "comp_ok d" "0 < c_n d" and xs: "all_ok xs"
    using assms(1) by (auto simp: canonical_snoc canonical_all_ok)
  have "refines [d, c] [d\<lparr>c_n := c_n d + c_n c\<rparr>] \<and> comp_ok (d\<lparr>c_n := c_n d + c_n c\<rparr>)"
    using d(1) assms(2-4) merge_pairs by (auto elim!: comp_ok_cases)
  then show ?thesis
    using assms(1) d comp_ok_nonneg [OF assms(2)] refines_prefix [OF _ xs, of "[d, c]"]
    by (auto simp: extends_def intro: canonical_same_kind)
qed

lemma extends_insert_merge:
  assumes "canonical (xs @ [c])" "c_kind c = Insert" "wf16 u"
  shows "extends (mk_insert u) (xs @ [c]) (xs @ [c\<lparr>c_u := c_u c @ u, c_n := c_n c + int (length u)\<rparr>])"
proof -
  have c: "comp_ok c" "0 < c_n c" and xs: "all_ok xs"
    using assms(1) by (auto simp: canonical_snoc canonical_all_ok)
  then obtain v where v: "c = mk_insert v" "wf16 v"
    using assms(2) by (auto elim: comp_ok_cases)
  have "canonical (xs @ [mk_insert (v @ u)])"
    using assms(1) by (rule canonical_same_kind) (use v c assms(3) in \<open>auto simp: wf16_append add_pos_nonneg\<close>)
  then show ?thesis
    using v merge_pairs(3) [of v u] refines_prefix [OF _ xs, of "[mk_insert v, mk_insert u]"]
    by (simp add: extends_def)
qed

lemma extends_insert_before_delete:
  assumes "canonical (xs @ [d])" "c_kind d = DeleteText" "wf16 u" "u \<noteq> []"
    and "xs \<noteq> [] \<Longrightarrow> c_kind (last xs) \<noteq> Insert"
  shows "extends (mk_insert u) (xs @ [d]) (xs @ [mk_insert u, d])"
proof -
  have d: "comp_ok d" "0 < c_n d" and xs: "all_ok xs" "canonical xs"
    using assms(1) by (auto simp: canonical_snoc canonical_all_ok)
  then obtain n where n: "d = mk_delete n" "0 \<le> n"
    using assms(2) by (auto elim: comp_ok_cases)
  have "xs \<noteq> [] \<Longrightarrow> c_kind (last xs) \<noteq> DeleteText"
    using assms(1,2) by (auto simp: canonical_snoc follows_def)
  then have "canonical ((xs @ [mk_insert u]) @ [d])"
    using xs assms d by (simp only: canonical_snoc) (auto simp: follows_def)
  then show ?thesis
    using n merge_pairs(4) [of n u] refines_prefix [OF _ xs(1), of "[mk_delete n, mk_insert u]"]
    by (simp add: extends_def)
qed

lemma extends_insert_merge_before:
  assumes "canonical (xs @ [c, d])" "c_kind d = DeleteText" "c_kind c = Insert" "wf16 u"
  shows "extends (mk_insert u) (xs @ [c, d])
     (xs @ [c\<lparr>c_u := c_u c @ u, c_n := c_n c + int (length u)\<rparr>, d])"
proof -
  have can: "canonical ((xs @ [c]) @ [d])" using assms(1) by simp
  have c: "canonical (xs @ [c])" and d: "comp_ok d" "0 < c_n d"
    using can unfolding canonical_snoc [of "xs @ [c]" d] by auto
  have xs: "all_ok xs" using c by (simp add: canonical_snoc canonical_all_ok)
  obtain v where v: "c = mk_insert v" using c assms(3) by (auto simp: canonical_snoc elim: comp_ok_cases)
  obtain n where n: "d = mk_delete n" "0 \<le> n" using d assms(2) by (auto elim: comp_ok_cases)
  have "canonical (xs @ [mk_insert (v @ u)])"
    using extends_insert_merge [OF c assms(3,4)] v by (simp add: extends_def)
  then have "canonical ((xs @ [mk_insert (v @ u)]) @ [d])"
    unfolding canonical_snoc [of "xs @ [mk_insert (v @ u)]" d]
    using d n v by (simp add: follows_def)
  then show ?thesis
    using v n merge_pairs(5) [of n v u]
      refines_prefix [OF _ xs, of "[mk_insert v, mk_delete n, mk_insert u]"]
    by (simp add: extends_def)
qed

section \<open>The builder implements the sink interface\<close>

text \<open>
  What placing a component does to a builder with room for its components: either the
  component limit is hit, or only the components change, to a list that extends them.
\<close>

definition placed :: "component \<Rightarrow> builder \<Rightarrow> builder \<Rightarrow> bool" where
  "placed c b b' \<longleftrightarrow> b' = b\<lparr>b_err := Some ErrLimit\<rparr> \<or>
     (\<exists>cs. b' = b\<lparr>b_comps := cs\<rparr> \<and> extends c (b_comps b) cs
        \<and> int (length cs) \<le> MaxComponents (b_limits b))"

lemma placedI:
  "b' = b\<lparr>b_comps := cs\<rparr> \<Longrightarrow> extends c (b_comps b) cs \<Longrightarrow>
     int (length cs) \<le> MaxComponents (b_limits b) \<Longrightarrow> placed c b b'"
  by (auto simp: placed_def)

lemma append_comp_placed:
  assumes "canonical (b_comps b)" "comp_ok c" "0 < c_n c"
    and "b_comps b \<noteq> [] \<Longrightarrow> follows (last (b_comps b)) c"
  shows "placed c b (append_comp c b)"
  using extends_push [OF assms] by (auto simp: placed_def append_comp_def)

lemma merge_last_placed:
  assumes "canonical (b_comps b)" "int (length (b_comps b)) \<le> MaxComponents (b_limits b)"
    and "comp_ok c" "0 < c_n c" "c_kind c \<noteq> Insert"
  shows "placed c b (merge_last c b)"
proof (cases "b_comps b" rule: rev_cases)
  case Nil
  then show ?thesis
    using append_comp_placed [OF assms(1,3,4)] by (simp add: merge_last_def)
next
  case (snoc xs d)
  show ?thesis
  proof (cases "c_kind d = c_kind c")
    case True
    show ?thesis
      by (rule placedI [where cs = "xs @ [d\<lparr>c_n := c_n d + c_n c\<rparr>]"])
        (use assms snoc True extends_merge [of xs d c] in \<open>auto simp: merge_last_def Let_def\<close>)
  next
    case False
    have "merge_last c b = append_comp c b"
      using snoc False by (simp add: merge_last_def Let_def)
    then show ?thesis
      using append_comp_placed [OF assms(1,3,4)] snoc False assms(5) by (auto simp: follows_def)
  qed
qed

lemma place_insert_placed:
  assumes can: "canonical (b_comps b)" and len: "int (length (b_comps b)) \<le> MaxComponents (b_limits b)"
    and err: "b_err b = None" and u: "wf16 u" "u \<noteq> []"
  shows "placed (mk_insert u) b (place_insert u b)"
proof (cases "b_comps b" rule: rev_cases)
  case Nil
  then show ?thesis
    using append_comp_placed [OF can, of "mk_insert u"] u by (simp add: place_insert_def)
next
  case (snoc ys d)
  note cs = snoc
  show ?thesis
  proof (cases "c_kind d = DeleteText")
    case False
    show ?thesis
    proof (cases "c_kind d = Insert")
      case True
      show ?thesis
        by (rule placedI [where cs = "ys @ [d\<lparr>c_u := c_u d @ u, c_n := c_n d + int (length u)\<rparr>]"])
          (use assms cs True extends_insert_merge [of ys d u] in
            \<open>auto simp: place_insert_def Let_def\<close>)
    next
      case neq: False
      have "place_insert u b = append_comp (mk_insert u) b"
        using cs False neq by (simp add: place_insert_def Let_def)
      then show ?thesis
        using append_comp_placed [OF can, of "mk_insert u"] cs False neq u
        by (auto simp: follows_def)
    qed
  next
    case del: True
    show ?thesis
    proof (cases "ys \<noteq> [] \<and> c_kind (last ys) = Insert")
      case True
      then obtain xs c where ys: "ys = xs @ [c]" "c_kind c = Insert" by (cases ys rule: rev_cases) auto
      have cs': "b_comps b = xs @ [c, d]" using cs ys by simp
      have nth: "(xs @ [c, d]) ! Suc (length xs) = d" "(xs @ [c, d]) ! length xs = c"
        "(xs @ [c, d])[length xs := e] = xs @ [e, d]"
        "nat (1 + int (length xs)) = Suc (length xs)" for e
        by (simp_all add: nth_append list_update_append)
      have "place_insert u b
          = b\<lparr>b_comps := xs @ [c\<lparr>c_u := c_u c @ u, c_n := c_n c + int (length u)\<rparr>, d]\<rparr>"
        unfolding place_insert_def Let_def cs' using ys(2) del by (simp add: nth)
      then show ?thesis
        by (rule placedI)
          (use can len cs ys del u extends_insert_merge_before [of xs c d u] in simp_all)
    next
      case False
      then have ext: "extends (mk_insert u) (b_comps b) (ys @ [mk_insert u, d])"
        using extends_insert_before_delete [of ys d u] can cs del u by auto
      have nth: "nat (int (length ys) - 1) = length ys - 1" by simp
      have "place_insert u b = (if b_err (append_comp d b) = None
          then (append_comp d b)\<lparr>b_comps := (b_comps (append_comp d b))[length ys := mk_insert u]\<rparr>
          else append_comp d b)"
        using cs del False by (auto simp: place_insert_def Let_def nth_append last_conv_nth nth)
      moreover have "append_comp d b = b\<lparr>b_err := Some ErrLimit\<rparr> \<or>
          (int (length (b_comps b @ [d])) \<le> MaxComponents (b_limits b) \<and>
           append_comp d b = b\<lparr>b_comps := ys @ [d, d]\<rparr>)"
        using cs by (auto simp: append_comp_def)
      ultimately show ?thesis
        using ext err cs by (auto simp: placed_def)
    qed
  qed
qed

definition emit :: "component \<Rightarrow> builder \<Rightarrow> builder" where
  "emit c b = (case c_kind c of Retain \<Rightarrow> retain (c_n c) b
     | Insert \<Rightarrow> insert_units (c_u c) b | DeleteText \<Rightarrow> delete (c_n c) b)"

locale op_sink =
  fixes put :: "component \<Rightarrow> 'b \<Rightarrow> 'b"
    and failed :: "'b \<Rightarrow> bool"
    and held :: "'b \<Rightarrow> component list"
    and invar :: "'b \<Rightarrow> bool"
  assumes failed_sticky: "invar b \<Longrightarrow> failed b \<Longrightarrow> failed (put c b)"
    and invar_put: "invar b \<Longrightarrow> comp_ok c \<Longrightarrow> invar (put c b)"
    and held_canonical: "invar b \<Longrightarrow> \<not> failed b \<Longrightarrow> canonical (held b)"
    and put_refines:
      "invar b \<Longrightarrow> comp_ok c \<Longrightarrow> \<not> failed (put c b) \<Longrightarrow> refines (held b @ [c]) (held (put c b))"
begin

lemma puts_invar: "invar b \<Longrightarrow> all_ok cs \<Longrightarrow> invar (fold put cs b)"
  by (induction cs arbitrary: b) (auto simp: invar_put)

lemma puts_sticky: "invar b \<Longrightarrow> all_ok cs \<Longrightarrow> failed b \<Longrightarrow> failed (fold put cs b)"
  by (induction cs arbitrary: b) (auto simp: invar_put failed_sticky)

lemma puts_refine:
  "invar b \<Longrightarrow> all_ok cs \<Longrightarrow> \<not> failed (fold put cs b) \<Longrightarrow>
     refines (held b @ cs) (held (fold put cs b))"
proof (induction cs arbitrary: b)
  case (Cons c cs)
  let ?b = "put c b"
  have c: "comp_ok c" "all_ok cs" and i: "invar ?b" using Cons.prems by (auto simp: invar_put)
  have nf: "\<not> failed ?b" using Cons.prems c i puts_sticky by auto
  have nf0: "\<not> failed b" using nf Cons.prems(1) failed_sticky by blast
  have "refines ((held b @ [c]) @ cs) (held ?b @ cs)"
    using put_refines [OF Cons.prems(1) c(1) nf] c held_canonical [OF i nf]
      held_canonical [OF Cons.prems(1) nf0]
    by (intro refines_append) (auto simp: canonical_all_ok)
  moreover have "refines (held ?b @ cs) (held (fold put cs ?b))"
    using Cons c i by simp
  ultimately show ?case by (auto intro: refines_trans)
qed simp

lemma puts_canonical:
  "invar b \<Longrightarrow> all_ok cs \<Longrightarrow> \<not> failed (fold put cs b) \<Longrightarrow> canonical (held (fold put cs b))"
  by (simp add: puts_invar held_canonical)

end

text \<open>One builder call, in terms of \<open>grow\<close> and \<open>placed\<close>.\<close>

lemma emit_failed: "builder_ok b \<Longrightarrow> b_err b \<noteq> None \<Longrightarrow> emit c b = b"
  by (cases "c_kind c")
    (auto simp: emit_def retain_def delete_def insert_units_def grow_def builder_ok_init)

lemma placed_ok:
  assumes "builder_ok b" "b_err b = None" "comp_ok c"
    and "b1 = b\<lparr>b_base := b_base b + consumes c, b_target := b_target b + produces c\<rparr>"
    and "b_base b + consumes c \<le> MaxUnits (b_limits b)"
      "b_target b + produces c \<le> MaxUnits (b_limits b)"
    and "placed c b1 b'"
  shows "builder_ok b' \<and> (b_err b' = None \<longrightarrow> refines (b_comps b @ [c]) (b_comps b'))
    \<and> b_limits b' = b_limits b"
  using assms by (auto simp: placed_def builder_ok_def extends_def refines_def)

lemma emit_step:
  assumes ok: "builder_ok b" and c: "comp_ok c"
  shows "builder_ok (emit c b) \<and>
    (b_err (emit c b) = None \<longrightarrow> refines (b_comps b @ [c]) (b_comps (emit c b)))
    \<and> b_limits (emit c b) = b_limits b"
proof (cases "b_err b")
  case (Some e)
  then show ?thesis using emit_failed [OF ok, of c] ok by simp
next
  case None
  obtain b1 g where g: "grow (consumes c) (produces c) b = (b1, g)" by fastforce
  have emit: "emit c b = (if \<not> g \<or> c_n c = 0 then b1
      else if c_kind c = Insert then place_insert (c_u c) b1 else merge_last c b1)"
    using c g by (cases rule: comp_ok_cases)
      (auto simp: emit_def retain_def delete_def insert_units_def)
  show ?thesis
  proof (cases g)
    case False
    then show ?thesis using grow_False [OF ok, of "consumes c" "produces c" b1] g emit by auto
  next
    case True
    have "grow (consumes c) (produces c) b = (b1, True)" using g True by simp
    note grown = grow_True [OF ok this]
    show ?thesis
    proof (cases "c_n c = 0")
      case zero: True
      have "refines (b_comps b @ [c]) (b_comps b)"
        using ok None c zero refines_prefix [of "[c]" "[]" "b_comps b"]
        by (auto simp: builder_ok_def canonical_all_ok refines_def elim!: comp_ok_cases)
      moreover have "consumes c = 0" "produces c = 0"
        using zero by (auto simp: consumes_def produces_def)
      ultimately show ?thesis using emit True zero grown ok by simp
    next
      case False
      then have pos: "0 < c_n c" using comp_ok_nonneg [OF c] by simp
      have can: "canonical (b_comps b1)" and b1: "b_err b1 = None"
        and len: "int (length (b_comps b1)) \<le> MaxComponents (b_limits b1)"
        using ok None grown(1) by (auto simp: builder_ok_def)
      have "placed c b1 (emit c b)"
      proof (cases "c_kind c = Insert")
        case True
        with c obtain u where u: "c = mk_insert u" "wf16 u" by (auto elim: comp_ok_cases)
        then show ?thesis
          using emit \<open>g\<close> pos place_insert_placed [OF can len b1, of u] by auto
      next
        case False
        then show ?thesis
          using emit \<open>g\<close> pos merge_last_placed [OF can len c pos] by simp
      qed
      then show ?thesis
        by (rule placed_ok [OF ok None c grown(1) grown(5,6)])
    qed
  qed
qed

interpretation sink: op_sink emit "\<lambda>b. b_err b \<noteq> None" b_comps builder_ok
proof unfold_locales
  show "builder_ok b \<Longrightarrow> b_err b \<noteq> None \<Longrightarrow> b_err (emit c b) \<noteq> None" for b c
    by (simp add: emit_failed)
  show "builder_ok b \<Longrightarrow> comp_ok c \<Longrightarrow> builder_ok (emit c b)" for b c
    by (simp add: emit_step)
  show "builder_ok b \<Longrightarrow> \<not> b_err b \<noteq> None \<Longrightarrow> canonical (b_comps b)" for b
    by (simp add: builder_ok_def)
  show "builder_ok b \<Longrightarrow> comp_ok c \<Longrightarrow> \<not> b_err (emit c b) \<noteq> None \<Longrightarrow>
      refines (b_comps b @ [c]) (b_comps (emit c b))" for b c
    by (simp add: emit_step)
qed

lemma builder_op_ok:
  "builder_ok b \<Longrightarrow> builder_op b = Inr o1 \<Longrightarrow> b_err b = None \<and> op_ok o1 \<and> comps o1 = b_comps b
     \<and> admit (b_limits b) o1 = Inr ()"
  by (auto simp: builder_op_def builder_ok_init op_ok_def builder_ok_def admit_Inr split: option.splits)

text \<open>The exported \<open>Insert\<close> is \<open>insertUnits\<close> on the UTF-16 form, after the UTF-8 check.\<close>

lemma insert_string_eq:
  assumes "builder_ok b"
  shows "insert_string s b = (if b_err b \<noteq> None then b
    else if valid_string s then emit (mk_insert (units_of_runes (runes s))) b
    else b\<lparr>b_err := Some ErrInvalidUTF8\<rparr>)"
proof (cases "b_err b = None \<and> valid_string s")
  case True
  let ?u = "units_of_runes (runes s)"
  have "b_target b \<le> MaxUnits (b_limits b)" using assms True by (simp add: builder_ok_def)
  then have "units_in s (MaxUnits (b_limits b) - b_target b) =
      (if int (length ?u) \<le> MaxUnits (b_limits b) - b_target b
       then Inr (int (length ?u)) else Inl ErrLimit)"
    using True valid_string_runes [of s] by (simp add: units_in_def units_in_loop_eq)
  moreover have "b_base b \<le> MaxUnits (b_limits b)"
    using assms True by (simp add: builder_ok_def)
  ultimately show ?thesis
    using assms True
    by (simp add: insert_string_def builder_ok_init emit_def insert_units_def grow_def)
next
  case False
  then show ?thesis
    using assms by (auto simp: insert_string_def builder_ok_init units_in_def)
qed

end
