(* ===== verification/Textop_Apply.thy ===== *)
theory Textop_Apply
  imports Textop_Builder
begin

text \<open>
  Validation and application of an operation: \<open>ValidateAgainst\<close> and \<open>Apply\<close> of
  \<^verbatim>\<open>internal/core/textop/textop.go\<close>. The lemma \<open>apply_Inr_iff\<close> says exactly when they
  succeed and with which document, in terms of the abstract \<open>cuts\<close> and \<open>run\<close>.
\<close>

definition units_slice :: "u16 list \<Rightarrow> int \<Rightarrow> int \<Rightarrow> u16 list" where
  "units_slice u i j = take (nat (j - i)) (drop (nat i) u)"

fun validate_loop ::
    "limits \<Rightarrow> u16 list \<Rightarrow> nat \<Rightarrow> int \<Rightarrow> int \<Rightarrow> component list \<Rightarrow> textop_error + unit" where
  "validate_loop l u i p sz [] = Inr ()"
| "validate_loop l u i p sz (c # cs) =
    (if c_kind c = Insert then
       rbind (count_bytes (c_u c) (MaxDocBytes l - sz)) (\<lambda>n.
         validate_loop l u (Suc i) p (sz + n) cs)
     else
       let next = p + c_n c in
       if \<not> boundary u next then Inl (ErrComponent i ErrSplitsSurrogate)
       else
         rbind (count_bytes (if c_kind c = Retain then units_slice u p next else [])
             (MaxDocBytes l - sz)) (\<lambda>n.
           validate_loop l u (Suc i) next (sz + n) cs))"

definition validate_against :: "limits \<Rightarrow> doc \<Rightarrow> op \<Rightarrow> textop_error + unit" where
  "validate_against l d o1 =
    rbind (limits_check l) (\<lambda>_.
    rbind (admit l o1) (\<lambda>_.
    if op_base o1 \<noteq> int (length (units d)) then Inl ErrLengthMismatch
    else rbind (count_bytes (units d) (MaxDocBytes l)) (\<lambda>_.
      validate_loop l (units d) 0 0 0 (comps o1))))"

fun apply_loop :: "u16 list \<Rightarrow> int \<Rightarrow> component list \<Rightarrow> u16 list \<Rightarrow> u16 list" where
  "apply_loop u p [] out = out"
| "apply_loop u p (c # cs) out =
    (case c_kind c of
       Retain \<Rightarrow> apply_loop u (p + c_n c) cs (out @ units_slice u p (p + c_n c))
     | DeleteText \<Rightarrow> apply_loop u (p + c_n c) cs out
     | Insert \<Rightarrow> apply_loop u p cs (out @ c_u c))"

definition apply_op :: "limits \<Rightarrow> doc \<Rightarrow> op \<Rightarrow> textop_error + doc" where
  "apply_op l d o1 = rbind (validate_against l d o1)
     (\<lambda>_. Inr \<lparr>units = apply_loop (units d) 0 (comps o1) []\<rparr>)"

section \<open>Application computes the abstract meaning\<close>

lemma units_slice_eq: "units_slice u p (p + n) = take (nat n) (drop (nat p) u)"
  by (simp add: units_slice_def)

lemma apply_loop_run:
  "all_ok cs \<Longrightarrow> 0 \<le> p \<Longrightarrow> apply_loop u p cs out = out @ run cs (drop (nat p) u)"
proof (induction cs arbitrary: p out)
  case (Cons c cs)
  have ok: "comp_ok c" "all_ok cs" using Cons.prems by simp_all
  show ?case using ok(1)
  proof (cases rule: comp_ok_cases)
    case (retain n)
    then show ?thesis using Cons.IH [OF ok(2), of "p + n"] Cons.prems(2)
      by (simp add: units_slice_def nat_add_distrib add.commute)
  next
    case (insert v)
    then show ?thesis using Cons.IH [OF ok(2)] Cons.prems(2) by simp
  next
    case (delete n)
    then show ?thesis using Cons.IH [OF ok(2), of "p + n"] Cons.prems(2)
      by (simp add: nat_add_distrib add.commute)
  qed
qed simp

text \<open>One step of validation: a boundary test is a well-formed piece.\<close>

lemma piece_boundary:
  assumes "wf16 u" "0 \<le> p" "0 \<le> n" "p + n \<le> int (length u)" "wf16 (take (nat p) u)"
  shows "boundary u (p + n) \<longleftrightarrow> wf16 (take (nat n) (drop (nat p) u))"
    and "wf16 (take (nat n) (drop (nat p) u)) \<Longrightarrow> wf16 (take (nat (p + n)) u)"
proof -
  have n: "int (nat p + nat n) = p + n" "nat (p + n) = nat p + nat n" using assms(2,3) by auto
  then show "boundary u (p + n) \<longleftrightarrow> wf16 (take (nat n) (drop (nat p) u))"
    using boundary_piece [OF assms(1,5), of "nat n"] assms(4) by simp
  show "wf16 (take (nat n) (drop (nat p) u)) \<Longrightarrow> wf16 (take (nat (p + n)) u)"
    using n(2) assms(5) by (simp add: take_add wf16_append)
qed

lemma validate_loop_Inr:
  assumes "wf16 u"
  shows "all_ok cs \<Longrightarrow> 0 \<le> p \<Longrightarrow> wf16 (take (nat p) u) \<Longrightarrow> p + consumed cs \<le> int (length u) \<Longrightarrow>
    sz \<le> MaxDocBytes l \<Longrightarrow>
    validate_loop l u i p sz cs = Inr () \<longleftrightarrow>
      cuts cs (drop (nat p) u) \<and> sz + byte_size (run cs (drop (nat p) u)) \<le> MaxDocBytes l"
proof (induction cs arbitrary: i p sz)
  case (Cons c cs)
  have ok: "comp_ok c" "all_ok cs" and len: "p + consumes c + consumed cs \<le> int (length u)"
    using Cons.prems by simp_all
  have c0: "0 \<le> consumed cs" using ok(2) by (rule consumed_nonneg)
  show ?case using ok(1)
  proof (cases rule: comp_ok_cases)
    case (insert v)
    have "validate_loop l u i p sz (c # cs) = Inr () \<longleftrightarrow>
        sz + byte_size v \<le> MaxDocBytes l \<and>
        validate_loop l u (Suc i) p (sz + byte_size v) cs = Inr ()"
      using insert Cons.prems(5) by (auto simp: count_bytes_eq)
    then show ?thesis
      using Cons.IH [OF ok(2) Cons.prems(2,3), of "sz + byte_size v" "Suc i"] insert len
        byte_size_nonneg [of "run cs (drop (nat p) u)"]
      by (auto simp: byte_size_append)
  next
    case (retain n)
    let ?v = "take (nat n) (drop (nat p) u)"
    have le: "p + n \<le> int (length u)" using len c0 retain by simp
    note piece = piece_boundary [OF assms Cons.prems(2) retain(2) le Cons.prems(3)]
    show ?thesis
    proof (cases "wf16 ?v")
      case True
      have "validate_loop l u i p sz (c # cs) = Inr () \<longleftrightarrow>
          sz + byte_size ?v \<le> MaxDocBytes l \<and>
          validate_loop l u (Suc i) (p + n) (sz + byte_size ?v) cs = Inr ()"
        using retain piece(1) True Cons.prems(5) by (auto simp: count_bytes_eq units_slice_eq)
      then show ?thesis
        using Cons.IH [OF ok(2) _ piece(2) [OF True], of "sz + byte_size ?v" "Suc i"]
          retain len True Cons.prems(2) byte_size_nonneg [of "run cs (drop (nat (p + n)) u)"]
        by (auto simp: byte_size_append nat_add_distrib add.commute)
    next
      case False
      then show ?thesis using retain piece(1) by simp
    qed
  next
    case (delete n)
    have le: "p + n \<le> int (length u)" using len c0 delete by simp
    note piece = piece_boundary [OF assms Cons.prems(2) delete(2) le Cons.prems(3)]
    show ?thesis
    proof (cases "wf16 (take (nat n) (drop (nat p) u))")
      case True
      then show ?thesis
        using Cons.IH [OF ok(2) _ piece(2) [OF True], of sz "Suc i"] delete len Cons.prems(2,5)
          piece(1)
        by (simp add: count_bytes_eq nat_add_distrib add.commute)
    next
      case False
      then show ?thesis using delete piece(1) by simp
    qed
  qed
qed simp

definition fits :: "limits \<Rightarrow> u16 list \<Rightarrow> bool" where
  "fits l u \<longleftrightarrow> byte_size u \<le> MaxDocBytes l"

lemma validate_against_Inr_iff:
  assumes "limits_check l = Inr ()" "wf16 (units d)" "op_ok o1"
  shows "validate_against l d o1 = Inr () \<longleftrightarrow>
    admit l o1 = Inr () \<and> op_base o1 = int (length (units d)) \<and> fits l (units d)
    \<and> cuts (comps o1) (units d) \<and> fits l (run (comps o1) (units d))"
proof -
  have ok: "all_ok (comps o1)" and base: "op_base o1 = consumed (comps o1)"
    using assms(3) by (auto simp: op_ok_def canonical_all_ok)
  have l: "0 < MaxDocBytes l" using assms(1) by (simp add: limits_check_Inr)
  have "op_base o1 = int (length (units d)) \<Longrightarrow> validate_loop l (units d) 0 0 0 (comps o1) = Inr () \<longleftrightarrow>
      cuts (comps o1) (units d) \<and> fits l (run (comps o1) (units d))"
    using validate_loop_Inr [OF assms(2) ok, of 0 0 l 0] base l by (simp add: fits_def)
  then show ?thesis
    using assms l by (auto simp: validate_against_def sum_split count_bytes_eq fits_def)
qed

lemma apply_Inr_iff:
  assumes "limits_check l = Inr ()" "wf16 (units d)" "op_ok o1"
  shows "apply_op l d o1 = Inr r \<longleftrightarrow>
    admit l o1 = Inr () \<and> op_base o1 = int (length (units d)) \<and> fits l (units d)
    \<and> cuts (comps o1) (units d) \<and> fits l (run (comps o1) (units d))
    \<and> r = \<lparr>units = run (comps o1) (units d)\<rparr>"
proof -
  have "all_ok (comps o1)" using assms(3) by (simp add: op_ok_def canonical_all_ok)
  then have "apply_loop (units d) 0 (comps o1) [] = run (comps o1) (units d)"
    by (simp add: apply_loop_run)
  then show ?thesis
    by (auto simp: apply_op_def sum_split validate_against_Inr_iff [OF assms])
qed

end
