(* ===== verification/Textop_Algebra.thy ===== *)
theory Textop_Algebra
  imports Textop_Apply
begin

text \<open>
  \<open>Compose\<close> and \<open>Transform\<close> of \<^verbatim>\<open>internal/core/textop/algebra.go\<close>. A cursor holds the
  suffix \<open>comps[i:]\<close> of its operation and the offset into the first component of it.

  The case tables of \<^verbatim>\<open>doc.go\<close> are the step relations \<open>composes\<close> and \<open>transforms\<close> on
  the residual component lists; the loops are proved to follow them, feeding the builder
  one component per step. Correctness (sequential composition, TP1) is then rule
  induction over the tables, and reaches the code through the builder's interface.
\<close>

section \<open>Cursors\<close>

record cursor =
  rest :: "component list"
  offset :: int

definition start :: "op \<Rightarrow> cursor" where
  "start o1 = \<lparr>rest = comps o1, offset = 0\<rparr>"

definition finished :: "cursor \<Rightarrow> bool" where
  "finished x \<longleftrightarrow> rest x = []"

definition kind_at :: "cursor \<Rightarrow> kind" where
  "kind_at x = c_kind (hd (rest x))"

definition left :: "cursor \<Rightarrow> int" where
  "left x = c_n (hd (rest x)) - offset x"

definition text_at :: "cursor \<Rightarrow> int \<Rightarrow> u16 list" where
  "text_at x n = units_slice (c_u (hd (rest x))) (offset x) (offset x + n)"

definition take_cur :: "int \<Rightarrow> cursor \<Rightarrow> cursor" where
  "take_cur n x =
    (if offset x + n = c_n (hd (rest x)) then \<lparr>rest = tl (rest x), offset = 0\<rparr>
     else x\<lparr>offset := offset x + n\<rparr>)"

text \<open>Every iteration finishes a component of one cursor, whatever the lengths are.\<close>

lemma take_left: "take_cur (left x) x = \<lparr>rest = tl (rest x), offset = 0\<rparr>"
  by (simp add: take_cur_def left_def)

lemma take_length: "length (rest (take_cur n x)) \<le> length (rest x)"
  by (simp add: take_cur_def)

lemma take_left_less: "\<not> finished x \<Longrightarrow> length (rest (take_cur (left x) x)) < length (rest x)"
  by (simp add: take_left finished_def)

lemma take_min_less:
  assumes "\<not> finished x" "\<not> finished y"
  shows "length (rest (take_cur (min (left x) (left y)) x))
    + length (rest (take_cur (min (left x) (left y)) y)) < length (rest x) + length (rest y)"
proof (cases "left x \<le> left y")
  case True
  then show ?thesis
    using take_left_less [OF assms(1)] take_length [of "left x" y] by (simp add: min_def)
next
  case False
  then show ?thesis
    using take_left_less [OF assms(2)] take_length [of "left y" x] by (simp add: min_def)
qed

section \<open>Compose\<close>

function compose_loop :: "cursor \<Rightarrow> cursor \<Rightarrow> builder \<Rightarrow> textop_error + op" where
  "compose_loop x y out =
    (if finished x \<and> finished y then builder_op out
     else if \<not> finished x \<and> kind_at x = DeleteText then
       (let n = left x; out' = delete n out in
        case b_err out' of Some e \<Rightarrow> Inl e | None \<Rightarrow> compose_loop (take_cur n x) y out')
     else if \<not> finished y \<and> kind_at y = Insert then
       (let n = left y; out' = insert_units (text_at y n) out in
        case b_err out' of Some e \<Rightarrow> Inl e | None \<Rightarrow> compose_loop x (take_cur n y) out')
     else if finished x \<or> finished y then Inl ErrLengthMismatch
     else
       (let n = min (left x) (left y) in
        if kind_at x = Insert \<and> \<not> boundary (c_u (hd (rest x))) (offset x + n)
        then Inl ErrSplitsSurrogate
        else
          (let out' =
             (if kind_at x = Retain \<and> kind_at y = Retain then retain n out
              else if kind_at x = Retain \<and> kind_at y = DeleteText then delete n out
              else if kind_at x = Insert \<and> kind_at y = Retain then insert_units (text_at x n) out
              else out) in
           case b_err out' of Some e \<Rightarrow> Inl e
           | None \<Rightarrow> compose_loop (take_cur n x) (take_cur n y) out')))"
  by pat_completeness auto
termination
  by (relation "measure (\<lambda>(x, y, _). length (rest x) + length (rest y))")
    (auto simp: take_left_less take_min_less)

declare compose_loop.simps [simp del]

definition compose :: "limits \<Rightarrow> op \<Rightarrow> op \<Rightarrow> textop_error + op" where
  "compose l a b =
    rbind (limits_check l) (\<lambda>_.
    rbind (admit l a) (\<lambda>_.
    rbind (admit l b) (\<lambda>_.
    if op_target a \<noteq> op_base b then Inl ErrLengthMismatch
    else rbind (new_builder l) (\<lambda>out. compose_loop (start a) (start b) out))))"

section \<open>Transform\<close>

text \<open>The two tests after each step: \<open>p\<close>'s error first.\<close>

definition pair_err :: "builder \<Rightarrow> builder \<Rightarrow> textop_error option" where
  "pair_err p q = (case b_err p of Some e \<Rightarrow> Some e | None \<Rightarrow> b_err q)"

function transform_loop ::
    "cursor \<Rightarrow> cursor \<Rightarrow> builder \<Rightarrow> builder \<Rightarrow> textop_error + (op \<times> op)" where
  "transform_loop x y p q =
    (if finished x \<and> finished y then
       rbind (builder_op p) (\<lambda>ap. rbind (builder_op q) (\<lambda>bp. Inr (ap, bp)))
     else if \<not> finished x \<and> kind_at x = Insert then
       (let n = left x; p' = insert_units (text_at x n) p; q' = retain n q in
        case pair_err p' q' of Some e \<Rightarrow> Inl e
        | None \<Rightarrow> transform_loop (take_cur n x) y p' q')
     else if \<not> finished y \<and> kind_at y = Insert then
       (let n = left y; p' = retain n p; q' = insert_units (text_at y n) q in
        case pair_err p' q' of Some e \<Rightarrow> Inl e
        | None \<Rightarrow> transform_loop x (take_cur n y) p' q')
     else if finished x \<or> finished y then Inl ErrLengthMismatch
     else
       (let n = min (left x) (left y);
            p' = (if kind_at x = Retain \<and> kind_at y = Retain then retain n p
                  else if kind_at x = DeleteText \<and> kind_at y = Retain then delete n p
                  else p);
            q' = (if kind_at x = Retain \<and> kind_at y = Retain then retain n q
                  else if kind_at x = Retain \<and> kind_at y = DeleteText then delete n q
                  else q)
        in case pair_err p' q' of Some e \<Rightarrow> Inl e
           | None \<Rightarrow> transform_loop (take_cur n x) (take_cur n y) p' q'))"
  by pat_completeness auto
termination
  by (relation "measure (\<lambda>(x, y, _, _). length (rest x) + length (rest y))")
    (auto simp: take_left_less take_min_less)

declare transform_loop.simps [simp del]

definition transform :: "limits \<Rightarrow> op \<Rightarrow> op \<Rightarrow> textop_error + (op \<times> op)" where
  "transform l a b =
    rbind (limits_check l) (\<lambda>_.
    rbind (admit l a) (\<lambda>_.
    rbind (admit l b) (\<lambda>_.
    if op_base a \<noteq> op_base b then Inl ErrLengthMismatch
    else rbind (new_builder l) (\<lambda>p. rbind (new_builder l) (\<lambda>q.
      transform_loop (start a) (start b) p q)))))"

section \<open>Residual components\<close>

text \<open>
  \<open>trim n c\<close> is \<open>c\<close> without its first \<open>n\<close> units and \<open>piece n c\<close> those units; \<open>adv\<close> drops an
  exhausted component, as \<open>take\<close> moves to the next one.
\<close>

definition trim :: "int \<Rightarrow> component \<Rightarrow> component" where
  "trim n c = c\<lparr>c_n := c_n c - n, c_u := drop (nat n) (c_u c)\<rparr>"

definition piece :: "int \<Rightarrow> component \<Rightarrow> component" where
  "piece n c = c\<lparr>c_n := n, c_u := take (nat n) (c_u c)\<rparr>"

definition adv :: "int \<Rightarrow> component \<Rightarrow> component list \<Rightarrow> component list" where
  "adv n c cs = (if c_n c = n then cs else trim n c # cs)"

lemma trim_0 [simp]: "trim 0 c = c"
  by (simp add: trim_def)

lemma trim_sel [simp]: "c_kind (trim n c) = c_kind c" "c_n (trim n c) = c_n c - n"
  by (simp_all add: trim_def)

lemma trim_trim: "0 \<le> m \<Longrightarrow> 0 \<le> n \<Longrightarrow> trim n (trim m c) = trim (m + n) c"
  by (simp add: trim_def nat_add_distrib add.commute)

definition split_ok :: "int \<Rightarrow> component \<Rightarrow> bool" where
  "split_ok n c \<longleftrightarrow> comp_ok c \<and> 0 \<le> n \<and> n \<le> c_n c \<and> wf16 (take (nat n) (c_u c))"

lemma split_ok_comp: "split_ok n c \<Longrightarrow> comp_ok (piece n c) \<and> comp_ok (trim n c)"
  by (auto simp: split_ok_def piece_def trim_def wf16_drop elim!: comp_ok_cases)

lemma split_ok_adv: "split_ok n c \<Longrightarrow> all_ok cs \<Longrightarrow> all_ok (piece n c # adv n c cs)"
  using split_ok_comp [of n c] by (simp add: adv_def)

lemma split_ok_noninsert: "comp_ok c \<Longrightarrow> 0 \<le> n \<Longrightarrow> n \<le> c_n c \<Longrightarrow> c_kind c \<noteq> Insert \<Longrightarrow> split_ok n c"
  by (auto simp: split_ok_def elim!: comp_ok_cases)

lemma adv_measures:
  assumes "split_ok n c"
  shows "consumed (piece n c # adv n c cs) = consumed (c # cs)"
    and "produced (piece n c # adv n c cs) = produced (c # cs)"
  using assms by (auto simp: split_ok_def piece_def adv_def trim_def consumes_def produces_def)

lemma run_adv:
  assumes "split_ok n c"
  shows "run (c # cs) d = run (piece n c # adv n c cs) d"
proof -
  have ok: "comp_ok c" "0 \<le> n" "n \<le> c_n c" using assms by (auto simp: split_ok_def)
  have tk: "take (nat m) d = take (nat n) d @ take (nat (m - n)) (drop (nat n) d)"
    and dr: "drop (nat m) d = drop (nat (m - n)) (drop (nat n) d)" if "n \<le> m" for m d
    using that ok(2) by (simp_all add: take_two nat_diff_distrib)
  show ?thesis using ok(1)
  proof (cases rule: comp_ok_cases)
    case (retain m)
    then show ?thesis using tk [of m d] dr [of m d] ok(3)
      by (cases "m = n") (simp_all add: piece_def adv_def trim_def)
  next
    case (insert v)
    then show ?thesis by (cases "int (length v) = n") (auto simp: piece_def adv_def trim_def)
  next
    case (delete m)
    then show ?thesis using dr [of m d] ok(3)
      by (cases "m = n") (simp_all add: piece_def adv_def trim_def)
  qed
qed

lemma take_drop_split:
  assumes "0 \<le> n" "n \<le> m"
  shows "take (nat m) d = take (nat n) d @ take (nat (m - n)) (drop (nat n) d)"
    and "drop (nat m) d = drop (nat (m - n)) (drop (nat n) d)"
  using assms by (simp_all add: take_two nat_diff_distrib)

lemma cuts_adv:
  assumes "split_ok n c" "cuts (c # cs) d" "c_kind c = Insert \<or> wf16 (take (nat n) d)"
  shows "cuts (piece n c # adv n c cs) d"
proof -
  have ok: "comp_ok c" "0 \<le> n" "n \<le> c_n c" using assms by (auto simp: split_ok_def)
  have rest: "wf16 (take (nat (m - n)) (drop (nat n) d))"
    if "n \<le> m" "wf16 (take (nat m) d)" "wf16 (take (nat n) d)" for m
    using that take_drop_split(1) [OF ok(2) that(1), of d] by (simp add: wf16_append)
  show ?thesis using ok(1)
  proof (cases rule: comp_ok_cases)
    case (retain m)
    then show ?thesis
      using assms(2,3) ok(3) rest [of m] take_drop_split(2) [OF ok(2), of m d]
      by (cases "m = n") (simp_all add: piece_def adv_def trim_def)
  next
    case (insert v)
    then show ?thesis
      using assms by (cases "int (length v) = n") (auto simp: piece_def adv_def trim_def)
  next
    case (delete m)
    then show ?thesis
      using assms(2,3) ok(3) rest [of m] take_drop_split(2) [OF ok(2), of m d]
      by (cases "m = n") (simp_all add: piece_def adv_def trim_def)
  qed
qed

section \<open>Cursors denote residual components\<close>

definition resid :: "cursor \<Rightarrow> component list" where
  "resid x = (case rest x of [] \<Rightarrow> [] | c # cs \<Rightarrow> trim (offset x) c # cs)"

definition cursor_ok :: "cursor \<Rightarrow> bool" where
  "cursor_ok x \<longleftrightarrow> all_ok (rest x) \<and>
     (case rest x of [] \<Rightarrow> True | c # _ \<Rightarrow> split_ok (offset x) c)"

lemma cursor_start: "op_ok o1 \<Longrightarrow> cursor_ok (start o1) \<and> resid (start o1) = comps o1"
  by (auto simp: op_ok_def start_def cursor_ok_def resid_def canonical_all_ok split_ok_def
      comp_ok_nonneg split: list.splits dest: canonical_all_ok)

lemma cursor_resid_ok: "cursor_ok x \<Longrightarrow> all_ok (resid x)"
  by (auto simp: cursor_ok_def resid_def split_ok_comp split: list.splits)

lemma finished_resid: "finished x \<longleftrightarrow> resid x = []"
  by (simp add: finished_def resid_def split: list.splits)

lemma cursor_cases:
  assumes "\<not> finished x" "cursor_ok x"
  obtains c cs where "resid x = c # cs" "comp_ok c" "all_ok cs"
    "kind_at x = c_kind c" "left x = c_n c"
    "\<And>n. split_ok n c \<Longrightarrow> text_at x n = c_u (piece n c)"
    "\<And>n. split_ok n c \<Longrightarrow> resid (take_cur n x) = adv n c cs \<and> cursor_ok (take_cur n x)"
    "\<And>n. 0 \<le> n \<Longrightarrow> n \<le> c_n c \<Longrightarrow> c_kind c = Insert \<Longrightarrow>
       boundary (c_u (hd (rest x))) (offset x + n) \<longleftrightarrow> split_ok n c"
proof -
  obtain c0 cs where x: "rest x = c0 # cs" using assms(1) by (cases "rest x") (auto simp: finished_def)
  have off: "split_ok (offset x) c0" and cs: "all_ok cs" using assms(2) x by (auto simp: cursor_ok_def)
  then have off2: "0 \<le> offset x" "comp_ok c0" by (auto simp: split_ok_def)
  let ?c = "trim (offset x) c0"
  have units: "text_at x n = c_u (piece n ?c)" for n
    using x off2(1) by (simp add: text_at_def units_slice_def piece_def trim_def)
  have curs: "resid (take_cur n x) = adv n ?c cs \<and> cursor_ok (take_cur n x)" if "split_ok n ?c" for n
  proof -
    have n: "0 \<le> n" "n \<le> c_n c0 - offset x" "wf16 (take (nat n) (drop (nat (offset x)) (c_u c0)))"
      using that by (auto simp: split_ok_def trim_def)
    have add: "nat (offset x + n) = nat (offset x) + nat n" using n off2 by simp
    have "split_ok (offset x + n) c0"
      using off n by (auto simp: split_ok_def add take_add wf16_append)
    then show ?thesis
      using x n off2 cs trim_trim [OF off2(1) n(1), of c0]
      by (auto simp: take_cur_def resid_def adv_def cursor_ok_def split_ok_def comp_ok_nonneg
          split: list.splits)
  qed
  have bnd: "boundary (c_u (hd (rest x))) (offset x + n) \<longleftrightarrow> split_ok n ?c"
    if "0 \<le> n" "n \<le> c_n ?c" "c_kind ?c = Insert" for n
  proof -
    have "c_kind c0 = Insert" using that(3) by simp
    then obtain v where v: "c0 = mk_insert v" "wf16 v"
      using off2(2) by (auto elim: comp_ok_cases)
    have "boundary v (offset x + n) \<longleftrightarrow> wf16 (take (nat n) (drop (nat (offset x)) v))"
      by (rule piece_boundary(1)) (use v off that off2 in \<open>auto simp: split_ok_def\<close>)
    then show ?thesis
      using x v that split_ok_comp [OF off] by (auto simp: split_ok_def trim_def)
  qed
  show thesis
    by (rule that [of ?c cs])
      (use x off cs units curs bnd split_ok_comp [OF off] in
        \<open>auto simp: resid_def kind_at_def left_def\<close>)
qed

section \<open>The case table of Compose\<close>

inductive composes :: "component list \<Rightarrow> component list \<Rightarrow> component list \<Rightarrow> bool" where
  ended: "composes [] [] []"
| a_delete: "c_kind a = DeleteText \<Longrightarrow> composes as bs es \<Longrightarrow>
    composes (a # as) bs (mk_delete (c_n a) # es)"
| b_insert: "c_kind b = Insert \<Longrightarrow> as = [] \<or> c_kind (hd as) \<noteq> DeleteText \<Longrightarrow> composes as bs es \<Longrightarrow>
    composes as (b # bs) (mk_insert (c_u b) # es)"
| retain_retain: "c_kind a = Retain \<Longrightarrow> c_kind b = Retain \<Longrightarrow> n = min (c_n a) (c_n b) \<Longrightarrow>
    composes (adv n a as) (adv n b bs) es \<Longrightarrow> composes (a # as) (b # bs) (mk_retain n # es)"
| retain_delete: "c_kind a = Retain \<Longrightarrow> c_kind b = DeleteText \<Longrightarrow> n = min (c_n a) (c_n b) \<Longrightarrow>
    composes (adv n a as) (adv n b bs) es \<Longrightarrow> composes (a # as) (b # bs) (mk_delete n # es)"
| insert_retain: "c_kind a = Insert \<Longrightarrow> c_kind b = Retain \<Longrightarrow> n = min (c_n a) (c_n b) \<Longrightarrow>
    split_ok n a \<Longrightarrow> composes (adv n a as) (adv n b bs) es \<Longrightarrow>
    composes (a # as) (b # bs) (mk_insert (c_u (piece n a)) # es)"
| insert_delete: "c_kind a = Insert \<Longrightarrow> c_kind b = DeleteText \<Longrightarrow> n = min (c_n a) (c_n b) \<Longrightarrow>
    split_ok n a \<Longrightarrow> composes (adv n a as) (adv n b bs) es \<Longrightarrow>
    composes (a # as) (b # bs) es"

lemma split_ok_whole: "comp_ok c \<Longrightarrow> split_ok (c_n c) c"
  by (auto simp: split_ok_def elim!: comp_ok_cases)

lemma whole_piece: "comp_ok c \<Longrightarrow> c_u (piece (c_n c) c) = c_u c"
  by (auto simp: piece_def elim!: comp_ok_cases)

lemma adv_whole [simp]: "adv (c_n c) c cs = cs"
  by (simp add: adv_def)

text \<open>One cursor gives up its whole first component; two cursors give up the shorter length.\<close>

lemma head_step:
  assumes "\<not> finished x" "cursor_ok x"
  obtains c cs where "resid x = c # cs" "comp_ok c" "kind_at x = c_kind c" "left x = c_n c"
    "text_at x (left x) = c_u c" "resid (take_cur (left x) x) = cs" "cursor_ok (take_cur (left x) x)"
  using cursor_cases [OF assms] split_ok_whole adv_whole whole_piece by metis

lemma pair_step:
  assumes "\<not> finished x" "\<not> finished y" "cursor_ok x" "cursor_ok y"
    and "n = min (left x) (left y)" "kind_at y \<noteq> Insert"
    and "kind_at x = Insert \<Longrightarrow> boundary (c_u (hd (rest x))) (offset x + n)"
  obtains a as b bs where "resid x = a # as" "resid y = b # bs" "kind_at x = c_kind a"
    "kind_at y = c_kind b" "n = min (c_n a) (c_n b)" "split_ok n a" "split_ok n b"
    "text_at x n = c_u (piece n a)" "resid (take_cur n x) = adv n a as" "cursor_ok (take_cur n x)"
    "resid (take_cur n y) = adv n b bs" "cursor_ok (take_cur n y)"
proof -
  obtain a as where a: "resid x = a # as" "comp_ok a" "kind_at x = c_kind a" "left x = c_n a"
    and ta: "\<And>n. split_ok n a \<Longrightarrow> text_at x n = c_u (piece n a)"
    and ca: "\<And>n. split_ok n a \<Longrightarrow> resid (take_cur n x) = adv n a as \<and> cursor_ok (take_cur n x)"
    and ba: "\<And>n. 0 \<le> n \<Longrightarrow> n \<le> c_n a \<Longrightarrow> c_kind a = Insert \<Longrightarrow>
      boundary (c_u (hd (rest x))) (offset x + n) \<longleftrightarrow> split_ok n a"
    using cursor_cases [OF assms(1,3)] by metis
  obtain b bs where b: "resid y = b # bs" "comp_ok b" "kind_at y = c_kind b" "left y = c_n b"
    and cb: "\<And>n. split_ok n b \<Longrightarrow> resid (take_cur n y) = adv n b bs \<and> cursor_ok (take_cur n y)"
    using cursor_cases [OF assms(2,4)] by metis
  have n: "n = min (c_n a) (c_n b)" "0 \<le> n" "n \<le> c_n a" "n \<le> c_n b"
    using a b assms(5) by (auto simp: comp_ok_nonneg)
  have sa: "split_ok n a"
    using assms(7) ba [OF n(2,3)] n a split_ok_noninsert by (cases "c_kind a = Insert") auto
  have sb: "split_ok n b" using n b assms(6) split_ok_noninsert by auto
  show thesis
    by (rule that [OF a(1) b(1) a(3) b(3) n(1) sa sb ta [OF sa]])
      (use ca [OF sa] cb [OF sb] in auto)
qed

text \<open>What the default branch emits, and the four rules of the table for it as one.\<close>

definition pair_emits :: "int \<Rightarrow> component \<Rightarrow> component \<Rightarrow> component list" where
  "pair_emits n a b =
    (if c_kind a = Retain \<and> c_kind b = Retain then [mk_retain n]
     else if c_kind a = Retain \<and> c_kind b = DeleteText then [mk_delete n]
     else if c_kind a = Insert \<and> c_kind b = Retain then [mk_insert (c_u (piece n a))]
     else [])"

lemma composes_pair:
  assumes "c_kind a \<noteq> DeleteText" "c_kind b \<noteq> Insert" "n = min (c_n a) (c_n b)" "split_ok n a"
    and "composes (adv n a as) (adv n b bs) es"
  shows "composes (a # as) (b # bs) (pair_emits n a b @ es)"
proof (cases "c_kind a")
  case Retain
  then show ?thesis
    using assms composes.retain_retain composes.retain_delete
    by (cases "c_kind b") (auto simp: pair_emits_def)
next
  case Insert
  then show ?thesis
    using assms composes.insert_retain composes.insert_delete
    by (cases "c_kind b") (auto simp: pair_emits_def)
qed (use assms in simp)

section \<open>The loop follows the table and feeds what it emits to the builder\<close>

lemma emit_simps:
  "emit (mk_delete n) b = delete n b" "emit (mk_retain n) b = retain n b"
  "emit (mk_insert u) b = insert_units u b"
  by (simp_all add: emit_def)

definition builds :: "builder \<Rightarrow> component list \<Rightarrow> op \<Rightarrow> bool" where
  "builds b es o1 \<longleftrightarrow> all_ok es \<and> builder_op (fold emit es b) = Inr o1"

lemma builds_append: "all_ok ds \<Longrightarrow> builds (fold emit ds b) es o1 \<Longrightarrow> builds b (ds @ es) o1"
  by (simp add: builds_def)

lemma builds_Cons: "comp_ok e \<Longrightarrow> builds (emit e b) es o1 \<Longrightarrow> builds b (e # es) o1"
  by (simp add: builds_def)

lemma pair_emits_ok: "split_ok n a \<Longrightarrow> all_ok (pair_emits n a b)"
  by (auto simp: pair_emits_def split_ok_def piece_def)

lemma fold_pair_emits:
  "fold emit (pair_emits n a b) out =
     (if c_kind a = Retain \<and> c_kind b = Retain then retain n out
      else if c_kind a = Retain \<and> c_kind b = DeleteText then delete n out
      else if c_kind a = Insert \<and> c_kind b = Retain then insert_units (c_u (piece n a)) out
      else out)"
  by (auto simp: pair_emits_def emit_simps)

lemma compose_loop_composes:
  "compose_loop x y out = Inr o1 \<Longrightarrow> cursor_ok x \<Longrightarrow> cursor_ok y \<Longrightarrow>
     \<exists>es. composes (resid x) (resid y) es \<and> builds out es o1"
proof (induction x y out rule: compose_loop.induct)
  case (1 x y out)
  note run = "1.prems"(1) [unfolded compose_loop.simps [of x y out]]
  consider (ended) "finished x \<and> finished y"
    | (del) "\<not> (finished x \<and> finished y)" "\<not> finished x \<and> kind_at x = DeleteText"
    | (ins) "\<not> (finished x \<and> finished y)" "\<not> (\<not> finished x \<and> kind_at x = DeleteText)"
        "\<not> finished y \<and> kind_at y = Insert"
    | (both) "\<not> (finished x \<and> finished y)" "\<not> (\<not> finished x \<and> kind_at x = DeleteText)"
        "\<not> (\<not> finished y \<and> kind_at y = Insert)" by blast
  then show ?case
  proof cases
    case ended
    then show ?thesis using run
      by (intro exI [of _ "[]"]) (auto simp: finished_resid builds_def intro: composes.ended)
  next
    case del
    then obtain a as where a: "resid x = a # as" "comp_ok a" "kind_at x = c_kind a" "left x = c_n a"
        "resid (take_cur (left x) x) = as" "cursor_ok (take_cur (left x) x)"
      using head_step [OF _ "1.prems"(2)] by metis
    with "1.IH"(1) [OF del refl refl] run del "1.prems"(3) obtain es where
      "composes as (resid y) es" "builds (delete (left x) out) es o1"
      by (auto simp: Let_def split: option.splits)
    then show ?thesis
      using a del comp_ok_nonneg [OF a(2)]
      by (intro exI [of _ "mk_delete (c_n a) # es"])
        (auto simp: emit_simps intro!: composes.a_delete builds_Cons)
  next
    case ins
    then obtain b bs where b: "resid y = b # bs" "comp_ok b" "kind_at y = c_kind b"
        "text_at y (left y) = c_u b" "resid (take_cur (left y) y) = bs" "cursor_ok (take_cur (left y) y)"
      using head_step [OF _ "1.prems"(3)] by metis
    with "1.IH"(2) [OF ins refl refl] run ins "1.prems"(2) obtain es where
      "composes (resid x) bs es" "builds (insert_units (c_u b) out) es o1"
      by (auto simp: Let_def split: option.splits)
    moreover have "resid x = [] \<or> c_kind (hd (resid x)) \<noteq> DeleteText"
      using ins(2) head_step [OF _ "1.prems"(2)] by (metis finished_resid list.sel(1))
    ultimately show ?thesis
      using b ins by (intro exI [of _ "mk_insert (c_u b) # es"])
        (auto simp: emit_simps elim: comp_ok_cases intro!: composes.b_insert builds_Cons)
  next
    case both
    let ?n = "min (left x) (left y)"
    have fin: "\<not> (finished x \<or> finished y)"
      and bnd: "\<not> (kind_at x = Insert \<and> \<not> boundary (c_u (hd (rest x))) (offset x + ?n))"
      using run both by (auto simp: Let_def split: if_splits)
    obtain a as b bs where ab: "resid x = a # as" "resid y = b # bs" "kind_at x = c_kind a"
        "kind_at y = c_kind b" "?n = min (c_n a) (c_n b)" "split_ok ?n a" "split_ok ?n b"
        "text_at x ?n = c_u (piece ?n a)" "resid (take_cur ?n x) = adv ?n a as"
        "cursor_ok (take_cur ?n x)" "resid (take_cur ?n y) = adv ?n b bs" "cursor_ok (take_cur ?n y)"
      using pair_step [OF _ _ "1.prems"(2,3) refl] fin both bnd by metis
    have "compose_loop (take_cur ?n x) (take_cur ?n y) (fold emit (pair_emits ?n a b) out) = Inr o1"
        "b_err (fold emit (pair_emits ?n a b) out) = None"
      using run both fin bnd unfolding fold_pair_emits ab(3,4,8) [symmetric]
      by (auto simp: Let_def split: option.splits)
    with "1.IH"(3) [OF both fin refl bnd refl] obtain es where
      "composes (adv ?n a as) (adv ?n b bs) es" "builds (fold emit (pair_emits ?n a b) out) es o1"
      unfolding fold_pair_emits ab(3,4,8) [symmetric] using ab(9-12) by auto
    then show ?thesis
      using composes_pair [OF _ _ ab(5,6)] ab(1-4) both fin builds_append [OF pair_emits_ok [OF ab(6)]]
      by (intro exI [of _ "pair_emits ?n a b @ es"]) auto
  qed
qed

section \<open>The table computes sequential composition\<close>

lemma piece_kinds:
  "split_ok n c \<Longrightarrow> c_kind c = Retain \<Longrightarrow> piece n c = mk_retain n"
  "split_ok n c \<Longrightarrow> c_kind c = DeleteText \<Longrightarrow> piece n c = mk_delete n"
  by (auto simp: split_ok_def piece_def elim!: comp_ok_cases)

lemma piece_insert:
  assumes "split_ok n c" "c_kind c = Insert"
  obtains v where "piece n c = mk_insert v" "length v = nat n" "int (length v) = n" "wf16 v"
proof
  show "piece n c = mk_insert (take (nat n) (c_u c))" "length (take (nat n) (c_u c)) = nat n"
    "int (length (take (nat n) (c_u c))) = n" "wf16 (take (nat n) (c_u c))"
    using assms by (auto simp: split_ok_def piece_def elim!: comp_ok_cases)
qed

lemma run_cuts_mk:
  "run (\<lparr>c_kind = Retain, c_n = n, c_u = u\<rparr> # cs) d = take (nat n) d @ run cs (drop (nat n) d)"
  "run (\<lparr>c_kind = Insert, c_n = n, c_u = u\<rparr> # cs) d = u @ run cs d"
  "run (\<lparr>c_kind = DeleteText, c_n = n, c_u = u\<rparr> # cs) d = run cs (drop (nat n) d)"
  "cuts (\<lparr>c_kind = Retain, c_n = n, c_u = u\<rparr> # cs) d \<longleftrightarrow>
     wf16 (take (nat n) d) \<and> cuts cs (drop (nat n) d)"
  "cuts (\<lparr>c_kind = Insert, c_n = n, c_u = u\<rparr> # cs) d \<longleftrightarrow> cuts cs d"
  "cuts (\<lparr>c_kind = DeleteText, c_n = n, c_u = u\<rparr> # cs) d \<longleftrightarrow>
     wf16 (take (nat n) d) \<and> cuts cs (drop (nat n) d)"
  by simp_all

lemma length_take_int: "0 \<le> n \<Longrightarrow> n \<le> int (length d) \<Longrightarrow> length (take (nat n) d) = nat n"
  by simp

lemma take_min_piece:
  "n = min i j \<Longrightarrow> P (take (nat i) u) \<Longrightarrow> P (take (nat j) u) \<Longrightarrow> P (take (nat n) u)"
  by (simp add: min_def split: if_splits)

text \<open>Well-formed pieces: the shorter of two heads ends where one of the components ends.\<close>

lemma cuts_head: "c_kind c \<noteq> Insert \<Longrightarrow> cuts (c # cs) d \<Longrightarrow> wf16 (take (nat (c_n c)) d)"
  by (cases "c_kind c") auto

definition composes_spec :: "component list \<Rightarrow> component list \<Rightarrow> component list \<Rightarrow> bool" where
  "composes_spec as bs es \<longleftrightarrow> consumed es = consumed as \<and> produced es = produced bs \<and>
     (\<forall>d. consumed as = int (length d) \<longrightarrow> run es d = run bs (run as d) \<and>
        (cuts as d \<longrightarrow> cuts bs (run as d) \<longrightarrow> cuts es d))"

text \<open>
  The head of a run. \<open>M\<close> is \<open>b\<close>'s input; it starts with \<open>n\<close> units that \<open>a\<close> produced, from
  the document (a retention) or its own text (an insertion).
\<close>

lemma run_head_b:
  assumes "split_ok n b" "c_kind b \<noteq> Insert"
  shows "run (b # bs) M = (if c_kind b = Retain then take (nat n) M else [])
    @ run (adv n b bs) (drop (nat n) M)"
    and "cuts (b # bs) M \<Longrightarrow> wf16 (take (nat n) M) \<Longrightarrow> cuts (adv n b bs) (drop (nat n) M)"
  using run_adv [OF assms(1), of bs M] cuts_adv [OF assms(1), of bs M]
    piece_kinds(1,2) [OF assms(1)] assms(2)
  by (cases "c_kind b"; simp del: run.simps(2) cuts.simps(2); simp)+

lemma run_head_retain:
  assumes "split_ok n a" "c_kind a = Retain" "all_ok as" "consumed (a # as) \<le> int (length d)"
  shows "take (nat n) (run (a # as) d) = take (nat n) d"
    and "drop (nat n) (run (a # as) d) = run (adv n a as) (drop (nat n) d)"
    and "consumed (a # as) = n + consumed (adv n a as)" and "0 \<le> n" and "n \<le> int (length d)"
proof -
  have pa: "piece n a = mk_retain n" and n0: "0 \<le> n"
    using assms(1,2) by (auto simp: piece_kinds split_ok_def)
  then show "0 \<le> n" and c: "consumed (a # as) = n + consumed (adv n a as)"
    using adv_measures(1) [OF assms(1), of as] by simp_all
  show n_le: "n \<le> int (length d)"
    using c assms(4) consumed_nonneg [of "adv n a as"] split_ok_adv [OF assms(1,3)] by simp
  have "run (a # as) d = take (nat n) d @ run (adv n a as) (drop (nat n) d)"
    using run_adv [OF assms(1), of as d] pa by simp
  then show "take (nat n) (run (a # as) d) = take (nat n) d"
    and "drop (nat n) (run (a # as) d) = run (adv n a as) (drop (nat n) d)"
    using length_take_int [OF n0 n_le] by simp_all
qed

lemma run_head_insert:
  assumes "split_ok n a" "c_kind a = Insert"
  shows "take (nat n) (run (a # as) d) = c_u (piece n a)"
    and "drop (nat n) (run (a # as) d) = run (adv n a as) d"
    and "consumed (a # as) = consumed (adv n a as)" and "wf16 (c_u (piece n a))"
    and "cuts (a # as) d \<Longrightarrow> cuts (adv n a as) d"
proof -
  obtain v where v: "piece n a = mk_insert v" "length v = nat n" "wf16 v"
    using piece_insert [OF assms] by metis
  have "run (a # as) d = v @ run (adv n a as) d"
    using run_adv [OF assms(1), of as d] v(1) by simp
  then show "take (nat n) (run (a # as) d) = c_u (piece n a)"
    and "drop (nat n) (run (a # as) d) = run (adv n a as) d" using v by simp_all
  show "consumed (a # as) = consumed (adv n a as)"
    using adv_measures(1) [OF assms(1), of as] v(1) by simp
  show "wf16 (c_u (piece n a))" using v by simp
  show "cuts (adv n a as) d" if "cuts (a # as) d"
    using cuts_adv [OF assms(1) that] assms(2) v(1) by simp
qed

text \<open>The common part of the four paired rules.\<close>

lemma composes_spec_pair:
  assumes IH: "composes_spec (adv n a as) (adv n b bs) es"
    and sa: "split_ok n a" and sb: "split_ok n b" and ok: "all_ok as" "all_ok bs"
    and kinds: "c_kind a \<noteq> DeleteText" "c_kind b \<noteq> Insert" and n: "n = min (c_n a) (c_n b)"
  shows "composes_spec (a # as) (b # bs) (pair_emits n a b @ es)"
proof -
  let ?A = "adv n a as" and ?B = "adv n b bs" and ?E = "pair_emits n a b @ es"
  have es: "consumed es = consumed ?A" "produced es = produced ?B"
    and sem: "\<And>d. consumed ?A = int (length d) \<Longrightarrow> run es d = run ?B (run ?A d) \<and>
        (cuts ?A d \<longrightarrow> cuts ?B (run ?A d) \<longrightarrow> cuts es d)"
    using IH by (auto simp: composes_spec_def)
  note hb = run_head_b [OF sb kinds(2), of bs]
  have "consumed (pair_emits n a b) = consumes (piece n a)" "produced (pair_emits n a b) = produces (piece n b)"
    using kinds sa sb by (auto simp: pair_emits_def piece_def split_ok_def consumes_def produces_def
        elim!: comp_ok_cases)
  then have len: "consumed ?E = consumed (a # as)" "produced ?E = produced (b # bs)"
    using adv_measures(1) [OF sa, of as] adv_measures(2) [OF sb, of bs] es by simp_all
  have "run ?E d = run (b # bs) (run (a # as) d) \<and>
      (cuts (a # as) d \<longrightarrow> cuts (b # bs) (run (a # as) d) \<longrightarrow> cuts ?E d)"
    if d: "consumed (a # as) = int (length d)" for d
  proof (cases "c_kind a = Insert")
    case True
    note ha = run_head_insert [OF sa True]
    show ?thesis
      using sem [of d] d ha hb [of "run (a # as) d"] kinds True
      by (cases "c_kind b")
        (auto simp: pair_emits_def run_cuts_mk simp del: run.simps(2) cuts.simps(2) consumed_simps(2))
  next
    case False
    then have ret: "c_kind a = Retain" using kinds by (cases "c_kind a") auto
    note ha = run_head_retain [OF sa ret ok(1), of d]
    have wf: "wf16 (take (nat n) d)" if "cuts (a # as) d" "cuts (b # bs) (run (a # as) d)"
      using cuts_head [OF False that(1)] cuts_head [OF kinds(2) that(2)] n ha(1) d
      by (auto simp: min_def split: if_splits)
    have "cuts ?A (drop (nat n) d)" if "cuts (a # as) d" "wf16 (take (nat n) d)"
      using cuts_adv [OF sa that(1)] that(2) piece_kinds(1) [OF sa ret] by simp
    moreover have "consumed ?A = int (length (drop (nat n) d))" using ha(3-5) d by simp
    ultimately show ?thesis
      using sem [of "drop (nat n) d"] ha(1,2) hb [of "run (a # as) d"] kinds ret wf d
      by (cases "c_kind b")
        (auto simp: pair_emits_def run_cuts_mk simp del: run.simps(2) cuts.simps(2) length_drop consumed_simps(2))
  qed
  with len show ?thesis by (simp add: composes_spec_def)
qed

lemma pair_residuals:
  assumes ok: "all_ok (a # as)" "all_ok (b # bs)" and kinds: "c_kind a \<noteq> DeleteText" "c_kind b \<noteq> Insert"
    and n: "n = min (c_n a) (c_n b)" and sa: "c_kind a = Insert \<Longrightarrow> split_ok n a"
    and len: "produced (a # as) = consumed (b # bs)"
  shows "split_ok n a" "split_ok n b" "all_ok (adv n a as)" "all_ok (adv n b bs)"
    "produced (adv n a as) = consumed (adv n b bs)"
proof -
  show s: "split_ok n a" "split_ok n b"
    using ok n kinds sa split_ok_noninsert [of a n] split_ok_noninsert [of b n]
    by (auto simp: comp_ok_nonneg)
  show "all_ok (adv n a as)" "all_ok (adv n b bs)"
    using split_ok_adv [OF s(1), of as] split_ok_adv [OF s(2), of bs] ok by simp_all
  have "produces (piece n a) = n" "consumes (piece n b) = n"
    using kinds by (simp_all add: produces_def consumes_def piece_def)
  then show "produced (adv n a as) = consumed (adv n b bs)"
    using adv_measures(2) [OF s(1), of as] adv_measures(1) [OF s(2), of bs] len by simp
qed

lemma composes_correct:
  "composes as bs es \<Longrightarrow> all_ok as \<Longrightarrow> all_ok bs \<Longrightarrow> produced as = consumed bs \<Longrightarrow>
     composes_spec as bs es"
proof (induction rule: composes.induct)
  case ended
  then show ?case by (simp add: composes_spec_def)
next
  case (a_delete a as bs es)
  obtain n where a: "a = mk_delete n" "0 \<le> n"
    using a_delete by (auto elim: comp_ok_cases)
  have IH: "composes_spec as bs es" using a_delete a by simp
  show ?case unfolding composes_spec_def
  proof (intro conjI allI impI)
    fix d :: "u16 list"
    assume d: "consumed (a # as) = int (length d)"
    then have "consumed as = int (length (drop (nat n) d))"
      using a consumed_nonneg [of as] a_delete.prems(1) by (simp add: of_nat_diff nat_le_iff)
    then show "run (mk_delete (c_n a) # es) d = run bs (run (a # as) d)"
      and "cuts (a # as) d \<Longrightarrow> cuts bs (run (a # as) d) \<Longrightarrow> cuts (mk_delete (c_n a) # es) d"
      using IH a by (auto simp: composes_spec_def simp del: length_drop)
  qed (use IH a in \<open>simp_all add: composes_spec_def\<close>)
next
  case (b_insert b as bs es)
  then show ?case by (auto simp: composes_spec_def elim!: comp_ok_cases)
next
  case (retain_retain a b n as bs es)
  note pr = pair_residuals [OF retain_retain(6,7) _ _ retain_retain(3) _ retain_retain(8)]
  show ?case
    using composes_spec_pair [OF retain_retain(5) pr(1,2)] pr retain_retain
    by (simp add: pair_emits_def)
next
  case (retain_delete a b n as bs es)
  note pr = pair_residuals [OF retain_delete(6,7) _ _ retain_delete(3) _ retain_delete(8)]
  show ?case
    using composes_spec_pair [OF retain_delete(5) pr(1,2)] pr retain_delete
    by (simp add: pair_emits_def)
next
  case (insert_retain a b n as bs es)
  note pr = pair_residuals [OF insert_retain(7,8) _ _ insert_retain(3,4) insert_retain(9)]
  show ?case
    using composes_spec_pair [OF insert_retain(6) pr(1,2)] pr insert_retain
    by (simp add: pair_emits_def)
next
  case (insert_delete a b n as bs es)
  note pr = pair_residuals [OF insert_delete(7,8) _ _ insert_delete(3,4) insert_delete(9)]
  show ?case
    using composes_spec_pair [OF insert_delete(6) pr(1,2)] pr insert_delete
    by (simp add: pair_emits_def)
qed

section \<open>The case table of Transform\<close>

inductive transforms ::
    "component list \<Rightarrow> component list \<Rightarrow> component list \<Rightarrow> component list \<Rightarrow> bool" where
  t_ended: "transforms [] [] [] []"
| t_a_insert: "c_kind a = Insert \<Longrightarrow> transforms as bs ps qs \<Longrightarrow>
    transforms (a # as) bs (mk_insert (c_u a) # ps) (mk_retain (c_n a) # qs)"
| t_b_insert: "c_kind b = Insert \<Longrightarrow> as = [] \<or> c_kind (hd as) \<noteq> Insert \<Longrightarrow> transforms as bs ps qs \<Longrightarrow>
    transforms as (b # bs) (mk_retain (c_n b) # ps) (mk_insert (c_u b) # qs)"
| t_retain_retain: "c_kind a = Retain \<Longrightarrow> c_kind b = Retain \<Longrightarrow> n = min (c_n a) (c_n b) \<Longrightarrow>
    transforms (adv n a as) (adv n b bs) ps qs \<Longrightarrow>
    transforms (a # as) (b # bs) (mk_retain n # ps) (mk_retain n # qs)"
| t_delete_retain: "c_kind a = DeleteText \<Longrightarrow> c_kind b = Retain \<Longrightarrow> n = min (c_n a) (c_n b) \<Longrightarrow>
    transforms (adv n a as) (adv n b bs) ps qs \<Longrightarrow>
    transforms (a # as) (b # bs) (mk_delete n # ps) qs"
| t_retain_delete: "c_kind a = Retain \<Longrightarrow> c_kind b = DeleteText \<Longrightarrow> n = min (c_n a) (c_n b) \<Longrightarrow>
    transforms (adv n a as) (adv n b bs) ps qs \<Longrightarrow>
    transforms (a # as) (b # bs) ps (mk_delete n # qs)"
| t_delete_delete: "c_kind a = DeleteText \<Longrightarrow> c_kind b = DeleteText \<Longrightarrow> n = min (c_n a) (c_n b) \<Longrightarrow>
    transforms (adv n a as) (adv n b bs) ps qs \<Longrightarrow> transforms (a # as) (b # bs) ps qs"

definition p_emits :: "int \<Rightarrow> component \<Rightarrow> component \<Rightarrow> component list" where
  "p_emits n a b =
    (if c_kind a = Retain \<and> c_kind b = Retain then [mk_retain n]
     else if c_kind a = DeleteText \<and> c_kind b = Retain then [mk_delete n] else [])"

definition q_emits :: "int \<Rightarrow> component \<Rightarrow> component \<Rightarrow> component list" where
  "q_emits n a b =
    (if c_kind a = Retain \<and> c_kind b = Retain then [mk_retain n]
     else if c_kind a = Retain \<and> c_kind b = DeleteText then [mk_delete n] else [])"

lemma transforms_pair:
  assumes "c_kind a \<noteq> Insert" "c_kind b \<noteq> Insert" "n = min (c_n a) (c_n b)"
    and "transforms (adv n a as) (adv n b bs) ps qs"
  shows "transforms (a # as) (b # bs) (p_emits n a b @ ps) (q_emits n a b @ qs)"
proof (cases "c_kind a")
  case Retain
  then show ?thesis
    using assms t_retain_retain t_retain_delete
    by (cases "c_kind b") (auto simp: p_emits_def q_emits_def)
next
  case DeleteText
  then show ?thesis
    using assms t_delete_retain t_delete_delete
    by (cases "c_kind b") (auto simp: p_emits_def q_emits_def)
qed (use assms in simp)

lemma pq_emits_ok: "0 \<le> n \<Longrightarrow> all_ok (p_emits n a b) \<and> all_ok (q_emits n a b)"
  by (auto simp: p_emits_def q_emits_def)

lemma fold_pq_emits:
  "fold emit (p_emits n a b) p =
     (if c_kind a = Retain \<and> c_kind b = Retain then retain n p
      else if c_kind a = DeleteText \<and> c_kind b = Retain then delete n p else p)"
  "fold emit (q_emits n a b) q =
     (if c_kind a = Retain \<and> c_kind b = Retain then retain n q
      else if c_kind a = Retain \<and> c_kind b = DeleteText then delete n q else q)"
  by (auto simp: p_emits_def q_emits_def emit_simps)

lemma transform_loop_transforms:
  "transform_loop x y p q = Inr (ap, bp) \<Longrightarrow> cursor_ok x \<Longrightarrow> cursor_ok y \<Longrightarrow>
     \<exists>ps qs. transforms (resid x) (resid y) ps qs \<and> builds p ps ap \<and> builds q qs bp"
proof (induction x y p q rule: transform_loop.induct)
  case (1 x y p q)
  note run = "1.prems"(1) [unfolded transform_loop.simps [of x y p q]]
  consider (ended) "finished x \<and> finished y"
    | (ins_a) "\<not> (finished x \<and> finished y)" "\<not> finished x \<and> kind_at x = Insert"
    | (ins_b) "\<not> (finished x \<and> finished y)" "\<not> (\<not> finished x \<and> kind_at x = Insert)"
        "\<not> finished y \<and> kind_at y = Insert"
    | (both) "\<not> (finished x \<and> finished y)" "\<not> (\<not> finished x \<and> kind_at x = Insert)"
        "\<not> (\<not> finished y \<and> kind_at y = Insert)" by blast
  then show ?case
  proof cases
    case ended
    then show ?thesis using run
      by (intro exI [of _ "[]"])
        (auto simp: finished_resid builds_def sum_split intro: transforms.intros)
  next
    case ins_a
    then obtain a as where a: "resid x = a # as" "comp_ok a" "kind_at x = c_kind a" "left x = c_n a"
        "text_at x (left x) = c_u a" "resid (take_cur (left x) x) = as" "cursor_ok (take_cur (left x) x)"
      using head_step [OF _ "1.prems"(2)] by metis
    with "1.IH"(1) [OF ins_a refl refl refl] run ins_a "1.prems"(3) obtain ps qs where
      "transforms as (resid y) ps qs" "builds (insert_units (c_u a) p) ps ap"
      "builds (retain (c_n a) q) qs bp"
      by (auto simp: Let_def split: option.splits)
    then show ?thesis
      using a ins_a comp_ok_nonneg [OF a(2)]
      by (intro exI [of _ "mk_insert (c_u a) # ps"] exI [of _ "mk_retain (c_n a) # qs"])
        (auto simp: emit_simps elim: comp_ok_cases intro!: t_a_insert builds_Cons)
  next
    case ins_b
    then obtain b bs where b: "resid y = b # bs" "comp_ok b" "kind_at y = c_kind b" "left y = c_n b"
        "text_at y (left y) = c_u b" "resid (take_cur (left y) y) = bs" "cursor_ok (take_cur (left y) y)"
      using head_step [OF _ "1.prems"(3)] by metis
    with "1.IH"(2) [OF ins_b refl refl refl] run ins_b "1.prems"(2) obtain ps qs where
      "transforms (resid x) bs ps qs" "builds (retain (c_n b) p) ps ap"
      "builds (insert_units (c_u b) q) qs bp"
      by (auto simp: Let_def split: option.splits)
    moreover have "resid x = [] \<or> c_kind (hd (resid x)) \<noteq> Insert"
      using ins_b(2) head_step [OF _ "1.prems"(2)] by (metis finished_resid list.sel(1))
    ultimately show ?thesis
      using b ins_b comp_ok_nonneg [OF b(2)]
      by (intro exI [of _ "mk_retain (c_n b) # ps"] exI [of _ "mk_insert (c_u b) # qs"])
        (auto simp: emit_simps elim: comp_ok_cases intro!: t_b_insert builds_Cons)
  next
    case both
    let ?n = "min (left x) (left y)"
    have fin: "\<not> (finished x \<or> finished y)" using run both by (auto split: if_splits)
    obtain a as b bs where ab: "resid x = a # as" "resid y = b # bs" "kind_at x = c_kind a"
        "kind_at y = c_kind b" "?n = min (c_n a) (c_n b)" "split_ok ?n a" "split_ok ?n b"
        "resid (take_cur ?n x) = adv ?n a as" "cursor_ok (take_cur ?n x)"
        "resid (take_cur ?n y) = adv ?n b bs" "cursor_ok (take_cur ?n y)"
      using pair_step [OF _ _ "1.prems"(2,3) refl] fin both by metis
    let ?p = "fold emit (p_emits ?n a b) p" and ?q = "fold emit (q_emits ?n a b) q"
    have err: "pair_err ?p ?q = None"
      and "transform_loop (take_cur ?n x) (take_cur ?n y) ?p ?q = Inr (ap, bp)"
      using run both fin unfolding fold_pq_emits ab(3,4) [symmetric]
      by (auto simp: Let_def split: option.splits)
    with "1.IH"(3) [OF both fin refl refl refl] obtain ps qs where
      "transforms (adv ?n a as) (adv ?n b bs) ps qs" "builds ?p ps ap" "builds ?q qs bp"
      unfolding fold_pq_emits ab(3,4) [symmetric] using ab(8-11) by auto
    moreover have "0 \<le> ?n" using ab(6) by (simp add: split_ok_def)
    ultimately show ?thesis
      using transforms_pair [OF _ _ ab(5)] ab(1-4) both fin builds_append pq_emits_ok
      by (intro exI [of _ "p_emits ?n a b @ ps"] exI [of _ "q_emits ?n a b @ qs"]) auto
  qed
qed

section \<open>The table converges\<close>

definition transforms_spec ::
    "component list \<Rightarrow> component list \<Rightarrow> component list \<Rightarrow> component list \<Rightarrow> bool" where
  "transforms_spec as bs ps qs \<longleftrightarrow> consumed ps = produced bs \<and> consumed qs = produced as \<and>
     produced ps = produced qs \<and>
     (\<forall>d. consumed as = int (length d) \<longrightarrow> run qs (run as d) = run ps (run bs d) \<and>
        (cuts as d \<longrightarrow> cuts bs d \<longrightarrow> cuts qs (run as d) \<and> cuts ps (run bs d)))"

lemma transforms_spec_pair:
  assumes IH: "transforms_spec (adv n a as) (adv n b bs) ps qs"
    and sa: "split_ok n a" and sb: "split_ok n b" and ok: "all_ok as" "all_ok bs"
    and kinds: "c_kind a \<noteq> Insert" "c_kind b \<noteq> Insert" and n: "n = min (c_n a) (c_n b)"
  shows "transforms_spec (a # as) (b # bs) (p_emits n a b @ ps) (q_emits n a b @ qs)"
proof -
  let ?A = "adv n a as" and ?B = "adv n b bs" and ?P = "p_emits n a b @ ps" and ?Q = "q_emits n a b @ qs"
  have lens: "consumed ps = produced ?B" "consumed qs = produced ?A" "produced ps = produced qs"
    and sem: "\<And>d. consumed ?A = int (length d) \<Longrightarrow> run qs (run ?A d) = run ps (run ?B d) \<and>
        (cuts ?A d \<longrightarrow> cuts ?B d \<longrightarrow> cuts qs (run ?A d) \<and> cuts ps (run ?B d))"
    using IH by (auto simp: transforms_spec_def)
  have emits: "consumed (p_emits n a b) = produces (piece n b)"
    "consumed (q_emits n a b) = produces (piece n a)" "produced (p_emits n a b) = produced (q_emits n a b)"
    using kinds by (cases "c_kind a"; cases "c_kind b";
        simp add: p_emits_def q_emits_def produces_def piece_def)+
  then have meas: "consumed ?P = produced (b # bs)" "consumed ?Q = produced (a # as)"
    "produced ?P = produced ?Q"
    using adv_measures(2) [OF sa, of as] adv_measures(2) [OF sb, of bs] lens by simp_all
  have ca: "consumed (a # as) = n + consumed ?A"
    using adv_measures(1) [OF sa, of as] kinds by (simp add: consumes_def piece_def)
  have A0: "0 \<le> consumed ?A" "0 \<le> n"
    using split_ok_adv [OF sa ok(1)] sa by (auto simp: consumed_nonneg split_ok_def)
  have "run ?Q (run (a # as) d) = run ?P (run (b # bs) d) \<and>
      (cuts (a # as) d \<longrightarrow> cuts (b # bs) d \<longrightarrow> cuts ?Q (run (a # as) d) \<and> cuts ?P (run (b # bs) d))"
    if d: "consumed (a # as) = int (length d)" for d
  proof -
    note ha = run_head_b [OF sa kinds(1), of as d] and hb = run_head_b [OF sb kinds(2), of bs d]
    have len: "length (take (nat n) d) = nat n" "consumed ?A = int (length (drop (nat n) d))"
      using ca A0 d by simp_all
    have wf: "wf16 (take (nat n) d)" if "cuts (a # as) d" "cuts (b # bs) d"
      using cuts_head [OF kinds(1) that(1)] cuts_head [OF kinds(2) that(2)] n
      by (auto simp: min_def split: if_splits)
    note del = run.simps(2) cuts.simps(2) length_drop length_take
    show ?thesis
      using sem [OF len(2)] ha hb wf len(1) kinds
      by (cases "c_kind a"; cases "c_kind b")
        (auto simp: p_emits_def q_emits_def run_cuts_mk simp del: del)
  qed
  with meas show ?thesis by (simp add: transforms_spec_def)
qed

lemma pair_residuals_t:
  assumes ok: "all_ok (a # as)" "all_ok (b # bs)" and kinds: "c_kind a \<noteq> Insert" "c_kind b \<noteq> Insert"
    and n: "n = min (c_n a) (c_n b)" and len: "consumed (a # as) = consumed (b # bs)"
  shows "split_ok n a" "split_ok n b" "all_ok as" "all_ok bs" "all_ok (adv n a as)"
    "all_ok (adv n b bs)" "consumed (adv n a as) = consumed (adv n b bs)"
proof -
  show s: "split_ok n a" "split_ok n b" and "all_ok as" "all_ok bs"
    using ok n kinds split_ok_noninsert [of a n] split_ok_noninsert [of b n]
    by (auto simp: comp_ok_nonneg)
  show "all_ok (adv n a as)" "all_ok (adv n b bs)"
    using split_ok_adv [OF s(1), of as] split_ok_adv [OF s(2), of bs] ok by simp_all
  have "consumes (piece n a) = n" "consumes (piece n b) = n"
    using kinds by (simp_all add: consumes_def piece_def)
  then show "consumed (adv n a as) = consumed (adv n b bs)"
    using adv_measures(1) [OF s(1), of as] adv_measures(1) [OF s(2), of bs] len by simp
qed

lemma transforms_correct:
  "transforms as bs ps qs \<Longrightarrow> all_ok as \<Longrightarrow> all_ok bs \<Longrightarrow> consumed as = consumed bs \<Longrightarrow>
     transforms_spec as bs ps qs"
proof (induction rule: transforms.induct)
  case t_ended
  then show ?case by (simp add: transforms_spec_def)
next
  case (t_a_insert a as bs ps qs)
  then show ?case by (auto simp: transforms_spec_def elim!: comp_ok_cases)
next
  case (t_b_insert b as bs ps qs)
  then show ?case by (auto simp: transforms_spec_def elim!: comp_ok_cases)
next
  case (t_retain_retain a b n as bs ps qs)
  note pr = pair_residuals_t [OF t_retain_retain(6,7) _ _ t_retain_retain(3,8)]
  show ?case
    using transforms_spec_pair [OF t_retain_retain(5) pr(1,2)] pr t_retain_retain
    by (simp add: p_emits_def q_emits_def)
next
  case (t_delete_retain a b n as bs ps qs)
  note pr = pair_residuals_t [OF t_delete_retain(6,7) _ _ t_delete_retain(3,8)]
  show ?case
    using transforms_spec_pair [OF t_delete_retain(5) pr(1,2)] pr t_delete_retain
    by (simp add: p_emits_def q_emits_def)
next
  case (t_retain_delete a b n as bs ps qs)
  note pr = pair_residuals_t [OF t_retain_delete(6,7) _ _ t_retain_delete(3,8)]
  show ?case
    using transforms_spec_pair [OF t_retain_delete(5) pr(1,2)] pr t_retain_delete
    by (simp add: p_emits_def q_emits_def)
next
  case (t_delete_delete a b n as bs ps qs)
  note pr = pair_residuals_t [OF t_delete_delete(6,7) _ _ t_delete_delete(3,8)]
  show ?case
    using transforms_spec_pair [OF t_delete_delete(5) pr(1,2)] pr t_delete_delete
    by (simp add: p_emits_def q_emits_def)
qed

section \<open>What Compose and Transform return\<close>

text \<open>
  The results in terms of the tables: the emitted components \<open>es\<close> obey the table's
  specification and the returned operation refines them.
\<close>

lemma builds_refines:
  assumes "new_builder l = Inr b" "builds b es o1"
  shows "op_ok o1 \<and> admit l o1 = Inr () \<and> refines es (comps o1)"
proof -
  have b: "builder_ok b" "b_err b = None" "b_comps b = []" "b_limits b = l"
    using new_builder_ok [OF assms(1)] by auto
  have es: "all_ok es" and o1: "builder_op (fold emit es b) = Inr o1"
    using assms(2) by (auto simp: builds_def)
  have ok: "builder_ok (fold emit es b)" by (rule sink.puts_invar [OF b(1) es])
  have lim: "b_limits (fold emit es b) = l"
    using b(1,4) es by (induction es arbitrary: b) (auto simp: emit_step)
  show ?thesis
    using builder_op_ok [OF ok o1] sink.puts_refine [OF b(1) es] b(3) lim by auto
qed

lemma compose_Inr:
  assumes "compose l a b = Inr ab" "op_ok a" "op_ok b"
  obtains es where "composes_spec (comps a) (comps b) es" "refines es (comps ab)" "op_ok ab"
    "admit l ab = Inr ()" "op_target a = op_base b" "limits_check l = Inr ()"
proof -
  obtain out where out: "new_builder l = Inr out" "compose_loop (start a) (start b) out = Inr ab"
    and eq: "op_target a = op_base b" and l: "limits_check l = Inr ()"
    using assms(1) by (auto simp: compose_def sum_split split: if_splits)
  obtain es where es: "composes (comps a) (comps b) es" "builds out es ab"
    using compose_loop_composes [OF out(2)] cursor_start assms(2,3) by metis
  have "composes_spec (comps a) (comps b) es"
    using composes_correct [OF es(1)] assms(2,3) eq by (auto simp: op_ok_def canonical_all_ok)
  then show thesis using builds_refines [OF out(1) es(2)] eq l that by auto
qed

lemma transform_Inr:
  assumes "transform l a b = Inr (ap, bp)" "op_ok a" "op_ok b"
  obtains ps qs where "transforms_spec (comps a) (comps b) ps qs" "refines ps (comps ap)"
    "refines qs (comps bp)" "op_ok ap" "op_ok bp" "admit l ap = Inr ()" "admit l bp = Inr ()"
    "op_base a = op_base b" "limits_check l = Inr ()"
proof -
  obtain p q where pq: "new_builder l = Inr p" "new_builder l = Inr q"
    "transform_loop (start a) (start b) p q = Inr (ap, bp)"
    and eq: "op_base a = op_base b" and l: "limits_check l = Inr ()"
    using assms(1) by (auto simp: transform_def sum_split split: if_splits)
  obtain ps qs where es: "transforms (comps a) (comps b) ps qs" "builds p ps ap" "builds q qs bp"
    using transform_loop_transforms [OF pq(3)] cursor_start assms(2,3) by metis
  have "transforms_spec (comps a) (comps b) ps qs"
    using transforms_correct [OF es(1)] assms(2,3) eq by (auto simp: op_ok_def canonical_all_ok)
  then show thesis
    using builds_refines [OF pq(1) es(2)] builds_refines [OF pq(2) es(3)] eq l that by auto
qed

end
