(* ===== verification/Textop_Correct.thy ===== *)
theory Textop_Correct
  imports Textop_Algebra
begin

text \<open>
  The contract of the text-operation core (\<^verbatim>\<open>internal/core/textop\<close>): convergence of
  concurrent operations, sequential composition, exactness of validation, the builder,
  and which errors can occur. Hypotheses name what the package constructs: documents are
  well-formed UTF-16 (\<open>wf16\<close>) and operations are canonical with their lengths (\<open>op_ok\<close>).
\<close>

section \<open>Errors of validation\<close>

text \<open>On well-cut text the only failure is the byte limit.\<close>

lemma validate_loop_Inl:
  assumes "wf16 u"
  shows "all_ok cs \<Longrightarrow> 0 \<le> p \<Longrightarrow> wf16 (take (nat p) u) \<Longrightarrow> p + consumed cs \<le> int (length u) \<Longrightarrow>
    sz \<le> MaxDocBytes l \<Longrightarrow> cuts cs (drop (nat p) u) \<Longrightarrow>
    validate_loop l u i p sz cs = Inl e \<Longrightarrow> e = ErrLimit"
proof (induction cs arbitrary: i p sz)
  case (Cons c cs)
  have ok: "comp_ok c" "all_ok cs" and len: "p + consumes c + consumed cs \<le> int (length u)"
    using Cons.prems by simp_all
  have c0: "0 \<le> consumed cs" using ok(2) by (rule consumed_nonneg)
  show ?case using ok(1)
  proof (cases rule: comp_ok_cases)
    case (insert v)
    have "validate_loop l u i p sz (c # cs) =
        (if sz + byte_size v \<le> MaxDocBytes l
         then validate_loop l u (Suc i) p (sz + byte_size v) cs else Inl ErrLimit)"
      using insert Cons.prems(5) by (auto simp: count_bytes_eq)
    then show ?thesis
      using Cons.IH [OF ok(2) Cons.prems(2,3), of "sz + byte_size v" "Suc i"] Cons.prems(6,7) insert len
      by (auto split: if_splits)
  next
    case (retain n)
    let ?v = "take (nat n) (drop (nat p) u)"
    have le: "p + n \<le> int (length u)" using len c0 retain by simp
    note piece = piece_boundary [OF assms Cons.prems(2) retain(2) le Cons.prems(3)]
    have wf: "wf16 ?v" "cuts cs (drop (nat (p + n)) u)"
      using Cons.prems(2,6) retain by (simp_all add: nat_add_distrib add.commute)
    then have "validate_loop l u i p sz (c # cs) =
        (if sz + byte_size ?v \<le> MaxDocBytes l
         then validate_loop l u (Suc i) (p + n) (sz + byte_size ?v) cs else Inl ErrLimit)"
      using retain piece(1) Cons.prems(5) by (auto simp: count_bytes_eq units_slice_eq)
    then show ?thesis
      using Cons.IH [OF ok(2) _ piece(2) [OF wf(1)]] Cons.prems(2,7) retain len wf(2)
      by (auto split: if_splits)
  next
    case (delete n)
    have le: "p + n \<le> int (length u)" using len c0 delete by simp
    note piece = piece_boundary [OF assms Cons.prems(2) delete(2) le Cons.prems(3)]
    have wf: "wf16 (take (nat n) (drop (nat p) u))" "cuts cs (drop (nat (p + n)) u)"
      using Cons.prems(2,6) delete by (simp_all add: nat_add_distrib add.commute)
    then have "validate_loop l u i p sz (c # cs) = validate_loop l u (Suc i) (p + n) sz cs"
      using delete piece(1) Cons.prems(5) by (simp add: count_bytes_eq)
    then show ?thesis
      using Cons.IH [OF ok(2) _ piece(2) [OF wf(1)]] Cons.prems(2,5,7) delete len wf(2) by auto
  qed
qed simp

lemma apply_cases:
  assumes "limits_check l = Inr ()" "wf16 (units d)" "op_ok o1" "admit l o1 = Inr ()"
    and "op_base o1 = int (length (units d))" "fits l (units d)" "cuts (comps o1) (units d)"
  shows "apply_op l d o1 = (if fits l (run (comps o1) (units d))
    then Inr \<lparr>units = run (comps o1) (units d)\<rparr> else Inl ErrLimit)"
proof (cases "fits l (run (comps o1) (units d))")
  case True
  then show ?thesis using assms by (auto simp: apply_Inr_iff)
next
  case False
  then obtain e where e: "apply_op l d o1 = Inl e"
    using assms apply_Inr_iff [OF assms(1-3)] by (cases "apply_op l d o1") auto
  have l: "0 < MaxDocBytes l" using assms(1) by (simp add: limits_check_Inr)
  have ok: "all_ok (comps o1)" "op_base o1 = consumed (comps o1)"
    using assms(3) by (auto simp: op_ok_def canonical_all_ok)
  have "e = ErrLimit"
    using e assms l validate_loop_Inl [OF assms(2) ok(1), of 0 0 l 0 e] ok(2)
    by (auto simp: apply_op_def validate_against_def sum_split count_bytes_eq fits_def)
  with e False show ?thesis by simp
qed

section \<open>Errors of the algebra\<close>

lemma placed_err: "placed c b b' \<Longrightarrow> b_err b' = Some e \<Longrightarrow> b_err b = Some e \<or> e = ErrLimit"
  by (auto simp: placed_def)

text \<open>On a well-formed component, a working builder fails only at a limit.\<close>

lemma append_comp_err: "b_err b = None \<Longrightarrow> b_err (append_comp c b) = Some e \<Longrightarrow> e = ErrLimit"
  by (simp add: append_comp_def split: if_splits)

lemma if_intro: "P x \<Longrightarrow> P y \<Longrightarrow> P (if c then x else y)"
  by simp

lemma place_insert_err:
  assumes "b_err b = None"
  shows "b_err (place_insert u b) = Some e \<longrightarrow> e = ErrLimit"
  unfolding place_insert_def Let_def
  by (intro if_intro [where P = "\<lambda>b. b_err b = Some e \<longrightarrow> e = ErrLimit"])
    (use assms append_comp_err [OF assms] in simp_all)

lemma merge_last_err: "b_err b = None \<Longrightarrow> b_err (merge_last c b) = Some e \<Longrightarrow> e = ErrLimit"
  by (auto simp: merge_last_def Let_def dest: append_comp_err split: if_splits)

lemma emit_err:
  assumes "builder_ok b" "b_err b = None" "comp_ok c" "b_err (emit c b) = Some e"
  shows "e = ErrLimit"
proof -
  obtain b1 g where g: "grow (consumes c) (produces c) b = (b1, g)" by fastforce
  have emit: "emit c b = (if \<not> g \<or> c_n c = 0 then b1
      else if c_kind c = Insert then place_insert (c_u c) b1 else merge_last c b1)"
    using assms(3) g by (cases rule: comp_ok_cases)
      (auto simp: emit_def retain_def delete_def insert_units_def)
  have b1: "if g then b_err b1 = None else b_err b1 = Some ErrLimit"
    using g assms(1-3) consumes_nonneg [OF assms(3)] produces_nonneg [OF assms(3)]
    by (auto simp: grow_def builder_ok_init split: if_splits)
  show ?thesis
    using assms(4) emit b1 place_insert_err [of b1 "c_u c" e] merge_last_err [of b1 c e]
    by (simp split: if_splits)
qed

definition positive :: "component list \<Rightarrow> bool" where
  "positive cs \<longleftrightarrow> (\<forall>c \<in> set cs. 0 < c_n c)"

lemma positive_adv: "positive (c # cs) \<Longrightarrow> split_ok n c \<Longrightarrow> positive (adv n c cs)"
  by (auto simp: positive_def adv_def split_ok_def)

lemma positive_simps [simp]: "positive []" "positive (c # cs) \<longleftrightarrow> 0 < c_n c \<and> positive cs"
  by (auto simp: positive_def)

lemma positive_consumed: "all_ok cs \<Longrightarrow> positive cs \<Longrightarrow> consumed cs = 0 \<Longrightarrow> cs = [] \<or> c_kind (hd cs) = Insert"
  by (cases cs) (auto simp: consumes_def dest: consumed_nonneg split: if_splits)

lemma kind_at_resid: "\<not> finished x \<Longrightarrow> kind_at x = c_kind (hd (resid x))"
  by (cases "rest x") (simp_all add: kind_at_def resid_def finished_def)

lemma pair_err_emits:
  assumes "builder_ok p" "builder_ok q" "b_err p = None" "b_err q = None"
    and "all_ok ps" "length ps \<le> 1" "all_ok qs" "length qs \<le> 1"
  shows "pair_err (fold emit ps p) (fold emit qs q) = Some e \<Longrightarrow> e = ErrLimit"
    and "pair_err (fold emit ps p) (fold emit qs q) = None \<Longrightarrow>
      b_err (fold emit ps p) = None \<and> b_err (fold emit qs q) = None"
    and "builder_ok (fold emit ps p) \<and> builder_ok (fold emit qs q)"
proof -
  have one: "b_err (fold emit es b) = Some e \<Longrightarrow> e = ErrLimit"
    if "builder_ok b" "b_err b = None" "all_ok es" "length es \<le> 1" for es b e
    using that emit_err [OF that(1,2)] by (cases es) auto
  show "pair_err (fold emit ps p) (fold emit qs q) = Some e \<Longrightarrow> e = ErrLimit"
    using one [OF assms(1,3,5,6)] one [OF assms(2,4,7,8)]
    by (auto simp: pair_err_def split: option.splits)
  show "pair_err (fold emit ps p) (fold emit qs q) = None \<Longrightarrow>
      b_err (fold emit ps p) = None \<and> b_err (fold emit qs q) = None"
    by (auto simp: pair_err_def split: option.splits)
  show "builder_ok (fold emit ps p) \<and> builder_ok (fold emit qs q)"
    using assms sink.puts_invar by auto
qed

lemma transform_loop_err:
  "transform_loop x y p q = Inl e \<Longrightarrow> cursor_ok x \<Longrightarrow> cursor_ok y \<Longrightarrow>
     positive (resid x) \<Longrightarrow> positive (resid y) \<Longrightarrow> consumed (resid x) = consumed (resid y) \<Longrightarrow>
     builder_ok p \<Longrightarrow> builder_ok q \<Longrightarrow> b_err p = None \<Longrightarrow> b_err q = None \<Longrightarrow> e = ErrLimit"
proof (induction x y p q rule: transform_loop.induct)
  case (1 x y p q)
  note run = "1.prems"(1) [unfolded transform_loop.simps [of x y p q]]
  note ok = "1.prems"(7-10)
  consider (ended) "finished x \<and> finished y"
    | (ins_a) "\<not> (finished x \<and> finished y)" "\<not> finished x \<and> kind_at x = Insert"
    | (ins_b) "\<not> (finished x \<and> finished y)" "\<not> (\<not> finished x \<and> kind_at x = Insert)"
        "\<not> finished y \<and> kind_at y = Insert"
    | (both) "\<not> (finished x \<and> finished y)" "\<not> (\<not> finished x \<and> kind_at x = Insert)"
        "\<not> (\<not> finished y \<and> kind_at y = Insert)" by blast
  then show ?case
  proof cases
    case ended
    then show ?thesis using run ok by (auto simp: builder_op_def builder_ok_init)
  next
    case ins_a
    then obtain a as where a: "resid x = a # as" "comp_ok a" "kind_at x = c_kind a" "left x = c_n a"
        "text_at x (left x) = c_u a" "resid (take_cur (left x) x) = as" "cursor_ok (take_cur (left x) x)"
      using head_step [OF _ "1.prems"(2)] by metis
    have emits: "all_ok [mk_insert (c_u a)]" "all_ok [mk_retain (c_n a)]"
      using a(2,3) ins_a by (auto simp: comp_ok_nonneg elim: comp_ok_cases)
    note step = pair_err_emits [OF ok emits(1) _ emits(2), simplified, unfolded emit_simps]
    show ?thesis
      using "1.IH"(1) [OF ins_a refl refl refl] run ins_a "1.prems"(3-6) a step
      by (auto simp: Let_def consumes_def split: option.splits)
  next
    case ins_b
    then obtain b bs where b: "resid y = b # bs" "comp_ok b" "kind_at y = c_kind b" "left y = c_n b"
        "text_at y (left y) = c_u b" "resid (take_cur (left y) y) = bs" "cursor_ok (take_cur (left y) y)"
      using head_step [OF _ "1.prems"(3)] by metis
    have emits: "all_ok [mk_retain (c_n b)]" "all_ok [mk_insert (c_u b)]"
      using b(2,3) ins_b by (auto simp: comp_ok_nonneg elim: comp_ok_cases)
    note step = pair_err_emits [OF ok emits(1) _ emits(2), simplified, unfolded emit_simps]
    show ?thesis
      using "1.IH"(2) [OF ins_b refl refl refl] run ins_b "1.prems"(2,4-6) b step
      by (auto simp: Let_def consumes_def split: option.splits)
  next
    case both
    let ?n = "min (left x) (left y)"
    have fin: "\<not> (finished x \<or> finished y)"
      using both "1.prems"(4-6) positive_consumed [of "resid x"] positive_consumed [of "resid y"]
        kind_at_resid [of x] kind_at_resid [of y] cursor_resid_ok [OF "1.prems"(2)]
        cursor_resid_ok [OF "1.prems"(3)] by (auto simp: finished_resid)
    obtain a as b bs where ab: "resid x = a # as" "resid y = b # bs" "kind_at x = c_kind a"
        "kind_at y = c_kind b" "?n = min (c_n a) (c_n b)" "split_ok ?n a" "split_ok ?n b"
        "resid (take_cur ?n x) = adv ?n a as" "cursor_ok (take_cur ?n x)"
        "resid (take_cur ?n y) = adv ?n b bs" "cursor_ok (take_cur ?n y)"
      using pair_step [OF _ _ "1.prems"(2,3) refl] fin both by metis
    have n0: "0 \<le> ?n" using ab(6) by (simp add: split_ok_def)
    let ?p = "fold emit (p_emits ?n a b) p" and ?q = "fold emit (q_emits ?n a b) q"
    have step: "pair_err ?p ?q = Some e \<Longrightarrow> e = ErrLimit"
        "pair_err ?p ?q = None \<Longrightarrow> b_err ?p = None \<and> b_err ?q = None"
        "builder_ok ?p \<and> builder_ok ?q" for e
      using pair_err_emits [OF ok, of "p_emits ?n a b" "q_emits ?n a b"] pq_emits_ok [OF n0]
      by (auto simp: p_emits_def q_emits_def)
    have eq: "(case pair_err ?p ?q of Some e' \<Rightarrow> Inl e'
        | None \<Rightarrow> transform_loop (take_cur ?n x) (take_cur ?n y) ?p ?q) = Inl e"
      using run unfolding fold_pq_emits ab(3,4) [symmetric] Let_def
        if_not_P [OF both(1)] if_not_P [OF both(2)] if_not_P [OF both(3)] if_not_P [OF fin] .
    have all: "all_ok (a # as)" "all_ok (b # bs)"
      using cursor_resid_ok "1.prems"(2,3) ab(1,2) by metis+
    have res: "consumed (adv ?n a as) = consumed (adv ?n b bs)"
      using pair_residuals_t(7) [OF all _ _ ab(5)] "1.prems"(6) both fin ab(1-4) by auto
    have pos: "positive (adv ?n a as)" "positive (adv ?n b bs)"
      using "1.prems"(4,5) ab positive_adv by auto
    note IH = "1.IH"(3) [OF both fin refl refl refl]
    show ?thesis
    proof (cases "pair_err ?p ?q")
      case None
      show ?thesis
        by (rule IH [unfolded ab(3,4), folded fold_pq_emits]) (use None eq step res pos ab(8-11) in auto)
    next
      case (Some e')
      then show ?thesis using eq step(1) by simp
    qed
  qed
qed

lemma positive_produced:
  "all_ok cs \<Longrightarrow> positive cs \<Longrightarrow> produced cs = 0 \<Longrightarrow> cs = [] \<or> c_kind (hd cs) = DeleteText"
  by (cases cs) (auto simp: produces_def dest: produced_nonneg split: if_splits)

lemma one_emit:
  assumes "builder_ok b" "b_err b = None" "all_ok es" "length es \<le> 1"
  shows "b_err (fold emit es b) = Some e \<Longrightarrow> e = ErrLimit" "builder_ok (fold emit es b)"
  using assms emit_err [OF assms(1,2)] sink.puts_invar [OF assms(1,3)] by (cases es; auto)+

text \<open>A text on which \<open>b\<close> cuts well leaves \<open>a\<close>'s insertion cut at a boundary.\<close>

lemma insert_head_split:
  assumes "comp_ok a" "c_kind a = Insert" "c_kind b \<noteq> Insert" "comp_ok b" "n = min (c_n a) (c_n b)"
    and "cuts (b # bs) (run (a # as) d)"
  shows "split_ok n a"
proof (cases "c_n a \<le> c_n b")
  case True
  then show ?thesis using assms(5) split_ok_whole [OF assms(1)] by (simp add: min_def)
next
  case False
  obtain v where v: "a = mk_insert v" using assms(1,2) by (auto elim: comp_ok_cases)
  have "wf16 (take (nat n) (run (a # as) d))"
    using cuts_head [OF assms(3,6)] False assms(5) by (simp add: min_def)
  then show ?thesis
    using v False assms(1,4,5) by (simp add: split_ok_def comp_ok_nonneg min_def)
qed

lemma compose_pair_residual:
  assumes sa: "split_ok n a" and sb: "split_ok n b" and ok: "all_ok as"
    and kinds: "c_kind a \<noteq> DeleteText" "c_kind b \<noteq> Insert" and n: "n = min (c_n a) (c_n b)"
    and d: "consumed (a # as) = int (length d)" "cuts (a # as) d" "cuts (b # bs) (run (a # as) d)"
  obtains d' where "consumed (adv n a as) = int (length d')" "cuts (adv n a as) d'"
    "cuts (adv n b bs) (run (adv n a as) d')"
proof (cases "c_kind a = Insert")
  case True
  note ha = run_head_insert [OF sa True]
  show thesis
    by (rule that [of d])
      (use ha(1) [of as d] ha(2) [of as d] ha(3) [of as] ha(4) ha(5) [OF d(2)] d(1)
        run_head_b(2) [OF sb kinds(2) d(3)] in auto)
next
  case False
  then have ret: "c_kind a = Retain" using kinds by (cases "c_kind a") auto
  note ha = run_head_retain [OF sa ret ok, of d]
  have wf: "wf16 (take (nat n) d)"
    using cuts_head [OF False d(2)] cuts_head [OF kinds(2) d(3)] n ha(1) d
    by (auto simp: min_def split: if_splits)
  have "cuts (adv n a as) (drop (nat n) d)"
    using cuts_adv [OF sa d(2)] wf piece_kinds(1) [OF sa ret] by simp
  moreover have "consumed (adv n a as) = int (length (drop (nat n) d))" using ha(3-5) d by simp
  moreover have "cuts (adv n b bs) (run (adv n a as) (drop (nat n) d))"
    using run_head_b(2) [OF sb kinds(2) d(3)] ha(1,2) d(1) wf by simp
  ultimately show thesis using that by blast
qed

lemma compose_loop_err:
  "compose_loop x y out = Inl e \<Longrightarrow> cursor_ok x \<Longrightarrow> cursor_ok y \<Longrightarrow>
     positive (resid x) \<Longrightarrow> positive (resid y) \<Longrightarrow> produced (resid x) = consumed (resid y) \<Longrightarrow>
     consumed (resid x) = int (length d) \<Longrightarrow> cuts (resid x) d \<Longrightarrow> cuts (resid y) (run (resid x) d) \<Longrightarrow>
     builder_ok out \<Longrightarrow> b_err out = None \<Longrightarrow> e = ErrLimit"
proof (induction x y out arbitrary: d rule: compose_loop.induct)
  case (1 x y out)
  note run = "1.prems"(1) [unfolded compose_loop.simps [of x y out]]
  note ok = "1.prems"(10,11)
  consider (ended) "finished x \<and> finished y"
    | (del) "\<not> (finished x \<and> finished y)" "\<not> finished x \<and> kind_at x = DeleteText"
    | (ins) "\<not> (finished x \<and> finished y)" "\<not> (\<not> finished x \<and> kind_at x = DeleteText)"
        "\<not> finished y \<and> kind_at y = Insert"
    | (both) "\<not> (finished x \<and> finished y)" "\<not> (\<not> finished x \<and> kind_at x = DeleteText)"
        "\<not> (\<not> finished y \<and> kind_at y = Insert)" by blast
  then show ?case
  proof cases
    case ended
    then show ?thesis using run ok by (auto simp: builder_op_def builder_ok_init)
  next
    case del
    then obtain a as where a: "resid x = a # as" "comp_ok a" "kind_at x = c_kind a" "left x = c_n a"
        "resid (take_cur (left x) x) = as" "cursor_ok (take_cur (left x) x)"
      using head_step [OF _ "1.prems"(2)] by metis
    then obtain m where m: "a = mk_delete m" "0 \<le> m" using del by (auto elim: comp_ok_cases)
    have as: "0 \<le> consumed as" using cursor_resid_ok [OF a(6)] a(5) by (simp add: consumed_nonneg)
    let ?out = "delete (left x) out"
    have step: "b_err ?out = Some e' \<Longrightarrow> e' = ErrLimit" "builder_ok ?out" for e'
      using one_emit [OF ok, of "[mk_delete m]"] a(4) m by (auto simp: emit_simps)
    have eq: "(case b_err ?out of Some e' \<Rightarrow> Inl e' | None \<Rightarrow> compose_loop (take_cur (left x) x) y ?out) = Inl e"
      using run unfolding Let_def if_not_P [OF del(1)] if_P [OF del(2)] .
    show ?thesis
    proof (cases "b_err ?out")
      case None
      show ?thesis
        by (rule "1.IH"(1) [OF del refl refl None, of "drop (nat m) d"])
          (use None eq a m as step "1.prems"(3-9) in \<open>auto simp: of_nat_diff nat_le_iff\<close>)
    qed (use eq step in simp)
  next
    case ins
    then obtain b bs where b: "resid y = b # bs" "comp_ok b" "kind_at y = c_kind b"
        "text_at y (left y) = c_u b" "resid (take_cur (left y) y) = bs" "cursor_ok (take_cur (left y) y)"
      using head_step [OF _ "1.prems"(3)] by metis
    let ?out = "insert_units (c_u b) out"
    have step: "b_err ?out = Some e' \<Longrightarrow> e' = ErrLimit" "builder_ok ?out" for e'
      using one_emit [OF ok, of "[mk_insert (c_u b)]"] b ins by (auto simp: emit_simps elim: comp_ok_cases)
    have eq: "(case b_err ?out of Some e' \<Rightarrow> Inl e' | None \<Rightarrow> compose_loop x (take_cur (left y) y) ?out) = Inl e"
      using run unfolding Let_def if_not_P [OF ins(1)] if_not_P [OF ins(2)] if_P [OF ins(3)] b(4) .
    show ?thesis
    proof (cases "b_err ?out")
      case None
      show ?thesis
        by (rule "1.IH"(2) [OF ins refl refl, of d])
          (use None eq b ins step "1.prems"(2-9) in \<open>auto simp: consumes_def\<close>)
    qed (use eq step in simp)
  next
    case both
    let ?n = "min (left x) (left y)"
    have fin: "\<not> (finished x \<or> finished y)"
      using both "1.prems"(4-6) positive_produced [of "resid x"] positive_consumed [of "resid y"]
        kind_at_resid [of x] kind_at_resid [of y] cursor_resid_ok [OF "1.prems"(2)]
        cursor_resid_ok [OF "1.prems"(3)] by (auto simp: finished_resid)
    obtain a as where a: "resid x = a # as" "comp_ok a" "kind_at x = c_kind a" "left x = c_n a"
      and ba: "\<And>n. 0 \<le> n \<Longrightarrow> n \<le> c_n a \<Longrightarrow> c_kind a = Insert \<Longrightarrow>
        boundary (c_u (hd (rest x))) (offset x + n) \<longleftrightarrow> split_ok n a"
      using cursor_cases [OF _ "1.prems"(2)] fin by metis
    obtain b bs where b: "resid y = b # bs" "comp_ok b" "kind_at y = c_kind b" "left y = c_n b"
      using cursor_cases [OF _ "1.prems"(3)] fin by metis
    have bnd: "\<not> (kind_at x = Insert \<and> \<not> boundary (c_u (hd (rest x))) (offset x + ?n))"
      using insert_head_split [OF a(2) _ _ b(2) refl, of bs as d] ba [of ?n] a b both fin
        "1.prems"(9) comp_ok_nonneg [OF a(2)] comp_ok_nonneg [OF b(2)]
      by (auto simp del: run.simps(2) cuts.simps(2))
    obtain a as b bs where ab: "resid x = a # as" "resid y = b # bs" "kind_at x = c_kind a"
        "kind_at y = c_kind b" "?n = min (c_n a) (c_n b)" "split_ok ?n a" "split_ok ?n b"
        "text_at x ?n = c_u (piece ?n a)" "resid (take_cur ?n x) = adv ?n a as"
        "cursor_ok (take_cur ?n x)" "resid (take_cur ?n y) = adv ?n b bs" "cursor_ok (take_cur ?n y)"
      using pair_step [OF _ _ "1.prems"(2,3) refl] fin both bnd by metis
    let ?out = "fold emit (pair_emits ?n a b) out"
    have step: "b_err ?out = Some e' \<Longrightarrow> e' = ErrLimit" "builder_ok ?out" for e'
      using one_emit [OF ok pair_emits_ok [OF ab(6)], of b] by (auto simp: pair_emits_def)
    have eq: "(case b_err ?out of Some e' \<Rightarrow> Inl e'
        | None \<Rightarrow> compose_loop (take_cur ?n x) (take_cur ?n y) ?out) = Inl e"
      using run unfolding fold_pair_emits ab(3,4,8) [symmetric] Let_def
        if_not_P [OF both(1)] if_not_P [OF both(2)] if_not_P [OF both(3)] if_not_P [OF fin] if_not_P [OF bnd] .
    have all: "all_ok (a # as)" "all_ok (b # bs)"
      using cursor_resid_ok "1.prems"(2,3) ab(1,2) by metis+
    have kinds: "c_kind a \<noteq> DeleteText" "c_kind b \<noteq> Insert" using both fin ab(3,4) by auto
    have res: "produced (adv ?n a as) = consumed (adv ?n b bs)"
      using pair_residuals(5) [OF all kinds ab(5,6)] "1.prems"(6) ab(1,2) by simp
    obtain d' where d': "consumed (adv ?n a as) = int (length d')" "cuts (adv ?n a as) d'"
        "cuts (adv ?n b bs) (run (adv ?n a as) d')"
      using compose_pair_residual [OF ab(6,7) _ kinds ab(5)] all(1) "1.prems"(7-9) ab(1,2)
      by (metis all_ok_simps(2))
    have pos: "positive (adv ?n a as)" "positive (adv ?n b bs)"
      using "1.prems"(4,5) ab(1,2,6,7) positive_adv by auto
    show ?thesis
    proof (cases "b_err ?out")
      case None
      show ?thesis
        by (rule "1.IH"(3) [OF both fin refl bnd refl, unfolded ab(3,4,8), folded fold_pair_emits, of d'])
          (use None eq step res pos d' ab(9-12) in auto)
    qed (use eq step in simp)
  qed
qed
section \<open>Sequential composition and convergence\<close>

lemma op_start:
  assumes "op_ok o1"
  shows "cursor_ok (start o1)" "positive (resid (start o1))" "consumed (resid (start o1)) = op_base o1"
    "produced (resid (start o1)) = op_target o1" "resid (start o1) = comps o1"
  using cursor_start [OF assms] assms by (simp_all add: op_ok_def canonical_def positive_def)

lemma transform_Inl:
  assumes "transform l a b = Inl e" "limits_check l = Inr ()" "admit l a = Inr ()" "admit l b = Inr ()"
    and "op_ok a" "op_ok b" "op_base a = op_base b"
  shows "e = ErrLimit"
proof -
  obtain p where p: "new_builder l = Inr p" using assms(2) by (simp add: new_builder_def)
  then have "transform_loop (start a) (start b) p p = Inl e"
    using assms by (simp add: transform_def)
  then show ?thesis
    by (rule transform_loop_err)
      (use assms(7) op_start [OF assms(5)] op_start [OF assms(6)] new_builder_ok [OF p] in simp_all)
qed

lemma transform_Inr_converges:
  assumes "wf16 (units d)" "op_ok a" "op_ok b"
    and "apply_op l d a = Inr da" "apply_op l d b = Inr db"
    and "transform l a b = Inr (ap, bp)"
  shows "apply_op l da bp = apply_op l db ap \<and> op_ok ap \<and> op_ok bp \<and>
    (apply_op l da bp = Inl ErrLimit \<or> (\<exists>r. apply_op l da bp = Inr r \<and> wf16 (units r)))"
  using transform_Inr [OF assms(6,2,3)]
proof cases
  case (1 ps qs)
  have a: "fits l (units d)" "cuts (comps a) (units d)" "da = \<lparr>units = run (comps a) (units d)\<rparr>"
    "op_base a = int (length (units d))" "fits l (units da)"
    using assms(4) by (auto simp: apply_Inr_iff [OF 1(9) assms(1,2)])
  have b: "cuts (comps b) (units d)" "db = \<lparr>units = run (comps b) (units d)\<rparr>" "fits l (units db)"
    using assms(5) by (auto simp: apply_Inr_iff [OF 1(9) assms(1,3)])
  have ok: "all_ok (comps a)" "all_ok (comps b)" "all_ok (comps bp)"
    "consumed (comps a) = int (length (units d))" "consumed (comps b) = int (length (units d))"
    using assms(2,3) a(4) 1(5,8) by (auto simp: op_ok_def canonical_all_ok)
  have wf: "wf16 (units da)" "wf16 (units db)"
    using a b ok by (simp_all add: wf16_run)
  have len: "int (length (units da)) = produced (comps a)" "int (length (units db)) = produced (comps b)"
    using a(3) b(2) ok by (simp_all add: length_run)
  have spec: "consumed ps = int (length (units db))" "consumed qs = int (length (units da))"
    "run qs (units da) = run ps (units db)" "cuts qs (units da)" "cuts ps (units db)"
    using 1(1) a(2,3) b(1,2) ok(4) len by (auto simp: transforms_spec_def)
  have p: "op_base ap = int (length (units db))" "run (comps ap) (units db) = run ps (units db)"
      "cuts (comps ap) (units db)"
    using refinesD [OF 1(2), of "units db"] 1(4) spec by (auto simp: op_ok_def)
  have q: "op_base bp = int (length (units da))" "run (comps bp) (units da) = run qs (units da)"
      "cuts (comps bp) (units da)"
    using refinesD [OF 1(3), of "units da"] 1(5) spec by (auto simp: op_ok_def)
  note ap = apply_cases [OF 1(9) wf(2) 1(4,6) p(1) b(3) p(3)]
  note bp = apply_cases [OF 1(9) wf(1) 1(5,7) q(1) a(5) q(3)]
  show ?thesis
    using ap bp p(2) q(2,3) spec(3) 1(4,5) wf16_run [OF ok(3) q(3)] by auto
qed

lemma apply_Inr_limits: "apply_op l d o1 = Inr r \<Longrightarrow> limits_check l = Inr () \<and> admit l o1 = Inr ()
    \<and> op_base o1 = int (length (units d))"
  by (auto simp: apply_op_def validate_against_def sum_split split: if_splits)

text \<open>
  C1: concurrent operations that both apply to a document converge (TP1). \<open>Transform\<close>
  returns a pair or \<open>ErrLimit\<close>, never another error; and applying \<open>a\<close> then \<open>bp\<close> gives
  the same result as \<open>b\<close> then \<open>ap\<close>: the same well-formed document, or \<open>ErrLimit\<close> on both
  paths when the merged document exceeds the byte limit. The rebased operations are
  canonical, and never split a surrogate pair or mismatch a length.
\<close>

theorem transform_converges:
  assumes "wf16 (units d)" "op_ok a" "op_ok b"
    and "apply_op l d a = Inr da" "apply_op l d b = Inr db"
  shows "case transform l a b of
      Inl e \<Rightarrow> e = ErrLimit
    | Inr (ap, bp) \<Rightarrow> apply_op l da bp = apply_op l db ap \<and> op_ok ap \<and> op_ok bp \<and>
        (case apply_op l da bp of Inl e \<Rightarrow> e = ErrLimit | Inr r \<Rightarrow> wf16 (units r))"
proof (cases "transform l a b")
  case (Inl e)
  then show ?thesis
    using transform_Inl [OF Inl] apply_Inr_limits [OF assms(4)] apply_Inr_limits [OF assms(5)] assms(2,3)
    by simp
next
  case (Inr r)
  then show ?thesis
    using transform_Inr_converges [OF assms, of "fst r" "snd r"] by (auto split: sum.splits)
qed

definition sample_doc :: doc where
  "sample_doc = \<lparr>units = [97, 0xD83D, 0xDE00, 98]\<rparr>"

definition sample_a :: op where
  "sample_a = \<lparr>comps = [mk_retain 1, mk_insert [120], mk_delete 2, mk_retain 1], op_base = 4, op_target = 3\<rparr>"

definition sample_b :: op where
  "sample_b = \<lparr>comps = [mk_retain 3, mk_insert [0xD83D, 0xDE01], mk_delete 1], op_base = 4, op_target = 5\<rparr>"

definition sample_c :: op where
  "sample_c = \<lparr>comps = [mk_retain 1, mk_delete 1, mk_retain 1], op_base = 3, op_target = 2\<rparr>"

lemma samples_ok: "wf16 (units sample_doc)" "op_ok sample_a" "op_ok sample_b" "op_ok sample_c"
  by (simp_all add: sample_doc_def sample_a_def sample_b_def sample_c_def op_ok_def canonical_def
      follows_def is_hi_def is_lo_def)

lemma samples_apply:
  "apply_op default_limits sample_doc sample_a = Inr \<lparr>units = [97, 120, 98]\<rparr>"
  "apply_op default_limits sample_doc sample_b = Inr \<lparr>units = [97, 0xD83D, 0xDE00, 0xD83D, 0xDE01]\<rparr>"
  "apply_op default_limits \<lparr>units = [97, 120, 98]\<rparr> sample_c = Inr \<lparr>units = [97, 98]\<rparr>"
  by code_simp+

theorem transform_converges_witness:
  "case transform default_limits sample_a sample_b of
      Inl e \<Rightarrow> e = ErrLimit
    | Inr (ap, bp) \<Rightarrow>
        apply_op default_limits \<lparr>units = [97, 120, 98]\<rparr> bp
          = apply_op default_limits \<lparr>units = [97, 0xD83D, 0xDE00, 0xD83D, 0xDE01]\<rparr> ap
        \<and> op_ok ap \<and> op_ok bp \<and>
        (case apply_op default_limits \<lparr>units = [97, 120, 98]\<rparr> bp of Inl e \<Rightarrow> e = ErrLimit | Inr r \<Rightarrow> wf16 (units r))"
  by (rule transform_converges [OF samples_ok(1-3) samples_apply(1,2)])

lemma compose_Inl:
  assumes "compose l a b = Inl e" "wf16 (units d)" "op_ok a" "op_ok b"
    and "apply_op l d a = Inr da" "apply_op l da b = Inr db"
  shows "e = ErrLimit"
proof -
  note a = apply_Inr_limits [OF assms(5)] and b = apply_Inr_limits [OF assms(6)]
  have ok: "all_ok (comps a)" "consumed (comps a) = int (length (units d))"
    using assms(3) a by (auto simp: op_ok_def canonical_all_ok)
  have da: "cuts (comps a) (units d)" "units da = run (comps a) (units d)"
    using assms(5) a by (auto simp: apply_Inr_iff [OF _ assms(2,3)])
  have wfa: "wf16 (units da)" using wf16_run [OF ok(1) da(1)] da(2) by simp
  have cb: "cuts (comps b) (units da)" using assms(6) a by (auto simp: apply_Inr_iff [OF _ wfa assms(4)])
  have len: "op_target a = op_base b"
    using b da(2) length_run [OF ok(1), of "units d"] ok(2) assms(3) by (simp add: op_ok_def)
  obtain p where p: "new_builder l = Inr p" using a by (simp add: new_builder_def)
  then have "compose_loop (start a) (start b) p = Inl e"
    using assms(1) a b len by (simp add: compose_def)
  then show ?thesis
    by (rule compose_loop_err [where d = "units d"])
      (use len ok da cb op_start [OF assms(3)] op_start [OF assms(4)] new_builder_ok [OF p] in simp_all)
qed

lemma compose_Inr_sequential:
  assumes "wf16 (units d)" "op_ok a" "op_ok b"
    and "apply_op l d a = Inr da" "apply_op l da b = Inr db" "compose l a b = Inr ab"
  shows "apply_op l d ab = Inr db \<and> op_ok ab"
  using compose_Inr [OF assms(6,2,3)]
proof cases
  case (1 es)
  have a: "fits l (units d)" "cuts (comps a) (units d)" "da = \<lparr>units = run (comps a) (units d)\<rparr>"
    "consumed (comps a) = int (length (units d))" "all_ok (comps a)"
    using assms(2,4) by (auto simp: apply_Inr_iff [OF 1(6) assms(1,2)] op_ok_def canonical_all_ok)
  then have "wf16 (units da)" by (simp add: wf16_run)
  note b = assms(5) [unfolded apply_Inr_iff [OF 1(6) this assms(3)]]
  have spec: "consumed es = consumed (comps a)" "run es (units d) = run (comps b) (units da)"
    "cuts es (units d)"
    using 1(1) a b by (auto simp: composes_spec_def)
  have "op_base ab = int (length (units d))" "run (comps ab) (units d) = run es (units d)"
    "cuts (comps ab) (units d)"
    using refinesD [OF 1(2), of "units d"] spec a(4) 1(3) by (auto simp: op_ok_def)
  with b spec(2) a(1) 1(3,4) show ?thesis
    by (auto simp: apply_Inr_iff [OF 1(6) assms(1) 1(3)])
qed

text \<open>
  C2: composition is sequential application. When \<open>a\<close> applies to \<open>d\<close> and \<open>b\<close> to the
  result, \<open>Compose\<close> either hits a limit or returns one canonical operation that takes \<open>d\<close>
  to the same document.
\<close>

theorem compose_sequential:
  assumes "wf16 (units d)" "op_ok a" "op_ok b"
    and "apply_op l d a = Inr da" "apply_op l da b = Inr db"
  shows "case compose l a b of Inl e \<Rightarrow> e = ErrLimit
    | Inr ab \<Rightarrow> apply_op l d ab = Inr db \<and> op_ok ab"
  using compose_Inl [OF _ assms] compose_Inr_sequential [OF assms] by (auto split: sum.splits)

theorem compose_sequential_witness:
  "case compose default_limits sample_a sample_c of Inl e \<Rightarrow> e = ErrLimit
    | Inr ab \<Rightarrow> apply_op default_limits sample_doc ab = Inr \<lparr>units = [97, 98]\<rparr> \<and> op_ok ab"
  by (rule compose_sequential [OF samples_ok(1,2,4) samples_apply(1,3)])

section \<open>Application\<close>

text \<open>
  C20: \<open>Apply\<close> is exact. On a well-formed document and a canonical operation it succeeds
  if and only if the operation is within the limits, its base length is the document's,
  both documents fit the byte limit and every retained or deleted range ends between
  whole characters; the result is then the abstract run of the components, it is
  well-formed and has the operation's target length.
\<close>

theorem apply_exact:
  assumes "limits_check l = Inr ()" "wf16 (units d)" "op_ok o1"
  shows "case apply_op l d o1 of
      Inr r \<Rightarrow> admit l o1 = Inr () \<and> op_base o1 = doc_len d \<and> cuts (comps o1) (units d)
        \<and> units r = run (comps o1) (units d) \<and> wf16 (units r) \<and> doc_len r = op_target o1
        \<and> fits l (units d) \<and> fits l (units r)
    | Inl e \<Rightarrow> \<not> (admit l o1 = Inr () \<and> op_base o1 = doc_len d \<and> cuts (comps o1) (units d)
        \<and> fits l (units d) \<and> fits l (run (comps o1) (units d)))"
proof -
  have ok: "all_ok (comps o1)" "op_base o1 = consumed (comps o1)" "op_target o1 = produced (comps o1)"
    using assms(3) by (auto simp: op_ok_def canonical_all_ok)
  show ?thesis
  proof (cases "apply_op l d o1")
    case (Inl e)
    then show ?thesis
      using apply_Inr_iff [OF assms, of "\<lparr>units = run (comps o1) (units d)\<rparr>"] by (simp add: doc_len_def)
  next
    case (Inr r)
    then show ?thesis
      using apply_Inr_iff [OF assms, of r] wf16_run [OF ok(1), of "units d"]
        length_run [OF ok(1), of "units d"] ok(2,3) by (simp add: doc_len_def)
  qed
qed

theorem apply_exact_witness:
  "wf16 (units \<lparr>units = [97, 120, 98]\<rparr>) \<and> doc_len \<lparr>units = [97, 120, 98]\<rparr> = op_target sample_a"
  using apply_exact [OF default_limits_ok samples_ok(1,2)] unfolding samples_apply(1) sum.case by blast

section \<open>The builder\<close>

text \<open>The exported methods, called in any order on a new builder.\<close>

datatype builder_call = CallRetain int | CallDelete int | CallInsert string

fun call_builder :: "builder_call \<Rightarrow> builder \<Rightarrow> builder" where
  "call_builder (CallRetain n) b = retain n b"
| "call_builder (CallDelete n) b = delete n b"
| "call_builder (CallInsert s) b = insert_string s b"

fun call_valid :: "builder_call \<Rightarrow> bool" where
  "call_valid (CallRetain n) = (0 \<le> n)"
| "call_valid (CallDelete n) = (0 \<le> n)"
| "call_valid (CallInsert s) = valid_string s"

fun call_comp :: "builder_call \<Rightarrow> component" where
  "call_comp (CallRetain n) = mk_retain n"
| "call_comp (CallDelete n) = mk_delete n"
| "call_comp (CallInsert s) = mk_insert (units_of_runes (runes s))"

lemma call_comp_ok: "call_valid c \<Longrightarrow> comp_ok (call_comp c)"
  by (cases c) (auto simp: wf16_units_of_runes valid_string_runes)

lemma call_valid_emit: "builder_ok b \<Longrightarrow> call_valid c \<Longrightarrow>
    call_builder c b = (if b_err b = None then emit (call_comp c) b else b)"
  using emit_failed [of b "call_comp c"]
  by (cases c) (auto simp: emit_def insert_string_eq)

lemma call_invalid: "builder_ok b \<Longrightarrow> \<not> call_valid c \<Longrightarrow>
    builder_ok (call_builder c b) \<and> b_err (call_builder c b) \<noteq> None
    \<and> b_limits (call_builder c b) = b_limits b"
  by (cases c) (auto simp: insert_string_eq retain_def delete_def grow_def builder_ok_init builder_ok_def)

lemma calls_sound:
  "builder_ok b \<Longrightarrow> builder_ok (fold call_builder cs b)
     \<and> b_limits (fold call_builder cs b) = b_limits b
     \<and> (b_err (fold call_builder cs b) = None \<longrightarrow> b_err b = None \<and> list_all call_valid cs
        \<and> refines (b_comps b @ map call_comp cs) (b_comps (fold call_builder cs b)))"
proof (induction cs arbitrary: b)
  case (Cons c cs)
  show ?case
  proof (cases "call_valid c \<and> b_err b = None")
    case False
    then have "builder_ok (call_builder c b) \<and> b_err (call_builder c b) \<noteq> None
        \<and> b_limits (call_builder c b) = b_limits b"
      using call_invalid [OF Cons.prems, of c] call_valid_emit [OF Cons.prems, of c] Cons.prems
      by (cases "call_valid c"; cases "b_err b") simp_all
    then show ?thesis using Cons.IH [of "call_builder c b"] by auto
  next
    case True
    then have b': "call_builder c b = emit (call_comp c) b" "comp_ok (call_comp c)"
      using call_valid_emit [OF Cons.prems] call_comp_ok by auto
    note step = emit_step [OF Cons.prems b'(2)]
    have "refines (b_comps b @ call_comp c # map call_comp cs)
        (b_comps (emit (call_comp c) b) @ map call_comp cs)"
      if "b_err (emit (call_comp c) b) = None" "list_all call_valid cs"
    proof -
      have "all_ok (map call_comp cs)"
        using that(2) call_comp_ok by (auto simp: all_ok_def list_all_iff)
      moreover have "all_ok (b_comps b)" "all_ok (b_comps (emit (call_comp c) b))"
        using Cons.prems True step that(1) by (auto simp: builder_ok_def canonical_all_ok)
      ultimately show ?thesis
        using refines_append [of "b_comps b @ [call_comp c]" _ "map call_comp cs"] step that(1) b'(2)
        by simp
    qed
    then show ?thesis
      using Cons.IH [of "emit (call_comp c) b"] step b'(1) True by (auto intro: refines_trans)
  qed
qed simp

text \<open>
  C21: whatever calls a client makes on a new builder, \<open>Op\<close> returns an operation only if
  every argument was valid; the operation is then canonical, within the limits, its
  counters stay below 2^53, and it means what the calls mean in order (insertions that
  follow a deletion are moved before it without changing the text).
\<close>

theorem builder_sound:
  assumes "new_builder l = Inr b0" "builder_op (fold call_builder cs b0) = Inr o1"
  shows "op_ok o1 \<and> admit l o1 = Inr () \<and> op_base o1 < 2 ^ 53 \<and> op_target o1 < 2 ^ 53
    \<and> list_all call_valid cs \<and> refines (map call_comp cs) (comps o1)"
proof -
  note b0 = new_builder_ok [OF assms(1)]
  have "builder_ok (fold call_builder cs b0)" "b_limits (fold call_builder cs b0) = l"
    using calls_sound [of b0 cs] b0 by auto
  note o1 = builder_op_ok [OF this(1) assms(2)]
  have "MaxUnits l < 2 ^ 53" using assms(1) by (auto simp: new_builder_def sum_split limits_check_Inr)
  then show ?thesis
    using calls_sound [of b0 cs] b0 o1 by (auto simp: admit_Inr)
qed

lemma sample_calls:
  "builder_op (fold call_builder [CallRetain 1, CallDelete 2, CallInsert ''x'', CallRetain 1]
     (init_limits zero_builder)) = Inr sample_a"
  using ascii_string [of "''x''"]
  by (simp add: insert_string_def init_limits_def zero_builder_def default_limits_def retain_def
      delete_def insert_units_def grow_def merge_last_def append_comp_def place_insert_def units_in_def
      units_of_runes_def encode_utf16_def builder_op_def sample_a_def scalar_def)

theorem builder_sound_witness:
  "refines (map call_comp [CallRetain 1, CallDelete 2, CallInsert ''x'', CallRetain 1]) (comps sample_a)"
proof -
  have "new_builder default_limits = Inr (init_limits zero_builder)"
    by (simp add: new_builder_def default_limits_ok init_limits_def zero_builder_def)
  from builder_sound [OF this sample_calls] show ?thesis by blast
qed

section \<open>Documents\<close>

text \<open>
  \<open>DocFromString\<close> accepts exactly the valid UTF-8 strings within the limits, and
  then \<open>String\<close> gives the string back, \<open>Len\<close> its UTF-16 length.
\<close>

theorem doc_string_roundtrip:
  "case doc_from_string l s of
     Inr d \<Rightarrow> limits_check l = Inr () \<and> valid_string s \<and> int (length s) \<le> MaxDocBytes l
       \<and> doc_len d \<le> MaxUnits l \<and> wf16 (units d) \<and> doc_string d = s
   | Inl e \<Rightarrow> \<not> (limits_check l = Inr () \<and> valid_string s \<and> int (length s) \<le> MaxDocBytes l
       \<and> int (length (units_of_runes (runes s))) \<le> MaxUnits l)"
proof (cases "limits_check l = Inr () \<and> valid_string s")
  case True
  then have "0 \<le> MaxUnits l" by (simp add: limits_check_Inr)
  then show ?thesis
    using True doc_from_string_wf [of l s] units_in_loop_eq [of "runes s" 0 "MaxUnits l"] valid_string_runes [of s]
    by (auto simp: doc_from_string_def units_in_def doc_len_def)
next
  case False
  then show ?thesis
    using limits_check_Inl [of l] by (cases "limits_check l") (auto simp: doc_from_string_def units_in_def)
qed

section \<open>The package-level functions\<close>

text \<open>The functions without a \<open>Limits\<close> receiver use \<open>DefaultLimits\<close>.\<close>

definition doc_from_string_default :: "string \<Rightarrow> textop_error + doc" where
  "doc_from_string_default s = doc_from_string default_limits s"

definition validate_against_default :: "doc \<Rightarrow> op \<Rightarrow> textop_error + unit" where
  "validate_against_default d o1 = validate_against default_limits d o1"

definition apply_default :: "doc \<Rightarrow> op \<Rightarrow> textop_error + doc" where
  "apply_default d o1 = apply_op default_limits d o1"

definition compose_default :: "op \<Rightarrow> op \<Rightarrow> textop_error + op" where
  "compose_default a b = compose default_limits a b"

definition transform_default :: "op \<Rightarrow> op \<Rightarrow> textop_error + (op \<times> op)" where
  "transform_default a b = transform default_limits a b"

end
