(* ===== verification/Go_Strings.thy ===== *)
theory Go_Strings
  imports Unicode
begin

text \<open>
  The functions of Go's \<^verbatim>\<open>strings\<close>, \<^verbatim>\<open>unicode\<close> and \<^verbatim>\<open>strconv\<close> packages that
  the repository uses, on byte strings. Searches return Go's index, -1 when absent.

  The Unicode tables and the normalization forms are data of the Go release and of
  \<^verbatim>\<open>golang.org/x/text\<close>, which is not part of the repository. They are the record
  \<open>unicode_tables\<close>, an argument of every function that consults them; on ASCII the case
  mappings are defined here and the tables are not consulted.
\<close>

section \<open>Searching and cutting\<close>

definition slice :: "int \<Rightarrow> int \<Rightarrow> 'a list \<Rightarrow> 'a list" where
  "slice i j s = take (nat (j - i)) (drop (nat i) s)"

definition has_prefix :: "string \<Rightarrow> string \<Rightarrow> bool" where
  "has_prefix s p \<longleftrightarrow> take (length p) s = p"

definition has_suffix :: "string \<Rightarrow> string \<Rightarrow> bool" where
  "has_suffix s p \<longleftrightarrow> length p \<le> length s \<and> drop (length s - length p) s = p"

definition contains_any :: "string \<Rightarrow> string \<Rightarrow> bool" where
  "contains_any s cs \<longleftrightarrow> list_ex (\<lambda>c. c \<in> set cs) s"

fun split_on :: "char \<Rightarrow> string \<Rightarrow> string list" where
  "split_on c [] = [[]]"
| "split_on c (x # xs) =
    (if x = c then [] # split_on c xs
     else case split_on c xs of [] \<Rightarrow> [[x]] | y # ys \<Rightarrow> (x # y) # ys)"

fun join_with :: "string \<Rightarrow> string list \<Rightarrow> string" where
  "join_with sep [] = []"
| "join_with sep [x] = x"
| "join_with sep (x # y # ys) = x @ sep @ join_with sep (y # ys)"

fun index_byte :: "string \<Rightarrow> char \<Rightarrow> int" where
  "index_byte [] c = -1"
| "index_byte (x # xs) c = (if x = c then 0 else
     let i = index_byte xs c in if i < 0 then -1 else i + 1)"

fun last_index_byte :: "string \<Rightarrow> char \<Rightarrow> int" where
  "last_index_byte [] c = -1"
| "last_index_byte (x # xs) c =
    (let i = last_index_byte xs c in if i \<ge> 0 then i + 1 else if x = c then 0 else -1)"

fun last_index_sub :: "string \<Rightarrow> string \<Rightarrow> int" where
  "last_index_sub [] p = (if p = [] then 0 else -1)"
| "last_index_sub (x # xs) p =
    (let i = last_index_sub xs p in if i \<ge> 0 then i + 1 else if has_prefix (x # xs) p then 0 else -1)"

definition trim_right :: "string \<Rightarrow> string \<Rightarrow> string" where
  "trim_right s cs = rev (dropWhile (\<lambda>c. c \<in> set cs) (rev s))"

definition trim_left :: "string \<Rightarrow> string \<Rightarrow> string" where
  "trim_left s cs = dropWhile (\<lambda>c. c \<in> set cs) s"

definition replace_byte :: "string \<Rightarrow> char \<Rightarrow> char \<Rightarrow> string" where
  "replace_byte s a b = map (\<lambda>c. if c = a then b else c) s"

definition rune_start :: "char \<Rightarrow> bool" where
  "rune_start c \<longleftrightarrow> bv c < 0x80 \<or> 0xC0 \<le> bv c"

section \<open>Runes and case\<close>

record unicode_tables =
  u_assigned :: "nat \<Rightarrow> bool"
  u_upper :: "nat \<Rightarrow> nat"
  u_lower :: "nat \<Rightarrow> nat"
  u_orbit :: "nat \<Rightarrow> nat \<Rightarrow> bool"
  u_nfc :: "string \<Rightarrow> string"
  u_nfd :: "string \<Rightarrow> string"
  u_fold :: "string \<Rightarrow> string"
  u_print :: "nat \<Rightarrow> bool"

definition is_control :: "nat \<Rightarrow> bool" where
  "is_control r \<longleftrightarrow> r < 0x20 \<or> 0x7F \<le> r \<and> r < 0xA0"

definition to_upper :: "unicode_tables \<Rightarrow> nat \<Rightarrow> nat" where
  "to_upper U r = (if r < 0x80 then (if 97 \<le> r \<and> r \<le> 122 then r - 32 else r) else u_upper U r)"

definition to_lower :: "unicode_tables \<Rightarrow> nat \<Rightarrow> nat" where
  "to_lower U r = (if r < 0x80 then (if 65 \<le> r \<and> r \<le> 90 then r + 32 else r) else u_lower U r)"

text \<open>\<open>strings.Map\<close>: an undecodable byte is passed as the replacement rune.\<close>

definition map_runes :: "(nat \<Rightarrow> nat) \<Rightarrow> string \<Rightarrow> string" where
  "map_runes f s = string_of_runes (map f (runes s))"

definition upper_string :: "unicode_tables \<Rightarrow> string \<Rightarrow> string" where
  "upper_string U s = map_runes (to_upper U) s"

definition lower_string :: "unicode_tables \<Rightarrow> string \<Rightarrow> string" where
  "lower_string U s = map_runes (to_lower U) s"

text \<open>\<open>strings.EqualFold\<close>: ASCII letters fold to each other, other pairs by the case orbit.\<close>

definition fold_eq :: "unicode_tables \<Rightarrow> nat \<Rightarrow> nat \<Rightarrow> bool" where
  "fold_eq U a b \<longleftrightarrow> a = b \<or>
     (let lo = min a b; hi = max a b in
      if hi < 0x80 then 65 \<le> lo \<and> lo \<le> 90 \<and> hi = lo + 32 else u_orbit U lo hi)"

definition equal_fold :: "unicode_tables \<Rightarrow> string \<Rightarrow> string \<Rightarrow> bool" where
  "equal_fold U s t \<longleftrightarrow> list_all2 (fold_eq U) (runes s) (runes t)"

section \<open>Decimal numbers\<close>

function digits_of :: "nat \<Rightarrow> string" where
  "digits_of n = (if n < 10 then [char_of (48 + n)] else digits_of (n div 10) @ [char_of (48 + n mod 10)])"
  by pat_completeness auto
termination by (relation "measure id") auto

declare digits_of.simps [simp del]

definition string_of_int :: "int \<Rightarrow> string" where
  "string_of_int i = (if i < 0 then CHR 0x2D # digits_of (nat (- i)) else digits_of (nat i))"

definition is_digit :: "char \<Rightarrow> bool" where
  "is_digit c \<longleftrightarrow> 48 \<le> bv c \<and> bv c \<le> 57"

definition number_of_digits :: "string \<Rightarrow> nat" where
  "number_of_digits s = foldl (\<lambda>n c. n * 10 + (bv c - 48)) 0 s"

section \<open>White space, quoting and hexadecimal\<close>

definition is_space :: "nat \<Rightarrow> bool" where
  "is_space r \<longleftrightarrow> 9 \<le> r \<and> r \<le> 13 \<or> r = 0x20 \<or> r = 0x85 \<or> r = 0xA0 \<or> r = 0x1680 \<or> 0x2000 \<le> r \<and> r \<le> 0x200A
     \<or> r = 0x2028 \<or> r = 0x2029 \<or> r = 0x202F \<or> r = 0x205F \<or> r = 0x3000"

text \<open>\<open>strings.TrimSpace\<close>: space runes are removed whole, at both ends.\<close>

function trim_space_left :: "string \<Rightarrow> string" where
  "trim_space_left s = (if s \<noteq> [] \<and> is_space (fst (decode_rune s)) then trim_space_left (drop (snd (decode_rune s)) s) else s)"
  by pat_completeness auto
termination by (relation "measure length") (auto simp: decode_rune_progress)

declare trim_space_left.simps [simp del]

definition last_rune :: "string \<Rightarrow> nat \<times> nat" where
  "last_rune s =
    (case filter (\<lambda>n. n \<le> length s \<and> decode_rune (drop (length s - n) s) = (fst (decode_rune (drop (length s - n) s)), n))
        [4, 3, 2, 1] of
       [] \<Rightarrow> (rune_error, 1) | n # _ \<Rightarrow> (fst (decode_rune (drop (length s - n) s)), n))"

function trim_space_right :: "string \<Rightarrow> string" where
  "trim_space_right s =
    (if s \<noteq> [] \<and> 0 < snd (last_rune s) \<and> is_space (fst (last_rune s))
     then trim_space_right (take (length s - snd (last_rune s)) s) else s)"
  by pat_completeness auto
termination by (relation "measure length") auto

declare trim_space_right.simps [simp del]

definition trim_space :: "string \<Rightarrow> string" where
  "trim_space s = trim_space_right (trim_space_left s)"

definition hex_char :: "nat \<Rightarrow> char" where
  "hex_char n = (''0123456789abcdef'' ! (n mod 16))"

fun hex_number :: "nat \<Rightarrow> nat \<Rightarrow> string" where
  "hex_number 0 n = []"
| "hex_number (Suc width) n = hex_number width (n div 16) @ [hex_char n]"

text \<open>\<open>strconv.IsPrint\<close> and \<open>strconv.Quote\<close>, the \<^verbatim>\<open>%q\<close> of the messages.\<close>

definition is_print :: "unicode_tables \<Rightarrow> nat \<Rightarrow> bool" where
  "is_print U r \<longleftrightarrow> (if r < 0x80 then 0x20 \<le> r \<and> r < 0x7F else u_print U r)"

definition quote_rune :: "unicode_tables \<Rightarrow> nat \<Rightarrow> string" where
  "quote_rune U r =
    (if r = 0x22 \<or> r = 0x5C then [CHR 0x5C, char_of r]
     else if is_print U r then encode_rune r
     else case map_of [(7, CHR ''a''), (8, CHR ''b''), (12, CHR ''f''), (10, CHR ''n''), (13, CHR ''r''),
         (9, CHR ''t''), (11, CHR ''v'')] r of
       Some c \<Rightarrow> [CHR 0x5C, c]
     | None \<Rightarrow> if r < 0x20 \<or> r = 0x7F then CHR 0x5C # CHR ''x'' # hex_number 2 r
         else if r < 0x10000 then CHR 0x5C # CHR ''u'' # hex_number 4 r
         else CHR 0x5C # CHR ''U'' # hex_number 8 r)"

function quote_body :: "unicode_tables \<Rightarrow> string \<Rightarrow> string" where
  "quote_body U s =
    (if s = [] then []
     else let r = fst (decode_rune s); n = snd (decode_rune s) in
       (if r = rune_error \<and> n = 1 then CHR 0x5C # CHR ''x'' # hex_number 2 (bv (hd s)) else quote_rune U r)
         @ quote_body U (drop n s))"
  by pat_completeness auto
termination by (relation "measure (\<lambda>(_, s). length s)") (auto simp: decode_rune_progress)

declare quote_body.simps [simp del]

definition quote :: "unicode_tables \<Rightarrow> string \<Rightarrow> string" where
  "quote U s = CHR 0x22 # quote_body U s @ [CHR 0x22]"

section \<open>Facts\<close>

lemma has_prefix_iff [go_string]: "has_prefix s p \<longleftrightarrow> (\<exists>t. s = p @ t)"
  by (metis append_take_drop_id append_eq_conv_conj has_prefix_def)

lemma has_suffix_iff [go_string]: "has_suffix s p \<longleftrightarrow> (\<exists>t. s = t @ p)"
  unfolding has_suffix_def
  by (metis append_take_drop_id append_eq_conv_conj diff_add_inverse2 le_add2 length_append)

lemma trim_right_prefix: "\<exists>t. s = trim_right s cs @ t"
proof -
  have "rev s = takeWhile (\<lambda>c. c \<in> set cs) (rev s) @ dropWhile (\<lambda>c. c \<in> set cs) (rev s)" by simp
  then have "s = rev (dropWhile (\<lambda>c. c \<in> set cs) (rev s)) @ rev (takeWhile (\<lambda>c. c \<in> set cs) (rev s))"
    by (metis rev_append rev_rev_ident)
  then show ?thesis unfolding trim_right_def by blast
qed

lemma length_trim_right: "length (trim_right s cs) \<le> length s"
  by (metis le_add1 length_append trim_right_prefix)

lemma index_byte_range: "-1 \<le> index_byte s c"
  by (induction s) (auto simp: Let_def)

lemma index_byte_absent: "index_byte s c < 0 \<longleftrightarrow> c \<notin> set s"
proof (induction s)
  case (Cons x xs)
  then show ?case using index_byte_range [of xs c] by (auto simp: Let_def)
qed simp

lemma index_byte_first: "x \<notin> set a \<Longrightarrow> index_byte (a @ x # b) x = int (length a)"
  by (induction a) (auto simp: Let_def)

lemma last_index_byte_range: "-1 \<le> last_index_byte s c \<and> last_index_byte s c < int (length s)"
  by (induction s) (auto simp: Let_def)

lemma last_index_byte_nonneg:
  "last_index_byte s c \<ge> 0 \<Longrightarrow> s ! nat (last_index_byte s c) = c \<and>
     c \<notin> set (drop (nat (last_index_byte s c) + 1) s)"
proof (induction s)
  case (Cons x xs)
  have "last_index_byte xs c < 0 \<Longrightarrow> c \<notin> set xs" for xs
    by (induction xs) (auto simp: Let_def split: if_splits)
  with Cons show ?case by (auto simp: Let_def nat_add_distrib split: if_splits)
qed simp

lemma last_index_byte_none: "last_index_byte s c < 0 \<longleftrightarrow> c \<notin> set s"
  by (induction s) (auto simp: Let_def)

lemma split_on_nonempty [simp]: "split_on c s \<noteq> []"
  by (cases s) (auto split: list.splits)

lemma split_on_sep: "split_on c (s @ c # t) = split_on c s @ split_on c t"
  by (induction s) (auto split: list.splits)

lemma split_on_none: "c \<notin> set s \<Longrightarrow> split_on c s = [s]"
  by (induction s) auto

lemma split_on_parts: "x \<in> set (split_on c s) \<Longrightarrow> c \<notin> set x"
  by (induction s arbitrary: x) (auto split: list.splits if_splits)

lemma join_split: "join_with [c] (split_on c s) = s"
proof (induction s)
  case (Cons x xs)
  then show ?case
    by (cases "split_on c xs"; cases "tl (split_on c xs)") auto
qed simp

lemma length_digits_pos: "0 < length (digits_of n)"
  by (subst digits_of.simps) simp

lemma digits_are_digits: "\<forall>c \<in> set (digits_of n). is_digit c"
  by (induction n rule: digits_of.induct) (subst digits_of.simps, auto simp: is_digit_def)

lemma number_digits: "number_of_digits (digits_of n) = n"
proof (induction n rule: digits_of.induct)
  case (1 n)
  then show ?case by (subst digits_of.simps) (auto simp: number_of_digits_def)
qed

lemma string_of_int_chars: "c \<in> set (string_of_int i) \<Longrightarrow> is_digit c \<or> c = CHR ''-''"
  using digits_are_digits by (auto simp: string_of_int_def split: if_splits)

lemma slash_not_in_int: "CHR ''/'' \<notin> set (string_of_int i)"
proof
  assume "CHR ''/'' \<in> set (string_of_int i)"
  from string_of_int_chars [OF this] show False by (simp add: is_digit_def)
qed

definition int_of_string :: "string \<Rightarrow> int" where
  "int_of_string s = (if s \<noteq> [] \<and> hd s = CHR ''-'' then - int (number_of_digits (tl s)) else int (number_of_digits s))"

lemma hd_digits: "hd (digits_of n) \<noteq> CHR ''-''"
proof -
  have "hd (digits_of n) \<in> set (digits_of n)" using length_digits_pos [of n] by (intro hd_in_set) auto
  then have "is_digit (hd (digits_of n))" using digits_are_digits by blast
  then show ?thesis by (auto simp: is_digit_def)
qed

lemma int_of_string_of_int: "int_of_string (string_of_int i) = i"
proof -
  have "digits_of (nat i) \<noteq> []" using length_digits_pos [of "nat i"] by auto
  then show ?thesis by (simp add: int_of_string_def string_of_int_def number_digits hd_digits)
qed

lemma string_of_int_inj: "string_of_int i = string_of_int j \<longleftrightarrow> i = j"
  by (metis int_of_string_of_int)

end
