(* ===== verification/Go_Json.thy ===== *)
theory Go_Json
  imports Go_Strings
begin

text \<open>
  The part of Go's \<^verbatim>\<open>encoding/json\<close> that the repository's writers use: JSON values and
  their text, compact as by \<^verbatim>\<open>json.Marshal\<close> and indented as by
  \<^verbatim>\<open>Encoder.SetIndent\<close>. An object keeps its members in the order of the struct's fields.
\<close>

datatype json = JNull | JBool bool | JInt int | JString string | JArray "json list"
  | JObject "(string \<times> json) list"

text \<open>A string literal, with the escapes that keep it valid UTF-8 and safe inside HTML.\<close>

definition json_rune :: "nat \<Rightarrow> string" where
  "json_rune r =
    (if r = 0x22 \<or> r = 0x5C then [CHR 0x5C, char_of r]
     else case map_of [(8, CHR ''b''), (12, CHR ''f''), (10, CHR ''n''), (13, CHR ''r''), (9, CHR ''t'')] r of
       Some c \<Rightarrow> [CHR 0x5C, c]
     | None \<Rightarrow>
       if r < 0x20 \<or> r \<in> {0x3C, 0x3E, 0x26, 0x2028, 0x2029} then CHR 0x5C # CHR ''u'' # hex_number 4 r
       else encode_rune r)"

function json_body :: "string \<Rightarrow> string" where
  "json_body s =
    (if s = [] then []
     else let r = fst (decode_rune s); n = snd (decode_rune s) in
       (if r = rune_error \<and> n = 1 then CHR 0x5C # ''ufffd'' else json_rune r) @ json_body (drop n s))"
  by pat_completeness auto
termination by (relation "measure length") (auto simp: decode_rune_progress)

declare json_body.simps [simp del]

definition json_string :: "string \<Rightarrow> string" where
  "json_string s = CHR 0x22 # json_body s @ [CHR 0x22]"

fun json_text :: "json \<Rightarrow> string" where
  "json_text JNull = ''null''"
| "json_text (JBool b) = (if b then ''true'' else ''false'')"
| "json_text (JInt i) = string_of_int i"
| "json_text (JString s) = json_string s"
| "json_text (JArray vs) = ''['' @ join_with '','' (map json_text vs) @ '']''"
| "json_text (JObject ms) =
    ''{'' @ join_with '','' (map (\<lambda>(k, v). json_string k @ '':'' @ json_text v) ms) @ ''}''"

text \<open>The indented text; \<open>ind\<close> is the indentation of the enclosing line, as line break and blanks.\<close>

fun json_indent :: "string \<Rightarrow> json \<Rightarrow> string" where
  "json_indent ind (JArray vs) =
    (if vs = [] then ''[]''
     else ''['' @ ind @ ''  '' @ join_with ('','' @ ind @ ''  '') (map (json_indent (ind @ ''  '')) vs) @ ind @ '']'')"
| "json_indent ind (JObject ms) =
    (if ms = [] then ''{}''
     else ''{'' @ ind @ ''  '' @ join_with ('','' @ ind @ ''  '')
        (map (\<lambda>(k, v). json_string k @ '': '' @ json_indent (ind @ ''  '') v) ms) @ ind @ ''}'')"
| "json_indent ind v = json_text v"

text \<open>A member with the \<^verbatim>\<open>omitempty\<close> option.\<close>

definition omit_empty :: "bool \<Rightarrow> string \<Rightarrow> json \<Rightarrow> (string \<times> json) list" where
  "omit_empty e k v = (if e then [] else [(k, v)])"

text \<open>The members of an object whose key is \<open>k\<close>, and that omitted members do not collide.\<close>

definition json_field :: "(string \<times> json) list \<Rightarrow> string \<Rightarrow> json option" where
  "json_field ms k = map_of ms k"

lemma json_field_simps [simp]:
  "json_field [] k = None"
  "json_field ((k', v) # ms) k = (if k = k' then Some v else json_field ms k)"
  "json_field (omit_empty e k' v @ ms) k = (if k = k' \<and> \<not> e then Some v else json_field ms k)"
  "json_field (omit_empty e k' v) k = (if k = k' \<and> \<not> e then Some v else None)"
  by (auto simp: json_field_def omit_empty_def)

lemma map_JString_inj [simp]: "map JString xs = map JString ys \<longleftrightarrow> xs = ys"
  by (rule inj_map_eq_map) (auto intro: injI)

lemma map_JInt_inj [simp]: "map JInt xs = map JInt ys \<longleftrightarrow> xs = ys"
  by (rule inj_map_eq_map) (auto intro: injI)

end
