(* ===== verification/Json_Raw.thy ===== *)
theory Json_Raw
  imports Go_Json
begin

text \<open>
  Go's \<^verbatim>\<open>encoding/json\<close> on raw text: the scanner as a recursive-descent parser into trees
  that keep every literal as it is spelled, \<^verbatim>\<open>json.Compact\<close> and \<^verbatim>\<open>json.Indent\<close>
  on the trees, and the strings the literals stand for. The parser is proved to accept the
  JSON grammar and nothing else.
\<close>

section \<open>Trees and text\<close>

text \<open>A string literal is kept as the text between its quotes.\<close>

datatype raw = RWord string | RStr string | RArr "raw list" | RObj "(string \<times> raw) list"

definition is_ws :: "char \<Rightarrow> bool" where
  "is_ws c \<longleftrightarrow> c \<in> {CHR '' '', CHR 0x09, CHR 0x0D, CHR 0x0A}"

definition skip_ws :: "string \<Rightarrow> string" where
  "skip_ws s = dropWhile is_ws s"

definition is_hex :: "char \<Rightarrow> bool" where
  "is_hex c \<longleftrightarrow> is_digit c \<or> (0x61 \<le> bv c \<and> bv c \<le> 0x66) \<or> (0x41 \<le> bv c \<and> bv c \<le> 0x46)"

abbreviation quote_char :: char where "quote_char \<equiv> CHR 0x22"

fun scan_string :: "string \<Rightarrow> (string \<times> string) option" where
  "scan_string [] = None"
| "scan_string (c # s) =
    (if c = quote_char then Some ([], s)
     else if c = CHR 0x5C then
       (case s of
          [] \<Rightarrow> None
        | d # s1 \<Rightarrow>
          if d \<in> set ''bfnrt/'' \<or> d = CHR 0x5C \<or> d = quote_char then map_option (\<lambda>(b, r). (c # d # b, r)) (scan_string s1)
          else if d = CHR ''u'' then
            (case s1 of
               h1 # h2 # h3 # h4 # s2 \<Rightarrow>
                 if list_all is_hex [h1, h2, h3, h4] then map_option (\<lambda>(b, r). (c # d # h1 # h2 # h3 # h4 # b, r)) (scan_string s2)
                 else None
             | _ \<Rightarrow> None)
          else None)
     else if bv c < 0x20 then None
     else map_option (\<lambda>(b, r). (c # b, r)) (scan_string s))"

definition scan_digits :: "string \<Rightarrow> (string \<times> string) option" where
  "scan_digits s = (let ds = takeWhile is_digit s in if ds = [] then None else Some (ds, dropWhile is_digit s))"

definition scan_int :: "string \<Rightarrow> (string \<times> string) option" where
  "scan_int s = (case s of c # s1 \<Rightarrow> if c = CHR ''0'' then Some (''0'', s1) else scan_digits s | [] \<Rightarrow> None)"

definition scan_frac :: "string \<Rightarrow> (string \<times> string) option" where
  "scan_frac s = (case s of c # s1 \<Rightarrow> if c = CHR ''.'' then map_option (\<lambda>(ds, r). (c # ds, r)) (scan_digits s1) else Some ([], s)
     | [] \<Rightarrow> Some ([], []))"

definition scan_exp :: "string \<Rightarrow> (string \<times> string) option" where
  "scan_exp s = (case s of c # s1 \<Rightarrow> if c = CHR ''e'' \<or> c = CHR ''E'' then
       (case s1 of d # s2 \<Rightarrow> if d = CHR ''+'' \<or> d = CHR ''-'' then map_option (\<lambda>(ds, r). (c # d # ds, r)) (scan_digits s2)
            else map_option (\<lambda>(ds, r). (c # ds, r)) (scan_digits s1)
        | [] \<Rightarrow> None)
       else Some ([], s) | [] \<Rightarrow> Some ([], []))"

definition scan_sign :: "string \<Rightarrow> string" where
  "scan_sign s = (case s of c # _ \<Rightarrow> if c = CHR ''-'' then ''-'' else [] | [] \<Rightarrow> [])"

definition scan_number :: "string \<Rightarrow> (string \<times> string) option" where
  "scan_number s =
    (let sign = scan_sign s; s0 = drop (length sign) s in
     case scan_int s0 of None \<Rightarrow> None
     | Some (i, s1) \<Rightarrow> (case scan_frac s1 of None \<Rightarrow> None
       | Some (f, s2) \<Rightarrow> (case scan_exp s2 of None \<Rightarrow> None
         | Some (e, s3) \<Rightarrow> Some (sign @ i @ f @ e, s3))))"

definition scan_word :: "string \<Rightarrow> (string \<times> string) option" where
  "scan_word s =
    (if has_prefix s ''true'' then Some (''true'', drop 4 s)
     else if has_prefix s ''false'' then Some (''false'', drop 5 s)
     else if has_prefix s ''null'' then Some (''null'', drop 4 s)
     else scan_number s)"

text \<open>
  \<open>d\<close> is how many containers may still be opened, \<open>n\<close> is fuel: each call spends one unit and
  between two calls that do not read a character there is at most one.
\<close>

fun parse_value :: "nat \<Rightarrow> nat \<Rightarrow> string \<Rightarrow> (raw \<times> string) option"
  and parse_items :: "nat \<Rightarrow> nat \<Rightarrow> string \<Rightarrow> (raw list \<times> string) option"
  and parse_members :: "nat \<Rightarrow> nat \<Rightarrow> string \<Rightarrow> ((string \<times> raw) list \<times> string) option" where
  "parse_value d 0 s = None"
| "parse_value d (Suc n) s =
    (case skip_ws s of
       [] \<Rightarrow> None
     | c # r \<Rightarrow>
       if c = CHR ''{'' then
         (case d of 0 \<Rightarrow> None
          | Suc d' \<Rightarrow> (case skip_ws r of
              c1 # r1 \<Rightarrow> if c1 = CHR ''}'' then Some (RObj [], r1)
                else map_option (\<lambda>(ms, z). (RObj ms, z)) (parse_members d' n r)
            | [] \<Rightarrow> None))
       else if c = CHR ''['' then
         (case d of 0 \<Rightarrow> None
          | Suc d' \<Rightarrow> (case skip_ws r of
              c1 # r1 \<Rightarrow> if c1 = CHR '']'' then Some (RArr [], r1)
                else map_option (\<lambda>(vs, z). (RArr vs, z)) (parse_items d' n r)
            | [] \<Rightarrow> None))
       else if c = quote_char then map_option (\<lambda>(b, z). (RStr b, z)) (scan_string r)
       else map_option (\<lambda>(w, z). (RWord w, z)) (scan_word (c # r)))"
| "parse_items d 0 s = None"
| "parse_items d (Suc n) s =
    (case parse_value d n s of None \<Rightarrow> None
     | Some (v, r) \<Rightarrow> (case skip_ws r of [] \<Rightarrow> None
       | c # r1 \<Rightarrow> if c = CHR '','' then map_option (\<lambda>(vs, z). (v # vs, z)) (parse_items d n r1)
           else if c = CHR '']'' then Some ([v], r1) else None))"
| "parse_members d 0 s = None"
| "parse_members d (Suc n) s =
    (case skip_ws s of [] \<Rightarrow> None
     | q # s1 \<Rightarrow> if q \<noteq> quote_char then None else
       (case scan_string s1 of None \<Rightarrow> None
        | Some (k, s2) \<Rightarrow> (case skip_ws s2 of [] \<Rightarrow> None
          | e # s3 \<Rightarrow> if e \<noteq> CHR '':'' then None else
            (case parse_value d n s3 of None \<Rightarrow> None
             | Some (v, r) \<Rightarrow> (case skip_ws r of [] \<Rightarrow> None
               | c # r1 \<Rightarrow> if c = CHR '','' then map_option (\<lambda>(ms, z). ((k, v) # ms, z)) (parse_members d n r1)
                   else if c = CHR ''}'' then Some ([(k, v)], r1) else None)))))"

definition json_max_depth :: nat where "json_max_depth = 10000"

definition parse_json :: "string \<Rightarrow> raw option" where
  "parse_json s =
    (case parse_value json_max_depth (2 * length s + 2) s of
       Some (v, r) \<Rightarrow> if skip_ws r = [] then Some v else None
     | None \<Rightarrow> None)"

text \<open>\<^verbatim>\<open>json.Compact\<close> and \<^verbatim>\<open>json.Indent\<close> with two blanks.\<close>

fun raw_compact :: "raw \<Rightarrow> string" where
  "raw_compact (RWord w) = w"
| "raw_compact (RStr b) = quote_char # b @ [quote_char]"
| "raw_compact (RArr vs) = ''['' @ join_with '','' (map raw_compact vs) @ '']''"
| "raw_compact (RObj ms) = ''{'' @ join_with '','' (map (\<lambda>(k, v). quote_char # k @ quote_char # '':'' @ raw_compact v) ms) @ ''}''"

fun raw_indent :: "string \<Rightarrow> raw \<Rightarrow> string" where
  "raw_indent ind (RArr vs) =
    (if vs = [] then ''[]''
     else ''['' @ ind @ ''  '' @ join_with ('','' @ ind @ ''  '') (map (raw_indent (ind @ ''  '')) vs) @ ind @ '']'')"
| "raw_indent ind (RObj ms) =
    (if ms = [] then ''{}''
     else ''{'' @ ind @ ''  '' @ join_with ('','' @ ind @ ''  '')
        (map (\<lambda>(k, v). quote_char # k @ quote_char # '': '' @ raw_indent (ind @ ''  '') v) ms) @ ind @ ''}'')"
| "raw_indent ind v = raw_compact v"

section \<open>The grammar\<close>

definition blank :: "string \<Rightarrow> bool" where
  "blank s \<longleftrightarrow> list_all is_ws s"

inductive json_chars :: "string \<Rightarrow> bool" where
  none: "json_chars []"
| plain: "0x20 \<le> bv c \<Longrightarrow> c \<noteq> quote_char \<Longrightarrow> c \<noteq> CHR 0x5C \<Longrightarrow> json_chars s \<Longrightarrow> json_chars (c # s)"
| escape: "d \<in> set ''bfnrt/'' \<or> d = CHR 0x5C \<or> d = quote_char \<Longrightarrow> json_chars s \<Longrightarrow> json_chars (CHR 0x5C # d # s)"
| unicode: "list_all is_hex [h1, h2, h3, h4] \<Longrightarrow> json_chars s \<Longrightarrow> json_chars (CHR 0x5C # CHR ''u'' # h1 # h2 # h3 # h4 # s)"

definition digits :: "string \<Rightarrow> bool" where
  "digits ds \<longleftrightarrow> ds \<noteq> [] \<and> list_all is_digit ds"

definition json_number :: "string \<Rightarrow> bool" where
  "json_number w \<longleftrightarrow> (\<exists>sg i f e. w = sg @ i @ f @ e \<and> sg \<in> {[], ''-''} \<and> (i = ''0'' \<or> digits i \<and> hd i \<noteq> CHR ''0'')
     \<and> (f = [] \<or> (\<exists>ds. f = CHR ''.'' # ds \<and> digits ds))
     \<and> (e = [] \<or> (\<exists>x z ds. e = x # z @ ds \<and> x \<in> {CHR ''e'', CHR ''E''} \<and> z \<in> {[], ''+'', ''-''} \<and> digits ds)))"

definition json_word :: "string \<Rightarrow> bool" where
  "json_word w \<longleftrightarrow> w \<in> {''true'', ''false'', ''null''} \<or> json_number w"

inductive renders :: "nat \<Rightarrow> raw \<Rightarrow> string \<Rightarrow> bool"
  and renders_items :: "nat \<Rightarrow> raw list \<Rightarrow> string \<Rightarrow> bool"
  and renders_members :: "nat \<Rightarrow> (string \<times> raw) list \<Rightarrow> string \<Rightarrow> bool" where
  word: "json_word w \<Longrightarrow> renders d (RWord w) w"
| literal: "json_chars b \<Longrightarrow> renders d (RStr b) (quote_char # b @ [quote_char])"
| no_items: "blank w \<Longrightarrow> renders (Suc d) (RArr []) (CHR ''['' # w @ '']'')"
| items: "renders_items d vs t \<Longrightarrow> renders (Suc d) (RArr vs) (CHR ''['' # t @ '']'')"
| no_members: "blank w \<Longrightarrow> renders (Suc d) (RObj []) (CHR ''{'' # w @ ''}'')"
| members: "renders_members d ms t \<Longrightarrow> renders (Suc d) (RObj ms) (CHR ''{'' # t @ ''}'')"
| last_item: "blank w \<Longrightarrow> renders d v t \<Longrightarrow> blank w1 \<Longrightarrow> renders_items d [v] (w @ t @ w1)"
| more_items: "blank w \<Longrightarrow> renders d v t \<Longrightarrow> blank w1 \<Longrightarrow> renders_items d vs u \<Longrightarrow> renders_items d (v # vs) (w @ t @ w1 @ CHR '','' # u)"
| last_member: "blank w \<Longrightarrow> json_chars k \<Longrightarrow> blank w1 \<Longrightarrow> blank w2 \<Longrightarrow> renders d v t \<Longrightarrow> blank w3 \<Longrightarrow>
    renders_members d [(k, v)] (w @ quote_char # k @ quote_char # w1 @ CHR '':'' # w2 @ t @ w3)"
| more_members: "blank w \<Longrightarrow> json_chars k \<Longrightarrow> blank w1 \<Longrightarrow> blank w2 \<Longrightarrow> renders d v t \<Longrightarrow> blank w3 \<Longrightarrow> renders_members d ms u \<Longrightarrow>
    renders_members d ((k, v) # ms) (w @ quote_char # k @ quote_char # w1 @ CHR '':'' # w2 @ t @ w3 @ CHR '','' # u)"

lemmas json_rules = renders_renders_items_renders_members.intros
lemmas json_word_rule = json_rules(1) and json_literal = json_rules(2) and json_no_items = json_rules(3)
  and json_items = json_rules(4) and json_no_members = json_rules(5) and json_members = json_rules(6)
  and json_last_item = json_rules(7) and json_more_items = json_rules(8) and json_last_member = json_rules(9)
  and json_more_members = json_rules(10)

section \<open>The lexer\<close>

lemma blank_simps [simp]: "blank []" "blank (c # s) \<longleftrightarrow> is_ws c \<and> blank s" "blank (s @ t) \<longleftrightarrow> blank s \<and> blank t"
  by (simp_all add: blank_def)

lemma skip_ws_blank: "\<exists>w. s = w @ skip_ws s \<and> blank w"
proof -
  have "s = takeWhile is_ws s @ skip_ws s" by (simp add: skip_ws_def)
  moreover have "blank (takeWhile is_ws s)" unfolding blank_def list_all_iff by (auto dest: set_takeWhileD)
  ultimately show ?thesis by blast
qed

lemma skip_ws_append: "blank w \<Longrightarrow> skip_ws (w @ s) = skip_ws s"
  by (induction w) (simp_all add: skip_ws_def)

lemma skip_ws_id: "\<not> is_ws c \<Longrightarrow> skip_ws (c # s) = c # s"
  by (simp add: skip_ws_def)

lemma skip_ws_cons: "skip_ws s = c # r \<Longrightarrow> \<not> is_ws c"
  unfolding skip_ws_def by (metis hd_dropWhile list.distinct(1) list.sel(1))

lemma scan_string_sound: "scan_string s = Some (b, r) \<Longrightarrow> s = b @ quote_char # r \<and> json_chars b"
proof (induction s arbitrary: b r rule: scan_string.induct)
  case (2 c s)
  consider "c = quote_char" | "c \<noteq> quote_char" "c = CHR 0x5C" | "c \<noteq> quote_char" "c \<noteq> CHR 0x5C" by blast
  then show ?case
  proof cases
    case 1
    then show ?thesis using "2.prems" by (simp add: json_chars.none)
  next
    case c: 2
    then obtain d s1 where s: "s = d # s1" using "2.prems" by (auto split: list.splits)
    show ?thesis
    proof (cases "d \<in> set ''bfnrt/'' \<or> d = CHR 0x5C \<or> d = quote_char")
      case True
      then obtain b1 where b1: "scan_string s1 = Some (b1, r)" "b = c # d # b1" using "2.prems" c s by auto
      from "2.IH"(1) [OF c s True b1(1)] show ?thesis using b1(2) c s json_chars.escape [OF True] by simp
    next
      case False
      then have du: "d = CHR ''u''" using "2.prems" c s by (auto split: if_splits)
      then obtain h1 h2 h3 h4 s2 where h: "s1 = h1 # h2 # h3 # h4 # s2" "list_all is_hex [h1, h2, h3, h4]"
        using "2.prems" c s False by (auto split: list.splits if_splits)
      then obtain b1 where b1: "scan_string s2 = Some (b1, r)" "b = c # d # h1 # h2 # h3 # h4 # b1" using "2.prems" c s du False by auto
      from "2.IH"(2) [OF c s False du h(1) _ _ _ h(2) b1(1)] show ?thesis
        using b1(2) c s du h(1) json_chars.unicode [OF h(2)] by simp
    qed
  next
    case c: 3
    then have lo: "0x20 \<le> bv c" using "2.prems" by (auto split: if_splits)
    then obtain b1 where b1: "scan_string s = Some (b1, r)" "b = c # b1" using "2.prems" c by auto
    from "2.IH"(3) [OF c _ b1(1)] lo show ?thesis using b1(2) c json_chars.plain [OF lo c] by simp
  qed
qed simp

lemma scan_string_complete: "json_chars b \<Longrightarrow> scan_string (b @ quote_char # r) = Some (b, r)"
  by (induction rule: json_chars.induct) auto

lemma digits_scan: "digits ds \<Longrightarrow> (r = [] \<or> \<not> is_digit (hd r)) \<Longrightarrow> scan_digits (ds @ r) = Some (ds, r)"
proof -
  assume ds: "digits ds" and r: "r = [] \<or> \<not> is_digit (hd r)"
  then have all: "\<And>x. x \<in> set ds \<Longrightarrow> is_digit x" by (simp add: digits_def list_all_iff)
  have "takeWhile is_digit r = []" "dropWhile is_digit r = r" using r by (cases r; simp)+
  then have "takeWhile is_digit (ds @ r) = ds" "dropWhile is_digit (ds @ r) = r"
    using takeWhile_append2 [of ds is_digit r] dropWhile_append2 [of ds is_digit r] all by simp_all
  then show ?thesis using ds by (simp add: scan_digits_def digits_def)
qed

lemma scan_digits_sound: "scan_digits s = Some (ds, r) \<Longrightarrow> s = ds @ r \<and> digits ds"
  by (auto simp: scan_digits_def digits_def list_all_iff Let_def split: if_splits dest: set_takeWhileD)

lemma digits_hd: "digits ds \<Longrightarrow> \<exists>c u. ds = c # u \<and> is_digit c"
  by (cases ds) (auto simp: digits_def)

definition ends_word :: "string \<Rightarrow> bool" where
  "ends_word r \<longleftrightarrow> r = [] \<or> (\<not> is_digit (hd r) \<and> hd r \<notin> {CHR ''.'', CHR ''e'', CHR ''E''})"

lemma is_digit_no: "\<not> is_digit (CHR ''-'')" "\<not> is_digit (CHR ''.'')" "\<not> is_digit (CHR ''e'')" "\<not> is_digit (CHR ''E'')"
  "\<not> is_digit (CHR ''+'')" "is_digit (CHR ''0'')" "\<not> is_digit (CHR ''t'')" "\<not> is_digit (CHR ''f'')" "\<not> is_digit (CHR ''n'')"
  by (simp_all add: is_digit_def)

lemma scan_number_sound:
  assumes "scan_number s = Some (w, r)"
  shows "s = w @ r \<and> json_number w"
proof -
  define sg where "sg = scan_sign s"
  have s: "s = sg @ drop (length sg) s" "sg \<in> {[], ''-''}" by (auto simp: sg_def scan_sign_def split: list.splits)
  obtain i s1 f s2 e where p: "scan_int (drop (length sg) s) = Some (i, s1)" "scan_frac s1 = Some (f, s2)"
    "scan_exp s2 = Some (e, r)" "w = sg @ i @ f @ e"
    using assms by (auto simp: scan_number_def Let_def sg_def split: option.splits)
  have i: "drop (length sg) s = i @ s1" "i = ''0'' \<or> digits i \<and> hd i \<noteq> CHR ''0''"
    using p(1) scan_digits_sound [of "drop (length sg) s" i s1] digits_hd [of i]
    by (auto simp: scan_int_def split: list.splits if_splits)
  have f: "s1 = f @ s2" "f = [] \<or> (\<exists>ds. f = CHR ''.'' # ds \<and> digits ds)"
    using p(2) by (auto simp: scan_frac_def split: list.splits if_splits dest: scan_digits_sound)
  have e: "s2 = e @ r \<and> (e = [] \<or> (\<exists>x z ds. e = x # z @ ds \<and> x \<in> {CHR ''e'', CHR ''E''} \<and> z \<in> {[], ''+'', ''-''} \<and> digits ds))"
  proof (cases s2)
    case (Cons c u)
    then show ?thesis
    proof (cases "c = CHR ''e'' \<or> c = CHR ''E''")
      case True
      then obtain d u1 where u: "u = d # u1" using p(3) Cons by (auto simp: scan_exp_def split: list.splits)
      show ?thesis
      proof (cases "d = CHR ''+'' \<or> d = CHR ''-''")
        case sign: True
        then obtain ds where "scan_digits u1 = Some (ds, r)" "e = c # [d] @ ds"
          using p(3) Cons u True by (auto simp: scan_exp_def)
        then have "u1 = ds @ r" "digits ds" "e = c # [d] @ ds" using scan_digits_sound by blast+
        then have "s2 = e @ r" "e = c # [d] @ ds \<and> c \<in> {CHR ''e'', CHR ''E''} \<and> [d] \<in> {[], ''+'', ''-''} \<and> digits ds"
          using Cons u True sign by auto
        then show ?thesis by blast
      next
        case False
        then obtain ds where "scan_digits u = Some (ds, r)" "e = c # [] @ ds"
          using p(3) Cons u True by (auto simp: scan_exp_def)
        then have "u = ds @ r" "digits ds" "e = c # [] @ ds" using scan_digits_sound by blast+
        then have "s2 = e @ r" "e = c # [] @ ds \<and> c \<in> {CHR ''e'', CHR ''E''} \<and> [] \<in> {[], ''+'', ''-''} \<and> digits ds"
          using Cons True by auto
        then show ?thesis by blast
      qed
    next
      case False
      then show ?thesis using p(3) Cons by (simp add: scan_exp_def)
    qed
  next
    case Nil
    then show ?thesis using p(3) by (simp add: scan_exp_def)
  qed
  have "s = w @ r" using s(1) i(1) f(1) e p(4) by simp
  moreover have "json_number w" unfolding json_number_def using p(4) s(2) i(2) f(2) e by blast
  ultimately show ?thesis by blast
qed

lemma scan_number_complete:
  assumes "json_number w" and r: "ends_word r"
  shows "scan_number (w @ r) = Some (w, r)"
proof -
  obtain sg i f e where w: "w = sg @ i @ f @ e" "sg \<in> {[], ''-''}" "i = ''0'' \<or> digits i \<and> hd i \<noteq> CHR ''0''"
    and f: "f = [] \<or> (\<exists>ds. f = CHR ''.'' # ds \<and> digits ds)"
    and e: "e = [] \<or> (\<exists>x z ds. e = x # z @ ds \<and> x \<in> {CHR ''e'', CHR ''E''} \<and> z \<in> {[], ''+'', ''-''} \<and> digits ds)"
    using assms(1) unfolding json_number_def by blast
  have r1: "r = [] \<or> \<not> is_digit (hd r)" using r by (auto simp: ends_word_def)
  have se: "scan_exp (e @ r) = Some (e, r)"
  proof (cases "e = []")
    case True
    then show ?thesis using r by (cases r) (auto simp: scan_exp_def ends_word_def)
  next
    case False
    then obtain x z ds where x: "e = x # z @ ds" "x \<in> {CHR ''e'', CHR ''E''}" "z \<in> {[], ''+'', ''-''}" "digits ds" using e by blast
    then obtain c u where c: "ds = c # u" "is_digit c" using digits_hd by blast
    have d: "scan_digits (ds @ r) = Some (ds, r)" by (rule digits_scan [OF x(4) r1])
    have nz: "c \<noteq> CHR ''+''" "c \<noteq> CHR ''-''" using c(2) is_digit_no by metis+
    consider "z = []" | a where "z = [a]" "a = CHR ''+'' \<or> a = CHR ''-''" using x(3) by auto
    then show ?thesis
    proof cases
      case 1
      then show ?thesis using x(1,2) d nz c(1) by (auto simp: scan_exp_def)
    next
      case 2
      then show ?thesis using x(1,2) d by (auto simp: scan_exp_def)
    qed
  qed
  have e1: "e @ r = [] \<or> (\<not> is_digit (hd (e @ r)) \<and> hd (e @ r) \<noteq> CHR ''.'')"
    using e r is_digit_no by (auto simp: ends_word_def)
  have sf: "scan_frac (f @ e @ r) = Some (f, e @ r)"
  proof (cases "f = []")
    case True
    then show ?thesis using e1 by (cases "e @ r") (auto simp: scan_frac_def)
  next
    case False
    then obtain ds where ds: "f = CHR ''.'' # ds" "digits ds" using f by blast
    then show ?thesis using digits_scan [OF ds(2), of "e @ r"] e1 by (auto simp: scan_frac_def)
  qed
  have f1: "f @ e @ r = [] \<or> \<not> is_digit (hd (f @ e @ r))" using f e1 is_digit_no by auto
  have si: "scan_int (i @ f @ e @ r) = Some (i, f @ e @ r)"
  proof (cases "i = ''0''")
    case True
    then show ?thesis by (simp add: scan_int_def)
  next
    case False
    then have i: "digits i" "hd i \<noteq> CHR ''0''" using w(3) by auto
    then obtain c u where "i = c # u" using digits_hd by blast
    then show ?thesis using digits_scan [OF i(1) f1] i(2) by (simp add: scan_int_def)
  qed
  have hd: "\<exists>c u. i = c # u \<and> c \<noteq> CHR ''-''" using w(3) digits_hd [of i] is_digit_no by auto
  have "scan_sign (w @ r) = sg" using w(2) hd unfolding w(1) by (auto simp: scan_sign_def)
  then have "scan_number (w @ r) = (case scan_int (i @ f @ e @ r) of None \<Rightarrow> None
     | Some (i, s1) \<Rightarrow> (case scan_frac s1 of None \<Rightarrow> None
       | Some (f, s2) \<Rightarrow> (case scan_exp s2 of None \<Rightarrow> None
         | Some (e, s3) \<Rightarrow> Some (sg @ i @ f @ e, s3))))"
    by (simp add: scan_number_def w(1))
  then show ?thesis by (simp add: si sf se w(1))
qed

lemma number_hd: "json_number w \<Longrightarrow> \<exists>c u. w = c # u \<and> (is_digit c \<or> c = CHR ''-'')"
  unfolding json_number_def using digits_hd is_digit_no(6) by fastforce

lemma scan_word_sound: "scan_word s = Some (w, r) \<Longrightarrow> s = w @ r \<and> json_word w"
  using scan_number_sound [of s w r]
  by (auto simp: scan_word_def json_word_def has_prefix_iff split: if_splits)

lemma scan_word_complete:
  assumes "json_word w" and "ends_word r"
  shows "scan_word (w @ r) = Some (w, r)"
proof (cases "json_number w")
  case True
  then obtain c u where c: "w = c # u" "is_digit c \<or> c = CHR ''-''" using number_hd by blast
  then have "c \<noteq> CHR ''t''" "c \<noteq> CHR ''f''" "c \<noteq> CHR ''n''" using is_digit_no by auto
  then have "\<not> has_prefix (w @ r) ''true''" "\<not> has_prefix (w @ r) ''false''" "\<not> has_prefix (w @ r) ''null''"
    using c(1) by (auto simp: has_prefix_iff)
  then show ?thesis using scan_number_complete [OF True assms(2)] by (simp add: scan_word_def)
next
  case False
  then show ?thesis using assms(1) by (auto simp: json_word_def scan_word_def has_prefix_def)
qed

lemma word_hd: "json_word w \<Longrightarrow> \<exists>c u. w = c # u \<and> (is_digit c \<or> c = CHR ''-'' \<or> c = CHR ''t'' \<or> c = CHR ''f'' \<or> c = CHR ''n'')"
  unfolding json_word_def using number_hd by fastforce

section \<open>The parser\<close>

lemma renders_hd:
  assumes "renders d v t"
  shows "\<exists>c u. t = c # u \<and> \<not> is_ws c \<and> c \<noteq> CHR '']'' \<and> c \<noteq> CHR ''}''"
  using assms
proof (cases rule: renders.cases)
  case word
  then obtain c u where c: "t = c # u" "is_digit c \<or> c = CHR ''-'' \<or> c = CHR ''t'' \<or> c = CHR ''f'' \<or> c = CHR ''n''" using word_hd by blast
  then have "\<not> is_ws c \<and> c \<noteq> CHR '']'' \<and> c \<noteq> CHR ''}''" by (auto simp: is_ws_def is_digit_def)
  then show ?thesis using c(1) by blast
qed (auto simp: is_ws_def)

lemma parse_sound:
  "parse_value d n s = Some (v, r) \<Longrightarrow> \<exists>w t. s = w @ t @ r \<and> blank w \<and> renders d v t"
  "parse_items d n s = Some (vs, r) \<Longrightarrow> \<exists>t. s = t @ CHR '']'' # r \<and> renders_items d vs t"
  "parse_members d n s = Some (ms, r) \<Longrightarrow> \<exists>t. s = t @ CHR ''}'' # r \<and> renders_members d ms t"
proof (induction d n s and d n s and d n s arbitrary: v r and vs r and ms r rule: parse_value_parse_items_parse_members.induct)
  case (2 d n s)
  obtain c s1 where c: "skip_ws s = c # s1" using "2.prems" by (auto split: list.splits)
  obtain w where w: "s = w @ c # s1" "blank w" using skip_ws_blank [of s] c by auto
  have "\<exists>t. c # s1 = t @ r \<and> renders d v t"
  proof -
    consider (obj) "c = CHR ''{''" | (arr) "c = CHR ''[''" | (str) "c = quote_char" | (word) "c \<noteq> CHR ''{''" "c \<noteq> CHR ''[''" "c \<noteq> quote_char" by blast
    then show ?thesis
    proof cases
      case obj
      then obtain d' where d: "d = Suc d'" using "2.prems" c by (auto split: nat.splits)
      obtain c1 r1 where c1: "skip_ws s1 = c1 # r1" using "2.prems" c obj d by (auto split: list.splits)
      obtain w1 where w1: "s1 = w1 @ c1 # r1" "blank w1" using skip_ws_blank [of s1] c1 by auto
      show ?thesis
      proof (cases "c1 = CHR ''}''")
        case True
        then have "v = RObj [] \<and> r = r1" using "2.prems" c obj d c1 by simp
        then show ?thesis using obj w1 True d json_no_members [OF w1(2), of d'] by auto
      next
        case False
        then obtain ms where ms: "parse_members d' n s1 = Some (ms, r)" "v = RObj ms" using "2.prems" c obj d c1 by auto
        from "2.IH"(1) [OF c obj d c1 False ms(1)] obtain t where "s1 = t @ CHR ''}'' # r" "renders_members d' ms t" by blast
        then show ?thesis using obj d ms(2) json_members [of d' ms t] by auto
      qed
    next
      case arr
      then obtain d' where d: "d = Suc d'" using "2.prems" c by (auto split: nat.splits)
      obtain c1 r1 where c1: "skip_ws s1 = c1 # r1" using "2.prems" c arr d by (auto split: list.splits)
      obtain w1 where w1: "s1 = w1 @ c1 # r1" "blank w1" using skip_ws_blank [of s1] c1 by auto
      show ?thesis
      proof (cases "c1 = CHR '']''")
        case True
        then have "v = RArr [] \<and> r = r1" using "2.prems" c arr d c1 by simp
        then show ?thesis using arr w1 True d json_no_items [OF w1(2), of d'] by auto
      next
        case False
        then obtain vs where vs: "parse_items d' n s1 = Some (vs, r)" "v = RArr vs" using "2.prems" c arr d c1 by auto
        have no: "c \<noteq> CHR ''{''" using arr by simp
        from "2.IH"(2) [OF c no arr d c1 False vs(1)] obtain t where "s1 = t @ CHR '']'' # r" "renders_items d' vs t" by blast
        then show ?thesis using arr d vs(2) json_items [of d' vs t] by auto
      qed
    next
      case str
      then obtain b where b: "scan_string s1 = Some (b, r)" "v = RStr b" using "2.prems" c by auto
      then show ?thesis using scan_string_sound [OF b(1)] str json_literal [of b d] by auto
    next
      case word
      then obtain x where x: "scan_word (c # s1) = Some (x, r)" "v = RWord x" using "2.prems" c by auto
      then show ?thesis using scan_word_sound [OF x(1)] json_word_rule [of x d] by auto
    qed
  qed
  then show ?case using w by (metis append.assoc)
next
  case (4 d n s)
  obtain v r0 where v: "parse_value d n s = Some (v, r0)" using "4.prems" by (auto split: option.splits)
  obtain c r1 where c: "skip_ws r0 = c # r1" using "4.prems" v by (auto split: list.splits)
  obtain w1 where w1: "r0 = w1 @ c # r1" "blank w1" using skip_ws_blank [of r0] c by auto
  obtain w t where t: "s = w @ t @ r0" "blank w" "renders d v t" using "4.IH"(1) [OF v] by blast
  show ?case
  proof (cases "c = CHR '',''")
    case True
    then obtain vs' where vs': "parse_items d n r1 = Some (vs', r)" "vs = v # vs'" using "4.prems" v c by auto
    from "4.IH"(2) [OF v refl c True vs'(1)] obtain u where u: "r1 = u @ CHR '']'' # r" "renders_items d vs' u" by blast
    show ?thesis using json_more_items [OF t(2,3) w1(2) u(2)] t(1) w1(1) u(1) True vs'(2) by auto
  next
    case False
    then have "c = CHR '']'' \<and> vs = [v] \<and> r = r1" using "4.prems" v c by (auto split: if_splits)
    then show ?thesis using json_last_item [OF t(2,3) w1(2)] t(1) w1(1) by auto
  qed
next
  case (6 d n s)
  obtain s1 where s1: "skip_ws s = quote_char # s1" using "6.prems" by (auto split: list.splits if_splits)
  obtain w where w: "s = w @ quote_char # s1" "blank w" using skip_ws_blank [of s] s1 by auto
  obtain k s2 where k: "scan_string s1 = Some (k, s2)" using "6.prems" s1 by (auto split: option.splits)
  obtain s3 where s3: "skip_ws s2 = CHR '':'' # s3" using "6.prems" s1 k by (auto split: list.splits if_splits)
  obtain w1 where w1: "s2 = w1 @ CHR '':'' # s3" "blank w1" using skip_ws_blank [of s2] s3 by auto
  obtain v r0 where v: "parse_value d n s3 = Some (v, r0)" using "6.prems" s1 k s3 by (auto split: option.splits)
  obtain c r1 where c: "skip_ws r0 = c # r1" using "6.prems" s1 k s3 v by (auto split: list.splits)
  obtain w3 where w3: "r0 = w3 @ c # r1" "blank w3" using skip_ws_blank [of r0] c by auto
  have nq: "\<not> quote_char \<noteq> quote_char" "\<not> CHR '':'' \<noteq> CHR '':''" by simp_all
  obtain w2 t where t: "s3 = w2 @ t @ r0" "blank w2" "renders d v t" using "6.IH"(1) [OF s1 nq(1) k refl s3 nq(2) v] by blast
  have kk: "s1 = k @ quote_char # s2" "json_chars k" using scan_string_sound [OF k] by auto
  show ?case
  proof (cases "c = CHR '',''")
    case True
    then obtain ms' where ms': "parse_members d n r1 = Some (ms', r)" "ms = (k, v) # ms'" using "6.prems" s1 k s3 v c by auto
    from "6.IH"(2) [OF s1 nq(1) k refl s3 nq(2) v refl c True ms'(1)] obtain u where u: "r1 = u @ CHR ''}'' # r" "renders_members d ms' u" by blast
    show ?thesis using json_more_members [OF w(2) kk(2) w1(2) t(2,3) w3(2) u(2)]
      w(1) kk(1) w1(1) t(1) w3(1) u(1) True ms'(2) by auto
  next
    case False
    then have "c = CHR ''}'' \<and> ms = [(k, v)] \<and> r = r1" using "6.prems" s1 k s3 v c by (auto split: if_splits)
    then show ?thesis using json_last_member [OF w(2) kk(2) w1(2) t(2,3) w3(2)] w(1) kk(1) w1(1) t(1) w3(1) by auto
  qed
qed simp_all

lemma not_ws: "\<not> is_ws (CHR '','')" "\<not> is_ws (CHR '']'')" "\<not> is_ws (CHR ''}'')" "\<not> is_ws (CHR '':'')" "\<not> is_ws (CHR ''['')"
  "\<not> is_ws (CHR ''{'')" "\<not> is_ws quote_char"
  by (simp_all add: is_ws_def)

lemma ends_word_rest:
  "blank w \<Longrightarrow> c \<in> {CHR '','', CHR '']'', CHR ''}''} \<Longrightarrow> ends_word (w @ c # r)"
  by (cases w) (auto simp: ends_word_def is_ws_def is_digit_def)

lemma ends_word_blank: "blank w \<Longrightarrow> ends_word w"
  by (cases w) (auto simp: ends_word_def is_ws_def is_digit_def)

lemma parse_complete:
  "renders d v t \<Longrightarrow> blank w \<Longrightarrow> ends_word r \<Longrightarrow> 2 * length t \<le> n \<Longrightarrow> parse_value d n (w @ t @ r) = Some (v, r)"
  "renders_items d vs t \<Longrightarrow> 2 * length t + 1 \<le> n \<Longrightarrow> parse_items d n (t @ CHR '']'' # r) = Some (vs, r)"
  "renders_members d ms t \<Longrightarrow> 2 * length t + 1 \<le> n \<Longrightarrow> parse_members d n (t @ CHR ''}'' # r) = Some (ms, r)"
proof (induction arbitrary: w r n and r n and r n rule: renders_renders_items_renders_members.inducts)
  case (word x d)
  then obtain c u where c: "x = c # u" "is_digit c \<or> c = CHR ''-'' \<or> c = CHR ''t'' \<or> c = CHR ''f'' \<or> c = CHR ''n''" using word_hd by blast
  then obtain m where n: "n = Suc m" using word.prems by (cases n) auto
  have "\<not> is_ws c" "c \<noteq> CHR ''{''" "c \<noteq> CHR ''[''" "c \<noteq> quote_char" using c(2) by (auto simp: is_ws_def is_digit_def)
  then show ?case using scan_word_complete [OF word.hyps word.prems(2)] c(1) n
    by (simp add: skip_ws_append [OF word.prems(1)] skip_ws_id)
next
  case (literal b d)
  then obtain m where n: "n = Suc m" by (cases n) auto
  show ?case using scan_string_complete [OF literal.hyps, of r] n
    by (simp add: skip_ws_append [OF literal.prems(1)] skip_ws_id not_ws)
next
  case (no_items w1 d)
  then obtain m where n: "n = Suc m" by (cases n) auto
  show ?case using n by (simp add: skip_ws_append [OF no_items.prems(1)] skip_ws_append [OF no_items.hyps] skip_ws_id not_ws)
next
  case (items d vs t)
  then obtain m where n: "n = Suc m" "2 * length t + 1 \<le> m" by (cases n) auto
  obtain c1 r1 where c: "skip_ws (t @ CHR '']'' # r) = c1 # r1" "c1 \<noteq> CHR '']''"
  proof -
    obtain w0 v t1 z where t: "t = w0 @ t1 @ z" "blank w0" "renders d v t1" using items.hyps by (cases rule: renders_items.cases) auto
    obtain c u where "t1 = c # u" "\<not> is_ws c" "c \<noteq> CHR '']''" using renders_hd [OF t(3)] by blast
    then have "skip_ws (t @ CHR '']'' # r) = c # u @ z @ CHR '']'' # r" using t(1) skip_ws_append [OF t(2)] by (simp add: skip_ws_id)
    then show thesis using that \<open>c \<noteq> CHR '']''\<close> by blast
  qed
  then show ?case using items.IH [OF n(2), of r] n(1)
    by (simp add: skip_ws_append [OF items.prems(1)] skip_ws_id not_ws)
next
  case (no_members w1 d)
  then obtain m where n: "n = Suc m" by (cases n) auto
  show ?case using n by (simp add: skip_ws_append [OF no_members.prems(1)] skip_ws_append [OF no_members.hyps] skip_ws_id not_ws)
next
  case (members d ms t)
  then obtain m where n: "n = Suc m" "2 * length t + 1 \<le> m" by (cases n) auto
  obtain r1 where c: "skip_ws (t @ CHR ''}'' # r) = quote_char # r1"
  proof -
    obtain w0 z where t: "t = w0 @ quote_char # z" "blank w0" using members.hyps by (cases rule: renders_members.cases) auto
    then have "skip_ws (t @ CHR ''}'' # r) = quote_char # z @ CHR ''}'' # r" using skip_ws_append [OF t(2)] by (simp add: skip_ws_id not_ws)
    then show thesis using that by blast
  qed
  then show ?case using members.IH [OF n(2), of r] n(1)
    by (simp add: skip_ws_append [OF members.prems(1)] skip_ws_id not_ws)
next
  case (last_item w d v t w1)
  then obtain m where n: "n = Suc m" "2 * length t \<le> m" by (cases n) auto
  show ?case using last_item.IH [OF last_item.hyps(1) ends_word_rest [OF last_item.hyps(3), of "CHR '']''" r] n(2)] n(1)
    by (simp add: skip_ws_append [OF last_item.hyps(3)] skip_ws_id not_ws)
next
  case (more_items w d v t w1 vs u)
  then obtain m where n: "n = Suc m" "2 * length t \<le> m" "2 * length u + 1 \<le> m" by (cases n) auto
  show ?case using more_items.IH(1) [OF more_items.hyps(1) ends_word_rest [OF more_items.hyps(3), of "CHR '',''" "u @ CHR '']'' # r"] n(2)] more_items.IH(2) [OF n(3)] n(1)
    by (simp add: skip_ws_append [OF more_items.hyps(3)] skip_ws_id not_ws)
next
  case (last_member w k w1 w2 d v t w3)
  then obtain m where n: "n = Suc m" "2 * length t \<le> m" by (cases n) auto
  show ?case using last_member.IH [OF last_member.hyps(4) ends_word_rest [OF last_member.hyps(6), of "CHR ''}''" r] n(2)] n(1)
      scan_string_complete [OF last_member.hyps(2)]
    by (simp add: skip_ws_append [OF last_member.hyps(1)] skip_ws_append [OF last_member.hyps(3)] skip_ws_append [OF last_member.hyps(6)] skip_ws_id not_ws)
next
  case (more_members w k w1 w2 d v t w3 ms u)
  then obtain m where n: "n = Suc m" "2 * length t \<le> m" "2 * length u + 1 \<le> m" by (cases n) auto
  show ?case using more_members.IH(1) [OF more_members.hyps(4) ends_word_rest [OF more_members.hyps(6), of "CHR '',''" "u @ CHR ''}'' # r"] n(2)] more_members.IH(2) [OF n(3)] n(1)
      scan_string_complete [OF more_members.hyps(2)]
    by (simp add: skip_ws_append [OF more_members.hyps(1)] skip_ws_append [OF more_members.hyps(3)] skip_ws_append [OF more_members.hyps(6)] skip_ws_id not_ws)
qed

definition json_document :: "raw \<Rightarrow> string \<Rightarrow> bool" where
  "json_document v s \<longleftrightarrow> (\<exists>w t w1. s = w @ t @ w1 \<and> blank w \<and> blank w1 \<and> renders json_max_depth v t)"

lemma parse_json_exact: "parse_json s = Some v \<longleftrightarrow> json_document v s"
proof
  assume "parse_json s = Some v"
  then obtain r where r: "parse_value json_max_depth (2 * length s + 2) s = Some (v, r)" "skip_ws r = []"
    by (auto simp: parse_json_def split: option.splits if_splits)
  obtain w t where "s = w @ t @ r" "blank w" "renders json_max_depth v t" using parse_sound(1) [OF r(1)] by blast
  moreover have "blank r" using skip_ws_blank [of r] r(2) by auto
  ultimately show "json_document v s" unfolding json_document_def by blast
next
  assume "json_document v s"
  then obtain w t w1 where s: "s = w @ t @ w1" "blank w" "blank w1" "renders json_max_depth v t" unfolding json_document_def by blast
  have "parse_value json_max_depth (2 * length s + 2) s = Some (v, w1)"
    unfolding s(1) by (rule parse_complete(1) [OF s(4,2) ends_word_blank [OF s(3)]]) simp
  moreover have "skip_ws w1 = []" using s(3) by (simp add: skip_ws_def blank_def list_all_iff)
  ultimately show "parse_json s = Some v" by (simp add: parse_json_def)
qed

section \<open>Compact and indented text\<close>

text \<open>A tree that some text renders; then its compact and its indented text render it too.\<close>

lemma join_with_cons: "xs \<noteq> [] \<Longrightarrow> join_with sep (x # xs) = x @ sep @ join_with sep xs"
  by (cases xs) simp_all

lemma renders_items_nonempty: "renders_items d vs t \<Longrightarrow> vs \<noteq> []"
  by (cases rule: renders_items.cases) auto

lemma renders_members_nonempty: "renders_members d ms t \<Longrightarrow> ms \<noteq> []"
  by (cases rule: renders_members.cases) auto

lemma member_text:
  "json_chars k \<Longrightarrow> renders d v t \<Longrightarrow> renders_members d [(k, v)] (quote_char # k @ quote_char # '':'' @ t)"
  using json_last_member [of "[]" k "[]" "[]" d v t "[]"] by simp

lemma renders_compact:
  "renders d v t \<Longrightarrow> renders d v (raw_compact v)"
  "renders_items d vs t \<Longrightarrow> renders_items d vs (join_with '','' (map raw_compact vs))"
  "renders_members d ms t \<Longrightarrow>
     renders_members d ms (join_with '','' (map (\<lambda>(k, v). quote_char # k @ quote_char # '':'' @ raw_compact v) ms))"
proof (induction rule: renders_renders_items_renders_members.inducts)
  case (last_item w d v t w1)
  then show ?case using json_last_item [of "[]" d v "raw_compact v" "[]"] by simp
next
  case (more_items w d v t w1 vs u)
  then show ?case using json_more_items [of "[]" d v "raw_compact v" "[]" vs] renders_items_nonempty [of d vs u]
    by (simp add: join_with_cons)
next
  case (last_member w k w1 w2 d v t w3)
  then show ?case using json_last_member [of "[]" k "[]" "[]" d v "raw_compact v" "[]"] by simp
next
  case (more_members w k w1 w2 d v t w3 ms u)
  then show ?case using json_more_members [of "[]" k "[]" "[]" d v "raw_compact v" "[]" ms] renders_members_nonempty [of d ms u]
    by (simp add: join_with_cons)
qed (use json_no_items [of "[]"] json_no_members [of "[]"] in \<open>auto intro: json_rules\<close>)

lemma renders_indent:
  "renders d v t \<Longrightarrow> blank ind \<Longrightarrow> renders d v (raw_indent ind v)"
  "renders_items d vs t \<Longrightarrow> blank ind \<Longrightarrow>
     renders_items d vs (ind @ ''  '' @ join_with ('','' @ ind @ ''  '') (map (raw_indent (ind @ ''  '')) vs) @ ind)"
  "renders_members d ms t \<Longrightarrow> blank ind \<Longrightarrow>
     renders_members d ms (ind @ ''  '' @ join_with ('','' @ ind @ ''  '')
        (map (\<lambda>(k, v). quote_char # k @ quote_char # '': '' @ raw_indent (ind @ ''  '') v) ms) @ ind)"
proof (induction arbitrary: ind and ind and ind rule: renders_renders_items_renders_members.inducts)
  case (no_items w d)
  then show ?case using json_no_items [of "[]" d] by simp
next
  case (items d vs t)
  then show ?case using json_items [OF items.IH [OF items.prems]] renders_items_nonempty [OF items.hyps] by simp
next
  case (no_members w d)
  then show ?case using json_no_members [of "[]" d] by simp
next
  case (members d ms t)
  then show ?case using json_members [OF members.IH [OF members.prems]] renders_members_nonempty [OF members.hyps] by simp
next
  case (last_item w d v t w1)
  then have "blank (ind @ ''  '')" by (simp add: is_ws_def)
  then show ?case using json_last_item [of "ind @ ''  ''" d v "raw_indent (ind @ ''  '') v" ind] last_item by simp
next
  case (more_items w d v t w1 vs u)
  then have b: "blank (ind @ ''  '')" by (simp add: is_ws_def)
  show ?case using json_more_items [OF b more_items.IH(1) [OF b], of "[]", OF _ more_items.IH(2) [OF more_items.prems]]
      renders_items_nonempty [of d vs u] more_items.hyps
    by (simp add: join_with_cons)
next
  case (last_member w k w1 w2 d v t w3)
  then have "blank (ind @ ''  '')" by (simp add: is_ws_def)
  then show ?case using json_last_member [of "ind @ ''  ''" k "[]" "'' ''" d v "raw_indent (ind @ ''  '') v" ind] last_member by (simp add: is_ws_def)
next
  case (more_members w k w1 w2 d v t w3 ms u)
  then have b: "blank (ind @ ''  '')" by (simp add: is_ws_def)
  show ?case using json_more_members [OF b more_members.hyps(2) _ _ more_members.IH(1) [OF b], of "[]" "'' ''" "[]", OF _ _ _ more_members.IH(2) [OF more_members.prems]]
      renders_members_nonempty [of d ms u] more_members.hyps
    by (simp add: join_with_cons is_ws_def)
qed (auto intro: json_rules)

definition raw_ok :: "raw \<Rightarrow> bool" where
  "raw_ok v \<longleftrightarrow> renders json_max_depth v (raw_compact v)"

lemma parse_json_ok: "parse_json s = Some v \<Longrightarrow> raw_ok v"
  unfolding parse_json_exact json_document_def raw_ok_def using renders_compact(1) by blast

lemma parse_compact: "raw_ok v \<Longrightarrow> parse_json (raw_compact v) = Some v"
  unfolding raw_ok_def parse_json_exact json_document_def by (intro exI [of _ "[]"] exI [of _ "raw_compact v"]) simp

lemma parse_indent:
  assumes "raw_ok v" and "blank ind" and "blank z"
  shows "parse_json (raw_indent ind v @ z) = Some v"
proof -
  have "renders json_max_depth v (raw_indent ind v)" using renders_indent(1) assms(1,2) unfolding raw_ok_def by blast
  then show ?thesis unfolding parse_json_exact json_document_def using assms(3) by (intro exI [of _ "[]"] exI [of _ "raw_indent ind v"] exI [of _ z]) simp
qed

end
