(* ===== verification/Json_String.thy ===== *)
theory Json_String
  imports Json_Raw
begin

text \<open>
  The strings that JSON literals stand for, as \<^verbatim>\<open>encoding/json\<close> reads them, the decimal
  integers of \<^verbatim>\<open>strconv.ParseInt\<close>, and the trees of the texts that the writers of
  \<open>Go_Json\<close> produce: what is written is read back.
\<close>

section \<open>Reading a string literal\<close>

definition hex_val :: "char \<Rightarrow> nat" where
  "hex_val c = (if is_digit c then bv c - 48 else if 0x61 \<le> bv c then bv c - 87 else bv c - 55)"

definition hex4 :: "char \<Rightarrow> char \<Rightarrow> char \<Rightarrow> char \<Rightarrow> nat" where
  "hex4 a b c d = ((hex_val a * 16 + hex_val b) * 16 + hex_val c) * 16 + hex_val d"

text \<open>A \<^verbatim>\<open>\u\<close> escape at the start of the text: its value and what follows.\<close>

definition get_u4 :: "string \<Rightarrow> (nat \<times> string) option" where
  "get_u4 s = (case s of b # u # h1 # h2 # h3 # h4 # r \<Rightarrow>
       if b = CHR 0x5C \<and> u = CHR ''u'' \<and> list_all is_hex [h1, h2, h3, h4] then Some (hex4 h1 h2 h3 h4, r) else None
     | _ \<Rightarrow> None)"

definition is_surrogate :: "nat \<Rightarrow> bool" where
  "is_surrogate r \<longleftrightarrow> 0xD800 \<le> r \<and> r < 0xE000"

text \<open>\<^verbatim>\<open>utf16.DecodeRune\<close>, which gives U+FFFD for anything but a pair.\<close>

definition decode_pair :: "nat \<Rightarrow> nat \<Rightarrow> nat" where
  "decode_pair r r1 = (if 0xD800 \<le> r \<and> r < 0xDC00 \<and> 0xDC00 \<le> r1 \<and> r1 < 0xE000
     then (r - 0xD800) * 1024 + (r1 - 0xDC00) + 0x10000 else rune_error)"

definition unescape_char :: "char \<Rightarrow> char" where
  "unescape_char c =
    (case map_of [(CHR ''b'', 8), (CHR ''f'', 12), (CHR ''n'', 10), (CHR ''r'', 13), (CHR ''t'', 9)] c of
       Some n \<Rightarrow> char_of (n :: nat) | None \<Rightarrow> c)"

text \<open>
  One step: the bytes of the first rune and what follows. A lone surrogate escape and an
  invalid byte read as U+FFFD.
\<close>

definition unquote_step :: "string \<Rightarrow> string \<times> string" where
  "unquote_step s =
    (case s of [] \<Rightarrow> ([], [])
     | c # s1 \<Rightarrow>
       if c = CHR 0x5C then
         (case get_u4 s of
            Some (r, s2) \<Rightarrow>
              if is_surrogate r then
                (case get_u4 s2 of
                   Some (r1, s3) \<Rightarrow> if decode_pair r r1 \<noteq> rune_error then (encode_rune (decode_pair r r1), s3)
                     else (encode_rune rune_error, s2)
                 | None \<Rightarrow> (encode_rune rune_error, s2))
              else (encode_rune r, s2)
          | None \<Rightarrow> (case s1 of [] \<Rightarrow> ([], []) | d # s2 \<Rightarrow> ([unescape_char d], s2)))
       else if bv c < 0x80 then ([c], s1)
       else (encode_rune (fst (decode_rune s)), drop (snd (decode_rune s)) s))"

lemma get_u4_shorter: "get_u4 s = Some (r, t) \<Longrightarrow> length t < length s"
  by (auto simp: get_u4_def split: list.splits if_splits)

lemma unquote_step_shorter: "s \<noteq> [] \<Longrightarrow> length (snd (unquote_step s)) < length s"
  using decode_rune_progress [of s]
  by (auto simp: unquote_step_def split: list.splits option.splits dest!: get_u4_shorter)

function unquote :: "string \<Rightarrow> string" where
  "unquote s = (if s = [] then [] else fst (unquote_step s) @ unquote (snd (unquote_step s)))"
  by pat_completeness auto
termination by (relation "measure length") (auto simp: unquote_step_shorter)

declare unquote.simps [simp del]

lemma unquote_Nil [simp]: "unquote [] = []"
  by (simp add: unquote.simps)

text \<open>\<^verbatim>\<open>strconv.ParseInt(s, 10, 64)\<close>: an optional sign and digits, within 64 bits.\<close>

definition parse_int64 :: "string \<Rightarrow> int option" where
  "parse_int64 s =
    (let body = (if s \<noteq> [] \<and> hd s \<in> {CHR ''-'', CHR ''+''} then tl s else s) in
     if body = [] \<or> \<not> list_all is_digit body then None
     else let n = (if s \<noteq> [] \<and> hd s = CHR ''-'' then - int (number_of_digits body) else int (number_of_digits body)) in
       if - (2 ^ 63) \<le> n \<and> n < 2 ^ 63 then Some n else None)"

section \<open>What is written is read\<close>

lemma hex_char_cases:
  assumes "n < 16"
  shows "is_hex (hex_char n) \<and> hex_val (hex_char n) = n"
proof -
  have "list_all (\<lambda>k. is_hex (hex_char k) \<and> hex_val (hex_char k) = k) [0..<16]"
    by (simp add: upt_rec hex_char_def is_hex_def hex_val_def is_digit_def)
  then show ?thesis using assms by (simp add: list_all_iff)
qed

lemma hex_char_mod: "hex_char (n mod 16) = hex_char n"
  by (simp add: hex_char_def)

lemma hex_number4:
  "hex_number 4 n = [hex_char (n div 4096), hex_char (n div 256), hex_char (n div 16), hex_char n]"
proof -
  have four: "(4 :: nat) = Suc (Suc (Suc (Suc 0)))" by simp
  show ?thesis unfolding four hex_number.simps by (simp add: div_mult2_eq [symmetric])
qed

lemma hex4_number:
  assumes "n < 65536" and "hex_number 4 n = [a, b, c, d]"
  shows "list_all is_hex [a, b, c, d] \<and> hex4 a b c d = n"
proof -
  have v: "is_hex (hex_char k) \<and> hex_val (hex_char k) = k mod 16" for k
    using hex_char_cases [of "k mod 16"] by (simp add: hex_char_mod)
  have "a = hex_char (n div 4096)" "b = hex_char (n div 256)" "c = hex_char (n div 16)" "d = hex_char n"
    using assms(2) unfolding hex_number4 by simp_all
  moreover have "n div 4096 mod 16 = n div 4096" using assms(1) by (simp add: div_less_iff_less_mult)
  moreover have "((n div 4096 * 16 + n div 256 mod 16) * 16 + n div 16 mod 16) * 16 + n mod 16 = n"
    using div_mult_mod_eq [of n 16] div_mult_mod_eq [of "n div 16" 16] div_mult_mod_eq [of "n div 256" 16]
    by (simp add: div_mult2_eq [symmetric])
  ultimately show ?thesis using v by (simp add: hex4_def)
qed

lemma get_u4_number:
  "n < 65536 \<Longrightarrow> get_u4 (CHR 0x5C # CHR ''u'' # hex_number 4 n @ t) = Some (n, t)"
  using hex4_number [of n] unfolding hex_number4 by (simp add: get_u4_def)

text \<open>The escapes of a text come in pairs: what \<open>validEscapes\<close> and \<open>validUnicodeEscapes\<close> ask of one literal.\<close>

function paired :: "string \<Rightarrow> bool" where
  "paired s =
    (case s of [] \<Rightarrow> True
     | c # s1 \<Rightarrow>
       if c \<noteq> CHR 0x5C then paired s1
       else (case get_u4 s of
            None \<Rightarrow> paired (drop 2 s)
          | Some (r, s2) \<Rightarrow>
            if 0xDC00 \<le> r \<and> r < 0xE000 then False
            else if 0xD800 \<le> r \<and> r < 0xDC00 then
              (case get_u4 s2 of None \<Rightarrow> False | Some (r1, s3) \<Rightarrow> 0xDC00 \<le> r1 \<and> r1 < 0xE000 \<and> paired s3)
            else paired s2))"
  by pat_completeness auto
termination by (relation "measure length") (auto dest!: get_u4_shorter)

declare paired.simps [simp del]

lemma multi_bytes: "scalar r \<Longrightarrow> 0x80 \<le> r \<Longrightarrow> \<forall>c \<in> set (encode_rune r). 0x80 \<le> bv c"
  by (auto simp: encode_rune_def Let_def scalar_def bv_char_of)

lemma high_bytes: "0x80 \<le> bv c \<Longrightarrow> c \<noteq> quote_char \<and> c \<noteq> CHR 0x5C"
  by auto

lemma json_chars_high: "\<forall>c \<in> set u. 0x80 \<le> bv c \<Longrightarrow> json_chars s \<Longrightarrow> json_chars (u @ s)"
  by (induction u) (auto intro!: json_chars.plain)

lemma paired_plain: "c \<noteq> CHR 0x5C \<Longrightarrow> paired (c # s) = paired s"
  by (simp add: paired.simps [of "c # s"])

lemma paired_high: "\<forall>c \<in> set u. 0x80 \<le> bv c \<Longrightarrow> paired (u @ s) = paired s"
  using high_bytes by (induction u) (auto simp: paired_plain)

lemma char_of_iff: "char_of n = c \<longleftrightarrow> n mod 256 = bv c"
  unfolding bv_inj [symmetric] of_char_of ..

text \<open>The three ways a rune is written.\<close>

lemma json_rune_cases:
  assumes "scalar r"
  obtains (escape) d where "json_rune r = [CHR 0x5C, d]" "d \<in> set ''bfnrt/'' \<or> d = CHR 0x5C \<or> d = quote_char"
      "bv (unescape_char d) = r" "r < 0x80"
    | (unicode) "json_rune r = CHR 0x5C # CHR ''u'' # hex_number 4 r" "r < 65536" "\<not> is_surrogate r"
    | (ascii) c where "json_rune r = [c]" "bv c = r" "0x20 \<le> r" "r < 0x80" "c \<noteq> quote_char" "c \<noteq> CHR 0x5C"
    | (multi) "json_rune r = encode_rune r" "0x80 \<le> r"
proof -
  define A B C where "A \<longleftrightarrow> r = 0x22 \<or> r = 0x5C" and "B \<longleftrightarrow> r \<in> {8, 12, 10, 13, 9}"
    and "C \<longleftrightarrow> r < 0x20 \<or> r \<in> {0x3C, 0x3E, 0x26, 0x2028, 0x2029}"
  note defs = A_def B_def C_def
  consider A | B | "\<not> A" "\<not> B" C | "\<not> A" "\<not> B" "\<not> C" "r < 0x80" | "\<not> A" "\<not> B" "\<not> C" "0x80 \<le> r" using linorder_not_less by blast
  then show thesis
  proof cases
    case 1
    then show thesis using escape [of "char_of r"] by (auto simp: defs json_rune_def unescape_char_def char_of_iff)
  next
    case 2
    then show thesis unfolding defs
      by (elim insertE emptyE) (rule escape, auto simp: json_rune_def unescape_char_def)+
  next
    case 3
    then show thesis using unicode by (auto simp: defs json_rune_def is_surrogate_def)
  next
    case 4
    then have "json_rune r = [char_of r]" by (simp add: defs json_rune_def encode1)
    moreover have "char_of r \<noteq> quote_char" "char_of r \<noteq> CHR 0x5C" "bv (char_of r) = r"
      using 4 bv_char_of [of r] by (auto simp: defs char_of_iff)
    ultimately show thesis using ascii 4 by (simp add: defs)
  next
    case 5
    then show thesis using multi by (simp add: defs json_rune_def)
  qed
qed

lemma unquote_step_eq: "s \<noteq> [] \<Longrightarrow> unquote_step s = (u, t) \<Longrightarrow> unquote s = u @ unquote t"
  by (simp add: unquote.simps [of s])

lemma scalar_small: "r < 0x80 \<Longrightarrow> scalar r"
  by (simp add: scalar_def)

lemma get_u4_escape: "d \<noteq> CHR ''u'' \<Longrightarrow> get_u4 (CHR 0x5C # d # t) = None"
  by (auto simp: get_u4_def split: list.splits)

lemma escape_not_u: "d \<in> set ''bfnrt/'' \<or> d = CHR 0x5C \<or> d = quote_char \<Longrightarrow> d \<noteq> CHR ''u''"
  by auto

lemma json_rune_read:
  assumes "scalar r"
  shows "unquote (json_rune r @ t) = encode_rune r @ unquote t"
    and "paired (json_rune r @ t) = paired t"
    and "json_chars t \<Longrightarrow> json_chars (json_rune r @ t)"
proof -
  have "unquote (json_rune r @ t) = encode_rune r @ unquote t \<and> paired (json_rune r @ t) = paired t
    \<and> (json_chars t \<longrightarrow> json_chars (json_rune r @ t))"
    using assms
  proof (cases rule: json_rune_cases)
    case (escape d)
    have g: "get_u4 (CHR 0x5C # d # t) = None" by (rule get_u4_escape [OF escape_not_u [OF escape(2)]])
    have c: "unescape_char d = char_of r" using escape(3,4) bv_char_of [of r] by (simp add: bv_inj [symmetric])
    have "unquote_step (CHR 0x5C # d # t) = (encode_rune r, t)" using g c escape(4) by (simp add: unquote_step_def encode1)
    then show ?thesis
      using g escape(1) unquote_step_eq [of "CHR 0x5C # d # t"] json_chars.escape [OF escape(2), of t]
      by (simp add: paired.simps [of "CHR 0x5C # d # t"])
  next
    case unicode
    have g: "get_u4 (CHR 0x5C # CHR ''u'' # hex_number 4 r @ t) = Some (r, t)" by (rule get_u4_number [OF unicode(2)])
    have "unquote_step (CHR 0x5C # CHR ''u'' # hex_number 4 r @ t) = (encode_rune r, t)"
      using g unicode(3) by (simp add: unquote_step_def)
    then have u: "unquote (CHR 0x5C # CHR ''u'' # hex_number 4 r @ t) = encode_rune r @ unquote t"
      by (intro unquote_step_eq) simp_all
    have p: "paired (CHR 0x5C # CHR ''u'' # hex_number 4 r @ t) = paired t"
    proof -
      have "\<not> (0xDC00 \<le> r \<and> r < 0xE000)" "\<not> (0xD800 \<le> r \<and> r < 0xDC00)" using unicode(3) by (auto simp: is_surrogate_def)
      then show ?thesis unfolding paired.simps [of "CHR 0x5C # CHR ''u'' # hex_number 4 r @ t"] g by (simp only: list.case option.case prod.case if_False simp_thms)
    qed
    have "json_chars t \<Longrightarrow> json_chars (CHR 0x5C # CHR ''u'' # hex_number 4 r @ t)"
      using hex4_number [OF unicode(2) hex_number4] json_chars.unicode [of _ _ _ _ t] unfolding hex_number4 by simp
    then show ?thesis using unicode(1) u p by simp
  next
    case (ascii c)
    have "unquote_step (c # t) = (encode_rune r, t)" using ascii by (simp add: unquote_step_def encode1 bv_inj [symmetric] bv_char_of)
    then have "unquote (c # t) = encode_rune r @ unquote t" by (intro unquote_step_eq) simp_all
    then show ?thesis using ascii by (simp add: paired_plain json_chars.plain)
  next
    case multi
    have hi: "\<forall>c \<in> set (encode_rune r). 0x80 \<le> bv c" by (rule multi_bytes [OF assms multi(2)])
    obtain c u where c: "encode_rune r @ t = c # u" "0x80 \<le> bv c"
      using hi encode_rune_nonempty [of r] by (cases "encode_rune r") auto
    have d: "decode_rune (c # u) = (r, length (encode_rune r))" using decode_encode [OF assms, of t] c(1) by simp
    have "unquote_step (c # u) = (encode_rune r, t)"
      using d c high_bytes [OF c(2)] by (simp add: unquote_step_def) (metis append_eq_conv_conj)
    then have "unquote (c # u) = encode_rune r @ unquote t" by (intro unquote_step_eq) simp_all
    then show ?thesis using multi(1) paired_high [OF hi] json_chars_high [OF hi] unfolding c(1) [symmetric] by simp
  qed
  then show "unquote (json_rune r @ t) = encode_rune r @ unquote t" "paired (json_rune r @ t) = paired t"
    "json_chars t \<Longrightarrow> json_chars (json_rune r @ t)" by blast+
qed

lemma paired_Nil [simp]: "paired []"
  by (simp add: paired.simps)

text \<open>A valid string, written as a literal, is read back; an invalid one is repaired.\<close>

lemma json_body_read:
  "valid_string s \<Longrightarrow> unquote (json_body s) = s \<and> paired (json_body s) \<and> json_chars (json_body s)"
proof (induction s rule: json_body.induct)
  case (1 s)
  show ?case
  proof (cases "s = []")
    case True
    then show ?thesis by (simp add: json_body.simps json_chars.none)
  next
    case False
    then have d: "decode_rune s \<noteq> (rune_error, 1)" and v: "valid_string (drop (snd (decode_rune s)) s)"
      using "1.prems" by (simp_all add: valid_string_cons)
    note ed = encode_decode [OF False d]
    have nd: "\<not> (fst (decode_rune s) = rune_error \<and> snd (decode_rune s) = 1)" using d by (simp add: prod_eq_iff)
    have "json_body s = json_rune (fst (decode_rune s)) @ json_body (drop (snd (decode_rune s)) s)"
      using False nd unfolding json_body.simps [of s] Let_def by (simp only: if_False)
    then show ?thesis
      using "1.IH" [OF False refl refl v] ed json_rune_read [of "fst (decode_rune s)"] by simp
  qed
qed

lemma json_body_chars: "json_chars (json_body s)"
proof (induction s rule: json_body.induct)
  case (1 s)
  show ?case
  proof (cases "s = []")
    case True
    then show ?thesis by (simp add: json_body.simps json_chars.none)
  next
    case False
    note IH = "1.IH" [OF False refl refl]
    show ?thesis
    proof (cases "decode_rune s = (rune_error, 1)")
      case True
      have "json_chars (CHR 0x5C # CHR ''u'' # CHR ''f'' # CHR ''f'' # CHR ''f'' # CHR ''d'' # json_body (drop 1 s))"
        by (rule json_chars.unicode) (use IH True in \<open>simp_all add: is_hex_def\<close>)
      then show ?thesis using False True by (simp add: json_body.simps [of s] Let_def)
    next
      case d: False
      have nd: "\<not> (fst (decode_rune s) = rune_error \<and> snd (decode_rune s) = 1)" using d by (simp add: prod_eq_iff)
      have "json_body s = json_rune (fst (decode_rune s)) @ json_body (drop (snd (decode_rune s)) s)"
        using False nd unfolding json_body.simps [of s] Let_def by (simp only: if_False)
      then show ?thesis using IH json_rune_read(3) encode_decode [OF False d] by simp
    qed
  qed
qed

section \<open>Integers\<close>

lemma digits_of_zero: "hd (digits_of n) = CHR ''0'' \<Longrightarrow> n = 0"
proof (induction n rule: digits_of.induct)
  case (1 n)
  show ?case
  proof (cases "n < 10")
    case True
    then have "digits_of n = [char_of (48 + n)]" by (simp add: digits_of.simps [of n])
    then have "char_of (48 + n) = CHR ''0''" using "1.prems" by simp
    then show ?thesis using True by (simp add: char_of_iff)
  next
    case False
    have "digits_of (n div 10) \<noteq> []" using length_digits_pos [of "n div 10"] by auto
    then have "hd (digits_of n) = hd (digits_of (n div 10))" using False by (simp add: digits_of.simps [of n])
    then have "n div 10 = 0" using "1.IH" [OF False] "1.prems" by simp
    then show ?thesis using False by simp
  qed
qed

lemma digits_of_number: "digits_of n = ''0'' \<or> digits (digits_of n) \<and> hd (digits_of n) \<noteq> CHR ''0''"
proof (cases "n = 0")
  case True
  then show ?thesis by (simp add: digits_of.simps [of 0] char_of_iff)
next
  case False
  moreover have "digits (digits_of n)" using digits_are_digits length_digits_pos [of n] by (auto simp: digits_def list_all_iff)
  ultimately show ?thesis using digits_of_zero by blast
qed

lemma string_of_int_number: "json_number (string_of_int i)"
proof -
  have "string_of_int i = (if i < 0 then ''-'' else []) @ digits_of (nat \<bar>i\<bar>) @ [] @ []" by (simp add: string_of_int_def)
  then show ?thesis unfolding json_number_def
    using digits_of_number [of "nat \<bar>i\<bar>"] by (intro exI [of _ "if i < 0 then ''-'' else []"] exI [of _ "digits_of (nat \<bar>i\<bar>)"] exI [of _ "[]"]) auto
qed

lemma parse_int64_string:
  assumes "- (2 ^ 63) \<le> i" and "i < 2 ^ 63"
  shows "parse_int64 (string_of_int i) = Some i"
proof -
  have ds: "list_all is_digit (digits_of n)" "digits_of n \<noteq> []" "hd (digits_of n) \<noteq> CHR ''-''" "hd (digits_of n) \<noteq> CHR ''+''" for n
    proof -
    show "list_all is_digit (digits_of n)" "digits_of n \<noteq> []"
      using digits_are_digits [of n] length_digits_pos [of n] by (auto simp: list_all_iff)
    then have "is_digit (hd (digits_of n))" by (cases "digits_of n") simp_all
    then show "hd (digits_of n) \<noteq> CHR ''-''" "hd (digits_of n) \<noteq> CHR ''+''" using is_digit_no by metis+
  qed
  show ?thesis
  proof (cases "i < 0")
    case True
    then have "string_of_int i = CHR ''-'' # digits_of (nat (- i))" by (simp add: string_of_int_def)
    then show ?thesis using ds True assms by (simp add: parse_int64_def number_digits)
  next
    case False
    then have "string_of_int i = digits_of (nat i)" by (simp add: string_of_int_def)
    then show ?thesis using ds False assms by (simp add: parse_int64_def number_digits)
  qed
qed

section \<open>The trees of written values\<close>

fun raw_of_json :: "json \<Rightarrow> raw" where
  "raw_of_json JNull = RWord ''null''"
| "raw_of_json (JBool b) = RWord (if b then ''true'' else ''false'')"
| "raw_of_json (JInt i) = RWord (string_of_int i)"
| "raw_of_json (JString s) = RStr (json_body s)"
| "raw_of_json (JArray vs) = RArr (map raw_of_json vs)"
| "raw_of_json (JObject ms) = RObj (map (\<lambda>(k, v). (json_body k, raw_of_json v)) ms)"

fun json_depth :: "json \<Rightarrow> nat" where
  "json_depth (JArray vs) = Suc (Max (insert 0 (json_depth ` set vs)))"
| "json_depth (JObject ms) = Suc (Max (insert 0 ((\<lambda>(k, v). json_depth v) ` set ms)))"
| "json_depth v = 0"

lemma json_text_raw: "json_text v = raw_compact (raw_of_json v)"
proof (induction v rule: json_text.induct)
  case (5 vs)
  then have "map json_text vs = map (raw_compact \<circ> raw_of_json) vs" by simp
  then show ?case by (simp only: json_text.simps raw_of_json.simps raw_compact.simps map_map)
next
  case (6 ms)
  then have "map (\<lambda>(k, v). json_string k @ '':'' @ json_text v) ms
      = map ((\<lambda>(k, v). quote_char # k @ quote_char # '':'' @ raw_compact v) \<circ> (\<lambda>(k, v). (json_body k, raw_of_json v))) ms"
    by (auto simp: json_string_def)
  then show ?case by (simp only: json_text.simps raw_of_json.simps raw_compact.simps map_map)
qed (simp_all add: json_string_def)

lemma json_indent_raw: "json_indent ind v = raw_indent ind (raw_of_json v)"
proof (induction ind v rule: json_indent.induct)
  case (1 ind vs)
  have "map (json_indent (ind @ ''  '')) vs = map (raw_indent (ind @ ''  '') \<circ> raw_of_json) vs" if "vs \<noteq> []"
    using 1 [OF that] by simp
  then show ?case
    by (cases "vs = []") (simp_all only: json_indent.simps raw_of_json.simps raw_indent.simps map_map map_is_Nil_conv if_False if_True simp_thms)
next
  case (2 ind ms)
  have "map (\<lambda>(k, v). json_string k @ '': '' @ json_indent (ind @ ''  '') v) ms
      = map ((\<lambda>(k, v). quote_char # k @ quote_char # '': '' @ raw_indent (ind @ ''  '') v) \<circ> (\<lambda>(k, v). (json_body k, raw_of_json v))) ms" if "ms \<noteq> []"
    using 2 [OF that] by (auto simp: json_string_def)
  then show ?case
    by (cases "ms = []") (simp_all only: json_indent.simps raw_of_json.simps raw_indent.simps map_map map_is_Nil_conv if_False if_True simp_thms)
qed (simp_all add: json_string_def)

lemma renders_items_compact:
  "vs \<noteq> [] \<Longrightarrow> (\<And>v. v \<in> set vs \<Longrightarrow> renders d v (raw_compact v)) \<Longrightarrow> renders_items d vs (join_with '','' (map raw_compact vs))"
proof (induction vs)
  case (Cons v vs)
  show ?case
  proof (cases "vs = []")
    case True
    then show ?thesis using json_last_item [of "[]" d v "raw_compact v" "[]"] Cons.prems by simp
  next
    case False
    then show ?thesis using json_more_items [of "[]" d v "raw_compact v" "[]" vs] Cons by (simp add: join_with_cons)
  qed
qed simp

lemma renders_members_compact:
  "ms \<noteq> [] \<Longrightarrow> (\<And>k v. (k, v) \<in> set ms \<Longrightarrow> json_chars k \<and> renders d v (raw_compact v)) \<Longrightarrow>
     renders_members d ms (join_with '','' (map (\<lambda>(k, v). quote_char # k @ quote_char # '':'' @ raw_compact v) ms))"
proof (induction ms)
  case (Cons m ms)
  obtain k v where m: "m = (k, v)" by fastforce
  then have kv: "json_chars k" "renders d v (raw_compact v)" using Cons.prems(2) [of k v] by auto
  show ?case
  proof (cases "ms = []")
    case True
    then show ?thesis using json_last_member [of "[]" k "[]" "[]" d v "raw_compact v" "[]"] kv m by simp
  next
    case False
    have "renders_members d ms (join_with '','' (map (\<lambda>(k, v). quote_char # k @ quote_char # '':'' @ raw_compact v) ms))"
      by (rule Cons.IH [OF False]) (use Cons.prems in auto)
    then show ?thesis using json_more_members [of "[]" k "[]" "[]" d v "raw_compact v" "[]" ms] kv m False by (simp add: join_with_cons)
  qed
qed simp

lemma raw_of_json_renders: "json_depth v \<le> d \<Longrightarrow> renders d (raw_of_json v) (raw_compact (raw_of_json v))"
proof (induction v arbitrary: d rule: json_depth.induct)
  case (1 vs)
  then obtain d' where d: "d = Suc d'" "Max (insert 0 (json_depth ` set vs)) \<le> d'"
    using Suc_le_D [of _ d] by (metis Suc_le_mono json_depth.simps(1))
  have each: "renders d' (raw_of_json v) (raw_compact (raw_of_json v))" if "v \<in> set vs" for v
    using 1 that d(2) by simp
  show ?case
  proof (cases "vs = []")
    case True
    then show ?thesis using json_no_items [of "[]" d'] d(1) by simp
  next
    case False
    have "renders_items d' (map raw_of_json vs) (join_with '','' (map raw_compact (map raw_of_json vs)))"
      by (rule renders_items_compact) (use False each in auto)
    then show ?thesis using json_items d(1) by simp
  qed
next
  case (2 ms)
  then obtain d' where d: "d = Suc d'" "Max (insert 0 ((\<lambda>(k, v). json_depth v) ` set ms)) \<le> d'"
    using Suc_le_D [of _ d] by (metis Suc_le_mono json_depth.simps(2))
  have each: "renders d' (raw_of_json v) (raw_compact (raw_of_json v))" if "(k, v) \<in> set ms" for k v
    using 2 that d(2) by auto
  let ?ms = "map (\<lambda>(k, v). (json_body k, raw_of_json v)) ms"
  show ?case
  proof (cases "ms = []")
    case True
    then show ?thesis using json_no_members [of "[]" d'] d(1) by simp
  next
    case False
    have "renders_members d' ?ms (join_with '','' (map (\<lambda>(k, v). quote_char # k @ quote_char # '':'' @ raw_compact v) ?ms))"
      by (rule renders_members_compact) (use False each json_body_chars in auto)
    then show ?thesis using json_members d(1) by simp
  qed
qed (auto intro!: json_word_rule json_literal json_body_chars simp: json_word_def string_of_int_number)

text \<open>What \<^verbatim>\<open>json.Marshal\<close> and the indenting encoder write parses to the tree of the value.\<close>

lemma parse_json_text: "json_depth v \<le> json_max_depth \<Longrightarrow> parse_json (json_text v) = Some (raw_of_json v)"
  by (simp add: json_text_raw parse_compact raw_ok_def raw_of_json_renders)

lemma parse_json_indent:
  "json_depth v \<le> json_max_depth \<Longrightarrow> blank ind \<Longrightarrow> blank z \<Longrightarrow> parse_json (json_indent ind v @ z) = Some (raw_of_json v)"
  by (simp add: json_indent_raw parse_indent raw_ok_def raw_of_json_renders)

section \<open>Written text is valid UTF-8\<close>

lemma valid_join_commas: "\<forall>s \<in> set xs. valid_string s \<Longrightarrow> valid_string (join_with '','' xs)"
proof (induction xs)
  case (Cons x xs)
  have "valid_string '',''" using ascii_string [of "'',''"] by simp
  then have "valid_string ('','' @ join_with '','' xs)" if "valid_string (join_with '','' xs)"
    using that by (simp only: valid_string_append)
  then show ?case using Cons by (cases "xs = []") (simp_all add: join_with_cons valid_string_append)
qed simp

lemma hex_number_ascii: "\<forall>c \<in> set (hex_number k n). bv c < 0x80"
proof (induction k arbitrary: n)
  case (Suc k)
  have "bv (hex_char (n mod 16)) < 0x80" using hex_char_cases [of "n mod 16"] by (auto simp: is_hex_def is_digit_def)
  then show ?case using Suc by (simp add: hex_char_mod)
qed simp

lemma json_rune_valid:
  assumes "scalar r"
  shows "valid_string (json_rune r)"
  using assms
proof (cases rule: json_rune_cases)
  case (escape d)
  then show ?thesis by (intro ascii_valid) auto
next
  case unicode
  then show ?thesis using hex_number_ascii by (intro ascii_valid) auto
next
  case (ascii c)
  then show ?thesis by (intro ascii_valid) auto
next
  case multi
  have "valid_string (string_of_runes [r])" using runes_string_of_runes [of "[r]"] assms by simp
  then show ?thesis using multi by (simp add: string_of_runes_def)
qed

lemma json_body_runes: "valid_string s \<Longrightarrow> json_body s = concat (map json_rune (runes s))"
proof (induction s rule: valid_string.induct)
  case (1 s)
  show ?case
  proof (cases "s = []")
    case False
    then have d: "decode_rune s \<noteq> (rune_error, 1)" and v: "valid_string (drop (snd (decode_rune s)) s)"
      using "1.prems" by (simp_all add: valid_string_cons)
    have nd: "\<not> (fst (decode_rune s) = rune_error \<and> snd (decode_rune s) = 1)" using d by (simp add: prod_eq_iff)
    have "json_body s = json_rune (fst (decode_rune s)) @ json_body (drop (snd (decode_rune s)) s)"
      using False nd unfolding json_body.simps [of s] Let_def by (simp only: if_False)
    then show ?thesis using "1.IH" [OF False v] False by (simp add: runes_cons)
  qed (simp add: json_body.simps)
qed

lemma digits_ascii: "\<forall>c \<in> set (string_of_int i). bv c < 0x80"
proof -
  have "bv c < 0x80" if "c \<in> set (digits_of n)" for c n
    using digits_are_digits [of n] that by (fastforce simp: is_digit_def)
  then show ?thesis by (auto simp: string_of_int_def)
qed

end
