(* ===== verification/Textop_Json.thy ===== *)
theory Textop_Json
  imports Textop_Builder Json_String
begin

text \<open>
  The JSON form of text operations, \<^verbatim>\<open>internal/core/textop/json.go\<close>: \<open>Parse\<close> reads the
  array element by element from a decoder, so that the first error met is the one reported,
  and \<open>MarshalJSON\<close> writes it. What is written is read back, and what is read is a canonical
  operation within the limits.
\<close>

section \<open>Reading\<close>

text \<open>\<open>validEscapes\<close> on the text between the quotes.\<close>

function valid_escapes :: "string \<Rightarrow> textop_error option" where
  "valid_escapes s =
    (case s of [] \<Rightarrow> None
     | c # s1 \<Rightarrow>
       if c \<noteq> CHR 0x5C then valid_escapes s1
       else if s1 = [] then Some ErrInvalidJSON
       else if hd s1 \<noteq> CHR ''u'' then valid_escapes (tl s1)
       else (case get_u4 s of
            None \<Rightarrow> Some ErrInvalidJSON
          | Some (u, s2) \<Rightarrow>
            if 0xDC00 \<le> u \<and> u \<le> 0xDFFF then Some ErrInvalidUnicode
            else if u < 0xD800 \<or> u > 0xDBFF then valid_escapes s2
            else (case get_u4 s2 of
                None \<Rightarrow> Some ErrInvalidUnicode
              | Some (v, s3) \<Rightarrow> if v < 0xDC00 \<or> v > 0xDFFF then Some ErrInvalidUnicode else valid_escapes s3)))"
  by pat_completeness auto
termination by (relation "measure length") (auto dest!: get_u4_shorter)

declare valid_escapes.simps [simp del]

text \<open>One component, given to the builder; the kind is returned for the canonical check.\<close>

definition add_component :: "limits \<Rightarrow> raw \<Rightarrow> builder \<Rightarrow> textop_error + (kind \<times> builder)" where
  "add_component l v b =
    (case v of
       RStr body \<Rightarrow>
         (case valid_escapes body of Some e \<Rightarrow> Inl e
          | None \<Rightarrow> let s = unquote body in if s = [] then Inl ErrNonCanonical else Inr (Insert, insert_string s b))
     | RWord w \<Rightarrow>
         (case parse_int64 w of None \<Rightarrow> Inl ErrInvalidCount
          | Some n \<Rightarrow>
            if n = 0 then Inl ErrNonCanonical
            else if n > MaxUnits l \<or> n < - MaxUnits l then Inl ErrLimit
            else if n > 0 then Inr (Retain, retain n b)
            else Inr (DeleteText, delete (- n) b))
     | _ \<Rightarrow> Inl ErrInvalidCount)"

text \<open>The decoder's next element; a comma comes before every element but the first.\<close>

definition next_element :: "bool \<Rightarrow> string \<Rightarrow> (raw \<times> string) option" where
  "next_element first s =
    (let s1 = skip_ws s in
     if first then parse_value json_max_depth (2 * length s1 + 2) s1
     else if s1 \<noteq> [] \<and> hd s1 = CHR '','' then parse_value json_max_depth (2 * length s1 + 2) (tl s1)
     else None)"

lemma parse_value_shorter: "parse_value d n s = Some (v, r) \<Longrightarrow> length r < length s"
  using parse_sound(1) [of d n s v r] renders_hd [of d v] by fastforce

lemma skip_ws_length: "length (skip_ws s) \<le> length s"
  by (simp add: skip_ws_def length_dropWhile_le)

lemma next_element_shorter: "next_element first s = Some (v, r) \<Longrightarrow> length r < length s"
proof -
  assume e: "next_element first s = Some (v, r)"
  let ?s = "skip_ws s" and ?n = "2 * length (skip_ws s) + 2"
  note le = skip_ws_length [of s]
  consider "parse_value json_max_depth ?n ?s = Some (v, r)" | "parse_value json_max_depth ?n (tl ?s) = Some (v, r)" "?s \<noteq> []"
    using e by (auto simp: next_element_def Let_def split: if_splits)
  then show ?thesis
  proof cases
    case 1
    then show ?thesis using parse_value_shorter [OF 1] le by simp
  next
    case 2
    then show ?thesis using parse_value_shorter [OF 2(1)] le by simp
  qed
qed

function parse_comps :: "limits \<Rightarrow> builder \<Rightarrow> kind \<Rightarrow> int \<Rightarrow> string \<Rightarrow> textop_error + (builder \<times> string)" where
  "parse_comps l b prev count s =
    (let s1 = skip_ws s in
     if s1 = [] \<or> hd s1 = CHR '']'' \<or> hd s1 = CHR ''}'' then Inr (b, s)
     else if count \<ge> MaxComponents l then Inl ErrLimit
     else case next_element (count = 0) s of
       None \<Rightarrow> Inl ErrInvalidJSON
     | Some (v, r) \<Rightarrow>
       (case add_component l v b of
          Inl e \<Rightarrow> Inl e
        | Inr (k, b1) \<Rightarrow>
          if count > 0 \<and> (prev = k \<or> prev = DeleteText \<and> k = Insert) then Inl ErrNonCanonical
          else (case b_err b1 of Some e \<Rightarrow> Inl e | None \<Rightarrow> parse_comps l b1 k (count + 1) r)))"
  by pat_completeness auto
termination by (relation "measure (\<lambda>(_, _, _, _, s). length s)") (auto dest!: next_element_shorter)

declare parse_comps.simps [simp del]

definition textop_parse :: "limits \<Rightarrow> string \<Rightarrow> textop_error + op" where
  "textop_parse l raw =
    rbind (limits_check l) (\<lambda>_.
    if int (length raw) > MaxJSONBytes l then Inl ErrLimit
    else if \<not> valid_string raw then Inl ErrInvalidUTF8
    else case skip_ws raw of [] \<Rightarrow> Inl ErrInvalidJSON
      | c # s \<Rightarrow>
        if c \<noteq> CHR ''['' then Inl ErrInvalidJSON
        else rbind (new_builder l) (\<lambda>b.
          rbind (parse_comps l b Retain 0 s) (\<lambda>(b1, r).
            case skip_ws r of [] \<Rightarrow> Inl ErrInvalidJSON
            | e # z \<Rightarrow> if e = CHR '']'' \<and> skip_ws z = [] then builder_op b1 else Inl ErrInvalidJSON)))"

definition textop_parse_default :: "string \<Rightarrow> textop_error + op" where
  "textop_parse_default raw = textop_parse default_limits raw"

section \<open>Writing\<close>

definition comp_json :: "component \<Rightarrow> json" where
  "comp_json c = (case c_kind c of
     Retain \<Rightarrow> JInt (c_n c) | DeleteText \<Rightarrow> JInt (- c_n c)
   | Insert \<Rightarrow> JString (string_of_runes (decode_utf16 (c_u c))))"

definition marshal_op :: "op \<Rightarrow> string" where
  "marshal_op o1 = ''['' @ join_with '','' (map (\<lambda>c. json_text (comp_json c)) (comps o1)) @ '']''"

section \<open>What is read is canonical\<close>

lemma add_component_ok:
  assumes "builder_ok b" and "add_component l v b = Inr (k, b1)"
  shows "builder_ok b1 \<and> b_limits b1 = b_limits b"
proof -
  have ret: "builder_ok (retain n b) \<and> b_limits (retain n b) = b_limits b" if "0 < n" for n
    using emit_step [OF assms(1), of "mk_retain n"] that by (simp add: emit_def)
  have del: "builder_ok (delete n b) \<and> b_limits (delete n b) = b_limits b" if "0 < n" for n
    using emit_step [OF assms(1), of "mk_delete n"] that by (simp add: emit_def)
  have ins: "builder_ok (insert_string s b) \<and> b_limits (insert_string s b) = b_limits b" for s
    using emit_step [OF assms(1), of "mk_insert (units_of_runes (runes s))"] assms(1) valid_string_runes [of s]
    by (auto simp: insert_string_eq builder_ok_def)
  show ?thesis
    using assms(2) ret del ins by (auto simp: add_component_def Let_def split: raw.splits option.splits if_splits)
qed

lemma parse_comps_ok:
  "builder_ok b \<Longrightarrow> parse_comps l b prev count s = Inr (b1, r) \<Longrightarrow> builder_ok b1 \<and> b_limits b1 = b_limits b"
proof (induction l b prev count s rule: parse_comps.induct)
  case (1 l b prev count s)
  show ?case
  proof (cases "skip_ws s = [] \<or> hd (skip_ws s) = CHR '']'' \<or> hd (skip_ws s) = CHR ''}''")
    case True
    then show ?thesis using "1.prems" by (simp add: parse_comps.simps [of l b])
  next
    case False
    have c: "\<not> count \<ge> MaxComponents l"
      using "1.prems"(2) False by (auto simp: parse_comps.simps [of l b] Let_def)
    obtain v r1 where v: "next_element (count = 0) s = Some (v, r1)"
      using "1.prems"(2) False c by (auto simp: parse_comps.simps [of l b] Let_def split: option.splits)
    obtain k b2 where k: "add_component l v b = Inr (k, b2)"
      using "1.prems"(2) False c v by (auto simp: parse_comps.simps [of l b] Let_def split: sum.splits)
    have nc: "\<not> (count > 0 \<and> (prev = k \<or> prev = DeleteText \<and> k = Insert))"
      using "1.prems"(2) False c v k by (auto simp: parse_comps.simps [of l b] Let_def split: if_splits)
    have e: "b_err b2 = None"
      using "1.prems"(2) False c v k nc by (auto simp: parse_comps.simps [of l b] Let_def split: if_splits option.splits)
    have rest: "parse_comps l b2 k (count + 1) r1 = Inr (b1, r)"
      using "1.prems"(2) False c v k nc e by (simp add: parse_comps.simps [of l b] Let_def split: if_splits)
    note ok = add_component_ok [OF "1.prems"(1) k]
    show ?thesis using "1.IH" [OF refl False c v refl k refl nc e _ rest] ok by simp
  qed
qed

lemma textop_parse_cases:
  assumes "textop_parse l raw = Inr o1"
  obtains s b b1 r where "limits_check l = Inr ()" "new_builder l = Inr b"
    "parse_comps l b Retain 0 s = Inr (b1, r)" "builder_op b1 = Inr o1"
proof -
  have l: "limits_check l = Inr ()" using assms by (cases "limits_check l") (auto simp: textop_parse_def)
  obtain c s where s: "skip_ws raw = c # s" using assms l by (auto simp: textop_parse_def split: if_splits list.splits)
  obtain b where b: "new_builder l = Inr b"
    using assms l s by (cases "new_builder l") (auto simp: textop_parse_def split: if_splits)
  obtain b1 r where r: "parse_comps l b Retain 0 s = Inr (b1, r)"
    using assms l s b by (cases "parse_comps l b Retain 0 s") (auto simp: textop_parse_def split: if_splits)
  have "builder_op b1 = Inr o1"
    using assms l s b r by (auto simp: textop_parse_def split: if_splits list.splits)
  then show thesis using that l b r by blast
qed

lemma textop_parse_ok:
  assumes "textop_parse l raw = Inr o1"
  shows "op_ok o1 \<and> admit l o1 = Inr () \<and> op_base o1 < 2 ^ 53 \<and> op_target o1 < 2 ^ 53"
proof -
  obtain s b b1 r where b: "limits_check l = Inr ()" "new_builder l = Inr b"
    "parse_comps l b Retain 0 s = Inr (b1, r)" "builder_op b1 = Inr o1"
    by (rule textop_parse_cases [OF assms])
  note nb = new_builder_ok [OF b(2)]
  have b1: "builder_ok b1" "b_limits b1 = l" using parse_comps_ok [OF _ b(3)] nb by simp_all
  have o1: "op_ok o1" "admit l o1 = Inr ()" using builder_op_ok [OF b1(1) b(4)] b1(2) by simp_all
  have "op_base o1 \<le> MaxUnits l" "op_target o1 \<le> MaxUnits l" using o1(2) by (simp_all add: admit_Inr)
  moreover have "MaxUnits l < 2 ^ 53" using b(1) by (simp add: limits_check_Inr)
  ultimately show ?thesis using o1 by linarith
qed

section \<open>What is written is read back\<close>

lemma valid_escapes_rune:
  assumes "scalar r"
  shows "valid_escapes (json_rune r @ t) = valid_escapes t"
  using assms
proof (cases rule: json_rune_cases)
  case (escape d)
  then show ?thesis using escape_not_u [OF escape(2)] by (simp add: valid_escapes.simps [of "CHR 0x5C # d # t"])
next
  case unicode
  let ?s = "CHR 0x5C # CHR ''u'' # hex_number 4 r @ t"
  have g: "get_u4 ?s = Some (r, t)" by (rule get_u4_number [OF unicode(2)])
  have "\<not> (0xDC00 \<le> r \<and> r \<le> 0xDFFF)" "r < 0xD800 \<or> r > 0xDBFF" using unicode(3) by (auto simp: is_surrogate_def)
  then have "valid_escapes ?s = valid_escapes t"
    unfolding valid_escapes.simps [of ?s] g by (simp only: list.case option.case prod.case if_False if_True simp_thms list.sel list.distinct)
  then show ?thesis using unicode(1) by simp
next
  case (ascii c)
  then show ?thesis by (simp add: valid_escapes.simps [of "c # t"])
next
  case multi
  have "valid_escapes (u @ t) = valid_escapes t" if "\<forall>c \<in> set u. 0x80 \<le> bv c" for u
    using that high_bytes by (induction u) (auto simp: valid_escapes.simps [of "_ # _"])
  then show ?thesis using multi_bytes [OF assms multi(2)] multi(1) by simp
qed

lemma valid_escapes_Nil [simp]: "valid_escapes [] = None"
  by (simp add: valid_escapes.simps)

lemma json_body_valid: "valid_string s \<Longrightarrow> valid_string (json_body s) \<and> valid_escapes (json_body s) = None"
proof -
  assume s: "valid_string s"
  have "\<forall>r \<in> set rs. scalar r \<Longrightarrow> valid_string (concat (map json_rune rs)) \<and> valid_escapes (concat (map json_rune rs)) = None" for rs
    by (induction rs) (simp_all add: valid_string_append json_rune_valid valid_escapes_rune)
  then show ?thesis using json_body_runes [OF s] valid_string_runes [OF s] by simp
qed

lemma comp_text_valid:
  assumes "comp_ok c"
  shows "valid_string (json_text (comp_json c))"
  using assms
proof (cases rule: comp_ok_cases)
  case (insert u)
  let ?s = "string_of_runes (decode_utf16 u)"
  have "valid_string ?s" using encode_decode_utf16 [OF insert(2)] runes_string_of_runes by blast
  then have "valid_string (json_body ?s @ [quote_char])" using json_body_valid by (simp add: valid_string_append ascii_valid)
  then have "valid_string ([quote_char] @ json_body ?s @ [quote_char])" by (subst valid_string_append) (simp_all add: ascii_valid)
  then show ?thesis using insert by (simp add: comp_json_def json_string_def)
qed (simp_all add: comp_json_def ascii_valid digits_ascii)

text \<open>Giving the builder the next canonical component appends it.\<close>

definition push :: "component \<Rightarrow> builder \<Rightarrow> builder" where
  "push c b = b\<lparr>b_comps := b_comps b @ [c], b_base := b_base b + consumes c, b_target := b_target b + produces c\<rparr>"

lemma emit_push:
  assumes "builder_ok b" "b_err b = None" "canonical (b_comps b @ [c])"
    and "b_base b + consumes c \<le> MaxUnits (b_limits b)" "b_target b + produces c \<le> MaxUnits (b_limits b)"
    and "int (length (b_comps b)) < MaxComponents (b_limits b)"
  shows "emit c b = push c b"
proof -
  have c: "comp_ok c" "0 < c_n c" using assms(3) by (simp_all add: canonical_snoc)
  have fol: "b_comps b \<noteq> [] \<Longrightarrow> follows (b_comps b ! (length (b_comps b) - Suc 0)) c"
    using assms(3) by (simp add: canonical_snoc last_conv_nth)
  have conf: "b_configured b" using assms(1) by (simp add: builder_ok_def)
  have i: "nat (int (length xs) - 1) = length xs - Suc 0" "0 \<le> int (length xs) - 1 \<longleftrightarrow> xs \<noteq> []" for xs :: "component list"
    by (cases xs; simp)+
  from c(1) show ?thesis
  proof (cases rule: comp_ok_cases)
    case (retain n)
    then show ?thesis using assms(2,4-6) c fol conf
      by (auto simp: emit_def Textop_Builder.retain_def grow_def merge_last_def append_comp_def push_def Let_def i follows_def)
  next
    case (insert u)
    then show ?thesis using assms(2,4-6) c fol conf
      by (auto simp: emit_def insert_units_def grow_def place_insert_def append_comp_def push_def Let_def i follows_def)
  next
    case (delete n)
    then show ?thesis using assms(2,4-6) c fol conf
      by (auto simp: emit_def Textop_Builder.delete_def grow_def merge_last_def append_comp_def push_def Let_def i follows_def)
  qed
qed

lemma add_component_push:
  assumes "builder_ok b" "b_err b = None" "canonical (b_comps b @ [c])" "b_limits b = l"
    and "b_base b + consumes c \<le> MaxUnits l" "b_target b + produces c \<le> MaxUnits l"
    and "int (length (b_comps b)) < MaxComponents l"
  shows "add_component l (raw_of_json (comp_json c)) b = Inr (c_kind c, push c b)"
proof -
  have e: "emit c b = push c b" using emit_push assms by simp
  have c: "comp_ok c" "0 < c_n c" using assms(3) by (simp_all add: canonical_snoc)
  have lim: "MaxUnits l < 2 ^ 53" "0 \<le> b_base b" "0 \<le> b_target b"
    using assms(1,2,4) consumed_nonneg produced_nonneg by (auto simp: builder_ok_def limits_check_Inr canonical_all_ok)
  from c(1) show ?thesis
  proof (cases rule: comp_ok_cases)
    case (retain n)
    have "parse_int64 (string_of_int n) = Some n" using parse_int64_string [of n] retain c lim assms(5) by auto
    then show ?thesis using retain c lim assms(5) e by (simp add: add_component_def comp_json_def emit_def)
  next
    case (insert u)
    let ?s = "string_of_runes (decode_utf16 u)"
    note u = encode_decode_utf16 [OF insert(2)]
    have s: "runes ?s = decode_utf16 u" "valid_string ?s" using u runes_string_of_runes by blast+
    have "?s \<noteq> []" using s(1) u c(2) insert(1) by (auto simp: units_of_runes_def)
    moreover have "insert_string ?s b = push c b" using insert_string_eq [OF assms(1), of ?s] assms(2) s u insert(1) e by simp
    ultimately show ?thesis using insert json_body_valid [OF s(2)] json_body_read [OF s(2)]
      by (simp add: add_component_def comp_json_def)
  next
    case (delete n)
    have "parse_int64 (string_of_int (- n)) = Some (- n)" using parse_int64_string [of "- n"] delete c lim assms(5) by auto
    then show ?thesis using delete c lim assms(5) e by (simp add: add_component_def comp_json_def emit_def)
  qed
qed

text \<open>
  Two writers spell the components: \<open>MarshalJSON\<close>, with the escapes of \<^verbatim>\<open>encoding/json\<close>,
  and the wire codec, which copies that text with the escapes of \<^verbatim>\<open>jsontext\<close>. What the
  parser needs of either is the contract of this locale: a tree for every component that is
  written as valid UTF-8 and gives the builder the same component.
\<close>

definition comma_texts :: "(component \<Rightarrow> raw) \<Rightarrow> component list \<Rightarrow> string" where
  "comma_texts tree cs = concat (map (\<lambda>c. CHR '','' # raw_compact (tree c)) cs)"

lemma comma_texts_simps [simp]:
  "comma_texts tree [] = []" "comma_texts tree (c # cs) = CHR '','' # raw_compact (tree c) @ comma_texts tree cs"
  by (simp_all add: comma_texts_def)

lemma join_comma_texts: "join_with '','' (map (\<lambda>c. raw_compact (tree c)) cs) = tl (comma_texts tree cs)"
proof (cases cs)
  case (Cons c ds)
  have "join_with '','' (map (\<lambda>c. raw_compact (tree c)) (c # ds)) = raw_compact (tree c) @ comma_texts tree ds" for c
    by (induction ds arbitrary: c) simp_all
  then show ?thesis using Cons by simp
qed simp

locale component_texts =
  fixes tree :: "component \<Rightarrow> raw"
  assumes tree_renders: "comp_ok c \<Longrightarrow> renders json_max_depth (tree c) (raw_compact (tree c))"
    and tree_valid: "comp_ok c \<Longrightarrow> valid_string (raw_compact (tree c))"
    and tree_read: "comp_ok c \<Longrightarrow> add_component l (tree c) b = add_component l (raw_of_json (comp_json c)) b"
begin

lemma next_element_text:
  fixes c :: component and cs :: "component list" and first :: bool
  defines "t \<equiv> raw_compact (tree c) @ comma_texts tree cs @ '']''"
  defines "s \<equiv> if first then t else CHR '','' # t"
  assumes "comp_ok c"
  shows "next_element first s = Some (tree c, comma_texts tree cs @ '']'')"
    and "skip_ws s \<noteq> [] \<and> hd (skip_ws s) \<noteq> CHR '']'' \<and> hd (skip_ws s) \<noteq> CHR ''}''"
proof -
  note r = tree_renders [OF assms(3)]
  obtain d u where hd: "raw_compact (tree c) = d # u" "\<not> is_ws d" "d \<noteq> CHR '']''" "d \<noteq> CHR ''}''" using renders_hd [OF r] by blast
  have ends: "ends_word (comma_texts tree cs @ '']'')"
    using ends_word_rest [of "[]"] by (cases cs) auto
  have p: "parse_value json_max_depth n t = Some (tree c, comma_texts tree cs @ '']'')" if "2 * length t \<le> n" for n
    using parse_complete(1) [OF r _ ends, of "[]" n] that by (simp add: t_def)
  have sk: "skip_ws s = s" using hd by (auto simp: s_def t_def skip_ws_id not_ws)
  show "next_element first s = Some (tree c, comma_texts tree cs @ '']'')"
  proof (cases first)
    case True
    then show ?thesis using p [of "2 * length s + 2"] unfolding next_element_def sk Let_def by (simp only: s_def if_True)
  next
    case False
    then have "tl s = t" "s \<noteq> []" "hd s = CHR '',''" by (simp_all add: s_def)
    moreover have "parse_value json_max_depth (2 * length s + 2) t = Some (tree c, comma_texts tree cs @ '']'')"
      by (rule p) (simp add: s_def)
    ultimately show ?thesis using False unfolding next_element_def sk Let_def by (simp only: if_False if_True simp_thms)
  qed
  show "skip_ws s \<noteq> [] \<and> hd (skip_ws s) \<noteq> CHR '']'' \<and> hd (skip_ws s) \<noteq> CHR ''}''"
    unfolding sk using hd by (auto simp: s_def t_def)
qed

lemma parse_comps_text:
  assumes "builder_ok b" "b_err b = None" "b_limits b = l" "canonical (b_comps b @ cs)"
    and "b_base b + consumed cs \<le> MaxUnits l" "b_target b + produced cs \<le> MaxUnits l"
    and "int (length (b_comps b @ cs)) \<le> MaxComponents l"
    and "b_comps b \<noteq> [] \<Longrightarrow> prev = c_kind (last (b_comps b))"
  shows "parse_comps l b prev (int (length (b_comps b))) ((if b_comps b = [] then tl (comma_texts tree cs) else comma_texts tree cs) @ '']'')
      = Inr (fold push cs b, '']'')"
  using assms
proof (induction cs arbitrary: b prev)
  case Nil
  then show ?case by (simp add: parse_comps.simps [of l b] skip_ws_id not_ws)
next
  case (Cons c cs)
  let ?n = "int (length (b_comps b))"
  let ?t = "raw_compact (tree c) @ comma_texts tree cs @ '']''"
  let ?s = "if b_comps b = [] then ?t else CHR '','' # ?t"
  have all: "all_ok cs" "canonical ((b_comps b @ [c]) @ cs)" using canonical_all_ok [OF Cons.prems(4)] Cons.prems(4) by simp_all
  then have can: "canonical (b_comps b @ [c])" by (auto simp: canonical_def successively_append_iff)
  then have c: "comp_ok c" by (simp add: canonical_snoc)
  note el = next_element_text [OF c, of "b_comps b = []" cs]
  have sums: "0 \<le> consumed cs" "0 \<le> produced cs" using all by (simp_all add: consumed_nonneg produced_nonneg)
  have add: "add_component l (tree c) b = Inr (c_kind c, push c b)"
    unfolding tree_read [OF c] using add_component_push [OF Cons.prems(1,2) can Cons.prems(3)] Cons.prems(5-7) sums by simp
  note ok = add_component_ok [OF Cons.prems(1) add]
  have nc: "\<not> (?n > 0 \<and> (prev = c_kind c \<or> prev = DeleteText \<and> c_kind c = Insert))"
    using can Cons.prems(8) by (auto simp: canonical_snoc follows_def)
  have "parse_comps l (push c b) (c_kind c) (int (length (b_comps (push c b)))) ((if b_comps (push c b) = [] then tl (comma_texts tree cs) else comma_texts tree cs) @ '']'')
      = Inr (fold push cs (push c b), '']'')"
    by (rule Cons.IH) (use ok Cons.prems(2,3,5-7) all(2) in \<open>auto simp: push_def algebra_simps\<close>)
  then have IH: "parse_comps l (push c b) (c_kind c) (?n + 1) (comma_texts tree cs @ '']'') = Inr (fold push cs (push c b), '']'')"
    by (simp add: push_def add.commute)
  have "b_err (push c b) = None" using Cons.prems(2) by (simp add: push_def)
  moreover have "\<not> ?n \<ge> MaxComponents l" using Cons.prems(7) by simp
  moreover have "?n = 0 \<longleftrightarrow> b_comps b = []" by simp
  ultimately have "parse_comps l b prev ?n ?s = Inr (fold push cs (push c b), '']'')"
    using el add nc IH unfolding parse_comps.simps [of l b prev ?n ?s] Let_def
    by (simp only: if_False simp_thms option.case prod.case sum.case)
  moreover have "(if b_comps b = [] then tl (comma_texts tree (c # cs)) else comma_texts tree (c # cs)) @ '']'' = ?s" by simp
  ultimately show ?case by (simp only: fold_simps)
qed

lemma texts_valid: "all_ok cs \<Longrightarrow> valid_string (''['' @ join_with '','' (map (\<lambda>c. raw_compact (tree c)) cs) @ '']'')"
proof -
  assume "all_ok cs"
  then have "valid_string (join_with '','' (map (\<lambda>c. raw_compact (tree c)) cs))" (is "valid_string ?j")
    by (intro valid_join_commas) (auto simp: tree_valid all_ok_def list_all_iff)
  then have "valid_string (?j @ '']'')" by (simp add: valid_string_append ascii_valid)
  then show ?thesis by (subst valid_string_append) (simp_all add: ascii_valid)
qed

lemma fold_push:
  "fold push cs b = b\<lparr>b_comps := b_comps b @ cs, b_base := b_base b + consumed cs, b_target := b_target b + produced cs\<rparr>"
  by (induction cs arbitrary: b) (simp_all add: push_def algebra_simps)

lemma parse_texts:
  fixes o1 :: op
  defines "t \<equiv> ''['' @ join_with '','' (map (\<lambda>c. raw_compact (tree c)) (comps o1)) @ '']''"
  assumes "limits_check l = Inr ()" "op_ok o1" "admit l o1 = Inr ()" "int (length t) \<le> MaxJSONBytes l"
  shows "textop_parse l t = Inr o1"
proof -
  obtain b where b: "new_builder l = Inr b" using assms(2) by (simp add: new_builder_def)
  note nb = new_builder_ok [OF b]
  have z: "b_base b = 0" "b_target b = 0" using b assms(2) by (auto simp: new_builder_def zero_builder_def)
  let ?r = "tl (comma_texts tree (comps o1)) @ '']''"
  have m: "t = CHR ''['' # ?r" by (simp add: t_def join_comma_texts)
  have p: "parse_comps l b Retain 0 ?r = Inr (fold push (comps o1) b, '']'')"
    using parse_comps_text [of b l "comps o1" Retain] nb z assms(3,4) by (simp add: op_ok_def admit_Inr)
  have o1: "builder_op (fold push (comps o1) b) = Inr o1"
    using nb z assms(3) by (simp add: fold_push builder_op_def builder_ok_def op_ok_def)
  have v: "valid_string t" unfolding t_def by (rule texts_valid) (use assms(3) in \<open>simp add: op_ok_def canonical_all_ok\<close>)
  show ?thesis using v assms(2,5) b p o1 unfolding textop_parse_def m
    by (simp add: skip_ws_id not_ws) (simp add: skip_ws_def)
qed

end

interpretation json: component_texts "\<lambda>c. raw_of_json (comp_json c)"
proof
  fix c :: component and l b
  assume c: "comp_ok c"
  have "json_depth (comp_json c) \<le> json_max_depth" by (simp add: comp_json_def split: kind.split)
  then show "renders json_max_depth (raw_of_json (comp_json c)) (raw_compact (raw_of_json (comp_json c)))" by (rule raw_of_json_renders)
  show "valid_string (raw_compact (raw_of_json (comp_json c)))" using comp_text_valid [OF c] by (simp add: json_text_raw)
qed simp

lemma parse_marshal:
  assumes "limits_check l = Inr ()" "op_ok o1" "admit l o1 = Inr ()" "int (length (marshal_op o1)) \<le> MaxJSONBytes l"
  shows "textop_parse l (marshal_op o1) = Inr o1"
  using json.parse_texts [of l o1] assms by (simp add: marshal_op_def json_text_raw)

section \<open>Properties\<close>

text \<open>C38: what \<open>MarshalJSON\<close> writes for a canonical operation within the limits, \<open>Parse\<close>
  reads back as that operation, if the text itself is within the limit.\<close>

theorem op_json_roundtrip:
  assumes "limits_check l = Inr ()" "op_ok o1" "admit l o1 = Inr ()" "int (length (marshal_op o1)) \<le> MaxJSONBytes l"
  shows "textop_parse l (marshal_op o1) = Inr o1"
  by (rule parse_marshal [OF assms])

text \<open>Three units kept, a letter and a character outside the BMP inserted, two units deleted.\<close>

definition json_sample :: op where
  "json_sample = \<lparr>comps = [mk_retain 3, mk_insert [0x22, 0xD83D, 0xDE00], mk_delete 2], op_base = 5, op_target = 6\<rparr>"

lemma json_sample_ok: "op_ok json_sample" "admit default_limits json_sample = Inr ()"
  by (simp_all add: json_sample_def op_ok_def canonical_def follows_def is_hi_def is_lo_def word_le_nat_alt admit_def default_limits_def)

lemma op_json_roundtrip_witness:
  "textop_parse (default_limits\<lparr>MaxJSONBytes := int (length (marshal_op json_sample)) + 1\<rparr>) (marshal_op json_sample) = Inr json_sample"
  by (rule op_json_roundtrip) (use json_sample_ok in \<open>auto simp: admit_Inr limits_check_Inr default_limits_def\<close>)

text \<open>whatever text \<open>Parse\<close> accepts, the operation is canonical, within the limits, and its
  two lengths fit a JSON number.\<close>

theorem parsed_op_canonical:
  assumes "textop_parse l raw = Inr o1"
  shows "op_ok o1 \<and> admit l o1 = Inr () \<and> op_base o1 < 2 ^ 53 \<and> op_target o1 < 2 ^ 53"
  by (rule textop_parse_ok [OF assms])

lemma parsed_op_canonical_witness:
  "\<exists>o1. textop_parse default_limits ''[3]'' = Inr o1 \<and> op_ok o1 \<and> op_base o1 < 2 ^ 53"
proof -
  let ?o = "\<lparr>comps = [mk_retain 3], op_base = 3, op_target = 3\<rparr>"
  have o1: "op_ok ?o" "admit default_limits ?o = Inr ()" by (simp_all add: op_ok_def canonical_def admit_def default_limits_def)
  have m: "marshal_op ?o = ''[3]''"
    by (simp add: marshal_op_def comp_json_def string_of_int_def digits_of.simps [of 3] char_of_iff)
  have "textop_parse default_limits ''[3]'' = Inr ?o"
    using parse_marshal [OF default_limits_ok o1] unfolding m by (simp add: default_limits_def)
  then show ?thesis using parsed_op_canonical [of default_limits "''[3]''" ?o] by blast
qed

end
