(* ===== verification/Ids.thy ===== *)
theory Ids
  imports Prelude
begin

unbundle bit_operations_syntax

text \<open>
  UUIDv7 identities and JavaScript-safe counters: \<^verbatim>\<open>internal/core/ids/ids.go\<close>. A
  \<^verbatim>\<open>[16]byte\<close> is a list of sixteen 8-bit words. The entropy reader is an argument: what
  \<^verbatim>\<open>io.ReadFull\<close> of ten bytes returns, or \<open>None\<close> for a nil reader.
\<close>

type_synonym byte = "8 word"

datatype ids_error = ErrInvalidID | ErrUnsafeInt | ErrEntropy string

type_synonym entropy = "(string + byte list) option"

definition MaxSafe :: int where
  "MaxSafe = 2 ^ 53 - 1"

definition version_valid :: "int \<Rightarrow> bool" where
  "version_valid v \<longleftrightarrow> 1 \<le> v \<and> v \<le> MaxSafe"

definition seq_valid :: "int \<Rightarrow> bool" where
  "seq_valid s \<longleftrightarrow> 0 \<le> s \<and> s \<le> MaxSafe"

section \<open>Hexadecimal text\<close>

definition hex_lower :: "char \<Rightarrow> bool" where
  "hex_lower c \<longleftrightarrow> \<not> ((bv c < 48 \<or> bv c > 57) \<and> (bv c < 97 \<or> bv c > 102))"

definition hex_digit :: "nat \<Rightarrow> char" where
  "hex_digit n = (if n < 10 then char_of (48 + n) else char_of (87 + n))"

definition hex_value :: "char \<Rightarrow> nat" where
  "hex_value c = (if bv c \<le> 57 then bv c - 48 else bv c - 87)"

definition hex_byte :: "byte \<Rightarrow> string" where
  "hex_byte b = [hex_digit (unat b div 16), hex_digit (unat b mod 16)]"

definition hex_encode :: "byte list \<Rightarrow> string" where
  "hex_encode bs = concat (map hex_byte bs)"

fun hex_decode :: "string \<Rightarrow> byte list" where
  "hex_decode (c # d # s) = word_of_nat (hex_value c * 16 + hex_value d) # hex_decode s"
| "hex_decode _ = []"

section \<open>Identifiers\<close>

definition dash_at :: "nat \<Rightarrow> bool" where
  "dash_at i \<longleftrightarrow> i = 8 \<or> i = 13 \<or> i = 18 \<or> i = 23"

fun scan_id :: "nat \<Rightarrow> string \<Rightarrow> string option" where
  "scan_id i [] = Some []"
| "scan_id i (c # s) =
    (if dash_at i then (if c \<noteq> CHR ''-'' then None else scan_id (Suc i) s)
     else if \<not> hex_lower c then None
     else map_option ((#) c) (scan_id (Suc i) s))"

definition id_valid :: "byte list \<Rightarrow> bool" where
  "id_valid v = (drop_bit 4 (v ! 6) = 7 \<and> drop_bit 6 (v ! 8) = 2)"

definition parse_id :: "string \<Rightarrow> ids_error + byte list" where
  "parse_id s =
    (if length s \<noteq> 36 then Inl ErrInvalidID
     else case scan_id 0 s of None \<Rightarrow> Inl ErrInvalidID
     | Some compact \<Rightarrow>
         let out = hex_decode compact in
         if \<not> id_valid out then Inl ErrInvalidID else Inr out)"

text \<open>The six time bytes, most significant first.\<close>

fun time_bytes :: "nat \<Rightarrow> nat \<Rightarrow> byte list" where
  "time_bytes 0 ms = []"
| "time_bytes (Suc n) ms = time_bytes n (ms div 256) @ [word_of_nat (ms mod 256)]"

definition generate_id :: "int \<Rightarrow> entropy \<Rightarrow> ids_error + byte list" where
  "generate_id ms entropy =
    (if ms < 0 \<or> ms \<ge> 2 ^ 48 then Inl ErrInvalidID
     else case entropy of None \<Rightarrow> Inl ErrInvalidID
     | Some (Inl e) \<Rightarrow> Inl (ErrEntropy e)
     | Some (Inr bs) \<Rightarrow>
         let v = time_bytes 6 (nat ms) @ bs;
             v = v[6 := (v ! 6 AND 15) OR 0x70]
         in Inr (v[8 := (v ! 8 AND 63) OR 0x80]))"

definition format_id :: "byte list \<Rightarrow> string" where
  "format_id v = hex_encode (take 4 v) @ ''-'' @ hex_encode (take 2 (drop 4 v)) @ ''-''
     @ hex_encode (take 2 (drop 6 v)) @ ''-'' @ hex_encode (take 2 (drop 8 v)) @ ''-''
     @ hex_encode (drop 10 v)"

definition marshal_id :: "byte list \<Rightarrow> ids_error + string" where
  "marshal_id v = (if \<not> id_valid v then Inl ErrInvalidID else Inr (format_id v))"

section \<open>The three identifier types\<close>

datatype file_id = FileID (file_bytes: "byte list")
datatype device_id = DeviceID (device_bytes: "byte list")
datatype client_op_id = ClientOpID (client_op_bytes: "byte list")

definition parse_file_id :: "string \<Rightarrow> ids_error + file_id" where
  "parse_file_id s = rbind (parse_id s) (\<lambda>v. Inr (FileID v))"
definition new_file_id :: "int \<Rightarrow> entropy \<Rightarrow> ids_error + file_id" where
  "new_file_id ms e = rbind (generate_id ms e) (\<lambda>v. Inr (FileID v))"
definition file_id_string :: "file_id \<Rightarrow> string" where
  "file_id_string i = format_id (file_bytes i)"
definition file_id_marshal :: "file_id \<Rightarrow> ids_error + string" where
  "file_id_marshal i = marshal_id (file_bytes i)"
definition file_id_unmarshal :: "file_id \<Rightarrow> string \<Rightarrow> file_id \<times> ids_error option" where
  "file_id_unmarshal i b = (case parse_file_id b of Inr v \<Rightarrow> (v, None) | Inl e \<Rightarrow> (i, Some e))"

definition parse_device_id :: "string \<Rightarrow> ids_error + device_id" where
  "parse_device_id s = rbind (parse_id s) (\<lambda>v. Inr (DeviceID v))"
definition new_device_id :: "int \<Rightarrow> entropy \<Rightarrow> ids_error + device_id" where
  "new_device_id ms e = rbind (generate_id ms e) (\<lambda>v. Inr (DeviceID v))"
definition device_id_string :: "device_id \<Rightarrow> string" where
  "device_id_string i = format_id (device_bytes i)"
definition device_id_marshal :: "device_id \<Rightarrow> ids_error + string" where
  "device_id_marshal i = marshal_id (device_bytes i)"
definition device_id_unmarshal :: "device_id \<Rightarrow> string \<Rightarrow> device_id \<times> ids_error option" where
  "device_id_unmarshal i b = (case parse_device_id b of Inr v \<Rightarrow> (v, None) | Inl e \<Rightarrow> (i, Some e))"

definition parse_client_op_id :: "string \<Rightarrow> ids_error + client_op_id" where
  "parse_client_op_id s = rbind (parse_id s) (\<lambda>v. Inr (ClientOpID v))"
definition new_client_op_id :: "int \<Rightarrow> entropy \<Rightarrow> ids_error + client_op_id" where
  "new_client_op_id ms e = rbind (generate_id ms e) (\<lambda>v. Inr (ClientOpID v))"
definition client_op_id_string :: "client_op_id \<Rightarrow> string" where
  "client_op_id_string i = format_id (client_op_bytes i)"
definition client_op_id_marshal :: "client_op_id \<Rightarrow> ids_error + string" where
  "client_op_id_marshal i = marshal_id (client_op_bytes i)"
definition client_op_id_unmarshal :: "client_op_id \<Rightarrow> string \<Rightarrow> client_op_id \<times> ids_error option" where
  "client_op_id_unmarshal i b = (case parse_client_op_id b of Inr v \<Rightarrow> (v, None) | Inl e \<Rightarrow> (i, Some e))"

section \<open>Round trips\<close>

lemma hex_digit_lower: "n < 16 \<Longrightarrow> hex_lower (hex_digit n) \<and> hex_value (hex_digit n) = n"
  by (simp add: hex_lower_def hex_digit_def hex_value_def)

lemma hex_value_digit:
  assumes "hex_lower c"
  shows "hex_value c < 16 \<and> hex_digit (hex_value c) = c"
proof -
  have "char_of (bv c) = c" by (rule char_of_char)
  then show ?thesis using assms by (auto simp: hex_lower_def hex_digit_def hex_value_def simp del: char_of_char)
qed

lemma byte_bound: "unat (b :: byte) < 256"
  using unsigned_less [of b] by simp

lemma hex_encode_simps [simp]:
  "hex_encode [] = []" "hex_encode (b # bs) = hex_digit (unat b div 16) # hex_digit (unat b mod 16) # hex_encode bs"
  by (simp_all add: hex_encode_def hex_byte_def)

lemma length_hex_encode [simp]: "length (hex_encode bs) = 2 * length bs"
  by (induction bs) simp_all

lemma hex_encode_append: "hex_encode (xs @ ys) = hex_encode xs @ hex_encode ys"
  by (simp add: hex_encode_def)

lemma byte_digits: "unat (b :: byte) div 16 < 16" "unat b mod 16 < 16"
  using byte_bound [of b] by auto

lemma hex_decode_encode: "hex_decode (hex_encode bs) = bs"
proof (induction bs)
  case (Cons b bs)
  have "(word_of_nat (unat b div 16 * 16 + unat b mod 16) :: byte) = b"
    by simp
  with Cons show ?case using byte_digits [of b] hex_digit_lower by simp
qed simp

lemma hex_encode_lower: "c \<in> set (hex_encode bs) \<Longrightarrow> hex_lower c"
  by (induction bs) (auto simp: hex_digit_lower byte_digits)

lemma hex_encode_decode:
  "\<forall>c \<in> set s. hex_lower c \<Longrightarrow> even (length s) \<Longrightarrow> hex_encode (hex_decode s) = s"
proof (induction s rule: hex_decode.induct)
  case (1 c d s)
  let ?n = "hex_value c * 16 + hex_value d"
  have v: "hex_value c < 16" "hex_value d < 16" "hex_digit (hex_value c) = c" "hex_digit (hex_value d) = d"
    using "1.prems" hex_value_digit by auto
  then have "?n < 256" by simp
  moreover have "unat (word_of_nat n :: byte) = n" if "n < 256" for n
    using that by (simp add: unsigned_of_nat take_bit_nat_eq_self)
  ultimately have "unat (word_of_nat ?n :: byte) = ?n" by blast
  with 1 v show ?case by simp
qed auto

lemma length_hex_decode: "length (hex_decode s) = length s div 2"
  by (induction s rule: hex_decode.induct) auto

lemma scan_segment:
  "\<forall>c \<in> set seg. hex_lower c \<Longrightarrow> \<forall>k < length seg. \<not> dash_at (i + k) \<Longrightarrow>
     scan_id i (seg @ s) = map_option ((@) seg) (scan_id (i + length seg) s)"
proof (induction seg arbitrary: i)
  case (Cons c seg)
  have "\<forall>k < length seg. \<not> dash_at (Suc i + k)" "\<not> dash_at i"
    using Cons.prems(2) by (metis Suc_less_eq add_Suc_shift length_Cons, force)
  with Cons show ?case by (simp add: option.map_comp o_def)
next
  case Nil
  then show ?case by (cases "scan_id i s") simp_all
qed

lemma scan_segment_inv:
  "scan_id i s = Some h \<Longrightarrow> n \<le> length s \<Longrightarrow> \<forall>k < n. \<not> dash_at (i + k) \<Longrightarrow>
     \<exists>h'. h = take n s @ h' \<and> scan_id (i + n) (drop n s) = Some h' \<and> (\<forall>c \<in> set (take n s). hex_lower c)"
proof (induction n arbitrary: i s h)
  case (Suc n)
  then obtain c t where s: "s = c # t" by (cases s) auto
  have nd: "\<not> dash_at i" "\<forall>k < n. \<not> dash_at (Suc i + k)" using Suc.prems(3) by (force, auto)
  then obtain h1 where "h = c # h1" "scan_id (Suc i) t = Some h1" "hex_lower c"
    using Suc.prems(1) s by (auto split: if_splits)
  with Suc.IH [of "Suc i" t h1] Suc.prems(2) nd s show ?case by auto
qed simp

lemma scan_dash: "scan_id i s = Some h \<Longrightarrow> dash_at i \<Longrightarrow> length s = Suc n \<Longrightarrow>
    \<exists>t. s = CHR ''-'' # t \<and> scan_id (Suc i) t = Some h \<and> length t = n"
  by (cases s) (auto split: if_splits)

lemma hex_encode_take: "take (2 * n) (hex_encode bs) = hex_encode (take n bs)"
proof (induction bs arbitrary: n)
  case (Cons b bs)
  then show ?case by (cases n) simp_all
qed simp

lemma hex_encode_drop: "drop (2 * n) (hex_encode bs) = hex_encode (drop n bs)"
proof (induction bs arbitrary: n)
  case (Cons b bs)
  then show ?case by (cases n) simp_all
qed simp

lemma scan_format:
  assumes "length b = 16"
  shows "scan_id 0 (format_id b) = Some (hex_encode b)" "length (format_id b) = 36"
proof -
  let ?h = "\<lambda>xs. hex_encode xs"
  have seg: "scan_id i (?h xs @ s) = map_option ((@) (?h xs)) (scan_id (i + 2 * length xs) s)"
    if "\<forall>k < 2 * length xs. \<not> dash_at (i + k)" for i xs s
    using scan_segment [of "?h xs" i s] that hex_encode_lower by auto
  have last: "scan_id 24 (?h (drop 10 b)) = Some (?h (drop 10 b))"
    using seg [of "drop 10 b" 24 "[]"] assms by (simp add: dash_at_def)
  have "scan_id 0 (format_id b) = Some (?h (take 4 b) @ ?h (take 2 (drop 4 b)) @ ?h (take 2 (drop 6 b))
      @ ?h (take 2 (drop 8 b)) @ ?h (drop 10 b))"
    using assms last by (simp add: format_id_def seg dash_at_def)
  moreover have "b = take 4 b @ take 2 (drop 4 b) @ take 2 (drop 6 b) @ take 2 (drop 8 b) @ drop 10 b"
    by (rule nth_equalityI) (use assms in \<open>auto simp: nth_append less_Suc_eq_le\<close>)
  then have "?h b = ?h (take 4 b) @ ?h (take 2 (drop 4 b)) @ ?h (take 2 (drop 6 b))
      @ ?h (take 2 (drop 8 b)) @ ?h (drop 10 b)"
    by (metis hex_encode_append)
  ultimately show "scan_id 0 (format_id b) = Some (?h b)" by simp
  show "length (format_id b) = 36" using assms by (simp add: format_id_def)
qed

lemma scan_inv:
  assumes "scan_id 0 s = Some h" "length s = 36"
  obtains "length h = 32" "\<forall>c \<in> set h. hex_lower c"
    "s = take 8 h @ ''-'' @ take 4 (drop 8 h) @ ''-'' @ take 4 (drop 12 h) @ ''-''
       @ take 4 (drop 16 h) @ ''-'' @ drop 20 h"
proof -
  have hexes: "\<exists>x h' t. length x = n \<and> s = x @ t \<and> h = x @ h' \<and> scan_id (i + n) t = Some h'
      \<and> (\<forall>c \<in> set x. hex_lower c)"
    if "scan_id i s = Some h" "n \<le> length s" "\<forall>k < n. \<not> dash_at (i + k)" for i n s h
    using scan_segment_inv [OF that] that(2) by (metis append_take_drop_id length_take min.absorb2)
  obtain x1 h1 t1 where 1: "length x1 = 8" "s = x1 @ t1" "h = x1 @ h1" "scan_id 8 t1 = Some h1"
      "\<forall>c \<in> set x1. hex_lower c"
    using hexes [OF assms(1), of 8] assms(2) by (auto simp: dash_at_def)
  have "length t1 = Suc 27" using 1 assms(2) by simp
  then obtain u1 where u1: "t1 = CHR ''-'' # u1" "scan_id 9 u1 = Some h1" "length u1 = 27"
    using scan_dash [OF 1(4), of 27] by (auto simp: dash_at_def)
  obtain x2 h2 t2 where 2: "length x2 = 4" "u1 = x2 @ t2" "h1 = x2 @ h2" "scan_id 13 t2 = Some h2"
      "\<forall>c \<in> set x2. hex_lower c"
    using hexes [OF u1(2), of 4] u1(3) by (auto simp: dash_at_def)
  have "length t2 = Suc 22" using 2 u1 by simp
  then obtain u2 where u2: "t2 = CHR ''-'' # u2" "scan_id 14 u2 = Some h2" "length u2 = 22"
    using scan_dash [OF 2(4), of 22] by (auto simp: dash_at_def)
  obtain x3 h3 t3 where 3: "length x3 = 4" "u2 = x3 @ t3" "h2 = x3 @ h3" "scan_id 18 t3 = Some h3"
      "\<forall>c \<in> set x3. hex_lower c"
    using hexes [OF u2(2), of 4] u2(3) by (auto simp: dash_at_def)
  have "length t3 = Suc 17" using 3 u2 by simp
  then obtain u3 where u3: "t3 = CHR ''-'' # u3" "scan_id 19 u3 = Some h3" "length u3 = 17"
    using scan_dash [OF 3(4), of 17] by (auto simp: dash_at_def)
  obtain x4 h4 t4 where 4: "length x4 = 4" "u3 = x4 @ t4" "h3 = x4 @ h4" "scan_id 23 t4 = Some h4"
      "\<forall>c \<in> set x4. hex_lower c"
    using hexes [OF u3(2), of 4] u3(3) by (auto simp: dash_at_def)
  have "length t4 = Suc 12" using 4 u3 by simp
  then obtain u4 where u4: "t4 = CHR ''-'' # u4" "scan_id 24 u4 = Some h4" "length u4 = 12"
    using scan_dash [OF 4(4), of 12] by (auto simp: dash_at_def)
  obtain x5 h5 t5 where 5: "length x5 = 12" "u4 = x5 @ t5" "h4 = x5 @ h5" "scan_id 36 t5 = Some h5"
      "\<forall>c \<in> set x5. hex_lower c"
    using hexes [OF u4(2), of 12] u4(3) by (auto simp: dash_at_def)
  have "t5 = []" using 5 u4 by simp
  then have h5: "h5 = []" using 5(4) by simp
  have h: "h = x1 @ x2 @ x3 @ x4 @ x5" using 1 2 3 4 5 h5 by simp
  show thesis
  proof (rule that)
    show "length h = 32" using h 1(1) 2(1) 3(1) 4(1) 5(1) by simp
    show "\<forall>c \<in> set h. hex_lower c" using h 1(5) 2(5) 3(5) 4(5) 5(5) by auto
    show "s = take 8 h @ ''-'' @ take 4 (drop 8 h) @ ''-'' @ take 4 (drop 12 h) @ ''-''
       @ take 4 (drop 16 h) @ ''-'' @ drop 20 h"
      using 1(1,2) 2(1,2) 3(1,2) 4(1,2) 5(1,2) u1(1) u2(1) u3(1) u4(1) \<open>t5 = []\<close> h by simp
  qed
qed

lemma parse_id_iff:
  "parse_id s = Inr b \<longleftrightarrow> length b = 16 \<and> id_valid b \<and> s = format_id b"
proof
  assume p: "parse_id s = Inr b"
  then obtain h where h: "length s = 36" "scan_id 0 s = Some h" "b = hex_decode h" "id_valid b"
    by (auto simp: parse_id_def Let_def split: if_splits option.splits)
  obtain len: "length h = 32" and lower: "\<forall>c \<in> set h. hex_lower c"
    and s: "s = take 8 h @ ''-'' @ take 4 (drop 8 h) @ ''-'' @ take 4 (drop 12 h) @ ''-''
       @ take 4 (drop 16 h) @ ''-'' @ drop 20 h"
    using scan_inv [OF h(2,1)] by blast
  have hb: "h = hex_encode b" using hex_encode_decode [OF lower] len h(3) by simp
  have "s = format_id b"
    unfolding s hb format_id_def
    using hex_encode_take [of 4 b] hex_encode_take [of 2 "drop 4 b"] hex_encode_take [of 2 "drop 6 b"]
      hex_encode_take [of 2 "drop 8 b"] hex_encode_drop [of 4 b] hex_encode_drop [of 6 b]
      hex_encode_drop [of 8 b] hex_encode_drop [of 10 b] by simp
  then show "length b = 16 \<and> id_valid b \<and> s = format_id b" using h len length_hex_decode by simp
next
  assume "length b = 16 \<and> id_valid b \<and> s = format_id b"
  then show "parse_id s = Inr b"
    using scan_format [of b] by (simp add: parse_id_def hex_decode_encode)
qed

text \<open>
  C39: identifiers have one spelling. \<open>Parse\<close> of a string succeeds with an identifier if and
  only if the string is what \<open>String\<close> prints for it and it is sixteen bytes with the
  UUIDv7 version and variant bits: parsing and printing are inverse to each other.
\<close>

theorem id_roundtrip:
  "parse_id s = Inr b \<longleftrightarrow> length b = 16 \<and> id_valid b \<and> s = format_id b"
  by (rule parse_id_iff)

section \<open>Generation\<close>

definition bytes_value :: "byte list \<Rightarrow> nat" where
  "bytes_value bs = foldl (\<lambda>n b. n * 256 + unat b) 0 bs"

lemma time_bytes_value: "bytes_value (time_bytes n ms) = ms mod 256 ^ n"
proof (induction n arbitrary: ms)
  case (Suc n)
  have "unat (word_of_nat (ms mod 256) :: byte) = ms mod 256"
    by (simp add: unsigned_of_nat take_bit_eq_mod)
  then have "bytes_value (time_bytes (Suc n) ms) = (ms div 256) mod 256 ^ n * 256 + ms mod 256"
    using Suc [of "ms div 256"] by (simp add: bytes_value_def)
  also have "\<dots> = ms mod 256 ^ Suc n"
    by (simp add: mod_mult2_eq mult.commute)
  finally show ?case .
qed (simp add: bytes_value_def)

lemma length_time_bytes [simp]: "length (time_bytes n ms) = n"
  by (induction n arbitrary: ms) simp_all

lemma nibble_bits:
  "drop_bit 4 (((b :: byte) AND 15) OR 0x70) = 7" "drop_bit 6 ((b AND 63) OR 0x80) = 2"
  by (rule bit_word_eqI; auto simp: bit_simps less_Suc_eq)+

text \<open>
  a generated identifier is a valid UUIDv7 that carries its time. With ten bytes of
  entropy and a 48-bit millisecond time, the first six bytes are that time, and the printed
  identifier parses back to it.
\<close>

theorem generate_id_valid:
  assumes "length bs = 10" "generate_id ms (Some (Inr bs)) = Inr v"
  shows "int (bytes_value (take 6 v)) = ms \<and> parse_id (format_id v) = Inr v"
proof -
  have ms: "0 \<le> ms" "ms < 2 ^ 48" using assms(2) by (auto simp: generate_id_def split: if_splits)
  define w where "w = time_bytes 6 (nat ms) @ bs"
  have v: "v = (w[6 := (w ! 6 AND 15) OR 0x70])[8 := (w[6 := (w ! 6 AND 15) OR 0x70] ! 8 AND 63) OR 0x80]"
    using assms(2) ms by (simp add: generate_id_def w_def Let_def)
  have len: "length w = 16" using assms(1) by (simp add: w_def)
  have "take 6 v = time_bytes 6 (nat ms)" by (simp add: v w_def)
  then have "bytes_value (take 6 v) = nat ms mod 256 ^ 6" by (simp only: time_bytes_value)
  moreover have "nat ms < 256 ^ 6" using ms(2) by (simp add: nat_less_iff)
  moreover have "id_valid v" using len nibble_bits by (simp add: id_valid_def v)
  ultimately show ?thesis using ms(1) len by (simp add: parse_id_iff v)
qed

theorem generate_id_valid_witness:
  "parse_id (format_id [0, 0, 0, 0, 1, 5, 0x70, 0, 0x80, 0, 0, 0, 0, 0, 0, 0])
     = Inr [0, 0, 0, 0, 1, 5, 0x70, 0, 0x80, 0, 0, 0, 0, 0, 0, 0]"
proof -
  have "generate_id 261 (Some (Inr (replicate 10 0)))
      = Inr [0, 0, 0, 0, 1, 5, 0x70, 0, 0x80, 0, 0, 0, 0, 0, 0, 0]"
  proof -
    have "time_bytes (Suc (Suc (Suc (Suc (Suc (Suc 0)))))) 261 = [0, 0, 0, 0, 1, 5]" by simp
    moreover have "(6 :: nat) = Suc (Suc (Suc (Suc (Suc (Suc 0)))))" by simp
    ultimately have "time_bytes 6 261 = [0, 0, 0, 0, 1, 5]" by (simp only:)
    moreover have "replicate 10 0 = [0, 0, 0, 0, 0, 0, 0, 0, 0, 0 :: byte]" by code_simp
    ultimately show ?thesis by (simp add: generate_id_def Let_def)
  qed
  from generate_id_valid [OF _ this] show ?thesis by simp
qed

end
