(* ===== verification/Vpath.thy ===== *)
theory Vpath
  imports Go_Strings
begin

text \<open>
  Vault paths: \<^verbatim>\<open>internal/core/vpath/path.go\<close> (the strict device paths, their parser
  and operations) and \<^verbatim>\<open>portable.go\<close> (the frozen Canvas sanitizer). Normalization and
  the Unicode tables are the argument \<open>U\<close>.
\<close>

section \<open>Components (portable.go)\<close>

definition MaxComponent :: nat where "MaxComponent = 120"
definition MaxTotal :: nat where "MaxTotal = 400"
definition maxExt :: int where "maxExt = 16"
definition DeviceMaxComponent :: nat where "DeviceMaxComponent = 200"
definition DeviceMaxTotal :: nat where "DeviceMaxTotal = 512"

text \<open>\<open>NFC\<close> normalizes the runs between scalars that Unicode 15 does not assign.\<close>

function nfc_loop :: "unicode_tables \<Rightarrow> string \<Rightarrow> nat \<Rightarrow> nat \<Rightarrow> string \<Rightarrow> nat \<times> string" where
  "nfc_loop U s i start b =
    (if i \<ge> length s then (start, b)
     else (case decode_rune (drop i s) of (r, w) \<Rightarrow>
       if \<not> u_assigned U r
       then nfc_loop U s (i + w) (i + length (encode_rune r))
         (b @ u_nfc U (slice (int start) (int i) s) @ encode_rune r)
       else nfc_loop U s (i + w) start b))"
  by pat_completeness auto
termination
proof (relation "measure (\<lambda>(_, s, i, _, _). length s - i)")
  have "0 < w" if "\<not> length s \<le> i" "(r, w) = decode_rune (drop i s)" for s i w r
    using decode_rune_progress [of "drop i s"] that by (metis drop_eq_Nil snd_conv)
  then show "((U, s, i + w, i + length (encode_rune r),
      b @ u_nfc U (slice (int start) (int i) s) @ encode_rune r), (U, s, i, start, b))
      \<in> measure (\<lambda>(_, s, i, _, _). length s - i)"
    if "\<not> length s \<le> i" "(r, w) = decode_rune (drop i s)" for U s i start b w r
    using that by fastforce
  show "((U, s, i + w, start, b), (U, s, i, start, b))
      \<in> measure (\<lambda>(_, s, i, _, _). length s - i)"
    if "\<not> length s \<le> i" "(r, w) = decode_rune (drop i s)" for U s i start b w r
    using that \<open>\<And>s i w r. \<not> length s \<le> i \<Longrightarrow> (r, w) = decode_rune (drop i s) \<Longrightarrow> 0 < w\<close> by fastforce
qed simp

declare nfc_loop.simps [simp del]

definition nfc :: "unicode_tables \<Rightarrow> string \<Rightarrow> string" where
  "nfc U s = (case nfc_loop U s 0 0 [] of (start, b) \<Rightarrow>
     if start = 0 then u_nfc U s else b @ u_nfc U (drop start s))"

definition stem :: "string \<Rightarrow> string" where
  "stem s = (let i = index_byte s (CHR ''.'') in if i > 0 then take (nat i) s else s)"

definition reserved_names :: "string list" where
  "reserved_names = [''CON'', ''PRN'', ''AUX'', ''NUL'',
     ''COM1'', ''COM2'', ''COM3'', ''COM4'', ''COM5'', ''COM6'', ''COM7'', ''COM8'', ''COM9'',
     ''LPT1'', ''LPT2'', ''LPT3'', ''LPT4'', ''LPT5'', ''LPT6'', ''LPT7'', ''LPT8'', ''LPT9'']"

definition reserved_name :: "unicode_tables \<Rightarrow> string \<Rightarrow> bool" where
  "reserved_name U s \<longleftrightarrow> upper_string U (stem s) \<in> set reserved_names"

definition illegal :: string where
  "illegal = [CHR ''<'', CHR ''>'', CHR '':'', CHR 0x22, CHR ''|'', CHR ''?'', CHR ''*'']"

definition pass_rune :: "nat \<Rightarrow> string" where
  "pass_rune r =
    (if r = 47 \<or> r = 92 then ''-''
     else if r \<in> set (map bv illegal) then ''-''
     else if is_control r then []
     else encode_rune r)"

definition character_pass :: "string \<Rightarrow> string" where
  "character_pass s = trim_left (trim_right (concat (map pass_rune (runes s))) ''. '') '' ''"

fun trunc_point :: "string \<Rightarrow> nat \<Rightarrow> nat" where
  "trunc_point s 0 = 0"
| "trunc_point s (Suc n) = (if rune_start (s ! Suc n) then Suc n else trunc_point s n)"

definition truncate_bytes :: "string \<Rightarrow> int \<Rightarrow> string" where
  "truncate_bytes s n = (if int (length s) \<le> n then s else take (trunc_point s (nat n)) s)"

definition truncate_keep_ext :: "string \<Rightarrow> int \<Rightarrow> string" where
  "truncate_keep_ext s n =
    (let i = last_index_byte s (CHR ''.'');
         keep = i > 0 \<and> int (length s) - i - 1 \<le> maxExt;
         stem_part = (if keep then take (nat i) s else s);
         ext = (if keep then drop (nat i) s else [])
     in if int (length ext) \<ge> n then trim_right (truncate_bytes s n) ''. ''
        else
          let st = trim_right (truncate_bytes stem_part (n - int (length ext))) ''. ''
          in if st = [] then [] else st @ ext)"

datatype portable_error = EmptyAfterSanitisation | EmptyAfterTruncation | AbsolutePath
  | TraversalPath | EmptyPath | ExceedsTotal

definition component_of :: "unicode_tables \<Rightarrow> string \<Rightarrow> portable_error + string" where
  "component_of U s0 =
    (let s = nfc U s0; out = character_pass s in
     if out = [] \<or> out = ''.'' \<or> out = ''..'' then Inl EmptyAfterSanitisation
     else
       let out = (if reserved_name U out then CHR ''_'' # out else out) in
       if length out > MaxComponent
       then let out = truncate_keep_ext out (int MaxComponent) in
            if out = [] then Inl EmptyAfterTruncation else Inr out
       else Inr out)"

fun sanitize_parts :: "unicode_tables \<Rightarrow> string list \<Rightarrow> string list \<Rightarrow> portable_error + string list" where
  "sanitize_parts U [] out = Inr out"
| "sanitize_parts U (part # parts) out =
    (if part = [] \<or> part = ''.'' then sanitize_parts U parts out
     else if part = ''..'' then Inl TraversalPath
     else rbind (component_of U part) (\<lambda>c. sanitize_parts U parts (out @ [c])))"

definition sanitize_path :: "unicode_tables \<Rightarrow> string \<Rightarrow> portable_error + string" where
  "sanitize_path U p0 =
    (let p = replace_byte p0 (CHR 0x5C) (CHR ''/'') in
     if has_prefix p ''/'' then Inl AbsolutePath
     else rbind (sanitize_parts U (split_on (CHR ''/'') p) []) (\<lambda>out.
       if out = [] then Inl EmptyPath
       else let joined = join_with ''/'' out in
         if length joined > MaxTotal then Inl ExceedsTotal else Inr joined))"

definition disambiguate :: "string \<Rightarrow> int \<Rightarrow> string" where
  "disambiguate p canvas_id =
    (let i = last_index_byte p (CHR ''/'');
         dir = (if i \<ge> 0 then take (nat i + 1) p else []);
         name = (if i \<ge> 0 then drop (nat i + 1) p else p);
         suffix = '' ('' @ string_of_int canvas_id @ '')'';
         k = last_index_byte name (CHR ''.'');
         stem_part = (if k > 0 then take (nat k) name else name);
         ext = (if k > 0 then drop (nat k) name else []);
         over = int (length stem_part) + int (length suffix) + int (length ext) - int MaxComponent;
         stem_part = (if over > 0
           then trim_right (truncate_bytes stem_part (max 0 (int (length stem_part) - over))) ''. ''
           else stem_part)
     in dir @ stem_part @ suffix @ ext)"

definition collision_key :: "unicode_tables \<Rightarrow> string \<Rightarrow> string" where
  "collision_key U p = map_runes (\<lambda>r. let lower = to_lower U r in
     if \<not> u_assigned U r \<or> \<not> u_assigned U lower then r else lower) (nfc U p)"

definition fallback :: "unicode_tables \<Rightarrow> string \<Rightarrow> int \<Rightarrow> string" where
  "fallback U original canvas_id =
    (let name = ''canvas-file-'' @ string_of_int canvas_id;
         i = last_index_byte original (CHR ''.'')
     in if i > 0 \<and> int (length original) - i - 1 \<le> maxExt
        then case component_of U (drop (nat i + 1) original) of
            Inl _ \<Rightarrow> name
          | Inr ext \<Rightarrow> if contains_any ext '' .'' then name else name @ ''.'' @ ext
        else name)"

section \<open>Strict paths (path.go)\<close>

record path =
  path_s :: string

datatype reason = ReasonNone | InvalidUTF8 | NotNFC | EmptyReason | Absolute | Backslash
  | EmptyComponent | DotComponent | Traversal | IllegalChar | ControlChar | LeadingSpace
  | TrailingDotOrSpace | ReservedName | ComponentTooLong | PathTooLong

definition reason_names :: "(reason \<times> string) list" where
  "reason_names = [(ReasonNone, ''none''), (InvalidUTF8, ''invalid_utf8''), (NotNFC, ''not_nfc''),
     (EmptyReason, ''empty''), (Absolute, ''absolute''), (Backslash, ''backslash''),
     (EmptyComponent, ''empty_component''), (DotComponent, ''dot_component''),
     (Traversal, ''traversal''), (IllegalChar, ''illegal_char''), (ControlChar, ''control_char''),
     (LeadingSpace, ''leading_space''), (TrailingDotOrSpace, ''trailing_dot_or_space''),
     (ReservedName, ''reserved_name''), (ComponentTooLong, ''component_too_long''),
     (PathTooLong, ''path_too_long'')]"

definition reason_string :: "reason \<Rightarrow> string" where
  "reason_string r = the (map_of reason_names r)"

record path_error =
  pe_input :: string
  pe_component :: int
  pe_reason :: reason

definition device_reserved_name :: "unicode_tables \<Rightarrow> string \<Rightarrow> bool" where
  "device_reserved_name U s \<longleftrightarrow>
    (let t = trim_right (stem s) '' '' in
     if reserved_name U t then True
     else upper_string U (stem t) \<in> {''COM'' @ [CHR 0xC2, CHR 0xB9], ''COM'' @ [CHR 0xC2, CHR 0xB2],
       ''COM'' @ [CHR 0xC2, CHR 0xB3], ''LPT'' @ [CHR 0xC2, CHR 0xB9], ''LPT'' @ [CHR 0xC2, CHR 0xB2],
       ''LPT'' @ [CHR 0xC2, CHR 0xB3], ''CONIN$'', ''CONOUT$''})"

definition character_reason :: "unicode_tables \<Rightarrow> string \<Rightarrow> reason" where
  "character_reason U s =
    (if character_pass s \<noteq> s then
       if contains_any s illegal then IllegalChar
       else if list_ex is_control (runes s) then ControlChar
       else if has_prefix s '' '' then LeadingSpace
       else TrailingDotOrSpace
     else if device_reserved_name U s then ReservedName
     else ReasonNone)"

definition structure_reason :: "string \<Rightarrow> reason" where
  "structure_reason c = (if c = [] then EmptyComponent else if c = ''.'' then DotComponent
     else if c = ''..'' then Traversal else ReasonNone)"

text \<open>The first component that a phase rejects, with its index.\<close>

fun first_reason :: "(string \<Rightarrow> reason) \<Rightarrow> int \<Rightarrow> string list \<Rightarrow> (reason \<times> int) option" where
  "first_reason f i [] = None"
| "first_reason f i (c # cs) = (if f c \<noteq> ReasonNone then Some (f c, i) else first_reason f (i + 1) cs)"

definition parse_path :: "unicode_tables \<Rightarrow> string \<Rightarrow> path_error + path" where
  "parse_path U s =
    (let fail = (\<lambda>r i. Inl \<lparr>pe_input = s, pe_component = i, pe_reason = r\<rparr>) in
     if \<not> valid_string s then fail InvalidUTF8 (-1)
     else if nfc U s \<noteq> s then fail NotNFC (-1)
     else if s = [] then fail EmptyReason (-1)
     else if has_prefix s ''/'' then fail Absolute (-1)
     else if contains_any s [CHR 0x5C] then fail Backslash (-1)
     else
       let parts = split_on (CHR ''/'') s in
       case first_reason structure_reason 0 parts of Some (r, i) \<Rightarrow> fail r i
       | None \<Rightarrow>
       (case first_reason (character_reason U) 0 parts of Some (r, i) \<Rightarrow> fail r i
       | None \<Rightarrow>
       (case first_reason (\<lambda>c. if length c > DeviceMaxComponent then ComponentTooLong else ReasonNone) 0 parts
        of Some (r, i) \<Rightarrow> fail r i
       | None \<Rightarrow>
         if length s > DeviceMaxTotal then fail PathTooLong (-1) else Inr \<lparr>path_s = s\<rparr>)))"

definition sanitize :: "unicode_tables \<Rightarrow> string \<Rightarrow> (portable_error + path_error) + path" where
  "sanitize U s = (case sanitize_path U s of Inl e \<Rightarrow> Inl (Inl e)
     | Inr p \<Rightarrow> (case parse_path U p of Inl e \<Rightarrow> Inl (Inr e) | Inr q \<Rightarrow> Inr q))"

definition zero_path :: path where
  "zero_path = \<lparr>path_s = []\<rparr>"

definition path_is_zero :: "path \<Rightarrow> bool" where
  "path_is_zero p \<longleftrightarrow> path_s p = []"

definition path_key_of :: "unicode_tables \<Rightarrow> string \<Rightarrow> string" where
  "path_key_of U s = u_nfc U (u_fold U (u_nfd U (map_runes (to_upper U) s)))"

definition path_key :: "unicode_tables \<Rightarrow> path \<Rightarrow> string" where
  "path_key U p = path_key_of U (path_s p)"

definition path_base :: "path \<Rightarrow> string" where
  "path_base p = (let i = last_index_byte (path_s p) (CHR ''/'') in drop (nat (i + 1)) (path_s p))"

definition path_dir :: "path \<Rightarrow> path \<times> bool" where
  "path_dir p = (let i = last_index_byte (path_s p) (CHR ''/'') in
     if i < 0 then (zero_path, False) else (\<lparr>path_s = take (nat i) (path_s p)\<rparr>, True))"

definition path_ext :: "unicode_tables \<Rightarrow> path \<Rightarrow> string" where
  "path_ext U p = (let b = path_base p; i = last_index_byte b (CHR ''.'') in
     if i \<le> 0 then [] else lower_string U (drop (nat (i + 1)) b))"

definition path_join :: "unicode_tables \<Rightarrow> path \<Rightarrow> string \<Rightarrow> path_error + path" where
  "path_join U p name = rbind (parse_path U name) (\<lambda>n.
     if CHR ''/'' \<in> set (path_s n)
     then Inl \<lparr>pe_input = name, pe_component = 0, pe_reason = IllegalChar\<rparr>
     else if path_is_zero p then Inr n
     else parse_path U (path_s p @ ''/'' @ name))"

definition with_base :: "unicode_tables \<Rightarrow> path \<Rightarrow> string \<Rightarrow> path_error + path" where
  "with_base U p name = path_join U (fst (path_dir p)) name"

definition path_within :: "unicode_tables \<Rightarrow> path \<Rightarrow> path \<Rightarrow> bool" where
  "path_within U p dir \<longleftrightarrow> \<not> (path_is_zero p \<or> path_is_zero dir) \<and>
     (let k = path_key U p; d = path_key U dir in k = d \<or> has_prefix k (d @ ''/''))"

end
