(* ===== verification/Annot_Limits.thy ===== *)
theory Annot_Limits
  imports Prelude
begin

text \<open>
  The errors and budgets of the annotation core: \<^verbatim>\<open>internal/core/annot/types.go\<close>.
  \<open>normalized\<close> checks the fields in the code's order and fills in the optional defaults.
\<close>

datatype annot_error = AErrInvalidJSON | AErrNotSidecar | AErrDuplicateKey | AErrDuplicateID
  | AErrMissingID | AErrStructuralKey | AErrWholeDocument | AErrNonCanonical | AErrLimit
  | AErrInvalidLimits | AErrInvalidState

record annot_limits =
  al_max_bytes :: int
  al_max_elements :: int
  al_max_id_bytes :: int
  al_max_op_bytes :: int
  al_max_state_bytes :: int
  al_max_ops :: int
  al_max_tombstones :: int
  al_max_depth :: int
  al_max_nodes :: int

definition annot_default_limits :: annot_limits where
  "annot_default_limits = \<lparr>al_max_bytes = 16 * 2 ^ 20, al_max_elements = 200000, al_max_id_bytes = 128,
     al_max_op_bytes = 2 ^ 20, al_max_state_bytes = 64 * 2 ^ 20, al_max_ops = 10000,
     al_max_tombstones = 200000, al_max_depth = 64, al_max_nodes = 2000000\<rparr>"

text \<open>One optional field: negative is an error, zero is the default.\<close>

definition optional_limit :: "int \<Rightarrow> int \<Rightarrow> annot_error + int" where
  "optional_limit x d = (if x < 0 then Inl AErrInvalidLimits else if x = 0 then Inr d else Inr x)"

definition annot_normalized :: "annot_limits \<Rightarrow> annot_error + annot_limits" where
  "annot_normalized l =
    (if al_max_bytes l \<le> 0 \<or> al_max_elements l \<le> 0 \<or> al_max_id_bytes l \<le> 0 then Inl AErrInvalidLimits
     else let d = annot_default_limits in
       rbind (optional_limit (al_max_op_bytes l) (al_max_op_bytes d)) (\<lambda>ob.
       rbind (optional_limit (al_max_state_bytes l) (al_max_state_bytes d)) (\<lambda>sb.
       rbind (optional_limit (al_max_ops l) (al_max_ops d)) (\<lambda>os.
       rbind (optional_limit (al_max_tombstones l) (al_max_tombstones d)) (\<lambda>ts.
       rbind (optional_limit (al_max_depth l) (al_max_depth d)) (\<lambda>dp.
       rbind (optional_limit (al_max_nodes l) (al_max_nodes d)) (\<lambda>ns.
         Inr (l\<lparr>al_max_op_bytes := ob, al_max_state_bytes := sb, al_max_ops := os,
           al_max_tombstones := ts, al_max_depth := dp, al_max_nodes := ns\<rparr>))))))))"

definition annot_limits_validate :: "annot_limits \<Rightarrow> annot_error option" where
  "annot_limits_validate l = (case annot_normalized l of Inl e \<Rightarrow> Some e | Inr _ \<Rightarrow> None)"

lemma optional_limit_pos: "optional_limit x d = Inr y \<Longrightarrow> 0 < d \<Longrightarrow> 0 < y"
  by (auto simp: optional_limit_def split: if_splits)

lemma annot_defaults_pos: "0 < al_max_op_bytes annot_default_limits"
  "0 < al_max_state_bytes annot_default_limits" "0 < al_max_ops annot_default_limits"
  "0 < al_max_tombstones annot_default_limits" "0 < al_max_depth annot_default_limits"
  "0 < al_max_nodes annot_default_limits"
  by (simp_all add: annot_default_limits_def)

text \<open>Normalized limits are all positive.\<close>

lemma annot_normalized_pos:
  assumes "annot_normalized l = Inr m"
  shows "0 < al_max_bytes m \<and> 0 < al_max_elements m \<and> 0 < al_max_id_bytes m \<and> 0 < al_max_op_bytes m
    \<and> 0 < al_max_state_bytes m \<and> 0 < al_max_ops m \<and> 0 < al_max_tombstones m \<and> 0 < al_max_depth m
    \<and> 0 < al_max_nodes m"
proof -
  let ?d = annot_default_limits
  have l: "\<not> (al_max_bytes l \<le> 0 \<or> al_max_elements l \<le> 0 \<or> al_max_id_bytes l \<le> 0)"
    using assms unfolding annot_normalized_def by (rule contrapos_pn) (simp only: if_True sum.simps simp_thms)
  obtain ob sb os ts dp ns where
    o1: "optional_limit (al_max_op_bytes l) (al_max_op_bytes ?d) = Inr ob"
      "optional_limit (al_max_state_bytes l) (al_max_state_bytes ?d) = Inr sb"
      "optional_limit (al_max_ops l) (al_max_ops ?d) = Inr os"
      "optional_limit (al_max_tombstones l) (al_max_tombstones ?d) = Inr ts"
      "optional_limit (al_max_depth l) (al_max_depth ?d) = Inr dp"
      "optional_limit (al_max_nodes l) (al_max_nodes ?d) = Inr ns"
    and m: "l\<lparr>al_max_op_bytes := ob, al_max_state_bytes := sb, al_max_ops := os,
           al_max_tombstones := ts, al_max_depth := dp, al_max_nodes := ns\<rparr> = m"
    using assms unfolding annot_normalized_def Let_def if_not_P [OF l] rbind_Inr_iff sum.inject by blast
  note pos = optional_limit_pos [OF o1(1) annot_defaults_pos(1)] optional_limit_pos [OF o1(2) annot_defaults_pos(2)]
    optional_limit_pos [OF o1(3) annot_defaults_pos(3)] optional_limit_pos [OF o1(4) annot_defaults_pos(4)]
    optional_limit_pos [OF o1(5) annot_defaults_pos(5)] optional_limit_pos [OF o1(6) annot_defaults_pos(6)]
  show ?thesis using l pos unfolding m [symmetric] by simp
qed

end
