(* ===== verification/Annot_Json.thy ===== *)
theory Annot_Json
  imports Annot_Limits Json_String "HOL-Library.AList"
begin

text \<open>
  The strict JSON layer of the annotation core, \<^verbatim>\<open>internal/core/annot/json.go\<close>. A
  \<^verbatim>\<open>json.RawMessage\<close> is its text; a Go map is an association list with distinct keys. The
  walk over decoder tokens is a walk over the tree of the text, in the same order.
  \<open>strictJSON\<close> is proved to accept exactly the documents it describes and to be
  the identity on what it has returned.
\<close>

section \<open>The checks\<close>

text \<open>
  \<open>validUnicodeEscapes\<close>; the flag tells whether the scan is inside a literal. The scan runs
  on valid JSON, where a backslash is never the last byte and four digits follow
  \<^verbatim>\<open>\u\<close>; elsewhere the code would index out of range, and the value here is of no interest.
\<close>

function escapes_ok :: "bool \<Rightarrow> string \<Rightarrow> bool" where
  "escapes_ok inside [] = True"
| "escapes_ok False (c # s) = escapes_ok (c = quote_char) s"
| "escapes_ok True (c # s) =
    (if c = quote_char then escapes_ok False s
     else if c \<noteq> CHR 0x5C then escapes_ok True s
     else if s = [] then True
     else if hd s \<noteq> CHR ''u'' then escapes_ok True (tl s)
     else (case get_u4 (c # s) of
          None \<Rightarrow> escapes_ok True (drop 5 s)
        | Some (u, s2) \<Rightarrow>
          if 0xDC00 \<le> u \<and> u \<le> 0xDFFF then False
          else if u < 0xD800 \<or> u > 0xDBFF then escapes_ok True s2
          else (case get_u4 s2 of None \<Rightarrow> False
             | Some (v, s3) \<Rightarrow> if v < 0xDC00 \<or> v > 0xDFFF then False else escapes_ok True s3)))"
  by pat_completeness auto
termination by (relation "measure (\<lambda>(_, s). length s)") (auto dest!: get_u4_shorter)

text \<open>\<open>walkJSON\<close>; the number of nodes seen so far goes in and comes out.\<close>

function (sequential) walk_json :: "annot_limits \<Rightarrow> int \<Rightarrow> int \<Rightarrow> raw \<Rightarrow> annot_error + int"
  and walk_items :: "annot_limits \<Rightarrow> int \<Rightarrow> int \<Rightarrow> raw list \<Rightarrow> annot_error + int"
  and walk_members :: "annot_limits \<Rightarrow> int \<Rightarrow> int \<Rightarrow> string list \<Rightarrow> (string \<times> raw) list \<Rightarrow> annot_error + int" where
  "walk_json l depth nodes v =
    (if depth > al_max_depth l \<or> nodes + 1 > al_max_nodes l then Inl AErrLimit
     else case v of RObj ms \<Rightarrow> walk_members l (depth + 1) (nodes + 1) [] ms
       | RArr vs \<Rightarrow> walk_items l (depth + 1) (nodes + 1) vs
       | _ \<Rightarrow> Inr (nodes + 1))"
| "walk_items l depth nodes [] = Inr nodes"
| "walk_items l depth nodes (v # vs) = rbind (walk_json l depth nodes v) (\<lambda>n. walk_items l depth n vs)"
| "walk_members l depth nodes seen [] = Inr nodes"
| "walk_members l depth nodes seen ((k, v) # ms) =
    (if unquote k \<in> set seen then Inl AErrDuplicateKey
     else rbind (walk_json l depth nodes v) (\<lambda>n. walk_members l depth n (unquote k # seen) ms))"
  by pat_completeness auto
termination
  by (relation "measure (\<lambda>x. case x of Inl (_, _, _, v) \<Rightarrow> size v | Inr (Inl (_, _, _, vs)) \<Rightarrow> size_list size vs
      | Inr (Inr (_, _, _, _, ms)) \<Rightarrow> size_list (size_prod (\<lambda>_. 0) size) ms)") auto

declare walk_json.simps [simp del]

definition strict_json :: "annot_limits \<Rightarrow> string \<Rightarrow> int \<Rightarrow> annot_error + string" where
  "strict_json l s max_bytes =
    (if int (length s) > max_bytes then Inl AErrLimit
     else case parse_json s of
       None \<Rightarrow> Inl AErrInvalidJSON
     | Some v \<Rightarrow>
       if \<not> valid_string s \<or> \<not> escapes_ok False s then Inl AErrInvalidJSON
       else rbind (walk_json l 1 0 v) (\<lambda>_. Inr (raw_compact v)))"

section \<open>Reading and writing members\<close>

text \<open>
  \<open>object\<close> and \<open>array\<close> are called on compact text, where the bytes of a value are the compact
  text of its tree. Of two members with the same name the later one stays, as in
  \<^verbatim>\<open>json.Unmarshal\<close>.
\<close>

definition put_member :: "string \<times> raw \<Rightarrow> (string \<times> string) list \<Rightarrow> (string \<times> string) list" where
  "put_member m obj = AList.update (unquote (fst m)) (raw_compact (snd m)) obj"

definition object_of :: "string \<Rightarrow> annot_error + (string \<times> string) list" where
  "object_of s =
    (if s = [] \<or> hd s \<noteq> CHR ''{'' then Inl AErrNotSidecar
     else case parse_json s of Some (RObj ms) \<Rightarrow> Inr (fold put_member ms []) | _ \<Rightarrow> Inl AErrInvalidJSON)"

definition array_of :: "string \<Rightarrow> annot_error + string list" where
  "array_of s =
    (if s = [] \<or> hd s \<noteq> CHR ''['' then Inl AErrNotSidecar
     else case parse_json s of Some (RArr vs) \<Rightarrow> Inr (map raw_compact vs) | _ \<Rightarrow> Inl AErrInvalidJSON)"

text \<open>\<open>quoted\<close>: a literal without the HTML escapes.\<close>

definition plain_rune :: "nat \<Rightarrow> string" where
  "plain_rune r = (if r \<in> {0x3C, 0x3E, 0x26} then [char_of r] else json_rune r)"

function plain_body :: "string \<Rightarrow> string" where
  "plain_body s =
    (if s = [] then []
     else let r = fst (decode_rune s); n = snd (decode_rune s) in
       (if r = rune_error \<and> n = 1 then CHR 0x5C # ''ufffd'' else plain_rune r) @ plain_body (drop n s))"
  by pat_completeness auto
termination by (relation "measure length") (auto simp: decode_rune_progress)

declare plain_body.simps [simp del]

definition quoted :: "string \<Rightarrow> string" where
  "quoted s = quote_char # plain_body s @ [quote_char]"

definition append_member :: "string \<Rightarrow> string \<Rightarrow> string \<Rightarrow> string" where
  "append_member out name v = (if length out > 1 then out @ '','' else out) @ quoted name @ '':'' @ v"

definition raw_array :: "string list \<Rightarrow> string" where
  "raw_array vs = ''['' @ join_with '','' vs @ '']''"

section \<open>What the checks mean\<close>

text \<open>All the values of a tree, and how deep they lie; names are counted as decoded.\<close>

fun raw_nodes :: "raw \<Rightarrow> int" where
  "raw_nodes (RArr vs) = 1 + sum_list (map raw_nodes vs)"
| "raw_nodes (RObj ms) = 1 + sum_list (map (\<lambda>(k, v). raw_nodes v) ms)"
| "raw_nodes v = 1"

fun raw_depth_ok :: "int \<Rightarrow> raw \<Rightarrow> bool" where
  "raw_depth_ok d (RArr vs) \<longleftrightarrow> 0 < d \<and> (\<forall>v \<in> set vs. raw_depth_ok (d - 1) v)"
| "raw_depth_ok d (RObj ms) \<longleftrightarrow> 0 < d \<and> (\<forall>(k, v) \<in> set ms. raw_depth_ok (d - 1) v)"
| "raw_depth_ok d v \<longleftrightarrow> 0 < d"

fun raw_distinct :: "raw \<Rightarrow> bool" where
  "raw_distinct (RArr vs) \<longleftrightarrow> (\<forall>v \<in> set vs. raw_distinct v)"
| "raw_distinct (RObj ms) \<longleftrightarrow> distinct (map (unquote \<circ> fst) ms) \<and> (\<forall>(k, v) \<in> set ms. raw_distinct v)"
| "raw_distinct v \<longleftrightarrow> True"

fun raw_paired :: "raw \<Rightarrow> bool" where
  "raw_paired (RStr b) \<longleftrightarrow> paired b"
| "raw_paired (RArr vs) \<longleftrightarrow> (\<forall>v \<in> set vs. raw_paired v)"
| "raw_paired (RObj ms) \<longleftrightarrow> (\<forall>(k, v) \<in> set ms. paired k \<and> raw_paired v)"
| "raw_paired (RWord w) \<longleftrightarrow> True"

lemma raw_nodes_pos: "0 < raw_nodes v"
proof (induction v rule: raw_nodes.induct)
  case (1 vs)
  then show ?case using sum_list_nonneg_int [of vs raw_nodes] by (auto simp: less_imp_le)
next
  case (2 ms)
  have "0 \<le> sum_list (map (\<lambda>(k, v). raw_nodes v) ms)"
    by (rule sum_list_nonneg_int) (use 2 less_imp_le in fastforce)
  then show ?case by simp
qed simp_all

text \<open>The walk succeeds exactly within the budgets and on distinct names, and counts the nodes.\<close>

lemma walk_json_exact:
  fixes l :: annot_limits
  shows "walk_json l d n v = Inr m \<longleftrightarrow> raw_depth_ok (al_max_depth l - d + 1) v \<and> raw_distinct v
      \<and> m = n + raw_nodes v \<and> m \<le> al_max_nodes l"
    and "walk_items l d n vs = Inr m \<longleftrightarrow> (\<forall>v \<in> set vs. raw_depth_ok (al_max_depth l - d + 1) v \<and> raw_distinct v)
      \<and> m = n + sum_list (map raw_nodes vs) \<and> (vs \<noteq> [] \<longrightarrow> m \<le> al_max_nodes l)"
    and "walk_members l d n seen ms = Inr m \<longleftrightarrow> (\<forall>(k, v) \<in> set ms. raw_depth_ok (al_max_depth l - d + 1) v \<and> raw_distinct v)
      \<and> distinct (map (unquote \<circ> fst) ms) \<and> set seen \<inter> (unquote \<circ> fst) ` set ms = {}
      \<and> m = n + sum_list (map (\<lambda>(k, v). raw_nodes v) ms) \<and> (ms \<noteq> [] \<longrightarrow> m \<le> al_max_nodes l)"
proof (induction l d n v and l d n vs and l d n seen ms arbitrary: m and m and m rule: walk_json_walk_items_walk_members.induct)
  case (1 l d n v)
  show ?case
  proof (cases "d > al_max_depth l \<or> n + 1 > al_max_nodes l")
    case True
    have "\<not> raw_depth_ok e v" if "e \<le> 0" for e using that by (cases v) auto
    then show ?thesis using True raw_nodes_pos [of v] by (auto simp: walk_json.simps [of l d n v])
  next
    case False
    show ?thesis
    proof (cases v)
      case (RObj ms)
      have w: "walk_json l d n v = walk_members l (d + 1) (n + 1) [] ms" unfolding walk_json.simps [of l d n v] using False RObj by simp
      have s: "0 \<le> sum_list (map (\<lambda>(k, v). raw_nodes v) ms)"
        by (rule sum_list_nonneg_int) (auto simp: raw_nodes_pos less_imp_le)
      have d: "al_max_depth l - (d + 1) + 1 = al_max_depth l - d" by simp
      note IH = "1.IH"(2) [OF False RObj, of m, unfolded d]
      show ?thesis unfolding w IH using RObj False by (cases "ms = []") auto
    next
      case (RArr vs)
      have w: "walk_json l d n v = walk_items l (d + 1) (n + 1) vs" unfolding walk_json.simps [of l d n v] using False RArr by simp
      have d: "al_max_depth l - (d + 1) + 1 = al_max_depth l - d" by simp
      note IH = "1.IH"(1) [OF False RArr, of m, unfolded d]
      show ?thesis unfolding w IH using RArr False by (cases "vs = []") auto
    next
      case (RWord w)
      then show ?thesis unfolding walk_json.simps [of l d n v] using False by auto
    next
      case (RStr b)
      then show ?thesis unfolding walk_json.simps [of l d n v] using False by auto
    qed
  qed
next
  case (3 l d n v vs)
  have "0 \<le> sum_list (map raw_nodes vs)" by (rule sum_list_nonneg_int) (simp add: raw_nodes_pos less_imp_le)
  then show ?case using 3 by (auto simp: sum_split)
next
  case (5 l d n seen k v ms)
  have "0 \<le> sum_list (map (\<lambda>(k, v). raw_nodes v) ms)"
    by (rule sum_list_nonneg_int) (auto simp: raw_nodes_pos less_imp_le)
  then show ?case using 5 by (auto simp: sum_split)
qed auto

text \<open>On valid JSON the scan of the bytes is the check of every literal.\<close>

lemma json_chars_get_u4:
  assumes "json_chars (CHR 0x5C # CHR ''u'' # s)"
  obtains u t where "get_u4 (CHR 0x5C # CHR ''u'' # s @ r) = Some (u, t @ r)" "get_u4 (CHR 0x5C # CHR ''u'' # s) = Some (u, t)" "json_chars t"
  using assms by (cases rule: json_chars.cases) (auto simp: get_u4_def)

lemma get_u4_shape: "get_u4 s = Some (u, t) \<Longrightarrow> \<exists>z. s = CHR 0x5C # CHR ''u'' # z"
  by (auto simp: get_u4_def split: list.splits if_splits)

lemma get_u4_literal:
  assumes "json_chars b"
  shows "get_u4 (b @ quote_char # r) = map_option (\<lambda>(u, t). (u, t @ quote_char # r)) (get_u4 b)"
    and "get_u4 b = Some (u, t) \<Longrightarrow> json_chars t"
proof -
  have "get_u4 (b @ quote_char # r) = map_option (\<lambda>(u, t). (u, t @ quote_char # r)) (get_u4 b)
      \<and> (\<forall>u t. get_u4 b = Some (u, t) \<longrightarrow> json_chars t)"
    using assms
  proof (cases rule: json_chars.cases)
    case (escape d s)
    then show ?thesis using get_u4_escape [OF escape_not_u [OF escape(2)]] by simp
  qed (auto simp: get_u4_def split: list.splits)
  then show "get_u4 (b @ quote_char # r) = map_option (\<lambda>(u, t). (u, t @ quote_char # r)) (get_u4 b)"
    "get_u4 b = Some (u, t) \<Longrightarrow> json_chars t" by blast+
qed

lemma escapes_ok_literal:
  "json_chars b \<Longrightarrow> escapes_ok True (b @ quote_char # r) = (paired b \<and> escapes_ok False r)"
proof (induction b rule: paired.induct)
  case (1 b)
  from "1.prems" show ?case
  proof (cases rule: json_chars.cases)
    case none
    then show ?thesis by simp
  next
    case (plain c s)
    then show ?thesis using "1.IH"(1) [of c s] by (simp add: paired_plain)
  next
    case (escape d s)
    have g: "get_u4 b = None" using get_u4_escape [OF escape_not_u [OF escape(2)]] escape(1) by simp
    have "escapes_ok True (b @ quote_char # r) = escapes_ok True (s @ quote_char # r)"
      using escape escape_not_u [OF escape(2)] by simp
    moreover have "paired b = paired s" unfolding paired.simps [of b] using g escape(1) by simp
    ultimately show ?thesis using "1.IH"(2) [of "CHR 0x5C" "d # s"] g escape by simp
  next
    case (unicode h1 h2 h3 h4 s)
    let ?u = "hex4 h1 h2 h3 h4"
    have g: "get_u4 b = Some (?u, s)" "get_u4 (b @ quote_char # r) = Some (?u, s @ quote_char # r)"
      using unicode by (simp_all add: get_u4_def)
    have e: "escapes_ok True (b @ quote_char # r) =
       (if 0xDC00 \<le> ?u \<and> ?u \<le> 0xDFFF then False
          else if ?u < 0xD800 \<or> ?u > 0xDBFF then escapes_ok True (s @ quote_char # r)
          else (case get_u4 (s @ quote_char # r) of None \<Rightarrow> False
             | Some (v, s3) \<Rightarrow> if v < 0xDC00 \<or> v > 0xDFFF then False else escapes_ok True s3))"
      using g(2) unicode(1) by simp
    have p: "paired b = (if 0xDC00 \<le> ?u \<and> ?u < 0xE000 then False
            else if 0xD800 \<le> ?u \<and> ?u < 0xDC00 then
              (case get_u4 s of None \<Rightarrow> False | Some (r1, s3) \<Rightarrow> 0xDC00 \<le> r1 \<and> r1 < 0xE000 \<and> paired s3)
            else paired s)"
      unfolding paired.simps [of b] using g(1) unicode(1) by simp
    show ?thesis
    proof (cases "0xD800 \<le> ?u \<and> ?u < 0xE000")
      case False
      then have u: "\<not> (0xDC00 \<le> ?u \<and> ?u < 0xE000)" "\<not> (0xD800 \<le> ?u \<and> ?u < 0xDC00)" "?u < 0xD800 \<or> ?u > 0xDBFF" "\<not> (0xDC00 \<le> ?u \<and> ?u \<le> 0xDFFF)" by auto
      have "escapes_ok True (b @ quote_char # r) = escapes_ok True (s @ quote_char # r)" "paired b = paired s"
        using e p by (simp_all only: if_not_P [OF u(1)] if_not_P [OF u(2)] if_not_P [OF u(4)] if_P [OF u(3)])
      then show ?thesis using "1.IH"(4) [OF unicode(1) _ g(1) refl] unicode(3) u by simp
    next
      case sur: True
      show ?thesis
      proof (cases "0xDC00 \<le> ?u")
        case True
        then show ?thesis using e p sur by simp
      next
        case lo: False
        note lit = get_u4_literal [OF unicode(3)]
        show ?thesis
        proof (cases "get_u4 s")
          case None
          then show ?thesis using e p sur lo lit(1) [of r] by simp
        next
          case (Some q)
          then obtain v t where q: "get_u4 s = Some (v, t)" by (cases q) simp
          have IH: "escapes_ok True (t @ quote_char # r) = (paired t \<and> escapes_ok False r)"
            using "1.IH"(3) [OF unicode(1) _ g(1) refl _ _ q refl] lit(2) [OF q] lo sur by simp
          show ?thesis using e p sur lo lit(1) [of r] q IH by auto
        qed
      qed
    qed
  qed
qed

lemma escapes_ok_plain: "\<forall>c \<in> set w. c \<noteq> quote_char \<Longrightarrow> escapes_ok False (w @ r) = escapes_ok False r"
  by (induction w) auto

lemma blank_plain: "blank w \<Longrightarrow> \<forall>c \<in> set w. c \<noteq> quote_char"
  by (induction w) (auto simp: is_ws_def)

lemma digit_plain: "is_digit c \<Longrightarrow> bv c < 0x80 \<and> c \<noteq> quote_char"
  by (auto simp: is_digit_def)

lemma number_chars:
  assumes "json_number w"
  shows "\<forall>c \<in> set w. is_digit c \<or> c \<in> set ''-+.eE''"
proof -
  define P where "P s \<longleftrightarrow> (\<forall>c \<in> set s. is_digit c \<or> c \<in> set ''-+.eE'')" for s :: string
  have P: "P []" "P (c # s) \<longleftrightarrow> (is_digit c \<or> c \<in> set ''-+.eE'') \<and> P s" "P (s @ t) \<longleftrightarrow> P s \<and> P t" for c s t
    unfolding P_def by auto
  have dig: "P ds" if "digits ds" for ds
    using that unfolding P_def digits_def list_all_iff by blast
  obtain sg i f e where w: "w = sg @ i @ f @ e" and parts: "sg \<in> {[], ''-''}" "i = ''0'' \<or> digits i"
      "f = [] \<or> (\<exists>ds. f = CHR ''.'' # ds \<and> digits ds)"
      "e = [] \<or> (\<exists>x z ds. e = x # z @ ds \<and> x \<in> {CHR ''e'', CHR ''E''} \<and> z \<in> {[], ''+'', ''-''} \<and> digits ds)"
    using assms unfolding json_number_def by blast
  have "P sg" using parts(1) by (auto simp: P)
  moreover have "P i" using parts(2) dig [of i] by (auto simp: P is_digit_def)
  moreover have "P f"
  proof (cases "f = []")
    case False
    then obtain ds where ds: "f = CHR ''.'' # ds" "digits ds" using parts(3) by blast
    then show ?thesis using dig [OF ds(2)] by (simp add: P)
  qed (simp add: P)
  moreover have "P e"
  proof (cases "e = []")
    case False
    then obtain x z ds where ds: "e = x # z @ ds" "x \<in> {CHR ''e'', CHR ''E''}" "z \<in> {[], ''+'', ''-''}" "digits ds" using parts(4) by blast
    have "P z" using ds(3) by (elim insertE emptyE) (simp_all add: P)
    moreover have "P [x]" using ds(2) by (elim insertE emptyE) (simp_all add: P)
    ultimately show ?thesis using dig [OF ds(4)] ds(1) P by simp
  qed (simp add: P)
  ultimately have "P w" unfolding w P(3) by blast
  then show ?thesis by (simp add: P_def)
qed

lemma number_plain: "json_number w \<Longrightarrow> \<forall>c \<in> set w. bv c < 0x80 \<and> c \<noteq> quote_char"
proof (rule ballI)
  fix c assume "json_number w" "c \<in> set w"
  then have "is_digit c \<or> c \<in> set ''-+.eE''" using number_chars by blast
  then show "bv c < 0x80 \<and> c \<noteq> quote_char" using digit_plain by auto
qed

lemma word_plain: "json_word w \<Longrightarrow> \<forall>c \<in> set w. bv c < 0x80 \<and> c \<noteq> quote_char"
  using number_plain [of w] by (auto simp: json_word_def)

lemma escapes_ok_renders:
  "renders d v t \<Longrightarrow> escapes_ok False (t @ r) = (raw_paired v \<and> escapes_ok False r)"
  "renders_items d vs t \<Longrightarrow> escapes_ok False (t @ r) = ((\<forall>v \<in> set vs. raw_paired v) \<and> escapes_ok False r)"
  "renders_members d ms t \<Longrightarrow> escapes_ok False (t @ r) = ((\<forall>(k, v) \<in> set ms. paired k \<and> raw_paired v) \<and> escapes_ok False r)"
proof (induction arbitrary: r and r and r rule: renders_renders_items_renders_members.inducts)
  case (word w d)
  then show ?case using escapes_ok_plain [of w r] word_plain by simp
next
  case (literal b d)
  then show ?case by (simp add: escapes_ok_literal)
next
  case (no_items w d)
  then show ?case using escapes_ok_plain [OF blank_plain, of w] by simp
next
  case (no_members w d)
  then show ?case using escapes_ok_plain [OF blank_plain, of w] by simp
next
  case (last_item w d v t w1)
  then show ?case using escapes_ok_plain [OF blank_plain, of w] escapes_ok_plain [OF blank_plain, of w1] by simp
next
  case (more_items w d v t w1 vs u)
  then show ?case using escapes_ok_plain [OF blank_plain, of w] escapes_ok_plain [OF blank_plain, of w1] by simp
next
  case (last_member w k w1 w2 d v t w3)
  then show ?case using escapes_ok_plain [OF blank_plain, of w] escapes_ok_plain [OF blank_plain, of w1]
      escapes_ok_plain [OF blank_plain, of w2] escapes_ok_plain [OF blank_plain, of w3] by (simp add: escapes_ok_literal)
next
  case (more_members w k w1 w2 d v t w3 ms u)
  then show ?case using escapes_ok_plain [OF blank_plain, of w] escapes_ok_plain [OF blank_plain, of w1]
      escapes_ok_plain [OF blank_plain, of w2] escapes_ok_plain [OF blank_plain, of w3] by (simp add: escapes_ok_literal)
qed simp_all

lemma escapes_ok_document: "json_document v s \<Longrightarrow> escapes_ok False s = raw_paired v"
proof -
  assume "json_document v s"
  then obtain w t w1 where s: "s = w @ t @ w1" "blank w" "blank w1" "renders json_max_depth v t" unfolding json_document_def by blast
  then show ?thesis using escapes_ok_plain [OF blank_plain [OF s(2)]] escapes_ok_plain [OF blank_plain [OF s(3)], of "[]"]
      escapes_ok_renders(1) [OF s(4)] by simp
qed

section \<open>Exactness\<close>

lemma ascii_prefix: "\<forall>c \<in> set w. bv c < 0x80 \<Longrightarrow> valid_string (w @ r) = valid_string r"
  by (induction w) simp_all

lemma blank_ascii: "blank w \<Longrightarrow> valid_string (w @ r) = valid_string r"
  by (induction w) (auto simp: is_ws_def)

lemma word_ascii: "json_word w \<Longrightarrow> valid_string (w @ r) = valid_string r"
  using word_plain by (simp add: ascii_prefix)

lemma valid_literal: "valid_string (quote_char # b @ quote_char # r) \<longleftrightarrow> valid_string b \<and> valid_string r"
  by (simp add: valid_before_ascii)

text \<open>Blanks are ASCII, so the compact text of a valid text is valid and not longer.\<close>

lemma valid_renders:
  "renders d v t \<Longrightarrow> valid_string (t @ r) \<longleftrightarrow> valid_string (raw_compact v) \<and> valid_string r"
  "renders_items d vs t \<Longrightarrow> valid_string (t @ r) \<longleftrightarrow> valid_string (join_with '','' (map raw_compact vs)) \<and> valid_string r"
  "renders_members d ms t \<Longrightarrow> valid_string (t @ r) \<longleftrightarrow>
     valid_string (join_with '','' (map (\<lambda>(k, v). quote_char # k @ quote_char # '':'' @ raw_compact v) ms)) \<and> valid_string r"
proof (induction arbitrary: r and r and r rule: renders_renders_items_renders_members.inducts)
  case (word w d)
  then show ?case using word_ascii [of w r] word_ascii [of w "[]"] by simp
next
  case (items d vs t)
  then show ?case using items.IH [of "'']'' @ r"] by (simp add: valid_before_ascii)
next
  case (members d ms t)
  then show ?case using members.IH [of "''}'' @ r"] by (simp add: valid_before_ascii)
next
  case (more_items w d v t w1 vs u)
  then have "vs \<noteq> []" using renders_items_nonempty by blast
  then show ?case using more_items by (simp add: blank_ascii join_with_cons valid_before_ascii)
next
  case (more_members w k w1 w2 d v t w3 ms u)
  then have "ms \<noteq> []" using renders_members_nonempty by blast
  then show ?case using more_members by (simp add: blank_ascii join_with_cons valid_before_ascii)
qed (simp_all add: blank_ascii valid_before_ascii)

lemma compact_length:
  "renders d v t \<Longrightarrow> length (raw_compact v) \<le> length t"
  "renders_items d vs t \<Longrightarrow> length (join_with '','' (map raw_compact vs)) \<le> length t"
  "renders_members d ms t \<Longrightarrow>
     length (join_with '','' (map (\<lambda>(k, v). quote_char # k @ quote_char # '':'' @ raw_compact v) ms)) \<le> length t"
proof (induction rule: renders_renders_items_renders_members.inducts)
  case (more_items w d v t w1 vs u)
  then have "vs \<noteq> []" using renders_items_nonempty by blast
  then show ?case using more_items by (simp add: join_with_cons)
next
  case (more_members w k w1 w2 d v t w3 ms u)
  then have "ms \<noteq> []" using renders_members_nonempty by blast
  then show ?case using more_members by (simp add: join_with_cons)
qed simp_all

definition strict_tree :: "annot_limits \<Rightarrow> raw \<Rightarrow> bool" where
  "strict_tree l v \<longleftrightarrow> raw_depth_ok (al_max_depth l) v \<and> raw_nodes v \<le> al_max_nodes l \<and> raw_distinct v \<and> raw_paired v"

lemma strict_json_document:
  "strict_json l s m = Inr out \<longleftrightarrow> int (length s) \<le> m \<and> valid_string s
     \<and> (\<exists>v. json_document v s \<and> strict_tree l v \<and> out = raw_compact v)"
proof (cases "parse_json s")
  case None
  then have "\<not> json_document v s" for v using parse_json_exact [of s v] by simp
  then show ?thesis using None by (simp add: strict_json_def)
next
  case (Some v)
  then have d: "json_document u s \<longleftrightarrow> u = v" for u using parse_json_exact [of s u] by auto
  have e: "escapes_ok False s = raw_paired v" using escapes_ok_document d by blast
  have w: "(\<exists>n. walk_json l 1 0 v = Inr n) \<longleftrightarrow> raw_depth_ok (al_max_depth l) v \<and> raw_nodes v \<le> al_max_nodes l \<and> raw_distinct v"
    by (auto simp: walk_json_exact(1))
  show ?thesis using Some w unfolding strict_json_def strict_tree_def d e
    by (auto simp: sum_split)
qed

text \<open>A compact text that passes the checks; what \<open>strictJSON\<close> returns, and what it keeps.\<close>

definition strict_text :: "annot_limits \<Rightarrow> string \<Rightarrow> bool" where
  "strict_text l s \<longleftrightarrow> valid_string s \<and> (case parse_json s of Some v \<Rightarrow> strict_tree l v \<and> raw_compact v = s | None \<Rightarrow> False)"

lemma strict_textE:
  assumes "strict_text l s"
  obtains v where "raw_ok v" "strict_tree l v" "s = raw_compact v" "valid_string s" "parse_json s = Some v"
  using assms parse_json_ok [of s] unfolding strict_text_def by (auto split: option.splits)

lemma strict_textI: "raw_ok v \<Longrightarrow> strict_tree l v \<Longrightarrow> valid_string (raw_compact v) \<Longrightarrow> strict_text l (raw_compact v)"
  by (simp add: strict_text_def parse_compact)

lemma strict_json_strict:
  assumes "strict_json l s m = Inr out"
  shows "strict_text l out \<and> length out \<le> length s \<and> int (length s) \<le> m"
proof -
  obtain v where v: "int (length s) \<le> m" "valid_string s" "json_document v s" "strict_tree l v" "out = raw_compact v"
    using assms unfolding strict_json_document by blast
  obtain w t w1 where s: "s = w @ t @ w1" "blank w" "blank w1" "renders json_max_depth v t" using v(3) unfolding json_document_def by blast
  have ok: "raw_ok v" using renders_compact(1) [OF s(4)] by (simp add: raw_ok_def)
  have "valid_string (raw_compact v)" using v(2) s valid_renders(1) [OF s(4)] by (simp add: blank_ascii)
  then show ?thesis using strict_textI [OF ok v(4)] compact_length(1) [OF s(4)] v(1,5) s(1) by simp
qed

lemma strict_json_id:
  assumes "strict_text l s" and "int (length s) \<le> m"
  shows "strict_json l s m = Inr s"
  using assms(1)
proof (rule strict_textE)
  fix v assume "raw_ok v" "strict_tree l v" "s = raw_compact v" "valid_string s" "parse_json s = Some v"
  then show ?thesis using assms(2) parse_json_exact [of s v] unfolding strict_json_document by blast
qed

section \<open>Members of strict texts\<close>

lemma raw_depth_mono: "raw_depth_ok d v \<Longrightarrow> d \<le> e \<Longrightarrow> raw_depth_ok e v"
proof (induction d v arbitrary: e rule: raw_depth_ok.induct)
  case (1 d vs)
  then show ?case using "1.IH" [of _ "e - 1"] by simp
next
  case (2 d ms)
  have "raw_depth_ok (e - 1) v" if "(k, v) \<in> set ms" for k v
    using "2.IH" [OF that refl, of "e - 1"] "2.prems" that by auto
  then show ?case using "2.prems" by auto
qed simp_all

lemma renders_mono:
  "renders d v t \<Longrightarrow> d \<le> e \<Longrightarrow> renders e v t"
  "renders_items d vs t \<Longrightarrow> d \<le> e \<Longrightarrow> renders_items e vs t"
  "renders_members d ms t \<Longrightarrow> d \<le> e \<Longrightarrow> renders_members e ms t"
proof (induction arbitrary: e and e and e rule: renders_renders_items_renders_members.inducts)
  case (no_items w d)
  then show ?case by (cases e) (auto intro: json_rules)
next
  case (items d vs t)
  then show ?case by (cases e) (auto intro: json_rules)
next
  case (no_members w d)
  then show ?case by (cases e) (auto intro: json_rules)
next
  case (members d ms t)
  then show ?case by (cases e) (auto intro: json_rules)
qed (auto intro: json_rules)

lemma renders_parts:
  "renders d v t \<Longrightarrow> True"
  "renders_items d vs t \<Longrightarrow> \<forall>v \<in> set vs. \<exists>u. renders d v u"
  "renders_members d ms t \<Longrightarrow> \<forall>(k, v) \<in> set ms. json_chars k \<and> (\<exists>u. renders d v u)"
  by (induction rule: renders_renders_items_renders_members.inducts) auto

lemma raw_ok_parts:
  "raw_ok (RArr vs) \<Longrightarrow> v \<in> set vs \<Longrightarrow> raw_ok v"
  "raw_ok (RObj ms) \<Longrightarrow> (k, v) \<in> set ms \<Longrightarrow> json_chars k \<and> raw_ok v"
proof -
  have up: "\<exists>u. renders d v u \<Longrightarrow> Suc d \<le> json_max_depth \<Longrightarrow> raw_ok v" for d v
    using renders_compact(1) renders_mono(1) [of d v _ json_max_depth] unfolding raw_ok_def by (meson Suc_leD)
  show "raw_ok v" if ok: "raw_ok (RArr vs)" and v: "v \<in> set vs"
  proof -
    have "renders json_max_depth (RArr vs) (raw_compact (RArr vs))" using ok by (simp add: raw_ok_def)
    then obtain d t where "json_max_depth = Suc d" "renders_items d vs t"
      using v by (cases rule: renders.cases) auto
    then show ?thesis using renders_parts(2) [of d vs t] v up [of d v] by auto
  qed
  show "json_chars k \<and> raw_ok v" if ok: "raw_ok (RObj ms)" and v: "(k, v) \<in> set ms"
  proof -
    have "renders json_max_depth (RObj ms) (raw_compact (RObj ms))" using ok by (simp add: raw_ok_def)
    then obtain d t where "json_max_depth = Suc d" "renders_members d ms t"
      using v by (cases rule: renders.cases) auto
    then have "json_chars k \<and> (\<exists>u. renders d v u)" "Suc d \<le> json_max_depth" using renders_parts(3) [of d ms t] v by auto
    then show ?thesis using up [of d v] by blast
  qed
qed

text \<open>What a literal reads as is valid UTF-8.\<close>

lemma encode_rune_valid: "valid_string (encode_rune r)"
proof -
  have "valid_string (encode_rune r)" if "scalar r" for r
    using runes_string_of_runes [of "[r]"] that by (simp add: string_of_runes_def)
  moreover have "encode_rune r = encode_rune rune_error" if "\<not> scalar r"
    using that unfolding encode_rune_def by (simp only: if_False if_True scalar_def rune_error_def) simp
  moreover have "scalar rune_error" by (simp add: scalar_def rune_error_def)
  ultimately show ?thesis by (cases "scalar r") simp_all
qed

lemma json_chars_plain: "json_chars (c # s) \<Longrightarrow> c \<noteq> CHR 0x5C \<Longrightarrow> json_chars s"
  by (cases rule: json_chars.cases) auto

lemma json_chars_drop: "json_chars s \<Longrightarrow> \<forall>c \<in> set (take n s). c \<noteq> CHR 0x5C \<Longrightarrow> json_chars (drop n s)"
proof (induction n arbitrary: s)
  case (Suc n)
  then show ?case using json_chars_plain by (cases s) auto
qed simp

lemma unquote_step_chars:
  assumes "json_chars s" "s \<noteq> []"
  shows "valid_string (fst (unquote_step s)) \<and> json_chars (snd (unquote_step s))"
  using assms(1)
proof (cases rule: json_chars.cases)
  case (plain c t)
  show ?thesis
  proof (cases "bv c < 0x80")
    case True
    then show ?thesis using plain by (simp add: unquote_step_def ascii_valid)
  next
    case False
    let ?n = "snd (decode_rune s)"
    have "\<forall>x \<in> set (take ?n s). x \<noteq> CHR 0x5C"
    proof (cases "decode_rune s = (rune_error, 1)")
      case True
      then show ?thesis using plain by simp
    next
      case ok: False
      note ed = encode_decode [OF assms(2) ok]
      have "0x80 \<le> fst (decode_rune s)"
      proof (rule ccontr)
        assume small: "\<not> 0x80 \<le> fst (decode_rune s)"
        then have "take ?n s = [char_of (fst (decode_rune s))]" using ed encode1 [of "fst (decode_rune s)"] by simp
        then have "c = char_of (fst (decode_rune s))" using plain(1) by (cases ?n) auto
        then show False using False small by simp
      qed
      then have "\<forall>x \<in> set (take ?n s). 0x80 \<le> bv x" using multi_bytes [of "fst (decode_rune s)"] ed by simp
      then show ?thesis using high_bytes by blast
    qed
    then have "json_chars (drop ?n s)" by (rule json_chars_drop [OF assms(1)])
    then show ?thesis using False plain by (simp add: unquote_step_def encode_rune_valid)
  qed
next
  case (escape d t)
  have "bv (unescape_char d) < 0x80" using escape(2) unfolding list.set
    by (elim disjE insertE emptyE) (simp_all add: unescape_char_def)
  then show ?thesis using escape get_u4_escape [OF escape_not_u [OF escape(2)]] by (simp add: unquote_step_def ascii_valid)
next
  case (unicode h1 h2 h3 h4 t)
  have g: "get_u4 s = Some (hex4 h1 h2 h3 h4, t)" using unicode by (simp add: get_u4_def)
  have "valid_string (fst (unquote_step s)) \<and> (snd (unquote_step s) = t \<or> (\<exists>r. get_u4 t = Some (r, snd (unquote_step s))))"
  proof (cases "is_surrogate (hex4 h1 h2 h3 h4)")
    case False
    then have "unquote_step s = (encode_rune (hex4 h1 h2 h3 h4), t)" using g unicode(1) by (simp add: unquote_step_def)
    then show ?thesis by (simp only: fst_conv snd_conv encode_rune_valid simp_thms)
  next
    case sur: True
    show ?thesis
    proof (cases "get_u4 t")
      case None
      then have "unquote_step s = (encode_rune rune_error, t)" using g unicode(1) sur by (simp add: unquote_step_def)
      then show ?thesis by (simp only: fst_conv snd_conv encode_rune_valid simp_thms)
    next
      case (Some q)
      then obtain r z where q: "get_u4 t = Some (r, z)" by (cases q) simp
      have "unquote_step s = (encode_rune (decode_pair (hex4 h1 h2 h3 h4) r), z) \<or> unquote_step s = (encode_rune rune_error, t)"
        using g unicode(1) sur q by (simp add: unquote_step_def)
      then show ?thesis using q by (elim disjE) (simp_all add: encode_rune_valid)
    qed
  qed
  then show ?thesis using get_u4_literal(2) [OF unicode(3)] unicode(3) by blast
qed (use assms in simp)

lemma unquote_valid: "json_chars s \<Longrightarrow> valid_string (unquote s)"
proof (induction s rule: unquote.induct)
  case (1 s)
  then show ?case using unquote_step_chars [of s] by (cases "s = []") (simp_all add: unquote.simps [of s] valid_string_append)
qed

lemma valid_join_iff: "valid_string (join_with '','' xs) \<longleftrightarrow> (\<forall>s \<in> set xs. valid_string s)"
proof (induction xs)
  case (Cons x xs)
  then show ?case by (cases "xs = []") (simp_all add: join_with_cons valid_before_ascii)
qed simp

lemma sum_list_member_le: "x \<in> set xs \<Longrightarrow> (\<And>y. y \<in> set xs \<Longrightarrow> 0 \<le> f y) \<Longrightarrow> f x \<le> sum_list (map f xs)"
  for f :: "'a \<Rightarrow> int"
proof (induction xs)
  case (Cons y ys)
  have "0 \<le> sum_list (map f ys)" by (rule sum_list_nonneg_int) (use Cons.prems in simp)
  then show ?case using Cons by fastforce
qed simp

text \<open>The values inside a strict text are strict.\<close>

lemma strict_array:
  assumes "strict_text l s" and "array_of s = Inr vs" and "x \<in> set vs"
  shows "strict_text l x"
  using assms(1)
proof (rule strict_textE)
  fix v assume v: "raw_ok v" "strict_tree l v" "s = raw_compact v" "valid_string s" "parse_json s = Some v"
  obtain us where us: "v = RArr us" "vs = map raw_compact us"
    using assms(2) v(5) by (auto simp: array_of_def split: if_splits option.splits raw.splits)
  obtain u where u: "u \<in> set us" "x = raw_compact u" using assms(3) us(2) by auto
  have "valid_string x" using v(3,4) us(1) u by (simp add: valid_before_ascii valid_join_iff)
  moreover have "raw_nodes u \<le> sum_list (map raw_nodes us)" by (rule sum_list_member_le) (use u raw_nodes_pos less_imp_le in auto)
  then have "strict_tree l u" using v(2) us(1) u(1) raw_depth_mono [of "al_max_depth l - 1" u "al_max_depth l"] by (auto simp: strict_tree_def)
  moreover have "raw_ok u" using raw_ok_parts(1) v(1) us(1) u(1) by blast
  ultimately show ?thesis using strict_textI u(2) by blast
qed

lemma put_members:
  "distinct (map (unquote \<circ> fst) ms) \<Longrightarrow> (unquote \<circ> fst) ` set ms \<inter> fst ` set obj = {} \<Longrightarrow>
     fold put_member ms obj = obj @ map (\<lambda>(k, v). (unquote k, raw_compact v)) ms"
proof (induction ms arbitrary: obj)
  case (Cons m ms)
  have "AList.update k v obj = obj @ [(k, v)]" if "k \<notin> fst ` set obj" for k and v :: string
    using that by (induction obj) auto
  then have "put_member m obj = obj @ [(unquote (fst m), raw_compact (snd m))]"
    using Cons.prems(2) by (simp add: put_member_def)
  then show ?case using Cons by (auto simp: case_prod_beta)
qed simp

lemma strict_object:
  assumes "strict_text l s" and "object_of s = Inr obj"
  shows "distinct (map fst obj)" and "(k, x) \<in> set obj \<Longrightarrow> strict_text l x \<and> valid_string k"
proof -
  obtain v where v: "raw_ok v" "strict_tree l v" "s = raw_compact v" "valid_string s" "parse_json s = Some v"
    using assms(1) by (rule strict_textE)
  obtain ms where ms: "v = RObj ms" "obj = fold put_member ms []"
    using assms(2) v(5) by (auto simp: object_of_def split: if_splits option.splits raw.splits)
  have dis: "distinct (map (unquote \<circ> fst) ms)" using v(2) ms(1) by (simp add: strict_tree_def)
  have obj: "obj = map (\<lambda>(k, v). (unquote k, raw_compact v)) ms" using put_members [OF dis, of "[]"] ms(2) by simp
  have "map fst obj = map (unquote \<circ> fst) ms" unfolding obj by auto
  then show "distinct (map fst obj)" using dis by simp
  show "strict_text l x \<and> valid_string k" if kx: "(k, x) \<in> set obj"
  proof -
    obtain m where m: "m \<in> set ms" "(k, x) = (case m of (k, v) \<Rightarrow> (unquote k, raw_compact v))"
      using kx unfolding obj set_map by (rule imageE) simp
    obtain b u where bu: "m = (b, u)" by (cases m)
    have u: "(b, u) \<in> set ms" "k = unquote b" "x = raw_compact u" using m unfolding bu by simp_all
    have "valid_string (quote_char # b @ quote_char # '':'' @ raw_compact u)"
      using v(3,4) ms(1) u(1) by (auto simp: valid_before_ascii valid_join_iff)
    then have val: "valid_string x" "valid_string b" using u(3) by (simp_all add: valid_before_ascii)
    have "raw_nodes u \<le> sum_list (map (\<lambda>(k, v). raw_nodes v) ms)"
      using sum_list_member_le [OF u(1), of "\<lambda>(k, v). raw_nodes v"] raw_nodes_pos by (auto simp: less_imp_le)
    then have "strict_tree l u" using v(2) ms(1) u(1) raw_depth_mono [of "al_max_depth l - 1" u "al_max_depth l"]
      by (auto simp: strict_tree_def)
    moreover have "raw_ok u" using raw_ok_parts(2) v(1) ms(1) u(1) by blast
    ultimately have "strict_text l x" using strict_textI val(1) u(3) by blast
    moreover have "valid_string k" using raw_ok_parts(2) [of ms b u] v(1) ms(1) u(1,2) unquote_valid by simp
    ultimately show ?thesis by blast
  qed
qed

end
