(* ===== verification/Annot_Model.thy ===== *)
theory Annot_Model
  imports Annot_Json "HOL-Library.Product_Lexorder"
begin

text \<open>
  Sidecars: the types of \<^verbatim>\<open>internal/core/annot/types.go\<close>, the key orders of
  \<^verbatim>\<open>profile.go\<close>, and reading and writing the file form, \<^verbatim>\<open>model.go\<close>. A sidecar's
  maps are association lists; every loop of the code that depends on their order sorts
  first, except where its result is again a map. Ordinals stay below the limits, so
  that their differences do not overflow.
\<close>

section \<open>Types\<close>

record element_key =
  ek_kind :: string
  ek_id :: string

record entry_key =
  nk_family :: string
  nk_page :: int

record order_key =
  ok_version :: int
  ok_ordinal :: int

record element =
  el_value :: string
  el_order :: order_key

record sidecar =
  sc_elements :: "(element_key \<times> element) list"
  sc_entries :: "(entry_key \<times> string) list"
  sc_meta :: "(string \<times> string) list"
  sc_tombstones :: "(element_key \<times> int) list"
  sc_version :: int
  sc_limits :: annot_limits

definition pdf_page_state :: string where "pdf_page_state = ''pdfPageState''"
definition pdf_page_templates :: string where "pdf_page_templates = ''pdfPageTemplates''"

definition new_sidecar :: "annot_limits \<Rightarrow> sidecar" where
  "new_sidecar l = \<lparr>sc_elements = [], sc_entries = [], sc_meta = [], sc_tombstones = [], sc_version = 0, sc_limits = l\<rparr>"

definition empty_sidecar :: sidecar where
  "empty_sidecar = new_sidecar annot_default_limits"

definition configured :: "sidecar \<Rightarrow> sidecar" where
  "configured sc = (if al_max_bytes (sc_limits sc) = 0 then empty_sidecar else sc)"

section \<open>The profile\<close>

definition kinds :: "string list" where
  "kinds = [''strokes'', ''eraserPaths'', ''textItems'', ''shapes'', ''imageItems'']"

fun index_from :: "int \<Rightarrow> string \<Rightarrow> string list \<Rightarrow> int" where
  "index_from i k [] = -1"
| "index_from i k (v # vs) = (if k = v then i else index_from (i + 1) k vs)"

definition kind_index :: "string \<Rightarrow> int" where
  "kind_index k = index_from 0 k kinds"

definition top_level_keys :: "string list" where
  "top_level_keys = [''version'', ''sourceFile'', ''sourcePdf'', ''updatedAt'', ''strokes'', ''eraserPaths'',
     ''textItems'', ''shapes'', ''imageItems'', ''pdfPageTemplates'', ''nativePageTemplatesEditable'',
     ''appendedPages'', ''deletedPdfPages'', ''permanentlyDeletedPdfPages'', ''removedPages'']"

definition structural :: "string \<Rightarrow> bool" where
  "structural key \<longleftrightarrow> key = ''appendedPages'' \<or> key = ''removedPages''"

definition reserved :: "string \<Rightarrow> bool" where
  "reserved key \<longleftrightarrow> kind_index key \<ge> 0 \<or> key = ''pdfPageTemplates'' \<or> key = ''deletedPdfPages''
     \<or> key = ''permanentlyDeletedPdfPages''"

text \<open>\<^verbatim>\<open>strings.Compare\<close>, and the two key orders.\<close>

definition string_compare :: "string \<Rightarrow> string \<Rightarrow> int" where
  "string_compare a b = (if a = b then 0 else if a < b then -1 else 1)"

definition compare_element :: "element_key \<Rightarrow> element_key \<Rightarrow> int" where
  "compare_element a b =
    (if ek_kind a \<noteq> ek_kind b then kind_index (ek_kind a) - kind_index (ek_kind b)
     else string_compare (ek_id a) (ek_id b))"

definition compare_entry :: "entry_key \<Rightarrow> entry_key \<Rightarrow> int" where
  "compare_entry a b =
    (if nk_family a \<noteq> nk_family b then string_compare (nk_family a) (nk_family b)
     else if nk_page a < nk_page b then -1 else if nk_page a > nk_page b then 1 else 0)"

definition whole_document_key :: "sidecar \<Rightarrow> string \<Rightarrow> bool" where
  "whole_document_key sc key = (case map_of (sc_meta sc) key of Some raw \<Rightarrow> raw \<noteq> ''[]'' | None \<Rightarrow> False)"

definition requires_whole_document :: "sidecar \<Rightarrow> bool" where
  "requires_whole_document sc = list_ex (whole_document_key sc) [''appendedPages'', ''removedPages'']"

section \<open>Sorting by a comparison\<close>

text \<open>\<^verbatim>\<open>slices.SortFunc\<close>: on keys that the comparison tells apart there is one result.\<close>

fun insert_by :: "('a \<Rightarrow> 'a \<Rightarrow> int) \<Rightarrow> 'a \<Rightarrow> 'a list \<Rightarrow> 'a list" where
  "insert_by cmp x [] = [x]"
| "insert_by cmp x (y # ys) = (if cmp x y \<le> 0 then x # y # ys else y # insert_by cmp x ys)"

definition sort_func :: "('a \<Rightarrow> 'a \<Rightarrow> int) \<Rightarrow> 'a list \<Rightarrow> 'a list" where
  "sort_func cmp xs = foldr (insert_by cmp) xs []"

definition order_of :: "(element_key \<times> element) list \<Rightarrow> element_key \<Rightarrow> order_key" where
  "order_of els k = (case map_of els k of Some e \<Rightarrow> el_order e | None \<Rightarrow> \<lparr>ok_version = 0, ok_ordinal = 0\<rparr>)"

definition compare_order :: "(element_key \<times> element) list \<Rightarrow> element_key \<Rightarrow> element_key \<Rightarrow> int" where
  "compare_order els a b =
    (if ek_kind a \<noteq> ek_kind b then kind_index (ek_kind a) - kind_index (ek_kind b)
     else let ao = order_of els a; bo = order_of els b in
       if ok_version ao < ok_version bo then -1
       else if ok_version ao > ok_version bo then 1
       else if ok_ordinal ao \<noteq> ok_ordinal bo then ok_ordinal ao - ok_ordinal bo
       else compare_element a b)"

definition ordered_elements :: "sidecar \<Rightarrow> element_key list" where
  "ordered_elements sc = sort_func (compare_order (sc_elements sc)) (map fst (sc_elements sc))"

definition sorted_entries :: "(entry_key \<times> string) list \<Rightarrow> entry_key list" where
  "sorted_entries m = sort_func compare_entry (map fst m)"

section \<open>Reading values\<close>

definition get_id :: "string \<Rightarrow> annot_limits \<Rightarrow> annot_error + string" where
  "get_id s l =
    (case object_of s of Inl _ \<Rightarrow> Inl AErrMissingID
     | Inr obj \<Rightarrow>
       (case map_of obj ''id'' of None \<Rightarrow> Inl AErrMissingID
        | Some t \<Rightarrow>
          (case parse_json t of
             Some (RStr b) \<Rightarrow>
               let id = unquote b in
               if id = [] \<or> \<not> valid_string id then Inl AErrMissingID
               else if int (length id) > al_max_id_bytes l then Inl AErrLimit
               else Inr id
           | _ \<Rightarrow> Inl AErrMissingID)))"

definition page_number :: "string \<Rightarrow> annot_error + int" where
  "page_number s =
    (case parse_int64 s of None \<Rightarrow> Inl AErrNotSidecar
     | Some n \<Rightarrow> if n < - (2 ^ 31) \<or> n \<ge> 2 ^ 31 \<or> n \<le> 0 then Inl AErrNotSidecar else Inr n)"

definition raw_hidden :: string where "raw_hidden = quote_char # ''hidden'' @ [quote_char]"
definition raw_permanent :: string where "raw_permanent = quote_char # ''permanent'' @ [quote_char]"

fun parse_elements :: "annot_limits \<Rightarrow> string \<Rightarrow> string list \<Rightarrow> (element_key \<times> element) list \<Rightarrow> int
    \<Rightarrow> annot_error + (element_key \<times> element) list \<times> int" where
  "parse_elements l kind [] els n = Inr (els, n)"
| "parse_elements l kind (v # vs) els n =
    rbind (get_id v l) (\<lambda>id.
      let key = \<lparr>ek_kind = kind, ek_id = id\<rparr> in
      if map_of els key \<noteq> None then Inl AErrDuplicateID
      else if int (length els) \<ge> al_max_elements l then Inl AErrLimit
      else parse_elements l kind vs
        (AList.update key \<lparr>el_value = v, el_order = \<lparr>ok_version = 0, ok_ordinal = n\<rparr>\<rparr> els) (n + 1))"

fun parse_kinds :: "annot_limits \<Rightarrow> string list \<Rightarrow> (string \<times> string) list \<Rightarrow> (element_key \<times> element) list \<Rightarrow> int
    \<Rightarrow> annot_error + (string \<times> string) list \<times> (element_key \<times> element) list" where
  "parse_kinds l [] root els n = Inr (root, els)"
| "parse_kinds l (k # ks) root els n =
    (case map_of root k of None \<Rightarrow> parse_kinds l ks root els n
     | Some v \<Rightarrow> rbind (array_of v) (\<lambda>vs. rbind (parse_elements l k vs els n) (\<lambda>(els1, n1).
         parse_kinds l ks (AList.delete k root) els1 n1)))"

text \<open>\<open>parseEntries\<close>: the page, family and entry of one value of a page array, and the loops.\<close>

definition page_entry :: "string \<Rightarrow> string \<Rightarrow> annot_error + string \<times> string \<times> string" where
  "page_entry name v =
    (if name = ''pdfPageTemplates'' then
       rbind (object_of v) (\<lambda>obj. Inr (case map_of obj ''page'' of Some p \<Rightarrow> p | None \<Rightarrow> [], pdf_page_templates, v))
     else Inr (v, pdf_page_state, if name = ''permanentlyDeletedPdfPages'' then raw_permanent else raw_hidden))"

fun parse_pages :: "sidecar \<Rightarrow> string \<Rightarrow> string list \<Rightarrow> int list \<Rightarrow> (entry_key \<times> string) list
    \<Rightarrow> annot_error + (entry_key \<times> string) list" where
  "parse_pages sc name [] seen ents = Inr ents"
| "parse_pages sc name (v # vs) seen ents =
    rbind (page_entry name v) (\<lambda>(p, family, entry).
    rbind (page_number p) (\<lambda>page.
      if page \<in> set seen then Inl AErrDuplicateKey
      else let ents1 = AList.update \<lparr>nk_family = family, nk_page = page\<rparr> entry ents in
        if int (length ents1) + int (length (sc_elements sc)) > al_max_elements (sc_limits sc) then Inl AErrLimit
        else parse_pages sc name vs (page # seen) ents1))"

fun parse_page_arrays :: "sidecar \<Rightarrow> string list \<Rightarrow> (string \<times> string) list \<Rightarrow> (entry_key \<times> string) list
    \<Rightarrow> annot_error + (string \<times> string) list \<times> (entry_key \<times> string) list" where
  "parse_page_arrays sc [] root ents = Inr (root, ents)"
| "parse_page_arrays sc (name # names) root ents =
    (case map_of root name of None \<Rightarrow> parse_page_arrays sc names root ents
     | Some v \<Rightarrow> rbind (array_of v) (\<lambda>vs. rbind (parse_pages sc name vs [] ents) (\<lambda>ents1.
         parse_page_arrays sc names (AList.delete name root) ents1)))"

definition page_arrays :: "string list" where
  "page_arrays = [''deletedPdfPages'', ''permanentlyDeletedPdfPages'', ''pdfPageTemplates'']"

definition parse_entries :: "(string \<times> string) list \<Rightarrow> sidecar \<Rightarrow> annot_error + (string \<times> string) list \<times> sidecar" where
  "parse_entries root sc = rbind (parse_page_arrays sc page_arrays root (sc_entries sc))
     (\<lambda>(root1, ents). Inr (root1, sc\<lparr>sc_entries := ents\<rparr>))"

section \<open>Writing the file\<close>

text \<open>
  \<open>indentFits\<close>, with the previous byte as an argument. A bracket is never the last or the
  first byte where the code looks at its neighbour.
\<close>

fun indent_loop :: "int \<Rightarrow> int \<Rightarrow> int \<Rightarrow> bool \<Rightarrow> bool \<Rightarrow> char \<Rightarrow> string \<Rightarrow> bool" where
  "indent_loop limit n depth in_string escaped p [] = (n \<le> limit)"
| "indent_loop limit n depth in_string escaped p (c # s) =
    (if in_string then
       (if escaped then indent_loop limit n depth True False c s
        else if c = CHR 0x5C then indent_loop limit n depth True True c s
        else if c = quote_char then indent_loop limit n depth False False c s
        else indent_loop limit n depth True False c s)
     else
       let opens = c = CHR ''{'' \<or> c = CHR ''[''; closes = c = CHR ''}'' \<or> c = CHR '']'';
           depth1 = (if opens then depth + 1 else if closes then depth - 1 else depth);
           extra = (if opens then (if hd s \<noteq> CHR ''}'' \<and> hd s \<noteq> CHR '']'' then 1 + 2 * depth1 else 0)
             else if closes then (if p \<noteq> CHR ''{'' \<and> p \<noteq> CHR ''['' then 1 + 2 * depth1 else 0)
             else if c = CHR '','' then 1 + 2 * depth1
             else if c = CHR '':'' then 1 else 0)
       in if n > limit - extra then False
          else indent_loop limit (n + extra) depth1 (c = quote_char) False c s)"

definition indent_fits :: "string \<Rightarrow> int \<Rightarrow> bool" where
  "indent_fits s limit = indent_loop limit (int (length s)) 0 False False (CHR 0x00) s"

definition element_values :: "sidecar \<Rightarrow> string \<Rightarrow> string list" where
  "element_values sc kind = map (\<lambda>k. case map_of (sc_elements sc) k of Some e \<Rightarrow> el_value e | None \<Rightarrow> [])
     (filter (\<lambda>k. ek_kind k = kind) (ordered_elements sc))"

definition entry_value :: "sidecar \<Rightarrow> entry_key \<Rightarrow> string" where
  "entry_value sc k = (case map_of (sc_entries sc) k of Some v \<Rightarrow> v | None \<Rightarrow> [])"

definition page_values :: "sidecar \<Rightarrow> bool \<Rightarrow> string list" where
  "page_values sc hidden = map (\<lambda>k. string_of_int (nk_page k))
     (filter (\<lambda>k. nk_family k = pdf_page_state \<and> (entry_value sc k = raw_hidden) = hidden) (sorted_entries (sc_entries sc)))"

definition template_values :: "sidecar \<Rightarrow> string list" where
  "template_values sc = map (entry_value sc) (filter (\<lambda>k. nk_family k = pdf_page_templates) (sorted_entries (sc_entries sc)))"

definition marshal_root :: "sidecar \<Rightarrow> (string \<times> string) list" where
  "marshal_root sc =
    AList.update ''pdfPageTemplates'' (raw_array (template_values sc))
    (AList.update ''permanentlyDeletedPdfPages'' (raw_array (page_values sc False))
    (AList.update ''deletedPdfPages'' (raw_array (page_values sc True))
    (fold (\<lambda>k root. AList.update k (raw_array (element_values sc k)) root) kinds (sc_meta sc))))"

fun write_known :: "string list \<Rightarrow> (string \<times> string) list \<Rightarrow> string \<Rightarrow> (string \<times> string) list \<times> string" where
  "write_known [] root out = (root, out)"
| "write_known (k # ks) root out =
    (case map_of root k of None \<Rightarrow> write_known ks root out
     | Some v \<Rightarrow> write_known ks (AList.delete k root) (append_member out k v))"

definition append_key :: "(string \<times> string) list \<Rightarrow> string \<Rightarrow> string \<Rightarrow> string" where
  "append_key root k out = append_member out k (case map_of root k of Some v \<Rightarrow> v | None \<Rightarrow> [])"

definition marshal_compact :: "sidecar \<Rightarrow> string" where
  "marshal_compact sc = (case write_known top_level_keys (marshal_root sc) ''{'' of (root, out) \<Rightarrow>
     fold (append_key root) (sort (map fst root)) out @ ''}'')"

definition line_break :: string where "line_break = [CHR 0x0A]"

definition annot_marshal :: "sidecar \<Rightarrow> annot_error + string" where
  "annot_marshal sc0 =
    (let sc = configured sc0; out = marshal_compact sc in
     if \<not> indent_fits out (al_max_bytes (sc_limits sc)) then Inl AErrLimit
     else case parse_json out of None \<Rightarrow> Inl AErrInvalidState
       | Some v \<Rightarrow>
         let pretty = raw_indent line_break v in
         if int (length pretty) > al_max_bytes (sc_limits sc) then Inl AErrLimit else Inr pretty)"

definition canonical_hash :: "(string \<Rightarrow> string) \<Rightarrow> sidecar \<Rightarrow> string" where
  "canonical_hash H sc = H (case annot_marshal sc of Inr raw \<Rightarrow> raw | Inl _ \<Rightarrow> [])"

section \<open>Reading the file\<close>

fun check_arrays :: "(string \<times> string) list \<Rightarrow> string list \<Rightarrow> annot_error + unit" where
  "check_arrays root [] = Inr ()"
| "check_arrays root (k # ks) =
    (case map_of root k of None \<Rightarrow> check_arrays root ks
     | Some v \<Rightarrow> rbind (array_of v) (\<lambda>_. check_arrays root ks))"

definition annot_parse :: "string \<Rightarrow> annot_limits \<Rightarrow> annot_error + sidecar" where
  "annot_parse b l0 =
    rbind (annot_normalized l0) (\<lambda>l.
    rbind (strict_json l b (al_max_bytes l)) (\<lambda>raw.
    rbind (object_of raw) (\<lambda>root.
    if map_of root ''strokes'' = None then Inl AErrNotSidecar
    else rbind (parse_kinds l kinds root [] 0) (\<lambda>(root1, els).
    rbind (parse_entries root1 ((new_sidecar l)\<lparr>sc_elements := els\<rparr>)) (\<lambda>(root2, sc).
    rbind (check_arrays root2 [''appendedPages'', ''removedPages'']) (\<lambda>_.
    let sc1 = sc\<lparr>sc_meta := root2\<rparr> in
    rbind (annot_marshal sc1) (\<lambda>_. Inr sc1)))))))"

end
