(* ===== verification/Classify.thy ===== *)
theory Classify
  imports Vpath Annot_Model
begin

text \<open>
  File classes: \<^verbatim>\<open>internal/core/classify/classify.go\<close>. A class is a byte; the three
  named ones are constructors and any other byte (0 is "unset") is \<open>OtherClass\<close>. A sidecar
  is what \<open>annot.Parse\<close>, \<open>annot_parse\<close> of \<open>Annot_Model\<close>, accepts.
\<close>

datatype file_class = Text | Sidecar | Opaque | OtherClass nat

datatype demotion = Kept | TooLarge | DInvalidUTF8 | ContainsNUL | NotFreedraw

fun demotion_string :: "demotion \<Rightarrow> string" where
  "demotion_string Kept = ''kept''"
| "demotion_string TooLarge = ''too_large''"
| "demotion_string DInvalidUTF8 = ''invalid_utf8''"
| "demotion_string ContainsNUL = ''contains_nul''"
| "demotion_string NotFreedraw = ''not_freedraw''"

datatype classify_error = CErrByteLimits | CErrAnnot annot_error | CErrExtension string

record classify_config =
  cc_text_exts :: "string list"
  cc_max_text :: int
  cc_max_sidecar :: int
  cc_annot :: annot_limits

definition classify_default_config :: classify_config where
  "classify_default_config = \<lparr>cc_text_exts = [''md'', ''txt'', ''mdx''], cc_max_text = 8 * 2 ^ 20,
     cc_max_sidecar = 16 * 2 ^ 20, cc_annot = annot_default_limits\<rparr>"

definition ext_rune :: "nat \<Rightarrow> bool" where
  "ext_rune r \<longleftrightarrow> \<not> ((r < 97 \<or> r > 122) \<and> (r < 48 \<or> r > 57))"

fun validate_exts :: "string set \<Rightarrow> string list \<Rightarrow> classify_error list" where
  "validate_exts seen [] = []"
| "validate_exts seen (e # es) =
    (if e \<noteq> [] \<and> e \<notin> seen \<and> list_all ext_rune (runes e) then [] else [CErrExtension e])
    @ validate_exts (insert e seen) es"

text \<open>\<open>errors.Join\<close> of every problem; the empty list is nil.\<close>

definition classify_validate :: "classify_config \<Rightarrow> classify_error list" where
  "classify_validate c =
    (if cc_max_text c \<le> 0 \<or> cc_max_sidecar c \<le> 0 \<or> al_max_bytes (cc_annot c) \<noteq> cc_max_sidecar c
     then [CErrByteLimits] else [])
    @ (case annot_limits_validate (cc_annot c) of Some e \<Rightarrow> [CErrAnnot e] | None \<Rightarrow> [])
    @ validate_exts {} (cc_text_exts c)"

definition ascii_lower :: "string \<Rightarrow> string" where
  "ascii_lower s = map_runes (\<lambda>r. if 65 \<le> r \<and> r \<le> 90 then r + 32 else r) s"

definition is_sidecar_name :: "path \<Rightarrow> bool" where
  "is_sidecar_name p =
    (let b = path_base p; suffix = ''.pdf.annot.json'' in
     length b > length suffix \<and> ascii_lower (drop (length b - length suffix) b) = suffix)"

definition expect :: "unicode_tables \<Rightarrow> path \<Rightarrow> int \<Rightarrow> classify_config \<Rightarrow> file_class" where
  "expect U p sz cfg =
    (if sz < 0 \<or> path_is_zero p then Opaque
     else if is_sidecar_name p then (if sz \<le> cc_max_sidecar cfg then Sidecar else Opaque)
     else if has_suffix (ascii_lower (path_base p)) ''.annot.json'' then Opaque
     else if list_ex (\<lambda>e. path_ext U p = e \<and> sz \<le> cc_max_text cfg) (cc_text_exts cfg) then Text
     else Opaque)"

definition check_text :: "string \<Rightarrow> classify_config \<Rightarrow> demotion" where
  "check_text b cfg =
    (if int (length b) > cc_max_text cfg then TooLarge
     else if \<not> valid_string b then DInvalidUTF8
     else if index_byte b (char_of (0 :: nat)) \<ge> 0 then ContainsNUL
     else Kept)"

definition check_sidecar :: "string \<Rightarrow> classify_config \<Rightarrow> demotion" where
  "check_sidecar b cfg =
    (if int (length b) > cc_max_sidecar cfg then TooLarge
     else if \<not> is_ok (annot_parse b (cc_annot cfg)) then NotFreedraw
     else Kept)"

definition confirm :: "file_class \<Rightarrow> string \<Rightarrow> classify_config \<Rightarrow> file_class \<times> demotion" where
  "confirm expected b cfg =
    (case expected of
       Text \<Rightarrow> let d = check_text b cfg in if d \<noteq> Kept then (Opaque, d) else (expected, d)
     | Sidecar \<Rightarrow> let d = check_sidecar b cfg in if d \<noteq> Kept then (Opaque, d) else (expected, d)
     | Opaque \<Rightarrow> (Opaque, Kept)
     | OtherClass _ \<Rightarrow> (Opaque, Kept))"

definition classify :: "unicode_tables \<Rightarrow> path \<Rightarrow> string \<Rightarrow> classify_config \<Rightarrow> file_class \<times> demotion" where
  "classify U p b cfg = confirm (expect U p (int (length b)) cfg) b cfg"

section \<open>The classes are exact\<close>

lemma check_text_kept:
  "check_text b cfg = Kept \<longleftrightarrow>
     int (length b) \<le> cc_max_text cfg \<and> valid_string b \<and> char_of (0 :: nat) \<notin> set b"
  using index_byte_absent [of b "char_of (0 :: nat)"] by (auto simp: check_text_def)

text \<open>A name that can be a text file: a configured extension, and not any annotation file.\<close>

definition text_name :: "unicode_tables \<Rightarrow> path \<Rightarrow> classify_config \<Rightarrow> bool" where
  "text_name U p cfg \<longleftrightarrow> \<not> path_is_zero p \<and> \<not> is_sidecar_name p
     \<and> \<not> has_suffix (ascii_lower (path_base p)) ''.annot.json'' \<and> path_ext U p \<in> set (cc_text_exts cfg)"

text \<open>
  C40: the class of a file is exact and total. \<open>Classify\<close> answers text exactly for a text
  name whose content is valid UTF-8 without NUL within the text budget; sidecar exactly for
  a sidecar name with content the annotation parser accepts within its budget; anything
  else is opaque. No content ever has two classes and no content is promoted.
\<close>

theorem classify_exact:
  "fst (classify U p b cfg) =
     (if text_name U p cfg \<and> int (length b) \<le> cc_max_text cfg \<and> valid_string b \<and> char_of (0 :: nat) \<notin> set b
      then Text
      else if \<not> path_is_zero p \<and> is_sidecar_name p \<and> int (length b) \<le> cc_max_sidecar cfg \<and> is_ok (annot_parse b (cc_annot cfg))
      then Sidecar else Opaque)
   \<and> (snd (classify U p b cfg) = Kept \<longleftrightarrow>
       fst (classify U p b cfg) = expect U p (int (length b)) cfg)"
proof (cases "expect U p (int (length b)) cfg")
  case Text
  then have "text_name U p cfg" "\<not> is_sidecar_name p"
    by (auto simp: expect_def text_name_def list_ex_iff split: if_splits)
  then show ?thesis using Text check_text_kept [of b cfg] by (auto simp: classify_def confirm_def Let_def)
next
  case Sidecar
  then have "is_sidecar_name p" "\<not> path_is_zero p" "\<not> text_name U p cfg"
    "int (length b) \<le> cc_max_sidecar cfg"
    by (auto simp: expect_def text_name_def split: if_splits)
  then show ?thesis using Sidecar
    by (auto simp: classify_def confirm_def check_sidecar_def Let_def)
next
  case Opaque
  then show ?thesis
    by (auto simp: classify_def confirm_def expect_def text_name_def list_ex_iff split: if_splits)
next
  case (OtherClass x)
  then show ?thesis by (simp add: expect_def split: if_splits)
qed

end
