(* ===== verification/Rules_Guard.thy ===== *)
theory Rules_Guard
  imports Prelude "HOL-Library.Log_Nat"
begin

text \<open>
  The bulk-deletion guard: \<^verbatim>\<open>internal/core/rules/guard.go\<close>. Times are nanoseconds since
  Go's zero time and durations are nanoseconds, both integers. The ratio is a
  \<^verbatim>\<open>float64\<close>: a finite value is an integer over a power of two, and the one product the
  code forms is rounded to 53 significant bits, ties to even, before it is floored.
\<close>

datatype go_float = FNaN | FInf bool | FNum int nat  \<comment> \<open>\<open>FNum m s\<close> is \<open>m / 2 ^ s\<close>\<close>

text \<open>Round a natural number to 53 bits, ties to even.\<close>

definition round53 :: "nat \<Rightarrow> nat" where
  "round53 n =
    (if n < 2 ^ 53 then n
     else let k = floorlog 2 n - 53; q = n div 2 ^ k; r = n mod 2 ^ k; h = 2 ^ (k - 1)
          in (if r > h \<or> r = h \<and> odd q then q + 1 else q) * 2 ^ k)"

text \<open>\<open>math.Floor(ratio * float64(live))\<close> for a positive ratio and nonnegative \<open>live\<close>.\<close>

definition scaled_limit :: "go_float \<Rightarrow> int \<Rightarrow> int" where
  "scaled_limit ratio live = (case ratio of
     FNum m s \<Rightarrow> int (round53 (nat m * round53 (nat live)) div 2 ^ s)
   | _ \<Rightarrow> 0)"

record guard_config =
  g_window :: int
  g_max_count :: int
  g_min_for_ratio :: int
  g_ratio :: go_float
  g_buckets :: int

definition ratio_ok :: "go_float \<Rightarrow> bool" where
  "ratio_ok r = (case r of FNum m s \<Rightarrow> 0 < m \<and> m \<le> 2 ^ s | _ \<Rightarrow> False)"

definition guard_config_ok :: "guard_config \<Rightarrow> bool" where
  "guard_config_ok c \<longleftrightarrow> \<not> (g_window c \<le> 0 \<or> g_buckets c < 1 \<or> g_buckets c > 256
     \<or> g_window c mod g_buckets c \<noteq> 0 \<or> g_max_count c < 1 \<or> g_min_for_ratio c < 1
     \<or> g_min_for_ratio c > g_max_count c \<or> \<not> ratio_ok (g_ratio c))"

record bucket =
  until :: int
  tally :: int

record delete_guard =
  dg_cfg :: guard_config
  dg_slots :: "bucket list"
  dg_last :: int

definition zero_guard :: delete_guard where
  "zero_guard = \<lparr>dg_cfg = \<lparr>g_window = 0, g_max_count = 0, g_min_for_ratio = 0, g_ratio = FNum 0 0, g_buckets = 0\<rparr>,
     dg_slots = replicate 257 \<lparr>until = 0, tally = 0\<rparr>, dg_last = 0\<rparr>"

definition new_delete_guard :: "guard_config \<Rightarrow> delete_guard option" where
  "new_delete_guard cfg = (if guard_config_ok cfg then Some (zero_guard\<lparr>dg_cfg := cfg\<rparr>) else None)"

datatype actor = Device | Bridge | Admin | OtherActor nat

datatype guard_answer = GApply | GNeedsConfirm

text \<open>The loop over the ring that subtracts the live tallies; \<open>None\<close> is the early return.\<close>

fun live_left :: "int \<Rightarrow> bucket list \<Rightarrow> int \<Rightarrow> int option" where
  "live_left now [] remaining = Some remaining"
| "live_left now (b # bs) remaining =
    (if now < until b then
       (if tally b > remaining then None else live_left now bs (remaining - tally b))
     else live_left now bs remaining)"

text \<open>The slot for the new tally: the one with its expiry, else the last expired one.\<close>

fun find_slot :: "int \<Rightarrow> int \<Rightarrow> nat \<Rightarrow> bucket list \<Rightarrow> int \<Rightarrow> int" where
  "find_slot now u i [] index = index"
| "find_slot now u i (b # bs) index =
    (if until b = u then int i
     else find_slot now u (Suc i) bs (if \<not> now < until b then int i else index))"

definition guard_limit :: "guard_config \<Rightarrow> int \<Rightarrow> int" where
  "guard_limit c live =
    (let scaled = scaled_limit (g_ratio c) live in
     if scaled < g_max_count c then max (g_min_for_ratio c) scaled else g_max_count c)"

definition expiry :: "guard_config \<Rightarrow> int \<Rightarrow> int" where
  "expiry c now = (let slot = g_window c div g_buckets c in now - now mod slot + slot + g_window c)"

definition guard_check ::
    "delete_guard \<Rightarrow> int \<Rightarrow> actor \<Rightarrow> int \<Rightarrow> int \<Rightarrow> bool \<Rightarrow> delete_guard \<times> guard_answer" where
  "guard_check g now0 a batch live confirmed =
    (if a = Bridge \<or> a = Admin \<or> confirmed then (g, GApply)
     else if a \<noteq> Device \<or> g_buckets (dg_cfg g) = 0 \<or> batch < 0 \<or> live < 0 then (g, GNeedsConfirm)
     else
       let now = (if now0 < dg_last g then dg_last g else now0);
           limit = guard_limit (dg_cfg g) live
       in if batch > limit then (g, GNeedsConfirm)
       else
         let n = nat (g_buckets (dg_cfg g) + 1) in
         (case live_left now (take n (dg_slots g)) (limit - batch) of
            None \<Rightarrow> (g, GNeedsConfirm)
          | Some _ \<Rightarrow>
            if batch = 0 then (g, GApply)
            else
              let u = expiry (dg_cfg g) now;
                  index = find_slot now u 0 (take n (dg_slots g)) (-1)
              in if index < 0 then (g, GNeedsConfirm)
              else
                let i = nat index;
                    slots = (if until (dg_slots g ! i) \<noteq> u
                      then (dg_slots g)[i := \<lparr>until = u, tally = 0\<rparr>] else dg_slots g);
                    slots = slots[i := (slots ! i)\<lparr>tally := tally (slots ! i) + batch\<rparr>]
                in (g\<lparr>dg_slots := slots, dg_last := now\<rparr>, GApply)))"

section \<open>The ring holds the accepted deletions\<close>

text \<open>
  The history of a guard: the effective time and size of every batch it recorded, newest
  first. \<open>pending c h now\<close> adds up the batches whose expiry is still ahead.
\<close>

type_synonym history = "(int \<times> int) list"

definition slot_width :: "guard_config \<Rightarrow> int" where
  "slot_width c = g_window c div g_buckets c"

definition live_at :: "int \<Rightarrow> bucket \<Rightarrow> int" where
  "live_at now b = (if now < until b then tally b else 0)"

definition live_sum :: "int \<Rightarrow> bucket list \<Rightarrow> int" where
  "live_sum now bs = sum_list (map (live_at now) bs)"

definition pending :: "guard_config \<Rightarrow> history \<Rightarrow> int \<Rightarrow> int" where
  "pending c h now = sum_list (map (\<lambda>(t, n). if now < expiry c t then n else 0) h)"

definition ring_size :: "delete_guard \<Rightarrow> nat" where
  "ring_size g = nat (g_buckets (dg_cfg g) + 1)"

definition ring :: "delete_guard \<Rightarrow> bucket list" where
  "ring g = take (ring_size g) (dg_slots g)"

definition guard_inv :: "delete_guard \<Rightarrow> history \<Rightarrow> bool" where
  "guard_inv g h \<longleftrightarrow> guard_config_ok (dg_cfg g) \<and> length (dg_slots g) = 257 \<and> 0 \<le> dg_last g \<and>
     (\<forall>(t, n) \<in> set h. t \<le> dg_last g \<and> 0 \<le> n) \<and>
     (\<forall>b \<in> set (ring g). 0 \<le> tally b) \<and>
     (\<forall>b \<in> set (ring g). dg_last g < until b \<longrightarrow>
        (\<exists>k. until b = slot_width (dg_cfg g) * k \<and> k \<le> dg_last g div slot_width (dg_cfg g) + g_buckets (dg_cfg g) + 1)) \<and>
     (\<forall>i < length (ring g). \<forall>j < length (ring g). i \<noteq> j \<longrightarrow> dg_last g < until (ring g ! i) \<longrightarrow>
        until (ring g ! i) \<noteq> until (ring g ! j)) \<and>
     (\<forall>now \<ge> dg_last g. live_sum now (ring g) = pending (dg_cfg g) h now)"

lemma live_sum_nonneg: "\<forall>b \<in> set bs. 0 \<le> tally b \<Longrightarrow> 0 \<le> live_sum now bs"
  unfolding live_sum_def by (rule sum_list_nonneg_int) (auto simp: live_at_def)

lemma live_left_eq:
  "\<forall>b \<in> set bs. 0 \<le> tally b \<Longrightarrow> 0 \<le> r \<Longrightarrow>
     live_left now bs r = (if live_sum now bs \<le> r then Some (r - live_sum now bs) else None)"
proof (induction bs arbitrary: r)
  case (Cons b bs)
  then show ?case using live_sum_nonneg [of bs now] by (auto simp: live_sum_def live_at_def)
qed (simp add: live_sum_def)

text \<open>The search returns a slot with the wanted expiry, or an expired slot, or fails.\<close>

lemma find_slot_spec:
  "find_slot now u i bs index = r \<Longrightarrow>
     (\<exists>j < length bs. r = int (i + j) \<and> until (bs ! j) = u) \<or>
     (\<forall>b \<in> set bs. until b \<noteq> u) \<and>
       ((\<exists>j < length bs. r = int (i + j) \<and> until (bs ! j) \<le> now) \<or>
        r = index \<and> (\<forall>b \<in> set bs. now < until b))"
proof (induction bs arbitrary: i index)
  case (Cons b bs)
  show ?case
  proof (cases "until b = u")
    case False
    let ?index = "if \<not> now < until b then int i else index"
    have "find_slot now u (Suc i) bs ?index = r" using Cons.prems False by simp
    from Cons.IH [OF this] show ?thesis
    proof (elim disjE conjE exE)
      fix j assume "j < length bs" "r = int (Suc i + j)" "until (bs ! j) = u"
      then show ?thesis by (intro disjI1 exI [of _ "Suc j"]) simp
    next
      fix j assume "\<forall>b \<in> set bs. until b \<noteq> u" "j < length bs" "r = int (Suc i + j)" "until (bs ! j) \<le> now"
      then show ?thesis using False by (intro disjI2 conjI disjI1 exI [of _ "Suc j"]) auto
    next
      assume a: "\<forall>b \<in> set bs. until b \<noteq> u" "r = ?index" "\<forall>b \<in> set bs. now < until b"
      show ?thesis
      proof (cases "now < until b")
        case True
        then show ?thesis using a False by auto
      next
        case expired: False
        then show ?thesis using a False by (intro disjI2 conjI disjI1 exI [of _ 0]) auto
      qed
    qed
  qed (use Cons.prems in auto)
qed simp

lemma config_slot:
  assumes "guard_config_ok c"
  shows "0 < slot_width c" "g_window c = slot_width c * g_buckets c" "1 \<le> g_buckets c" "g_buckets c \<le> 256"
proof -
  have b: "1 \<le> g_buckets c" "g_buckets c \<le> 256" "0 < g_window c" "g_window c mod g_buckets c = 0"
    using assms by (auto simp: guard_config_ok_def)
  then show w: "g_window c = slot_width c * g_buckets c" "1 \<le> g_buckets c" "g_buckets c \<le> 256"
    by (auto simp: slot_width_def)
  with b show "0 < slot_width c" by (metis less_le_trans zero_less_mult_pos2 zero_less_one)
qed

lemma expiry_eq:
  assumes "guard_config_ok c"
  shows "expiry c t = slot_width c * (t div slot_width c + g_buckets c + 1)" "t + g_window c < expiry c t"
proof -
  note s = config_slot [OF assms]
  have t: "t = slot_width c * (t div slot_width c) + t mod slot_width c" by simp
  have "expiry c t = (t - t mod slot_width c) + slot_width c + g_window c"
    by (simp add: expiry_def slot_width_def Let_def)
  then have e: "expiry c t = slot_width c * (t div slot_width c) + slot_width c + g_window c"
    using t by linarith
  then show "expiry c t = slot_width c * (t div slot_width c + g_buckets c + 1)"
    using s(2) by (simp add: algebra_simps)
  have "t mod slot_width c < slot_width c" using s(1) by simp
  then show "t + g_window c < expiry c t" using e t by linarith
qed

lemma int_div_less:
  fixes x w k :: int
  assumes "0 < w" "x < w * k"
  shows "x div w < k"
proof (rule ccontr)
  assume "\<not> x div w < k"
  then have "w * k \<le> w * (x div w)" using assms(1) by simp
  also have "\<dots> \<le> x"
    using div_mult_mod_eq [of x w] pos_mod_sign [OF assms(1), of x] mult.commute [of w "x div w"] by linarith
  finally show False using assms(2) by simp
qed

text \<open>Pigeonhole: the ring always has a slot for a new expiry.\<close>

lemma ring_has_room:
  assumes inv: "guard_inv g h" and now: "dg_last g \<le> now"
  shows "find_slot now (expiry (dg_cfg g) now) 0 (ring g) (-1) \<ge> 0"
proof (rule ccontr)
  let ?c = "dg_cfg g" and ?S = "slot_width (dg_cfg g)" and ?B = "g_buckets (dg_cfg g)"
  let ?u = "expiry ?c now" and ?q = "now div slot_width (dg_cfg g)"
  assume neg: "\<not> ?thesis"
  have ok: "guard_config_ok ?c" and len: "length (dg_slots g) = 257" using inv by (auto simp: guard_inv_def)
  note s = config_slot [OF ok]
  have n: "length (ring g) = nat (?B + 1)" using len s by (simp add: ring_def ring_size_def)
  have none: "\<forall>b \<in> set (ring g). until b \<noteq> ?u" "\<forall>b \<in> set (ring g). now < until b"
    using find_slot_spec [of now ?u 0 "ring g" "-1"] neg by auto
  let ?f = "\<lambda>i. until (ring g ! i)"
  have "inj_on ?f {..<length (ring g)}"
    using inv none(2) now unfolding guard_inv_def inj_on_def
    by (metis lessThan_iff nth_mem order_le_less_trans)
  moreover have "?f ` {..<length (ring g)} \<subseteq> (\<lambda>k. ?S * k) ` {?q + 1 .. ?q + ?B}"
  proof safe
    fix i assume i: "i < length (ring g)"
    then have b: "ring g ! i \<in> set (ring g)" by simp
    have live: "now < ?f i" "?f i \<noteq> ?u" using none b by auto
    then obtain k where k: "?f i = ?S * k" "k \<le> dg_last g div ?S + ?B + 1"
      using inv b now unfolding guard_inv_def by (metis order_le_less_trans)
    have "?q < k" using live(1) k(1) s(1) by (simp add: int_div_less)
    moreover have "dg_last g div ?S \<le> ?q" using now s(1) by (simp add: zdiv_mono1)
    then have "k \<le> ?q + ?B + 1" using k(2) by simp
    moreover have "k \<noteq> ?q + ?B + 1" using live(2) k(1) expiry_eq(1) [OF ok] by metis
    ultimately show "?f i \<in> (\<lambda>k. ?S * k) ` {?q + 1 .. ?q + ?B}" using k(1) by auto
  qed
  ultimately have "card {..<length (ring g)} \<le> card ((\<lambda>k. ?S * k) ` {?q + 1 .. ?q + ?B})"
    by (rule card_inj_on_le) simp
  also have "\<dots> \<le> card {?q + 1 .. ?q + ?B}" by (rule card_image_le) simp
  finally show False using n s(3) by simp
qed

lemma guard_limit_le: "guard_config_ok c \<Longrightarrow> guard_limit c live \<le> g_max_count c"
  by (auto simp: guard_limit_def guard_config_ok_def Let_def)

lemma sum_list_upd: "i < length xs \<Longrightarrow> sum_list (xs[i := x]) = sum_list xs - xs ! i + x"
  for x :: int
  by (induction xs arbitrary: i) (auto split: nat.splits)

lemma live_sum_update:
  "i < length bs \<Longrightarrow> live_sum now (bs[i := b]) = live_sum now bs - live_at now (bs ! i) + live_at now b"
  by (simp add: live_sum_def map_update sum_list_upd)

text \<open>Recording a batch keeps the invariant, with the batch added to the history.\<close>

lemma guard_record:
  assumes inv: "guard_inv g h" and now: "dg_last g \<le> now" and batch: "0 \<le> batch"
    and i: "find_slot now (expiry (dg_cfg g) now) 0 (ring g) (-1) = int i"
    and slot: "b = (if until (ring g ! i) = expiry (dg_cfg g) now then ring g ! i
        else \<lparr>until = expiry (dg_cfg g) now, tally = 0\<rparr>)"
  shows "guard_inv (g\<lparr>dg_slots := (dg_slots g)[i := b\<lparr>tally := tally b + batch\<rparr>], dg_last := now\<rparr>) ((now, batch) # h)"
proof -
  let ?c = "dg_cfg g" and ?u = "expiry (dg_cfg g) now"
  let ?b = "b\<lparr>tally := tally b + batch\<rparr>"
  let ?g = "g\<lparr>dg_slots := (dg_slots g)[i := ?b], dg_last := now\<rparr>"
  have ok: "guard_config_ok ?c" using inv by (simp add: guard_inv_def)
  have i_lt: "i < length (ring g)"
    and found: "until (ring g ! i) = ?u \<or> (\<forall>b \<in> set (ring g). until b \<noteq> ?u) \<and> until (ring g ! i) \<le> now"
    using find_slot_spec [OF i] by auto
  have ring: "ring ?g = (ring g)[i := ?b]" by (simp add: ring_def ring_size_def take_update_swap)
  have ub: "until ?b = ?u" "0 \<le> tally ?b"
    using slot inv i_lt batch nth_mem by (auto simp: guard_inv_def)
  have future: "now < ?u" using expiry_eq(2) [OF ok, of now] config_slot [OF ok]
    by (smt (verit) guard_config_ok_def ok)
  have other: "until (ring g ! j) \<noteq> ?u \<or> j = i" if "j < length (ring g)" for j
    using found that i_lt inv now future nth_mem unfolding guard_inv_def
    by (metis order_le_less_trans)
  have sums: "live_sum t ((ring g)[i := ?b]) = pending ?c ((now, batch) # h) t" if "now \<le> t" for t
  proof -
    have "live_sum t (ring g) = pending ?c h t" using inv now that by (simp add: guard_inv_def)
    moreover have "live_at t ?b - live_at t (ring g ! i) = (if t < ?u then batch else 0)"
      using found slot that ub(1) by (auto simp: live_at_def)
    ultimately show ?thesis using live_sum_update [OF i_lt, of t ?b] by (simp add: pending_def)
  qed
  have untils: "\<exists>k. until x = slot_width ?c * k \<and> k \<le> now div slot_width ?c + g_buckets ?c + 1"
    if x: "x \<in> set ((ring g)[i := ?b])" "now < until x" for x
  proof (cases "x = ?b")
    case True
    then show ?thesis using ub expiry_eq(1) [OF ok, of now] by auto
  next
    case False
    then have "x \<in> set (ring g)" using x(1) set_update_subset_insert by fastforce
    then obtain k where "until x = slot_width ?c * k" "k \<le> dg_last g div slot_width ?c + g_buckets ?c + 1"
      using inv now x(2) unfolding guard_inv_def by (metis order_le_less_trans)
    moreover have "dg_last g div slot_width ?c \<le> now div slot_width ?c"
      using now config_slot [OF ok] by (simp add: zdiv_mono1)
    ultimately show ?thesis by (intro exI [of _ k]) simp
  qed
  have dist: "until ((ring g)[i := ?b] ! j) \<noteq> until ((ring g)[i := ?b] ! k)"
    if "j < length (ring g)" "k < length (ring g)" "j \<noteq> k" "now < until ((ring g)[i := ?b] ! j)" for j k
    using that inv now other [of j] other [of k] ub(1) unfolding guard_inv_def
    by (cases "j = i"; cases "k = i") auto
  show ?thesis
    unfolding guard_inv_def ring
    using inv now batch ok sums untils dist ub(2) set_update_subset_insert [of "ring g" i ?b]
    by (auto simp: guard_inv_def)
qed

section \<open>The guard's decisions are exact\<close>

lemma guard_check_device:
  assumes inv: "guard_inv g h" and n: "0 \<le> batch" "0 \<le> live"
    and now_def: "now = max (dg_last g) now0"
  shows "if batch + pending (dg_cfg g) h now \<le> guard_limit (dg_cfg g) live
     then snd (guard_check g now0 Device batch live False) = GApply
       \<and> guard_inv (fst (guard_check g now0 Device batch live False)) (if batch = 0 then h else (now, batch) # h)
     else guard_check g now0 Device batch live False = (g, GNeedsConfirm)"
proof -
  let ?c = "dg_cfg g" and ?u = "expiry (dg_cfg g) now" and ?limit = "guard_limit (dg_cfg g) live"
  have ok: "guard_config_ok ?c" and tallies: "\<forall>b \<in> set (ring g). 0 \<le> tally b" and last: "dg_last g \<le> now"
    and sum: "live_sum now (ring g) = pending ?c h now"
    using inv by (auto simp: guard_inv_def now_def)
  have b0: "g_buckets ?c \<noteq> 0" using config_slot [OF ok] by auto
  have now: "(if now0 < dg_last g then dg_last g else now0) = now" by (auto simp: now_def)
  have nonneg: "0 \<le> pending ?c h now" using sum live_sum_nonneg [OF tallies] by metis
  define i where "i = nat (find_slot now ?u 0 (ring g) (-1))"
  have i: "find_slot now ?u 0 (ring g) (-1) = int i" using ring_has_room [OF inv last] by (simp add: i_def)
  then have i_lt: "i < length (ring g)" using find_slot_spec [OF i] by auto
  then have i_len: "i < length (dg_slots g)" by (simp add: ring_def)
  have nth: "ring g ! i = dg_slots g ! i" using i_lt by (simp add: ring_def)
  define b where "b = (if until (ring g ! i) = ?u then ring g ! i else \<lparr>until = ?u, tally = 0\<rparr>)"
  have eq: "guard_check g now0 Device batch live False =
      (if batch > ?limit then (g, GNeedsConfirm)
       else if pending ?c h now > ?limit - batch then (g, GNeedsConfirm)
       else if batch = 0 then (g, GApply)
       else (g\<lparr>dg_slots := (dg_slots g)[i := b\<lparr>tally := tally b + batch\<rparr>], dg_last := now\<rparr>, GApply))"
    using n b0 i i_len nth tallies sum
    by (simp add: guard_check_def now ring_def [symmetric] ring_size_def [symmetric] live_left_eq b_def
        Let_def not_less)
  show ?thesis
    using eq guard_record [OF inv last n(1) i b_def] inv nonneg by auto
qed

text \<open>The guards that checks can reach, with the batches recorded on the way.\<close>

definition record_batch :: "delete_guard \<Rightarrow> int \<Rightarrow> actor \<Rightarrow> int \<Rightarrow> bool \<Rightarrow> guard_answer \<Rightarrow> history \<Rightarrow> history" where
  "record_batch g now0 a batch confirmed ans h =
    (if a = Device \<and> \<not> confirmed \<and> ans = GApply \<and> batch \<noteq> 0 then (max (dg_last g) now0, batch) # h else h)"

inductive guard_reach :: "guard_config \<Rightarrow> delete_guard \<Rightarrow> history \<Rightarrow> bool" for cfg where
  fresh: "new_delete_guard cfg = Some g \<Longrightarrow> guard_reach cfg g []"
| check: "guard_reach cfg g h \<Longrightarrow> guard_check g now0 a batch live confirmed = (g', ans) \<Longrightarrow>
    guard_reach cfg g' (record_batch g now0 a batch confirmed ans h)"

lemma fresh_inv: "new_delete_guard cfg = Some g \<Longrightarrow> guard_inv g [] \<and> dg_cfg g = cfg"
  by (auto simp: new_delete_guard_def guard_inv_def zero_guard_def ring_def ring_size_def
      live_sum_def pending_def live_at_def sum_list_replicate split: if_splits)

lemma guard_check_other:
  "a \<noteq> Device \<or> confirmed \<or> batch < 0 \<or> live < 0 \<Longrightarrow> guard_check g now0 a batch live confirmed = (g', ans) \<Longrightarrow>
     g' = g \<and> (a = Device \<longrightarrow> \<not> confirmed \<longrightarrow> ans = GNeedsConfirm)"
  by (auto simp: guard_check_def split: if_splits)

lemma guard_reach_inv: "guard_reach cfg g h \<Longrightarrow> guard_inv g h \<and> dg_cfg g = cfg"
proof (induction rule: guard_reach.induct)
  case (fresh g)
  then show ?case by (rule fresh_inv)
next
  case (check g h now0 a batch live confirmed g' ans)
  show ?case
  proof (cases "a \<noteq> Device \<or> confirmed \<or> batch < 0 \<or> live < 0")
    case True
    then show ?thesis
      using guard_check_other [OF True check.hyps(2)] check.IH by (auto simp: record_batch_def)
  next
    case False
    then have a: "a = Device" "\<not> confirmed" "0 \<le> batch" "0 \<le> live" by auto
    have "dg_cfg g' = dg_cfg g"
      using check.hyps(2) by (auto simp: guard_check_def Let_def split: if_splits option.splits)
    then show ?thesis
      using guard_check_device [of g h batch live _ now0, OF _ _ _ refl] check a
      by (auto simp: record_batch_def split: if_splits)
  qed
qed

text \<open>
  C31: the deletion guard answers exactly. In every reachable state an unconfirmed device
  batch is applied if and only if, together with the recorded batches whose expiry is still
  ahead, it is within the limit for the number of live files: the ring of buckets never
  runs out of room and never loses or double counts a batch.
\<close>

theorem guard_exact:
  assumes "guard_reach cfg g h" "0 \<le> batch" "0 \<le> live"
  shows "snd (guard_check g now Device batch live False) = GApply \<longleftrightarrow>
    batch + pending cfg h (max (dg_last g) now) \<le> guard_limit cfg live"
  using guard_reach_inv [OF assms(1)] guard_check_device [of g h batch live _ now, OF _ _ _ refl] assms(2,3)
  by (auto split: if_splits)

definition window_sum :: "guard_config \<Rightarrow> history \<Rightarrow> int \<Rightarrow> int" where
  "window_sum c h t = sum_list (map (\<lambda>(s, n). if t - g_window c < s \<and> s \<le> t then n else 0) h)"

lemma window_le_pending:
  assumes "guard_config_ok c" "\<forall>(s, n) \<in> set h. 0 \<le> n" "now \<le> t"
  shows "window_sum c h t \<le> pending c h now"
  using assms(2)
proof (induction h)
  case (Cons e h)
  obtain s n where e: "e = (s, n)" by fastforce
  have "t - g_window c < s \<Longrightarrow> now < expiry c s"
    using expiry_eq(2) [OF assms(1), of s] assms(3) by linarith
  with Cons e show ?case by (auto simp: window_sum_def pending_def)
qed (simp add: window_sum_def pending_def)

text \<open>
  C30: no sliding window ever exceeds the limit. Whatever sequence of checks a guard answers,
  by any actors and with any clock, the unconfirmed device deletions it accepts within any
  window of the configured length, ending at any time, never add up to more than
  \<open>MaxCount\<close>.
\<close>

theorem guard_window:
  assumes "guard_reach cfg g h"
  shows "window_sum cfg h t \<le> g_max_count cfg"
  using assms
proof (induction arbitrary: t rule: guard_reach.induct)
  case (fresh g)
  then have "guard_config_ok cfg" by (simp add: new_delete_guard_def split: if_splits)
  then show ?case by (simp add: window_sum_def guard_config_ok_def)
next
  case (check g h now0 a batch live confirmed g' ans)
  let ?now = "max (dg_last g) now0"
  note inv = guard_reach_inv [OF check.hyps(1)]
  then have ok: "guard_config_ok cfg" and pos: "\<forall>(s, n) \<in> set h. 0 \<le> n" by (auto simp: guard_inv_def)
  show ?case
  proof (cases "a = Device \<and> \<not> confirmed \<and> ans = GApply \<and> batch \<noteq> 0 \<and> ?now \<le> t")
    case False
    then have "window_sum cfg (record_batch g now0 a batch confirmed ans h) t = window_sum cfg h t"
      by (auto simp: record_batch_def window_sum_def)
    then show ?thesis using check.IH by simp
  next
    case True
    then have nn: "0 \<le> batch" "0 \<le> live"
      using guard_check_other [OF _ check.hyps(2)] by (auto simp: not_le [symmetric])
    have "batch + pending cfg h ?now \<le> guard_limit cfg live"
      using guard_exact [OF check.hyps(1) nn, of now0] check.hyps(2) True by simp
    moreover have "window_sum cfg h t \<le> pending cfg h ?now"
      using window_le_pending [OF ok pos] True by blast
    moreover have "window_sum cfg ((?now, batch) # h) t \<le> batch + window_sum cfg h t"
      using nn by (simp add: window_sum_def)
    ultimately show ?thesis
      using True guard_limit_le [OF ok, of live] by (simp add: record_batch_def)
  qed
qed

definition sample_guard_config :: guard_config where
  "sample_guard_config = \<lparr>g_window = 300, g_max_count = 25, g_min_for_ratio = 5, g_ratio = FNum 1 3, g_buckets = 1\<rparr>"

lemma sample_fresh: "new_delete_guard sample_guard_config = Some (zero_guard\<lparr>dg_cfg := sample_guard_config\<rparr>)"
  by (simp add: new_delete_guard_def guard_config_ok_def sample_guard_config_def ratio_ok_def)

theorem guard_exact_witness:
  "snd (guard_check (zero_guard\<lparr>dg_cfg := sample_guard_config\<rparr>) 10 Device 3 16 False) = GApply \<longleftrightarrow>
    3 + pending sample_guard_config [] (max 0 10) \<le> guard_limit sample_guard_config 16"
  using guard_exact [OF guard_reach.fresh [OF sample_fresh], of 3 16 10] by (simp add: zero_guard_def)

theorem guard_window_witness: "window_sum sample_guard_config [(10, 3)] 100 \<le> 25"
proof -
  let ?g = "zero_guard\<lparr>dg_cfg := sample_guard_config\<rparr>"
  have lim: "pending sample_guard_config [] 10 = 0" "5 \<le> guard_limit sample_guard_config 16"
    by (simp_all add: pending_def guard_limit_def sample_guard_config_def scaled_limit_def round53_def)
  obtain g' ans where g': "guard_check ?g 10 Device 3 16 False = (g', ans)" by fastforce
  have "ans = GApply"
    using guard_check_device [of ?g "[]" 3 16 _ 10, OF _ _ _ refl] fresh_inv [OF sample_fresh] g' lim by (simp add: zero_guard_def)
  then have "guard_reach sample_guard_config g' [(10, 3)]"
    using guard_reach.check [OF guard_reach.fresh [OF sample_fresh] g'] by (simp add: record_batch_def zero_guard_def)
  from guard_window [OF this, of 100] show ?thesis by (simp add: sample_guard_config_def)
qed

end
