(* ===== verification/Vpath_Correct.thy ===== *)
theory Vpath_Correct
  imports Vpath
begin

text \<open>
  What the path functions guarantee: the parser accepts exactly the portable paths, the
  path operations stay inside their directory, the sanitizer's output is bounded and never
  escapes the vault, and disambiguation is injective in the Canvas id.
\<close>

section \<open>Runes of sanitized components\<close>

lemma encode_length: "length (encode_rune r) \<in> {1, 2, 3, 4}"
  by (simp add: encode_rune_def Let_def)

lemma encode_length_pos: "0 < length (encode_rune r)"
  using encode_length [of r] by auto

lemma pass_length: "length (pass_rune r) \<le> length (encode_rune r)"
  using encode_length [of r] by (auto simp: pass_rune_def)

lemma high_byte: "(128 :: nat) \<le> n \<Longrightarrow> n < 256 \<Longrightarrow> 128 \<le> bv (char_of n)"
  by (simp only: bv_char_of)

lemma encode_high:
  assumes "c \<in> set (encode_rune r)" "0x80 \<le> r"
  shows "0x80 \<le> bv c"
proof -
  define q where "q = (if scalar r then r else rune_error)"
  have q: "128 \<le> q" "q < 0x110000" "q = q" using assms(2) by (auto simp: q_def scalar_def rune_error_def)
  have lt: "q < 0x800 \<Longrightarrow> q div 64 < 32" "q < 0x10000 \<Longrightarrow> q div 4096 < 16" "q div 262144 < 16"
    using q by (simp_all add: div_less_iff_less_mult)
  have mods: "128 + x mod 64 < 256" for x :: nat
    using mod_less_divisor [of 64 x] by linarith
  have "encode_rune r = (if q < 0x800 then [char_of (0xC0 + q div 64), char_of (0x80 + q mod 64)]
     else if q < 0x10000 then
       [char_of (0xE0 + q div 4096), char_of (0x80 + q div 64 mod 64), char_of (0x80 + q mod 64)]
     else [char_of (0xF0 + q div 262144), char_of (0x80 + q div 4096 mod 64),
           char_of (0x80 + q div 64 mod 64), char_of (0x80 + q mod 64)])"
    using q(1) by (simp add: encode_rune_def q_def Let_def)
  then show ?thesis
    using assms(1) lt mods by (auto intro!: high_byte simp del: char_of_def of_char_of split: if_splits)
qed

lemma ascii_in_encode:
  "c \<in> set (encode_rune r) \<Longrightarrow> bv c < 0x80 \<Longrightarrow> r = bv c"
  using encode_high [of c r] encode1 [of r] by (cases "r < 0x80") (auto simp: bv_char_of simp del: char_of_def)


abbreviation slash :: char where "slash \<equiv> CHR ''/''"
abbreviation backslash :: char where "backslash \<equiv> CHR 0x5C"

lemma pass_clean: "c \<in> set (pass_rune r) \<Longrightarrow> c \<noteq> slash \<and> c \<noteq> backslash"
  using ascii_in_encode [of c r] by (auto simp: pass_rune_def split: if_splits)

lemma trim_right_set: "set (trim_right s cs) \<subseteq> set s"
  using trim_right_prefix [of s cs] by (metis Un_iff set_append subsetI)

lemma trim_right_last: "trim_right s cs \<noteq> [] \<Longrightarrow> last (trim_right s cs) \<notin> set cs"
  unfolding trim_right_def by (metis hd_dropWhile last_rev rev_is_Nil_conv)

lemma trim_right_id: "trim_right s cs = s \<longleftrightarrow> s = [] \<or> last s \<notin> set cs"
proof (cases s rule: rev_cases)
  case (snoc t c)
  have "length (dropWhile (\<lambda>c. c \<in> set cs) (rev t)) \<le> length t"
    by (metis length_dropWhile_le length_rev)
  then have "c \<in> set cs \<Longrightarrow> length (trim_right s cs) < length s"
    by (simp add: trim_right_def snoc)
  then have "c \<in> set cs \<Longrightarrow> trim_right s cs \<noteq> s" by (metis less_irrefl)
  then show ?thesis by (auto simp: trim_right_def snoc)
qed (simp add: trim_right_def)

lemma trim_left_id: "trim_left s cs = s \<longleftrightarrow> s = [] \<or> hd s \<notin> set cs"
  unfolding trim_left_def by (cases s) (auto, metis impossible_Cons length_dropWhile_le)

lemma trim_left_length: "length (trim_left s cs) \<le> length s"
  by (simp add: trim_left_def length_dropWhile_le)

lemma trim_left_last: "trim_left s cs \<noteq> [] \<Longrightarrow> last (trim_left s cs) = last s"
  unfolding trim_left_def by (metis append_self_conv2 last_append takeWhile_dropWhile_id)

definition stable_end :: "string \<Rightarrow> bool" where
  "stable_end s \<longleftrightarrow> s \<noteq> [] \<and> last s \<noteq> CHR ''.'' \<and> last s \<noteq> CHR '' ''"

lemma stable_endD: "stable_end s \<Longrightarrow> s \<noteq> [] \<and> s \<noteq> ''.'' \<and> s \<noteq> ''..''"
  by (auto simp: stable_end_def)

lemma stable_end_trim: "trim_right s ''. '' \<noteq> [] \<Longrightarrow> stable_end (trim_right s ''. '')"
  using trim_right_last [of s "''. ''"] by (auto simp: stable_end_def)

lemma character_pass_clean:
  "c \<in> set (character_pass s) \<Longrightarrow> c \<noteq> slash \<and> c \<noteq> backslash"
proof -
  assume "c \<in> set (character_pass s)"
  then have "c \<in> set (concat (map pass_rune (runes s)))"
    using trim_right_set unfolding character_pass_def trim_left_def by (blast dest: set_dropWhileD)
  then show ?thesis using pass_clean by auto
qed

lemma character_pass_end: "character_pass s \<noteq> [] \<Longrightarrow> stable_end (character_pass s)"
proof -
  let ?t = "trim_right (concat (map pass_rune (runes s))) ''. ''"
  assume ne: "character_pass s \<noteq> []"
  then have "?t \<noteq> []" by (auto simp: character_pass_def trim_left_def)
  then have "stable_end ?t" by (rule stable_end_trim)
  with ne trim_left_last [of ?t "'' ''"] show ?thesis
    by (simp add: character_pass_def stable_end_def)
qed

section \<open>Sanitization\<close>

lemma trunc_point_le: "trunc_point s n \<le> n"
  by (induction n) auto

lemma truncate_length: "0 \<le> n \<Longrightarrow> int (length (truncate_bytes s n)) \<le> n"
  using trunc_point_le [of s "nat n"] by (auto simp: truncate_bytes_def)

lemma truncate_set: "set (truncate_bytes s n) \<subseteq> set s"
  by (auto simp: truncate_bytes_def dest: in_set_takeD)

text \<open>A sanitized component: usable as a file name, and within \<open>n\<close> bytes.\<close>

definition safe_component :: "nat \<Rightarrow> string \<Rightarrow> bool" where
  "safe_component n c \<longleftrightarrow> stable_end c \<and> slash \<notin> set c \<and> backslash \<notin> set c \<and> length c \<le> n"

lemma truncate_keep_ext_safe:
  assumes "stable_end s" "slash \<notin> set s" "backslash \<notin> set s" "17 < n"
    and "truncate_keep_ext s (int n) \<noteq> []"
  shows "safe_component n (truncate_keep_ext s (int n))"
proof -
  define i where "i = last_index_byte s (CHR ''.'')"
  define keep where "keep \<longleftrightarrow> i > 0 \<and> int (length s) - i - 1 \<le> maxExt"
  define st where "st = (if keep then take (nat i) s else s)"
  define ext where "ext = (if keep then drop (nat i) s else [])"
  define tr where "tr = trim_right (truncate_bytes st (int n - int (length ext))) ''. ''"
  have i: "i < int (length s)" using last_index_byte_range [of s] by (simp add: i_def)
  have len: "length ext < n" using assms(4) by (auto simp: ext_def keep_def maxExt_def)
  then have eq: "truncate_keep_ext s (int n) = (if tr = [] then [] else tr @ ext)"
    unfolding truncate_keep_ext_def Let_def i_def [symmetric] keep_def [symmetric]
      st_def [symmetric] ext_def [symmetric] tr_def [symmetric] by simp
  then have "tr \<noteq> []" using assms(5) by auto
  then have tr: "stable_end tr" unfolding tr_def by (rule stable_end_trim)
  have "stable_end (tr @ ext)"
  proof (cases "ext = []")
    case False
    then have "last ext = last s" using i by (auto simp: ext_def split: if_splits)
    with False assms(1) show ?thesis by (simp add: stable_end_def)
  qed (use tr in simp)
  moreover have "set (tr @ ext) \<subseteq> set s"
    using trim_right_set truncate_set
    by (fastforce simp: tr_def st_def ext_def dest: in_set_takeD in_set_dropD split: if_splits)
  moreover have "length (tr @ ext) \<le> n"
    using truncate_length [of "int n - int (length ext)" st] len
      length_trim_right [of "truncate_bytes st (int n - int (length ext))" "''. ''"]
    by (simp add: tr_def)
  ultimately show ?thesis
    using assms(2,3) eq tr by (auto simp: safe_component_def stable_end_def)
qed

lemma component_of_safe:
  assumes "component_of U s = Inr c"
  shows "safe_component MaxComponent c"
proof -
  let ?p = "character_pass (nfc U s)"
  define out where "out = (if reserved_name U ?p then CHR ''_'' # ?p else ?p)"
  have ne: "?p \<noteq> []" using assms by (auto simp: component_of_def)
  have c: "c = (if length out > MaxComponent then truncate_keep_ext out (int MaxComponent) else out)"
      "length out > MaxComponent \<Longrightarrow> c \<noteq> []"
    using assms by (auto simp: component_of_def out_def Let_def split: if_splits)
  have out: "stable_end out" "slash \<notin> set out" "backslash \<notin> set out"
    using character_pass_end [OF ne] character_pass_clean ne by (auto simp: out_def stable_end_def)
  show ?thesis
    using truncate_keep_ext_safe [OF out, of MaxComponent] c out
    by (auto simp: safe_component_def MaxComponent_def)
qed

lemma sanitize_parts_safe:
  "sanitize_parts U parts out = Inr res \<Longrightarrow> list_all (safe_component MaxComponent) out \<Longrightarrow>
     list_all (safe_component MaxComponent) res"
proof (induction U parts out rule: sanitize_parts.induct)
  case (2 U part parts out)
  then show ?case
    by (auto simp: sum_split component_of_safe split: if_splits)
qed simp

lemma split_join:
  "ps \<noteq> [] \<Longrightarrow> \<forall>p \<in> set ps. c \<notin> set p \<Longrightarrow> split_on c (join_with [c] ps) = ps"
proof (induction "[c]" ps rule: join_with.induct)
  case (3 x y ys)
  then show ?case by (simp add: split_on_sep split_on_none)
qed (simp_all add: split_on_none)

text \<open>A concrete instance of the tables for the witnesses: everything assigned, no mappings.\<close>

definition plain_tables :: unicode_tables where
  "plain_tables = \<lparr>u_assigned = (\<lambda>_. True), u_upper = id, u_lower = id, u_orbit = (\<lambda>_ _. False),
     u_nfc = id, u_nfd = id, u_fold = id, u_print = (\<lambda>_. True)\<rparr>"

lemma nfc_loop_assigned:
  "(\<And>r. u_assigned U r) \<Longrightarrow> nfc_loop U s i start b = (start, b)"
proof (induction U s i start b rule: nfc_loop.induct)
  case (1 U s i start b)
  show ?case
  proof (cases "length s \<le> i")
    case False
    obtain r w where d: "decode_rune (drop i s) = (r, w)" by fastforce
    show ?thesis
      using "1.IH"(2) [OF False d [symmetric]] "1.prems" False d
      by (subst nfc_loop.simps) simp
  qed (simp add: nfc_loop.simps)
qed

lemma nfc_assigned: "(\<And>r. u_assigned U r) \<Longrightarrow> nfc U s = u_nfc U s"
  by (simp add: nfc_def nfc_loop_assigned)

lemma nfc_plain [simp]: "nfc plain_tables s = s"
  by (simp add: nfc_assigned plain_tables_def)

lemma map_runes_ascii:
  "\<forall>c \<in> set s. bv c < 0x80 \<Longrightarrow> map_runes f s = concat (map (\<lambda>c. encode_rune (f (bv c))) s)"
  by (simp add: map_runes_def ascii_string string_of_runes_def o_def)

lemma char_of_eq: "n < 256 \<Longrightarrow> char_of n = c \<longleftrightarrow> n = bv c"
  by (metis bv_char_of char_of_char)

lemmas path_eval = reserved_name_def upper_string_def to_upper_def map_runes_ascii stem_def
  reserved_names_def encode1 char_of_eq

text \<open>
  C36: the Canvas sanitizer cannot escape the vault. Whatever bytes a Canvas name holds, a
  path that \<open>SanitizePath\<close> returns is a nonempty list of components joined by slashes; no
  component is empty, a dot component, ends in a dot or space, holds a separator or exceeds
  120 bytes, and the whole is at most 400 bytes.
\<close>

theorem sanitize_path_safe:
  assumes "sanitize_path U p = Inr q"
  shows "list_all (safe_component MaxComponent) (split_on slash q) \<and> length q \<le> MaxTotal
    \<and> ''..'' \<notin> set (split_on slash q) \<and> q \<noteq> []"
proof -
  obtain out where out: "sanitize_parts U (split_on slash (replace_byte p backslash slash)) [] = Inr out"
      "out \<noteq> []" "q = join_with ''/'' out" "length q \<le> MaxTotal"
    using assms by (auto simp: sanitize_path_def sum_split Let_def split: if_splits)
  have safe: "list_all (safe_component MaxComponent) out"
    using sanitize_parts_safe [OF out(1)] by simp
  then have parts: "split_on slash q = out"
    using out(2,3) split_join [of out slash] by (auto simp: list_all_iff safe_component_def)
  have "q \<noteq> []"
    using parts safe by (auto simp: safe_component_def stable_end_def)
  then show ?thesis
    using parts safe out(4) by (auto simp: list_all_iff safe_component_def dest!: stable_endD)
qed

section \<open>The parser accepts exactly the portable paths\<close>

text \<open>
  The device names Windows reserves, the superscript and console ones included. A component
  names a device by what stands before its first dot (a leading dot apart), less the spaces
  at its end, in any case.
\<close>

definition device_names :: "string list" where
  "device_names = reserved_names @ concat (map (\<lambda>d. map (\<lambda>x. d @ [CHR 0xC2, x]) [CHR 0xB9, CHR 0xB2, CHR 0xB3])
     [''COM'', ''LPT'']) @ [''CONIN$'', ''CONOUT$'']"

lemma stem_plain: "CHR ''.'' \<notin> set s \<Longrightarrow> stem s = s"
  using index_byte_absent [of s "CHR ''.''"] by (simp add: stem_def Let_def)

lemma stem_cases:
  obtains "stem s = s" "CHR ''.'' \<notin> set s" | "stem s = s" "s \<noteq> []" "hd s = CHR ''.''"
  | a b where "s = a @ CHR ''.'' # b" "CHR ''.'' \<notin> set a" "a \<noteq> []" "stem s = a"
proof (cases "CHR ''.'' \<in> set s")
  case False
  then show ?thesis using that(1) stem_plain by blast
next
  case True
  then obtain a b where ab: "s = a @ CHR ''.'' # b" "CHR ''.'' \<notin> set a" using split_list_first [OF True] by blast
  then have "index_byte s (CHR ''.'') = int (length a)" by (simp add: index_byte_first)
  then have "stem s = (if a \<noteq> [] then a else s)" using ab(1) by (simp add: stem_def)
  then show ?thesis using that(2,3) ab by (cases "a = []") auto
qed

lemma trim_right_subset: "set (trim_right s cs) \<subseteq> set s"
  by (auto simp: trim_right_def dest: set_dropWhileD)

lemma trim_right_hd: "hd s \<notin> set cs \<Longrightarrow> s \<noteq> [] \<Longrightarrow> trim_right s cs \<noteq> [] \<and> hd (trim_right s cs) = hd s"
  by (cases s) (auto simp: trim_right_def dropWhile_append)

lemma stem_trimmed: "stem (trim_right (stem s) '' '') = trim_right (stem s) '' ''"
proof (cases s rule: stem_cases)
  case 2
  then have "hd (trim_right s '' '') = CHR ''.''" "trim_right s '' '' \<noteq> []" using trim_right_hd [of s "'' ''"] by auto
  then show ?thesis using 2(1) by (cases "trim_right s '' ''") (simp_all add: stem_def Let_def)
next
  case 1
  then have "CHR ''.'' \<notin> set (trim_right (stem s) '' '')" using trim_right_subset [of s "'' ''"] by auto
  then show ?thesis by (rule stem_plain)
next
  case (3 a b)
  then have "CHR ''.'' \<notin> set (trim_right (stem s) '' '')" using trim_right_subset [of a "'' ''"] by auto
  then show ?thesis by (rule stem_plain)
qed

lemma device_reserved_exact:
  "device_reserved_name U c \<longleftrightarrow> upper_string U (trim_right (stem c) '' '') \<in> set device_names"
  by (auto simp: device_reserved_name_def reserved_name_def stem_trimmed Let_def device_names_def)

text \<open>A portable component, stated on its runes and bytes without the parser's passes.\<close>

definition portable_component :: "unicode_tables \<Rightarrow> string \<Rightarrow> bool" where
  "portable_component U c \<longleftrightarrow> c \<noteq> [] \<and> c \<noteq> ''.'' \<and> c \<noteq> ''..'' \<and>
     (\<forall>x \<in> set c. x \<notin> set illegal) \<and> (\<forall>r \<in> set (runes c). \<not> is_control r) \<and>
     hd c \<noteq> CHR '' '' \<and> last c \<noteq> CHR ''.'' \<and> last c \<noteq> CHR '' '' \<and>
     upper_string U (trim_right (stem c) '' '') \<notin> set device_names \<and> length c \<le> DeviceMaxComponent"

definition portable_path :: "unicode_tables \<Rightarrow> string \<Rightarrow> bool" where
  "portable_path U s \<longleftrightarrow> valid_string s \<and> nfc U s = s \<and> backslash \<notin> set s \<and>
     (\<forall>c \<in> set (split_on slash s). portable_component U c) \<and> length s \<le> DeviceMaxTotal"

lemma concat_eq_length:
  assumes "\<forall>r \<in> set rs. length (f r) \<le> length (g r)" "concat (map f rs) = concat (map g rs)"
  shows "\<forall>r \<in> set rs. f r = g r"
proof -
  have le: "length (concat (map f rs)) \<le> length (concat (map g rs))"
    if "\<forall>r \<in> set rs. length (f r) \<le> length (g r)" for rs
    using that by (induction rs) (auto simp: add_le_mono)
  show ?thesis using assms
  proof (induction rs)
    case (Cons r rs)
    have "length (concat (map f rs)) \<le> length (concat (map g rs))"
      using Cons.prems(1) by (intro le) simp
    moreover have "length (f r) + length (concat (map f rs)) = length (g r) + length (concat (map g rs))"
      using arg_cong [OF Cons.prems(2), of length] by simp
    ultimately have "length (f r) = length (g r)" using Cons.prems(1) by simp
    then have "f r = g r" "concat (map f rs) = concat (map g rs)"
      using Cons.prems(2) by simp_all
    moreover from this(2) have "\<forall>r \<in> set rs. f r = g r"
      by (intro Cons.IH) (use Cons.prems(1) in auto)
    ultimately show ?case by (metis set_ConsD)
  qed simp
qed

lemma pass_eq_encode:
  assumes "scalar r"
  shows "pass_rune r = encode_rune r \<longleftrightarrow>
    r \<noteq> 47 \<and> r \<noteq> 92 \<and> r \<notin> set (map bv illegal) \<and> \<not> is_control r"
proof -
  have "encode_rune r = ''-'' \<longleftrightarrow> r = 45"
    using ascii_in_encode [of "CHR ''-''" r] encode1 [of 45] of_char_of [of 45]
    by (auto simp: bv_inj [symmetric])
  then show ?thesis by (auto simp: pass_rune_def illegal_def is_control_def eq_commute [of "[]"])
qed

lemma trim_left_suffix: "\<exists>t. s = t @ trim_left s cs"
  unfolding trim_left_def by (metis takeWhile_dropWhile_id)

lemma trims_id:
  assumes eq: "trim_left (trim_right x ''. '') '' '' = c" and le: "length x \<le> length c"
  shows "x = c \<and> trim_right c ''. '' = c \<and> trim_left c '' '' = c"
proof -
  obtain t u where t: "x = trim_right x ''. '' @ t" "trim_right x ''. '' = u @ c"
    using trim_right_prefix [of x "''. ''"] trim_left_suffix [of "trim_right x ''. ''" "'' ''"]
    unfolding eq by blast
  have "length x = length u + length c + length t" using arg_cong [OF t(1), of length] t(2) by simp
  then have "u = []" "t = []" using le by auto
  with t eq show ?thesis by auto
qed

lemma character_pass_id:
  assumes "valid_string c"
  shows "character_pass c = c \<longleftrightarrow>
    (\<forall>r \<in> set (runes c). r \<noteq> 47 \<and> r \<noteq> 92 \<and> r \<notin> set (map bv illegal) \<and> \<not> is_control r) \<and>
    (c \<noteq> [] \<longrightarrow> last c \<noteq> CHR ''.'' \<and> last c \<noteq> CHR '' '' \<and> hd c \<noteq> CHR '' '')"
proof -
  let ?x = "concat (map pass_rune (runes c))"
  have c: "concat (map encode_rune (runes c)) = c" "\<forall>r \<in> set (runes c). scalar r"
    using valid_string_runes [OF assms] by (simp_all add: string_of_runes_def)
  have le: "length ?x \<le> length c"
  proof -
    have "length (concat (map pass_rune rs)) \<le> length (concat (map encode_rune rs))" for rs
      by (induction rs) (simp_all add: add_mono pass_length)
    from this [of "runes c"] show ?thesis by (simp only: c(1))
  qed
  have x: "?x = c \<longleftrightarrow> (\<forall>r \<in> set (runes c). pass_rune r = encode_rune r)"
  proof
    assume "?x = c"
    then have "?x = concat (map encode_rune (runes c))" by (simp only: c(1))
    then show "\<forall>r \<in> set (runes c). pass_rune r = encode_rune r"
      by (intro concat_eq_length) (simp_all add: pass_length)
  next
    assume "\<forall>r \<in> set (runes c). pass_rune r = encode_rune r"
    then have "map pass_rune (runes c) = map encode_rune (runes c)" by simp
    then show "?x = c" by (simp only: c(1))
  qed
  have "character_pass c = c \<longleftrightarrow> ?x = c \<and> trim_right c ''. '' = c \<and> trim_left c '' '' = c"
    using trims_id [of ?x c] le by (auto simp: character_pass_def)
  then show ?thesis
    using x c(2) pass_eq_encode by (auto simp: trim_right_id trim_left_id)
qed

theorem sanitize_path_safe_witness:
  "list_all (safe_component MaxComponent) (split_on slash ''a/b.pdf'')"
proof -
  have "character_pass ''a'' = ''a''" "character_pass ''b.pdf'' = ''b.pdf''"
    by (simp_all add: character_pass_id ascii_string illegal_def is_control_def)
  moreover have "\<not> reserved_name plain_tables ''a''" "\<not> reserved_name plain_tables ''b.pdf''"
    by (simp_all add: path_eval)
  ultimately have "component_of plain_tables ''a'' = Inr ''a''"
    "component_of plain_tables ''b.pdf'' = Inr ''b.pdf''"
    by (simp_all add: component_of_def MaxComponent_def)
  then have "sanitize_path plain_tables ''a/b.pdf'' = Inr ''a/b.pdf''"
    by (simp add: sanitize_path_def replace_byte_def has_prefix_def MaxTotal_def)
  from sanitize_path_safe [OF this] show ?thesis by blast
qed

text \<open>On valid UTF-8 an ASCII byte occurs exactly when its rune does.\<close>

lemma ascii_rune_iff:
  assumes "valid_string s" "bv x < 0x80"
  shows "bv x \<in> set (runes s) \<longleftrightarrow> x \<in> set s"
proof -
  have s: "s = concat (map encode_rune (runes s))"
    using valid_string_runes [OF assms(1)] by (simp add: string_of_runes_def)
  have "encode_rune (bv x) = [x]" using encode1 [OF assms(2)] by simp
  then show ?thesis
    using ascii_in_encode [of x] assms(2) by (subst (2) s) force
qed

lemma split_on_subset: "c \<in> set (split_on d s) \<Longrightarrow> set c \<subseteq> set s"
proof (induction s arbitrary: c)
  case (Cons x xs)
  then show ?case by (cases "split_on d xs") (fastforce split: if_splits)+
qed simp

lemma split_on_length: "c \<in> set (split_on d s) \<Longrightarrow> length c \<le> length s"
proof (induction s arbitrary: c)
  case (Cons x xs)
  then show ?case by (cases "split_on d xs") (fastforce split: if_splits)+
qed simp

lemma first_reason_None: "first_reason f i cs = None \<longleftrightarrow> (\<forall>c \<in> set cs. f c = ReasonNone)"
  by (induction cs arbitrary: i) auto

lemma character_reason_None:
  "character_reason U c = ReasonNone \<longleftrightarrow> character_pass c = c \<and> \<not> device_reserved_name U c"
  by (simp add: character_reason_def)

lemma portable_part:
  assumes "valid_string c" "slash \<notin> set c" "backslash \<notin> set c"
  shows "structure_reason c = ReasonNone \<and> character_reason U c = ReasonNone
      \<and> \<not> length c > DeviceMaxComponent \<longleftrightarrow> portable_component U c"
proof -
  have "47 \<notin> set (runes c)" "92 \<notin> set (runes c)"
    using assms(2,3) ascii_rune_iff [OF assms(1), of slash] ascii_rune_iff [OF assms(1), of backslash] by simp_all
  moreover have "(\<forall>r \<in> set (runes c). r \<notin> set (map bv illegal)) \<longleftrightarrow> (\<forall>x \<in> set c. x \<notin> set illegal)"
  proof -
    have "bv x < 0x80" if "x \<in> set illegal" for x using that by (auto simp: illegal_def)
    then have "bv x \<in> set (runes c) \<longleftrightarrow> x \<in> set c" if "x \<in> set illegal" for x
      using ascii_rune_iff [OF assms(1)] that by blast
    then show ?thesis by auto
  qed
  ultimately show ?thesis
    using character_pass_id [OF assms(1)]
    by (auto simp: portable_component_def structure_reason_def character_reason_None device_reserved_exact not_less)
qed

text \<open>An ASCII byte is a rune boundary.\<close>

lemma runes_at_ascii:
  assumes "bv x < 0x80"
  shows "concat (map encode_rune rs) = s @ x # t \<Longrightarrow>
    \<exists>rs1 rs2. rs = rs1 @ bv x # rs2 \<and> s = concat (map encode_rune rs1) \<and> t = concat (map encode_rune rs2)"
proof (induction rs arbitrary: s)
  case (Cons r rs)
  have "encode_rune r @ concat (map encode_rune rs) = s @ x # t" using Cons.prems by simp
  then consider (inside) v where "encode_rune r = s @ x # v"
    | (after) s' where "s = encode_rune r @ s'" "concat (map encode_rune rs) = s' @ x # t"
    by (auto simp: append_eq_append_conv2 append_eq_Cons_conv)
  then show ?case
  proof cases
    case inside
    then have "r = bv x" using ascii_in_encode [of x r] assms by simp
    moreover from this have "s @ x # v = [x]" using inside encode1 [of r] assms by simp
    ultimately show ?thesis using Cons.prems encode1 [of r] assms
      by (intro exI [of _ "[]"] exI [of _ rs]) (auto simp: append_eq_Cons_conv)
  next
    case after
    then obtain rs1 rs2 where "rs = rs1 @ bv x # rs2" "s' = concat (map encode_rune rs1)"
      "t = concat (map encode_rune rs2)" using Cons.IH by blast
    then show ?thesis using after by (intro exI [of _ "r # rs1"] exI [of _ rs2]) simp
  qed
qed simp

lemma valid_at_ascii:
  assumes "valid_string (s @ x # t)" "bv x < 0x80"
  shows "valid_string s \<and> valid_string t"
proof -
  let ?rs = "runes (s @ x # t)"
  have v: "concat (map encode_rune ?rs) = s @ x # t" "\<forall>r \<in> set ?rs. scalar r"
    using valid_string_runes [OF assms(1)] by (simp_all add: string_of_runes_def)
  then obtain rs1 rs2 where "?rs = rs1 @ bv x # rs2" "s = string_of_runes rs1" "t = string_of_runes rs2"
    using runes_at_ascii [OF assms(2) v(1)] by (auto simp: string_of_runes_def)
  then show ?thesis using v(2) runes_string_of_runes by auto
qed

lemma valid_join: "valid_string (join_with [slash] ps) \<Longrightarrow> p \<in> set ps \<Longrightarrow> valid_string p"
proof (induction "[slash]" ps rule: join_with.induct)
  case (3 x y ys)
  then show ?case using valid_at_ascii [of x slash "join_with [slash] (y # ys)"] by auto
qed simp_all

text \<open>
  C35: \<open>Parse\<close> accepts exactly the portable paths, and returns the input unchanged: valid
  UTF-8 in NFC without a backslash, at most 512 bytes, each component nonempty, not a dot
  component, without reserved or control characters, without a leading space or a final
  dot or space, not a device name, and at most 200 bytes.
\<close>

theorem parse_path_exact:
  "parse_path U s = Inr p \<longleftrightarrow> portable_path U s \<and> p = \<lparr>path_s = s\<rparr>"
proof -
  let ?parts = "split_on slash s"
  have part: "structure_reason c = ReasonNone \<and> character_reason U c = ReasonNone
      \<and> \<not> length c > DeviceMaxComponent \<longleftrightarrow> portable_component U c"
    if "valid_string s" "backslash \<notin> set s" "c \<in> set ?parts" for c
  proof (rule portable_part)
    show "valid_string c" using valid_join [of ?parts c] that join_split [of slash s] by simp
    show "slash \<notin> set c" using that(3) by (rule split_on_parts)
    show "backslash \<notin> set c"
      using that(2,3) split_on_subset by blast
  qed
  have root: "portable_path U s \<Longrightarrow> s \<noteq> [] \<and> \<not> has_prefix s ''/''"
    by (auto simp: portable_path_def portable_component_def has_prefix_iff)
  have len: "(if length c > DeviceMaxComponent then ComponentTooLong else ReasonNone) = ReasonNone
      \<longleftrightarrow> \<not> length c > DeviceMaxComponent" for c :: string by simp
  let ?long = "\<lambda>c. if length c > DeviceMaxComponent then ComponentTooLong else ReasonNone"
  have "parse_path U s = Inr p \<longleftrightarrow> valid_string s \<and> nfc U s = s \<and> s \<noteq> [] \<and> \<not> has_prefix s ''/''
      \<and> \<not> contains_any s [backslash] \<and> first_reason structure_reason 0 ?parts = None
      \<and> first_reason (character_reason U) 0 ?parts = None \<and> first_reason ?long 0 ?parts = None
      \<and> length s \<le> DeviceMaxTotal \<and> p = \<lparr>path_s = s\<rparr>"
    unfolding parse_path_def Let_def
    by (cases "first_reason structure_reason 0 ?parts"; cases "first_reason (character_reason U) 0 ?parts";
        cases "first_reason ?long 0 ?parts") (auto split: prod.split)
  also have "\<dots> \<longleftrightarrow> valid_string s \<and> nfc U s = s \<and> s \<noteq> [] \<and> \<not> has_prefix s ''/''
      \<and> backslash \<notin> set s \<and> (\<forall>c \<in> set ?parts. structure_reason c = ReasonNone)
      \<and> (\<forall>c \<in> set ?parts. character_reason U c = ReasonNone)
      \<and> (\<forall>c \<in> set ?parts. \<not> length c > DeviceMaxComponent)
      \<and> length s \<le> DeviceMaxTotal \<and> p = \<lparr>path_s = s\<rparr>"
    unfolding first_reason_None len by (simp add: contains_any_def list_ex_iff)
  finally have "parse_path U s = Inr p \<longleftrightarrow> valid_string s \<and> nfc U s = s \<and> s \<noteq> [] \<and> \<not> has_prefix s ''/''
      \<and> backslash \<notin> set s \<and> (\<forall>c \<in> set ?parts. structure_reason c = ReasonNone \<and>
        character_reason U c = ReasonNone \<and> \<not> length c > DeviceMaxComponent)
      \<and> length s \<le> DeviceMaxTotal \<and> p = \<lparr>path_s = s\<rparr>"
    by blast
  then show ?thesis
    using part root unfolding portable_path_def by blast
qed

section \<open>Path operations stay in their directory\<close>

lemma last_index_append:
  "c \<notin> set t \<Longrightarrow> last_index_byte (s @ c # t) c = int (length s)"
  by (induction s) (auto simp: Let_def last_index_byte_none [symmetric])

lemma split_at_last:
  assumes "last_index_byte s c \<ge> 0"
  obtains a b where "s = a @ c # b" "c \<notin> set b" "nat (last_index_byte s c) = length a"
proof -
  let ?i = "nat (last_index_byte s c)"
  have "?i < length s" using assms last_index_byte_range [of s c] by linarith
  then have "s = take ?i s @ c # drop (Suc ?i) s" "length (take ?i s) = ?i"
    using last_index_byte_nonneg [OF assms] id_take_nth_drop [of ?i s] by auto
  moreover have "c \<notin> set (drop (Suc ?i) s)" using last_index_byte_nonneg [OF assms] by simp
  ultimately show thesis using that by metis
qed

lemma base_dir_none: "slash \<notin> set s \<Longrightarrow> path_base \<lparr>path_s = s\<rparr> = s \<and> path_dir \<lparr>path_s = s\<rparr> = (zero_path, False)"
  using last_index_byte_range [of s slash] last_index_byte_none [of s slash]
  by (simp add: path_base_def path_dir_def)

lemma base_dir_append:
  "slash \<notin> set b \<Longrightarrow> path_base \<lparr>path_s = a @ slash # b\<rparr> = b
     \<and> path_dir \<lparr>path_s = a @ slash # b\<rparr> = (\<lparr>path_s = a\<rparr>, True)"
  by (simp add: path_base_def path_dir_def last_index_append nat_add_distrib)

lemma parse_path_s: "parse_path U s = Inr p \<Longrightarrow> path_s p = s \<and> p = \<lparr>path_s = s\<rparr> \<and> s \<noteq> [] \<and> \<not> has_prefix s ''/''"
  by (auto simp: parse_path_exact portable_path_def portable_component_def has_prefix_iff)

text \<open>
  replacing the final component never leaves the directory. For a parsed path, a
  successful \<open>WithBase\<close> gives a portable path with exactly the new name in the same
  directory, whatever separators or dots the name holds.
\<close>

theorem with_base_same_dir:
  assumes "parse_path U s = Inr p" "with_base U p name = Inr q"
  shows "path_base q = name \<and> path_dir q = path_dir p \<and> portable_path U (path_s q)"
proof -
  note p = parse_path_s [OF assms(1)]
  obtain n where n: "parse_path U name = Inr n" "slash \<notin> set name"
    and q: "if path_is_zero (fst (path_dir p)) then q = n
      else parse_path U (path_s (fst (path_dir p)) @ ''/'' @ name) = Inr q"
    using assms(2) parse_path_s by (auto simp: with_base_def path_join_def sum_split split: if_splits)
  have name: "n = \<lparr>path_s = name\<rparr>" using parse_path_s [OF n(1)] by simp
  show ?thesis
  proof (cases "slash \<in> set s")
    case False
    then have "path_dir p = (zero_path, False)" using base_dir_none [of s] p by simp
    then show ?thesis
      using q base_dir_none [OF n(2)] name n(1) by (auto simp: path_is_zero_def zero_path_def parse_path_exact)
  next
    case True
    then obtain a b where ab: "s = a @ slash # b" "slash \<notin> set b"
      using split_at_last [of s slash] last_index_byte_none [of s slash] by (metis not_less)
    have "a \<noteq> []" using p ab by (auto simp: has_prefix_iff)
    moreover have "path_dir p = (\<lparr>path_s = a\<rparr>, True)" using base_dir_append [OF ab(2)] p ab by simp
    ultimately show ?thesis
      using q base_dir_append [OF n(2), of a] parse_path_s [of U "a @ ''/'' @ name" q]
      by (auto simp: path_is_zero_def parse_path_exact)
  qed
qed

lemma ascii_path_portable:
  "\<forall>x \<in> set s. bv x < 0x80 \<Longrightarrow> \<forall>x \<in> set s. x \<noteq> backslash \<and> x \<notin> set illegal \<and> \<not> is_control (bv x) \<Longrightarrow>
    \<forall>c \<in> set (split_on slash s). c \<noteq> [] \<and> hd c \<noteq> CHR '' '' \<and> last c \<noteq> CHR ''.'' \<and> last c \<noteq> CHR '' ''
      \<and> \<not> device_reserved_name plain_tables c \<Longrightarrow>
    length s \<le> DeviceMaxComponent \<Longrightarrow> parse_path plain_tables s = Inr \<lparr>path_s = s\<rparr>"
proof -
  assume a: "\<forall>x \<in> set s. bv x < 0x80" "\<forall>x \<in> set s. x \<noteq> backslash \<and> x \<notin> set illegal \<and> \<not> is_control (bv x)"
    "\<forall>c \<in> set (split_on slash s). c \<noteq> [] \<and> hd c \<noteq> CHR '' '' \<and> last c \<noteq> CHR ''.'' \<and> last c \<noteq> CHR '' ''
      \<and> \<not> device_reserved_name plain_tables c" "length s \<le> DeviceMaxComponent"
  have part: "portable_component plain_tables c" if c: "c \<in> set (split_on slash s)" for c
  proof -
    have sub: "set c \<subseteq> set s" and len: "length c \<le> length s"
      using split_on_subset [OF c] split_on_length [OF c] by auto
    have "runes c = map bv c" using ascii_string [of c] a(1) sub by auto
    then have "\<forall>r \<in> set (runes c). \<not> is_control r" "\<forall>x \<in> set c. x \<notin> set illegal"
      using a(2) sub by (auto simp del: of_char_def)
    moreover have "c \<noteq> ''.''" "c \<noteq> ''..''" using bspec [OF a(3) c] by auto
    ultimately show ?thesis
      unfolding portable_component_def using bspec [OF a(3) c] len a(4) by (simp add: device_reserved_exact)
  qed
  have "valid_string s" "backslash \<notin> set s" "length s \<le> DeviceMaxTotal"
    using ascii_string [of s] a by (auto simp: DeviceMaxComponent_def DeviceMaxTotal_def)
  with part show ?thesis by (simp add: parse_path_exact portable_path_def)
qed

text \<open>The names of \<^verbatim>\<open>TestWindowsConsoleAndSpacedDeviceNames\<close> (\<^verbatim>\<open>path_test.go\<close>) are refused as reserved.\<close>

lemma reserved_component:
  assumes "device_reserved_name U c" "character_pass c = c" "structure_reason c = ReasonNone" "valid_string c" "nfc U c = c"
    and "slash \<notin> set c" "backslash \<notin> set c"
  shows "parse_path U c = Inl \<lparr>pe_input = c, pe_component = 0, pe_reason = ReservedName\<rparr>"
proof -
  have "c \<noteq> []" "\<not> has_prefix c [slash]" "\<not> contains_any c [backslash]"
    using assms(3,6,7) by (auto simp: structure_reason_def has_prefix_iff contains_any_def list_ex_iff)
  moreover have "split_on slash c = [c]" using assms(6) by (rule split_on_none)
  moreover have "character_reason U c = ReservedName" using assms(1,2) by (simp add: character_reason_def)
  ultimately show ?thesis using assms(3-5) by (simp add: parse_path_def Let_def)
qed

lemma superscript_runes:
  "valid_string (''COM'' @ [CHR 0xC2, CHR 0xB9] @ '' .md'') \<and>
     runes (''COM'' @ [CHR 0xC2, CHR 0xB9] @ '' .md'') = map bv ''COM'' @ 0xB9 # map bv '' .md''"
  by (simp add: valid_string_cons runes_cons decode_rune_def seq_len_def second_ok_def rune_error_def)

lemma device_aliases:
  "device_reserved_name plain_tables ''CONIN$''" "device_reserved_name plain_tables ''conout$.txt''"
  "device_reserved_name plain_tables ''CON .txt''" "device_reserved_name plain_tables ''LPT1 .pdf''"
  "device_reserved_name plain_tables ''CONIN$ .txt''"
  "device_reserved_name plain_tables (''COM'' @ [CHR 0xC2, CHR 0xB9] @ '' .md'')"
  by (simp_all add: device_reserved_exact path_eval device_names_def trim_right_def)
    (simp add: map_runes_def runes_cons decode_rune_def seq_len_def second_ok_def string_of_runes_def encode1
      encode2 [of 2 57, simplified] char_of_eq to_upper_def plain_tables_def)

lemma device_aliases_refused:
  assumes "c \<in> {''CONIN$'', ''conout$.txt'', ''CON .txt'', ''COM'' @ [CHR 0xC2, CHR 0xB9] @ '' .md'', ''LPT1 .pdf'', ''CONIN$ .txt''}"
  shows "parse_path plain_tables c = Inl \<lparr>pe_input = c, pe_component = 0, pe_reason = ReservedName\<rparr>"
proof (rule reserved_component)
  show "device_reserved_name plain_tables c" using assms device_aliases by blast
  show "character_pass c = c"
    using assms superscript_runes by (auto simp: character_pass_id ascii_string illegal_def is_control_def)
qed (use assms superscript_runes in \<open>auto simp: structure_reason_def\<close>)

theorem with_base_same_dir_witness:
  "path_dir \<lparr>path_s = ''a/c.md''\<rparr> = path_dir \<lparr>path_s = ''a/b.md''\<rparr>"
proof -
  have st: "stem ''a'' = ''a''" "stem ''b.md'' = ''b''" "stem ''c.md'' = ''c''" "stem ''b'' = ''b''" "stem ''c'' = ''c''"
    by (simp_all add: stem_def)
  have up: "upper_string plain_tables ''a'' = ''A''" "upper_string plain_tables ''b'' = ''B''"
    "upper_string plain_tables ''c'' = ''C''"
    by (simp_all add: upper_string_def to_upper_def map_runes_ascii encode1 char_of_eq)
  have dev: "\<not> device_reserved_name plain_tables ''a''" "\<not> device_reserved_name plain_tables ''b.md''"
    "\<not> device_reserved_name plain_tables ''c.md''"
    by (auto simp: device_reserved_exact device_names_def st up reserved_names_def trim_right_def)
  have p: "parse_path plain_tables ''a/b.md'' = Inr \<lparr>path_s = ''a/b.md''\<rparr>"
    "parse_path plain_tables ''c.md'' = Inr \<lparr>path_s = ''c.md''\<rparr>"
    "parse_path plain_tables ''a/c.md'' = Inr \<lparr>path_s = ''a/c.md''\<rparr>"
    by (rule ascii_path_portable; simp add: dev DeviceMaxComponent_def illegal_def is_control_def)+
  then have "with_base plain_tables \<lparr>path_s = ''a/b.md''\<rparr> ''c.md'' = Inr \<lparr>path_s = ''a/c.md''\<rparr>"
    by (simp add: with_base_def path_join_def path_dir_def path_is_zero_def)
  from with_base_same_dir [OF p(1) this] show ?thesis by simp
qed

section \<open>Disambiguation\<close>

lemma digits_no_paren: "x \<in> set (string_of_int i) \<Longrightarrow> x = CHR 0x2D \<or> is_digit x"
  using digits_are_digits by (auto simp: string_of_int_def split: if_splits)

lemma paren_split: "CHR ''('' \<notin> set d \<Longrightarrow> CHR ''('' \<notin> set e \<Longrightarrow>
    a @ CHR ''('' # d = b @ CHR ''('' # e \<Longrightarrow> d = e"
  using split_on_sep [of "CHR ''(''" a d] split_on_sep [of "CHR ''(''" b e]
  by (metis last_ConsL last_append list.distinct(1) split_on_none)

lemma disambiguate_shape:
  obtains dir ext st where "\<And>i. disambiguate p i = dir @ st i @ '' ('' @ string_of_int i @ '')'' @ ext"
    "p = dir @ take (length p - length dir - length ext) (drop (length dir) p) @ ext"
    "dir = [] \<and> slash \<notin> set p \<or> (\<exists>a. dir = a @ [slash] \<and> slash \<notin> set (drop (length dir) p))"
    "\<And>i. length (string_of_int i) + 3 + length ext \<le> MaxComponent \<Longrightarrow>
       length (st i @ '' ('' @ string_of_int i @ '')'' @ ext) \<le> MaxComponent"
    "\<And>i. set (st i) \<subseteq> set (drop (length dir) p)" "set ext \<subseteq> set (drop (length dir) p)"
proof -
  define i0 where "i0 = last_index_byte p slash"
  define dir where "dir = (if i0 \<ge> 0 then take (nat i0 + 1) p else [])"
  define name where "name = (if i0 \<ge> 0 then drop (nat i0 + 1) p else p)"
  define k where "k = last_index_byte name (CHR ''.'')"
  define st0 where "st0 = (if k > 0 then take (nat k) name else name)"
  define ext where "ext = (if k > 0 then drop (nat k) name else [])"
  define over where "over i = int (length st0) + int (length ('' ('' @ string_of_int i @ '')''))
    + int (length ext) - int MaxComponent" for i
  define st where "st i = (if over i > 0
    then trim_right (truncate_bytes st0 (max 0 (int (length st0) - over i))) ''. '' else st0)" for i
  have rng: "i0 < int (length p)" using last_index_byte_range [of p slash] by (simp add: i0_def)
  have dn: "p = dir @ name" "name = drop (length dir) p"
    using rng by (auto simp: dir_def name_def)
  have se: "name = st0 @ ext" by (simp add: st0_def ext_def)
  have eq: "disambiguate p i = dir @ st i @ '' ('' @ string_of_int i @ '')'' @ ext" for i
    unfolding disambiguate_def Let_def i0_def [symmetric] dir_def [symmetric] name_def [symmetric]
      k_def [symmetric] st0_def [symmetric] ext_def [symmetric] over_def [symmetric] st_def [symmetric]
    by simp
  have slashes: "dir = [] \<and> slash \<notin> set p \<or> (\<exists>a. dir = a @ [slash] \<and> slash \<notin> set (drop (length dir) p))"
  proof (cases "i0 \<ge> 0")
    case True
    then obtain a b where "p = a @ slash # b" "slash \<notin> set b" "nat i0 = length a"
      using split_at_last [of p slash] unfolding i0_def by metis
    then show ?thesis using True by (auto simp: dir_def)
  next
    case False
    then show ?thesis using last_index_byte_none [of p slash] by (auto simp: dir_def i0_def)
  qed
  have len: "length (st i @ '' ('' @ string_of_int i @ '')'' @ ext) \<le> MaxComponent"
    if "length (string_of_int i) + 3 + length ext \<le> MaxComponent" for i
  proof (cases "over i > 0")
    case True
    then have "int (length (st i)) \<le> max 0 (int (length st0) - over i)"
      using length_trim_right [of "truncate_bytes st0 (max 0 (int (length st0) - over i))" "''. ''"]
        truncate_length [of "max 0 (int (length st0) - over i)" st0] by (auto simp: st_def)
    then show ?thesis using that by (auto simp: over_def max_def split: if_splits)
  next
    case False
    then show ?thesis by (simp add: st_def over_def)
  qed
  have sets: "set (st i) \<subseteq> set name" for i
    using se trim_right_set truncate_set by (fastforce simp: st_def split: if_splits)
  show thesis
  proof (rule that [OF eq _ slashes len])
    show "p = dir @ take (length p - length dir - length ext) (drop (length dir) p) @ ext"
      using dn se by (metis add_diff_cancel_right' append_eq_conv_conj diff_diff_left length_append length_drop)
    show "set (st i) \<subseteq> set (drop (length dir) p)" for i using sets dn(2) by simp
    show "set ext \<subseteq> set (drop (length dir) p)" using se dn(2) by auto
  qed
qed

text \<open>
  C37: disambiguation cannot merge two Canvas files: the names it derives from one path for
  different file ids differ and stay in the path's directory, however much of the stem is
  cut to make room for the id.
\<close>

theorem disambiguate_injective:
  "(disambiguate p i = disambiguate p j \<longleftrightarrow> i = j) \<and>
   path_dir \<lparr>path_s = disambiguate p i\<rparr> = path_dir \<lparr>path_s = p\<rparr>"
proof -
  obtain dir ext st where eq: "\<And>i. disambiguate p i = dir @ st i @ '' ('' @ string_of_int i @ '')'' @ ext"
    and p: "p = dir @ take (length p - length dir - length ext) (drop (length dir) p) @ ext"
    and dir: "dir = [] \<and> slash \<notin> set p \<or> (\<exists>a. dir = a @ [slash] \<and> slash \<notin> set (drop (length dir) p))"
    and sets: "\<And>i. set (st i) \<subseteq> set (drop (length dir) p)" "set ext \<subseteq> set (drop (length dir) p)"
    by (rule disambiguate_shape [of p]) blast
  have np: "CHR ''('' \<notin> set (string_of_int i)" for i
    using digits_no_paren [of "CHR ''(''" i] by (auto simp: is_digit_def)
  have "i = j" if "disambiguate p i = disambiguate p j"
  proof -
    have "(st i @ '' '') @ CHR ''('' # string_of_int i = (st j @ '' '') @ CHR ''('' # string_of_int j"
      using that unfolding eq by simp
    then show ?thesis using paren_split [OF np np] string_of_int_inj by blast
  qed
  moreover have ns: "slash \<notin> set (string_of_int i)"
    using digits_no_paren [of slash i] by (auto simp: is_digit_def)
  have "path_dir \<lparr>path_s = disambiguate p i\<rparr> = path_dir \<lparr>path_s = p\<rparr>"
    using dir
  proof (elim disjE exE conjE)
    assume "dir = []" "slash \<notin> set p"
    then show ?thesis
      using eq [of i] sets(1) [of i] sets(2) ns base_dir_none [of p] base_dir_none [of "disambiguate p i"] by auto
  next
    fix a assume a: "dir = a @ [slash]" "slash \<notin> set (drop (length dir) p)"
    have "slash \<notin> set (st i @ '' ('' @ string_of_int i @ '')'' @ ext)" using a(2) sets(1) [of i] sets(2) ns by auto
    moreover have "p = a @ slash # drop (length dir) p"
      using p a(1) by (metis append.assoc append_Cons append_Nil append_eq_conv_conj)
    ultimately show ?thesis
      using base_dir_append a(2) eq [of i] a(1) by (metis append.assoc append_Cons append_Nil)
  qed
  ultimately show ?thesis by blast
qed

end
