(* ===== verification/Rules_Names.thy ===== *)
theory Rules_Names
  imports Classify Rules_Guard Vpath_Correct
begin

text \<open>
  Naming: \<^verbatim>\<open>internal/core/rules/types.go\<close> (configuration) and \<^verbatim>\<open>names.go\<close> (sidecar
  names, numbered and conflict copies). The shell's locked key lookup \<open>taken\<close> is an
  argument; its errors are strings that the code passes on unchanged.
\<close>

section \<open>Configuration\<close>

datatype rules_error = ErrNoFreeName | ErrNameTooLong "path_error option" | ErrRulesConfig
  | ErrCompound string | ErrClassifyConfig "classify_error list" | ErrNotPDF | ErrTaken string
  | ErrJoined "rules_error list"

record text_window =
  w_max_ops :: int
  w_max_age :: int

record rules_config =
  rc_canvas_root :: path
  rc_compound :: "string list"
  rc_max_attempts :: int
  rc_quiet :: int
  rc_window :: text_window
  rc_guard :: guard_config
  rc_classify :: classify_config

definition second :: int where "second = 10 ^ 9"

text \<open>0.10 is the \<^verbatim>\<open>float64\<close> nearest to one tenth.\<close>

definition rules_default_config :: rules_config where
  "rules_default_config = \<lparr>rc_canvas_root = \<lparr>path_s = ''Canvas''\<rparr>, rc_compound = [''.annot.json''],
     rc_max_attempts = 100, rc_quiet = 10 * second,
     rc_window = \<lparr>w_max_ops = 5000, w_max_age = 24 * 3600 * second\<rparr>,
     rc_guard = \<lparr>g_window = 300 * second, g_max_count = 25, g_min_for_ratio = 5,
       g_ratio = FNum 7205759403792794 56, g_buckets = 30\<rparr>,
     rc_classify = classify_default_config\<rparr>"

definition compound_bad :: "unicode_tables \<Rightarrow> string set \<Rightarrow> string \<Rightarrow> bool" where
  "compound_bad U seen s \<longleftrightarrow> length s < 2 \<or> hd s \<noteq> CHR ''.'' \<or> length s > 64
     \<or> contains_any s [CHR ''/'', CHR 0x5C] \<or> \<not> is_ok (parse_path U (CHR ''x'' # s))
     \<or> lower_string U s \<in> seen"

fun validate_compound :: "unicode_tables \<Rightarrow> string set \<Rightarrow> string list \<Rightarrow> rules_error list" where
  "validate_compound U seen [] = []"
| "validate_compound U seen (s # ss) =
    (if compound_bad U seen s then [ErrCompound s] else [])
    @ validate_compound U (insert (lower_string U s) seen) ss"

definition rules_validate :: "unicode_tables \<Rightarrow> rules_config \<Rightarrow> rules_error list" where
  "rules_validate U c =
    (if path_is_zero (rc_canvas_root c) \<or> rc_max_attempts c \<le> 0 \<or> rc_max_attempts c > 10000
        \<or> rc_quiet c < 0 \<or> w_max_ops (rc_window c) < 0 \<or> w_max_age (rc_window c) < 0
     then [ErrRulesConfig] else [])
    @ validate_compound U {} (rc_compound c)
    @ (case classify_validate (rc_classify c) of [] \<Rightarrow> [] | e # es \<Rightarrow> [ErrClassifyConfig (e # es)])
    @ (if guard_config_ok (rc_guard c) then [] else [ErrRulesConfig])"

section \<open>Sidecar names\<close>

definition is_pdf :: "unicode_tables \<Rightarrow> path \<Rightarrow> bool" where
  "is_pdf U p = (let b = path_base p in
     length b > 4 \<and> equal_fold U (drop (length b - 4) b) ''.pdf'')"

definition sidecar_of :: "unicode_tables \<Rightarrow> path \<Rightarrow> rules_error + path" where
  "sidecar_of U pdf =
    (if \<not> is_pdf U pdf then Inl ErrNotPDF
     else case with_base U pdf (path_base pdf @ ''.annot.json'') of
       Inl e \<Rightarrow> Inl (ErrNameTooLong (Some e)) | Inr p \<Rightarrow> Inr p)"

definition pdf_of :: "unicode_tables \<Rightarrow> path \<Rightarrow> path \<times> bool" where
  "pdf_of U sidecar =
    (let b = path_base sidecar; suffix = ''.annot.json''; n = length b - length suffix in
     if length b \<le> length suffix \<or> \<not> equal_fold U (drop n b) suffix then (zero_path, False)
     else case with_base U sidecar (take n b) of
       Inl _ \<Rightarrow> (zero_path, False) | Inr p \<Rightarrow> (p, is_pdf U p))"

type_synonym taken = "path \<Rightarrow> rules_error + bool"

definition group_taken :: "unicode_tables \<Rightarrow> taken \<Rightarrow> taken" where
  "group_taken U taken = (\<lambda>p. rbind (taken p) (\<lambda>busy.
     if busy then Inr True else rbind (sidecar_of U p) (\<lambda>sc. taken sc)))"

section \<open>Numbered and conflict copies\<close>

datatype marker_kind = Numbered | Conflict | OtherMarker nat

record wall_time =
  wt_year :: int
  wt_month :: nat
  wt_day :: nat
  wt_hour :: nat
  wt_minute :: nat

record marker =
  m_kind :: marker_kind
  m_device :: string
  m_at :: wall_time

definition pad_left :: "nat \<Rightarrow> string \<Rightarrow> string" where
  "pad_left n s = replicate (n - length s) (CHR ''0'') @ s"

definition pad_int :: "nat \<Rightarrow> int \<Rightarrow> string" where
  "pad_int n i = (if i < 0 then CHR ''-'' # pad_left n (digits_of (nat (- i))) else pad_left n (digits_of (nat i)))"

text \<open>\<^verbatim>\<open>At.Format("2006-01-02 1504")\<close>\<close>

definition format_time :: "wall_time \<Rightarrow> string" where
  "format_time t = pad_int 4 (wt_year t) @ ''-'' @ pad_left 2 (digits_of (wt_month t)) @ ''-''
     @ pad_left 2 (digits_of (wt_day t)) @ '' '' @ pad_left 2 (digits_of (wt_hour t))
     @ pad_left 2 (digits_of (wt_minute t))"

fun compound_ext :: "unicode_tables \<Rightarrow> string \<Rightarrow> string list \<Rightarrow> string \<Rightarrow> string" where
  "compound_ext U base [] ext = ext"
| "compound_ext U base (s # ss) ext =
    compound_ext U base ss
      (if length s > length ext \<and> length base > length s \<and> equal_fold U (drop (length base - length s) base) s
       then drop (length base - length s) base else ext)"

definition split_name :: "unicode_tables \<Rightarrow> string \<Rightarrow> string list \<Rightarrow> string \<times> string" where
  "split_name U base compound =
    (let ext = compound_ext U base compound [] in
     if ext \<noteq> [] then (take (length base - length ext) base, ext)
     else let i = last_index_byte base (CHR ''.'') in
       if i > 0 \<and> int (length base) - i - 1 \<le> 16 then (take (nat i) base, drop (nat i) base)
       else (base, []))"

definition cut_bytes :: "string \<Rightarrow> int \<Rightarrow> string" where
  "cut_bytes s n = (if int (length s) \<le> n then s else take (trunc_point s (nat n)) s)"

definition next_number :: "string \<Rightarrow> string \<times> nat" where
  "next_number st =
    (if \<not> has_suffix st '')'' then (st, 2)
     else let i = last_index_sub st '' ('' in
       if i \<le> 0 then (st, 2)
       else let digits = slice (i + 2) (int (length st) - 1) st in
         if \<not> list_all is_digit digits then (st, 2)
         else if digits = [] \<or> number_of_digits digits < 2 then (st, 2)
         else (take (nat i) st, number_of_digits digits + 1))"

definition device_name :: "unicode_tables \<Rightarrow> string \<Rightarrow> string" where
  "device_name U d0 =
    (let device = (case component_of U d0 of Inl _ \<Rightarrow> ''device'' | Inr d \<Rightarrow> d);
         device = trim_right (cut_bytes (nfc U device) 32) ''. ''
     in if device = [] then ''device'' else device)"

definition marker_text :: "marker \<Rightarrow> string \<Rightarrow> nat \<Rightarrow> nat \<Rightarrow> string" where
  "marker_text m device number i =
    (case m_kind m of
       Numbered \<Rightarrow> '' ('' @ digits_of number @ '')''
     | Conflict \<Rightarrow> '' (conflict '' @ format_time (m_at m) @ '' '' @ device
         @ (if i > 0 then '' '' @ digits_of (i + 1) else []) @ '')''
     | OtherMarker _ \<Rightarrow> [])"

text \<open>The loop over the attempts; \<open>left\<close> of them remain and \<open>i\<close> are done.\<close>

fun free_loop ::
    "unicode_tables \<Rightarrow> path \<Rightarrow> marker \<Rightarrow> taken \<Rightarrow> string \<Rightarrow> string \<Rightarrow> string \<Rightarrow> nat \<Rightarrow> nat \<Rightarrow> nat
      \<Rightarrow> rules_error + path" where
  "free_loop U p m taken st ext device number i 0 = Inl ErrNoFreeName"
| "free_loop U p m taken st ext device number i (Suc remaining) =
    (let mark = marker_text m device number i;
         number' = (if m_kind m = Numbered then number + 1 else number);
         budget = int DeviceMaxComponent - int (length mark) - int (length ext)
           - (if m_kind m = Numbered \<and> is_pdf U p then int (length ''.annot.json'') else 0)
     in if budget < 1 then Inl (ErrNameTooLong None)
     else
       let s0 = trim_right (cut_bytes st budget) ''. '';
           s = (if s0 = [] then ''_'' else s0)
       in case with_base U p (s @ mark @ ext) of
            Inl e \<Rightarrow> Inl (ErrNameTooLong (Some e))
          | Inr candidate \<Rightarrow> rbind (taken candidate) (\<lambda>busy.
              if \<not> busy then Inr candidate
              else free_loop U p m taken st ext device number' (Suc i) remaining))"

definition free_name ::
    "unicode_tables \<Rightarrow> path \<Rightarrow> marker \<Rightarrow> rules_config \<Rightarrow> taken option \<Rightarrow> rules_error + path" where
  "free_name U p m cfg taken =
    (if rules_validate U cfg \<noteq> [] then Inl (ErrJoined (rules_validate U cfg))
     else case taken of None \<Rightarrow> Inl ErrRulesConfig
     | Some taken \<Rightarrow>
       if path_is_zero p \<or> m_kind m \<noteq> Numbered \<and> m_kind m \<noteq> Conflict then Inl ErrRulesConfig
       else
         let (st, ext) = split_name U (path_base p) (rc_compound cfg);
             (st, number) = (if m_kind m = Numbered then next_number st else (st, 2))
         in free_loop U p m taken st ext (device_name U (m_device m)) number 0 (nat (rc_max_attempts cfg)))"

section \<open>What the names guarantee\<close>

lemma cut_length: "0 \<le> n \<Longrightarrow> int (length (cut_bytes s n)) \<le> n"
  using trunc_point_le [of s "nat n"] by (auto simp: cut_bytes_def)

lemma free_loop_sound:
  assumes "parse_path U ps = Inr p"
  shows "free_loop U p m taken st ext device number i n = Inr q \<Longrightarrow>
    taken q = Inr False \<and> path_dir q = path_dir p \<and> portable_path U (path_s q)
    \<and> (m_kind m = Numbered \<and> is_pdf U p \<longrightarrow> length (path_base q) + length ''.annot.json'' \<le> DeviceMaxComponent)
    \<and> (\<exists>s k j. path_base q = s @ marker_text m device k j @ ext)"
proof (induction n arbitrary: number i)
  case (Suc n)
  define mark where "mark = marker_text m device number i"
  define budget where "budget = int DeviceMaxComponent - int (length mark) - int (length ext)
           - (if m_kind m = Numbered \<and> is_pdf U p then int (length ''.annot.json'') else 0)"
  define s where "s = (let s0 = trim_right (cut_bytes st budget) ''. '' in if s0 = [] then ''_'' else s0)"
  have b: "\<not> budget < 1" using Suc.prems by (auto simp: budget_def mark_def Let_def split: if_splits)
  then have len: "int (length s) \<le> budget"
    using cut_length [of budget st] length_trim_right [of "cut_bytes st budget" "''. ''"]
    by (simp add: s_def Let_def)
  have run: "(case with_base U p (s @ mark @ ext) of
      Inl e \<Rightarrow> Inl (ErrNameTooLong (Some e))
    | Inr candidate \<Rightarrow> rbind (taken candidate) (\<lambda>busy.
        if \<not> busy then Inr candidate
        else free_loop U p m taken st ext device (if m_kind m = Numbered then number + 1 else number) (Suc i) n)) = Inr q"
    using Suc.prems b unfolding free_loop.simps Let_def mark_def [symmetric] budget_def [symmetric]
    by (simp add: s_def Let_def)
  then obtain c busy where c: "with_base U p (s @ mark @ ext) = Inr c" "taken c = Inr busy"
    and out: "if \<not> busy then c = q
      else free_loop U p m taken st ext device (if m_kind m = Numbered then number + 1 else number) (Suc i) n = Inr q"
    by (auto simp: sum_split split: sum.splits if_splits)
  show ?case
  proof (cases busy)
    case True
    then show ?thesis using Suc.IH out by simp
  next
    case False
    then have q: "c = q" using out by simp
    have base: "path_base q = s @ mark @ ext" "path_dir q = path_dir p" "portable_path U (path_s q)"
      using with_base_same_dir [OF assms c(1)] q by simp_all
    then show ?thesis
      using c(2) q False len by (auto simp: budget_def mark_def split: if_splits)
  qed
qed simp

text \<open>
  C34: \<open>FreeName\<close> returns a usable free name. For a parsed path, a name it returns is not
  taken, lies in the same directory, is a portable path, and, for a numbered PDF, leaves
  room for the sidecar suffix within the component limit.
\<close>

theorem free_name_free:
  assumes "parse_path U s = Inr p" "free_name U p m cfg (Some taken) = Inr q"
  shows "taken q = Inr False \<and> path_dir q = path_dir p \<and> portable_path U (path_s q)
    \<and> (m_kind m = Numbered \<and> is_pdf U p \<longrightarrow> length (path_base q) + length ''.annot.json'' \<le> DeviceMaxComponent)"
proof -
  obtain st ext device number n where "free_loop U p m taken st ext device number 0 n = Inr q"
    using assms(2) by (auto simp: free_name_def Let_def split: if_splits prod.splits)
  from free_loop_sound [OF assms(1) this] show ?thesis by blast
qed

lemma base_no_slash: "slash \<notin> set (path_base p)"
proof (cases "slash \<in> set (path_s p)")
  case True
  then obtain a b where "path_s p = a @ slash # b" "slash \<notin> set b"
    using split_at_last [of "path_s p" slash] last_index_byte_none [of "path_s p" slash] by (metis not_less)
  then show ?thesis using base_dir_append [of b a] by (cases p) simp
next
  case False
  then show ?thesis using base_dir_none [of "path_s p"] by (cases p) simp
qed

text \<open>A parsed path is its directory joined with its base.\<close>

lemma path_rejoin:
  assumes "parse_path U s = Inr p"
  shows "if path_is_zero (fst (path_dir p)) then path_s p = path_base p
    else path_s p = path_s (fst (path_dir p)) @ ''/'' @ path_base p"
proof -
  note p = parse_path_s [OF assms]
  show ?thesis
  proof (cases "slash \<in> set s")
    case True
    then obtain a b where ab: "s = a @ slash # b" "slash \<notin> set b"
      using split_at_last [of s slash] last_index_byte_none [of s slash] by (metis not_less)
    have "a \<noteq> []" using p ab by (auto simp: has_prefix_iff)
    then show ?thesis using base_dir_append [OF ab(2)] p ab by (auto simp: path_is_zero_def)
  next
    case False
    then show ?thesis using base_dir_none [of s] p by (simp add: path_is_zero_def zero_path_def)
  qed
qed

lemma equal_fold_refl: "equal_fold U s s"
  by (simp add: equal_fold_def fold_eq_def list.rel_refl)

text \<open>
  \<open>PDFOf\<close> inverts \<open>SidecarOf\<close>: for a parsed path whose base name is itself a path, the
  sidecar it gets leads back to exactly that PDF, in the same directory.
\<close>

theorem sidecar_roundtrip:
  assumes "parse_path U s = Inr p" "parse_path U (path_base p) = Inr n" "sidecar_of U p = Inr sc"
  shows "pdf_of U sc = (p, True) \<and> path_base sc = path_base p @ ''.annot.json'' \<and> path_dir sc = path_dir p"
proof -
  have pdf: "is_pdf U p" and sc: "with_base U p (path_base p @ ''.annot.json'') = Inr sc"
    using assms(3) by (auto simp: sidecar_of_def split: if_splits sum.splits)
  note base = with_base_same_dir [OF assms(1) sc]
  have n: "path_s n = path_base p" "n = \<lparr>path_s = path_base p\<rparr>" "path_base p \<noteq> []"
    using parse_path_s [OF assms(2)] by auto
  have "with_base U sc (path_base p) = Inr p"
    using path_rejoin [OF assms(1)] base assms(1,2) n(2) base_no_slash [of p] parse_path_s [OF assms(1)]
    by (auto simp: with_base_def path_join_def split: if_splits)
  then show ?thesis using base pdf n(3) equal_fold_refl by (simp add: pdf_of_def Let_def)
qed

section \<open>Witnesses\<close>

lemma plain_lower: "lower_string plain_tables ''.annot.json'' = ''.annot.json''"
  by (simp add: lower_string_def map_runes_ascii to_lower_def encode1 char_of_eq)

lemma plain_upper:
  "upper_string plain_tables ''x'' = ''X''" "upper_string plain_tables ''b'' = ''B''"
  "upper_string plain_tables ''a'' = ''A''" "upper_string plain_tables ''b (2)'' = ''B (2)''"
  "upper_string plain_tables ''pc'' = ''PC''"
  by (simp_all add: upper_string_def map_runes_ascii to_upper_def encode1 char_of_eq)

lemma plain_stem: "stem ''x.annot.json'' = ''x''" "stem ''b.pdf'' = ''b''" "stem ''a'' = ''a''"
  "stem ''b.pdf.annot.json'' = ''b''" "stem ''b (2).pdf'' = ''b (2)''" "stem ''x'' = ''x''" "stem ''b'' = ''b''"
  "stem ''b (2)'' = ''b (2)''" "stem ''pc'' = ''pc''"
  by (simp_all add: stem_def)

lemma plain_device: "\<not> device_reserved_name plain_tables ''x.annot.json''"
  "\<not> device_reserved_name plain_tables ''b.pdf''" "\<not> device_reserved_name plain_tables ''a''"
  "\<not> device_reserved_name plain_tables ''b.pdf.annot.json''"
  "\<not> device_reserved_name plain_tables ''b (2).pdf''"
  by (auto simp: device_reserved_exact device_names_def plain_stem plain_upper reserved_names_def trim_right_def)

lemma plain_parse: "parse_path plain_tables ''x.annot.json'' = Inr \<lparr>path_s = ''x.annot.json''\<rparr>"
  "parse_path plain_tables ''a/b.pdf'' = Inr \<lparr>path_s = ''a/b.pdf''\<rparr>"
  "parse_path plain_tables ''b.pdf'' = Inr \<lparr>path_s = ''b.pdf''\<rparr>"
  "parse_path plain_tables ''b.pdf.annot.json'' = Inr \<lparr>path_s = ''b.pdf.annot.json''\<rparr>"
  "parse_path plain_tables ''a/b.pdf.annot.json'' = Inr \<lparr>path_s = ''a/b.pdf.annot.json''\<rparr>"
  "parse_path plain_tables ''b (2).pdf'' = Inr \<lparr>path_s = ''b (2).pdf''\<rparr>"
  "parse_path plain_tables ''a/b (2).pdf'' = Inr \<lparr>path_s = ''a/b (2).pdf''\<rparr>"
  by (rule ascii_path_portable; simp add: plain_device DeviceMaxComponent_def illegal_def is_control_def)+

lemma plain_base: "path_base \<lparr>path_s = ''a/b.pdf''\<rparr> = ''b.pdf''"
  "path_dir \<lparr>path_s = ''a/b.pdf''\<rparr> = (\<lparr>path_s = ''a''\<rparr>, True)"
  by (simp_all add: path_base_def path_dir_def)

lemma plain_is_pdf: "is_pdf plain_tables \<lparr>path_s = ''a/b.pdf''\<rparr>"
  by (simp add: is_pdf_def plain_base equal_fold_refl)

theorem sidecar_roundtrip_witness:
  "pdf_of plain_tables \<lparr>path_s = ''a/b.pdf.annot.json''\<rparr> = (\<lparr>path_s = ''a/b.pdf''\<rparr>, True)"
proof -
  have n: "parse_path plain_tables (path_base \<lparr>path_s = ''a/b.pdf''\<rparr>) = Inr \<lparr>path_s = ''b.pdf''\<rparr>"
    by (simp add: plain_base plain_parse)
  have sc: "sidecar_of plain_tables \<lparr>path_s = ''a/b.pdf''\<rparr> = Inr \<lparr>path_s = ''a/b.pdf.annot.json''\<rparr>"
    by (simp add: sidecar_of_def plain_is_pdf plain_base with_base_def path_join_def plain_parse path_is_zero_def)
  from sidecar_roundtrip [OF plain_parse(2) n sc] show ?thesis by blast
qed

lemma default_rules_valid: "rules_validate plain_tables rules_default_config = []"
proof -
  have "classify_validate classify_default_config = []"
    by (simp add: classify_validate_def classify_default_config_def annot_default_limits_def
        annot_limits_validate_def annot_normalized_def optional_limit_def ascii_string ext_rune_def)
  moreover have "guard_config_ok (rc_guard rules_default_config)"
    by (simp add: rules_default_config_def guard_config_ok_def second_def ratio_ok_def)
  ultimately show ?thesis
    by (simp add: rules_validate_def rules_default_config_def second_def path_is_zero_def compound_bad_def
        plain_parse contains_any_def)
qed

definition sample_marker :: marker where
  "sample_marker = \<lparr>m_kind = Numbered, m_device = ''pc'',
     m_at = \<lparr>wt_year = 2026, wt_month = 7, wt_day = 1, wt_hour = 9, wt_minute = 5\<rparr>\<rparr>"

lemma sample_free_name:
  "free_name plain_tables \<lparr>path_s = ''a/b.pdf''\<rparr> sample_marker rules_default_config
     (Some (\<lambda>q. Inr (path_s q = ''a/b.pdf''))) = Inr \<lparr>path_s = ''a/b (2).pdf''\<rparr>"
proof -
  have split: "split_name plain_tables ''b.pdf'' [''.annot.json''] = (''b'', ''.pdf'')"
    by (simp add: split_name_def)
  have nextn: "next_number ''b'' = (''b'', 2)" by (simp add: next_number_def has_suffix_def)
  have two: "digits_of 2 = ''2''" by (simp add: digits_of.simps char_of_eq)
  have base: "with_base plain_tables \<lparr>path_s = ''a/b.pdf''\<rparr> ''b (2).pdf'' = Inr \<lparr>path_s = ''a/b (2).pdf''\<rparr>"
    by (simp add: with_base_def path_join_def plain_base plain_parse path_is_zero_def)
  have "free_loop plain_tables \<lparr>path_s = ''a/b.pdf''\<rparr> sample_marker (\<lambda>q. Inr (path_s q = ''a/b.pdf''))
      ''b'' ''.pdf'' d 2 0 (Suc k) = Inr \<lparr>path_s = ''a/b (2).pdf''\<rparr>" for d k
    by (simp add: sample_marker_def marker_text_def two plain_is_pdf DeviceMaxComponent_def cut_bytes_def
        trim_right_def base)
  from this [of _ 99] show ?thesis
    using default_rules_valid split nextn plain_base(1)
    by (simp add: free_name_def path_is_zero_def sample_marker_def rules_default_config_def)
qed

theorem free_name_free_witness:
  "length (path_base \<lparr>path_s = ''a/b (2).pdf''\<rparr>) + length ''.annot.json'' \<le> DeviceMaxComponent"
  using free_name_free [OF plain_parse(2) sample_free_name] plain_is_pdf by (simp add: sample_marker_def)

end
