(* ===== verification/Rules_Decisions.thy ===== *)
theory Rules_Decisions
  imports Rules_Names
begin

text \<open>
  The decision table of the server: \<^verbatim>\<open>internal/core/rules/decisions.go\<close> and
  \<^verbatim>\<open>settle.go\<close>. Every decision is a function of the locked snapshot it is given.
\<close>

datatype owner = User | Canvas | OtherOwner nat
datatype holder = Free | Self | Other | OtherHolder nat
datatype on_taken = Number | Reject | OtherOnTaken nat

record vault_file =
  f_live :: bool
  f_head :: int
  f_class :: file_class
  f_owner :: owner
  f_path :: path
  f_size :: int

datatype decision = Apply | ApplyNumbered | PathTaken | StaleDelete | FileDeleted | ReadOnlyPath
  | ClassChange | ConflictCopy | RebaseRequired | NeedsConfirm | InvalidBase | GroupRequired

definition allowed :: "unicode_tables \<Rightarrow> actor \<Rightarrow> vault_file \<Rightarrow> path \<Rightarrow> bool" where
  "allowed U a f vroot =
    (case a of
       Admin \<Rightarrow> True
     | Device \<Rightarrow> f_owner f = User \<and> (f_class f \<noteq> Opaque \<or> \<not> path_within U (f_path f) vroot)
     | Bridge \<Rightarrow> f_owner f = Canvas \<and> f_class f = Opaque \<and> path_within U (f_path f) vroot
     | OtherActor _ \<Rightarrow> False)"

definition destination_allowed :: "unicode_tables \<Rightarrow> actor \<Rightarrow> path \<Rightarrow> file_class \<Rightarrow> path \<Rightarrow> bool" where
  "destination_allowed U a p c vroot =
    (let owner = (if a = Bridge then Canvas else User) in
     allowed U a \<lparr>f_live = False, f_head = 0, f_class = c, f_owner = owner, f_path = p, f_size = 0\<rparr> vroot)"

definition collision :: "holder \<Rightarrow> on_taken \<Rightarrow> bool \<Rightarrow> decision" where
  "collision h on rename =
    (if h = Free \<or> rename \<and> h = Self then Apply
     else if on = Number then ApplyNumbered
     else PathTaken)"

definition decide_create ::
    "unicode_tables \<Rightarrow> actor \<Rightarrow> path \<Rightarrow> file_class \<Rightarrow> holder \<Rightarrow> on_taken \<Rightarrow> rules_config \<Rightarrow> decision" where
  "decide_create U a to c h on cfg =
    (if \<not> destination_allowed U a to c (rc_canvas_root cfg) then ReadOnlyPath
     else collision h on False)"

record rename_request =
  r_primary :: vault_file
  r_to :: path
  r_holder :: holder
  r_sidecar :: "vault_file option"
  r_sidecar_to :: path
  r_sidecar_live :: bool
  r_on_taken :: on_taken
  r_sidecar_holder :: holder

definition rename_member ::
    "unicode_tables \<Rightarrow> vault_file \<Rightarrow> path \<Rightarrow> holder \<Rightarrow> on_taken \<Rightarrow> rules_config \<Rightarrow> decision" where
  "rename_member U f to h on cfg =
    (if f_path f = to then Apply
     else if expect U (f_path f) (f_size f) (rc_classify cfg) \<noteq> expect U to (f_size f) (rc_classify cfg)
     then ClassChange
     else collision h on True)"

text \<open>The checks on the sidecar member: it must be the primary's sidecar, moved with it.\<close>

definition sidecar_group :: "unicode_tables \<Rightarrow> rename_request \<Rightarrow> vault_file \<Rightarrow> decision option" where
  "sidecar_group U r sc =
    (case (sidecar_of U (f_path (r_primary r)), sidecar_of U (r_to r)) of
       (Inr from, Inr to) \<Rightarrow>
         if path_key U from \<noteq> path_key U (f_path sc) \<or> to \<noteq> r_sidecar_to r then Some GroupRequired
         else if \<not> f_live sc then Some FileDeleted else None
     | _ \<Rightarrow> Some GroupRequired)"

definition decide_rename :: "unicode_tables \<Rightarrow> actor \<Rightarrow> rename_request \<Rightarrow> rules_config \<Rightarrow> decision" where
  "decide_rename U a r cfg =
    (let vroot = rc_canvas_root cfg; p = r_primary r in
     if \<not> allowed U a p vroot \<or> \<not> destination_allowed U a (r_to r) (f_class p) vroot then ReadOnlyPath
     else if (case r_sidecar r of Some sc \<Rightarrow>
         \<not> allowed U a sc vroot \<or> \<not> destination_allowed U a (r_sidecar_to r) (f_class sc) vroot | None \<Rightarrow> False)
     then ReadOnlyPath
     else if \<not> f_live p then FileDeleted
     else if is_pdf U (f_path p) \<and> r_sidecar_live r \<and> r_sidecar r = None then GroupRequired
     else
       case (case r_sidecar r of Some sc \<Rightarrow> sidecar_group U r sc | None \<Rightarrow> None) of
         Some d \<Rightarrow> d
       | None \<Rightarrow>
         let primary = rename_member U p (r_to r) (r_holder r) (r_on_taken r) cfg in
         if primary \<noteq> Apply \<and> primary \<noteq> ApplyNumbered then primary
         else case r_sidecar r of
             Some sc \<Rightarrow>
               let d = rename_member U sc (r_sidecar_to r) (r_sidecar_holder r) (r_on_taken r) cfg in
               if d \<noteq> Apply \<and> d \<noteq> ApplyNumbered then d
               else if d = ApplyNumbered then d
               else primary
           | None \<Rightarrow> primary)"

definition decide_edit :: "unicode_tables \<Rightarrow> actor \<Rightarrow> vault_file \<Rightarrow> rules_config \<Rightarrow> decision" where
  "decide_edit U a f cfg =
    (if \<not> allowed U a f (rc_canvas_root cfg) then ReadOnlyPath
     else if \<not> f_live f then FileDeleted
     else if f_class f \<noteq> Text \<and> f_class f \<noteq> Sidecar then ClassChange
     else Apply)"

definition base_decision ::
    "unicode_tables \<Rightarrow> actor \<Rightarrow> vault_file \<Rightarrow> int \<Rightarrow> decision \<Rightarrow> rules_config \<Rightarrow> decision" where
  "base_decision U a f base stale cfg =
    (if \<not> allowed U a f (rc_canvas_root cfg) then ReadOnlyPath
     else if \<not> f_live f then FileDeleted
     else if base < 0 \<or> base > f_head f then InvalidBase
     else if base < f_head f then stale
     else Apply)"

definition decide_put :: "unicode_tables \<Rightarrow> actor \<Rightarrow> vault_file \<Rightarrow> int \<Rightarrow> rules_config \<Rightarrow> decision" where
  "decide_put U a f base cfg =
    (let d = base_decision U a f base ConflictCopy cfg in
     if d = ReadOnlyPath \<or> d = FileDeleted then d
     else if f_class f \<noteq> Opaque then ClassChange else d)"

definition decide_replace :: "unicode_tables \<Rightarrow> actor \<Rightarrow> vault_file \<Rightarrow> int \<Rightarrow> rules_config \<Rightarrow> decision" where
  "decide_replace U a f base cfg =
    (let d = base_decision U a f base ConflictCopy cfg in
     if d = ReadOnlyPath \<or> d = FileDeleted then d
     else if f_class f \<noteq> Sidecar then ClassChange else d)"

definition decide_delete :: "unicode_tables \<Rightarrow> actor \<Rightarrow> vault_file \<Rightarrow> int \<Rightarrow> rules_config \<Rightarrow> decision" where
  "decide_delete U a f base cfg = base_decision U a f base StaleDelete cfg"

record gap =
  gap_ops :: int
  gap_age :: int
  gap_ops_pruned :: bool
  gap_tombstones_pruned :: bool

definition reconcile :: "file_class \<Rightarrow> gap \<Rightarrow> text_window \<Rightarrow> decision" where
  "reconcile c g w =
    (case c of
       Text \<Rightarrow> if gap_ops_pruned g \<or> gap_ops g > w_max_ops w \<or> gap_age g > w_max_age w
         then RebaseRequired else Apply
     | Sidecar \<Rightarrow> if gap_tombstones_pruned g then RebaseRequired else Apply
     | Opaque \<Rightarrow> Apply
     | OtherClass _ \<Rightarrow> RebaseRequired)"

section \<open>Settling\<close>

datatype settlement = Wait | Submit | SettleClassChange

record observation =
  o_existing :: file_class
  o_confirmed :: file_class
  o_demotion :: demotion
  o_quiet :: int

text \<open>\<open>OtherClass 0\<close> is the zero class of a file that does not exist yet.\<close>

definition settle :: "observation \<Rightarrow> rules_config \<Rightarrow> settlement \<times> file_class" where
  "settle o1 cfg =
    (if o_existing o1 = Opaque then (Submit, Opaque)
     else
       let exists = o_existing o1 \<noteq> OtherClass 0;
           demoted = o_demotion o1 \<noteq> Kept \<or> exists \<and> o_confirmed o1 = Opaque;
           c = (if demoted then Opaque else o_confirmed o1)
       in if demoted \<and> o_quiet o1 < rc_quiet cfg then (Wait, c)
          else if exists \<and> o_existing o1 \<noteq> c then (SettleClassChange, c)
          else (Submit, c))"

section \<open>What the decisions guarantee\<close>

text \<open>The requests a client can make, and the file each of them changes.\<close>

datatype request = Edit vault_file | Put vault_file int | Replace vault_file int | Delete vault_file int

fun decide :: "unicode_tables \<Rightarrow> actor \<Rightarrow> request \<Rightarrow> rules_config \<Rightarrow> decision" where
  "decide U a (Edit f) cfg = decide_edit U a f cfg"
| "decide U a (Put f base) cfg = decide_put U a f base cfg"
| "decide U a (Replace f base) cfg = decide_replace U a f base cfg"
| "decide U a (Delete f base) cfg = decide_delete U a f base cfg"

fun request_file :: "request \<Rightarrow> vault_file" where
  "request_file (Edit f) = f"
| "request_file (Put f _) = f"
| "request_file (Replace f _) = f"
| "request_file (Delete f _) = f"

text \<open>The request fits the state: the right class, and the head version where one is given.\<close>

fun request_current :: "request \<Rightarrow> bool" where
  "request_current (Edit f) \<longleftrightarrow> f_class f = Text \<or> f_class f = Sidecar"
| "request_current (Put f base) \<longleftrightarrow> f_class f = Opaque \<and> base = f_head f \<and> 0 \<le> base"
| "request_current (Replace f base) \<longleftrightarrow> f_class f = Sidecar \<and> base = f_head f \<and> 0 \<le> base"
| "request_current (Delete f base) \<longleftrightarrow> base = f_head f \<and> 0 \<le> base"

text \<open>
  C32: a request changes a file in place exactly when its actor owns it. Edit, put, replace
  and delete answer \<open>Apply\<close> if and only if the actor is allowed on the file, the file is
  live, its class is the one the request is for and the request names its head version; an
  unauthorized request is always answered \<open>ReadOnlyPath\<close>, whatever else is wrong with it.
\<close>

theorem decide_apply_exact:
  "(decide U a req cfg = Apply \<longleftrightarrow>
     allowed U a (request_file req) (rc_canvas_root cfg) \<and> f_live (request_file req) \<and> request_current req)
   \<and> (decide U a req cfg = ReadOnlyPath \<longleftrightarrow> \<not> allowed U a (request_file req) (rc_canvas_root cfg))"
  by (cases req) (auto simp: decide_edit_def decide_put_def decide_replace_def decide_delete_def
      base_decision_def Let_def)

text \<open>
  no request of a device or of the bridge crosses the ownership line. For a file whose
  class and owner are what creation gave it, the bridge changes only opaque Canvas files
  under the Canvas root, and a device never changes a Canvas file nor an opaque file under
  that vroot; no actor outside the three is ever answered \<open>Apply\<close>.
\<close>

theorem ownership_respected:
  assumes "decide U a req cfg = Apply"
  shows "case a of
      Bridge \<Rightarrow> f_owner (request_file req) = Canvas \<and> f_class (request_file req) = Opaque
        \<and> path_within U (f_path (request_file req)) (rc_canvas_root cfg)
    | Device \<Rightarrow> f_owner (request_file req) = User
        \<and> \<not> (f_class (request_file req) = Opaque \<and> path_within U (f_path (request_file req)) (rc_canvas_root cfg))
    | Admin \<Rightarrow> True
    | OtherActor _ \<Rightarrow> False"
  using decide_apply_exact [of U a req cfg] assms by (auto simp: allowed_def split: actor.splits)

theorem ownership_respected_witness:
  "f_owner \<lparr>f_live = True, f_head = 3, f_class = Text, f_owner = User, f_path = zero_path, f_size = 1\<rparr> = User"
  using ownership_respected [of plain_tables Device
      "Edit \<lparr>f_live = True, f_head = 3, f_class = Text, f_owner = User, f_path = zero_path, f_size = 1\<rparr>"
      rules_default_config]
  by (simp add: decide_edit_def allowed_def)

lemma collision_cases: "collision h on rename \<in> {Apply, ApplyNumbered, PathTaken}"
  by (simp add: collision_def)

text \<open>
  When a member may move, and whether it needs another name to do so: it stays, or its class
  is the same under both names and the target is free, its own, or may be numbered.
\<close>

definition movable :: "unicode_tables \<Rightarrow> vault_file \<Rightarrow> path \<Rightarrow> holder \<Rightarrow> on_taken \<Rightarrow> rules_config \<Rightarrow> bool" where
  "movable U f to h on cfg \<longleftrightarrow> f_path f = to \<or>
     expect U (f_path f) (f_size f) (rc_classify cfg) = expect U to (f_size f) (rc_classify cfg) \<and> (h \<in> {Free, Self} \<or> on = Number)"

definition undisturbed :: "vault_file \<Rightarrow> path \<Rightarrow> holder \<Rightarrow> bool" where
  "undisturbed f to h \<longleftrightarrow> f_path f = to \<or> h \<in> {Free, Self}"

lemma rename_member_exact:
  "rename_member U f to h on cfg \<in> {Apply, ApplyNumbered} \<longleftrightarrow> movable U f to h on cfg"
  "rename_member U f to h on cfg = Apply \<longleftrightarrow> movable U f to h on cfg \<and> undisturbed f to h"
  by (auto simp: rename_member_def collision_def movable_def undisturbed_def)

lemma sidecar_group_Some: "sidecar_group U r sc = Some d \<Longrightarrow> d \<in> {GroupRequired, FileDeleted}"
  by (auto simp: sidecar_group_def split: sum.splits if_splits)

text \<open>The sidecar of a group: the primary's own, and moved to the name that belongs to the new name.\<close>

lemma sidecar_group_None:
  "sidecar_group U r sc = None \<longleftrightarrow> f_live sc \<and> sidecar_of U (r_to r) = Inr (r_sidecar_to r)
     \<and> (\<exists>from. sidecar_of U (f_path (r_primary r)) = Inr from \<and> path_key U from = path_key U (f_path sc))"
  by (auto simp: sidecar_group_def split: sum.splits if_splits)

text \<open>
  C33: a rename is atomic over its group and keeps ownership and class. It is accepted, with
  its own or with a numbered name, exactly if every member is live, may be changed by the
  actor and may stand at its destination, and every member, the sidecar as much as the
  primary, stays where it is or keeps the class its name gives it and finds its target free,
  its own, or to be numbered; a PDF with a live sidecar moves only together with it, and the
  sidecar is the PDF's own and goes to the name that belongs to the new PDF name. It is
  accepted under its own name exactly if moreover no member's target is held by another file.
\<close>

theorem rename_group_sound:
  assumes vroot_def: "vroot = rc_canvas_root cfg" and p_def: "p = r_primary r"
  shows "(decide_rename U a r cfg \<in> {Apply, ApplyNumbered} \<longleftrightarrow>
      allowed U a p vroot \<and> destination_allowed U a (r_to r) (f_class p) vroot \<and> f_live p
      \<and> (is_pdf U (f_path p) \<and> r_sidecar_live r \<longrightarrow> r_sidecar r \<noteq> None)
      \<and> movable U p (r_to r) (r_holder r) (r_on_taken r) cfg
      \<and> (\<forall>sc. r_sidecar r = Some sc \<longrightarrow>
           allowed U a sc vroot \<and> destination_allowed U a (r_sidecar_to r) (f_class sc) vroot \<and> f_live sc
           \<and> sidecar_of U (r_to r) = Inr (r_sidecar_to r)
           \<and> (\<exists>from. sidecar_of U (f_path p) = Inr from \<and> path_key U from = path_key U (f_path sc))
           \<and> movable U sc (r_sidecar_to r) (r_sidecar_holder r) (r_on_taken r) cfg))
    \<and> (decide_rename U a r cfg = Apply \<longleftrightarrow>
      decide_rename U a r cfg \<in> {Apply, ApplyNumbered} \<and> undisturbed p (r_to r) (r_holder r)
      \<and> (\<forall>sc. r_sidecar r = Some sc \<longrightarrow> undisturbed sc (r_sidecar_to r) (r_sidecar_holder r)))"
proof -
  let ?primary = "rename_member U p (r_to r) (r_holder r) (r_on_taken r) cfg"
  let ?base = "allowed U a p vroot \<and> destination_allowed U a (r_to r) (f_class p) vroot \<and> f_live p
      \<and> (is_pdf U (f_path p) \<and> r_sidecar_live r \<longrightarrow> r_sidecar r \<noteq> None)"
  note exact = rename_member_exact [of U p "r_to r" "r_holder r" "r_on_taken r" cfg]
  show ?thesis
  proof (cases "r_sidecar r")
    case None
    have "decide_rename U a r cfg \<in> {Apply, ApplyNumbered} \<longleftrightarrow> ?base \<and> ?primary \<in> {Apply, ApplyNumbered}"
      "?base \<Longrightarrow> decide_rename U a r cfg = ?primary"
      using None by (auto simp: decide_rename_def vroot_def p_def Let_def)
    then show ?thesis using None exact by auto
  next
    case (Some sc)
    let ?d = "rename_member U sc (r_sidecar_to r) (r_sidecar_holder r) (r_on_taken r) cfg"
    let ?both = "?base \<and> allowed U a sc vroot \<and> destination_allowed U a (r_sidecar_to r) (f_class sc) vroot
        \<and> sidecar_group U r sc = None \<and> ?primary \<in> {Apply, ApplyNumbered}"
    note exact_sc = rename_member_exact [of U sc "r_sidecar_to r" "r_sidecar_holder r" "r_on_taken r" cfg]
    have go: "decide_rename U a r cfg = (if ?d \<noteq> Apply \<and> ?d \<noteq> ApplyNumbered then ?d else if ?d = ApplyNumbered then ?d else ?primary)"
      if ?both using that Some by (auto simp: decide_rename_def vroot_def p_def Let_def)
    have stop: "decide_rename U a r cfg \<notin> {Apply, ApplyNumbered}" if "\<not> ?both"
      using that Some by (auto simp: decide_rename_def vroot_def p_def Let_def dest: sidecar_group_Some split: option.splits)
    have accepted: "decide_rename U a r cfg \<in> {Apply, ApplyNumbered} \<longleftrightarrow> ?both \<and> ?d \<in> {Apply, ApplyNumbered}"
      using go stop by (cases ?both) auto
    have applied: "decide_rename U a r cfg = Apply \<longleftrightarrow> ?both \<and> ?d = Apply \<and> ?primary = Apply"
      using go stop by (cases ?both) auto
    show ?thesis
      unfolding accepted applied
      by (simp only: exact exact_sc sidecar_group_None Some option.inject option.distinct simp_thms p_def [symmetric]) blast
  qed
qed

definition sample_rename :: rename_request where
  "sample_rename = \<lparr>
     r_primary = \<lparr>f_live = True, f_head = 1, f_class = Opaque, f_owner = User,
       f_path = \<lparr>path_s = ''a/b.pdf''\<rparr>, f_size = 10\<rparr>,
     r_to = \<lparr>path_s = ''b.pdf''\<rparr>, r_holder = Free,
     r_sidecar = Some \<lparr>f_live = True, f_head = 1, f_class = Sidecar, f_owner = User,
       f_path = \<lparr>path_s = ''a/b.pdf.annot.json''\<rparr>, f_size = 10\<rparr>,
     r_sidecar_to = \<lparr>path_s = ''b.pdf.annot.json''\<rparr>, r_sidecar_live = True, r_on_taken = Reject,
     r_sidecar_holder = Free\<rparr>"

lemma sample_rename_applies: "decide_rename plain_tables Admin sample_rename rules_default_config = Apply"
proof -
  have b: "path_base \<lparr>path_s = ''b.pdf''\<rparr> = ''b.pdf''" "path_dir \<lparr>path_s = ''b.pdf''\<rparr> = (zero_path, False)"
    "path_base \<lparr>path_s = ''b.pdf.annot.json''\<rparr> = ''b.pdf.annot.json''"
    "path_base \<lparr>path_s = ''a/b.pdf.annot.json''\<rparr> = ''b.pdf.annot.json''"
    by (simp_all add: path_base_def path_dir_def)
  have sc: "sidecar_of plain_tables \<lparr>path_s = ''a/b.pdf''\<rparr> = Inr \<lparr>path_s = ''a/b.pdf.annot.json''\<rparr>"
    "sidecar_of plain_tables \<lparr>path_s = ''b.pdf''\<rparr> = Inr \<lparr>path_s = ''b.pdf.annot.json''\<rparr>"
    by (simp_all add: sidecar_of_def is_pdf_def plain_base b equal_fold_refl with_base_def path_join_def
        plain_parse path_is_zero_def zero_path_def)
  have "expect U p n cfg = expect U q n cfg" if "path_base p = path_base q" "path_s p \<noteq> []" "path_s q \<noteq> []" for U p q n cfg
    using that by (simp add: expect_def is_sidecar_name_def path_ext_def path_is_zero_def)
  then have "expect U \<lparr>path_s = ''a/b.pdf''\<rparr> n cfg = expect U \<lparr>path_s = ''b.pdf''\<rparr> n cfg"
    "expect U \<lparr>path_s = ''a/b.pdf.annot.json''\<rparr> n cfg = expect U \<lparr>path_s = ''b.pdf.annot.json''\<rparr> n cfg" for U n cfg
    using plain_base(1) b by simp_all
  then show ?thesis
    by (simp add: decide_rename_def sample_rename_def allowed_def destination_allowed_def sidecar_group_def
        sc rename_member_def collision_def)
qed

theorem rename_group_sound_witness:
  "sidecar_of plain_tables (r_to sample_rename) = Inr (r_sidecar_to sample_rename)"
  using rename_group_sound [OF refl refl, of plain_tables Admin sample_rename rules_default_config]
    sample_rename_applies
  by (simp add: sample_rename_def)

text \<open>
  settling never loses content. It never upgrades an opaque file, it waits only while
  a demotion is younger than the quiet period, and it submits under a class only if that
  is the existing class or the file is new; class drift of an existing file is always
  reported as a class change.
\<close>

theorem settle_sound:
  "case settle o1 cfg of
     (Wait, c) \<Rightarrow> c = Opaque \<and> o_existing o1 \<noteq> Opaque \<and> o_quiet o1 < rc_quiet cfg
       \<and> \<not> (o_demotion o1 = Kept \<and> o_confirmed o1 \<noteq> Opaque)
   | (Submit, c) \<Rightarrow> (c = o_existing o1 \<or> o_existing o1 = OtherClass 0)
       \<and> (c = Opaque \<or> c = o_confirmed o1 \<and> o_demotion o1 = Kept)
   | (SettleClassChange, c) \<Rightarrow> o_existing o1 \<noteq> OtherClass 0 \<and> o_existing o1 \<noteq> Opaque \<and> c \<noteq> o_existing o1
       \<and> (c = Opaque \<and> rc_quiet cfg \<le> o_quiet o1 \<or> c = o_confirmed o1 \<and> o_demotion o1 = Kept)"
  by (cases o1; cases "o_existing o1 = Opaque"; cases "o_demotion o1 = Kept"; cases "o_confirmed o1 = Opaque")
    (auto simp: settle_def Let_def)

end
