(* ===== verification/Go_Path.thy ===== *)
theory Go_Path
  imports Go_Strings
begin

text \<open>
  Go's \<^verbatim>\<open>path.Match\<close>, with its helpers \<open>scanChunk\<close>, \<open>matchChunk\<close> and \<open>getEsc\<close>: \<open>None\<close> is
  \<^verbatim>\<open>ErrBadPattern\<close>. The policy rules and the pull scopes match globs with it.
\<close>

section \<open>Escapes and chunks\<close>

definition get_esc :: "string \<Rightarrow> (nat \<times> string) option" where
  "get_esc chunk =
    (case chunk of [] \<Rightarrow> None
     | c # rest \<Rightarrow>
       if c = CHR ''-'' \<or> c = CHR '']'' then None
       else
         let body = (if c = CHR 0x5C then rest else chunk) in
         if body = [] then None
         else let r = fst (decode_rune body); n = snd (decode_rune body) in
           if r = rune_error \<and> n = 1 then None
           else if drop n body = [] then None
           else Some (r, drop n body))"

lemma get_esc_less: "get_esc chunk = Some (r, rest) \<Longrightarrow> length rest < length chunk \<and> rest \<noteq> []"
  by (auto simp: get_esc_def Let_def decode_rune_progress split: list.splits if_splits)

text \<open>The ranges of a character class, up to its closing bracket; \<open>n\<close> counts them.\<close>

function match_ranges :: "nat \<Rightarrow> nat \<Rightarrow> bool \<Rightarrow> string \<Rightarrow> (bool \<times> string) option" where
  "match_ranges r n matched chunk =
    (if chunk \<noteq> [] \<and> hd chunk = CHR '']'' \<and> n > 0 then Some (matched, tl chunk)
     else case get_esc chunk of None \<Rightarrow> None
     | Some (lo, rest) \<Rightarrow>
       if hd rest = CHR ''-'' then
         (case get_esc (tl rest) of None \<Rightarrow> None
          | Some (hi, rest') \<Rightarrow> match_ranges r (Suc n) (matched \<or> lo \<le> r \<and> r \<le> hi) rest')
       else match_ranges r (Suc n) (matched \<or> lo \<le> r \<and> r \<le> lo) rest)"
  by pat_completeness auto
termination
  by (relation "measure (\<lambda>(_, _, _, chunk). length chunk)") (auto dest!: get_esc_less)

lemma match_ranges_less:
  "match_ranges r n matched chunk = Some (m, rest) \<Longrightarrow> length rest < length chunk"
proof (induction r n matched chunk rule: match_ranges.induct)
  case (1 r n matched chunk)
  show ?case
  proof (cases "chunk \<noteq> [] \<and> hd chunk = CHR '']'' \<and> n > 0")
    case True
    then show ?thesis using "1.prems" by (subst (asm) match_ranges.simps) auto
  next
    case False
    then obtain lo rest1 where g: "get_esc chunk = Some (lo, rest1)"
      using "1.prems" by (subst (asm) match_ranges.simps) (auto split: option.splits)
    note less = get_esc_less [OF g]
    show ?thesis
    proof (cases "hd rest1 = CHR ''-''")
      case True
      then obtain hi rest2 where g2: "get_esc (tl rest1) = Some (hi, rest2)"
        using "1.prems" False g by (subst (asm) match_ranges.simps) (auto split: option.splits)
      have "length rest < length rest2"
        using "1.IH"(1) [OF False g refl True g2 refl] "1.prems" False g g2 True
        by (subst (asm) match_ranges.simps) auto
      then show ?thesis using get_esc_less [OF g2] less by auto
    next
      case nodash: False
      have "length rest < length rest1"
        using "1.IH"(2) [OF False g refl nodash] "1.prems" False g nodash
        by (subst (asm) match_ranges.simps) auto
      then show ?thesis using less by simp
    qed
  qed
qed

declare match_ranges.simps [simp del]

text \<open>\<open>matchChunk\<close>; the outer option is the error, the inner one a failed match.\<close>

function match_chunk :: "bool \<Rightarrow> string \<Rightarrow> string \<Rightarrow> string option option" where
  "match_chunk failed [] s = Some (if failed then None else Some s)"
| "match_chunk failed0 (c # chunk) s =
    (let failed = failed0 \<or> s = [] in
     if c = CHR ''['' then
       (let r = (if failed then 0 else fst (decode_rune s));
            s' = (if failed then s else drop (snd (decode_rune s)) s);
            negated = chunk \<noteq> [] \<and> hd chunk = CHR ''^'';
            body = (if negated then tl chunk else chunk)
        in case match_ranges r 0 False body of None \<Rightarrow> None
           | Some (matched, rest) \<Rightarrow> match_chunk (failed \<or> matched = negated) rest s')
     else if c = CHR ''?'' then
       (if failed then match_chunk True chunk s
        else match_chunk (hd s = CHR ''/'') chunk (drop (snd (decode_rune s)) s))
     else if c = CHR 0x5C then
       (case chunk of [] \<Rightarrow> None
        | d # rest \<Rightarrow> if failed then match_chunk True rest s else match_chunk (d \<noteq> hd s) rest (tl s))
     else if failed then match_chunk True chunk s else match_chunk (c \<noteq> hd s) chunk (tl s))"
  by pat_completeness auto
termination
proof (relation "measure (\<lambda>(_, chunk, _). length chunk)")
  fix failed0 c chunk s failed r s' negated body p matched rest
  assume "body = (if negated then tl chunk else chunk)" "match_ranges r 0 False body = Some p" "(matched, rest) = p"
  then have "length rest < length body" using match_ranges_less by metis
  moreover have "length body \<le> length chunk" using \<open>body = _\<close> by simp
  ultimately show "((failed \<or> matched = negated, rest, s'), failed0, c # chunk, s) \<in> measure (\<lambda>(_, chunk, _). length chunk)"
    by simp
qed auto

declare match_chunk.simps [simp del]

fun strip_stars :: "string \<Rightarrow> string" where
  "strip_stars (c # s) = (if c = CHR ''*'' then strip_stars s else c # s)"
| "strip_stars [] = []"

text \<open>The length of the chunk before the next star outside a character class.\<close>

fun chunk_length :: "bool \<Rightarrow> string \<Rightarrow> nat" where
  "chunk_length inrange [] = 0"
| "chunk_length inrange (c # s) =
    (if c = CHR 0x5C then (case s of [] \<Rightarrow> 1 | d # s' \<Rightarrow> 2 + chunk_length inrange s')
     else if c = CHR ''['' then 1 + chunk_length True s
     else if c = CHR '']'' then 1 + chunk_length False s
     else if c = CHR ''*'' \<and> \<not> inrange then 0
     else 1 + chunk_length inrange s)"

text \<open>\<open>scanChunk\<close>: whether stars were skipped, the next chunk and the rest.\<close>

definition scan_chunk :: "string \<Rightarrow> bool \<times> string \<times> string" where
  "scan_chunk pattern =
    (let star = pattern \<noteq> [] \<and> hd pattern = CHR ''*''; p = strip_stars pattern; n = chunk_length False p
     in (star, take n p, drop n p))"

lemma strip_stars_length: "length (strip_stars p) \<le> length p"
  by (induction p rule: strip_stars.induct) auto

lemma chunk_length_pos: "p \<noteq> [] \<Longrightarrow> hd p \<noteq> CHR ''*'' \<Longrightarrow> 0 < chunk_length b p"
  by (cases p) (auto split: list.splits)

lemma strip_stars_hd: "strip_stars p \<noteq> [] \<Longrightarrow> hd (strip_stars p) \<noteq> CHR ''*''"
  by (induction p rule: strip_stars.induct) auto

lemma scan_chunk_less:
  assumes "pattern \<noteq> []"
  shows "length (snd (snd (scan_chunk pattern))) < length pattern"
proof (cases "strip_stars pattern")
  case Nil
  then show ?thesis using assms by (simp add: scan_chunk_def Let_def)
next
  case (Cons c p)
  then have "0 < chunk_length False (strip_stars pattern)"
    by (intro chunk_length_pos strip_stars_hd) simp_all
  then show ?thesis
    using strip_stars_length [of pattern] Cons assms by (simp add: scan_chunk_def Let_def)
qed

section \<open>Match\<close>

text \<open>The remaining chunks are checked for syntax before a failed match is reported.\<close>

function chunks_valid :: "string \<Rightarrow> bool" where
  "chunks_valid pattern =
    (if pattern = [] then True
     else match_chunk False (fst (snd (scan_chunk pattern))) [] \<noteq> None
       \<and> chunks_valid (snd (snd (scan_chunk pattern))))"
  by pat_completeness auto
termination by (relation "measure length") (auto simp: scan_chunk_less)

declare chunks_valid.simps [simp del]

text \<open>
  The search after a star: skip bytes of \<open>name\<close> up to a slash until the chunk matches, and
  exhausts the name if it is the last one. The result is an error, the rest, or no match.
\<close>

fun star_search :: "string \<Rightarrow> bool \<Rightarrow> string \<Rightarrow> string option option" where
  "star_search chunk final [] = Some None"
| "star_search chunk final (c # name) =
    (if c = CHR ''/'' then Some None
     else case match_chunk False chunk name of
       None \<Rightarrow> None
     | Some (Some t) \<Rightarrow> if final \<and> t \<noteq> [] then star_search chunk final name else Some (Some t)
     | Some None \<Rightarrow> star_search chunk final name)"

function path_match :: "string \<Rightarrow> string \<Rightarrow> bool option" where
  "path_match pattern name =
    (if pattern = [] then Some (name = [])
     else
       let star = fst (scan_chunk pattern); chunk = fst (snd (scan_chunk pattern));
           rest = snd (snd (scan_chunk pattern)) in
       if star \<and> chunk = [] then Some (CHR ''/'' \<notin> set name)
       else
         let fail = (if chunks_valid rest then Some False else None);
             after = (if star then
                 (case star_search chunk (rest = []) name of
                    None \<Rightarrow> None
                  | Some (Some t) \<Rightarrow> path_match rest t
                  | Some None \<Rightarrow> fail)
               else fail)
         in (case match_chunk False chunk name of
             None \<Rightarrow> None
           | Some (Some t) \<Rightarrow> if t = [] \<or> rest \<noteq> [] then path_match rest t else after
           | Some None \<Rightarrow> after))"
  by pat_completeness auto
termination by (relation "measure (\<lambda>(p, _). length p)") (simp_all add: scan_chunk_less)

declare path_match.simps [simp del]

text \<open>Whether a pattern is malformed does not depend on the name it is matched against.\<close>

fun chunk_tail :: "char \<Rightarrow> string \<Rightarrow> string option" where
  "chunk_tail c chunk =
    (if c = CHR ''['' then map_option snd (match_ranges 0 0 False (if chunk \<noteq> [] \<and> hd chunk = CHR ''^'' then tl chunk else chunk))
     else if c = CHR 0x5C then (case chunk of [] \<Rightarrow> None | d # rest \<Rightarrow> Some rest)
     else Some chunk)"

lemma match_ranges_tail:
  "map_option snd (match_ranges r n m chunk) = map_option snd (match_ranges r' n m' chunk)"
proof (induction r n m chunk arbitrary: m' rule: match_ranges.induct)
  case (1 r n m chunk)
  show ?case
  proof (cases "chunk \<noteq> [] \<and> hd chunk = CHR '']'' \<and> n > 0")
    case False
    note IH = "1.IH" [OF False]
    show ?thesis
      by (subst (1 2) match_ranges.simps, unfold if_not_P [OF False])
        (auto split: option.splits if_splits intro: IH)
  qed (simp add: match_ranges.simps)
qed

lemma match_chunk_step:
  "\<exists>failed' s'. match_chunk failed (c # chunk) s =
     (case chunk_tail c chunk of None \<Rightarrow> None | Some rest \<Rightarrow> match_chunk failed' rest s')"
proof (cases "c = CHR ''[''")
  case True
  define body where "body = (if chunk \<noteq> [] \<and> hd chunk = CHR ''^'' then tl chunk else chunk)"
  define r where "r = (if failed \<or> s = [] then 0 else fst (decode_rune s))"
  have "chunk_tail c chunk = map_option snd (match_ranges r 0 False body)"
    using True match_ranges_tail [of 0 0 False body r False] by (simp add: body_def)
  then show ?thesis
    using True unfolding match_chunk.simps Let_def body_def [symmetric] r_def [symmetric]
    by (cases "match_ranges r 0 False body") (simp_all del: chunk_tail.simps add: case_prod_beta, blast)
next
  case False
  consider "c = CHR 0x5C" "chunk = []" | d rest where "c = CHR 0x5C" "chunk = d # rest" | "c \<noteq> CHR 0x5C"
    by (cases chunk) auto
  then show ?thesis
  proof cases
    case 1
    then show ?thesis by (simp add: match_chunk.simps(2) Let_def)
  next
    case 2
    then show ?thesis
      by (cases "failed \<or> s = []") (simp_all add: match_chunk.simps(2) Let_def, blast+)
  next
    case 3
    then show ?thesis using False
      by (cases "failed \<or> s = []"; cases "c = CHR ''?''") (simp_all add: match_chunk.simps(2) Let_def, blast+)
  qed
qed

lemma match_chunk_error: "match_chunk f chunk s = None \<longleftrightarrow> match_chunk f' chunk s' = None"
proof (induction chunk arbitrary: f s f' s' rule: length_induct)
  case (1 chunk)
  show ?case
  proof (cases chunk)
    case (Cons c rest)
    have less: "length t < length chunk" if tail: "chunk_tail c rest = Some t" for t
    proof (cases "c = CHR ''[''")
      case True
      then obtain m where "match_ranges 0 0 False (if rest \<noteq> [] \<and> hd rest = CHR ''^'' then tl rest else rest) = Some (m, t)"
        using tail by auto
      then have "length t < length (if rest \<noteq> [] \<and> hd rest = CHR ''^'' then tl rest else rest)"
        by (rule match_ranges_less)
      then show ?thesis using Cons by (simp split: if_splits)
    qed (use tail Cons in \<open>auto split: if_splits list.splits\<close>)
    obtain f1 s1 where l: "match_chunk f chunk s = (case chunk_tail c rest of None \<Rightarrow> None | Some t \<Rightarrow> match_chunk f1 t s1)"
      using match_chunk_step Cons by blast
    obtain f2 s2 where r: "match_chunk f' chunk s' = (case chunk_tail c rest of None \<Rightarrow> None | Some t \<Rightarrow> match_chunk f2 t s2)"
      using match_chunk_step Cons by blast
    show ?thesis
      unfolding l r using 1 less by (cases "chunk_tail c rest") auto
  qed (simp add: match_chunk.simps)
qed

lemma star_search_error:
  assumes "match_chunk False chunk [] \<noteq> None"
  shows "star_search chunk final name \<noteq> None"
proof (induction name)
  case (Cons c name)
  have "match_chunk False chunk name \<noteq> None"
    using assms match_chunk_error [of False chunk name False "[]"] by simp
  then show ?case using Cons by (auto split: option.splits)
qed simp

lemma path_match_error: "path_match pattern name = None \<longleftrightarrow> \<not> chunks_valid pattern"
proof (induction "length pattern" arbitrary: pattern name rule: less_induct)
  case less
  show ?case
  proof (cases "pattern = []")
    case False
    define star chunk rest where "star = fst (scan_chunk pattern)" and "chunk = fst (snd (scan_chunk pattern))"
      and "rest = snd (snd (scan_chunk pattern))"
    note fold = star_def [symmetric] chunk_def [symmetric] rest_def [symmetric]
    have IH: "path_match rest t = None \<longleftrightarrow> \<not> chunks_valid rest" for t
      using less scan_chunk_less [OF False] by (simp add: rest_def)
    have valid: "chunks_valid pattern \<longleftrightarrow> match_chunk False chunk [] \<noteq> None \<and> chunks_valid rest"
      using False by (subst chunks_valid.simps) (simp add: fold)
    have empty: "rest = []" if "star" "chunk = []"
      using that chunk_length_pos [of "strip_stars pattern" False] strip_stars_hd [of pattern]
      by (cases "strip_stars pattern = []") (auto simp: chunk_def rest_def scan_chunk_def Let_def)
    show ?thesis
    proof (cases "match_chunk False chunk [] = None")
      case True
      then have "match_chunk False chunk name = None" "chunk \<noteq> []"
        using match_chunk_error [of False chunk _ False "[]"] by (auto simp: match_chunk.simps)
      then show ?thesis using False True valid
        by (subst path_match.simps) (simp add: fold Let_def)
    next
      case ok: False
      then have "match_chunk False chunk name \<noteq> None"
        using match_chunk_error [of False chunk name False "[]"] by simp
      then obtain found where found: "match_chunk False chunk name = Some found" by blast
      obtain searched where searched: "star_search chunk (rest = []) name = Some searched"
        using star_search_error [OF ok] by blast
      show ?thesis
      proof (cases "star \<and> chunk = []")
        case True
        then show ?thesis using False valid ok empty
          by (subst path_match.simps) (simp add: fold Let_def chunks_valid.simps)
      next
        case go: False
        show ?thesis using False valid ok
          by (subst path_match.simps)
            (unfold fold Let_def if_not_P [OF go] if_not_P [OF False] found searched option.case,
              cases found; cases searched; cases star;
              simp add: IH path_match.simps [of "[]"] chunks_valid.simps [of "[]"])
      qed
    qed
  qed (simp add: path_match.simps chunks_valid.simps)
qed

text \<open>A pattern without metacharacters matches exactly itself.\<close>

definition literal_char :: "char \<Rightarrow> bool" where
  "literal_char c \<longleftrightarrow> c \<noteq> CHR ''*'' \<and> c \<noteq> CHR ''?'' \<and> c \<noteq> CHR ''['' \<and> c \<noteq> CHR 0x5C"

lemma match_chunk_failed: "list_all literal_char p \<Longrightarrow> match_chunk True p s = Some None"
  by (induction p) (auto simp: match_chunk.simps literal_char_def Let_def)

lemma match_chunk_literal:
  "list_all literal_char p \<Longrightarrow> match_chunk False p s = Some (if has_prefix s p then Some (drop (length p) s) else None)"
proof (induction p arbitrary: s)
  case (Cons c p)
  then have "list_all literal_char p" by simp
  note failed = match_chunk_failed [OF this]
  show ?case
    using Cons by (cases s) (auto simp: match_chunk.simps literal_char_def [of c] Let_def has_prefix_def failed, metis failed)
qed (simp add: match_chunk.simps has_prefix_def)

lemma chunk_length_literal: "list_all literal_char p \<Longrightarrow> chunk_length False p = length p"
proof (induction p)
  case (Cons c p)
  have any: "list_all literal_char p \<Longrightarrow> chunk_length False p = length p" by (rule Cons.IH)
  then show ?case using Cons.prems by (simp add: literal_char_def [of c])
qed simp

lemma path_match_literal: "list_all literal_char p \<Longrightarrow> path_match p name = Some (name = p)"
proof (cases "p = []")
  case False
  assume lit: "list_all literal_char p"
  then have "hd p \<noteq> CHR ''*''" "strip_stars p = p" using False by (cases p; auto simp: literal_char_def)+
  then have scan: "scan_chunk p = (False, p, [])" using chunk_length_literal [OF lit] by (simp add: scan_chunk_def)
  then show ?thesis
    using False match_chunk_literal [OF lit, of name]
    by (subst path_match.simps) (auto simp: has_prefix_iff chunks_valid.simps path_match.simps [of "[]"])
qed (simp add: path_match.simps)

end
