(* ===== verification/Policy.thy ===== *)
theory Policy
  imports Go_Path Go_Json Ids Vpath_Correct "HOL-Library.Multiset"
begin

text \<open>
  The exclusion rules of \<^verbatim>\<open>internal/core/policy/policy.go\<close>: a rule set as a record,
  its validation, the evaluation of a candidate file and the identity of a rule set. The
  SHA-256 function is the argument \<open>S\<close>; decoding a rules file from JSON is the argument
  \<open>D\<close>, of which only the decoded rule set matters.
\<close>

section \<open>Rule sets\<close>

type_synonym policy_action = string

definition action_include :: policy_action where "action_include = ''include''"
definition action_skip :: policy_action where "action_skip = ''skip''"

record policy_match =
  m_ext :: "string list"
  m_glob :: "string list"
  m_min :: int
  m_max :: int
  m_courses :: "int list"

record policy_rule =
  r_name :: string
  r_priority :: int
  r_match :: policy_match
  r_action :: policy_action
  r_comment :: string

record policy =
  p_version :: int
  p_default :: policy_action
  p_rules :: "policy_rule list"
  p_comment :: string

record candidate =
  c_path :: string
  c_size :: int
  c_mime :: string
  c_course :: int

record policy_decision =
  d_action :: policy_action
  d_rule :: string
  d_reason :: string

definition included :: "policy_decision \<Rightarrow> bool" where
  "included d \<longleftrightarrow> d_action d = action_include"

section \<open>Validation\<close>

datatype policy_error = Unsupported_version int | Bad_default policy_action | Rule_no_name nat
  | Duplicate_rule string | Bad_action string policy_action | Matches_everything string
  | Bad_glob string string | Parse_failed

definition is_empty_match :: "policy_match \<Rightarrow> bool" where
  "is_empty_match m \<longleftrightarrow> m_ext m = [] \<and> m_glob m = [] \<and> m_min m = 0 \<and> m_max m = 0 \<and> m_courses m = []"

definition action_ok :: "policy_action \<Rightarrow> bool" where
  "action_ok a \<longleftrightarrow> a = action_include \<or> a = action_skip"

fun validate_rules :: "string set \<Rightarrow> nat \<Rightarrow> policy_rule list \<Rightarrow> policy_error option" where
  "validate_rules seen i [] = None"
| "validate_rules seen i (r # rs) =
    (if r_name r = [] then Some (Rule_no_name i)
     else if r_name r \<in> seen then Some (Duplicate_rule (r_name r))
     else if \<not> action_ok (r_action r) then Some (Bad_action (r_name r) (r_action r))
     else if is_empty_match (r_match r) then Some (Matches_everything (r_name r))
     else case filter (\<lambda>g. path_match g ''probe'' = None) (m_glob (r_match r)) of
       g # _ \<Rightarrow> Some (Bad_glob (r_name r) g)
     | [] \<Rightarrow> validate_rules (insert (r_name r) seen) (Suc i) rs)"

definition policy_validate :: "policy \<Rightarrow> policy_error option" where
  "policy_validate p =
    (if p_version p \<noteq> 1 then Some (Unsupported_version (p_version p))
     else if \<not> action_ok (p_default p) then Some (Bad_default (p_default p))
     else validate_rules {} 0 (p_rules p))"

definition policy_parse :: "(string \<Rightarrow> policy option) \<Rightarrow> string \<Rightarrow> policy_error + policy" where
  "policy_parse D b =
    (case D b of None \<Rightarrow> Inl Parse_failed
     | Some p \<Rightarrow> (case policy_validate p of Some e \<Rightarrow> Inl e | None \<Rightarrow> Inr p))"

section \<open>Matching\<close>

definition file_ext :: "unicode_tables \<Rightarrow> string \<Rightarrow> string" where
  "file_ext U p =
    (let i = last_index_byte p (CHR ''/'');
         base = (if i \<ge> 0 then drop (nat i + 1) p else p);
         j = last_index_byte base (CHR ''.'')
     in if j \<le> 0 then [] else lower_string U (drop (nat j + 1) base))"

definition any_glob :: "string list \<Rightarrow> string \<Rightarrow> bool" where
  "any_glob globs p \<longleftrightarrow> list_ex (\<lambda>g. path_match g p = Some True) globs"

definition trim_prefix :: "string \<Rightarrow> string \<Rightarrow> string" where
  "trim_prefix s p = (if has_prefix s p then drop (length p) s else s)"

definition contains_fold :: "unicode_tables \<Rightarrow> string list \<Rightarrow> string \<Rightarrow> bool" where
  "contains_fold U hay needle \<longleftrightarrow> list_ex (\<lambda>h. equal_fold U (trim_prefix h ''.'') needle) hay"

definition contains_int64 :: "int list \<Rightarrow> int \<Rightarrow> bool" where
  "contains_int64 hay n \<longleftrightarrow> list_ex (\<lambda>h. h = n) hay"

definition policy_matches :: "unicode_tables \<Rightarrow> policy_match \<Rightarrow> candidate \<Rightarrow> bool" where
  "policy_matches U m c =
    (if m_courses m \<noteq> [] \<and> \<not> contains_int64 (m_courses m) (c_course c) then False
     else if m_ext m \<noteq> [] \<and> \<not> contains_fold U (m_ext m) (file_ext U (c_path c)) then False
     else if m_glob m \<noteq> [] \<and> \<not> any_glob (m_glob m) (c_path c) then False
     else if m_min m > 0 \<and> c_size c < m_min m then False
     else if m_max m > 0 \<and> c_size c > m_max m then False
     else True)"

section \<open>The reason of a decision\<close>

text \<open>
  \<open>humanBytes\<close> converts to \<open>float64\<close>: more than 53 significant bits are rounded half to even.
  Dividing by a power of two is exact, and one decimal of the quotient is rounded half to even.
\<close>

definition round_half_even :: "nat \<Rightarrow> nat \<Rightarrow> nat" where
  "round_half_even a b =
    (let q = a div b; r = a mod b in
     if 2 * r < b \<or> 2 * r = b \<and> even q then q else q + 1)"

function bit_length :: "nat \<Rightarrow> nat" where
  "bit_length n = (if n = 0 then 0 else 1 + bit_length (n div 2))"
  by pat_completeness auto
termination by (relation "measure id") auto

declare bit_length.simps [simp del]

definition float64_of :: "nat \<Rightarrow> nat" where
  "float64_of n = (if n < 2 ^ 53 then n else let e = 2 ^ (bit_length n - 53) in round_half_even n e * e)"

function unit_of :: "nat \<Rightarrow> nat \<times> nat \<Rightarrow> nat \<times> nat" where
  "unit_of m (d, ex) = (if m \<ge> 1024 then unit_of (m div 1024) (d * 1024, ex + 1) else (d, ex))"
  by pat_completeness auto
termination by (relation "measure fst") auto

declare unit_of.simps [simp del]

definition human_bytes :: "int \<Rightarrow> string" where
  "human_bytes n =
    (if n < 1024 then string_of_int n @ '' B''
     else let u = unit_of (nat n div 1024) (1024, 0); tenths = round_half_even (10 * float64_of (nat n)) (fst u) in
       digits_of (tenths div 10) @ ''.'' @ digits_of (tenths mod 10) @ '' '' @ [''KMGTPE'' ! snd u] @ ''B'')"

definition describe :: "unicode_tables \<Rightarrow> policy_rule \<Rightarrow> candidate \<Rightarrow> string" where
  "describe U r c =
    (if m_min (r_match r) > 0 \<and> m_ext (r_match r) = [] then
       ''rule '' @ quote U (r_name r) @ '': '' @ human_bytes (c_size c) @ '' is at or above '' @ human_bytes (m_min (r_match r))
     else if m_ext (r_match r) \<noteq> [] then ''rule '' @ quote U (r_name r) @ '': extension .'' @ file_ext U (c_path c)
     else ''rule '' @ quote U (r_name r))"

section \<open>Evaluation\<close>

text \<open>\<open>best\<close> is the best rule so far, as the loop's index and priority.\<close>

fun best_rule :: "unicode_tables \<Rightarrow> candidate \<Rightarrow> policy_rule option \<Rightarrow> policy_rule list \<Rightarrow> policy_rule option" where
  "best_rule U c best [] = best"
| "best_rule U c best (r # rs) =
    (if \<not> policy_matches U (r_match r) c then best_rule U c best rs
     else if best = None \<or> r_priority r > r_priority (the best) then best_rule U c (Some r) rs
     else best_rule U c best rs)"

definition evaluate :: "unicode_tables \<Rightarrow> policy \<Rightarrow> candidate \<Rightarrow> policy_decision" where
  "evaluate U p c =
    (case best_rule U c None (p_rules p) of
       None \<Rightarrow> \<lparr>d_action = p_default p, d_rule = [], d_reason = ''default policy''\<rparr>
     | Some r \<Rightarrow> \<lparr>d_action = r_action r, d_rule = r_name r, d_reason = describe U r c\<rparr>)"

section \<open>The identity of a rule set\<close>

definition sorted_strings :: "string list \<Rightarrow> string list" where
  "sorted_strings s = (if s = [] then [] else sort s)"

definition policy_canonical_match :: "policy_match \<Rightarrow> policy_match" where
  "policy_canonical_match m = m\<lparr>m_ext := sorted_strings (m_ext m), m_glob := sorted_strings (m_glob m),
     m_courses := (if m_courses m \<noteq> [] then sort (m_courses m) else m_courses m)\<rparr>"

definition policy_canonical :: "policy \<Rightarrow> policy" where
  "policy_canonical p = \<lparr>p_version = p_version p, p_default = p_default p,
     p_rules = map (\<lambda>r. r\<lparr>r_comment := [], r_match := policy_canonical_match (r_match r)\<rparr>) (p_rules p), p_comment = []\<rparr>"

definition match_json :: "policy_match \<Rightarrow> json" where
  "match_json m = JObject (
     omit_empty (m_ext m = []) ''ext'' (JArray (map JString (m_ext m))) @
     omit_empty (m_glob m = []) ''glob'' (JArray (map JString (m_glob m))) @
     omit_empty (m_min m = 0) ''min_size'' (JInt (m_min m)) @
     omit_empty (m_max m = 0) ''max_size'' (JInt (m_max m)) @
     omit_empty (m_courses m = []) ''course_ids'' (JArray (map JInt (m_courses m))))"

definition rule_json :: "policy_rule \<Rightarrow> json" where
  "rule_json r = JObject ([(''name'', JString (r_name r)), (''priority'', JInt (r_priority r)),
     (''match'', match_json (r_match r)), (''action'', JString (r_action r))] @
     omit_empty (r_comment r = []) ''_comment'' (JString (r_comment r)))"

definition policy_json :: "policy \<Rightarrow> json" where
  "policy_json p = JObject ([(''version'', JInt (p_version p)), (''default'', JString (p_default p)),
     (''rules'', JArray (map rule_json (p_rules p)))] @
     omit_empty (p_comment p = []) ''_comment'' (JString (p_comment p)))"

definition policy_hash :: "(string \<Rightarrow> byte list) \<Rightarrow> policy \<Rightarrow> string" where
  "policy_hash S p = hex_encode (S (json_text (policy_json (policy_canonical p))))"

section \<open>Validation\<close>

definition rule_ok :: "policy_rule \<Rightarrow> bool" where
  "rule_ok r \<longleftrightarrow> r_name r \<noteq> [] \<and> action_ok (r_action r) \<and> \<not> is_empty_match (r_match r)
     \<and> list_all chunks_valid (m_glob (r_match r))"

lemma filter_Nil_all: "filter (\<lambda>x. \<not> P x) xs = [] \<longleftrightarrow> list_all P xs"
  by (auto simp: filter_empty_conv list_all_iff)

lemma validate_rules_exact:
  "validate_rules seen i rs = None \<longleftrightarrow>
     list_all rule_ok rs \<and> distinct (map r_name rs) \<and> r_name ` set rs \<inter> seen = {}"
proof (induction rs arbitrary: seen i)
  case (Cons r rs)
  have "filter (\<lambda>g. path_match g ''probe'' = None) (m_glob (r_match r)) = [] \<longleftrightarrow>
      list_all chunks_valid (m_glob (r_match r))"
    by (simp add: path_match_error filter_Nil_all)
  then show ?case
    by (cases "filter (\<lambda>g. path_match g ''probe'' = None) (m_glob (r_match r))")
      (auto simp: Cons.IH rule_ok_def)
qed simp

text \<open>
  Validate accepts a rule set exactly when its version is 1, the default and every
  action are include or skip, the names are distinct and non-empty, no rule is empty and
  every glob is well formed. Probing a glob with one name is enough: an accepted glob is
  well formed for every path it will ever be matched against.
\<close>
theorem policy_validate_exact:
  "policy_validate p = None \<longleftrightarrow>
      p_version p = 1 \<and> action_ok (p_default p) \<and> distinct (map r_name (p_rules p)) \<and> list_all rule_ok (p_rules p)
      \<and> list_all (\<lambda>r. list_all (\<lambda>g. \<forall>path. path_match g path \<noteq> None) (m_glob (r_match r))) (p_rules p)"
  by (auto simp: policy_validate_def validate_rules_exact rule_ok_def list_all_iff path_match_error)

section \<open>The winning rule\<close>

text \<open>The reference definition: the first of the matching rules whose priority is the greatest.\<close>

definition winning_rule :: "unicode_tables \<Rightarrow> candidate \<Rightarrow> policy_rule list \<Rightarrow> policy_rule option" where
  "winning_rule U c rs =
    (let ms = filter (\<lambda>r. policy_matches U (r_match r) c) rs in
     List.find (\<lambda>r. list_all (\<lambda>r'. r_priority r' \<le> r_priority r) ms) ms)"

definition first_max :: "policy_rule list \<Rightarrow> policy_rule option" where
  "first_max ms = List.find (\<lambda>r. list_all (\<lambda>r'. r_priority r' \<le> r_priority r) ms) ms"

lemma first_max_Nil [simp]: "first_max [] = None"
  by (simp add: first_max_def)

lemma first_max_nonempty: "ms \<noteq> [] \<Longrightarrow> first_max ms \<noteq> None"
proof (induction ms)
  case (Cons r ms)
  obtain m where "m \<in> set (r # ms)" "r_priority m = Max (r_priority ` set (r # ms))"
    by (metis (mono_tags, lifting) Max_in finite_imageI finite_set image_iff image_is_empty list.distinct(1) set_empty)
  then have "\<forall>r' \<in> set (r # ms). r_priority r' \<le> r_priority m" by (metis Max_ge finite_imageI finite_set image_eqI)
  then show ?case
    unfolding first_max_def find_None_iff list_all_iff using \<open>m \<in> set (r # ms)\<close> by blast
qed simp

lemma first_max_snoc:
  "first_max (ms @ [r]) = (case first_max ms of None \<Rightarrow> Some r
     | Some b \<Rightarrow> if r_priority r > r_priority b then Some r else Some b)"
proof (cases "first_max ms")
  case None
  then have "ms = []" using first_max_nonempty by blast
  then show ?thesis by (simp add: first_max_def)
next
  case (Some b)
  then obtain i where i: "i < length ms" "b = ms ! i" "list_all (\<lambda>r'. r_priority r' \<le> r_priority b) ms"
    and first: "\<forall>j < i. \<not> list_all (\<lambda>r'. r_priority r' \<le> r_priority (ms ! j)) ms"
    unfolding first_max_def find_Some_iff by blast
  show ?thesis
  proof (cases "r_priority r > r_priority b")
    case True
    then have "first_max (ms @ [r]) = Some r"
      unfolding first_max_def find_Some_iff using i(3)
    proof (intro exI [of _ "length ms"] conjI allI impI)
      fix j assume j: "j < length ms"
      then have "ms ! j \<in> set ms" by simp
      then have "r_priority (ms ! j) < r_priority r" using i(3) True by (force simp: list_all_iff)
      then show "\<not> list_all (\<lambda>r'. r_priority r' \<le> r_priority ((ms @ [r]) ! j)) (ms @ [r])"
        using j by (simp add: nth_append)
    qed (use i(3) True in \<open>auto simp: list_all_iff\<close>)
    then show ?thesis using Some True by simp
  next
    case False
    then have "first_max (ms @ [r]) = Some b"
      unfolding first_max_def find_Some_iff using i first
      by (intro exI [of _ i]) (auto simp: nth_append)
    then show ?thesis using Some False by simp
  qed
qed

lemma best_rule_fold:
  "best_rule U c (first_max ms) rs = first_max (ms @ filter (\<lambda>r. policy_matches U (r_match r) c) rs)"
proof (induction rs arbitrary: ms)
  case (Cons r rs)
  have "(if first_max ms = None \<or> r_priority r > r_priority (the (first_max ms)) then Some r else first_max ms)
      = first_max (ms @ [r])"
    by (auto simp: first_max_snoc split: option.splits)
  then show ?case using Cons.IH [of ms] Cons.IH [of "ms @ [r]"] by (auto split: if_splits)
qed simp

lemma best_rule_winning: "best_rule U c None rs = winning_rule U c rs"
  using best_rule_fold [of U c "[]" rs] by (simp add: winning_rule_def first_max_def Let_def)

text \<open>
  Evaluate is its specification: among the rules that match the candidate it takes the
  first one of the greatest priority, and the default when none matches.
\<close>
theorem evaluate_highest_priority:
  "evaluate U p c =
    (case winning_rule U c (p_rules p) of
       None \<Rightarrow> \<lparr>d_action = p_default p, d_rule = [], d_reason = ''default policy''\<rparr>
     | Some r \<Rightarrow> \<lparr>d_action = r_action r, d_rule = r_name r, d_reason = describe U r c\<rparr>)
   \<and> (winning_rule U c (p_rules p) = None \<longleftrightarrow> list_all (\<lambda>r. \<not> policy_matches U (r_match r) c) (p_rules p))"
proof -
  have "winning_rule U c (p_rules p) = None \<longleftrightarrow> filter (\<lambda>r. policy_matches U (r_match r) c) (p_rules p) = []"
    using first_max_nonempty [of "filter (\<lambda>r. policy_matches U (r_match r) c) (p_rules p)"]
    by (cases "filter (\<lambda>r. policy_matches U (r_match r) c) (p_rules p)")
      (simp_all add: winning_rule_def first_max_def Let_def)
  then show ?thesis by (auto simp: evaluate_def best_rule_winning filter_empty_conv list_all_iff)
qed

section \<open>The canonical form\<close>

lemma sort_Nil_iff [simp]: "sort xs = [] \<longleftrightarrow> xs = []" "[] = sort xs \<longleftrightarrow> xs = []"
  by (metis length_0_conv length_sort)+

lemma sorted_strings_sort: "sorted_strings s = sort s"
  by (simp add: sorted_strings_def)

lemma sorted_strings_set [simp]: "set (sorted_strings s) = set s" "sorted_strings s = [] \<longleftrightarrow> s = []"
  by (simp_all add: sorted_strings_sort)

lemma sort_eq_iff: "sort xs = sort ys \<longleftrightarrow> mset xs = mset ys"
  by (metis mset_sort properties_for_sort sorted_sort)

lemma list_ex_cong_set: "set xs = set ys \<Longrightarrow> list_ex P xs = list_ex P ys"
  by (simp add: list_ex_iff)

lemma policy_canonical_match_simps [simp]:
  "m_ext (policy_canonical_match m) = sorted_strings (m_ext m)"
  "m_glob (policy_canonical_match m) = sorted_strings (m_glob m)"
  "m_min (policy_canonical_match m) = m_min m" "m_max (policy_canonical_match m) = m_max m"
  "m_courses (policy_canonical_match m) = sort (m_courses m)"
  by (simp_all add: policy_canonical_match_def)

lemma policy_matches_canonical: "policy_matches U (policy_canonical_match m) c = policy_matches U m c"
  unfolding policy_matches_def contains_int64_def contains_fold_def any_glob_def
  by (simp add: list_ex_iff)

definition canonical_rule :: "policy_rule \<Rightarrow> policy_rule" where
  "canonical_rule r = r\<lparr>r_comment := [], r_match := policy_canonical_match (r_match r)\<rparr>"

lemma canonical_rule_simps [simp]:
  "r_name (canonical_rule r) = r_name r" "r_action (canonical_rule r) = r_action r"
  "r_priority (canonical_rule r) = r_priority r" "r_comment (canonical_rule r) = []"
  "r_match (canonical_rule r) = policy_canonical_match (r_match r)"
  by (simp_all add: canonical_rule_def)

lemma best_rule_canonical:
  "best_rule U c (map_option canonical_rule b) (map canonical_rule rs) = map_option canonical_rule (best_rule U c b rs)"
proof (induction rs arbitrary: b)
  case (Cons r rs)
  show ?case
    using Cons.IH [of b] Cons.IH [of "Some r"]
    by (cases b) (simp_all add: policy_matches_canonical)
qed simp

lemma evaluate_canonical: "evaluate U (policy_canonical p) c = evaluate U p c"
proof -
  have "p_rules (policy_canonical p) = map canonical_rule (p_rules p)" "p_default (policy_canonical p) = p_default p"
    by (simp_all add: policy_canonical_def canonical_rule_def)
  then show ?thesis
    using best_rule_canonical [of U c None "p_rules p"]
    by (cases "best_rule U c None (p_rules p)") (simp_all add: evaluate_def describe_def)
qed

text \<open>The JSON document of a canonical rule set determines it.\<close>

lemma omit_tail:
  "omit_empty a k v @ xs = omit_empty b k w @ ys \<Longrightarrow> k \<notin> fst ` set xs \<Longrightarrow> k \<notin> fst ` set ys \<Longrightarrow>
     a = b \<and> (\<not> a \<longrightarrow> v = w) \<and> xs = ys"
  by (auto simp: omit_empty_def split: if_splits)

lemma omit_empty_keys: "fst ` set (omit_empty e k v) \<subseteq> {k}"
  by (simp add: omit_empty_def)

lemma match_json_inj: "match_json m = match_json m' \<Longrightarrow> m = m'"
  by (cases m; cases m')
    (simp add: match_json_def; simp add: omit_empty_def split: if_splits)

lemma rule_json_inj: "rule_json r = rule_json r' \<Longrightarrow> r = r'"
  by (cases r; cases r')
    (auto simp: rule_json_def omit_empty_def dest: match_json_inj split: if_splits)

lemma policy_json_inj: "policy_json p = policy_json q \<Longrightarrow> p = q"
proof -
  assume eq: "policy_json p = policy_json q"
  then have "map rule_json (p_rules p) = map rule_json (p_rules q)"
    by (auto simp: policy_json_def)
  then have "p_rules p = p_rules q"
    by (rule map_injective) (auto intro: injI rule_json_inj)
  then show ?thesis
    using eq by (cases p; cases q) (auto simp: policy_json_def omit_empty_def split: if_splits)
qed

text \<open>Rule sets that differ in comments and in the order of the sets inside a match only.\<close>

definition same_match :: "policy_match \<Rightarrow> policy_match \<Rightarrow> bool" where
  "same_match m n \<longleftrightarrow> mset (m_ext m) = mset (m_ext n) \<and> mset (m_glob m) = mset (m_glob n)
     \<and> m_min m = m_min n \<and> m_max m = m_max n \<and> mset (m_courses m) = mset (m_courses n)"

definition same_rule :: "policy_rule \<Rightarrow> policy_rule \<Rightarrow> bool" where
  "same_rule r q \<longleftrightarrow> r_name r = r_name q \<and> r_priority r = r_priority q \<and> r_action r = r_action q
     \<and> same_match (r_match r) (r_match q)"

definition same_policy :: "policy \<Rightarrow> policy \<Rightarrow> bool" where
  "same_policy p q \<longleftrightarrow> p_version p = p_version q \<and> p_default p = p_default q
     \<and> list_all2 same_rule (p_rules p) (p_rules q)"

lemma same_match_canonical: "policy_canonical_match m = policy_canonical_match n \<longleftrightarrow> same_match m n"
  by (cases m; cases n)
    (auto simp: policy_canonical_match_def same_match_def sorted_strings_sort sort_eq_iff)

lemma same_rule_canonical: "canonical_rule r = canonical_rule q \<longleftrightarrow> same_rule r q"
  by (cases r; cases q) (auto simp: canonical_rule_def same_rule_def same_match_canonical)

lemma same_policy_canonical: "policy_canonical p = policy_canonical q \<longleftrightarrow> same_policy p q"
proof -
  have "map canonical_rule rs = map canonical_rule qs \<longleftrightarrow> list_all2 same_rule rs qs" for rs qs
    by (simp add: list.rel_eq [symmetric] list.rel_map same_rule_canonical)
  then show ?thesis
    by (simp add: policy_canonical_def same_policy_def canonical_rule_def [symmetric])
qed

text \<open>
  The identity of a rule set is faithful. The hashed documents of two rule sets agree
  exactly when the rule sets differ in comments and in the order of the lists inside a match
  only; then every candidate is decided alike, reason included, and the hashes agree.
\<close>
theorem policy_hash_faithful:
  "(policy_json (policy_canonical p) = policy_json (policy_canonical q) \<longleftrightarrow> same_policy p q)
   \<and> (same_policy p q \<longrightarrow> evaluate U p c = evaluate U q c \<and> policy_hash S p = policy_hash S q)"
  using policy_json_inj same_policy_canonical evaluate_canonical by (metis policy_hash_def)

definition photo_rule :: policy_rule where
  "photo_rule = \<lparr>r_name = ''a'', r_priority = 1, r_match = \<lparr>m_ext = [''png'', ''jpg''], m_glob = [], m_min = 0, m_max = 0,
     m_courses = [2, 1]\<rparr>, r_action = ''skip'', r_comment = ''photos''\<rparr>"

definition photo_policy :: policy where
  "photo_policy = \<lparr>p_version = 1, p_default = ''include'', p_rules = [photo_rule], p_comment = []\<rparr>"

lemma policy_hash_faithful_witness:
  "policy_hash (\<lambda>_. []) photo_policy = policy_hash (\<lambda>_. []) (policy_canonical photo_policy)"
proof -
  have "same_policy photo_policy (policy_canonical photo_policy)"
    by (simp add: same_policy_def photo_policy_def photo_rule_def policy_canonical_def same_rule_def same_match_def
        policy_canonical_match_def sorted_strings_sort)
  then show ?thesis
    using policy_hash_faithful [of photo_policy "policy_canonical photo_policy" plain_tables undefined "\<lambda>_. []"] by blast
qed

section \<open>A rule that matches everything\<close>

text \<open>
  Validate refuses a rule without a condition, but a negative size bound counts as a
  condition there and is ignored when matching: such a rule set is accepted and its rule
  decides every candidate, whatever the default says.
\<close>
theorem negative_size_matches_all:
  assumes "min_size < 0" and "name \<noteq> []" and "action_ok act" and "action_ok dflt"
    and p_def: "p = \<lparr>p_version = 1, p_default = dflt, p_rules = [\<lparr>r_name = name, r_priority = prio,
      r_match = \<lparr>m_ext = [], m_glob = [], m_min = min_size, m_max = 0, m_courses = []\<rparr>,
      r_action = act, r_comment = []\<rparr>], p_comment = []\<rparr>"
  shows "policy_validate p = None \<and> d_action (evaluate U p c) = act \<and> d_rule (evaluate U p c) = name"
  using assms by (simp add: p_def policy_validate_def is_empty_match_def evaluate_def policy_matches_def)

lemma negative_size_matches_all_witness:
  "d_action (evaluate plain_tables \<lparr>p_version = 1, p_default = ''include'', p_rules = [\<lparr>r_name = ''big'', r_priority = 0,
      r_match = \<lparr>m_ext = [], m_glob = [], m_min = -1, m_max = 0, m_courses = []\<rparr>,
      r_action = ''skip'', r_comment = []\<rparr>], p_comment = []\<rparr>
    \<lparr>c_path = ''a'', c_size = 0, c_mime = [], c_course = 1\<rparr>) = ''skip''"
  by (rule negative_size_matches_all [of "-1" "''big''" "''skip''" "''include''", THEN conjunct2, THEN conjunct1])
    (simp_all add: action_ok_def action_skip_def action_include_def)

end
