(* ===== verification/Scope.thy ===== *)
theory Scope
  imports Go_Path Vpath_Correct
begin

text \<open>
  Scoped pulls, \<^verbatim>\<open>internal/scope/scope.go\<close>: the patterns of a scope, their normal form,
  and whether a vault path is selected.
\<close>

record scope_pattern =
  sp_raw :: string
  sp_norm :: string
  sp_segs :: "string list"
  sp_glob :: bool

type_synonym scope = "scope_pattern list"

datatype scope_error = Empty_pattern string | Escapes_root string | Bad_pattern string

definition scope_normalize :: "unicode_tables \<Rightarrow> string \<Rightarrow> string" where
  "scope_normalize U r =
    (let n = replace_byte (nfc U (trim_space r)) (CHR 0x5C) (CHR ''/'');
         kept = filter (\<lambda>part. \<not> (part = [] \<or> part = ''.'')) (split_on (CHR ''/'') n)
     in if kept \<noteq> [] \<and> equal_fold U (hd kept) ''course files'' then
          (if tl kept = [] then ''**'' else lower_string U (join_with ''/'' (tl kept)))
        else lower_string U (join_with ''/'' kept))"

fun check_segs :: "string \<Rightarrow> string list \<Rightarrow> scope_error option" where
  "check_segs r [] = None"
| "check_segs r (seg # segs) =
    (if seg = ''..'' then Some (Escapes_root r)
     else if path_match seg [] = None then Some (Bad_pattern r)
     else check_segs r segs)"

fun scope_parse_from :: "unicode_tables \<Rightarrow> scope \<Rightarrow> string list \<Rightarrow> scope_error + scope" where
  "scope_parse_from U s [] = Inr s"
| "scope_parse_from U s (r # rs) =
    (let n = scope_normalize U r; segs = split_on (CHR ''/'') n in
     if n = [] then Inl (Empty_pattern r)
     else case check_segs r segs of Some e \<Rightarrow> Inl e
     | None \<Rightarrow> scope_parse_from U (s @ [\<lparr>sp_raw = r, sp_norm = n, sp_segs = segs, sp_glob = contains_any n ''*?[''\<rparr>]) rs)"

definition scope_parse :: "unicode_tables \<Rightarrow> string list \<Rightarrow> scope_error + scope" where
  "scope_parse U raw = scope_parse_from U [] raw"

definition scope_all :: "scope \<Rightarrow> bool" where
  "scope_all s \<longleftrightarrow> s = []"

definition scope_patterns :: "scope \<Rightarrow> string list" where
  "scope_patterns s = map sp_raw s"

text \<open>A leading \<open>**\<close> tries every suffix of the segments, the empty one included.\<close>

fun match_segs :: "string list \<Rightarrow> string list \<Rightarrow> bool" where
  "match_segs [] segs = True"
| "match_segs (p # pat) segs =
    (if p = ''**'' then list_ex (\<lambda>i. match_segs pat (drop i segs)) [0..<length segs + 1]
     else case segs of [] \<Rightarrow> False
     | s # segs' \<Rightarrow> if path_match p s \<noteq> Some True then False else match_segs pat segs')"

definition pattern_matches :: "scope_pattern \<Rightarrow> string \<Rightarrow> bool" where
  "pattern_matches p lp \<longleftrightarrow>
     (if lp = sp_norm p \<or> has_prefix lp (sp_norm p @ ''/'') then True
      else sp_glob p \<and> match_segs (sp_segs p) (split_on (CHR ''/'') lp))"

definition scope_contains :: "unicode_tables \<Rightarrow> scope \<Rightarrow> string \<Rightarrow> bool" where
  "scope_contains U s p \<longleftrightarrow>
     (if scope_all s then True else list_ex (\<lambda>pat. pattern_matches pat (collision_key U p)) s)"

definition scope_unmatched :: "unicode_tables \<Rightarrow> scope \<Rightarrow> string list \<Rightarrow> string list" where
  "scope_unmatched U s paths =
     map sp_raw (filter (\<lambda>pat. \<not> list_ex (\<lambda>p. pattern_matches pat (collision_key U p)) paths) s)"

section \<open>What a pattern selects\<close>

text \<open>The reference: a pattern of segments selects a path and everything beneath it.\<close>

inductive segs_match :: "string list \<Rightarrow> string list \<Rightarrow> bool" where
  exhausted: "segs_match [] segs"
| segment: "p \<noteq> ''**'' \<Longrightarrow> path_match p s = Some True \<Longrightarrow> segs_match pat segs \<Longrightarrow> segs_match (p # pat) (s # segs)"
| star_stop: "segs_match pat segs \<Longrightarrow> segs_match (''**'' # pat) segs"
| star_skip: "segs_match (''**'' # pat) segs \<Longrightarrow> segs_match (''**'' # pat) (s # segs)"

inductive_cases segs_match_ConsE: "segs_match (p # pat) segs"

lemma segs_match_drop: "segs_match pat (drop i segs) \<Longrightarrow> segs_match (''**'' # pat) segs"
proof (induction i arbitrary: segs)
  case (Suc i)
  then show ?case by (cases segs) (auto intro: segs_match.intros)
qed (auto intro: segs_match.intros)

lemma segs_match_star: "segs_match (''**'' # pat) segs \<longleftrightarrow> (\<exists>i \<le> length segs. segs_match pat (drop i segs))"
proof
  show "segs_match (''**'' # pat) segs \<Longrightarrow> \<exists>i \<le> length segs. segs_match pat (drop i segs)"
  proof (induction segs)
    case Nil
    then show ?case by (auto elim: segs_match_ConsE)
  next
    case (Cons s segs)
    from Cons.prems consider "segs_match pat (s # segs)" | "segs_match (''**'' # pat) segs"
      by (auto elim: segs_match_ConsE)
    then show ?case
    proof cases
      case 1
      then show ?thesis by (intro exI [of _ 0]) simp
    next
      case 2
      then obtain i where "i \<le> length segs" "segs_match pat (drop i segs)" using Cons.IH by blast
      then show ?thesis by (intro exI [of _ "Suc i"]) simp
    qed
  qed
qed (blast intro: segs_match_drop)

lemma match_segs_iff: "match_segs pat segs \<longleftrightarrow> segs_match pat segs"
proof (induction pat segs rule: match_segs.induct)
  case (2 p pat segs)
  show ?case
  proof (cases "p = ''**''")
    case True
    have "match_segs (p # pat) segs \<longleftrightarrow> (\<exists>i \<le> length segs. match_segs pat (drop i segs))"
      unfolding match_segs.simps if_P [OF True] list_ex_iff set_upt by (auto simp: less_Suc_eq_le)
    also have "\<dots> \<longleftrightarrow> (\<exists>i \<le> length segs. segs_match pat (drop i segs))"
      using "2.IH"(1) [OF True] by (metis less_Suc_eq_le Suc_eq_plus1 atLeastLessThan_iff le0 set_upt)
    finally show ?thesis using True segs_match_star by simp
  next
    case False
    show ?thesis
    proof (cases segs)
      case (Cons s segs')
      have "match_segs pat segs' \<longleftrightarrow> segs_match pat segs'" if "path_match p s = Some True"
        using "2.IH"(2) [OF False Cons] that by simp
      then show ?thesis using False Cons by (auto intro: segs_match.intros elim: segs_match_ConsE)
    qed (use False in \<open>auto elim: segs_match_ConsE\<close>)
  qed
qed (simp add: segs_match.exhausted)

lemma segs_match_append: "segs_match pat segs \<Longrightarrow> segs_match pat (segs @ rest)"
  by (induction rule: segs_match.induct) (auto intro: segs_match.intros)

lemma pattern_matches_below:
  "pattern_matches p lp \<Longrightarrow> pattern_matches p (lp @ ''/'' @ rest)"
proof -
  assume m: "pattern_matches p lp"
  have split: "split_on (CHR ''/'') (lp @ ''/'' @ rest) = split_on (CHR ''/'') lp @ split_on (CHR ''/'') rest"
    using split_on_sep by simp
  show ?thesis
    using m segs_match_append [of "sp_segs p" "split_on (CHR ''/'') lp" "split_on (CHR ''/'') rest"]
    unfolding pattern_matches_def split match_segs_iff by (auto simp: has_prefix_iff split: if_splits)
qed

text \<open>
  A scope that selects a directory selects everything beneath it, by a literal pattern
  or by a glob, on the folded form of the paths; and the segment matcher is its inductive
  specification, \<open>**\<close> spanning any number of segments.
\<close>
theorem scope_selects_below:
  assumes "scope_contains U s dir" and "collision_key U p = collision_key U dir @ ''/'' @ rest"
  shows "scope_contains U s p \<and> (match_segs pat segs \<longleftrightarrow> segs_match pat segs)"
proof -
  have "scope_contains U s p"
    using assms pattern_matches_below unfolding scope_contains_def list_ex_iff by (auto split: if_splits)
  then show ?thesis using match_segs_iff by blast
qed

section \<open>Accepted scopes\<close>

definition pattern_of :: "unicode_tables \<Rightarrow> string \<Rightarrow> scope_pattern" where
  "pattern_of U r = (let n = scope_normalize U r in
     \<lparr>sp_raw = r, sp_norm = n, sp_segs = split_on (CHR ''/'') n, sp_glob = contains_any n ''*?[''\<rparr>)"

definition pattern_ok :: "scope_pattern \<Rightarrow> bool" where
  "pattern_ok p \<longleftrightarrow> sp_norm p \<noteq> [] \<and> ''..'' \<notin> set (sp_segs p)
     \<and> list_all (\<lambda>seg. \<forall>name. path_match seg name \<noteq> None) (sp_segs p)"

lemma check_segs_None:
  "check_segs r segs = None \<longleftrightarrow> ''..'' \<notin> set segs \<and> list_all (\<lambda>seg. \<forall>name. path_match seg name \<noteq> None) segs"
  by (induction segs) (auto simp: path_match_error)

lemma scope_parse_from_iff:
  "scope_parse_from U s raw = Inr s' \<longleftrightarrow>
     s' = s @ map (pattern_of U) raw \<and> list_all (\<lambda>r. pattern_ok (pattern_of U r)) raw"
proof (induction raw arbitrary: s)
  case (Cons r raw)
  define n where "n = scope_normalize U r"
  have ok: "pattern_ok (pattern_of U r) \<longleftrightarrow> n \<noteq> [] \<and> check_segs r (split_on (CHR ''/'') n) = None"
    by (simp add: pattern_ok_def pattern_of_def check_segs_None Let_def n_def)
  have step: "scope_parse_from U s (r # raw) =
      (if n = [] then Inl (Empty_pattern r)
       else case check_segs r (split_on (CHR ''/'') n) of Some e \<Rightarrow> Inl e
       | None \<Rightarrow> scope_parse_from U (s @ [pattern_of U r]) raw)"
    unfolding scope_parse_from.simps Let_def pattern_of_def n_def by (auto split: option.splits)
  show ?case using Cons.IH [of "s @ [pattern_of U r]"] unfolding step
    by (auto simp: ok split: option.splits)
qed auto

text \<open>
  Parse accepts a list of patterns exactly when each has a non-empty normal form that
  stays inside the course and whose segments are well-formed globs; the scope keeps the
  patterns in the order typed, and matching a segment of an accepted scope against any name
  never fails.
\<close>
theorem scope_parse_exact:
  "scope_parse U raw = Inr s \<longleftrightarrow>
     s = map (pattern_of U) raw \<and> list_all pattern_ok s \<and> scope_patterns s = raw"
proof -
  have "map sp_raw (map (pattern_of U) raw) = raw"
    by (induction raw) (simp_all add: pattern_of_def Let_def)
  then show ?thesis
    using scope_parse_from_iff [of U "[]" raw s]
    by (auto simp: scope_parse_def scope_patterns_def list_all_iff)
qed

lemma plain_assigned: "u_assigned plain_tables r"
  by (simp add: plain_tables_def)

lemma scope_selects_below_witness:
  "scope_contains plain_tables [\<lparr>sp_raw = ''a'', sp_norm = ''a'', sp_segs = [''a''], sp_glob = False\<rparr>] ''a/b''"
proof -
  have key: "collision_key plain_tables ''a'' = ''a''" "collision_key plain_tables ''a/b'' = ''a'' @ ''/'' @ ''b''"
    by (simp_all add: collision_key_def map_runes_ascii encode1 to_lower_def plain_assigned Let_def char_of_eq)
  have "scope_contains plain_tables [\<lparr>sp_raw = ''a'', sp_norm = ''a'', sp_segs = [''a''], sp_glob = False\<rparr>] ''a''"
    by (simp add: scope_contains_def scope_all_def pattern_matches_def key)
  then show ?thesis
    using scope_selects_below [of plain_tables "[\<lparr>sp_raw = ''a'', sp_norm = ''a'', sp_segs = [''a''], sp_glob = False\<rparr>]"
        "''a''" "''a/b''" "''b''"] key by metis
qed

end
