(* ===== verification/Go_Time.thy ===== *)
theory Go_Time
  imports Go_Strings
begin

text \<open>
  Go's \<^verbatim>\<open>time.Time\<close> as an instant, the integer of nanoseconds since 1970 in UTC, and the
  two layouts the repository writes, \<^verbatim>\<open>time.RFC3339\<close> and \<^verbatim>\<open>time.RFC3339Nano\<close>.
  \<^verbatim>\<open>Equal\<close> is \<open>=\<close>, \<^verbatim>\<open>After\<close> and \<^verbatim>\<open>Before\<close> are the order; the zero
  time is midnight of January 1 of the year 1.
\<close>

type_synonym instant = int

definition second :: int where "second = 1000000000"
definition minute :: int where "minute = 60 * second"
definition hour :: int where "hour = 60 * minute"

definition zero_time :: instant where "zero_time = - 62135596800 * second"

text \<open>The civil date of a day number, in years that begin in March.\<close>

definition civil_of_days :: "int \<Rightarrow> int \<times> int \<times> int" where
  "civil_of_days days =
    (let z = days + 719468; era = z div 146097; doe = z mod 146097;
         yoe = (doe - doe div 1460 + doe div 36524 - doe div 146096) div 365;
         doy = doe - (365 * yoe + yoe div 4 - yoe div 100);
         mp = (5 * doy + 2) div 153;
         d = doy - (153 * mp + 2) div 5 + 1;
         m = (if mp < 10 then mp + 3 else mp - 9)
     in (yoe + era * 400 + (if m \<le> 2 then 1 else 0), m, d))"

definition padded :: "nat \<Rightarrow> int \<Rightarrow> string" where
  "padded width n = (let ds = digits_of (nat n) in replicate (width - length ds) (CHR ''0'') @ ds)"

definition date_time :: "instant \<Rightarrow> string" where
  "date_time t =
    (let secs = t div second; days = secs div 86400; s = secs mod 86400; c = civil_of_days days in
     padded 4 (fst c) @ ''-'' @ padded 2 (fst (snd c)) @ ''-'' @ padded 2 (snd (snd c)) @ ''T'' @
     padded 2 (s div 3600) @ '':'' @ padded 2 (s mod 3600 div 60) @ '':'' @ padded 2 (s mod 60))"

definition rfc3339 :: "instant \<Rightarrow> string" where
  "rfc3339 t = date_time t @ ''Z''"

definition rfc3339_nano :: "instant \<Rightarrow> string" where
  "rfc3339_nano t =
    (let frac = trim_right (padded 9 (t mod second)) ''0'' in
     date_time t @ (if frac = [] then [] else ''.'' @ frac) @ ''Z'')"

end
