(* ===== verification/Manifest.thy ===== *)
theory Manifest
  imports Go_Time Go_Json "HOL-Library.Multiset"
begin

text \<open>
  The contract between worker and consumer, \<^verbatim>\<open>internal/manifest/manifest.go\<close>: the
  catalogue of a course as a record of entries, its keys in the store, its validation, its
  encoding and the difference of two catalogues. A nil slice of entries is \<open>None\<close>.
\<close>

section \<open>Entries and manifests\<close>

definition SchemaVersion :: int where "SchemaVersion = 1"

type_synonym entry_state = string

definition StateStored :: entry_state where "StateStored = ''stored''"
definition StateSkipped :: entry_state where "StateSkipped = ''skipped''"
definition StateLocked :: entry_state where "StateLocked = ''locked''"
definition StateFailed :: entry_state where "StateFailed = ''failed''"
definition StateDeleted :: entry_state where "StateDeleted = ''deleted''"

lemmas state_defs = StateStored_def StateSkipped_def StateLocked_def StateFailed_def StateDeleted_def

record entry =
  e_path :: string
  e_state :: entry_state
  e_size :: int
  e_mime :: string
  e_canvas_id :: int
  e_canvas_uuid :: string
  e_updated :: instant
  e_modified :: instant
  e_sha :: string
  e_reason :: string
  e_rule :: string
  e_unlock :: "instant option"
  e_deleted :: "instant option"

record manifest =
  mf_version :: int
  mf_course :: int
  mf_name :: string
  mf_code :: string
  mf_run :: string
  mf_prev_run :: string
  mf_generated :: instant
  mf_rules_hash :: string
  mf_entries :: "entry list option"

text \<open>Iterating over a nil slice visits nothing.\<close>

definition entries :: "manifest \<Rightarrow> entry list" where
  "entries m = (case mf_entries m of None \<Rightarrow> [] | Some es \<Rightarrow> es)"

section \<open>Keys\<close>

definition blob_key :: "string \<Rightarrow> string" where
  "blob_key sha = (if length sha < 4 then [] else ''blobs/sha256/'' @ slice 0 2 sha @ ''/'' @ slice 2 4 sha @ ''/'' @ sha)"

definition manifest_key :: "int \<Rightarrow> string \<Rightarrow> string" where
  "manifest_key course run_id = ''manifests/'' @ string_of_int course @ ''/'' @ run_id @ ''.json''"

definition latest_key :: "int \<Rightarrow> string" where
  "latest_key course = ''manifests/'' @ string_of_int course @ ''/latest''"

section \<open>Reading a manifest\<close>

definition live :: "manifest \<Rightarrow> entry list" where
  "live m = filter (\<lambda>e. e_state e \<noteq> StateDeleted) (entries m)"

fun index_entries :: "(string \<rightharpoonup> entry) \<Rightarrow> entry list \<Rightarrow> string \<rightharpoonup> entry" where
  "index_entries ix [] = ix"
| "index_entries ix (e # es) = index_entries (ix(e_path e \<mapsto> e)) es"

definition by_path :: "manifest \<Rightarrow> string \<rightharpoonup> entry" where
  "by_path m = index_entries Map.empty (entries m)"

definition normalize_manifest :: "manifest \<Rightarrow> manifest" where
  "normalize_manifest m = m\<lparr>mf_entries := map_option (sort_key e_path) (mf_entries m)\<rparr>"

section \<open>Validation\<close>

datatype manifest_error = Unsupported_schema int | Empty_run_id | Entries_missing | Empty_path nat
  | Unknown_state string entry_state | Duplicate_path string | Stored_no_hash string
  | Not_stored_hash string entry_state | No_reason string entry_state | Malformed

fun validate_entries :: "string set \<Rightarrow> nat \<Rightarrow> entry list \<Rightarrow> manifest_error option" where
  "validate_entries seen i [] = None"
| "validate_entries seen i (e # es) =
    (if e_path e = [] then Some (Empty_path i)
     else if e_state e \<notin> {StateStored, StateSkipped, StateLocked, StateFailed, StateDeleted}
       then Some (Unknown_state (e_path e) (e_state e))
     else if e_path e \<in> seen then Some (Duplicate_path (e_path e))
     else if e_state e = StateStored \<and> e_sha e = [] then Some (Stored_no_hash (e_path e))
     else if e_state e \<noteq> StateStored \<and> e_sha e \<noteq> [] then Some (Not_stored_hash (e_path e) (e_state e))
     else if (e_state e = StateSkipped \<or> e_state e = StateFailed) \<and> e_reason e = []
       then Some (No_reason (e_path e) (e_state e))
     else validate_entries (insert (e_path e) seen) (Suc i) es)"

definition manifest_validate :: "manifest \<Rightarrow> manifest_error option" where
  "manifest_validate m =
    (if mf_version m \<noteq> SchemaVersion then Some (Unsupported_schema (mf_version m))
     else if mf_run m = [] then Some Empty_run_id
     else case mf_entries m of None \<Rightarrow> Some Entries_missing | Some es \<Rightarrow> validate_entries {} 0 es)"

section \<open>Encoding\<close>

definition time_json :: "instant \<Rightarrow> json" where
  "time_json t = JString (rfc3339_nano t)"

definition entry_json :: "entry \<Rightarrow> json" where
  "entry_json e = JObject (
     [(''path'', JString (e_path e)), (''state'', JString (e_state e)), (''size'', JInt (e_size e))] @
     omit_empty (e_mime e = []) ''mime'' (JString (e_mime e)) @
     [(''canvas_id'', JInt (e_canvas_id e))] @
     omit_empty (e_canvas_uuid e = []) ''canvas_uuid'' (JString (e_canvas_uuid e)) @
     [(''updated_at'', time_json (e_updated e)), (''modified_at'', time_json (e_modified e))] @
     omit_empty (e_sha e = []) ''sha256'' (JString (e_sha e)) @
     omit_empty (e_reason e = []) ''reason'' (JString (e_reason e)) @
     omit_empty (e_rule e = []) ''rule_name'' (JString (e_rule e)) @
     (case e_unlock e of None \<Rightarrow> [] | Some t \<Rightarrow> [(''unlock_at'', time_json t)]) @
     (case e_deleted e of None \<Rightarrow> [] | Some t \<Rightarrow> [(''deleted_at'', time_json t)]))"

definition manifest_json :: "manifest \<Rightarrow> json" where
  "manifest_json m = JObject (
     [(''schema_version'', JInt (mf_version m)), (''course_id'', JInt (mf_course m)),
      (''course_name'', JString (mf_name m))] @
     omit_empty (mf_code m = []) ''course_code'' (JString (mf_code m)) @
     [(''run_id'', JString (mf_run m))] @
     omit_empty (mf_prev_run m = []) ''prev_run_id'' (JString (mf_prev_run m)) @
     [(''generated_at'', time_json (mf_generated m)), (''rules_hash'', JString (mf_rules_hash m)),
      (''entries'', case mf_entries m of None \<Rightarrow> JNull | Some es \<Rightarrow> JArray (map entry_json es))])"

text \<open>
  \<open>Encode\<close> also leaves its argument sorted. \<open>Decode\<close> reads JSON through the argument \<open>D\<close>,
  \<^verbatim>\<open>json.Decoder.Decode\<close> into a manifest.
\<close>

definition manifest_encode :: "manifest \<Rightarrow> manifest \<times> (manifest_error + string)" where
  "manifest_encode m =
    (let n = normalize_manifest m in
     (n, case manifest_validate n of Some e \<Rightarrow> Inl e
         | None \<Rightarrow> Inr (json_indent [CHR 0x0A] (manifest_json n) @ [CHR 0x0A])))"

definition manifest_decode :: "(string \<Rightarrow> manifest option) \<Rightarrow> string \<Rightarrow> manifest_error + manifest" where
  "manifest_decode D b =
    (case D b of None \<Rightarrow> Inl Malformed
     | Some m \<Rightarrow> (case manifest_validate m of Some e \<Rightarrow> Inl e | None \<Rightarrow> Inr m))"

section \<open>Counting and comparing\<close>

fun count_states :: "(entry_state \<Rightarrow> int) \<Rightarrow> int \<Rightarrow> entry list \<Rightarrow> (entry_state \<Rightarrow> int) \<times> int" where
  "count_states counts stored [] = (counts, stored)"
| "count_states counts stored (e # es) =
    count_states (counts(e_state e := counts (e_state e) + 1))
      (if e_state e = StateStored then stored + e_size e else stored) es"

definition manifest_counts :: "manifest \<Rightarrow> (entry_state \<Rightarrow> int) \<times> int" where
  "manifest_counts m = count_states (\<lambda>_. 0) 0 (entries m)"

datatype change_kind = ChangeAdded | ChangeRemoved | ChangeContent | ChangeState

record change =
  ch_path :: string
  ch_kind :: change_kind
  ch_from :: entry_state
  ch_to :: entry_state
  ch_from_sha :: string
  ch_to_sha :: string

definition is_live :: "entry option \<Rightarrow> bool" where
  "is_live e = (case e of None \<Rightarrow> False | Some e' \<Rightarrow> e_state e' \<noteq> StateDeleted)"

text \<open>A missing map entry reads as the zero value: its state and hash are empty.\<close>

definition state_of :: "entry option \<Rightarrow> entry_state" where
  "state_of e = (case e of None \<Rightarrow> [] | Some e' \<Rightarrow> e_state e')"

definition sha_of :: "entry option \<Rightarrow> string" where
  "sha_of e = (case e of None \<Rightarrow> [] | Some e' \<Rightarrow> e_sha e')"

definition change_of :: "string \<Rightarrow> entry option \<Rightarrow> entry \<Rightarrow> change option" where
  "change_of p ea eb =
    (if \<not> is_live ea \<and> is_live (Some eb) then
       Some \<lparr>ch_path = p, ch_kind = ChangeAdded, ch_from = state_of ea, ch_to = e_state eb, ch_from_sha = [], ch_to_sha = e_sha eb\<rparr>
     else if is_live ea \<and> \<not> is_live (Some eb) then
       Some \<lparr>ch_path = p, ch_kind = ChangeRemoved, ch_from = state_of ea, ch_to = e_state eb, ch_from_sha = sha_of ea, ch_to_sha = []\<rparr>
     else if is_live ea \<and> state_of ea \<noteq> e_state eb then
       Some \<lparr>ch_path = p, ch_kind = ChangeState, ch_from = state_of ea, ch_to = e_state eb, ch_from_sha = sha_of ea, ch_to_sha = e_sha eb\<rparr>
     else if is_live ea \<and> e_state eb = StateStored \<and> sha_of ea \<noteq> e_sha eb then
       Some \<lparr>ch_path = p, ch_kind = ChangeContent, ch_from = state_of ea, ch_to = e_state eb, ch_from_sha = sha_of ea, ch_to_sha = e_sha eb\<rparr>
     else None)"

definition removed_change :: "string \<Rightarrow> entry \<Rightarrow> change option" where
  "removed_change p ea =
    (if e_state ea \<noteq> StateDeleted then
       Some \<lparr>ch_path = p, ch_kind = ChangeRemoved, ch_from = e_state ea, ch_to = [], ch_from_sha = e_sha ea, ch_to_sha = []\<rparr>
     else None)"

text \<open>The keys of a path map, each once; the order in which Go visits them is erased by the final sort.\<close>

definition path_keys :: "entry list \<Rightarrow> string list" where
  "path_keys es = remdups (map e_path es)"

definition manifest_diff :: "manifest option \<Rightarrow> manifest \<Rightarrow> change list" where
  "manifest_diff a b =
    (let before = (case a of None \<Rightarrow> Map.empty | Some m \<Rightarrow> by_path m); after = by_path b;
         before_keys = (case a of None \<Rightarrow> [] | Some m \<Rightarrow> path_keys (entries m)) in
     sort_key ch_path
       (List.map_filter (\<lambda>p. change_of p (before p) (the (after p))) (path_keys (entries b)) @
        List.map_filter (\<lambda>p. if after p = None then removed_change p (the (before p)) else None) before_keys))"

section \<open>Lookup\<close>

lemma index_entries_map_of: "index_entries ix es = ix ++ map_of (rev (map (\<lambda>e. (e_path e, e)) es))"
  by (induction es arbitrary: ix) (auto simp: fun_eq_iff map_add_def split: option.splits)

lemma by_path_None: "by_path m p = None \<longleftrightarrow> p \<notin> e_path ` set (entries m)"
  by (force simp: by_path_def index_entries_map_of map_of_eq_None_iff)

lemma by_path_SomeD: "by_path m p = Some e \<Longrightarrow> e \<in> set (entries m) \<and> e_path e = p"
  by (auto simp: by_path_def index_entries_map_of dest: map_of_SomeD)

lemma by_path_distinct:
  "distinct (map e_path (entries m)) \<Longrightarrow> by_path m p = Some e \<longleftrightarrow> e \<in> set (entries m) \<and> e_path e = p"
  by (auto simp: by_path_def index_entries_map_of o_def rev_map distinct_map
      intro!: map_of_is_SomeI dest: map_of_SomeD)

section \<open>What validation accepts\<close>

definition entry_ok :: "entry \<Rightarrow> bool" where
  "entry_ok e \<longleftrightarrow> e_path e \<noteq> [] \<and> e_state e \<in> {StateStored, StateSkipped, StateLocked, StateFailed, StateDeleted}
     \<and> (e_state e = StateStored \<longleftrightarrow> e_sha e \<noteq> [])
     \<and> (e_reason e = [] \<longrightarrow> e_state e \<noteq> StateSkipped \<and> e_state e \<noteq> StateFailed)"

lemma validate_entries_exact:
  "validate_entries seen i es = None \<longleftrightarrow>
     list_all entry_ok es \<and> distinct (map e_path es) \<and> e_path ` set es \<inter> seen = {}"
proof (induction es arbitrary: seen i)
  case (Cons e es)
  have "validate_entries seen i (e # es) = None \<longleftrightarrow>
      entry_ok e \<and> e_path e \<notin> seen \<and> validate_entries (insert (e_path e) seen) (Suc i) es = None"
    by (auto simp: entry_ok_def)
  then show ?case by (auto simp: Cons.IH)
qed simp

definition catalogue_ok :: "entry list \<Rightarrow> bool" where
  "catalogue_ok es \<longleftrightarrow> list_all entry_ok es \<and> distinct (map e_path es)"

lemma manifest_validate_iff:
  "manifest_validate m = None \<longleftrightarrow>
     mf_version m = SchemaVersion \<and> mf_run m \<noteq> [] \<and> mf_entries m \<noteq> None \<and> catalogue_ok (entries m)"
  by (auto simp: manifest_validate_def validate_entries_exact catalogue_ok_def entries_def split: option.splits)

lemma entries_normalize: "entries (normalize_manifest m) = sort_key e_path (entries m)"
  by (simp add: entries_def normalize_manifest_def split: option.splits)

lemma sort_key_unique:
  assumes "mset xs = mset ys" and "distinct (map f xs)"
  shows "sort_key f xs = sort_key f ys"
proof (rule properties_for_sort_key)
  show "mset (sort_key f ys) = mset xs" using assms by simp
  fix k assume k: "k \<in> set (sort_key f ys)"
  have one: "filter (\<lambda>x. f k = f x) zs = [k]" if "k \<in> set zs" "distinct (map f zs)" for zs
    using that by (induction zs) (auto simp: filter_empty_conv image_iff dest: sym)
  have eq: "mset (sort_key f ys) = mset xs" using assms(1) by simp
  then have "mset (map f (sort_key f ys)) = mset (map f xs)" unfolding mset_map by (rule arg_cong)
  then have "distinct (map f (sort_key f ys))" using assms(2) mset_eq_imp_distinct_iff by blast
  moreover have "k \<in> set xs" using k mset_eq_setD [OF eq] by simp
  ultimately show "filter (\<lambda>x. f k = f x) (sort_key f ys) = filter (\<lambda>x. f k = f x) xs"
    using one [OF k] one [of xs] assms(2) by simp
qed simp

lemma catalogue_ok_perm: "mset xs = mset ys \<Longrightarrow> catalogue_ok xs \<longleftrightarrow> catalogue_ok ys"
  unfolding catalogue_ok_def list_all_iff by (metis mset_eq_imp_distinct_iff mset_eq_setD mset_map)

text \<open>
  Encode publishes exactly the well-formed catalogues and rejects every other one: it
  succeeds iff the schema version is the supported one, the run is named, the entries are
  present, every entry is consistent (a hash exactly on stored entries, a reason on skipped
  and failed ones) and the paths are distinct. What it leaves in memory is sorted by path
  and holds the same entries, and for catalogues that differ in the order of the entries
  only the text is the same.
\<close>
theorem manifest_encode_exact:
  "(is_ok (snd (manifest_encode m)) \<longleftrightarrow>
      mf_version m = SchemaVersion \<and> mf_run m \<noteq> [] \<and> mf_entries m \<noteq> None \<and> catalogue_ok (entries m))
   \<and> sorted (map e_path (entries (fst (manifest_encode m))))
   \<and> mset (entries (fst (manifest_encode m))) = mset (entries m)
   \<and> (mset es = mset (entries m) \<and> is_ok (snd (manifest_encode m))
        \<longrightarrow> manifest_encode (m\<lparr>mf_entries := Some es\<rparr>) = manifest_encode m)"
proof -
  have ok: "is_ok (snd (manifest_encode m)) \<longleftrightarrow> manifest_validate (normalize_manifest m) = None"
    by (auto simp: manifest_encode_def Let_def split: option.splits)
  have perm: "catalogue_ok (sort_key e_path (entries m)) \<longleftrightarrow> catalogue_ok (entries m)"
    by (rule catalogue_ok_perm) simp
  have iff: "is_ok (snd (manifest_encode m)) \<longleftrightarrow>
      mf_version m = SchemaVersion \<and> mf_run m \<noteq> [] \<and> mf_entries m \<noteq> None \<and> catalogue_ok (entries m)"
    unfolding ok manifest_validate_iff entries_normalize perm by (simp add: normalize_manifest_def)
  have "manifest_encode (m\<lparr>mf_entries := Some es\<rparr>) = manifest_encode m"
    if "mset es = mset (entries m)" "is_ok (snd (manifest_encode m))"
  proof -
    have "mf_entries m \<noteq> None" using that(2) unfolding iff by simp
    then obtain xs where xs: "mf_entries m = Some xs" "entries m = xs" by (auto simp: entries_def)
    then have "distinct (map e_path xs)" using that(2) unfolding iff catalogue_ok_def by simp
    then have "sort_key e_path xs = sort_key e_path es"
      using that(1) xs by (intro sort_key_unique) simp_all
    then have "normalize_manifest (m\<lparr>mf_entries := Some es\<rparr>) = normalize_manifest m"
      using xs by (cases m) (simp add: normalize_manifest_def)
    then show ?thesis by (simp add: manifest_encode_def)
  qed
  then show ?thesis
    using iff by (simp add: manifest_encode_def Let_def entries_normalize)
qed

definition sample_entry :: "string \<Rightarrow> entry" where
  "sample_entry p = \<lparr>e_path = p, e_state = StateLocked, e_size = 1, e_mime = [], e_canvas_id = 7, e_canvas_uuid = [],
     e_updated = 0, e_modified = 0, e_sha = [], e_reason = [], e_rule = [], e_unlock = None, e_deleted = None\<rparr>"

definition sample_manifest :: manifest where
  "sample_manifest = \<lparr>mf_version = 1, mf_course = 3, mf_name = ''c'', mf_code = [], mf_run = ''r1'', mf_prev_run = [],
     mf_generated = 0, mf_rules_hash = [], mf_entries = Some [sample_entry ''b'', sample_entry ''a'']\<rparr>"

lemma manifest_encode_exact_witness:
  "manifest_encode (sample_manifest\<lparr>mf_entries := Some [sample_entry ''a'', sample_entry ''b'']\<rparr>) = manifest_encode sample_manifest"
proof -
  have "entry_ok (sample_entry ''a'')" "entry_ok (sample_entry ''b'')" by (simp_all add: entry_ok_def sample_entry_def state_defs)
  then have "catalogue_ok (entries sample_manifest)"
    by (simp add: sample_manifest_def entries_def catalogue_ok_def) (simp add: sample_entry_def)
  then have "is_ok (snd (manifest_encode sample_manifest))"
    using manifest_encode_exact [of sample_manifest, THEN conjunct1]
    by (simp add: sample_manifest_def SchemaVersion_def)
  then show ?thesis
    using manifest_encode_exact [of sample_manifest "[sample_entry ''a'', sample_entry ''b'']"]
    by (simp add: sample_manifest_def entries_def add_mset_commute)
qed

section \<open>Keys\<close>

lemma course_dir_inj:
  assumes "string_of_int c @ ''/'' @ x = string_of_int c' @ ''/'' @ y"
  shows "c = c' \<and> x = y"
proof -
  have cut: "takeWhile (\<lambda>d. d \<noteq> CHR ''/'') (string_of_int i @ ''/'' @ z) = string_of_int i" for i z
    using slash_not_in_int [of i] by (subst takeWhile_append2) auto
  have "string_of_int c = string_of_int c'" using cut [of c x] cut [of c' y] assms by simp
  then show ?thesis using assms by (simp add: string_of_int_inj)
qed

text \<open>
  The keys of the store never clash: different runs or courses have different manifests,
  a manifest is never a latest pointer, a blob key names one hash, and no blob key is a
  manifest or a pointer. So write-once manifests and blobs and the one mutable pointer of a
  course never overwrite each other.
\<close>
theorem store_keys_separate:
  "(manifest_key c r = manifest_key c' r' \<longleftrightarrow> c = c' \<and> r = r')
   \<and> (latest_key c = latest_key c' \<longleftrightarrow> c = c')
   \<and> manifest_key c r \<noteq> latest_key c'
   \<and> (blob_key h = blob_key h' \<longleftrightarrow> h = h' \<or> length h < 4 \<and> length h' < 4)
   \<and> blob_key h \<noteq> manifest_key c r \<and> blob_key h \<noteq> latest_key c"
proof -
  have json: "x @ ''.json'' \<noteq> ''latest''" for x :: string
  proof
    assume "x @ ''.json'' = ''latest''"
    then have "last (x @ ''.json'') = last ''latest''" by (rule arg_cong)
    then show False by simp
  qed
  have blob: "drop 19 (blob_key x) = x \<and> hd (blob_key x) = CHR ''b''" if "4 \<le> length x" for x
    using that by (simp add: blob_key_def slice_def)
  have short: "blob_key x = []" if "length x < 4" for x using that by (simp add: blob_key_def)
  have "blob_key h = blob_key h' \<longleftrightarrow> h = h' \<or> length h < 4 \<and> length h' < 4"
    using blob [of h] blob [of h'] short [of h] short [of h'] by (metis drop_Nil le0 le_zero_eq list.size(3) not_le)
  moreover have "hd (manifest_key c r) = CHR ''m''" "hd (latest_key c) = CHR ''m''" "manifest_key c r \<noteq> []" "latest_key c \<noteq> []"
    by (simp_all add: manifest_key_def latest_key_def)
  then have "blob_key h \<noteq> manifest_key c r \<and> blob_key h \<noteq> latest_key c"
    using blob [of h] short [of h] by (cases "4 \<le> length h") auto
  moreover have "manifest_key c r = manifest_key c' r' \<longleftrightarrow> c = c' \<and> r = r'"
    using course_dir_inj [of c "r @ ''.json''" c' "r' @ ''.json''"] by (auto simp: manifest_key_def)
  moreover have "latest_key c = latest_key c' \<longleftrightarrow> c = c'"
    using course_dir_inj [of c "''latest''" c' "''latest''"] by (auto simp: latest_key_def)
  moreover have "manifest_key c r \<noteq> latest_key c'"
    using course_dir_inj [of c "r @ ''.json''" c' "''latest''"] json [of r] by (auto simp: manifest_key_def latest_key_def)
  ultimately show ?thesis by blast
qed

section \<open>The difference of two catalogues\<close>

definition lookup_opt :: "manifest option \<Rightarrow> string \<Rightarrow> entry option" where
  "lookup_opt a p = (case a of None \<Rightarrow> None | Some m \<Rightarrow> by_path m p)"

text \<open>The reference: what a change from one entry to another at the same path is called.\<close>

definition change_between :: "string \<Rightarrow> entry option \<Rightarrow> entry option \<Rightarrow> change option" where
  "change_between p ea eb =
    (let mk = (\<lambda>k fs ts. Some \<lparr>ch_path = p, ch_kind = k, ch_from = state_of ea, ch_to = state_of eb,
                 ch_from_sha = fs, ch_to_sha = ts\<rparr>) in
     if \<not> is_live ea \<and> is_live eb then mk ChangeAdded [] (sha_of eb)
     else if is_live ea \<and> \<not> is_live eb then mk ChangeRemoved (sha_of ea) []
     else if is_live ea \<and> is_live eb \<and> state_of ea \<noteq> state_of eb then mk ChangeState (sha_of ea) (sha_of eb)
     else if is_live ea \<and> is_live eb \<and> state_of eb = StateStored \<and> sha_of ea \<noteq> sha_of eb
       then mk ChangeContent (sha_of ea) (sha_of eb)
     else None)"

lemma change_of_between: "change_of p ea eb = change_between p ea (Some eb)"
  by (auto simp: change_of_def change_between_def state_of_def sha_of_def is_live_def Let_def)

lemma removed_change_between: "removed_change p ea = change_between p (Some ea) None"
  by (auto simp: removed_change_def change_between_def state_of_def sha_of_def is_live_def Let_def)

lemma change_between_path: "change_between p ea eb = Some c \<Longrightarrow> ch_path c = p"
  by (auto simp: change_between_def Let_def split: if_splits)

lemma change_between_None [simp]: "change_between p None None = None"
  by (simp add: change_between_def is_live_def)

definition diff_keys :: "manifest option \<Rightarrow> manifest \<Rightarrow> string list" where
  "diff_keys a b = path_keys (entries b) @
     filter (\<lambda>p. by_path b p = None) (case a of None \<Rightarrow> [] | Some m \<Rightarrow> path_keys (entries m))"

lemma map_filter_if: "List.map_filter (\<lambda>p. if P p then f p else None) xs = List.map_filter f (filter P xs)"
  by (induction xs) (simp_all add: List.map_filter_simps split: option.splits)

lemma map_filter_cong_set: "(\<And>x. x \<in> set xs \<Longrightarrow> f x = g x) \<Longrightarrow> List.map_filter f xs = List.map_filter g xs"
  by (induction xs) (auto simp: List.map_filter_simps split: option.splits)

lemma map_filter_append: "List.map_filter f (xs @ ys) = List.map_filter f xs @ List.map_filter f ys"
  by (induction xs) (auto simp: List.map_filter_simps split: option.splits)

lemma manifest_diff_between:
  "manifest_diff a b = sort_key ch_path
     (List.map_filter (\<lambda>p. change_between p (lookup_opt a p) (by_path b p)) (diff_keys a b))"
proof -
  have one: "List.map_filter (\<lambda>p. change_of p (lookup_opt a p) (the (by_path b p))) (path_keys (entries b))
      = List.map_filter (\<lambda>p. change_between p (lookup_opt a p) (by_path b p)) (path_keys (entries b))"
    by (rule map_filter_cong_set) (auto simp: change_of_between path_keys_def, metis by_path_None imageI option.exhaust_sel)
  have two: "List.map_filter (\<lambda>p. removed_change p (the (by_path m p))) (filter (\<lambda>p. by_path b p = None) (path_keys (entries m)))
      = List.map_filter (\<lambda>p. change_between p (by_path m p) (by_path b p)) (filter (\<lambda>p. by_path b p = None) (path_keys (entries m)))" for m
    by (rule map_filter_cong_set) (auto simp: removed_change_between path_keys_def, metis by_path_None imageI option.exhaust_sel)
  show ?thesis
    using one by (cases a)
      (simp_all add: manifest_diff_def diff_keys_def Let_def map_filter_if map_filter_append lookup_opt_def two)
qed

lemma diff_keys_set: "p \<in> set (diff_keys a b) \<longleftrightarrow> lookup_opt a p \<noteq> None \<or> by_path b p \<noteq> None"
  by (cases a) (auto simp: diff_keys_def path_keys_def lookup_opt_def by_path_None)

lemma diff_keys_distinct: "distinct (diff_keys a b)"
  by (cases a) (auto simp: diff_keys_def path_keys_def by_path_None)

lemma map_filter_paths:
  "(\<And>p c. f p = Some c \<Longrightarrow> ch_path c = p) \<Longrightarrow> map ch_path (List.map_filter f ps) = filter (\<lambda>p. f p \<noteq> None) ps"
  by (induction ps) (auto simp: List.map_filter_simps split: option.splits)

text \<open>
  Diff lists exactly the changes between two catalogues: one change for every path
  whose entry became live, stopped being live, changed its state or its bytes, named by
  what happened, with the old and new states and hashes, each path once and in the order of
  the paths. A missing first catalogue counts as empty.
\<close>
theorem manifest_diff_exact:
  "sorted (map ch_path (manifest_diff a b)) \<and> distinct (map ch_path (manifest_diff a b))
   \<and> set (manifest_diff a b) = {c. change_between (ch_path c) (lookup_opt a (ch_path c)) (by_path b (ch_path c)) = Some c}"
proof -
  define f where "f p = change_between p (lookup_opt a p) (by_path b p)" for p
  define cs where "cs = List.map_filter f (diff_keys a b)"
  have diff: "manifest_diff a b = sort_key ch_path cs"
    by (simp add: manifest_diff_between cs_def f_def [abs_def])
  have "map ch_path cs = filter (\<lambda>p. f p \<noteq> None) (diff_keys a b)"
    unfolding cs_def by (rule map_filter_paths) (auto simp: f_def dest: change_between_path)
  then have "distinct (map ch_path cs)" using diff_keys_distinct by simp
  moreover have "mset (map ch_path (sort_key ch_path cs)) = mset (map ch_path cs)" by simp
  ultimately have dist: "distinct (map ch_path (sort_key ch_path cs))" by (metis mset_eq_imp_distinct_iff)
  have "c \<in> set cs \<longleftrightarrow> f (ch_path c) = Some c" for c
  proof
    assume "c \<in> set cs"
    then show "f (ch_path c) = Some c"
      unfolding cs_def List.map_filter_def f_def using change_between_path by fastforce
  next
    assume c: "f (ch_path c) = Some c"
    then have "ch_path c \<in> set (diff_keys a b)"
      unfolding diff_keys_set f_def by (metis change_between_None option.distinct(1))
    then show "c \<in> set cs" using c unfolding cs_def List.map_filter_def by force
  qed
  then show ?thesis using dist by (auto simp: diff f_def)
qed

end
