(* ===== verification/Plan.thy ===== *)
theory Plan
  imports Policy Scope Manifest
begin

text \<open>
  The differ, \<^verbatim>\<open>internal/plan/plan.go\<close>: the previous manifest, the current Canvas
  listing and the rules give the plan of a run. Go's maps from paths to booleans are
  functions that are False where no key is set.
\<close>

section \<open>Inputs and plans\<close>

definition ScopeRule :: string where "ScopeRule = ''obsync:pull-scope''"

record plan_file =
  pf_path :: string
  pf_canvas_id :: int
  pf_canvas_uuid :: string
  pf_size :: int
  pf_mime :: string
  pf_updated :: instant
  pf_modified :: instant
  pf_locked :: bool
  pf_unlock :: "instant option"
  pf_note :: string

record overrides =
  o_include :: "string \<Rightarrow> bool"
  o_exclude :: "string \<Rightarrow> bool"

definition override_decide :: "overrides \<Rightarrow> string \<Rightarrow> policy_action option" where
  "override_decide ov p =
    (if o_exclude ov p then Some action_skip
     else if o_include ov p then Some action_include
     else None)"

record fetch =
  ft_file :: plan_file
  ft_why :: string
  ft_prev :: "entry option"

record plan =
  pl_fetch :: "fetch list"
  pl_carry :: "entry list"
  pl_skipped :: "entry list"
  pl_locked :: "entry list"
  pl_tombstone :: "entry list"
  pl_out_of_scope :: "entry list"
  pl_duplicates :: "int list"

record plan_input =
  in_course :: int
  in_prev :: "manifest option"
  in_files :: "plan_file list"
  in_policy :: policy
  in_overrides :: overrides
  in_scope :: scope
  in_now :: instant

section \<open>Duplicates and collisions\<close>

definition newer :: "plan_file \<Rightarrow> plan_file \<Rightarrow> bool" where
  "newer f cur \<longleftrightarrow> pf_updated f > pf_updated cur \<or> pf_updated f = pf_updated cur \<and> pf_size f > pf_size cur"

fun dedupe_loop :: "(int \<rightharpoonup> nat) \<Rightarrow> plan_file list \<Rightarrow> int list \<Rightarrow> plan_file list \<Rightarrow> plan_file list \<times> int list" where
  "dedupe_loop idx out dups [] = (out, dups)"
| "dedupe_loop idx out dups (f # fs) =
    (case idx (pf_canvas_id f) of
       None \<Rightarrow> dedupe_loop (idx(pf_canvas_id f \<mapsto> length out)) (out @ [f]) dups fs
     | Some i \<Rightarrow> dedupe_loop idx (if newer f (out ! i) then out[i := f] else out) (dups @ [pf_canvas_id f]) fs)"

definition dedupe :: "plan_file list \<Rightarrow> plan_file list \<times> int list" where
  "dedupe files = (let r = dedupe_loop Map.empty [] [] files in (fst r, sort (snd r)))"

definition file_key :: "unicode_tables \<Rightarrow> plan_file \<Rightarrow> string" where
  "file_key U f = collision_key U (pf_path f)"

definition collides :: "unicode_tables \<Rightarrow> plan_file list \<Rightarrow> plan_file \<Rightarrow> bool" where
  "collides U fs f \<longleftrightarrow> length (filter (\<lambda>g. file_key U g = file_key U f) fs) > 1"

definition suffixed :: "plan_file \<Rightarrow> plan_file" where
  "suffixed f = f\<lparr>pf_path := disambiguate (pf_path f) (pf_canvas_id f)\<rparr>"

fun disambiguate_rounds :: "unicode_tables \<Rightarrow> nat \<Rightarrow> plan_file list \<Rightarrow> plan_file list" where
  "disambiguate_rounds U 0 fs = fs"
| "disambiguate_rounds U (Suc n) fs =
    (if list_ex (collides U fs) fs
     then disambiguate_rounds U n (map (\<lambda>f. if collides U fs f then suffixed f else f) fs)
     else fs)"

definition disambiguate_files :: "unicode_tables \<Rightarrow> plan_file list \<Rightarrow> plan_file list" where
  "disambiguate_files U files = disambiguate_rounds U 4 files"

section \<open>Entries and reasons\<close>

definition skipped_entry :: "plan_file \<Rightarrow> string \<Rightarrow> string \<Rightarrow> entry" where
  "skipped_entry f rule why =
    \<lparr>e_path = pf_path f, e_state = StateSkipped, e_size = pf_size f, e_mime = pf_mime f, e_canvas_id = pf_canvas_id f,
     e_canvas_uuid = pf_canvas_uuid f, e_updated = pf_updated f, e_modified = pf_modified f, e_sha = [],
     e_reason = why, e_rule = rule, e_unlock = None, e_deleted = None\<rparr>"

definition locked_entry :: "plan_file \<Rightarrow> entry" where
  "locked_entry f =
    \<lparr>e_path = pf_path f, e_state = StateLocked, e_size = pf_size f, e_mime = pf_mime f, e_canvas_id = pf_canvas_id f,
     e_canvas_uuid = pf_canvas_uuid f, e_updated = pf_updated f, e_modified = pf_modified f, e_sha = [],
     e_reason = ''locked in Canvas'', e_rule = [], e_unlock = pf_unlock f, e_deleted = None\<rparr>"

definition unchanged :: "entry \<Rightarrow> plan_file \<Rightarrow> bool" where
  "unchanged prev f \<longleftrightarrow> e_canvas_id prev = pf_canvas_id f \<and> e_size prev = pf_size f
     \<and> e_updated prev = pf_updated f \<and> e_modified prev = pf_modified f"

definition out_of_scope :: "plan_file \<Rightarrow> entry option \<Rightarrow> entry" where
  "out_of_scope f prev =
    (case prev of
       Some e \<Rightarrow> if e_state e = StateStored \<or> e_state e = StateFailed then e
         else skipped_entry f ScopeRule ''outside the scope of a manual pull; the next full pull fetches it''
     | None \<Rightarrow> skipped_entry f ScopeRule ''outside the scope of a manual pull; the next full pull fetches it'')"

definition why_changed :: "entry \<Rightarrow> plan_file \<Rightarrow> string list" where
  "why_changed prev f =
    (if e_size prev \<noteq> pf_size f then [''size '' @ string_of_int (e_size prev) @ '' -> '' @ string_of_int (pf_size f)] else []) @
    (if e_updated prev \<noteq> pf_updated f then [''updated_at '' @ rfc3339 (e_updated prev) @ '' -> '' @ rfc3339 (pf_updated f)] else []) @
    (if e_modified prev \<noteq> pf_modified f then [''modified_at '' @ rfc3339 (e_modified prev) @ '' -> '' @ rfc3339 (pf_modified f)] else [])"

definition why :: "plan_file \<Rightarrow> entry option \<Rightarrow> string" where
  "why f prev =
    (case prev of None \<Rightarrow> ''new file''
     | Some e \<Rightarrow>
       if e_state e = StateStored then
         (if e_canvas_id e \<noteq> pf_canvas_id f then
            ''re-uploaded in Canvas (canvas id '' @ string_of_int (e_canvas_id e) @ '' -> '' @ string_of_int (pf_canvas_id f) @ '')''
          else ''changed in Canvas: '' @ join_with '', '' (why_changed e f))
       else if e_state e = StateFailed then ''retrying previous failure: '' @ e_reason e
       else if e_state e = StateSkipped then
         (if e_rule e = ScopeRule then ''deferred by an earlier scoped pull'' else ''previously skipped, now included'')
       else if e_state e = StateLocked then ''unlocked in Canvas''
       else if e_state e = StateDeleted then ''reappeared in Canvas after deletion''
       else ''previous state '' @ e_state e)"

section \<open>Compute\<close>

definition decide_file :: "unicode_tables \<Rightarrow> plan_input \<Rightarrow> plan_file \<Rightarrow> policy_decision" where
  "decide_file U inp f =
    (case override_decide (in_overrides inp) (pf_path f) of
       Some a \<Rightarrow> \<lparr>d_action = a, d_rule = [], d_reason = ''user override''\<rparr>
     | None \<Rightarrow> evaluate U (in_policy inp)
         \<lparr>c_path = pf_path f, c_size = pf_size f, c_mime = pf_mime f, c_course = in_course inp\<rparr>)"

definition prev_at :: "plan_input \<Rightarrow> string \<Rightarrow> entry option" where
  "prev_at inp p = (case in_prev inp of None \<Rightarrow> None | Some m \<Rightarrow> by_path m p)"

definition place_file :: "unicode_tables \<Rightarrow> plan_input \<Rightarrow> plan \<Rightarrow> plan_file \<Rightarrow> plan" where
  "place_file U inp p f =
    (let prev = prev_at inp (pf_path f); d = decide_file U inp f in
     if pf_locked f then p\<lparr>pl_locked := pl_locked p @ [locked_entry f]\<rparr>
     else if d_action d = action_skip then p\<lparr>pl_skipped := pl_skipped p @ [skipped_entry f (d_rule d) (d_reason d)]\<rparr>
     else case prev of
       Some e \<Rightarrow> if e_state e = StateStored \<and> unchanged e f then p\<lparr>pl_carry := pl_carry p @ [e]\<rparr>
         else if \<not> scope_contains U (in_scope inp) (pf_path f)
           then p\<lparr>pl_out_of_scope := pl_out_of_scope p @ [out_of_scope f prev]\<rparr>
         else p\<lparr>pl_fetch := pl_fetch p @ [\<lparr>ft_file = f, ft_why = why f prev, ft_prev = prev\<rparr>]\<rparr>
     | None \<Rightarrow> if \<not> scope_contains U (in_scope inp) (pf_path f)
           then p\<lparr>pl_out_of_scope := pl_out_of_scope p @ [out_of_scope f prev]\<rparr>
         else p\<lparr>pl_fetch := pl_fetch p @ [\<lparr>ft_file = f, ft_why = why f prev, ft_prev = prev\<rparr>]\<rparr>)"

definition tombstone :: "instant \<Rightarrow> entry \<Rightarrow> entry" where
  "tombstone now e = e\<lparr>e_state := StateDeleted, e_sha := [], e_rule := [], e_deleted := Some now,
     e_reason := ''no longer present in Canvas (was '' @ e_state e @ '')''\<rparr>"

definition place_absent :: "plan_input \<Rightarrow> string set \<Rightarrow> plan \<Rightarrow> entry \<Rightarrow> plan" where
  "place_absent inp seen p e =
    (if e_path e \<in> seen then p
     else if e_state e = StateDeleted then p\<lparr>pl_carry := pl_carry p @ [e]\<rparr>
     else p\<lparr>pl_tombstone := pl_tombstone p @ [tombstone (in_now inp) e]\<rparr>)"

definition empty_plan :: plan where
  "empty_plan = \<lparr>pl_fetch = [], pl_carry = [], pl_skipped = [], pl_locked = [], pl_tombstone = [],
     pl_out_of_scope = [], pl_duplicates = []\<rparr>"

definition plan_files :: "unicode_tables \<Rightarrow> plan_input \<Rightarrow> plan_file list" where
  "plan_files U inp = disambiguate_files U (fst (dedupe (in_files inp)))"

definition compute :: "unicode_tables \<Rightarrow> plan_input \<Rightarrow> plan" where
  "compute U inp =
    (let files = plan_files U inp;
         p = foldl (place_file U inp) (empty_plan\<lparr>pl_duplicates := snd (dedupe (in_files inp))\<rparr>) files
     in case in_prev inp of None \<Rightarrow> p
        | Some m \<Rightarrow> foldl (place_absent inp (pf_path ` set files)) p (entries m))"

definition plan_paths :: "plan \<Rightarrow> string list" where
  "plan_paths p = map (\<lambda>ft. pf_path (ft_file ft)) (pl_fetch p) @
     map e_path (filter (\<lambda>e. e_state e \<noteq> StateDeleted) (pl_carry p @ pl_skipped p @ pl_locked p @ pl_out_of_scope p))"

section \<open>The plan as a classification\<close>

text \<open>The reference: each file belongs to one group, by conditions on that file alone.\<close>

definition wanted :: "unicode_tables \<Rightarrow> plan_input \<Rightarrow> plan_file \<Rightarrow> bool" where
  "wanted U inp f \<longleftrightarrow> \<not> pf_locked f \<and> d_action (decide_file U inp f) \<noteq> action_skip"

definition refused :: "unicode_tables \<Rightarrow> plan_input \<Rightarrow> plan_file \<Rightarrow> bool" where
  "refused U inp f \<longleftrightarrow> \<not> pf_locked f \<and> d_action (decide_file U inp f) = action_skip"

definition has_bytes :: "plan_input \<Rightarrow> plan_file \<Rightarrow> bool" where
  "has_bytes inp f \<longleftrightarrow> (case prev_at inp (pf_path f) of None \<Rightarrow> False
     | Some e \<Rightarrow> e_state e = StateStored \<and> unchanged e f)"

definition in_reach :: "unicode_tables \<Rightarrow> plan_input \<Rightarrow> plan_file \<Rightarrow> bool" where
  "in_reach U inp f \<longleftrightarrow> scope_contains U (in_scope inp) (pf_path f)"

definition fetch_of :: "plan_input \<Rightarrow> plan_file \<Rightarrow> fetch" where
  "fetch_of inp f = \<lparr>ft_file = f, ft_why = why f (prev_at inp (pf_path f)), ft_prev = prev_at inp (pf_path f)\<rparr>"

definition skip_of :: "unicode_tables \<Rightarrow> plan_input \<Rightarrow> plan_file \<Rightarrow> entry" where
  "skip_of U inp f = skipped_entry f (d_rule (decide_file U inp f)) (d_reason (decide_file U inp f))"

definition absent :: "unicode_tables \<Rightarrow> plan_input \<Rightarrow> entry list" where
  "absent U inp = (case in_prev inp of None \<Rightarrow> []
     | Some m \<Rightarrow> filter (\<lambda>e. e_path e \<notin> pf_path ` set (plan_files U inp)) (entries m))"

definition classification :: "unicode_tables \<Rightarrow> plan_input \<Rightarrow> plan" where
  "classification U inp = (let files = plan_files U inp in
    \<lparr>pl_fetch = map (fetch_of inp) (filter (\<lambda>f. wanted U inp f \<and> \<not> has_bytes inp f \<and> in_reach U inp f) files),
     pl_carry = map (\<lambda>f. the (prev_at inp (pf_path f))) (filter (\<lambda>f. wanted U inp f \<and> has_bytes inp f) files)
       @ filter (\<lambda>e. e_state e = StateDeleted) (absent U inp),
     pl_skipped = map (skip_of U inp) (filter (refused U inp) files),
     pl_locked = map locked_entry (filter pf_locked files),
     pl_tombstone = map (tombstone (in_now inp)) (filter (\<lambda>e. e_state e \<noteq> StateDeleted) (absent U inp)),
     pl_out_of_scope = map (\<lambda>f. out_of_scope f (prev_at inp (pf_path f)))
       (filter (\<lambda>f. wanted U inp f \<and> \<not> has_bytes inp f \<and> \<not> in_reach U inp f) files),
     pl_duplicates = snd (dedupe (in_files inp))\<rparr>)"

lemma place_file_cases:
  "place_file U inp p f =
    (if pf_locked f then p\<lparr>pl_locked := pl_locked p @ [locked_entry f]\<rparr>
     else if refused U inp f then p\<lparr>pl_skipped := pl_skipped p @ [skip_of U inp f]\<rparr>
     else if has_bytes inp f then p\<lparr>pl_carry := pl_carry p @ [the (prev_at inp (pf_path f))]\<rparr>
     else if \<not> in_reach U inp f then p\<lparr>pl_out_of_scope := pl_out_of_scope p @ [out_of_scope f (prev_at inp (pf_path f))]\<rparr>
     else p\<lparr>pl_fetch := pl_fetch p @ [fetch_of inp f]\<rparr>)"
  by (cases "prev_at inp (pf_path f)")
    (simp_all add: place_file_def Let_def refused_def has_bytes_def in_reach_def fetch_of_def skip_of_def)

lemma place_files:
  "foldl (place_file U inp) p files = p\<lparr>
     pl_fetch := pl_fetch p @ map (fetch_of inp) (filter (\<lambda>f. wanted U inp f \<and> \<not> has_bytes inp f \<and> in_reach U inp f) files),
     pl_carry := pl_carry p @ map (\<lambda>f. the (prev_at inp (pf_path f))) (filter (\<lambda>f. wanted U inp f \<and> has_bytes inp f) files),
     pl_skipped := pl_skipped p @ map (skip_of U inp) (filter (refused U inp) files),
     pl_locked := pl_locked p @ map locked_entry (filter pf_locked files),
     pl_out_of_scope := pl_out_of_scope p @ map (\<lambda>f. out_of_scope f (prev_at inp (pf_path f)))
       (filter (\<lambda>f. wanted U inp f \<and> \<not> has_bytes inp f \<and> \<not> in_reach U inp f) files)\<rparr>"
proof (induction files arbitrary: p)
  case (Cons f files)
  have w: "wanted U inp f \<longleftrightarrow> \<not> pf_locked f \<and> \<not> refused U inp f" "refused U inp f \<longrightarrow> \<not> pf_locked f"
    by (auto simp: wanted_def refused_def)
  show ?case
    unfolding foldl_Cons Cons.IH place_file_cases [of U inp p f] using w by (cases "pf_locked f"; cases "refused U inp f"; cases "has_bytes inp f"; cases "in_reach U inp f") simp_all
qed simp

lemma place_absents:
  "foldl (place_absent inp seen) p es = p\<lparr>
     pl_carry := pl_carry p @ filter (\<lambda>e. e_path e \<notin> seen \<and> e_state e = StateDeleted) es,
     pl_tombstone := pl_tombstone p @ map (tombstone (in_now inp)) (filter (\<lambda>e. e_path e \<notin> seen \<and> e_state e \<noteq> StateDeleted) es)\<rparr>"
  by (induction es arbitrary: p) (simp_all add: place_absent_def)

lemma compute_eq: "compute U inp = classification U inp"
  by (cases "in_prev inp")
    (simp_all add: compute_def classification_def absent_def place_files place_absents empty_plan_def Let_def
      filter_filter conj_commute)

end
