(* ===== verification/Plan_Correct.thy ===== *)
theory Plan_Correct
  imports Plan
begin

text \<open>
  What a plan guarantees: it is the documented classification, it catalogues every listed
  file and every path of the previous manifest exactly once, its entries form a valid
  manifest, a scope only defers downloads, and a run that fetched everything is followed by
  one that fetches nothing. Also what deduplication and collision handling guarantee.
\<close>

section \<open>Classification\<close>

text \<open>
  C23: Compute is the classification it is documented to be: locked files first, then files
  the rules or a user override refuse, then files whose stored bytes are unchanged, then
  files outside the scope, and the rest is fetched with its reason and its previous entry;
  what the previous manifest had and Canvas no longer lists is carried if it was a
  tombstone and becomes one otherwise.
\<close>
theorem compute_classifies: "compute U inp = classification U inp"
  by (rule compute_eq)

section \<open>Nothing disappears\<close>

lemma prev_at_SomeD: "prev_at inp p = Some e \<Longrightarrow> e_path e = p"
  by (auto simp: prev_at_def dest: by_path_SomeD split: option.splits)

lemma has_bytesE:
  assumes "has_bytes inp f"
  obtains e where "prev_at inp (pf_path f) = Some e" "e_state e = StateStored" "unchanged e f"
  using assms by (auto simp: has_bytes_def split: option.splits)

lemma entry_paths [simp]:
  "e_path (skipped_entry f r w) = pf_path f" "e_path (locked_entry f) = pf_path f" "e_path (skip_of U inp f) = pf_path f"
  "e_path (tombstone now e) = e_path e" "ft_file (fetch_of inp f) = f"
  by (simp_all add: skipped_entry_def locked_entry_def skip_of_def tombstone_def fetch_of_def)

lemma entry_states [simp]:
  "e_state (skipped_entry f r w) = StateSkipped" "e_state (locked_entry f) = StateLocked" "e_state (skip_of U inp f) = StateSkipped"
  "e_state (tombstone now e) = StateDeleted"
  by (simp_all add: skipped_entry_def locked_entry_def skip_of_def tombstone_def)

lemma states_distinct [simp]:
  "StateStored \<noteq> StateDeleted" "StateSkipped \<noteq> StateDeleted" "StateLocked \<noteq> StateDeleted" "StateFailed \<noteq> StateDeleted"
  "StateSkipped \<noteq> StateStored" "StateLocked \<noteq> StateStored" "StateFailed \<noteq> StateStored" "StateDeleted \<noteq> StateStored"
  "StateLocked \<noteq> StateSkipped" "StateLocked \<noteq> StateFailed" "StateDeleted \<noteq> StateSkipped" "StateDeleted \<noteq> StateFailed"
  by (simp_all add: state_defs)

lemma out_of_scope_entry:
  "prev_at inp (pf_path f) = prev \<Longrightarrow> e_path (out_of_scope f prev) = pf_path f"
  "e_state (out_of_scope f prev) \<noteq> StateDeleted"
  by (auto simp: out_of_scope_def dest: prev_at_SomeD split: option.splits)

lemma carried_entry:
  "has_bytes inp f \<Longrightarrow> e_path (the (prev_at inp (pf_path f))) = pf_path f"
  "has_bytes inp f \<Longrightarrow> e_state (the (prev_at inp (pf_path f))) = StateStored"
  by (auto elim!: has_bytesE dest: prev_at_SomeD)

lemma map_filter_partition:
  "mset (map g (filter P xs)) + mset (map g (filter (\<lambda>x. \<not> P x) xs)) = mset (map g xs)"
  by (induction xs) auto

definition groups :: "plan \<Rightarrow> entry list" where
  "groups p = pl_carry p @ pl_skipped p @ pl_locked p @ pl_tombstone p @ pl_out_of_scope p"

definition catalogued :: "plan \<Rightarrow> string list" where
  "catalogued p = map (\<lambda>ft. pf_path (ft_file ft)) (pl_fetch p) @ map e_path (groups p)"

lemma files_partition:
  "mset (map g (filter (\<lambda>f. wanted U inp f \<and> \<not> has_bytes inp f \<and> in_reach U inp f) fs)) +
   mset (map g (filter (\<lambda>f. wanted U inp f \<and> has_bytes inp f) fs)) +
   mset (map g (filter (refused U inp) fs)) + mset (map g (filter pf_locked fs)) +
   mset (map g (filter (\<lambda>f. wanted U inp f \<and> \<not> has_bytes inp f \<and> \<not> in_reach U inp f) fs)) = mset (map g fs)"
  by (induction fs) (auto simp: wanted_def refused_def)

lemma map_paths_cong: "(\<And>f. f \<in> set fs \<Longrightarrow> P f \<Longrightarrow> e_path (h f) = pf_path f) \<Longrightarrow> map e_path (map h (filter P fs)) = map pf_path (filter P fs)"
  by (induction fs) auto

lemma plan_paths_eq:
  "mset (catalogued (compute U inp)) = mset (map pf_path (plan_files U inp)) + mset (map e_path (absent U inp))
   \<and> mset (plan_paths (compute U inp)) = mset (map pf_path (plan_files U inp))"
proof -
  let ?fs = "plan_files U inp"
  note eqs = map_paths_cong [of ?fs "\<lambda>f. wanted U inp f \<and> has_bytes inp f" "\<lambda>f. the (prev_at inp (pf_path f))"]
    map_paths_cong [of ?fs "\<lambda>f. wanted U inp f \<and> \<not> has_bytes inp f \<and> \<not> in_reach U inp f" "\<lambda>f. out_of_scope f (prev_at inp (pf_path f))"]
  have carry: "map e_path (map (\<lambda>f. the (prev_at inp (pf_path f))) (filter (\<lambda>f. wanted U inp f \<and> has_bytes inp f) ?fs))
      = map pf_path (filter (\<lambda>f. wanted U inp f \<and> has_bytes inp f) ?fs)"
    by (rule map_paths_cong) (simp add: carried_entry)
  have oos: "map e_path (map (\<lambda>f. out_of_scope f (prev_at inp (pf_path f))) (filter (\<lambda>f. wanted U inp f \<and> \<not> has_bytes inp f \<and> \<not> in_reach U inp f) ?fs))
      = map pf_path (filter (\<lambda>f. wanted U inp f \<and> \<not> has_bytes inp f \<and> \<not> in_reach U inp f) ?fs)"
    by (rule map_paths_cong) (simp add: out_of_scope_entry)
  have gone: "mset (map e_path (filter (\<lambda>e. e_state e = StateDeleted) (absent U inp)))
      + mset (map e_path (filter (\<lambda>e. e_state e \<noteq> StateDeleted) (absent U inp))) = mset (map e_path (absent U inp))"
    by (rule map_filter_partition)
  note carry' = carry [unfolded map_map o_def] and oos' = oos [unfolded map_map o_def]
  have "mset (catalogued (compute U inp)) = mset (map pf_path ?fs) + mset (map e_path (absent U inp))"
    unfolding files_partition [of pf_path U inp ?fs, symmetric] gone [symmetric]
    by (simp add: compute_eq classification_def Let_def catalogued_def groups_def o_def carry' oos' add.assoc add.commute add.left_commute)
  moreover have "mset (plan_paths (compute U inp)) = mset (map pf_path ?fs)"
  proof -
    have live: "filter (\<lambda>e. e_state e \<noteq> StateDeleted) (map h (filter P fs)) = map h (filter P fs)"
      if "\<And>f. P f \<Longrightarrow> e_state (h f) \<noteq> StateDeleted" for h P and fs :: "plan_file list"
      using that by (induction fs) auto
    have dead: "filter (\<lambda>e. e_state e \<noteq> StateDeleted) (filter (\<lambda>e. e_state e = StateDeleted) es) = []" for es
      by (induction es) auto
    show ?thesis
      unfolding files_partition [of pf_path U inp ?fs, symmetric]
      by (simp add: compute_eq classification_def Let_def plan_paths_def o_def carry' oos' live dead carried_entry out_of_scope_entry add.assoc add.commute add.left_commute
          del: filter_filter)
  qed
  ultimately show ?thesis by simp
qed

lemmas plan_paths_all = plan_paths_eq [THEN conjunct1]

text \<open>
  C24: The plan is a complete catalogue and nothing ever disappears: the paths of all groups
  together are, with multiplicity, the paths of the resolved Canvas listing plus the paths
  of the previous manifest that the listing no longer has; and \<open>Paths\<close>, which leaves
  tombstones out, is exactly the listing.
\<close>
theorem plan_complete:
  "mset (catalogued (compute U inp)) = mset (map pf_path (plan_files U inp)) + mset (map e_path (absent U inp))
   \<and> mset (plan_paths (compute U inp)) = mset (map pf_path (plan_files U inp))"
  by (rule plan_paths_eq)

section \<open>The published manifest is valid\<close>

lemma describe_nonempty: "describe U r c \<noteq> []"
  by (simp add: describe_def)

lemma decide_reason_nonempty: "d_reason (decide_file U inp f) \<noteq> []"
  by (simp add: decide_file_def evaluate_def describe_nonempty split: option.splits)

lemma skipped_entry_ok: "pf_path f \<noteq> [] \<Longrightarrow> w \<noteq> [] \<Longrightarrow> entry_ok (skipped_entry f r w)"
  by (simp add: entry_ok_def skipped_entry_def)

lemma locked_entry_ok: "pf_path f \<noteq> [] \<Longrightarrow> entry_ok (locked_entry f)"
  by (simp add: entry_ok_def locked_entry_def)

lemma tombstone_ok: "entry_ok e \<Longrightarrow> entry_ok (tombstone now e)"
  by (simp add: entry_ok_def tombstone_def)

definition prev_ok :: "plan_input \<Rightarrow> bool" where
  "prev_ok inp \<longleftrightarrow> (case in_prev inp of None \<Rightarrow> True | Some m \<Rightarrow> manifest_validate m = None)"

lemma prev_entry_ok: "prev_ok inp \<Longrightarrow> prev_at inp p = Some e \<Longrightarrow> entry_ok e"
  by (auto simp: prev_ok_def prev_at_def manifest_validate_iff catalogue_ok_def list_all_iff
      dest: by_path_SomeD split: option.splits)

lemma absent_ok: "prev_ok inp \<Longrightarrow> e \<in> set (absent U inp) \<Longrightarrow> entry_ok e"
  by (auto simp: prev_ok_def absent_def manifest_validate_iff catalogue_ok_def list_all_iff split: option.splits)

lemma absent_paths: "prev_ok inp \<Longrightarrow> distinct (map e_path (absent U inp)) \<and>
    e_path ` set (absent U inp) \<inter> pf_path ` set (plan_files U inp) = {}"
  by (auto simp: prev_ok_def absent_def manifest_validate_iff catalogue_ok_def distinct_map_filter split: option.splits)

lemma groups_ok:
  assumes prev: "prev_ok inp" and paths: "\<forall>f \<in> set (plan_files U inp). pf_path f \<noteq> []"
  shows "list_all entry_ok (groups (compute U inp))"
proof -
  have carry: "entry_ok (the (prev_at inp (pf_path f)))" if "has_bytes inp f" for f
    using that prev_entry_ok [OF prev] by (auto elim: has_bytesE)
  have oos: "entry_ok (out_of_scope f (prev_at inp (pf_path f)))" if "f \<in> set (plan_files U inp)" for f
    using that paths prev_entry_ok [OF prev] by (auto simp: out_of_scope_def skipped_entry_ok split: option.splits)
  have skip: "entry_ok (skip_of U inp f)" if "f \<in> set (plan_files U inp)" for f
    using that paths by (simp add: skip_of_def skipped_entry_ok decide_reason_nonempty)
  show ?thesis
    using paths carry oos skip absent_ok [OF prev, of _ U]
    by (auto simp: compute_eq classification_def Let_def groups_def list_all_iff locked_entry_ok tombstone_ok)
qed

lemma catalogue_assembled:
  assumes prev: "prev_ok inp"
    and paths: "[] \<notin> pf_path ` set (plan_files U inp)" and distinct_paths: "distinct (map pf_path (plan_files U inp))"
    and results: "list_all2 (\<lambda>ft e. entry_ok e \<and> e_path e = pf_path (ft_file ft)) (pl_fetch (compute U inp)) fetched"
  shows "catalogue_ok (groups (compute U inp) @ fetched)"
proof -
  have ok: "list_all entry_ok fetched" and same: "map e_path fetched = map (\<lambda>ft. pf_path (ft_file ft)) (pl_fetch (compute U inp))"
    using results by (induction rule: list_all2_induct) auto
  have "mset (map e_path (groups (compute U inp) @ fetched)) = mset (catalogued (compute U inp))"
    by (simp add: catalogued_def same del: mset_map)
  also have "\<dots> = mset (map pf_path (plan_files U inp) @ map e_path (absent U inp))"
    using plan_paths_all by simp
  finally have eq: "mset (map e_path (groups (compute U inp) @ fetched)) = mset (map pf_path (plan_files U inp) @ map e_path (absent U inp))" .
  have "distinct (map pf_path (plan_files U inp) @ map e_path (absent U inp))"
    using absent_paths [OF prev, of U] distinct_paths by auto
  then have "distinct (map e_path (groups (compute U inp) @ fetched))"
    using eq mset_eq_imp_distinct_iff by blast
  moreover have "list_all entry_ok (groups (compute U inp))"
    using paths by (intro groups_ok prev) force
  ultimately show ?thesis using ok by (simp add: catalogue_ok_def)
qed

text \<open>
  Whatever the listing and the rules are, the catalogue assembled from a plan is valid:
  when the previous manifest was valid and the resolved paths are distinct and non-empty,
  the groups of the plan together with a consistent entry at the path of each fetch have
  distinct paths and every entry is consistent, so the manifest can be published.
\<close>
theorem plan_publishable:
  assumes prev: "prev_ok inp"
    and paths: "[] \<notin> pf_path ` set (plan_files U inp)" and distinct_paths: "distinct (map pf_path (plan_files U inp))"
    and results: "list_all2 (\<lambda>ft e. entry_ok e \<and> e_path e = pf_path (ft_file ft)) (pl_fetch (compute U inp)) fetched"
  shows "catalogue_ok (groups (compute U inp) @ fetched)"
  using assms by (rule catalogue_assembled)

section \<open>A scope only defers\<close>

definition everything :: "plan_input \<Rightarrow> plan_input" where
  "everything inp = inp\<lparr>in_scope := []\<rparr>"

text \<open>
  C26: Restricting a pull to a scope changes nothing but the downloads: skips, locks,
  tombstones, carried entries and duplicates are those of the full pull, the files fetched
  are those of the full pull that the scope contains, and every other one is catalogued,
  with the previous entry verbatim when it was stored or failed.
\<close>
theorem scope_only_defers:
  "let p = compute U inp; full = compute U (everything inp) in
     pl_skipped p = pl_skipped full \<and> pl_locked p = pl_locked full \<and> pl_tombstone p = pl_tombstone full
     \<and> pl_carry p = pl_carry full \<and> pl_duplicates p = pl_duplicates full \<and> pl_out_of_scope full = []
     \<and> pl_fetch p = filter (\<lambda>ft. scope_contains U (in_scope inp) (pf_path (ft_file ft))) (pl_fetch full)
     \<and> pl_out_of_scope p = map (\<lambda>ft. out_of_scope (ft_file ft) (ft_prev ft))
          (filter (\<lambda>ft. \<not> scope_contains U (in_scope inp) (pf_path (ft_file ft))) (pl_fetch full))"
proof -
  have same: "prev_at (everything inp) = prev_at inp" "plan_files U (everything inp) = plan_files U inp"
    "decide_file U (everything inp) = decide_file U inp" "absent U (everything inp) = absent U inp"
    "in_now (everything inp) = in_now inp" "in_files (everything inp) = in_files inp"
    by (simp_all add: everything_def prev_at_def fun_eq_iff plan_files_def decide_file_def absent_def cong: option.case_cong)
  have all: "scope_contains U (in_scope (everything inp)) p" for p
    by (simp add: everything_def scope_contains_def scope_all_def)
  have preds: "wanted U (everything inp) = wanted U inp" "refused U (everything inp) = refused U inp"
    "has_bytes (everything inp) = has_bytes inp" "skip_of U (everything inp) = skip_of U inp"
    "fetch_of (everything inp) = fetch_of inp"
    by (simp_all add: fun_eq_iff wanted_def refused_def has_bytes_def skip_of_def fetch_of_def same)
  have fetch: "ft_prev (fetch_of inp f) = prev_at inp (pf_path f)" for f by (simp add: fetch_of_def)
  show ?thesis
    by (simp add: compute_eq classification_def Let_def same all preds filter_map o_def in_reach_def fetch
        conj_commute conj_left_commute)
qed

section \<open>Quiescence\<close>

lemma filter_map_in: "f \<in> set fs \<Longrightarrow> P f \<Longrightarrow> g f \<in> set (map g (filter P fs))"
  by auto

text \<open>
  C25: A run that fetched everything it planned leaves nothing to do: if the next run sees
  the same listing, rules, overrides and scope, and its previous manifest holds the groups
  of this plan and a stored entry with the file's metadata for every fetch, it fetches
  nothing.
\<close>
theorem complete_run_quiescent:
  assumes prev: "prev_ok inp"
    and paths: "[] \<notin> pf_path ` set (plan_files U inp)" and distinct_paths: "distinct (map pf_path (plan_files U inp))"
    and results: "list_all2 (\<lambda>ft e. entry_ok e \<and> e_path e = pf_path (ft_file ft) \<and> e_state e = StateStored \<and> unchanged e (ft_file ft))
      (pl_fetch (compute U inp)) fetched"
    and published: "entries m = groups (compute U inp) @ fetched"
  shows "pl_fetch (compute U (inp\<lparr>in_prev := Some m, in_now := later\<rparr>)) = []"
proof -
  let ?inp = "inp\<lparr>in_prev := Some m, in_now := later\<rparr>"
  have "list_all2 (\<lambda>ft e. entry_ok e \<and> e_path e = pf_path (ft_file ft)) (pl_fetch (compute U inp)) fetched"
    using results by (rule list_all2_mono) simp
  then have "catalogue_ok (entries m)"
    unfolding published by (rule catalogue_assembled [OF prev paths distinct_paths])
  then have at: "by_path m p = Some e \<longleftrightarrow> e \<in> set (entries m) \<and> e_path e = p" for p e
    by (intro by_path_distinct) (simp add: catalogue_ok_def)
  have same: "plan_files U ?inp = plan_files U inp" "wanted U ?inp = wanted U inp" "in_reach U ?inp = in_reach U inp"
    by (simp_all add: plan_files_def wanted_def in_reach_def decide_file_def fun_eq_iff cong: option.case_cong)
  have "has_bytes ?inp f" if f: "f \<in> set (plan_files U inp)" "wanted U inp f" "in_reach U inp f" for f
  proof -
    have "\<exists>e \<in> set (entries m). e_path e = pf_path f \<and> e_state e = StateStored \<and> unchanged e f"
    proof (cases "has_bytes inp f")
      case True
      then obtain e where e: "prev_at inp (pf_path f) = Some e" "e_state e = StateStored" "unchanged e f"
        by (rule has_bytesE)
      have "e \<in> set (pl_carry (compute U inp))"
        using f True e(1) by (force simp: compute_eq classification_def Let_def)
      then show ?thesis using e prev_at_SomeD [OF e(1)] by (auto simp: published groups_def)
    next
      case False
      then have "fetch_of inp f \<in> set (pl_fetch (compute U inp))"
        using f by (force simp: compute_eq classification_def Let_def)
      then obtain e where "e \<in> set fetched" "e_path e = pf_path f" "e_state e = StateStored" "unchanged e f"
        using results by (auto simp: list_all2_conv_all_nth in_set_conv_nth) (metis entry_paths(5))
      then show ?thesis by (auto simp: published)
    qed
    then obtain e where e: "e \<in> set (entries m)" "e_path e = pf_path f" "e_state e = StateStored" "unchanged e f" by blast
    then have "prev_at ?inp (pf_path f) = Some e" using at by (simp add: prev_at_def)
    then show ?thesis using e by (simp add: has_bytes_def)
  qed
  then show ?thesis
    by (simp add: compute_eq classification_def Let_def same filter_empty_conv) blast
qed

section \<open>Deduplication\<close>

definition positions_ok :: "(int \<rightharpoonup> nat) \<Rightarrow> plan_file list \<Rightarrow> bool" where
  "positions_ok idx out \<longleftrightarrow> distinct (map pf_canvas_id out) \<and>
     (\<forall>c i. idx c = Some i \<longleftrightarrow> i < length out \<and> pf_canvas_id (out ! i) = c)"

lemma positions_ok_None: "positions_ok idx out \<Longrightarrow> idx c = None \<longleftrightarrow> c \<notin> pf_canvas_id ` set out"
proof -
  assume ok: "positions_ok idx out"
  have "idx c \<noteq> None \<longleftrightarrow> (\<exists>i < length out. pf_canvas_id (out ! i) = c)"
    using ok by (auto simp: positions_ok_def)
  also have "\<dots> \<longleftrightarrow> c \<in> pf_canvas_id ` set out"
    by (force simp: in_set_conv_nth image_iff)
  finally show ?thesis by blast
qed

lemma positions_ok_snoc:
  assumes ok: "positions_ok idx out" and new: "idx (pf_canvas_id f) = None"
  shows "positions_ok (idx(pf_canvas_id f \<mapsto> length out)) (out @ [f])"
proof -
  have fresh: "pf_canvas_id f \<notin> pf_canvas_id ` set out" using positions_ok_None [OF ok] new by simp
  then have "pf_canvas_id (out ! i) \<noteq> pf_canvas_id f" if "i < length out" for i
    using that by (metis imageI nth_mem)
  then show ?thesis
    using ok fresh unfolding positions_ok_def by (auto simp: nth_append less_Suc_eq)
qed

lemma positions_ok_update:
  assumes "positions_ok idx out" and "idx (pf_canvas_id f) = Some i"
  shows "positions_ok idx (out[i := f])"
proof -
  have i: "i < length out" "pf_canvas_id (out ! i) = pf_canvas_id f" using assms by (auto simp: positions_ok_def)
  then have "map pf_canvas_id (out[i := f]) = map pf_canvas_id out"
    by (simp add: map_update) (metis list_update_id nth_map)
  moreover have "pf_canvas_id (out[i := f] ! j) = pf_canvas_id (out ! j)" for j
    using i by (cases "i = j") auto
  ultimately show ?thesis using assms(1) by (simp add: positions_ok_def)
qed

lemma newer_trans: "newer f g \<Longrightarrow> \<not> newer h g \<Longrightarrow> newer f h" "newer f g \<Longrightarrow> newer g h \<Longrightarrow> newer f h"
  "\<not> newer f g \<Longrightarrow> \<not> newer g h \<Longrightarrow> \<not> newer f h" "\<not> newer f f"
  by (auto simp: newer_def)

definition represented :: "plan_file list \<Rightarrow> plan_file \<Rightarrow> bool" where
  "represented out g \<longleftrightarrow> (\<exists>f \<in> set out. pf_canvas_id f = pf_canvas_id g \<and> \<not> newer g f)"

lemma represented_update:
  assumes "i < length out" and "pf_canvas_id (out ! i) = pf_canvas_id f" and "newer f (out ! i)" and "represented out g"
  shows "represented (out[i := f]) g"
proof -
  obtain h where h: "h \<in> set out" "pf_canvas_id h = pf_canvas_id g" "\<not> newer g h" using assms(4) by (auto simp: represented_def)
  then obtain j where j: "j < length out" "out ! j = h" by (auto simp: in_set_conv_nth)
  show ?thesis
  proof (cases "i = j")
    case True
    then have "f \<in> set (out[i := f])" "pf_canvas_id f = pf_canvas_id g" "\<not> newer g f"
      using assms h j newer_trans(2) [of g f h] by (auto simp: set_update_memI)
    then show ?thesis by (auto simp: represented_def)
  next
    case False
    then have "h \<in> set (out[i := f])" using j by (metis length_list_update nth_list_update_neq nth_mem)
    then show ?thesis using h by (auto simp: represented_def)
  qed
qed

lemma dedupe_loop_spec:
  assumes "positions_ok idx out" and "dedupe_loop idx out dups fs = (out', dups')"
  shows "distinct (map pf_canvas_id out') \<and> set out' \<subseteq> set out \<union> set fs
    \<and> (\<forall>g \<in> set fs \<union> {g. represented out g}. represented out' g)
    \<and> mset (map pf_canvas_id out') + mset dups' = mset (map pf_canvas_id (out @ fs)) + mset dups"
  using assms
proof (induction fs arbitrary: idx out dups)
  case (Cons f fs)
  show ?case
  proof (cases "idx (pf_canvas_id f)")
    case None
    then have step: "dedupe_loop (idx(pf_canvas_id f \<mapsto> length out)) (out @ [f]) dups fs = (out', dups')"
      using Cons.prems(2) by simp
    note IH = Cons.IH [OF positions_ok_snoc [OF Cons.prems(1) None] step]
    have "represented (out @ [f]) f" "represented out g \<Longrightarrow> represented (out @ [f]) g" for g
      by (auto simp: represented_def newer_trans(4))
    then show ?thesis using IH by auto
  next
    case (Some i)
    define out2 where "out2 = (if newer f (out ! i) then out[i := f] else out)"
    have i: "i < length out" "pf_canvas_id (out ! i) = pf_canvas_id f"
      using Some Cons.prems(1) by (auto simp: positions_ok_def)
    have step: "dedupe_loop idx out2 (dups @ [pf_canvas_id f]) fs = (out', dups')"
      using Cons.prems(2) Some by (simp add: out2_def)
    have pos: "positions_ok idx out2"
      using Cons.prems(1) positions_ok_update [OF Cons.prems(1) Some] by (simp add: out2_def)
    note IH = Cons.IH [OF pos step]
    have ids: "map pf_canvas_id out2 = map pf_canvas_id out"
      using i by (simp add: out2_def map_update) (metis list_update_id nth_map)
    have sub: "set out2 \<subseteq> set out \<union> {f}" by (auto simp: out2_def dest: set_update_subset_insert [THEN subsetD])
    have rep: "represented out g \<Longrightarrow> represented out2 g" for g
      using represented_update [OF i] by (simp add: out2_def)
    have self: "represented out2 f"
    proof (cases "newer f (out ! i)")
      case True
      then show ?thesis using i by (auto simp: out2_def represented_def newer_trans(4) set_update_memI)
    next
      case False
      then show ?thesis using i nth_mem by (fastforce simp: out2_def represented_def)
    qed
    have "mset (map pf_canvas_id out') + mset dups' = mset (map pf_canvas_id (out @ f # fs)) + mset dups"
      using IH ids by (simp flip: mset_map)
    then show ?thesis using IH sub rep self by auto
  qed
qed (auto simp: positions_ok_def)

text \<open>
  Deduplication keeps, for every Canvas id listed, exactly one copy from the listing,
  no other copy of which is more recently updated or, updated at the same time, larger; and
  the duplicates it reports, sorted, are exactly the surplus ids with their multiplicity.
\<close>
theorem dedupe_keeps_newest:
  "distinct (map pf_canvas_id (fst (dedupe files))) \<and> set (fst (dedupe files)) \<subseteq> set files
   \<and> list_all (represented (fst (dedupe files))) files
   \<and> mset (map pf_canvas_id (fst (dedupe files))) + mset (snd (dedupe files)) = mset (map pf_canvas_id files)
   \<and> sorted (snd (dedupe files))"
proof -
  obtain out dups where loop: "dedupe_loop Map.empty [] [] files = (out, dups)" by fastforce
  have "positions_ok Map.empty []" by (simp add: positions_ok_def)
  from dedupe_loop_spec [OF this loop] show ?thesis
    by (simp add: dedupe_def Let_def loop list_all_iff)
qed

text \<open>On a tie the copy listed first is kept, so the choice does depend on the listing's order.\<close>

lemma dedupe_tie_order:
  "pf_canvas_id f = pf_canvas_id g \<Longrightarrow> pf_updated f = pf_updated g \<Longrightarrow> pf_size f = pf_size g \<Longrightarrow>
     fst (dedupe [f, g]) = [f] \<and> fst (dedupe [g, f]) = [g]"
  by (simp add: dedupe_def Let_def newer_def)

section \<open>Collisions\<close>

definition resolve_step :: "unicode_tables \<Rightarrow> plan_file list \<Rightarrow> plan_file \<Rightarrow> plan_file" where
  "resolve_step U fs f = (if collides U fs f then suffixed f else f)"

lemma suffixed_simps [simp]: "pf_canvas_id (suffixed f) = pf_canvas_id f" "pf_size (suffixed f) = pf_size f"
  "pf_updated (suffixed f) = pf_updated f"
  by (simp_all add: suffixed_def)

lemma collides_perm: "mset fs = mset gs \<Longrightarrow> collides U fs = collides U gs"
  unfolding collides_def fun_eq_iff by (metis mset_filter size_mset)

lemma rounds_ids: "map pf_canvas_id (disambiguate_rounds U n fs) = map pf_canvas_id fs"
  by (induction n arbitrary: fs) (auto simp: o_def intro: map_cong)

lemma rounds_perm:
  "mset fs = mset gs \<Longrightarrow> mset (disambiguate_rounds U n fs) = mset (disambiguate_rounds U n gs)"
proof (induction n arbitrary: fs gs)
  case (Suc n)
  note c = collides_perm [OF Suc.prems, of U]
  have "list_ex (collides U gs) fs = list_ex (collides U gs) gs"
    using mset_eq_setD [OF Suc.prems] by (simp add: list_ex_iff)
  moreover have "mset (disambiguate_rounds U n (map (\<lambda>f. if collides U gs f then suffixed f else f) fs)) =
      mset (disambiguate_rounds U n (map (\<lambda>f. if collides U gs f then suffixed f else f) gs))"
    using Suc.prems by (intro Suc.IH) (simp only: mset_map)
  ultimately show ?case using Suc.prems by (simp add: c)
qed simp

lemma count_map_filter: "count (mset (map k fs)) a = length (filter (\<lambda>g. k g = a) fs)"
  by (induction fs) auto

lemma no_collision_distinct: "\<not> list_ex (collides U fs) fs \<longleftrightarrow> distinct (map (file_key U) fs)"
proof -
  define M where "M = mset (map (file_key U) fs)"
  have one: "count M a \<le> 1 \<longleftrightarrow> count M a = 1" if "a \<in># M" for a
    using that count_greater_zero_iff [of M a] by linarith
  have "\<not> list_ex (collides U fs) fs \<longleftrightarrow> (\<forall>f \<in> set fs. count M (file_key U f) \<le> 1)"
    unfolding count_map_filter M_def by (auto simp: list_ex_iff collides_def not_less)
  also have "\<dots> \<longleftrightarrow> (\<forall>f \<in> set fs. count M (file_key U f) = 1)"
    by (intro ball_cong refl one) (simp add: M_def)
  also have "\<dots> \<longleftrightarrow> distinct (map (file_key U) fs)"
  proof -
    have mem: "a \<in># M \<longleftrightarrow> a \<in> file_key U ` set fs" for a by (simp add: M_def)
    have "count M a = 0" if "a \<notin> file_key U ` set fs" for a using that mem not_in_iff by metis
    moreover have "distinct (map (file_key U) fs) \<longleftrightarrow> (\<forall>a. count M a = (if a \<in> file_key U ` set fs then 1 else 0))"
      by (simp only: distinct_count_atmost_1 M_def set_map)
    ultimately show ?thesis by auto
  qed
  finally show ?thesis .
qed

text \<open>
  Collision handling is deterministic: it keeps every file, in order and with its id,
  for listings that are permutations of each other it gives permutations of each other, so
  a file's path depends on what is listed and never on the order, and a listing whose paths
  already differ under case folding is left alone.
\<close>
theorem disambiguation_stable:
  "map pf_canvas_id (disambiguate_files U files) = map pf_canvas_id files
   \<and> (mset files = mset files' \<longrightarrow> mset (disambiguate_files U files) = mset (disambiguate_files U files'))
   \<and> (distinct (map (file_key U) files) \<longrightarrow> disambiguate_files U files = files)"
proof -
  have "disambiguate_files U files = files" if "distinct (map (file_key U) files)"
    using that no_collision_distinct [of U files] by (simp add: disambiguate_files_def numeral_eq_Suc)
  moreover have "mset (disambiguate_files U files) = mset (disambiguate_files U files')" if "mset files = mset files'"
    unfolding disambiguate_files_def using that by (rule rounds_perm)
  moreover have "map pf_canvas_id (disambiguate_files U files) = map pf_canvas_id files"
    unfolding disambiguate_files_def by (rule rounds_ids)
  ultimately show ?thesis by blast
qed

section \<open>A listing that four rounds do not resolve\<close>

lemma collision_key_plain:
  "list_all (\<lambda>c. bv c < 0x80 \<and> \<not> (65 \<le> bv c \<and> bv c \<le> 90)) s \<Longrightarrow> collision_key plain_tables s = s"
proof -
  assume s: "list_all (\<lambda>c. bv c < 0x80 \<and> \<not> (65 \<le> bv c \<and> bv c \<le> 90)) s"
  have "concat (map (\<lambda>c. encode_rune (to_lower plain_tables (bv c))) s) = s"
    using s by (induction s) (auto simp: to_lower_def encode1)
  moreover have "\<forall>c \<in> set s. bv c < 0x80" using s by (simp add: list_all_iff)
  ultimately show ?thesis
    by (simp add: collision_key_def map_runes_ascii plain_assigned Let_def)
qed

definition named_file :: "string \<Rightarrow> int \<Rightarrow> plan_file" where
  "named_file p i = \<lparr>pf_path = p, pf_canvas_id = i, pf_canvas_uuid = [], pf_size = 1, pf_mime = [], pf_updated = 0,
     pf_modified = 0, pf_locked = False, pf_unlock = None, pf_note = []\<rparr>"

definition chained_listing :: "plan_file list" where
  "chained_listing = [named_file ''x'' 1, named_file ''x'' 2, named_file ''x (1)'' 3, named_file ''x (1) (1)'' 4,
     named_file ''x (1) (1) (1)'' 5, named_file ''x (1) (1) (1) (1)'' 6]"

lemma digits_small: "n < 10 \<Longrightarrow> digits_of n = [char_of (48 + n)]"
  by (subst digits_of.simps) simp

lemma disambiguate_plain:
  "disambiguate ''x'' 1 = ''x (1)''" "disambiguate ''x'' 2 = ''x (2)''" "disambiguate ''x (1)'' 1 = ''x (1) (1)''"
  "disambiguate ''x (1)'' 3 = ''x (1) (3)''" "disambiguate ''x (1) (1)'' 1 = ''x (1) (1) (1)''"
  "disambiguate ''x (1) (1)'' 4 = ''x (1) (1) (4)''" "disambiguate ''x (1) (1) (1)'' 1 = ''x (1) (1) (1) (1)''"
  "disambiguate ''x (1) (1) (1)'' 5 = ''x (1) (1) (1) (5)''"
  by (simp_all add: disambiguate_def Let_def MaxComponent_def string_of_int_def digits_small char_of_eq)

lemma named_file_simps [simp]: "suffixed (named_file p i) = named_file (disambiguate p i) i" "pf_path (named_file p i) = p"
  "pf_canvas_id (named_file p i) = i"
  by (simp_all add: named_file_def suffixed_def)

lemma chained_keys:
  "collision_key plain_tables ''x'' = ''x''" "collision_key plain_tables ''x (1)'' = ''x (1)''"
  "collision_key plain_tables ''x (2)'' = ''x (2)''" "collision_key plain_tables ''x (1) (1)'' = ''x (1) (1)''"
  "collision_key plain_tables ''x (1) (3)'' = ''x (1) (3)''" "collision_key plain_tables ''x (1) (1) (1)'' = ''x (1) (1) (1)''"
  "collision_key plain_tables ''x (1) (1) (4)'' = ''x (1) (1) (4)''"
  "collision_key plain_tables ''x (1) (1) (1) (1)'' = ''x (1) (1) (1) (1)''"
  by (simp_all add: collision_key_plain)

lemma file_key_named: "file_key U (named_file p i) = collision_key U p"
  by (simp add: file_key_def)

text \<open>Two files of one path remain after the last round, so no manifest of this course is valid.\<close>

lemma four_rounds_insufficient:
  "fst (dedupe chained_listing) = chained_listing
   \<and> map pf_path (disambiguate_files plain_tables chained_listing)
      = [''x (1) (1) (1) (1)'', ''x (2)'', ''x (1) (3)'', ''x (1) (1) (4)'', ''x (1) (1) (1) (5)'', ''x (1) (1) (1) (1)'']"
proof
  show "fst (dedupe chained_listing) = chained_listing"
    by (simp add: chained_listing_def dedupe_def Let_def)
  define r where "r fs = map (resolve_step plain_tables fs) fs" for fs
  have step: "disambiguate_rounds plain_tables (Suc n) fs = disambiguate_rounds plain_tables n (r fs)"
    if "list_ex (collides plain_tables fs) fs" for n fs
    using that by (simp add: r_def resolve_step_def [abs_def])
  have r1: "r chained_listing = [named_file ''x (1)'' 1, named_file ''x (2)'' 2, named_file ''x (1)'' 3,
      named_file ''x (1) (1)'' 4, named_file ''x (1) (1) (1)'' 5, named_file ''x (1) (1) (1) (1)'' 6]"
    (is "_ = ?l1")
    by (simp add: chained_listing_def r_def resolve_step_def collides_def file_key_named chained_keys disambiguate_plain)
  have r2: "r ?l1 = [named_file ''x (1) (1)'' 1, named_file ''x (2)'' 2, named_file ''x (1) (3)'' 3,
      named_file ''x (1) (1)'' 4, named_file ''x (1) (1) (1)'' 5, named_file ''x (1) (1) (1) (1)'' 6]"
    (is "_ = ?l2")
    by (simp add: r_def resolve_step_def collides_def file_key_named chained_keys disambiguate_plain)
  have r3: "r ?l2 = [named_file ''x (1) (1) (1)'' 1, named_file ''x (2)'' 2, named_file ''x (1) (3)'' 3,
      named_file ''x (1) (1) (4)'' 4, named_file ''x (1) (1) (1)'' 5, named_file ''x (1) (1) (1) (1)'' 6]"
    (is "_ = ?l3")
    by (simp add: r_def resolve_step_def collides_def file_key_named chained_keys disambiguate_plain)
  have r4: "r ?l3 = [named_file ''x (1) (1) (1) (1)'' 1, named_file ''x (2)'' 2, named_file ''x (1) (3)'' 3,
      named_file ''x (1) (1) (4)'' 4, named_file ''x (1) (1) (1) (5)'' 5, named_file ''x (1) (1) (1) (1)'' 6]"
    by (simp add: r_def resolve_step_def collides_def file_key_named chained_keys disambiguate_plain)
  have c: "list_ex (collides plain_tables chained_listing) chained_listing" "list_ex (collides plain_tables ?l1) ?l1"
    "list_ex (collides plain_tables ?l2) ?l2" "list_ex (collides plain_tables ?l3) ?l3"
    by (simp_all add: chained_listing_def collides_def file_key_named chained_keys)
  show "map pf_path (disambiguate_files plain_tables chained_listing)
      = [''x (1) (1) (1) (1)'', ''x (2)'', ''x (1) (3)'', ''x (1) (1) (4)'', ''x (1) (1) (1) (5)'', ''x (1) (1) (1) (1)'']"
    using step [OF c(1), of 3] step [OF c(2), of 2] step [OF c(3), of 1] step [OF c(4), of 0]
    by (simp add: disambiguate_files_def r1 r2 r3 r4 numeral_eq_Suc)
qed

section \<open>Witnesses\<close>

definition sample_input :: plan_input where
  "sample_input = \<lparr>in_course = 3, in_prev = None, in_files = [named_file ''x'' 1],
     in_policy = \<lparr>p_version = 1, p_default = ''include'', p_rules = [], p_comment = []\<rparr>,
     in_overrides = \<lparr>o_include = (\<lambda>_. False), o_exclude = (\<lambda>_. False)\<rparr>, in_scope = [], in_now = 0\<rparr>"

definition stored_as :: "plan_file \<Rightarrow> string \<Rightarrow> entry" where
  "stored_as f h = \<lparr>e_path = pf_path f, e_state = StateStored, e_size = pf_size f, e_mime = pf_mime f,
     e_canvas_id = pf_canvas_id f, e_canvas_uuid = pf_canvas_uuid f, e_updated = pf_updated f, e_modified = pf_modified f,
     e_sha = h, e_reason = [], e_rule = [], e_unlock = None, e_deleted = None\<rparr>"

lemma sample_files: "plan_files plain_tables sample_input = [named_file ''x'' 1]"
  by (simp add: plan_files_def sample_input_def dedupe_def Let_def disambiguate_files_def numeral_eq_Suc collides_def)

lemma sample_plan: "pl_fetch (compute plain_tables sample_input) = [fetch_of sample_input (named_file ''x'' 1)]"
  "groups (compute plain_tables sample_input) = []"
proof -
  have w: "wanted plain_tables sample_input (named_file ''x'' 1)" "\<not> refused plain_tables sample_input (named_file ''x'' 1)"
    "\<not> has_bytes sample_input (named_file ''x'' 1)" "in_reach plain_tables sample_input (named_file ''x'' 1)"
    "\<not> pf_locked (named_file ''x'' 1)"
    by (simp_all add: wanted_def refused_def has_bytes_def in_reach_def decide_file_def override_decide_def evaluate_def
        sample_input_def named_file_def action_skip_def prev_at_def scope_contains_def scope_all_def)
  have a: "absent plain_tables sample_input = []" by (simp add: absent_def sample_input_def)
  show "pl_fetch (compute plain_tables sample_input) = [fetch_of sample_input (named_file ''x'' 1)]"
    "groups (compute plain_tables sample_input) = []"
    using w by (simp_all add: compute_eq classification_def Let_def sample_files groups_def a)
qed

lemma sample_stored_ok: "entry_ok (stored_as (named_file ''x'' 1) ''ab'')" "unchanged (stored_as (named_file ''x'' 1) ''ab'') (named_file ''x'' 1)"
  "e_path (stored_as (named_file ''x'' 1) ''ab'') = ''x''" "e_state (stored_as (named_file ''x'' 1) ''ab'') = StateStored"
  by (simp_all add: entry_ok_def stored_as_def unchanged_def state_defs)

lemma plan_publishable_witness: "catalogue_ok [stored_as (named_file ''x'' 1) ''ab'']"
proof -
  have "prev_ok sample_input" by (simp add: prev_ok_def sample_input_def)
  from plan_publishable [OF this, of plain_tables "[stored_as (named_file ''x'' 1) ''ab'']"] show ?thesis
    by (simp add: sample_files sample_plan sample_stored_ok)
qed

lemma complete_run_quiescent_witness:
  "pl_fetch (compute plain_tables (sample_input\<lparr>in_prev := Some (sample_manifest\<lparr>mf_entries :=
     Some [stored_as (named_file ''x'' 1) ''ab'']\<rparr>), in_now := 5\<rparr>)) = []"
proof -
  have "prev_ok sample_input" by (simp add: prev_ok_def sample_input_def)
  from complete_run_quiescent [OF this, of plain_tables "[stored_as (named_file ''x'' 1) ''ab'']"
      "sample_manifest\<lparr>mf_entries := Some [stored_as (named_file ''x'' 1) ''ab'']\<rparr>" 5]
  show ?thesis by (simp add: sample_files sample_plan sample_stored_ok entries_def)
qed

lemma disambiguation_stable_witness:
  "mset (disambiguate_files plain_tables [named_file ''x'' 1, named_file ''x'' 2])
     = mset (disambiguate_files plain_tables [named_file ''x'' 2, named_file ''x'' 1])"
  using disambiguation_stable [of plain_tables "[named_file ''x'' 1, named_file ''x'' 2]" "[named_file ''x'' 2, named_file ''x'' 1]"]
  by (simp add: add_mset_commute)

end
