(* ===== verification/Objects.thy ===== *)
theory Objects
  imports Go_Time "HOL-Library.AList" "HOL-Library.Multiset"
begin

text \<open>
  The object store, \<^verbatim>\<open>internal/storage/objects/store.go\<close> and \<^verbatim>\<open>memory.go\<close>:
  the interface as a record of operations over a state, \<open>PutOnce\<close> and the key and size
  checks on top of it, and the in-memory store. Readers are the bytes they deliver. A
  listing is the sequence of objects handed to the callback and the error that ended it.
\<close>

section \<open>The interface\<close>

datatype store_error = ErrNotFound | ErrExists | ErrUnsupported | Invalid_key string
  | Size_mismatch string int int | Backend string | Slice_panic

record obj_info =
  oi_key :: string
  oi_size :: int
  oi_modified :: instant

record 's store_ops =
  s_get :: "'s \<Rightarrow> string \<Rightarrow> store_error + string"
  s_put :: "'s \<Rightarrow> string \<Rightarrow> string \<Rightarrow> int \<Rightarrow> 's \<times> store_error option"
  s_exists :: "'s \<Rightarrow> string \<Rightarrow> store_error + bool"
  s_delete :: "'s \<Rightarrow> string \<Rightarrow> 's \<times> store_error option"
  s_list :: "'s \<Rightarrow> string \<Rightarrow> obj_info list \<times> store_error option"
  s_put_absent :: "('s \<Rightarrow> string \<Rightarrow> string \<Rightarrow> int \<Rightarrow> 's \<times> store_error option) option"

text \<open>
  \<open>PutOnce\<close> reports whether the backend enforced write-once atomically. Without that
  capability other writers may act between the two calls; \<open>I\<close> is what they do.
\<close>

definition put_once_fallback :: "'s store_ops \<Rightarrow> ('s \<Rightarrow> 's) \<Rightarrow> 's \<Rightarrow> string \<Rightarrow> string \<Rightarrow> int \<Rightarrow> 's \<times> bool \<times> store_error option" where
  "put_once_fallback S I s key b n =
    (case s_exists S s key of
       Inl e \<Rightarrow> (s, False, Some e)
     | Inr present \<Rightarrow> if present then (s, False, Some ErrExists)
         else (let r = s_put S (I s) key b n in (fst r, False, snd r)))"

definition put_once :: "'s store_ops \<Rightarrow> ('s \<Rightarrow> 's) \<Rightarrow> 's \<Rightarrow> string \<Rightarrow> string \<Rightarrow> int \<Rightarrow> 's \<times> bool \<times> store_error option" where
  "put_once S I s key b n =
    (case s_put_absent S of
       Some put_absent \<Rightarrow>
         (let r = put_absent s key b n in
          if snd r \<noteq> Some ErrUnsupported then (fst r, True, snd r) else put_once_fallback S I (fst r) key b n)
     | None \<Rightarrow> put_once_fallback S I s key b n)"

definition valid_key :: "string \<Rightarrow> store_error option" where
  "valid_key key =
    (if key = [] \<or> has_prefix key ''/'' \<or> CHR 0x5C \<in> set key then Some (Invalid_key key)
     else if list_ex (\<lambda>seg. seg = [] \<or> seg = ''.'' \<or> seg = ''..'') (split_on (CHR ''/'') key) then Some (Invalid_key key)
     else None)"

definition check_size :: "string \<Rightarrow> int \<Rightarrow> int \<Rightarrow> store_error option" where
  "check_size key want got = (if want \<ge> 0 \<and> want \<noteq> got then Some (Size_mismatch key want got) else None)"

section \<open>The in-memory store\<close>

record memory =
  mem_data :: "(string \<times> string) list"
  mem_modified :: "(string \<times> instant) list"
  mem_put_err :: "string \<Rightarrow> string option"
  mem_now :: instant

definition new_memory :: "instant \<Rightarrow> memory" where
  "new_memory now = \<lparr>mem_data = [], mem_modified = [], mem_put_err = (\<lambda>_. None), mem_now = now\<rparr>"

definition mem_get :: "memory \<Rightarrow> string \<Rightarrow> store_error + string" where
  "mem_get m key = (case map_of (mem_data m) key of None \<Rightarrow> Inl ErrNotFound | Some b \<Rightarrow> Inr b)"

definition mem_get_range :: "memory \<Rightarrow> string \<Rightarrow> int \<Rightarrow> int \<Rightarrow> store_error + string" where
  "mem_get_range m key off n =
    (case map_of (mem_data m) key of
       None \<Rightarrow> Inl ErrNotFound
     | Some b \<Rightarrow>
       if off \<ge> int (length b) then Inr []
       else let e = (if off + n > int (length b) then int (length b) else off + n) in
         if off < 0 \<or> e < off then Inl Slice_panic else Inr (slice off e b))"

definition mem_read :: "memory \<Rightarrow> string \<Rightarrow> string \<Rightarrow> int \<Rightarrow> store_error + string" where
  "mem_read m key b n =
    (case valid_key key of Some e \<Rightarrow> Inl e
     | None \<Rightarrow> (case mem_put_err m key of Some e \<Rightarrow> Inl (Backend e)
       | None \<Rightarrow> (case check_size key n (int (length b)) of Some e \<Rightarrow> Inl e | None \<Rightarrow> Inr b)))"

definition mem_store :: "memory \<Rightarrow> string \<Rightarrow> string \<Rightarrow> memory" where
  "mem_store m key b = m\<lparr>mem_data := AList.update key b (mem_data m), mem_modified := AList.update key (mem_now m) (mem_modified m)\<rparr>"

definition mem_put :: "memory \<Rightarrow> string \<Rightarrow> string \<Rightarrow> int \<Rightarrow> memory \<times> store_error option" where
  "mem_put m key b n = (case mem_read m key b n of Inl e \<Rightarrow> (m, Some e) | Inr b' \<Rightarrow> (mem_store m key b', None))"

definition mem_put_if_absent :: "memory \<Rightarrow> string \<Rightarrow> string \<Rightarrow> int \<Rightarrow> memory \<times> store_error option" where
  "mem_put_if_absent m key b n =
    (case mem_read m key b n of Inl e \<Rightarrow> (m, Some e)
     | Inr b' \<Rightarrow> if map_of (mem_data m) key \<noteq> None then (m, Some ErrExists) else (mem_store m key b', None))"

definition mem_exists :: "memory \<Rightarrow> string \<Rightarrow> store_error + bool" where
  "mem_exists m key = Inr (map_of (mem_data m) key \<noteq> None)"

text \<open>A modification time that is not set reads as the zero time.\<close>

definition mem_time :: "memory \<Rightarrow> string \<Rightarrow> instant" where
  "mem_time m key = (case map_of (mem_modified m) key of None \<Rightarrow> zero_time | Some t \<Rightarrow> t)"

definition mem_stat :: "memory \<Rightarrow> string \<Rightarrow> store_error + obj_info" where
  "mem_stat m key =
    (case map_of (mem_data m) key of None \<Rightarrow> Inl ErrNotFound
     | Some b \<Rightarrow> Inr \<lparr>oi_key = key, oi_size = int (length b), oi_modified = mem_time m key\<rparr>)"

definition mem_delete :: "memory \<Rightarrow> string \<Rightarrow> memory \<times> store_error option" where
  "mem_delete m key = (m\<lparr>mem_data := AList.delete key (mem_data m), mem_modified := AList.delete key (mem_modified m)\<rparr>, None)"

text \<open>Go iterates over the keys of the map, each once; the order is erased by the sort.\<close>

definition mem_list :: "memory \<Rightarrow> string \<Rightarrow> obj_info list \<times> store_error option" where
  "mem_list m prefix =
    (sort_key oi_key (map (\<lambda>(k, b). \<lparr>oi_key = k, oi_size = int (length b), oi_modified = mem_time m k\<rparr>)
       (filter (\<lambda>(k, b). has_prefix k prefix) (AList.clearjunk (mem_data m)))), None)"

definition memory_ops :: "memory store_ops" where
  "memory_ops = \<lparr>s_get = mem_get, s_put = mem_put, s_exists = mem_exists, s_delete = mem_delete, s_list = mem_list,
     s_put_absent = Some mem_put_if_absent\<rparr>"

section \<open>The contract of a store\<close>

text \<open>
  What clients rely on. \<open>obj\<close> is the content and time of an object and \<open>ok\<close> the keys and
  sizes the backend accepts. A failed write leaves the old object or the whole new one, never
  a part, and no other key changes. Reads, listings and deletions may fail; a deletion that succeeds deletes.
\<close>

locale object_store =
  fixes S :: "'s store_ops" and obj :: "'s \<Rightarrow> string \<Rightarrow> (string \<times> instant) option"
  assumes get_ok: "s_get S s k = Inr b \<Longrightarrow> map_option fst (obj s k) = Some b"
    and get_missing: "s_get S s k = Inl ErrNotFound \<longleftrightarrow> obj s k = None"
    and put_same: "s_put S s k b n = (s', None) \<Longrightarrow> map_option fst (obj s' k) = Some b"
    and put_atomic: "s_put S s k b n = (s', e) \<Longrightarrow> obj s' k = obj s k \<or> map_option fst (obj s' k) = Some b"
    and put_other: "s_put S s k b n = (s', e) \<Longrightarrow> k' \<noteq> k \<Longrightarrow> obj s' k' = obj s k'"
    and exists_ok: "s_exists S s k = Inr present \<Longrightarrow> present \<longleftrightarrow> obj s k \<noteq> None"
    and delete_ok: "s_delete S s k = (s', None) \<Longrightarrow> obj s' k = None"
    and delete_other: "s_delete S s k = (s', e) \<Longrightarrow> k' \<noteq> k \<Longrightarrow> obj s' k' = obj s k'"
    and delete_failed: "s_delete S s k = (s', Some err) \<Longrightarrow> obj s' k = obj s k"
    and list_ok: "s_list S s p = (infos, None) \<Longrightarrow>
      set infos = {\<lparr>oi_key = k, oi_size = int (length b), oi_modified = t\<rparr> | k b t. has_prefix k p \<and> obj s k = Some (b, t)}"
    and list_distinct: "s_list S s p = (infos, None) \<Longrightarrow> distinct (map oi_key infos)"

locale exclusive_store = object_store +
  fixes put_absent
  assumes capability: "s_put_absent S = Some put_absent"
    and supported: "put_absent s k b n = (s', e) \<Longrightarrow> e \<noteq> Some ErrUnsupported"
    and absent_ok: "put_absent s k b n = (s', None) \<Longrightarrow> obj s k = None \<and> map_option fst (obj s' k) = Some b"
    and absent_exists: "put_absent s k b n = (s', Some ErrExists) \<Longrightarrow> obj s k \<noteq> None"
    and absent_failed: "put_absent s k b n = (s', Some err) \<Longrightarrow> s' = s"
    and absent_other: "put_absent s k b n = (s', e) \<Longrightarrow> k' \<noteq> k \<Longrightarrow> obj s' k' = obj s k'"
begin

lemma put_once_absent: "put_once S I s k b n = (fst (put_absent s k b n), True, snd (put_absent s k b n))"
  using supported [of s k b n] by (cases "put_absent s k b n") (auto simp: put_once_def capability Let_def)

lemma put_once_keeps:
  assumes "put_once S I s k b n = (s', atomic, err)"
  shows "atomic" and "obj s k \<noteq> None \<Longrightarrow> s' = s \<and> err \<noteq> None"
    and "err = None \<Longrightarrow> obj s k = None \<and> map_option fst (obj s' k) = Some b"
    and "k' \<noteq> k \<Longrightarrow> obj s' k' = obj s k'"
    and "err = Some ErrExists \<Longrightarrow> obj s k \<noteq> None" and "err \<noteq> None \<Longrightarrow> s' = s"
proof -
  have r: "put_absent s k b n = (s', err)" and "atomic"
    using assms by (cases "put_absent s k b n"; simp add: put_once_absent)+
  then show "atomic" "k' \<noteq> k \<Longrightarrow> obj s' k' = obj s k'" "err = None \<Longrightarrow> obj s k = None \<and> map_option fst (obj s' k) = Some b"
    "err = Some ErrExists \<Longrightarrow> obj s k \<noteq> None" "err \<noteq> None \<Longrightarrow> s' = s"
    using absent_ok absent_other absent_exists absent_failed by auto
  show "obj s k \<noteq> None \<Longrightarrow> s' = s \<and> err \<noteq> None"
    using r absent_ok absent_failed by (cases err) auto
qed

end

text \<open>
  The capability is optional. \<open>write_once_store\<close> is what a client can rely on in any store,
  with the capability (possibly answering that it is unsupported) or without it, and whichever
  reads, writes and deletions fail: what is read is there, what is said not to be there is not,
  and exclusive creation creates only what is absent.
\<close>

locale write_once_store =
  fixes S :: "'s store_ops" and obj :: "'s \<Rightarrow> string \<Rightarrow> (string \<times> instant) option"
  assumes once_get: "s_get S s k = Inr b \<Longrightarrow> map_option fst (obj s k) = Some b"
    and once_missing: "s_get S s k = Inl ErrNotFound \<Longrightarrow> obj s k = None"
    and once_exists: "s_exists S s k = Inr present \<Longrightarrow> present \<longleftrightarrow> obj s k \<noteq> None"
    and once_deleted: "s_delete S s k = (s', None) \<Longrightarrow> obj s' k = None"
    and once_delete_other: "s_delete S s k = (s', e) \<Longrightarrow> k' \<noteq> k \<Longrightarrow> obj s' k' = obj s k'"
    and once_delete_failed: "s_delete S s k = (s', Some err) \<Longrightarrow> obj s' k = obj s k"
    and once_ok: "s_put_absent S = Some f \<Longrightarrow> f s k b n = (s', None) \<Longrightarrow> map_option fst (obj s' k) = Some b"
    and once_present: "s_put_absent S = Some f \<Longrightarrow> f s k b n = (s', e) \<Longrightarrow> obj s k \<noteq> None \<Longrightarrow> obj s' k = obj s k \<and> e \<noteq> None"
begin

lemma put_once_present:
  assumes "put_once S I s k b n = (s', atomic, err)" and "obj s k \<noteq> None"
  shows "obj s' k = obj s k \<and> err \<noteq> None"
proof -
  have fallback: "obj t' k = obj t k \<and> e \<noteq> None"
    if "put_once_fallback S I t k b n = (t', a, e)" "obj t k \<noteq> None" for t t' a e
    using that once_exists [of t k] by (auto simp: put_once_fallback_def split: sum.splits if_splits)
  show ?thesis
  proof (cases "s_put_absent S")
    case None
    then show ?thesis using assms fallback by (simp add: put_once_def)
  next
    case (Some f)
    obtain s1 e1 where f: "f s k b n = (s1, e1)" by fastforce
    have same: "obj s1 k = obj s k" and "e1 \<noteq> None" using once_present [OF Some f assms(2)] by simp_all
    then show ?thesis
      using assms fallback [of s1 s' atomic err] by (cases "e1 = Some ErrUnsupported") (auto simp: put_once_def Some f Let_def)
  qed
qed

lemma put_once_atomic:
  assumes "put_once S I s k b n = (s', True, None)"
  shows "s_put_absent S \<noteq> None" and "map_option fst (obj s' k) = Some b"
proof -
  have "\<not> fst (snd (put_once_fallback S I t k b n))" for t
    by (auto simp: put_once_fallback_def Let_def split: sum.splits)
  then have no: "put_once_fallback S I t k b n \<noteq> (s', True, None)" for t by (metis fst_conv snd_conv)
  then show some: "s_put_absent S \<noteq> None" using assms by (cases "s_put_absent S") (simp_all add: put_once_def)
  then obtain f where f: "s_put_absent S = Some f" by blast
  have "f s k b n = (s', None)" using assms no f by (cases "f s k b n") (auto simp: put_once_def Let_def split: if_splits)
  then show "map_option fst (obj s' k) = Some b" by (rule once_ok [OF f])
qed

end

sublocale exclusive_store \<subseteq> write_once_store
proof
  fix s k b s' e k' present err
  show "s_get S s k = Inr b \<Longrightarrow> map_option fst (obj s k) = Some b" by (rule get_ok)
  show "s_get S s k = Inl ErrNotFound \<Longrightarrow> obj s k = None" by (simp only: get_missing)
  show "s_exists S s k = Inr present \<Longrightarrow> present \<longleftrightarrow> obj s k \<noteq> None" by (rule exists_ok)
  show "s_delete S s k = (s', None) \<Longrightarrow> obj s' k = None" by (rule delete_ok)
  show "s_delete S s k = (s', e) \<Longrightarrow> k' \<noteq> k \<Longrightarrow> obj s' k' = obj s k'" by (rule delete_other)
  show "s_delete S s k = (s', Some err) \<Longrightarrow> obj s' k = obj s k" by (rule delete_failed)
next
  fix f s k b n s' e
  assume "s_put_absent S = Some f"
  then have f: "f = put_absent" by (simp add: capability)
  show "f s k b n = (s', None) \<Longrightarrow> map_option fst (obj s' k) = Some b" using absent_ok by (simp add: f)
  show "f s k b n = (s', e) \<Longrightarrow> obj s k \<noteq> None \<Longrightarrow> obj s' k = obj s k \<and> e \<noteq> None"
    using absent_ok [of s k b n s'] absent_failed [of s k b n s'] by (cases e) (auto simp: f)
qed

section \<open>The in-memory store keeps the contract\<close>

definition mem_obj :: "memory \<Rightarrow> string \<Rightarrow> (string \<times> instant) option" where
  "mem_obj m k = map_option (\<lambda>b. (b, mem_time m k)) (map_of (mem_data m) k)"

lemma mem_obj_store: "mem_obj (mem_store m k b) k' = (if k' = k then Some (b, mem_now m) else mem_obj m k')"
  by (simp add: mem_obj_def mem_store_def mem_time_def update_conv')

lemma mem_obj_delete: "mem_obj (fst (mem_delete m k)) k' = (if k' = k then None else mem_obj m k')"
  by (simp add: mem_obj_def mem_delete_def mem_time_def delete_conv')

lemma mem_put_cases: "mem_put m k b n = (m', e) \<Longrightarrow> (e = None \<and> m' = mem_store m k b) \<or> (e \<noteq> None \<and> m' = m)"
  by (auto simp: mem_put_def mem_read_def split: option.splits sum.splits)

lemma mem_put_absent_cases:
  "mem_put_if_absent m k b n = (m', e) \<Longrightarrow>
     (e = None \<and> m' = mem_store m k b \<and> mem_obj m k = None) \<or> (e \<noteq> None \<and> m' = m \<and> e \<noteq> Some ErrUnsupported \<and> (e = Some ErrExists \<longrightarrow> mem_obj m k \<noteq> None))"
  by (auto simp: mem_put_if_absent_def mem_read_def mem_obj_def valid_key_def check_size_def split: option.splits sum.splits if_splits)

lemma map_of_clearjunk_iff: "(k, b) \<in> set (AList.clearjunk xs) \<longleftrightarrow> map_of xs k = Some b"
  by (metis distinct_clearjunk map_of_clearjunk map_of_eq_Some_iff)

lemma mem_list_set:
  "set (fst (mem_list m p)) = {\<lparr>oi_key = k, oi_size = int (length b), oi_modified = t\<rparr> | k b t. has_prefix k p \<and> mem_obj m k = Some (b, t)}"
  by (auto simp: mem_list_def mem_obj_def map_of_clearjunk_iff)

lemma mem_list_distinct: "distinct (map oi_key (fst (mem_list m p)))"
proof -
  define g where "g = (\<lambda>(k, b :: string). \<lparr>oi_key = k, oi_size = int (length b), oi_modified = mem_time m k\<rparr>)"
  define xs where "xs = filter (\<lambda>(k, b :: string). has_prefix k p) (AList.clearjunk (mem_data m))"
  have "distinct (map fst xs)" unfolding xs_def by (rule distinct_map_filter) simp
  moreover have "map oi_key (map g xs) = map fst xs" by (auto simp: g_def)
  ultimately have "distinct (map oi_key (map g xs))" by (simp only:)
  moreover have "mset (map oi_key (sort_key oi_key ys)) = mset (map oi_key ys)" for ys by simp
  ultimately have "distinct (map oi_key (sort_key oi_key (map g xs)))" using mset_eq_imp_distinct_iff by blast
  then show ?thesis by (simp add: mem_list_def g_def xs_def)
qed

lemma mem_list_infos: "mem_list m p = (infos, e) \<Longrightarrow> infos = fst (mem_list m p) \<and> e = None"
  by (auto simp: mem_list_def)

interpretation mem: object_store memory_ops mem_obj
proof unfold_locales
  fix m m' :: memory and k k' b p :: string and n infos err e
  show "s_get memory_ops m k = Inr b \<Longrightarrow> map_option fst (mem_obj m k) = Some b"
    "s_get memory_ops m k = Inl ErrNotFound \<longleftrightarrow> mem_obj m k = None"
    by (auto simp: memory_ops_def mem_get_def mem_obj_def split: option.splits)
  show "s_put memory_ops m k b n = (m', None) \<Longrightarrow> map_option fst (mem_obj m' k) = Some b"
    "s_put memory_ops m k b n = (m', e) \<Longrightarrow> mem_obj m' k = mem_obj m k \<or> map_option fst (mem_obj m' k) = Some b"
    "s_put memory_ops m k b n = (m', e) \<Longrightarrow> k' \<noteq> k \<Longrightarrow> mem_obj m' k' = mem_obj m k'"
    by (auto simp: memory_ops_def mem_obj_store dest!: mem_put_cases)
  show "s_exists memory_ops m k = Inr present \<Longrightarrow> present \<longleftrightarrow> mem_obj m k \<noteq> None" for present
    by (auto simp: memory_ops_def mem_exists_def mem_obj_def)
  show "s_delete memory_ops m k = (m', None) \<Longrightarrow> mem_obj m' k = None"
    "s_delete memory_ops m k = (m', e) \<Longrightarrow> k' \<noteq> k \<Longrightarrow> mem_obj m' k' = mem_obj m k'"
    "s_delete memory_ops m k = (m', Some err) \<Longrightarrow> mem_obj m' k' = mem_obj m k'"
    using mem_obj_delete [of m k] by (auto simp: memory_ops_def mem_delete_def)
  show "s_list memory_ops m p = (infos, None) \<Longrightarrow> set infos =
      {\<lparr>oi_key = k, oi_size = int (length b), oi_modified = t\<rparr> | k b t. has_prefix k p \<and> mem_obj m k = Some (b, t)}"
    "s_list memory_ops m p = (infos, None) \<Longrightarrow> distinct (map oi_key infos)"
    by (simp_all add: memory_ops_def) (metis mem_list_infos mem_list_set, metis mem_list_infos mem_list_distinct)
qed

interpretation memx: exclusive_store memory_ops mem_obj mem_put_if_absent
proof unfold_locales
  fix m m' :: memory and k k' b :: string and n err e
  show "s_put_absent memory_ops = Some mem_put_if_absent" by (simp add: memory_ops_def)
  show "mem_put_if_absent m k b n = (m', e) \<Longrightarrow> e \<noteq> Some ErrUnsupported"
    "mem_put_if_absent m k b n = (m', None) \<Longrightarrow> mem_obj m k = None \<and> map_option fst (mem_obj m' k) = Some b"
    "mem_put_if_absent m k b n = (m', Some ErrExists) \<Longrightarrow> mem_obj m k \<noteq> None"
    "mem_put_if_absent m k b n = (m', Some err) \<Longrightarrow> m' = m"
    "mem_put_if_absent m k b n = (m', e) \<Longrightarrow> k' \<noteq> k \<Longrightarrow> mem_obj m' k' = mem_obj m k'"
    by (auto simp: mem_obj_store dest!: mem_put_absent_cases)
qed

text \<open>
  The in-memory store with its capability hidden, \<open>plainStore\<close> of \<^verbatim>\<open>store_test.go\<close>, keeps the
  weaker contract, and also when the reads that \<open>bad\<close> selects fail.
\<close>

definition plain_ops :: "(memory \<Rightarrow> string \<Rightarrow> bool) \<Rightarrow> memory store_ops" where
  "plain_ops bad = memory_ops\<lparr>s_get := (\<lambda>m k. if bad m k then Inl (Backend ''timeout'') else mem_get m k), s_put_absent := None\<rparr>"

lemma plain_ops_simps [simp]:
  "s_get (plain_ops bad) m k = (if bad m k then Inl (Backend ''timeout'') else mem_get m k)"
  "s_put (plain_ops bad) = mem_put" "s_exists (plain_ops bad) = mem_exists"
  "s_delete (plain_ops bad) = mem_delete" "s_put_absent (plain_ops bad) = None"
  by (simp_all add: plain_ops_def memory_ops_def)

interpretation plain: write_once_store "plain_ops bad" mem_obj for bad
proof
  fix m m' :: memory and k k' b :: string and e err
  show "s_get (plain_ops bad) m k = Inr b \<Longrightarrow> map_option fst (mem_obj m k) = Some b"
    "s_get (plain_ops bad) m k = Inl ErrNotFound \<Longrightarrow> mem_obj m k = None"
    by (auto simp: mem_get_def mem_obj_def split: if_splits option.splits)
  show "s_exists (plain_ops bad) m k = Inr present \<Longrightarrow> present \<longleftrightarrow> mem_obj m k \<noteq> None" for present
    by (auto simp: mem_exists_def mem_obj_def)
  show "s_delete (plain_ops bad) m k = (m', None) \<Longrightarrow> mem_obj m' k = None"
    "s_delete (plain_ops bad) m k = (m', e) \<Longrightarrow> k' \<noteq> k \<Longrightarrow> mem_obj m' k' = mem_obj m k'"
    "s_delete (plain_ops bad) m k = (m', Some err) \<Longrightarrow> mem_obj m' k = mem_obj m k"
    using mem_obj_delete [of m k] by (auto simp: mem_delete_def)
qed simp_all

section \<open>Properties\<close>

text \<open>
  PutOnce on the in-memory store is write-once and atomic: an existing object, whatever
  the key, is never changed, success means that the key was absent and now holds exactly the
  bytes given, under a valid key and with the announced size, and a failure changes nothing.
\<close>
theorem put_once_write_once:
  assumes "put_once memory_ops I m key b n = (m', atomic, err)"
  shows "atomic \<and> (mem_obj m k \<noteq> None \<longrightarrow> mem_obj m' k = mem_obj m k) \<and> (err \<noteq> None \<longrightarrow> m' = m)
    \<and> (err = None \<longleftrightarrow> valid_key key = None \<and> mem_put_err m key = None \<and> (n < 0 \<or> n = int (length b)) \<and> mem_obj m key = None)
    \<and> (err = None \<longrightarrow> mem_obj m' key = Some (b, mem_now m))"
proof -
  have run: "mem_put_if_absent m key b n = (m', err)" "atomic"
    using assms by (cases "mem_put_if_absent m key b n"; simp add: memx.put_once_absent)+
  have "err = None \<longleftrightarrow> valid_key key = None \<and> mem_put_err m key = None \<and> (n < 0 \<or> n = int (length b)) \<and> mem_obj m key = None"
    using run(1) by (auto simp: mem_put_if_absent_def mem_read_def check_size_def mem_obj_def not_le split: option.splits sum.splits if_splits)
  then show ?thesis
    using mem_put_absent_cases [OF run(1)] run(2) by (auto simp: mem_obj_store)
qed

text \<open>
  No stored key can escape the root of a file system or be read differently by another
  backend: accepted keys are non-empty, relative, without backslashes, and no segment is
  empty, a dot or two dots.
\<close>
theorem valid_key_exact:
  "valid_key key = None \<longleftrightarrow> CHR 0x5C \<notin> set key
     \<and> list_all (\<lambda>seg. seg \<notin> {[], ''.'', ''..''}) (split_on (CHR ''/'') key)"
proof -
  have "list_ex (\<lambda>seg. seg = []) (split_on (CHR ''/'') key)" if "key = [] \<or> has_prefix key ''/''"
    using that by (cases key) (auto simp: has_prefix_def)
  then show ?thesis by (auto simp: valid_key_def list_ex_iff list_all_iff)
qed

lemma put_once_write_once_witness:
  "mem_obj (fst (put_once memory_ops id (new_memory 5) ''a/b'' ''xy'' 2)) ''a/b'' = Some (''xy'', 5)"
proof -
  obtain m' atomic err where run: "put_once memory_ops id (new_memory 5) ''a/b'' ''xy'' 2 = (m', atomic, err)"
    by (cases "put_once memory_ops id (new_memory 5) ''a/b'' ''xy'' 2") auto
  have key: "valid_key ''a/b'' = None" by (simp add: valid_key_def has_prefix_def)
  have fresh: "mem_obj (new_memory 5) ''a/b'' = None" "mem_put_err (new_memory 5) ''a/b'' = None" "mem_now (new_memory 5) = 5"
    by (simp_all add: new_memory_def mem_obj_def)
  show ?thesis
    using put_once_write_once [OF run, of "''a/b''"] by (simp add: run key fresh)
qed

lemma mem_get_range_window:
  "0 \<le> off \<Longrightarrow> 0 \<le> n \<Longrightarrow> map_of (mem_data m) key = Some b \<Longrightarrow>
     mem_get_range m key off n = Inr (take (nat n) (drop (nat off) b))"
  by (auto simp: mem_get_range_def slice_def Let_def nat_add_distrib)

end
