(* ===== verification/Lease.thy ===== *)
theory Lease
  imports Objects Go_Json
begin

text \<open>
  The single-writer lease, \<^verbatim>\<open>internal/lease/lease.go\<close>, over any store. Other
  writers, the clock and the cancellation of the context are the environment: before its
  n-th step the operation sees what the others did to the store, and it reads the clock at a
  step; \<open>env_wait n d\<close> is the step at which a sleep of length \<open>d\<close> begun at step
  \<open>n\<close> ends. Decoding a lease object from JSON is the argument \<open>D\<close>.
\<close>

section \<open>Records, options and the environment\<close>

definition LeaseKey :: string where "LeaseKey = ''locks/worker.json''"

record lease_record =
  l_holder :: string
  l_run :: string
  l_trigger :: string
  l_command :: string
  l_acquired :: instant
  l_expires :: instant

record lease_options =
  lo_ttl :: int
  lo_wait :: int
  lo_poll :: int

record 's lease_env =
  env_act :: "nat \<Rightarrow> 's \<Rightarrow> 's"
  env_clock :: "nat \<Rightarrow> instant"
  env_cancel :: "nat \<Rightarrow> bool"
  env_wait :: "nat \<Rightarrow> int \<Rightarrow> nat"

datatype lease_error = Held lease_record | Held_unknown read_error | Lost_unreadable read_error | Lost_to string
  | Acquire_failed store_error | Remove_stale store_error | Contention | Ttl_not_positive | Cancelled
and read_error = Read_failed store_error | Corrupt

definition lease_json :: "lease_record \<Rightarrow> json" where
  "lease_json r = JObject [(''holder'', JString (l_holder r)), (''run_id'', JString (l_run r)),
     (''trigger'', JString (l_trigger r)), (''command'', JString (l_command r)),
     (''acquired_at'', JString (rfc3339_nano (l_acquired r))), (''expires_at'', JString (rfc3339_nano (l_expires r)))]"

definition lease_body :: "lease_record \<Rightarrow> string" where
  "lease_body r = json_text (lease_json r)"

section \<open>Operations\<close>

definition lease_read :: "'s store_ops \<Rightarrow> (string \<Rightarrow> lease_record option) \<Rightarrow> 's \<Rightarrow> read_error + lease_record" where
  "lease_read S D s =
    (case s_get S s LeaseKey of Inl e \<Rightarrow> Inl (Read_failed e)
     | Inr b \<Rightarrow> (case D (take 65536 b) of None \<Rightarrow> Inl Corrupt | Some r \<Rightarrow> Inr r))"

definition lease_verify :: "'s store_ops \<Rightarrow> (string \<Rightarrow> lease_record option) \<Rightarrow> lease_record \<Rightarrow> 's \<Rightarrow> lease_error option" where
  "lease_verify S D rec s =
    (case lease_read S D s of Inl e \<Rightarrow> Some (Lost_unreadable e)
     | Inr cur \<Rightarrow> if l_holder cur \<noteq> l_holder rec then Some (Lost_to (l_holder cur)) else None)"

text \<open>\<open>n\<close> counts the steps taken; the result carries the store and the count on.\<close>

fun try_acquire :: "'s store_ops \<Rightarrow> (string \<Rightarrow> lease_record option) \<Rightarrow> 's lease_env \<Rightarrow> lease_options \<Rightarrow> lease_record
    \<Rightarrow> nat \<Rightarrow> 's \<times> nat \<Rightarrow> ('s \<times> nat) \<times> (lease_error + lease_record)" where
  "try_acquire S D E opt rec 0 (s, n) = ((s, n), Inl Contention)"
| "try_acquire S D E opt rec (Suc k) (s, n) =
    (let now = env_clock E n;
         rec' = rec\<lparr>l_acquired := now, l_expires := now + lo_ttl opt\<rparr>;
         body = lease_body rec';
         p = put_once S (env_act E (n + 1)) (env_act E n s) LeaseKey body (int (length body));
         s2 = fst p; atomic = fst (snd p); err = snd (snd p)
     in case err of
       None \<Rightarrow>
         if \<not> atomic then
           (let s3 = env_act E (n + 2) s2 in
            case lease_verify S D rec' s3 of Some e \<Rightarrow> ((s3, n + 3), Inl e) | None \<Rightarrow> ((s3, n + 3), Inr rec'))
         else ((s2, n + 2), Inr rec')
     | Some e \<Rightarrow>
         if e \<noteq> ErrExists then ((s2, n + 2), Inl (Acquire_failed e))
         else
           let s3 = env_act E (n + 2) s2 in
           case lease_read S D s3 of
             Inl e \<Rightarrow> if e = Read_failed ErrNotFound then try_acquire S D E opt rec k (s3, n + 3)
               else ((s3, n + 3), Inl (Held_unknown e))
           | Inr cur \<Rightarrow>
               if now < l_expires cur then ((s3, n + 3), Inl (Held cur))
               else
                 let d = s_delete S (env_act E (n + 3) s3) LeaseKey in
                 case snd d of Some e \<Rightarrow> ((fst d, n + 4), Inl (Remove_stale e))
                 | None \<Rightarrow> try_acquire S D E opt rec k (fst d, n + 4))"

definition is_held :: "lease_error + lease_record \<Rightarrow> bool" where
  "is_held r = (case r of Inl (Held _) \<Rightarrow> True | Inl (Held_unknown _) \<Rightarrow> True | _ \<Rightarrow> False)"

text \<open>Waiting for a held lease; \<open>fuel\<close> bounds the number of tries.\<close>

fun acquire_loop :: "'s store_ops \<Rightarrow> (string \<Rightarrow> lease_record option) \<Rightarrow> 's lease_env \<Rightarrow> lease_options \<Rightarrow> lease_record
    \<Rightarrow> instant \<Rightarrow> nat \<Rightarrow> 's \<times> nat \<Rightarrow> (('s \<times> nat) \<times> (lease_error + lease_record)) option" where
  "acquire_loop S D E opt rec deadline 0 w = None"
| "acquire_loop S D E opt rec deadline (Suc fuel) w =
    (let r = try_acquire S D E opt rec 3 w; w' = fst r; n = snd w' in
     if \<not> is_held (snd r) then Some r
     else if \<not> env_clock E n < deadline then Some r
     else if env_cancel E n then Some (w', Inl Cancelled)
     else acquire_loop S D E opt rec deadline fuel (fst w', env_wait E n (lo_poll opt)))"

definition acquire :: "'s store_ops \<Rightarrow> (string \<Rightarrow> lease_record option) \<Rightarrow> 's lease_env \<Rightarrow> lease_options \<Rightarrow> lease_record
    \<Rightarrow> nat \<Rightarrow> 's \<times> nat \<Rightarrow> (('s \<times> nat) \<times> (lease_error + lease_record)) option" where
  "acquire S D E opt rec fuel w =
    (let opt' = (if lo_poll opt \<le> 0 then opt\<lparr>lo_poll := 10 * second\<rparr> else opt) in
     if lo_ttl opt \<le> 0 then Some (w, Inl Ttl_not_positive)
     else acquire_loop S D E opt' rec (env_clock E (snd w) + lo_wait opt) fuel (fst w, snd w + 1))"

definition release :: "'s store_ops \<Rightarrow> (string \<Rightarrow> lease_record option) \<Rightarrow> ('s \<Rightarrow> 's) \<Rightarrow> lease_record \<Rightarrow> 's \<Rightarrow> 's \<times> read_error option" where
  "release S D I rec s =
    (case lease_read S D s of
       Inl e \<Rightarrow> if e = Read_failed ErrNotFound then (s, None) else (s, Some e)
     | Inr cur \<Rightarrow>
         if l_holder cur \<noteq> l_holder rec then (s, None)
         else (let d = s_delete S (I s) LeaseKey in (fst d, map_option Read_failed (snd d))))"

section \<open>On any store\<close>

definition protected :: "(string \<Rightarrow> lease_record option) \<Rightarrow> 's lease_env \<Rightarrow> string \<Rightarrow> bool" where
  "protected D E b \<longleftrightarrow> (case D (take 65536 b) of None \<Rightarrow> True | Some cur \<Rightarrow> (\<forall>n. env_clock E n < l_expires cur))"

text \<open>
  A lease that was acquired is recorded in the store: exclusive creation put its body there,
  or, without it, the store was read again and named the holder.
\<close>

definition recorded :: "'s store_ops \<Rightarrow> ('s \<Rightarrow> string \<Rightarrow> (string \<times> instant) option) \<Rightarrow> (string \<Rightarrow> lease_record option)
    \<Rightarrow> lease_record \<Rightarrow> 's \<Rightarrow> lease_record \<Rightarrow> bool" where
  "recorded S obj D rec s r \<longleftrightarrow> l_holder r = l_holder rec \<and>
     (s_put_absent S \<noteq> None \<and> map_option fst (obj s LeaseKey) = Some (lease_body r) \<or> lease_verify S D r s = None)"

context write_once_store
begin

lemma lease_read_content: "lease_read S D s = Inr cur \<Longrightarrow> \<exists>b t. obj s LeaseKey = Some (b, t) \<and> D (take 65536 b) = Some cur"
  using once_get [of s LeaseKey] by (auto simp: lease_read_def split: sum.splits option.splits)

lemma lease_read_present: "obj s LeaseKey \<noteq> None \<Longrightarrow> lease_read S D s \<noteq> Inl (Read_failed ErrNotFound)"
  using once_missing [of s LeaseKey] by (auto simp: lease_read_def split: sum.splits option.splits)

text \<open>
  Whatever the others do to other keys, a lease that is alive or cannot be read survives,
  with or without exclusive creation and whichever reads fail.
\<close>

lemma try_acquire_respects:
  assumes env: "\<And>i s'. map_option fst (obj s' LeaseKey) = Some b \<Longrightarrow> map_option fst (obj (env_act E i s') LeaseKey) = Some b"
    and live: "protected D E b"
    and start: "map_option fst (obj s LeaseKey) = Some b"
    and run: "try_acquire S D E opt rec k (s, n) = (w, res)"
  shows "map_option fst (obj (fst w) LeaseKey) = Some b \<and> (\<forall>r. res \<noteq> Inr r)"
proof (cases k)
  case (Suc k')
  define body where "body = lease_body (rec\<lparr>l_acquired := env_clock E n, l_expires := env_clock E n + lo_ttl opt\<rparr>)"
  obtain s2 atomic err where p: "put_once S (env_act E (n + 1)) (env_act E n s) LeaseKey body (int (length body)) = (s2, atomic, err)"
    by (metis prod_cases3)
  have s1: "map_option fst (obj (env_act E n s) LeaseKey) = Some b" by (rule env [OF start])
  then have "obj s2 LeaseKey = obj (env_act E n s) LeaseKey" "err \<noteq> None" using put_once_present [OF p] by auto
  then obtain e where s2: "map_option fst (obj s2 LeaseKey) = Some b" and e: "err = Some e" using s1 by auto
  define s3 where "s3 = env_act E (n + 2) s2"
  have s3: "map_option fst (obj s3 LeaseKey) = Some b" unfolding s3_def by (rule env [OF s2])
  note run = run [unfolded Suc try_acquire.simps Let_def, folded body_def, unfolded p e fst_conv snd_conv option.case, folded s3_def]
  show ?thesis
  proof (cases "lease_read S D s3")
    case (Inl e')
    then have "e' \<noteq> Read_failed ErrNotFound" using lease_read_present [of s3 D] s3 by auto
    then show ?thesis using run Inl s2 s3 by (auto split: if_splits)
  next
    case (Inr cur)
    then have "D (take 65536 b) = Some cur" using lease_read_content [OF Inr] s3 by auto
    then have "env_clock E n < l_expires cur" using live by (simp add: protected_def)
    then show ?thesis using run Inr s2 s3 by (auto split: if_splits)
  qed
qed (use start run in auto)

lemma acquire_loop_respects:
  assumes env: "\<And>i s'. map_option fst (obj s' LeaseKey) = Some b \<Longrightarrow> map_option fst (obj (env_act E i s') LeaseKey) = Some b"
    and live: "protected D E b"
    and "map_option fst (obj s LeaseKey) = Some b"
    and "acquire_loop S D E opt rec deadline fuel (s, n) = Some (w, res)"
  shows "map_option fst (obj (fst w) LeaseKey) = Some b \<and> (\<forall>r. res \<noteq> Inr r)"
  using assms(3,4)
proof (induction fuel arbitrary: s n)
  case (Suc fuel)
  obtain s' n' r where t: "try_acquire S D E opt rec 3 (s, n) = ((s', n'), r)" by (metis prod_cases3 surj_pair)
  note one = try_acquire_respects [OF env live Suc.prems(1) t]
  show ?case
    using Suc.prems(2) one Suc.IH [of s' "env_wait E n' (lo_poll opt)"]
    by (auto simp: t Let_def split: if_splits)
qed simp

lemma try_acquire_records:
  "try_acquire S D E opt rec k (s, n) = ((s', n'), Inr r) \<Longrightarrow> recorded S obj D rec s' r"
proof (induction k arbitrary: s n)
  case (Suc k)
  define rec' where "rec' = rec\<lparr>l_acquired := env_clock E n, l_expires := env_clock E n + lo_ttl opt\<rparr>"
  obtain s2 atomic err where p: "put_once S (env_act E (n + 1)) (env_act E n s) LeaseKey (lease_body rec') (int (length (lease_body rec'))) = (s2, atomic, err)"
    by (metis prod_cases3)
  note run = Suc.prems [unfolded try_acquire.simps Let_def, folded rec'_def, unfolded p fst_conv snd_conv]
  have holder: "l_holder rec' = l_holder rec" by (simp add: rec'_def)
  show ?case
  proof (cases err)
    case None
    then show ?thesis
      using run holder put_once_atomic [of "env_act E (n + 1)" "env_act E n s" LeaseKey "lease_body rec'" _ s2] p
      by (cases atomic) (auto simp: recorded_def split: option.splits)
  next
    case (Some e)
    define s3 where "s3 = env_act E (n + 2) s2"
    define d where "d = s_delete S (env_act E (n + 3) s3) LeaseKey"
    note run = run [unfolded Some option.case, folded s3_def, folded d_def]
    have e: "e = ErrExists" using run by (auto split: if_splits)
    show ?thesis
    proof (cases "lease_read S D s3")
      case (Inl e')
      then show ?thesis using run e Suc.IH by (auto split: if_splits)
    next
      case (Inr cur)
      then show ?thesis using run e Suc.IH by (cases "snd d") (auto split: if_splits)
    qed
  qed
qed simp

lemma acquire_loop_records:
  assumes "acquire_loop S D E opt rec deadline fuel (s, n) = Some ((s', n'), Inr r)"
  shows "recorded S obj D rec s' r"
  using assms
proof (induction fuel arbitrary: s n)
  case (Suc fuel)
  obtain s1 n1 r1 where t: "try_acquire S D E opt rec 3 (s, n) = ((s1, n1), r1)" by (metis prod_cases3 surj_pair)
  have one: "recorded S obj D rec s1 x" if "r1 = Inr x" for x
    by (rule try_acquire_records [OF t [unfolded that]])
  have step: "acquire_loop S D E opt rec deadline (Suc fuel) (s, n) =
      (if \<not> is_held r1 then Some ((s1, n1), r1)
       else if \<not> env_clock E n1 < deadline then Some ((s1, n1), r1)
       else if env_cancel E n1 then Some ((s1, n1), Inl Cancelled)
       else acquire_loop S D E opt rec deadline fuel (s1, env_wait E n1 (lo_poll opt)))"
    by (simp add: t Let_def)
  show ?case
    using Suc.prems one unfolding step by (auto dest: Suc.IH split: if_splits)
qed simp

lemma recorded_reads:
  assumes "recorded S obj D rec s r" and "D (take 65536 (lease_body r)) = Some r"
  obtains b t cur where "obj s LeaseKey = Some (b, t)" "D (take 65536 b) = Some cur" "l_holder cur = l_holder rec"
    "lease_read S D s = (case s_get S s LeaseKey of Inl e \<Rightarrow> Inl (Read_failed e) | Inr _ \<Rightarrow> Inr cur)"
proof -
  have "\<exists>b t cur. obj s LeaseKey = Some (b, t) \<and> D (take 65536 b) = Some cur \<and> l_holder cur = l_holder rec"
  proof (cases "lease_verify S D r s = None")
    case True
    then obtain cur where "lease_read S D s = Inr cur" "l_holder cur = l_holder r"
      by (auto simp: lease_verify_def split: sum.splits if_splits)
    then show ?thesis using lease_read_content [of D s cur] assms(1) by (auto simp: recorded_def)
  qed (use assms in \<open>auto simp: recorded_def\<close>)
  then obtain b t cur where at: "obj s LeaseKey = Some (b, t)" "D (take 65536 b) = Some cur" "l_holder cur = l_holder rec" by blast
  then have "lease_read S D s = (case s_get S s LeaseKey of Inl e \<Rightarrow> Inl (Read_failed e) | Inr _ \<Rightarrow> Inr cur)"
    using once_get [of s LeaseKey] by (auto simp: lease_read_def split: sum.splits)
  then show ?thesis using that at by blast
qed

end

lemma try_acquire_steps: "try_acquire S D E opt rec k (s, n) = ((s', n'), r) \<Longrightarrow> n \<le> n'"
proof (induction k arbitrary: s n)
  case (Suc k)
  define p where "p = put_once S (env_act E (n + 1)) (env_act E n s) LeaseKey
      (lease_body (rec\<lparr>l_acquired := env_clock E n, l_expires := env_clock E n + lo_ttl opt\<rparr>))
      (int (length (lease_body (rec\<lparr>l_acquired := env_clock E n, l_expires := env_clock E n + lo_ttl opt\<rparr>))))"
  define s3 where "s3 = env_act E (n + 2) (fst p)"
  define d where "d = s_delete S (env_act E (n + 3) s3) LeaseKey"
  note run = Suc.prems [unfolded try_acquire.simps Let_def, folded p_def, folded s3_def, folded d_def]
  show ?case
  proof (cases "snd (snd p)")
    case None
    then show ?thesis using run by (auto split: if_splits option.splits)
  next
    case (Some e)
    have again: "n \<le> n'" if "try_acquire S D E opt rec k (t, n + j) = ((s', n'), r)" for t j
      using Suc.IH [OF that] by simp
    show ?thesis
    proof (cases "lease_read S D s3")
      case (Inl e')
      then show ?thesis using run Some again [of s3 3] by (simp split: if_splits)
    next
      case (Inr cur)
      then show ?thesis using run Some again [of "fst d" 4] by (cases "snd d") (simp_all split: if_splits)
    qed
  qed
qed simp

lemma acquire_loop_returns:
  assumes mono: "\<And>i j. i \<le> j \<Longrightarrow> env_clock E i \<le> env_clock E j"
    and sleeps: "\<And>i. env_clock E i + lo_poll opt \<le> env_clock E (env_wait E i (lo_poll opt))"
    and "deadline \<le> env_clock E n + lo_poll opt * int fuel"
  shows "\<exists>r. acquire_loop S D E opt rec deadline (Suc fuel) (s, n) = Some r"
  using assms(3)
proof (induction fuel arbitrary: s n)
  case 0
  obtain s' n' r where t: "try_acquire S D E opt rec 3 (s, n) = ((s', n'), r)" by (metis prod_cases3 surj_pair)
  have "env_clock E n \<le> env_clock E n'" by (rule mono [OF try_acquire_steps [OF t]])
  then show ?case using 0 by (simp add: t Let_def)
next
  case (Suc fuel)
  obtain s' n' r where t: "try_acquire S D E opt rec 3 (s, n) = ((s', n'), r)" by (metis prod_cases3 surj_pair)
  have "env_clock E n \<le> env_clock E n'" by (rule mono [OF try_acquire_steps [OF t]])
  then have "deadline \<le> env_clock E (env_wait E n' (lo_poll opt)) + lo_poll opt * int fuel"
    using Suc.prems sleeps [of n'] by (simp add: algebra_simps)
  from Suc.IH [OF this] show ?case
    unfolding acquire_loop.simps(2) [of _ _ _ _ _ _ "Suc fuel"] by (auto simp: t Let_def)
qed

section \<open>On the in-memory store\<close>

definition quiet :: "(nat \<Rightarrow> instant) \<Rightarrow> 's lease_env" where
  "quiet clock = \<lparr>env_act = (\<lambda>_ s. s), env_clock = clock, env_cancel = (\<lambda>_. False), env_wait = (\<lambda>n d. n + 1)\<rparr>"

lemma quiet_simps [simp]: "env_act (quiet c) n s = s" "env_clock (quiet c) = c"
  by (simp_all add: quiet_def)

lemma valid_lease_key [simp]: "valid_key LeaseKey = None"
  by (simp add: valid_key_def LeaseKey_def has_prefix_def)

definition stamped :: "lease_record \<Rightarrow> lease_options \<Rightarrow> instant \<Rightarrow> lease_record" where
  "stamped rec opt now = rec\<lparr>l_acquired := now, l_expires := now + lo_ttl opt\<rparr>"

lemma stamped_holder [simp]: "l_holder (stamped rec opt t) = l_holder rec" "l_expires (stamped rec opt t) = t + lo_ttl opt"
  by (simp_all add: stamped_def)

lemma put_once_memory:
  "mem_put_err m LeaseKey = None \<Longrightarrow> put_once memory_ops I m LeaseKey b (int (length b)) =
     (if map_of (mem_data m) LeaseKey = None then (mem_store m LeaseKey b, True, None) else (m, True, Some ErrExists))"
  by (auto simp: memx.put_once_absent mem_put_if_absent_def mem_read_def check_size_def)

definition writable :: "memory \<Rightarrow> bool" where
  "writable m \<longleftrightarrow> mem_put_err m LeaseKey = None"

lemma writable_simps [simp]: "writable (mem_store m k b) = writable m" "writable (fst (mem_delete m k)) = writable m"
  by (simp_all add: writable_def mem_store_def mem_delete_def)

lemma memory_ops_simps [simp]: "s_get memory_ops = mem_get" "s_delete memory_ops = mem_delete"
  by (simp_all add: memory_ops_def)

lemma lease_read_memory:
  "lease_read memory_ops D m = (case map_of (mem_data m) LeaseKey of None \<Rightarrow> Inl (Read_failed ErrNotFound)
     | Some b \<Rightarrow> (case D (take 65536 b) of None \<Rightarrow> Inl Corrupt | Some r \<Rightarrow> Inr r))"
  by (simp add: lease_read_def mem_get_def split: option.splits)

lemma try_acquire_absent:
  assumes "writable m'" and "env_act E n m = m'" and "map_of (mem_data m') LeaseKey = None"
  shows "try_acquire memory_ops D E opt rec (Suc k) (m, n) =
     ((mem_store m' LeaseKey (lease_body (stamped rec opt (env_clock E n))), n + 2), Inr (stamped rec opt (env_clock E n)))"
  using assms by (simp add: Let_def put_once_memory writable_def stamped_def)

lemma try_acquire_present:
  assumes "writable m" and "map_of (mem_data m) LeaseKey = Some b" and "env_act E n m = m" and "env_act E (n + 2) m = m"
  shows "try_acquire memory_ops D E opt rec (Suc k) (m, n) =
     (case D (take 65536 b) of None \<Rightarrow> ((m, n + 3), Inl (Held_unknown Corrupt))
      | Some cur \<Rightarrow> if env_clock E n < l_expires cur then ((m, n + 3), Inl (Held cur))
          else try_acquire memory_ops D E opt rec k (fst (mem_delete (env_act E (n + 3) m) LeaseKey), n + 4))"
  using assms by (simp add: Let_def put_once_memory writable_def lease_read_memory numeral_3_eq_3 mem_delete_def split: option.splits)

lemma lease_exact:
  fixes E :: "memory lease_env"
  assumes "writable m" and "\<And>i s. env_act E i s = s"
  shows "try_acquire memory_ops D E opt rec 3 (m, n) =
    (case map_of (mem_data m) LeaseKey of
       None \<Rightarrow> ((mem_store m LeaseKey (lease_body (stamped rec opt (env_clock E n))), n + 2), Inr (stamped rec opt (env_clock E n)))
     | Some b \<Rightarrow> (case D (take 65536 b) of
         None \<Rightarrow> ((m, n + 3), Inl (Held_unknown Corrupt))
       | Some cur \<Rightarrow>
           if env_clock E n < l_expires cur then ((m, n + 3), Inl (Held cur))
           else ((mem_store (fst (mem_delete m LeaseKey)) LeaseKey (lease_body (stamped rec opt (env_clock E (n + 4)))), n + 6),
                 Inr (stamped rec opt (env_clock E (n + 4))))))"
proof (cases "map_of (mem_data m) LeaseKey")
  case None
  have three: "(3 :: nat) = Suc 2" by simp
  show ?thesis unfolding three None option.case
    by (rule try_acquire_absent) (use None assms in simp_all)
next
  case (Some b)
  have gone: "map_of (mem_data (fst (mem_delete m LeaseKey))) LeaseKey = None"
    by (simp add: mem_delete_def delete_conv')
  have again: "try_acquire memory_ops D E opt rec 2 (fst (mem_delete m LeaseKey), n + 4) =
      ((mem_store (fst (mem_delete m LeaseKey)) LeaseKey (lease_body (stamped rec opt (env_clock E (n + 4)))), n + 4 + 2),
        Inr (stamped rec opt (env_clock E (n + 4))))"
    using try_acquire_absent [of "fst (mem_delete m LeaseKey)" E "n + 4" "fst (mem_delete m LeaseKey)" D opt rec 1] assms gone
    unfolding Suc_1 by simp
  have three: "(3 :: nat) = Suc 2" by simp
  show ?thesis
    unfolding three using assms Some by (subst try_acquire_present) (auto simp: again split: option.splits)
qed

text \<open>
  On the in-memory store, when nobody else interferes, an attempt to take the lease does
  exactly this: it takes an absent lease, it refuses a lease that is still valid and one it
  cannot read, changing nothing, and it replaces an expired one by its own.
\<close>
theorem try_acquire_exact:
  fixes E :: "memory lease_env"
  assumes "writable m" and "\<And>i s. env_act E i s = s"
  shows "try_acquire memory_ops D E opt rec 3 (m, n) =
    (case map_of (mem_data m) LeaseKey of
       None \<Rightarrow> ((mem_store m LeaseKey (lease_body (stamped rec opt (env_clock E n))), n + 2), Inr (stamped rec opt (env_clock E n)))
     | Some b \<Rightarrow> (case D (take 65536 b) of
         None \<Rightarrow> ((m, n + 3), Inl (Held_unknown Corrupt))
       | Some cur \<Rightarrow>
           if env_clock E n < l_expires cur then ((m, n + 3), Inl (Held cur))
           else ((mem_store (fst (mem_delete m LeaseKey)) LeaseKey (lease_body (stamped rec opt (env_clock E (n + 4)))), n + 6),
                 Inr (stamped rec opt (env_clock E (n + 4))))))"
  using assms by (rule lease_exact)

definition body_at :: "memory \<Rightarrow> string option" where
  "body_at m = map_of (mem_data m) LeaseKey"

lemma body_at_obj: "map_option fst (mem_obj m LeaseKey) = body_at m"
  by (simp add: mem_obj_def body_at_def option.map_comp o_def option.map_ident)

text \<open>
  C27: On any store, whether or not it can create exclusively and whichever of its operations
  fail, a lease that has not expired, and one that cannot be decoded, is never stolen: however
  long a writer waits for it and whatever others do meanwhile to the rest of the store, the
  lease object keeps its content and the writer does not get the lease, also when a backend
  error makes it unreadable.
\<close>
theorem lease_never_stolen:
  assumes store: "write_once_store S obj"
    and others: "\<And>i s'. map_option fst (obj s' LeaseKey) = Some b \<Longrightarrow> map_option fst (obj (env_act E i s') LeaseKey) = Some b"
    and alive: "case D (take 65536 b) of None \<Rightarrow> True | Some cur \<Rightarrow> \<forall>n. env_clock E n < l_expires cur"
    and present: "map_option fst (obj s LeaseKey) = Some b"
    and run: "acquire S D E opt rec fuel (s, n) = Some ((s', n'), res)"
  shows "map_option fst (obj s' LeaseKey) = Some b \<and> (\<forall>r. res \<noteq> Inr r)"
proof (cases "lo_ttl opt \<le> 0")
  case False
  define opt' where "opt' = (if lo_poll opt \<le> 0 then opt\<lparr>lo_poll := 10 * second\<rparr> else opt)"
  have loop: "acquire_loop S D E opt' rec (env_clock E n + lo_wait opt) fuel (s, n + 1) = Some ((s', n'), res)"
    using run False by (simp add: acquire_def Let_def opt'_def)
  show ?thesis
    using write_once_store.acquire_loop_respects [OF store others _ present loop] alive by (simp add: protected_def)
qed (use run present in \<open>auto simp: acquire_def Let_def\<close>)

text \<open>
  C28: On any store, a writer that acquired the lease is recorded in it: the lease object holds
  a record of its holder id. Where the store cannot create exclusively the acquisition itself
  has verified that. From then on verifying fails only if the object cannot be read or for
  another holder, who is told whose lease it is; another holder's release leaves the store
  alone; its own release either removes the lease or, when the read or the removal fails, says
  so and leaves it, and it touches nothing else. The codec is only required to decode what was
  just written.
\<close>
theorem acquired_then_verified:
  assumes store: "write_once_store S obj"
    and run: "acquire S D E opt rec fuel (s, n) = Some ((s', n'), Inr r)"
    and codec: "D (take 65536 (lease_body r)) = Some r"
  shows "l_holder r = l_holder rec
    \<and> (\<exists>b t cur. obj s' LeaseKey = Some (b, t) \<and> D (take 65536 b) = Some cur \<and> l_holder cur = l_holder rec)
    \<and> (s_put_absent S = None \<longrightarrow> lease_verify S D r s' = None)
    \<and> lease_verify S D q s' = (case s_get S s' LeaseKey of Inl e \<Rightarrow> Some (Lost_unreadable (Read_failed e))
        | Inr _ \<Rightarrow> if l_holder q = l_holder rec then None else Some (Lost_to (l_holder rec)))
    \<and> (l_holder q \<noteq> l_holder rec \<longrightarrow> release S D id q s' =
        (s', case s_get S s' LeaseKey of Inl e \<Rightarrow> Some (Read_failed e) | Inr _ \<Rightarrow> None))
    \<and> snd (release S D id r s') = (case s_get S s' LeaseKey of Inl e \<Rightarrow> Some (Read_failed e)
        | Inr _ \<Rightarrow> map_option Read_failed (snd (s_delete S s' LeaseKey)))
    \<and> obj (fst (release S D id r s')) LeaseKey = (if snd (release S D id r s') = None then None else obj s' LeaseKey)
    \<and> (\<forall>k. k \<noteq> LeaseKey \<longrightarrow> obj (fst (release S D id r s')) k = obj s' k)"
proof -
  have "lo_ttl opt > 0" using run by (auto simp: acquire_def Let_def split: if_splits)
  define opt' where "opt' = (if lo_poll opt \<le> 0 then opt\<lparr>lo_poll := 10 * second\<rparr> else opt)"
  have "acquire_loop S D E opt' rec (env_clock E n + lo_wait opt) fuel (s, n + 1) = Some ((s', n'), Inr r)"
    using run \<open>lo_ttl opt > 0\<close> by (simp add: acquire_def Let_def opt'_def)
  then have rec: "recorded S obj D rec s' r" by (rule write_once_store.acquire_loop_records [OF store])
  then have holder: "l_holder r = l_holder rec" and plain: "s_put_absent S = None \<longrightarrow> lease_verify S D r s' = None"
    by (auto simp: recorded_def)
  obtain b t cur where at: "obj s' LeaseKey = Some (b, t)" "D (take 65536 b) = Some cur" "l_holder cur = l_holder rec"
    and read: "lease_read S D s' = (case s_get S s' LeaseKey of Inl e \<Rightarrow> Inl (Read_failed e) | Inr _ \<Rightarrow> Inr cur)"
    by (rule write_once_store.recorded_reads [OF store rec codec])
  have present: "s_get S s' LeaseKey \<noteq> Inl ErrNotFound"
    using write_once_store.lease_read_present [OF store, of s' D] at(1) read by auto
  note laws = write_once_store.once_deleted [OF store] write_once_store.once_delete_other [OF store]
    write_once_store.once_delete_failed [OF store]
  show ?thesis
    using holder plain at present laws(1) [of s' LeaseKey] laws(2,3) [of s' LeaseKey]
    by (cases "s_get S s' LeaseKey"; cases "s_delete S s' LeaseKey"; cases "snd (s_delete S s' LeaseKey)")
      (auto simp: lease_verify_def release_def read Let_def)
qed

text \<open>
  C29: Waiting for the lease ends. If the clock never goes back and a sleep of the poll
  interval takes at least that long, \<open>Acquire\<close> returns within one try per poll interval of
  the wait, and one more; the default interval of ten seconds is used when none is set.
\<close>
theorem acquire_returns:
  fixes S :: "'s store_ops"
  assumes mono: "\<And>i j. i \<le> j \<Longrightarrow> env_clock E i \<le> env_clock E j"
    and sleeps: "\<And>i d. env_clock E i + d \<le> env_clock E (env_wait E i d)"
    and poll: "poll = (if lo_poll opt \<le> 0 then 10000000000 else lo_poll opt)"
    and enough: "lo_wait opt \<le> poll * int fuel"
  shows "acquire S D E opt rec (Suc fuel) w \<noteq> None"
proof -
  define opt' where "opt' = (if lo_poll opt \<le> 0 then opt\<lparr>lo_poll := 10 * second\<rparr> else opt)"
  have p: "lo_poll opt' = poll" by (simp add: opt'_def poll second_def)
  have "env_clock E (snd w) \<le> env_clock E (snd w + 1)" by (rule mono) simp
  then have "env_clock E (snd w) + lo_wait opt \<le> env_clock E (snd w + 1) + lo_poll opt' * int fuel"
    using enough p by simp
  from acquire_loop_returns [OF mono sleeps this, of S D rec "fst w"]
  obtain r where loop: "acquire_loop S D E opt' rec (env_clock E (snd w) + lo_wait opt) (Suc fuel) (fst w, snd w + 1) = Some r"
    by blast
  show ?thesis
  proof (cases "lo_ttl opt \<le> 0")
    case False
    have "acquire S D E opt rec (Suc fuel) w =
        acquire_loop S D E opt' rec (env_clock E (snd w) + lo_wait opt) (Suc fuel) (fst w, snd w + 1)"
      using False by (simp only: acquire_def Let_def opt'_def [symmetric] if_False)
    then show ?thesis using loop by simp
  qed (simp add: acquire_def Let_def)
qed

text \<open>
  Stealing an expired lease is not atomic, and verification before the commit is what
  resolves it. When B steals and takes the lease between A's inspection of the expired one
  and A's removal of it, both acquisitions succeed; then exactly one of them, A, still
  verifies, and B is told who holds the lease.
\<close>
theorem steal_race_resolved:
  assumes w: "writable m" and expired: "body_at m = Some b" "D (take 65536 b) = Some old" "l_expires old \<le> now"
    and racer: "env_clock E n = now" "env_act E n m = m" "env_act E (n + 2) m = m"
      "env_act E (n + 3) m = fst (fst (try_acquire memory_ops D (quiet (\<lambda>_. now)) opt recB 3 (m, 0)))"
      "env_act E (n + 4) = (\<lambda>s. s)"
    and later: "env_clock E (n + 4) = now2"
    and codec: "D (take 65536 (lease_body (stamped recA opt now2))) = Some (stamped recA opt now2)"
    and differ: "l_holder recA \<noteq> l_holder recB"
    and res: "try_acquire memory_ops D E opt recA 3 (m, n) = ((m', n'), r)"
  shows "snd (try_acquire memory_ops D (quiet (\<lambda>_. now)) opt recB 3 (m, 0)) = Inr (stamped recB opt now)
    \<and> r = Inr (stamped recA opt now2)
    \<and> lease_verify memory_ops D (stamped recA opt now2) m' = None
    \<and> lease_verify memory_ops D (stamped recB opt now) m' = Some (Lost_to (l_holder recA))"
proof -
  let ?mB = "mem_store (fst (mem_delete m LeaseKey)) LeaseKey (lease_body (stamped recB opt now))"
  have b: "map_of (mem_data m) LeaseKey = Some b" using expired(1) by (simp add: body_at_def)
  have B: "try_acquire memory_ops D (quiet (\<lambda>_. now)) opt recB 3 (m, 0) = ((?mB, 6), Inr (stamped recB opt now))"
    using lease_exact [OF w, of "quiet (\<lambda>_. now)" D opt recB 0] b expired by simp
  define m4 where "m4 = fst (mem_delete ?mB LeaseKey)"
  have gone: "map_of (mem_data m4) LeaseKey = None" by (simp add: m4_def mem_delete_def delete_conv')
  have "writable m4" using w by (simp add: m4_def)
  then have "try_acquire memory_ops D E opt recA (Suc 1) (m4, n + 4) =
      ((mem_store m4 LeaseKey (lease_body (stamped recA opt now2)), n + 4 + 2), Inr (stamped recA opt now2))"
    using try_acquire_absent [of m4 E "n + 4" m4 D opt recA 1] gone racer(5) later by simp
  moreover have "try_acquire memory_ops D E opt recA (Suc 2) (m, n) = try_acquire memory_ops D E opt recA 2 (m4, n + 4)"
    using try_acquire_present [OF w b racer(2,3), of D opt recA 2] expired racer(1,4) B by (simp add: m4_def)
  ultimately have A: "try_acquire memory_ops D E opt recA 3 (m, n) =
      ((mem_store m4 LeaseKey (lease_body (stamped recA opt now2)), n + 4 + 2), Inr (stamped recA opt now2))"
    by (simp only: Suc_1 numeral_3_eq_3 numeral_2_eq_2 One_nat_def)
  have "lease_read memory_ops D (mem_store m4 LeaseKey (lease_body (stamped recA opt now2))) = Inr (stamped recA opt now2)"
    by (simp add: lease_read_memory mem_store_def update_conv' codec)
  then show ?thesis using A res B differ by (auto simp: lease_verify_def)
qed

section \<open>Witnesses\<close>

definition writer :: "string \<Rightarrow> lease_record" where
  "writer h = \<lparr>l_holder = h, l_run = ''r'', l_trigger = ''cron'', l_command = ''pull'', l_acquired = 0, l_expires = 0\<rparr>"

definition sample_options :: lease_options where
  "sample_options = \<lparr>lo_ttl = 100, lo_wait = 0, lo_poll = 0\<rparr>"

definition locked_memory :: memory where
  "locked_memory = mem_store (new_memory 0) LeaseKey ''x''"

lemma locked_memory_simps: "writable locked_memory" "map_of (mem_data locked_memory) LeaseKey = Some ''x''"
  "writable (new_memory 0)" "map_of (mem_data (new_memory 0)) LeaseKey = None"
  by (simp_all add: locked_memory_def writable_def mem_store_def new_memory_def)

lemma try_acquire_exact_witness:
  "try_acquire memory_ops (\<lambda>_. None) (quiet (\<lambda>_. 7)) sample_options (writer ''a'') 3 (locked_memory, 0)
     = ((locked_memory, 3), Inl (Held_unknown Corrupt))"
  using try_acquire_exact [OF locked_memory_simps(1), of "quiet (\<lambda>_. 7)" "\<lambda>_. None" sample_options "writer ''a''" 0]
  by (simp add: locked_memory_simps)

text \<open>A store without exclusive creation whose reads of the lease fail: the lease is held.\<close>

lemma lease_never_stolen_witness:
  "\<exists>w. acquire (plain_ops (\<lambda>_ _. True)) (\<lambda>_. None) (quiet (\<lambda>_. 7)) sample_options (writer ''a'') 1 (locked_memory, 0)
       = Some (w, Inl (Held_unknown (Read_failed (Backend ''timeout''))))
     \<and> map_option fst (mem_obj (fst w) LeaseKey) = Some ''x''"
proof -
  have at: "mem_obj locked_memory LeaseKey \<noteq> None" "map_option fst (mem_obj locked_memory LeaseKey) = Some ''x''"
    using locked_memory_simps by (simp_all add: mem_obj_def)
  have "put_once (plain_ops (\<lambda>_ _. True)) I locked_memory LeaseKey b n = (locked_memory, False, Some ErrExists)" for I b n
    using locked_memory_simps by (simp add: put_once_def put_once_fallback_def mem_exists_def)
  then have run: "acquire (plain_ops (\<lambda>_ _. True)) (\<lambda>_. None) (quiet (\<lambda>_. 7)) sample_options (writer ''a'') 1 (locked_memory, 0)
      = Some ((locked_memory, 4), Inl (Held_unknown (Read_failed (Backend ''timeout''))))"
    using at by (simp add: acquire_def Let_def sample_options_def is_held_def numeral_3_eq_3 lease_read_def)
  show ?thesis
    using lease_never_stolen [OF plain.write_once_store_axioms _ _ at(2) run] run by auto
qed

text \<open>The same store with reads that work: the acquisition verified itself.\<close>

lemma acquired_then_verified_witness:
  "\<exists>w r. acquire (plain_ops (\<lambda>_ _. False)) (\<lambda>_. Some (stamped (writer ''a'') sample_options 7)) (quiet (\<lambda>_. 7)) sample_options
       (writer ''a'') 1 (new_memory 0, 0) = Some (w, Inr r)
     \<and> lease_verify (plain_ops (\<lambda>_ _. False)) (\<lambda>_. Some (stamped (writer ''a'') sample_options 7)) r (fst w) = None"
proof -
  let ?r = "stamped (writer ''a'') sample_options 7" and ?S = "plain_ops (\<lambda>_ _. False)"
  let ?m = "mem_store (new_memory 0) LeaseKey (lease_body ?r)"
  have stamp: "writer ''a''\<lparr>l_acquired := 7, l_expires := 7 + lo_ttl (sample_options\<lparr>lo_poll := 10 * second\<rparr>)\<rparr> = ?r"
    by (simp add: stamped_def)
  have put: "put_once ?S (env_act (quiet c) n) (new_memory 0) LeaseKey (lease_body ?r) (int (length (lease_body ?r))) = (?m, False, None)" for c n
    using locked_memory_simps(3,4)
    by (simp add: put_once_def put_once_fallback_def memory_ops_def mem_exists_def mem_put_def mem_read_def check_size_def new_memory_def)
  have ok: "lease_verify ?S (\<lambda>_. Some ?r) ?r ?m = None"
    by (simp add: lease_verify_def lease_read_def mem_get_def mem_store_def update_conv')
  have run: "acquire ?S (\<lambda>_. Some ?r) (quiet (\<lambda>_. 7)) sample_options (writer ''a'') 1 (new_memory 0, 0) = Some ((?m, 4), Inr ?r)"
  proof -
    have opts: "lo_ttl sample_options = 100" "lo_wait sample_options = 0" "lo_poll sample_options = 0" by (simp_all add: sample_options_def)
    have "try_acquire ?S (\<lambda>_. Some ?r) (quiet (\<lambda>_. 7)) (sample_options\<lparr>lo_poll := 10 * second\<rparr>) (writer ''a'') 3 (new_memory 0, Suc 0)
        = ((?m, 4), Inr ?r)"
      unfolding numeral_3_eq_3 try_acquire.simps by (simp only: Let_def quiet_simps stamp put) (simp add: ok)
    then show ?thesis by (simp add: acquire_def Let_def opts is_held_def)
  qed
  have "s_put_absent ?S = None \<longrightarrow> lease_verify ?S (\<lambda>_. Some ?r) ?r ?m = None"
    using acquired_then_verified [OF plain.write_once_store_axioms run refl, of ?r] by (elim conjE) assumption
  then have "lease_verify ?S (\<lambda>_. Some ?r) ?r ?m = None" by simp
  then show ?thesis using run by (intro exI [of _ "(?m, 4)"] exI [of _ ?r]) simp
qed

definition patient_env :: "memory lease_env" where
  "patient_env = \<lparr>env_act = (\<lambda>_ s. s), env_clock = int, env_cancel = (\<lambda>_. False), env_wait = (\<lambda>i d. i + nat d)\<rparr>"

lemma acquire_returns_witness:
  "acquire memory_ops (\<lambda>_. None) patient_env sample_options (writer ''a'') (Suc 0) (locked_memory, 0) \<noteq> None"
proof (rule acquire_returns [of patient_env "10000000000" sample_options 0 memory_ops])
  show "env_clock patient_env i + d \<le> env_clock patient_env (env_wait patient_env i d)" for i d
    by (simp add: patient_env_def)
qed (simp_all add: patient_env_def sample_options_def)

definition race_codec :: "string \<Rightarrow> lease_record option" where
  "race_codec x = (if x = ''x'' then Some (writer ''old'') else Some (stamped (writer ''a'') sample_options 9))"

definition race_env :: "memory lease_env" where
  "race_env = \<lparr>env_act = (\<lambda>i s. if i = 3
       then fst (fst (try_acquire memory_ops race_codec (quiet (\<lambda>_. 7)) sample_options (writer ''b'') 3 (locked_memory, 0))) else s),
     env_clock = (\<lambda>i. if i < 4 then 7 else 9), env_cancel = (\<lambda>_. False), env_wait = (\<lambda>i d. i)\<rparr>"

lemma steal_race_resolved_witness:
  "\<exists>w. try_acquire memory_ops race_codec race_env sample_options (writer ''a'') 3 (locked_memory, 0)
       = (w, Inr (stamped (writer ''a'') sample_options 9))
     \<and> lease_verify memory_ops race_codec (stamped (writer ''b'') sample_options 7) (fst w) = Some (Lost_to ''a'')"
proof -
  obtain m' n' r where run: "try_acquire memory_ops race_codec race_env sample_options (writer ''a'') 3 (locked_memory, 0) = ((m', n'), r)"
    by (metis prod_cases3 surj_pair)
  have "take 65536 (lease_body q) \<noteq> ''x''" for q
  proof
    assume "take 65536 (lease_body q) = ''x''"
    then have "hd (take 65536 (lease_body q)) = CHR ''x''" by simp
    then show False by (simp add: lease_body_def lease_json_def)
  qed
  then have codec: "race_codec (take 65536 (lease_body (stamped (writer ''a'') sample_options 9))) = Some (stamped (writer ''a'') sample_options 9)"
    by (simp add: race_codec_def)
  have old: "race_codec (take 65536 ''x'') = Some (writer ''old'')" "l_expires (writer ''old'') \<le> 7" "body_at locked_memory = Some ''x''"
    "l_holder (writer ''a'') \<noteq> l_holder (writer ''b'')" "l_holder (writer ''a'') = ''a''"
    by (simp_all add: race_codec_def writer_def body_at_def locked_memory_simps)
  have env: "env_clock race_env 0 = 7" "env_act race_env 0 locked_memory = locked_memory" "env_act race_env (0 + 2) locked_memory = locked_memory"
    "env_act race_env (0 + 3) locked_memory = fst (fst (try_acquire memory_ops race_codec (quiet (\<lambda>_. 7)) sample_options (writer ''b'') 3 (locked_memory, 0)))"
    "env_act race_env (0 + 4) = (\<lambda>s. s)" "env_clock race_env (0 + 4) = 9"
    by (simp_all add: race_env_def fun_eq_iff)
  from steal_race_resolved [OF locked_memory_simps(1) old(3,1,2) env codec old(4) run] show ?thesis
    using run old(5) by auto
qed

end
