(* ===== verification/Gc.thy ===== *)
theory Gc
  imports Objects Manifest
begin

text \<open>
  Garbage collection of blobs, \<^verbatim>\<open>internal/gc/gc.go\<close>, over any store. \<open>D\<close> decodes a
  manifest from JSON; \<open>cancel i\<close> says whether the context is cancelled before the i-th
  deletion. The report is returned with the error, as in the code.
\<close>

section \<open>Operations\<close>

record gc_options =
  g_min_age :: int
  g_now :: instant
  g_apply :: bool

record gc_report =
  gr_manifests :: int
  gr_referenced :: int
  gr_blobs :: int
  gr_unreferenced :: int
  gr_too_young :: int
  gr_deleted :: int
  gr_reclaimable :: int
  gr_freed :: int

datatype gc_error = List_failed store_error | Unreadable_manifest string | Delete_failed string store_error | Gc_cancelled

definition empty_report :: gc_report where
  "empty_report = \<lparr>gr_manifests = 0, gr_referenced = 0, gr_blobs = 0, gr_unreferenced = 0, gr_too_young = 0,
     gr_deleted = 0, gr_reclaimable = 0, gr_freed = 0\<rparr>"

text \<open>Go's \<^verbatim>\<open>path.Base\<close>.\<close>

definition go_base :: "string \<Rightarrow> string" where
  "go_base p =
    (if p = [] then ''.''
     else let q = trim_right p ''/''; i = last_index_byte q (CHR ''/'') in
       if q = [] then ''/'' else if i \<ge> 0 then drop (nat i + 1) q else q)"

definition gc_load :: "'s store_ops \<Rightarrow> (string \<Rightarrow> manifest option) \<Rightarrow> 's \<Rightarrow> string \<Rightarrow> manifest option" where
  "gc_load S D s key =
    (case s_get S s key of Inl _ \<Rightarrow> None
     | Inr b \<Rightarrow> (case manifest_decode D b of Inl _ \<Rightarrow> None | Inr m \<Rightarrow> Some m))"

definition entry_hashes :: "manifest \<Rightarrow> string set" where
  "entry_hashes m = set (filter (\<lambda>h. h \<noteq> []) (map e_sha (entries m)))"

fun gc_references :: "'s store_ops \<Rightarrow> (string \<Rightarrow> manifest option) \<Rightarrow> 's \<Rightarrow> gc_report \<Rightarrow> string set \<Rightarrow> string list
    \<Rightarrow> gc_report \<times> (gc_error + string set)" where
  "gc_references S D s rep refs [] = (rep, Inr refs)"
| "gc_references S D s rep refs (k # ks) =
    (case gc_load S D s k of
       None \<Rightarrow> (rep, Inl (Unreadable_manifest k))
     | Some m \<Rightarrow> gc_references S D s (rep\<lparr>gr_manifests := gr_manifests rep + 1\<rparr>) (refs \<union> entry_hashes m) ks)"

fun gc_scan :: "gc_options \<Rightarrow> string set \<Rightarrow> gc_report \<Rightarrow> obj_info list \<Rightarrow> obj_info list \<Rightarrow> gc_report \<times> obj_info list" where
  "gc_scan opt refs rep cands [] = (rep, cands)"
| "gc_scan opt refs rep cands (o1 # os) =
    (let rep1 = rep\<lparr>gr_blobs := gr_blobs rep + 1\<rparr>; hash = go_base (oi_key o1) in
     if blob_key hash \<noteq> oi_key o1 then gc_scan opt refs rep1 cands os
     else if hash \<in> refs then gc_scan opt refs rep1 cands os
     else let rep2 = rep1\<lparr>gr_unreferenced := gr_unreferenced rep1 + 1\<rparr> in
       if g_now opt - oi_modified o1 < g_min_age opt
       then gc_scan opt refs (rep2\<lparr>gr_too_young := gr_too_young rep2 + 1\<rparr>) cands os
       else gc_scan opt refs rep2 (cands @ [o1]) os)"

fun gc_delete :: "'s store_ops \<Rightarrow> gc_options \<Rightarrow> (nat \<Rightarrow> bool) \<Rightarrow> nat \<Rightarrow> gc_report \<Rightarrow> 's \<Rightarrow> obj_info list
    \<Rightarrow> 's \<times> gc_report \<times> gc_error option" where
  "gc_delete S opt cancel i rep s [] = (s, rep, None)"
| "gc_delete S opt cancel i rep s (o1 # os) =
    (let rep1 = rep\<lparr>gr_reclaimable := gr_reclaimable rep + oi_size o1\<rparr> in
     if \<not> g_apply opt then gc_delete S opt cancel (i + 1) rep1 s os
     else if cancel i then (s, rep1, Some Gc_cancelled)
     else let d = s_delete S s (oi_key o1) in
       case snd d of Some e \<Rightarrow> (fst d, rep1, Some (Delete_failed (oi_key o1) e))
       | None \<Rightarrow> gc_delete S opt cancel (i + 1)
           (rep1\<lparr>gr_deleted := gr_deleted rep1 + 1, gr_freed := gr_freed rep1 + oi_size o1\<rparr>) (fst d) os)"

definition gc_run :: "'s store_ops \<Rightarrow> (string \<Rightarrow> manifest option) \<Rightarrow> gc_options \<Rightarrow> (nat \<Rightarrow> bool) \<Rightarrow> 's
    \<Rightarrow> 's \<times> gc_report \<times> gc_error option" where
  "gc_run S D opt cancel s =
    (let ml = s_list S s ''manifests/'';
         keys = map oi_key (filter (\<lambda>o1. has_suffix (oi_key o1) ''.json'') (fst ml))
     in case snd ml of Some e \<Rightarrow> (s, empty_report, Some (List_failed e))
     | None \<Rightarrow>
       let refs = gc_references S D s empty_report {} keys in
       case snd refs of Inl e \<Rightarrow> (s, fst refs, Some e)
       | Inr referenced \<Rightarrow>
         let rep = (fst refs)\<lparr>gr_referenced := int (card referenced)\<rparr>;
             bl = s_list S s ''blobs/sha256/'';
             sc = gc_scan opt referenced rep [] (fst bl)
         in case snd bl of Some e \<Rightarrow> (s, fst sc, Some (List_failed e))
            | None \<Rightarrow> gc_delete S opt cancel 0 (fst sc) s (snd sc))"

section \<open>What is garbage\<close>

definition manifest_in :: "(string \<Rightarrow> manifest option) \<Rightarrow> (string \<rightharpoonup> string \<times> instant) \<Rightarrow> string \<Rightarrow> manifest option" where
  "manifest_in D st k =
    (if has_prefix k ''manifests/'' \<and> has_suffix k ''.json'' then
       (case st k of None \<Rightarrow> None
        | Some (b, t) \<Rightarrow> (case manifest_decode D b of Inl _ \<Rightarrow> None | Inr m \<Rightarrow> Some m))
     else None)"

definition referenced_in :: "(string \<Rightarrow> manifest option) \<Rightarrow> (string \<rightharpoonup> string \<times> instant) \<Rightarrow> string \<Rightarrow> bool" where
  "referenced_in D st h \<longleftrightarrow> (\<exists>k m. manifest_in D st k = Some m \<and> h \<in> entry_hashes m)"

definition garbage :: "(string \<Rightarrow> manifest option) \<Rightarrow> gc_options \<Rightarrow> (string \<rightharpoonup> string \<times> instant) \<Rightarrow> string \<Rightarrow> bool" where
  "garbage D opt st k \<longleftrightarrow> (\<exists>b t. st k = Some (b, t) \<and> has_prefix k ''blobs/sha256/'' \<and> blob_key (go_base k) = k
     \<and> \<not> referenced_in D st (go_base k) \<and> g_min_age opt \<le> g_now opt - t)"

text \<open>Every blob that a readable manifest names is there.\<close>

definition blobs_complete :: "(string \<Rightarrow> manifest option) \<Rightarrow> (string \<rightharpoonup> string \<times> instant) \<Rightarrow> bool" where
  "blobs_complete D st \<longleftrightarrow> (\<forall>h. referenced_in D st h \<longrightarrow> st (blob_key h) \<noteq> None)"

context object_store
begin

lemma gc_load_obj: "gc_load S D s k = Some m \<Longrightarrow> \<exists>b t. obj s k = Some (b, t) \<and> manifest_decode D b = Inr m"
  using get_ok [of s k] by (auto simp: gc_load_def split: sum.splits)

lemma gc_references_sound:
  assumes "gc_references S D s rep refs ks = (rep', Inr refs')"
  shows "refs' = refs \<union> (\<Union>k \<in> set ks. case gc_load S D s k of None \<Rightarrow> {} | Some m \<Rightarrow> entry_hashes m)
    \<and> (\<forall>k \<in> set ks. gc_load S D s k \<noteq> None) \<and> rep' = rep\<lparr>gr_manifests := gr_manifests rep + int (length ks)\<rparr>"
  using assms
proof (induction ks arbitrary: rep refs)
  case (Cons k ks)
  then obtain m where m: "gc_load S D s k = Some m"
    and run: "gc_references S D s (rep\<lparr>gr_manifests := gr_manifests rep + 1\<rparr>) (refs \<union> entry_hashes m) ks = (rep', Inr refs')"
    by (auto split: option.splits)
  note IH = Cons.IH [OF run]
  have "rep' = rep\<lparr>gr_manifests := gr_manifests rep + int (length (k # ks))\<rparr>"
    using IH by (cases rep) (simp add: algebra_simps)
  then show ?case using IH m by (simp add: Un_assoc)
qed simp

lemma gc_scan_candidates:
  "snd (gc_scan opt refs rep cands os) = cands @
     filter (\<lambda>x. blob_key (go_base (oi_key x)) = oi_key x \<and> go_base (oi_key x) \<notin> refs \<and> g_min_age opt \<le> g_now opt - oi_modified x) os"
  by (induction opt refs rep cands os rule: gc_scan.induct) (simp_all add: Let_def)

lemma gc_delete_effect:
  assumes "gc_delete S opt cancel i rep s os = (s', rep', err)"
  shows "obj s' k \<noteq> obj s k \<Longrightarrow> g_apply opt \<and> k \<in> oi_key ` set os \<and> obj s' k = None"
    and "\<not> g_apply opt \<Longrightarrow> s' = s \<and> err = None"
    and "err = None \<Longrightarrow> g_apply opt \<Longrightarrow> k \<in> oi_key ` set os \<Longrightarrow> obj s' k = None"
proof -
  have "(obj s' k = obj s k \<or> g_apply opt \<and> k \<in> oi_key ` set os \<and> obj s' k = None)
    \<and> (\<not> g_apply opt \<longrightarrow> s' = s \<and> err = None)
    \<and> (err = None \<longrightarrow> g_apply opt \<longrightarrow> k \<in> oi_key ` set os \<longrightarrow> obj s' k = None)"
    using assms
  proof (induction os arbitrary: i rep s)
    case (Cons o1 os)
    show ?case
    proof (cases "g_apply opt \<and> \<not> cancel i")
      case False
      then show ?thesis using Cons.prems Cons.IH by (auto simp: Let_def split: if_splits)
    next
      case True
      obtain s1 e where d: "s_delete S s (oi_key o1) = (s1, e)" by fastforce
      show ?thesis
      proof (cases e)
        case None
        define rep2 where "rep2 = rep\<lparr>gr_reclaimable := gr_reclaimable rep + oi_size o1, gr_deleted := gr_deleted rep + 1, gr_freed := gr_freed rep + oi_size o1\<rparr>"
        have run: "gc_delete S opt cancel (i + 1) rep2 s1 os = (s', rep', err)"
          using Cons.prems True d None by (simp add: Let_def rep2_def)
        have gone: "obj s1 (oi_key o1) = None" using delete_ok d None by blast
        have other: "k \<noteq> oi_key o1 \<Longrightarrow> obj s1 k = obj s k" using delete_other d by blast
        show ?thesis using Cons.IH [OF run] gone other True by (cases "k = oi_key o1") auto
      next
        case (Some e')
        then show ?thesis using Cons.prems True d delete_failed [of s "oi_key o1" s1 e'] delete_other [OF d, of k]
            by (cases "k = oi_key o1") (auto simp: Let_def)
      qed
    qed
  qed simp
  then show "obj s' k \<noteq> obj s k \<Longrightarrow> g_apply opt \<and> k \<in> oi_key ` set os \<and> obj s' k = None"
    and "\<not> g_apply opt \<Longrightarrow> s' = s \<and> err = None"
    and "err = None \<Longrightarrow> g_apply opt \<Longrightarrow> k \<in> oi_key ` set os \<Longrightarrow> obj s' k = None"
    by auto
qed

lemma listed_iff:
  assumes "s_list S s p = (infos, None)"
  shows "(\<exists>x \<in> set infos. oi_key x = k \<and> P x) \<longleftrightarrow>
    has_prefix k p \<and> (\<exists>b t. obj s k = Some (b, t) \<and> P \<lparr>oi_key = k, oi_size = int (length b), oi_modified = t\<rparr>)"
proof -
  have "(\<exists>x \<in> {f k b t | k b t. Q k b t}. R x) \<longleftrightarrow> (\<exists>k b t. Q k b t \<and> R (f k b t))"
    for f :: "string \<Rightarrow> string \<Rightarrow> instant \<Rightarrow> obj_info" and Q R by blast
  then show ?thesis unfolding list_ok [OF assms] by auto
qed

lemma gc_delete_errors: "gc_delete S opt cancel i rep s os = (s', rep', err) \<Longrightarrow> err \<noteq> Some (Unreadable_manifest u)"
  by (induction os arbitrary: i rep s) (auto simp: Let_def split: if_splits option.splits)

lemma manifest_listing:
  assumes "s_list S s ''manifests/'' = (infos, None)" and "gc_references S D s rep {} (map oi_key (filter (\<lambda>o1. has_suffix (oi_key o1) ''.json'') infos)) = (rep', Inr refs)"
  shows "h \<in> refs \<longleftrightarrow> referenced_in D (obj s) h"
proof -
  define keys where "keys = map oi_key (filter (\<lambda>o1. has_suffix (oi_key o1) ''.json'') infos)"
  have key: "k \<in> set keys \<longleftrightarrow> has_prefix k ''manifests/'' \<and> has_suffix k ''.json'' \<and> obj s k \<noteq> None" for k
    using listed_iff [OF assms(1), of k "\<lambda>x. has_suffix (oi_key x) ''.json''"] unfolding keys_def by auto
  note sound = gc_references_sound [OF assms(2) [folded keys_def]]
  have load: "gc_load S D s k = manifest_in D (obj s) k" if k: "k \<in> set keys" for k
  proof -
    obtain m where m: "gc_load S D s k = Some m" using sound k by blast
    obtain b t where "obj s k = Some (b, t)" "manifest_decode D b = Inr m" using gc_load_obj [OF m] by blast
    then show ?thesis using m key [of k] k by (simp add: manifest_in_def)
  qed
  have mem: "manifest_in D (obj s) k = Some m \<Longrightarrow> k \<in> set keys" for k m
    unfolding key by (auto simp: manifest_in_def split: if_splits option.splits)
  have "h \<in> refs \<longleftrightarrow> (\<exists>k \<in> set keys. h \<in> (case manifest_in D (obj s) k of None \<Rightarrow> {} | Some m \<Rightarrow> entry_hashes m))"
    using sound load by auto
  also have "\<dots> \<longleftrightarrow> (\<exists>k m. manifest_in D (obj s) k = Some m \<and> h \<in> entry_hashes m)"
    using mem by (fastforce split: option.splits)
  finally show ?thesis unfolding referenced_in_def .
qed

lemma gc_run_effect:
  assumes "gc_run S D opt cancel s = (s', rep, err)"
  shows "obj s' k = obj s k \<or> g_apply opt \<and> garbage D opt (obj s) k \<and> obj s' k = None"
    and "\<not> g_apply opt \<Longrightarrow> s' = s"
    and "err = Some (Unreadable_manifest u) \<Longrightarrow> s' = s"
    and "err = None \<Longrightarrow> g_apply opt \<Longrightarrow> garbage D opt (obj s) k \<Longrightarrow> obj s' k = None"
proof -
  obtain infos e1 where l1: "s_list S s ''manifests/'' = (infos, e1)" by fastforce
  define keys where "keys = map oi_key (filter (\<lambda>o1. has_suffix (oi_key o1) ''.json'') infos)"
  obtain rep1 res where refs: "gc_references S D s empty_report {} keys = (rep1, res)" by fastforce
  obtain blobs e2 where l2: "s_list S s ''blobs/sha256/'' = (blobs, e2)" by fastforce
  note run = assms [unfolded gc_run_def Let_def l1 fst_conv snd_conv, folded keys_def, unfolded refs fst_conv snd_conv l2]
  have all: "(obj s' k = obj s k \<or> g_apply opt \<and> garbage D opt (obj s) k \<and> obj s' k = None)
    \<and> (\<not> g_apply opt \<longrightarrow> s' = s) \<and> (err = Some (Unreadable_manifest u) \<longrightarrow> s' = s)
    \<and> (err = None \<longrightarrow> g_apply opt \<longrightarrow> garbage D opt (obj s) k \<longrightarrow> obj s' k = None)" for k
  proof (cases "e1 = None \<and> is_ok res \<and> e2 = None")
    case True
    then obtain R where R: "res = Inr R" by (cases res) auto
    define rep2 where "rep2 = rep1\<lparr>gr_referenced := int (card R)\<rparr>"
    obtain rep3 cands where scan: "gc_scan opt R rep2 [] blobs = (rep3, cands)" by fastforce
    have del: "gc_delete S opt cancel 0 rep3 s cands = (s', rep, err)"
      using run True R scan by (simp add: rep2_def)
    have ref: "h \<in> R \<longleftrightarrow> referenced_in D (obj s) h" for h
      using manifest_listing [of s infos D empty_report rep1 R h] l1 refs True R by (simp add: keys_def)
    have cands: "cands = filter (\<lambda>x. blob_key (go_base (oi_key x)) = oi_key x \<and> go_base (oi_key x) \<notin> R \<and> g_min_age opt \<le> g_now opt - oi_modified x) blobs"
      using gc_scan_candidates [of opt R rep2 "[]" blobs] scan by simp
    have l3: "s_list S s ''blobs/sha256/'' = (blobs, None)" using l2 True by simp
    have "k \<in> oi_key ` set cands \<longleftrightarrow> (\<exists>x \<in> set blobs. oi_key x = k \<and>
        (blob_key (go_base (oi_key x)) = oi_key x \<and> go_base (oi_key x) \<notin> R \<and> g_min_age opt \<le> g_now opt - oi_modified x))"
      unfolding cands by auto
    also have "\<dots> \<longleftrightarrow> garbage D opt (obj s) k"
      unfolding listed_iff [OF l3] garbage_def ref by auto
    finally have mem: "k \<in> oi_key ` set cands \<longleftrightarrow> garbage D opt (obj s) k" .
    have nomf: "err \<noteq> Some (Unreadable_manifest u)" using gc_delete_errors [OF del] by simp
    show ?thesis using gc_delete_effect(1,3) [OF del, of k] gc_delete_effect(2) [OF del] mem nomf by blast
  next
    case False
    then have "s' = s \<and> err \<noteq> None" using run by (cases e1; cases res; cases e2) auto
    then show ?thesis by auto
  qed
  then show "obj s' k = obj s k \<or> g_apply opt \<and> garbage D opt (obj s) k \<and> obj s' k = None"
    and "\<not> g_apply opt \<Longrightarrow> s' = s" and "err = Some (Unreadable_manifest u) \<Longrightarrow> s' = s"
    and "err = None \<Longrightarrow> g_apply opt \<Longrightarrow> garbage D opt (obj s) k \<Longrightarrow> obj s' k = None"
    by blast+
qed

end

lemma empty_doc: "blob_key h \<noteq> [] \<Longrightarrow> blob_key h' = blob_key h \<Longrightarrow> h' = h"
proof -
  assume "blob_key h \<noteq> []" "blob_key h' = blob_key h"
  then have "4 \<le> length h" "4 \<le> length h'" by (auto simp: blob_key_def split: if_splits)
  moreover have "drop 19 (blob_key x) = x" if "4 \<le> length x" for x
    using that by (simp add: blob_key_def slice_def)
  ultimately show ?thesis using \<open>blob_key h' = blob_key h\<close> by metis
qed

lemma garbage_unreferenced: "garbage D opt st k \<Longrightarrow> referenced_in D st h \<Longrightarrow> k \<noteq> blob_key h"
proof
  assume g: "garbage D opt st k" and r: "referenced_in D st h" and k: "k = blob_key h"
  have "k \<noteq> []" using g by (auto simp: garbage_def has_prefix_def)
  moreover have "blob_key (go_base k) = k" using g by (auto simp: garbage_def)
  ultimately have "go_base k = h" using empty_doc [of h "go_base k"] k by simp
  then show False using g r by (simp add: garbage_def)
qed

lemma garbage_not_manifest: "garbage D opt st k \<Longrightarrow> \<not> has_prefix k ''manifests/''"
  by (auto simp: garbage_def has_prefix_iff)

lemma manifest_in_cong: "(has_prefix k ''manifests/'' \<Longrightarrow> st k = st' k) \<Longrightarrow> manifest_in D st k = manifest_in D st' k"
  by (auto simp: manifest_in_def)

section \<open>Properties\<close>

text \<open>
  C22: Garbage collection deletes exactly the garbage. On every store that keeps its
  contract, an object changes only if deletion was asked for and it is garbage: a well-named
  blob that no readable manifest references and that is old enough; then it is gone. A dry
  run changes nothing, an unreadable manifest stops the run before anything is deleted, and
  when the run reports no error all the garbage is gone.
\<close>
theorem gc_deletes_exactly_garbage:
  assumes "object_store S obj" and "gc_run S D opt cancel s = (s', rep, err)"
  shows "(obj s' k = obj s k \<or> g_apply opt \<and> garbage D opt (obj s) k \<and> obj s' k = None)
    \<and> (\<not> g_apply opt \<longrightarrow> s' = s)
    \<and> (err = Some (Unreadable_manifest u) \<longrightarrow> s' = s)
    \<and> (err = None \<and> g_apply opt \<and> garbage D opt (obj s) k \<longrightarrow> obj s' k = None)"
  using object_store.gc_run_effect(1,4) [OF assms, of k] object_store.gc_run_effect(2,3) [OF assms] by blast

text \<open>
  Garbage collection never breaks a catalogue: if every blob that a readable manifest
  references was present, it still is afterwards, whatever errors or cancellations the run
  met, and the manifests themselves and the latest pointers are untouched.
\<close>
theorem gc_keeps_catalogues:
  assumes "object_store S obj" and "gc_run S D opt cancel s = (s', rep, err)" and "blobs_complete D (obj s)"
  shows "blobs_complete D (obj s') \<and> manifest_in D (obj s') = manifest_in D (obj s)
    \<and> obj s' (manifest_key c r) = obj s (manifest_key c r) \<and> obj s' (latest_key c) = obj s (latest_key c)"
proof -
  have effect: "obj s' k = obj s k \<or> garbage D opt (obj s) k \<and> obj s' k = None" for k
    using object_store.gc_run_effect(1) [OF assms(1,2), of k] by blast
  have keep: "obj s' k = obj s k" if "has_prefix k ''manifests/''" for k
    using effect garbage_not_manifest that by blast
  have same: "manifest_in D (obj s') = manifest_in D (obj s)"
    by (rule ext, rule manifest_in_cong) (rule keep)
  have "referenced_in D (obj s') h \<longleftrightarrow> referenced_in D (obj s) h" for h
    by (simp add: referenced_in_def same)
  then have "blobs_complete D (obj s')"
    using assms(3) effect garbage_unreferenced unfolding blobs_complete_def by metis
  then show ?thesis
    using same keep by (simp add: manifest_key_def latest_key_def has_prefix_def)
qed

section \<open>Witnesses\<close>

definition orphan_memory :: memory where
  "orphan_memory = mem_store (new_memory 0) (blob_key ''abcd'') ''x''"

definition sweep :: gc_options where
  "sweep = \<lparr>g_min_age = 10, g_now = 100, g_apply = True\<rparr>"

lemma gc_deletes_exactly_garbage_witness:
  "mem_obj (fst (gc_run memory_ops (\<lambda>_. None) sweep (\<lambda>_. True) orphan_memory)) ''z''
     = mem_obj orphan_memory ''z''"
proof -
  obtain s' rep err where run: "gc_run memory_ops (\<lambda>_. None) sweep (\<lambda>_. True) orphan_memory = (s', rep, err)"
    by (metis prod_cases3)
  show ?thesis
    using gc_deletes_exactly_garbage [OF mem.object_store_axioms run, of "''z''"] by (simp add: run garbage_def has_prefix_def)
qed

lemma gc_keeps_catalogues_witness:
  "blobs_complete (\<lambda>_. None) (mem_obj (fst (gc_run memory_ops (\<lambda>_. None) sweep (\<lambda>_. False) orphan_memory)))"
proof -
  obtain s' rep err where run: "gc_run memory_ops (\<lambda>_. None) sweep (\<lambda>_. False) orphan_memory = (s', rep, err)"
    by (metis prod_cases3)
  have "blobs_complete (\<lambda>_. None) (mem_obj orphan_memory)"
    by (auto simp: blobs_complete_def referenced_in_def manifest_in_def manifest_decode_def split: if_splits option.splits)
  from gc_keeps_catalogues [OF mem.object_store_axioms run this] show ?thesis by (simp add: run)
qed

end
