(* ===== verification/Run.thy ===== *)
theory Run
  imports Plan_Correct Lease Gc
begin

text \<open>
  One pass over a course, \<^verbatim>\<open>internal/run/run.go\<close>: read the previous manifest, list,
  plan, fetch, assemble, write the manifest and publish the pointer. The state is the store.
  The Canvas source, temporary files, cancellation, the lease and the two clock readings are
  the fields of a runner; \<open>H\<close> is SHA-256 and \<open>D\<close> decodes a manifest from JSON. Logging has
  no effect on the result and is left out.
\<close>

section \<open>Inputs\<close>

record canvas_course =
  cc_id :: int
  cc_name :: string
  cc_code :: string

record canvas_file =
  cf_id :: int
  cf_uuid :: string
  cf_folder :: int
  cf_display_name :: string
  cf_filename :: string
  cf_content_type :: string
  cf_url :: string
  cf_size :: int
  cf_created :: instant
  cf_updated :: instant
  cf_modified :: instant
  cf_unlock :: "instant option"
  cf_locked :: bool
  cf_hidden :: bool
  cf_locked_for_user :: bool
  cf_mime_class :: string

record canvas_folder =
  fo_id :: int
  fo_full_name :: string
  fo_name :: string

text \<open>Opening a file gives the bytes read and the error that broken the stream short, if any.\<close>

record 's runner =
  rn_files :: "int \<Rightarrow> string + canvas_file list"
  rn_folders :: "int \<Rightarrow> string + (int \<rightharpoonup> canvas_folder)"
  rn_open :: "canvas_file \<Rightarrow> string + (string \<times> string option)"
  rn_store :: "'s store_ops"
  rn_policy :: policy
  rn_now :: instant
  rn_generated :: instant
  rn_tmp :: "int \<Rightarrow> string option"
  rn_seek :: "int \<Rightarrow> string option"
  rn_guard :: "('s \<Rightarrow> lease_error option) option"
  rn_dry :: bool
  rn_cancel :: "nat \<Rightarrow> bool"
  rn_others :: "'s \<Rightarrow> 's"

record run_options =
  ro_run :: string
  ro_scope :: scope

record stats =
  st_seen :: int
  st_fetched :: int
  st_dedup :: int
  st_carried :: int
  st_skipped :: int
  st_locked :: int
  st_tombstoned :: int
  st_out_of_scope :: int
  st_failed :: int
  st_kept :: int
  st_duplicates :: int
  st_renamed :: int
  st_bytes :: int
  st_unmatched :: "string list"
  st_committed :: bool
  st_manifest_key :: string

definition empty_stats :: stats where
  "empty_stats = \<lparr>st_seen = 0, st_fetched = 0, st_dedup = 0, st_carried = 0, st_skipped = 0, st_locked = 0,
     st_tombstoned = 0, st_out_of_scope = 0, st_failed = 0, st_kept = 0, st_duplicates = 0, st_renamed = 0, st_bytes = 0,
     st_unmatched = [], st_committed = False, st_manifest_key = []\<rparr>"

datatype previous_error = Prev_store store_error | Prev_decode string manifest_error | Prev_claims string int string

datatype run_error = Read_previous previous_error | List_files string | List_folders string | Interrupted
  | Invalid_manifest manifest_error | Manifest_write store_error | Lease_lost lease_error | Publish_failed store_error

section \<open>The previous manifest\<close>

definition load_manifest :: "'s store_ops \<Rightarrow> (string \<Rightarrow> manifest option) \<Rightarrow> 's \<Rightarrow> int \<Rightarrow> string \<Rightarrow> previous_error + manifest" where
  "load_manifest S D s course run_id =
    (let key = manifest_key course run_id in
     case s_get S s key of Inl e \<Rightarrow> Inl (Prev_store e)
     | Inr b \<Rightarrow> (case manifest_decode D b of Inl e \<Rightarrow> Inl (Prev_decode key e)
       | Inr m \<Rightarrow> if mf_course m \<noteq> course \<or> mf_run m \<noteq> run_id then Inl (Prev_claims key (mf_course m) (mf_run m)) else Inr m))"

definition trim_suffix :: "string \<Rightarrow> string \<Rightarrow> string" where
  "trim_suffix s p = (if has_suffix s p then take (length s - length p) s else s)"

fun first_intact :: "'s store_ops \<Rightarrow> (string \<Rightarrow> manifest option) \<Rightarrow> 's \<Rightarrow> int \<Rightarrow> string list \<Rightarrow> manifest option" where
  "first_intact S D s course [] = None"
| "first_intact S D s course (k # ks) =
    (case load_manifest S D s course (trim_suffix (go_base k) ''.json'') of
       Inl _ \<Rightarrow> first_intact S D s course ks | Inr m \<Rightarrow> Some m)"

definition recover_manifest :: "'s store_ops \<Rightarrow> (string \<Rightarrow> manifest option) \<Rightarrow> 's \<Rightarrow> int \<Rightarrow> previous_error + manifest option" where
  "recover_manifest S D s course =
    (let l = s_list S s (''manifests/'' @ string_of_int course @ ''/'') in
     case snd l of Some e \<Rightarrow> Inl (Prev_store e)
     | None \<Rightarrow> Inr (first_intact S D s course
         (rev (sort (map oi_key (filter (\<lambda>x. has_suffix (oi_key x) ''.json'') (fst l)))))))"

definition read_previous :: "'s store_ops \<Rightarrow> (string \<Rightarrow> manifest option) \<Rightarrow> 's \<Rightarrow> int \<Rightarrow> previous_error + manifest option" where
  "read_previous S D s course =
    (case s_get S s (latest_key course) of
       Inl e \<Rightarrow> if e = ErrNotFound then Inr None else Inl (Prev_store e)
     | Inr b \<Rightarrow>
       (let run_id = trim_space (take 1024 b) in
        if run_id \<noteq> [] then
          (case load_manifest S D s course run_id of
             Inr m \<Rightarrow> Inr (Some m)
           | Inl e \<Rightarrow> if e = Prev_store ErrNotFound then recover_manifest S D s course else Inl e)
        else recover_manifest S D s course))"

section \<open>Portable paths\<close>

definition join_path :: "string \<Rightarrow> string \<Rightarrow> string" where
  "join_path dir name =
    (let d = trim_prefix dir ''course files/''; d' = (if d = ''course files'' then [] else d) in
     if d' = [] then name else d' @ ''/'' @ name)"

text \<open>The message of a failed \<open>SanitizePath\<close>: the first component that fails is quoted.\<close>

definition component_message :: "unicode_tables \<Rightarrow> string \<Rightarrow> portable_error \<Rightarrow> string" where
  "component_message U part e = ''portable: component '' @ quote U (nfc U part) @
     (if e = EmptyAfterTruncation then '' empty after truncation'' else '' is empty after sanitisation'')"

definition sanitize_message :: "unicode_tables \<Rightarrow> string \<Rightarrow> portable_error \<Rightarrow> string" where
  "sanitize_message U p0 e =
    (let p = replace_byte p0 (CHR 0x5C) (CHR ''/'');
         failing = filter (\<lambda>part. part \<noteq> [] \<and> part \<noteq> ''.'' \<and> \<not> is_ok (component_of U part)) (split_on (CHR ''/'') p) in
     case e of
       AbsolutePath \<Rightarrow> ''portable: absolute path '' @ quote U p
     | TraversalPath \<Rightarrow> ''portable: traversal in '' @ quote U p
     | EmptyPath \<Rightarrow> ''portable: path '' @ quote U p @ '' is empty''
     | ExceedsTotal \<Rightarrow> ''portable: path '' @ quote U (case sanitize_parts U (split_on (CHR ''/'') p) [] of
           Inl _ \<Rightarrow> [] | Inr out \<Rightarrow> join_with ''/'' out) @ '' exceeds 400 bytes''
     | _ \<Rightarrow> component_message U (hd failing) e)"

definition resolve_path :: "unicode_tables \<Rightarrow> string \<Rightarrow> string \<Rightarrow> int \<Rightarrow> string \<times> string" where
  "resolve_path U dir name canvas_id =
    (let joined = join_path dir name in
     case sanitize_path U joined of
       Inr p \<Rightarrow> (p, [])
     | Inl e \<Rightarrow>
       (let fb = fallback U name canvas_id in
        case sanitize_path U (join_path dir fb) of
          Inr p2 \<Rightarrow> (p2, ''Canvas name '' @ quote U name @ '' could not be made portable ('' @ sanitize_message U joined e @
            ''); stored as '' @ quote U fb)
        | Inl _ \<Rightarrow> (fb, ''Canvas path '' @ quote U joined @ '' could not be made portable ('' @ sanitize_message U joined e @
            ''); stored at the course root as '' @ quote U fb)))"

definition folder_of :: "(int \<rightharpoonup> canvas_folder) \<Rightarrow> canvas_file \<Rightarrow> string" where
  "folder_of folders f =
    (if cf_folder f \<noteq> 0 then
       (case folders (cf_folder f) of Some fo \<Rightarrow> fo_full_name fo
        | None \<Rightarrow> ''_unlisted-folder-'' @ string_of_int (cf_folder f))
     else [])"

definition plan_file_of :: "unicode_tables \<Rightarrow> (int \<rightharpoonup> canvas_folder) \<Rightarrow> canvas_file \<Rightarrow> plan_file" where
  "plan_file_of U folders f =
    (let r = resolve_path U (folder_of folders f) (cf_display_name f) (cf_id f) in
     \<lparr>pf_path = fst r, pf_canvas_id = cf_id f, pf_canvas_uuid = cf_uuid f, pf_size = cf_size f, pf_mime = cf_content_type f,
      pf_updated = cf_updated f, pf_modified = cf_modified f, pf_locked = cf_locked_for_user f \<or> cf_locked f,
      pf_unlock = cf_unlock f, pf_note = snd r\<rparr>)"

fun index_raw :: "(int \<rightharpoonup> canvas_file) \<Rightarrow> canvas_file list \<Rightarrow> int \<rightharpoonup> canvas_file" where
  "index_raw by_id [] = by_id"
| "index_raw by_id (f # fs) = index_raw (by_id(cf_id f \<mapsto> f)) fs"

definition to_plan_files :: "unicode_tables \<Rightarrow> canvas_file list \<Rightarrow> (int \<rightharpoonup> canvas_folder) \<Rightarrow> stats
    \<Rightarrow> plan_file list \<times> (int \<rightharpoonup> canvas_file) \<times> stats" where
  "to_plan_files U raw folders st =
    (let out = map (plan_file_of U folders) raw in
     (out, index_raw Map.empty raw, st\<lparr>st_renamed := st_renamed st + int (length (filter (\<lambda>f. pf_note f \<noteq> []) out))\<rparr>))"

section \<open>Downloading\<close>

definition store_error_text :: "unicode_tables \<Rightarrow> store_error \<Rightarrow> string" where
  "store_error_text U e =
    (case e of ErrNotFound \<Rightarrow> ''store: not found'' | ErrExists \<Rightarrow> ''store: already exists''
     | ErrUnsupported \<Rightarrow> ''unsupported operation'' | Invalid_key k \<Rightarrow> ''store: invalid key '' @ quote U k
     | Size_mismatch k want got \<Rightarrow> ''store: '' @ k @ '': expected '' @ string_of_int want @ '' bytes, stream had '' @ string_of_int got
     | Backend m \<Rightarrow> m | Slice_panic \<Rightarrow> ''slice bounds out of range'')"

definition fetched_entry :: "plan_file \<Rightarrow> int \<Rightarrow> string \<Rightarrow> entry" where
  "fetched_entry f n hash =
    \<lparr>e_path = pf_path f, e_state = StateStored, e_size = n, e_mime = pf_mime f, e_canvas_id = pf_canvas_id f,
     e_canvas_uuid = pf_canvas_uuid f, e_updated = pf_updated f, e_modified = pf_modified f, e_sha = hash,
     e_reason = pf_note f, e_rule = [], e_unlock = None, e_deleted = None\<rparr>"

definition failed_entry :: "plan_file \<Rightarrow> string \<Rightarrow> entry" where
  "failed_entry f err =
    \<lparr>e_path = pf_path f, e_state = StateFailed, e_size = pf_size f, e_mime = pf_mime f, e_canvas_id = pf_canvas_id f,
     e_canvas_uuid = pf_canvas_uuid f, e_updated = pf_updated f, e_modified = pf_modified f, e_sha = [],
     e_reason = err, e_rule = [], e_unlock = None, e_deleted = None\<rparr>"

definition zero_canvas_file :: canvas_file where
  "zero_canvas_file = \<lparr>cf_id = 0, cf_uuid = [], cf_folder = 0, cf_display_name = [], cf_filename = [], cf_content_type = [],
     cf_url = [], cf_size = 0, cf_created = zero_time, cf_updated = zero_time, cf_modified = zero_time, cf_unlock = None,
     cf_locked = False, cf_hidden = False, cf_locked_for_user = False, cf_mime_class = []\<rparr>"

definition fetch_file :: "unicode_tables \<Rightarrow> (string \<Rightarrow> byte list) \<Rightarrow> 's runner \<Rightarrow> 's \<Rightarrow> canvas_file \<Rightarrow> plan_file
    \<Rightarrow> 's \<times> (string + entry \<times> int \<times> bool)" where
  "fetch_file U H R s cf f =
    (case rn_open R cf of
       Inl e \<Rightarrow> (s, Inl e)
     | Inr (b, broken) \<Rightarrow>
       (case rn_tmp R (pf_canvas_id f) of
          Some e \<Rightarrow> (s, Inl (''create temp file: '' @ e))
        | None \<Rightarrow>
          (let n = int (length b) in
           case broken of
             Some e \<Rightarrow> (s, Inl (''download interrupted after '' @ string_of_int n @ '' bytes: '' @ e))
           | None \<Rightarrow>
             if n \<noteq> pf_size f then
               (s, Inl (''size mismatch: Canvas reports '' @ string_of_int (pf_size f) @ '' bytes, received '' @ string_of_int n))
             else
               let hash = hex_encode (H b); key = blob_key hash in
               (case s_exists (rn_store R) s key of
                  Inl e \<Rightarrow> (s, Inl (''check blob: '' @ store_error_text U e))
                | Inr present \<Rightarrow>
                  if present then (s, Inr (fetched_entry f n hash, n, True))
                  else
                    (case rn_seek R (pf_canvas_id f) of
                       Some e \<Rightarrow> (s, Inl e)
                     | None \<Rightarrow>
                       (let p = s_put (rn_store R) s key b n in
                        case snd p of Some e \<Rightarrow> (fst p, Inl (''store blob: '' @ store_error_text U e))
                        | None \<Rightarrow> (fst p, Inr (fetched_entry f n hash, n, False))))))))"

definition kept_entry :: "string \<Rightarrow> string \<Rightarrow> string \<Rightarrow> entry \<Rightarrow> entry" where
  "kept_entry run_id prev_run err e =
    e\<lparr>e_reason := ''refresh failed in run '' @ run_id @ '' ('' @ err @ ''); serving the version from run '' @ prev_run @ '' or earlier''\<rparr>"

text \<open>The loop over the fetches; \<open>i\<close> counts the cancellation checks.\<close>

fun fetch_loop :: "unicode_tables \<Rightarrow> (string \<Rightarrow> byte list) \<Rightarrow> 's runner \<Rightarrow> string \<Rightarrow> string \<Rightarrow> (int \<rightharpoonup> canvas_file)
    \<Rightarrow> nat \<Rightarrow> 's \<Rightarrow> stats \<Rightarrow> entry list \<Rightarrow> fetch list \<Rightarrow> ('s \<times> stats \<times> nat) \<times> (run_error + entry list)" where
  "fetch_loop U H R run_id prev_run by_id i s st es [] = ((s, st, i), Inr es)"
| "fetch_loop U H R run_id prev_run by_id i s st es (ft # fts) =
    (if rn_cancel R i then ((s, st, i), Inl Interrupted)
     else
       let f = ft_file ft;
           cf = (case by_id (pf_canvas_id f) of None \<Rightarrow> zero_canvas_file | Some c \<Rightarrow> c);
           r = fetch_file U H R s cf f in
       case snd r of
         Inr (e, n, dedup) \<Rightarrow>
           fetch_loop U H R run_id prev_run by_id (i + 1) (fst r)
             (st\<lparr>st_fetched := st_fetched st + 1, st_bytes := st_bytes st + n,
                 st_dedup := (if dedup then st_dedup st + 1 else st_dedup st)\<rparr>) (es @ [e]) fts
       | Inl err \<Rightarrow>
           if rn_cancel R (i + 1) then ((fst r, st, i), Inl Interrupted)
           else
             let st1 = st\<lparr>st_failed := st_failed st + 1\<rparr> in
             case ft_prev ft of
               Some pe \<Rightarrow>
                 if e_state pe = StateStored then
                   fetch_loop U H R run_id prev_run by_id (i + 2) (fst r) (st1\<lparr>st_kept := st_kept st1 + 1\<rparr>)
                     (es @ [kept_entry run_id prev_run err pe]) fts
                 else fetch_loop U H R run_id prev_run by_id (i + 2) (fst r) st1 (es @ [failed_entry f err]) fts
             | None \<Rightarrow> fetch_loop U H R run_id prev_run by_id (i + 2) (fst r) st1 (es @ [failed_entry f err]) fts)"

section \<open>One course\<close>

definition plan_stats :: "stats \<Rightarrow> plan \<Rightarrow> stats" where
  "plan_stats st p = st\<lparr>st_carried := int (length (pl_carry p)), st_skipped := int (length (pl_skipped p)),
     st_locked := int (length (pl_locked p)), st_tombstoned := int (length (pl_tombstone p)),
     st_out_of_scope := int (length (pl_out_of_scope p)), st_duplicates := int (length (pl_duplicates p))\<rparr>"

definition run_input :: "'s runner \<Rightarrow> run_options \<Rightarrow> canvas_course \<Rightarrow> manifest option \<Rightarrow> plan_file list \<Rightarrow> plan_input" where
  "run_input R opt c prev files =
    \<lparr>in_course = cc_id c, in_prev = prev, in_files = files, in_policy = rn_policy R,
     in_overrides = \<lparr>o_include = (\<lambda>_. False), o_exclude = (\<lambda>_. False)\<rparr>, in_scope = ro_scope opt, in_now = rn_now R\<rparr>"

definition assemble :: "(string \<Rightarrow> byte list) \<Rightarrow> 's runner \<Rightarrow> run_options \<Rightarrow> canvas_course \<Rightarrow> string \<Rightarrow> entry list \<Rightarrow> manifest" where
  "assemble H R opt c prev_run es =
    \<lparr>mf_version = SchemaVersion, mf_course = cc_id c, mf_name = cc_name c, mf_code = cc_code c, mf_run = ro_run opt,
     mf_prev_run = prev_run, mf_generated = rn_generated R, mf_rules_hash = policy_hash H (rn_policy R), mf_entries = Some es\<rparr>"

text \<open>Writing the manifest, the last checks, and the commit.\<close>

definition publish :: "'s runner \<Rightarrow> run_options \<Rightarrow> canvas_course \<Rightarrow> nat \<Rightarrow> 's \<Rightarrow> stats \<Rightarrow> manifest \<Rightarrow> 's \<times> stats \<times> run_error option" where
  "publish R opt c i s st m =
    (case snd (manifest_encode m) of
       Inl e \<Rightarrow> (s, st, Some (Invalid_manifest e))
     | Inr body \<Rightarrow>
       (let key = manifest_key (cc_id c) (ro_run opt);
            w = put_once (rn_store R) (rn_others R) s key body (int (length body)) in
        case snd (snd w) of Some e \<Rightarrow> (fst w, st, Some (Manifest_write e))
        | None \<Rightarrow>
          let st1 = st\<lparr>st_manifest_key := key\<rparr> in
          if rn_cancel R i then (fst w, st1, Some Interrupted)
          else case (case rn_guard R of None \<Rightarrow> None | Some g \<Rightarrow> g (fst w)) of
            Some e \<Rightarrow> (fst w, st1, Some (Lease_lost e))
          | None \<Rightarrow>
            let l = s_put (rn_store R) (fst w) (latest_key (cc_id c)) (ro_run opt) (int (length (ro_run opt))) in
            case snd l of Some e \<Rightarrow> (fst l, st1, Some (Publish_failed e))
            | None \<Rightarrow> (fst l, st1\<lparr>st_committed := True\<rparr>, None)))"

definition prev_run_id :: "manifest option \<Rightarrow> string" where
  "prev_run_id prev = (case prev of None \<Rightarrow> [] | Some m \<Rightarrow> mf_run m)"

definition run_course :: "unicode_tables \<Rightarrow> (string \<Rightarrow> byte list) \<Rightarrow> (string \<Rightarrow> manifest option) \<Rightarrow> 's runner
    \<Rightarrow> run_options \<Rightarrow> canvas_course \<Rightarrow> 's \<Rightarrow> 's \<times> stats \<times> run_error option" where
  "run_course U H D R opt c s =
    (case read_previous (rn_store R) D s (cc_id c) of
       Inl e \<Rightarrow> (s, empty_stats, Some (Read_previous e))
     | Inr prev \<Rightarrow>
     case rn_files R (cc_id c) of
       Inl e \<Rightarrow> (s, empty_stats, Some (List_files e))
     | Inr raw \<Rightarrow>
     case rn_folders R (cc_id c) of
       Inl e \<Rightarrow> (s, empty_stats, Some (List_folders e))
     | Inr folders \<Rightarrow>
     let t = to_plan_files U raw folders (empty_stats\<lparr>st_seen := int (length raw)\<rparr>);
         files = fst t; by_id = fst (snd t);
         p = compute U (run_input R opt c prev files);
         st1 = plan_stats (snd (snd t)) p;
         st2 = (if scope_all (ro_scope opt) then st1
                else st1\<lparr>st_unmatched := scope_unmatched U (ro_scope opt) (plan_paths p)\<rparr>)
     in if rn_dry R then (s, st2, None)
        else
          let l = fetch_loop U H R (ro_run opt) (prev_run_id prev) by_id 0 s st2 (groups p) (pl_fetch p);
              s3 = fst (fst l); st3 = fst (snd (fst l)); i = snd (snd (fst l))
          in case snd l of
            Inl e \<Rightarrow> (s3, st3, Some e)
          | Inr es \<Rightarrow> publish R opt c i s3 st3 (assemble H R opt c (prev_run_id prev) es))"

section \<open>Run summaries\<close>

definition StatusCommitted :: string where "StatusCommitted = ''committed''"
definition StatusDryRun :: string where "StatusDryRun = ''dry_run''"
definition StatusForbidden :: string where "StatusForbidden = ''forbidden''"
definition StatusFailed :: string where "StatusFailed = ''failed''"
definition StatusNotRun :: string where "StatusNotRun = ''not_run''"

record course_result =
  cr_course :: int
  cr_code :: string
  cr_name :: string
  cr_status :: string
  cr_error :: string
  cr_stats :: stats

record summary =
  sm_run :: string
  sm_command :: string
  sm_trigger :: string
  sm_host :: string
  sm_pid :: int
  sm_dry :: bool
  sm_selectors :: "string list"
  sm_scope :: "string list"
  sm_rules_hash :: string
  sm_started :: instant
  sm_finished :: instant
  sm_outcome :: string
  sm_error :: string
  sm_courses :: "course_result list option"

definition summary_key :: "string \<Rightarrow> string" where
  "summary_key run_id = ''runs/'' @ run_id @ ''.json''"

definition stats_json :: "stats \<Rightarrow> json" where
  "stats_json st = JObject (
     [(''seen'', JInt (st_seen st)), (''fetched'', JInt (st_fetched st)), (''deduplicated'', JInt (st_dedup st)),
      (''carried'', JInt (st_carried st)), (''skipped'', JInt (st_skipped st)), (''locked'', JInt (st_locked st)),
      (''tombstoned'', JInt (st_tombstoned st)), (''out_of_scope'', JInt (st_out_of_scope st)), (''failed'', JInt (st_failed st)),
      (''kept_previous'', JInt (st_kept st)), (''duplicates'', JInt (st_duplicates st)),
      (''renamed_unportable'', JInt (st_renamed st)), (''bytes'', JInt (st_bytes st))] @
     omit_empty (st_unmatched st = []) ''unmatched_scope'' (JArray (map JString (st_unmatched st))) @
     [(''committed'', JBool (st_committed st))] @
     omit_empty (st_manifest_key st = []) ''manifest_key'' (JString (st_manifest_key st)))"

definition course_result_json :: "course_result \<Rightarrow> json" where
  "course_result_json r = JObject (
     [(''course_id'', JInt (cr_course r)), (''course_code'', JString (cr_code r)), (''course_name'', JString (cr_name r)),
      (''status'', JString (cr_status r))] @
     omit_empty (cr_error r = []) ''error'' (JString (cr_error r)) @ [(''stats'', stats_json (cr_stats r))])"

definition summary_json :: "summary \<Rightarrow> json" where
  "summary_json m = JObject (
     [(''run_id'', JString (sm_run m)), (''command'', JString (sm_command m)), (''trigger'', JString (sm_trigger m)),
      (''host'', JString (sm_host m)), (''pid'', JInt (sm_pid m)), (''dry_run'', JBool (sm_dry m))] @
     omit_empty (sm_selectors m = []) ''course_selectors'' (JArray (map JString (sm_selectors m))) @
     omit_empty (sm_scope m = []) ''scope'' (JArray (map JString (sm_scope m))) @
     [(''rules_hash'', JString (sm_rules_hash m)), (''started_at'', time_json (sm_started m)),
      (''finished_at'', time_json (sm_finished m)), (''outcome'', JString (sm_outcome m))] @
     omit_empty (sm_error m = []) ''error'' (JString (sm_error m)) @
     [(''courses'', case sm_courses m of None \<Rightarrow> JNull | Some cs \<Rightarrow> JArray (map course_result_json cs))])"

text \<open>Marshalling fails on no summary; the error is the store's.\<close>

definition write_summary :: "'s store_ops \<Rightarrow> ('s \<Rightarrow> 's) \<Rightarrow> 's \<Rightarrow> summary \<Rightarrow> 's \<times> store_error option" where
  "write_summary S I s m =
    (let b = json_indent [CHR 0x0A] (summary_json m);
         w = put_once S I s (summary_key (sm_run m)) b (int (length b)) in (fst w, snd (snd w)))"

end
