(* ===== verification/Run_Correct.thy ===== *)
theory Run_Correct
  imports Run
begin

text \<open>
  What a pass over a course does to the store, on every store with atomic write-once:
  nothing that existed changes except the course's own pointer, the pointer moves only after
  a valid catalogue and all its blobs are in place, and one failed download never hides a
  file that was served before.
\<close>

section \<open>Changes of the store\<close>

text \<open>A key changes only from absent to present, with a content that \<open>P\<close> allows there.\<close>

type_synonym contents = "string \<Rightarrow> (string \<times> instant) option"

definition adds :: "(string \<Rightarrow> string \<Rightarrow> bool) \<Rightarrow> contents \<Rightarrow> contents \<Rightarrow> bool" where
  "adds P st st' \<longleftrightarrow> (\<forall>k. st' k = st k \<or> st k = None \<and> (\<exists>b t. st' k = Some (b, t) \<and> P k b))"

lemma adds_refl [simp]: "adds P st st"
  by (simp add: adds_def)

lemma adds_trans: "adds P a b \<Longrightarrow> adds P b c \<Longrightarrow> adds P a c"
  unfolding adds_def by (metis option.distinct(1))

lemma adds_present: "adds P a b \<Longrightarrow> a k \<noteq> None \<Longrightarrow> b k = a k"
  unfolding adds_def by metis

lemma adds_other: "adds P a b \<Longrightarrow> (\<And>x. \<not> P k x) \<Longrightarrow> b k = a k"
  unfolding adds_def by metis

definition hashed_blob :: "(string \<Rightarrow> byte list) \<Rightarrow> string \<Rightarrow> string \<Rightarrow> bool" where
  "hashed_blob H k b \<longleftrightarrow> k = blob_key (hex_encode (H b))"

text \<open>The raw file a fetch downloads, and the entry that may result from it.\<close>

definition raw_of :: "(int \<rightharpoonup> canvas_file) \<Rightarrow> fetch \<Rightarrow> canvas_file" where
  "raw_of by_id ft = (case by_id (pf_canvas_id (ft_file ft)) of None \<Rightarrow> zero_canvas_file | Some cf \<Rightarrow> cf)"

definition downloaded :: "(string \<Rightarrow> byte list) \<Rightarrow> 's runner \<Rightarrow> canvas_file \<Rightarrow> plan_file \<Rightarrow> entry \<Rightarrow> bool" where
  "downloaded H R cf f e \<longleftrightarrow> (\<exists>b. rn_open R cf = Inr (b, None) \<and> int (length b) = pf_size f
     \<and> e = fetched_entry f (pf_size f) (hex_encode (H b)))"

definition stored_before :: "fetch \<Rightarrow> entry option" where
  "stored_before ft = (case ft_prev ft of Some pe \<Rightarrow> if e_state pe = StateStored then Some pe else None | None \<Rightarrow> None)"

definition fallback_entry :: "string \<Rightarrow> string \<Rightarrow> fetch \<Rightarrow> string \<Rightarrow> entry" where
  "fallback_entry run_id prev_run ft err =
    (case stored_before ft of Some pe \<Rightarrow> kept_entry run_id prev_run err pe | None \<Rightarrow> failed_entry (ft_file ft) err)"

definition outcome :: "unicode_tables \<Rightarrow> (string \<Rightarrow> byte list) \<Rightarrow> 's runner \<Rightarrow> string \<Rightarrow> string \<Rightarrow> (int \<rightharpoonup> canvas_file) \<Rightarrow> fetch \<Rightarrow> entry \<Rightarrow> bool" where
  "outcome U H R run_id prev_run by_id ft e \<longleftrightarrow>
     downloaded H R (raw_of by_id ft) (ft_file ft) e \<or> (\<exists>s s' err. fetch_file U H R s (raw_of by_id ft) (ft_file ft) = (s', Inl err) \<and> e = fallback_entry run_id prev_run ft err)"

lemma fetch_loop_step:
  "fetch_loop U H R run_id prev_run by_id i s st es (ft # fts) =
    (if rn_cancel R i then ((s, st, i), Inl Interrupted)
     else let r = fetch_file U H R s (raw_of by_id ft) (ft_file ft) in
       case snd r of
         Inr (e, n, dedup) \<Rightarrow>
           fetch_loop U H R run_id prev_run by_id (i + 1) (fst r)
             (st\<lparr>st_fetched := st_fetched st + 1, st_bytes := st_bytes st + n,
                 st_dedup := (if dedup then st_dedup st + 1 else st_dedup st)\<rparr>) (es @ [e]) fts
       | Inl err \<Rightarrow>
           if rn_cancel R (i + 1) then ((fst r, st, i), Inl Interrupted)
           else fetch_loop U H R run_id prev_run by_id (i + 2) (fst r)
             (if stored_before ft \<noteq> None then st\<lparr>st_failed := st_failed st + 1, st_kept := st_kept st + 1\<rparr>
              else st\<lparr>st_failed := st_failed st + 1\<rparr>)
             (es @ [fallback_entry run_id prev_run ft err]) fts)"
  by (cases "ft_prev ft")
    (auto simp: Let_def raw_of_def stored_before_def fallback_entry_def split: sum.splits)

declare fetch_loop.simps(2) [simp del]

context exclusive_store
begin

lemma fetch_file_effect:
  assumes "fetch_file U H R s cf f = (s', r)" and "rn_store R = S"
  shows "adds (hashed_blob H) (obj s) (obj s')"
    and "r = Inr (e, n, d) \<Longrightarrow> downloaded H R cf f e \<and> obj s' (blob_key (e_sha e)) \<noteq> None"
proof -
  have "adds (hashed_blob H) (obj s) (obj s') \<and>
    (\<forall>e n d. r = Inr (e, n, d) \<longrightarrow> downloaded H R cf f e \<and> obj s' (blob_key (e_sha e)) \<noteq> None)"
  proof (cases "\<exists>b. rn_open R cf = Inr (b, None) \<and> rn_tmp R (pf_canvas_id f) = None \<and> int (length b) = pf_size f")
    case False
    then have "s' = s \<and> (\<exists>e. r = Inl e)"
      using assms by (auto simp: fetch_file_def Let_def split: sum.splits option.splits prod.splits if_splits)
    then show ?thesis by auto
  next
    case True
    then obtain b where b: "rn_open R cf = Inr (b, None)" "rn_tmp R (pf_canvas_id f) = None" "int (length b) = pf_size f" by blast
    let ?h = "hex_encode (H b)"
    have down: "downloaded H R cf f (fetched_entry f (pf_size f) ?h)" using b by (auto simp: downloaded_def)
    have sha: "e_sha (fetched_entry f (pf_size f) ?h) = ?h" by (simp add: fetched_entry_def)
    show ?thesis
    proof (cases "s_exists S s (blob_key ?h) = Inr False \<and> rn_seek R (pf_canvas_id f) = None")
      case False
      then have "s' = s \<and> ((\<exists>e. r = Inl e) \<or> s_exists S s (blob_key ?h) = Inr True \<and> r = Inr (fetched_entry f (pf_size f) ?h, pf_size f, True))"
        using assms b by (auto simp: fetch_file_def Let_def split: sum.splits option.splits prod.splits if_splits)
      then show ?thesis using down exists_ok [of s "blob_key ?h" True] by (auto simp: sha)
    next
      case True
      obtain s1 err where p: "s_put S s (blob_key ?h) b (pf_size f) = (s1, err)" by fastforce
      have "s' = s1 \<and> (if err = None then r = Inr (fetched_entry f (pf_size f) ?h, pf_size f, False) else \<exists>e. r = Inl e)"
        using assms b True p by (auto simp: fetch_file_def Let_def split: option.splits)
      moreover have "adds (hashed_blob H) (obj s) (obj s1)"
        unfolding adds_def
      proof
        fix k
        have "obj s (blob_key ?h) = None" using exists_ok [of s "blob_key ?h" False] True by blast
        then show "obj s1 k = obj s k \<or> obj s k = None \<and> (\<exists>b t. obj s1 k = Some (b, t) \<and> hashed_blob H k b)"
          using put_atomic [OF p] put_other [OF p, of k] by (cases "k = blob_key ?h") (auto simp: hashed_blob_def)
      qed
      moreover have "err = None \<Longrightarrow> obj s1 (blob_key ?h) \<noteq> None" using put_same p by fastforce
      ultimately show ?thesis using down by (auto simp: sha split: if_splits)
    qed
  qed
  then show "adds (hashed_blob H) (obj s) (obj s')"
    and "r = Inr (e, n, d) \<Longrightarrow> downloaded H R cf f e \<and> obj s' (blob_key (e_sha e)) \<noteq> None" by blast+
qed

lemma fetch_loop_effect:
  assumes "fetch_loop U H R run_id prev_run by_id i s st es fts = ((s', st', i'), r)" and "rn_store R = S"
  shows "adds (hashed_blob H) (obj s) (obj s')
    \<and> (\<forall>e. r = Inl e \<longrightarrow> e = Interrupted)
    \<and> (\<forall>es'. r = Inr es' \<longrightarrow> (\<exists>out. es' = es @ out \<and> list_all2 (outcome U H R run_id prev_run by_id) fts out
        \<and> (\<forall>e \<in> set out. obj s' (blob_key (e_sha e)) \<noteq> None \<or> (\<exists>ft \<in> set fts. \<exists>err. e = fallback_entry run_id prev_run ft err))))"
  using assms
proof (induction fts arbitrary: i s st es)
  case Nil
  then show ?case by auto
next
  case (Cons ft fts)
  obtain s1 r1 where ff: "fetch_file U H R s (raw_of by_id ft) (ft_file ft) = (s1, r1)" by fastforce
  note step = fetch_file_effect [OF ff Cons.prems(2)]
  show ?case
  proof (cases "rn_cancel R i \<or> (\<exists>err. r1 = Inl err) \<and> rn_cancel R (i + 1)")
    case True
    then show ?thesis using Cons.prems ff step(1) by (auto simp: fetch_loop_step Let_def split: if_splits)
  next
    case False
    define e where "e = (case r1 of Inr (e, n, d) \<Rightarrow> e | Inl err \<Rightarrow> fallback_entry run_id prev_run ft err)"
    obtain i1 st1 where rest: "fetch_loop U H R run_id prev_run by_id i1 s1 st1 (es @ [e]) fts = ((s', st', i'), r)"
      using Cons.prems(1) ff False by (auto simp: fetch_loop_step e_def Let_def split: sum.splits prod.splits)
    note IH = Cons.IH [OF rest Cons.prems(2)]
    have grow1: "adds (hashed_blob H) (obj s) (obj s')" using adds_trans step(1) IH by blast
    have out: "outcome U H R run_id prev_run by_id ft e"
      using step(2) ff by (cases r1) (auto simp: e_def outcome_def)
    have here: "obj s' (blob_key (e_sha e)) \<noteq> None \<or> (\<exists>err. e = fallback_entry run_id prev_run ft err)"
    proof (cases r1)
      case (Inr x)
      then obtain n d where "r1 = Inr (e, n, d)" by (cases x) (auto simp: e_def)
      then have "obj s1 (blob_key (e_sha e)) \<noteq> None" using step(2) by blast
      then show ?thesis using adds_present IH by metis
    qed (auto simp: e_def)
    have "\<exists>out'. es' = es @ out' \<and> list_all2 (outcome U H R run_id prev_run by_id) (ft # fts) out'
        \<and> (\<forall>e \<in> set out'. obj s' (blob_key (e_sha e)) \<noteq> None \<or> (\<exists>ft \<in> set (ft # fts). \<exists>err. e = fallback_entry run_id prev_run ft err))"
      if r: "r = Inr es'" for es'
    proof -
      obtain o1 where o1: "es' = (es @ [e]) @ o1" "list_all2 (outcome U H R run_id prev_run by_id) fts o1"
        "\<forall>e \<in> set o1. obj s' (blob_key (e_sha e)) \<noteq> None \<or> (\<exists>ft \<in> set fts. \<exists>err. e = fallback_entry run_id prev_run ft err)"
        using IH r by blast
      show ?thesis
      proof (intro exI conjI)
        show "es' = es @ (e # o1)" using o1 by simp
        show "list_all2 (outcome U H R run_id prev_run by_id) (ft # fts) (e # o1)" using o1 out by simp
        show "\<forall>e \<in> set (e # o1). obj s' (blob_key (e_sha e)) \<noteq> None \<or> (\<exists>ft \<in> set (ft # fts). \<exists>err. e = fallback_entry run_id prev_run ft err)"
          using o1(3) here by auto
      qed
    qed
    then show ?thesis using grow1 IH by blast
  qed
qed

text \<open>Publishing: the manifest is written once, then the pointer moves.\<close>

lemma publish_effect:
  assumes run: "publish R opt c i s st m = (s', st', err)" and S: "rn_store R = S"
  shows "k \<noteq> latest_key (cc_id c) \<Longrightarrow> obj s' k = obj s k \<or> obj s k = None \<and> k = manifest_key (cc_id c) (ro_run opt)
      \<and> (\<exists>n body t. manifest_encode m = (n, Inr body) \<and> obj s' k = Some (body, t))"
    and "(\<And>e. err \<noteq> Some (Publish_failed e)) \<Longrightarrow> err \<noteq> None \<Longrightarrow> obj s' (latest_key (cc_id c)) = obj s (latest_key (cc_id c))"
    and "err = None \<Longrightarrow> st_committed st' \<and> map_option fst (obj s' (latest_key (cc_id c))) = Some (ro_run opt)
      \<and> (\<exists>n body. manifest_encode m = (n, Inr body) \<and> map_option fst (obj s' (manifest_key (cc_id c) (ro_run opt))) = Some body)"
    and "err = Some (Invalid_manifest me) \<Longrightarrow> \<not> is_ok (snd (manifest_encode m))"
proof -
  let ?mk = "manifest_key (cc_id c) (ro_run opt)" and ?lk = "latest_key (cc_id c)"
  have diff: "?mk \<noteq> ?lk" using store_keys_separate by blast
  have all: "(\<forall>k. k \<noteq> ?lk \<longrightarrow> obj s' k = obj s k \<or> obj s k = None \<and> k = ?mk
      \<and> (\<exists>n body t. manifest_encode m = (n, Inr body) \<and> obj s' k = Some (body, t)))
    \<and> ((\<forall>e. err \<noteq> Some (Publish_failed e)) \<longrightarrow> err \<noteq> None \<longrightarrow> obj s' ?lk = obj s ?lk)
    \<and> (err = None \<longrightarrow> st_committed st' \<and> map_option fst (obj s' ?lk) = Some (ro_run opt)
      \<and> (\<exists>n body. manifest_encode m = (n, Inr body) \<and> map_option fst (obj s' ?mk) = Some body))
    \<and> (err = Some (Invalid_manifest me) \<longrightarrow> \<not> is_ok (snd (manifest_encode m)))"
  proof (cases "snd (manifest_encode m)")
    case (Inl e)
    then show ?thesis using run by (auto simp: publish_def)
  next
    case (Inr body)
    then obtain n where enc: "manifest_encode m = (n, Inr body)" by (cases "manifest_encode m") auto
    obtain s1 atomic e1 where w: "put_once S (rn_others R) s ?mk body (int (length body)) = (s1, atomic, e1)"
      by (metis prod_cases3)
    note keeps = put_once_keeps [OF w]
    show ?thesis
    proof (cases e1)
      case (Some e)
      then have "s' = s1 \<and> err = Some (Manifest_write e)" using run S w enc by (auto simp: publish_def Let_def)
      then show ?thesis using keeps(6) Some by auto
    next
      case None
      obtain t where t: "obj s ?mk = None" "obj s1 ?mk = Some (body, t)" using keeps(3) None by auto
      have other1: "k \<noteq> ?mk \<Longrightarrow> obj s1 k = obj s k" for k using keeps(4) by blast
      have step: "\<forall>k. obj s1 k = obj s k \<or> obj s k = None \<and> k = ?mk
          \<and> (\<exists>n body t. manifest_encode m = (n, Inr body) \<and> obj s1 k = Some (body, t))"
        using t other1 enc by metis
      show ?thesis
      proof (cases "rn_cancel R i \<or> (case rn_guard R of None \<Rightarrow> None | Some g \<Rightarrow> g s1) \<noteq> None")
        case True
        then have "s' = s1 \<and> (err = Some Interrupted \<or> (\<exists>e. err = Some (Lease_lost e)))"
          using run S w enc None by (auto simp: publish_def Let_def split: option.splits if_splits)
        then show ?thesis using step other1 diff by auto
      next
        case False
        obtain s2 e2 where l: "s_put S s1 ?lk (ro_run opt) (int (length (ro_run opt))) = (s2, e2)" by fastforce
        have res: "s' = s2 \<and> (case e2 of None \<Rightarrow> err = None \<and> st_committed st' | Some e \<Rightarrow> err = Some (Publish_failed e))"
          using run S w enc None False l by (auto simp: publish_def Let_def split: option.splits)
        have other2: "k \<noteq> ?lk \<Longrightarrow> obj s2 k = obj s1 k" for k using put_other [OF l] by blast
        have "map_option fst (obj s2 ?lk) = Some (ro_run opt)" if "e2 = None" using put_same l that by blast
        then show ?thesis using res step other2 diff t enc by (cases e2) auto
      qed
    qed
  qed
  then show "k \<noteq> ?lk \<Longrightarrow> obj s' k = obj s k \<or> obj s k = None \<and> k = ?mk
      \<and> (\<exists>n body t. manifest_encode m = (n, Inr body) \<and> obj s' k = Some (body, t))"
    and "(\<And>e. err \<noteq> Some (Publish_failed e)) \<Longrightarrow> err \<noteq> None \<Longrightarrow> obj s' ?lk = obj s ?lk"
    and "err = None \<Longrightarrow> st_committed st' \<and> map_option fst (obj s' ?lk) = Some (ro_run opt)
      \<and> (\<exists>n body. manifest_encode m = (n, Inr body) \<and> map_option fst (obj s' ?mk) = Some body)"
    and "err = Some (Invalid_manifest me) \<Longrightarrow> \<not> is_ok (snd (manifest_encode m))"
    by blast+
qed

end

section \<open>A pass as a whole\<close>

definition course_plan :: "unicode_tables \<Rightarrow> 's runner \<Rightarrow> run_options \<Rightarrow> canvas_course \<Rightarrow> manifest option \<Rightarrow> canvas_file list
    \<Rightarrow> (int \<rightharpoonup> canvas_folder) \<Rightarrow> plan" where
  "course_plan U R opt c prev raw folders = compute U (run_input R opt c prev (map (plan_file_of U folders) raw))"

definition listed_as :: "'s runner \<Rightarrow> canvas_course \<Rightarrow> canvas_file list \<Rightarrow> (int \<rightharpoonup> canvas_folder) \<Rightarrow> bool" where
  "listed_as R c raw folders \<longleftrightarrow> rn_files R (cc_id c) = Inr raw \<and> rn_folders R (cc_id c) = Inr folders"

lemma run_course_cases:
  assumes "run_course U H D R opt c s = (s', st, err)"
  obtains (stopped) "s' = s" "err \<noteq> None \<or> rn_dry R" "err \<noteq> Some (Invalid_manifest me)"
  | (worked) prev raw folders i st0 s1 st1 i1 r where
      "\<not> rn_dry R" "read_previous (rn_store R) D s (cc_id c) = Inr prev" "listed_as R c raw folders"
      "fetch_loop U H R (ro_run opt) (prev_run_id prev) (index_raw Map.empty raw) i s st0
         (groups (course_plan U R opt c prev raw folders)) (pl_fetch (course_plan U R opt c prev raw folders)) = ((s1, st1, i1), r)"
      "case r of Inl e \<Rightarrow> s' = s1 \<and> err = Some e
       | Inr es \<Rightarrow> publish R opt c i1 s1 st1 (assemble H R opt c (prev_run_id prev) es) = (s', st, err)"
proof (cases "read_previous (rn_store R) D s (cc_id c)")
  case (Inl e)
  then show ?thesis using assms stopped by (auto simp: run_course_def)
next
  case prev: (Inr prev)
  show ?thesis
  proof (cases "rn_files R (cc_id c)")
    case (Inl e)
    then show ?thesis using assms prev stopped by (auto simp: run_course_def)
  next
    case raw: (Inr raw)
    show ?thesis
    proof (cases "rn_folders R (cc_id c)")
      case (Inl e)
      then show ?thesis using assms prev raw stopped by (auto simp: run_course_def)
    next
      case folders: (Inr folders)
      show ?thesis
      proof (cases "rn_dry R")
        case True
        then show ?thesis using assms prev raw folders stopped by (auto simp: run_course_def Let_def)
      next
        case False
        define st0 where "st0 = (if scope_all (ro_scope opt) then
            plan_stats (snd (snd (to_plan_files U raw folders (empty_stats\<lparr>st_seen := int (length raw)\<rparr>)))) (course_plan U R opt c prev raw folders)
          else (plan_stats (snd (snd (to_plan_files U raw folders (empty_stats\<lparr>st_seen := int (length raw)\<rparr>)))) (course_plan U R opt c prev raw folders))
            \<lparr>st_unmatched := scope_unmatched U (ro_scope opt) (plan_paths (course_plan U R opt c prev raw folders))\<rparr>)"
        obtain s1 st1 i1 r where loop: "fetch_loop U H R (ro_run opt) (prev_run_id prev) (index_raw Map.empty raw) 0 s st0
            (groups (course_plan U R opt c prev raw folders)) (pl_fetch (course_plan U R opt c prev raw folders)) = ((s1, st1, i1), r)"
          by (metis prod_cases3 surj_pair)
        have files: "fst (to_plan_files U raw folders x) = map (plan_file_of U folders) raw"
          "fst (snd (to_plan_files U raw folders x)) = index_raw Map.empty raw" for x
          by (simp_all add: to_plan_files_def Let_def)
        have "(case r of Inl e \<Rightarrow> (s1, st1, Some e)
            | Inr es \<Rightarrow> publish R opt c i1 s1 st1 (assemble H R opt c (prev_run_id prev) es)) = (s', st, err)"
          using assms unfolding run_course_def prev raw folders sum.case Let_def files
            course_plan_def [symmetric] st0_def [symmetric] loop fst_conv snd_conv
          using False by simp
        then show ?thesis
          using worked [OF False prev _ loop] raw folders by (auto simp: listed_as_def split: sum.splits)
      qed
    qed
  qed
qed

section \<open>The invariant of the vault\<close>

text \<open>
  A stored blob hashes to its key, and every hash that a readable manifest names is a blob
  that is there. \<open>reads_back\<close> is what the decoder owes: in the text of a manifest whose hashes
  are hexadecimal it finds no other hash.
\<close>

definition content_addressed :: "(string \<Rightarrow> byte list) \<Rightarrow> contents \<Rightarrow> bool" where
  "content_addressed H st \<longleftrightarrow> (\<forall>h b t. 4 \<le> length h \<longrightarrow> st (blob_key h) = Some (b, t) \<longrightarrow> h = hex_encode (H b))"

definition hex_name :: "string \<Rightarrow> bool" where
  "hex_name h \<longleftrightarrow> list_all hex_lower h"

definition served :: "contents \<Rightarrow> string \<Rightarrow> bool" where
  "served st h \<longleftrightarrow> st (blob_key h) \<noteq> None \<and> hex_name h"

definition vault_ok :: "(string \<Rightarrow> byte list) \<Rightarrow> (string \<Rightarrow> manifest option) \<Rightarrow> contents \<Rightarrow> bool" where
  "vault_ok H D st \<longleftrightarrow> content_addressed H st \<and> (\<forall>h. referenced_in D st h \<longrightarrow> served st h)"

definition reads_back :: "(string \<Rightarrow> manifest option) \<Rightarrow> bool" where
  "reads_back D \<longleftrightarrow> (\<forall>m n b x. manifest_encode m = (n, Inr b) \<longrightarrow> (\<forall>h \<in> entry_hashes m. hex_name h)
     \<longrightarrow> D b = Some x \<longrightarrow> entry_hashes x \<subseteq> entry_hashes m)"

lemma hex_encode_name: "hex_name (hex_encode bs)"
  by (auto simp: hex_name_def list_all_iff dest: hex_encode_lower)

lemma vault_ok_step:
  assumes ok: "vault_ok H D st" and D: "reads_back D"
    and step: "\<And>k. k \<noteq> latest_key c \<Longrightarrow> st' k = st k \<or> st k = None \<and> (\<exists>b t. st' k = Some (b, t) \<and>
      (hashed_blob H k b \<or> k = manifest_key c r \<and> (\<exists>m n. manifest_encode m = (n, Inr b) \<and> (\<forall>h \<in> entry_hashes m. served st' h))))"
  shows "vault_ok H D st'"
proof -
  have keys: "blob_key h \<noteq> latest_key c" "blob_key h \<noteq> manifest_key c r" for h using store_keys_separate by blast+
  have "h = hex_encode (H b)" if h: "4 \<le> length h" "st' (blob_key h) = Some (b, t)" for h b t
  proof (cases "st' (blob_key h) = st (blob_key h)")
    case True
    then have "st (blob_key h) = Some (b, t)" using h(2) by simp
    then show ?thesis using ok h(1) unfolding vault_ok_def content_addressed_def by blast
  next
    case False
    then have "blob_key h = blob_key (hex_encode (H b))"
      using step [of "blob_key h"] keys [of h] h(2) by (auto simp: hashed_blob_def)
    then show ?thesis using store_keys_separate [of c r c r h "hex_encode (H b)"] h(1) by simp
  qed
  moreover have "served st' h" if ref: "referenced_in D st' h" for h
  proof -
    obtain k m where m: "manifest_in D st' k = Some m" "h \<in> entry_hashes m" using ref by (auto simp: referenced_in_def)
    then have k: "has_prefix k ''manifests/''" "has_suffix k ''.json''" by (auto simp: manifest_in_def split: if_splits)
    have notlatest: "k \<noteq> latest_key c" using k(2) by (auto simp: latest_key_def has_suffix_def)
    have notblob: "k \<noteq> blob_key x" for x using k(1) by (auto simp: blob_key_def has_prefix_iff split: if_splits)
    show ?thesis
    proof (cases "st' k = st k")
      case True
      then have "manifest_in D st k = Some m" using m(1) manifest_in_cong [of k st st' D] by simp
      then have old: "served st h" using m(2) ok unfolding vault_ok_def referenced_in_def by blast
      then have "st' (blob_key h) = st (blob_key h)" using step [of "blob_key h"] keys [of h] by (auto simp: served_def)
      then show ?thesis using old by (simp add: served_def)
    next
      case False
      then obtain b t m0 n where new: "st' k = Some (b, t)" "manifest_encode m0 = (n, Inr b)" "\<forall>h \<in> entry_hashes m0. served st' h"
        using step [OF notlatest] notblob by (auto simp: hashed_blob_def)
      have "D b = Some m" using m(1) new(1) k by (auto simp: manifest_in_def manifest_decode_def split: option.splits)
      then have "h \<in> entry_hashes m0" using D new(2,3) m(2) unfolding reads_back_def served_def by blast
      then show ?thesis using new(3) by blast
    qed
  qed
  ultimately show ?thesis by (simp add: vault_ok_def content_addressed_def)
qed

section \<open>Where the entries of a new catalogue come from\<close>

definition from_previous :: "manifest option \<Rightarrow> entry \<Rightarrow> bool" where
  "from_previous prev pe \<longleftrightarrow> (\<exists>m. prev = Some m \<and> pe \<in> set (entries m))"

lemma prev_at_from: "prev_at inp p = Some pe \<Longrightarrow> from_previous (in_prev inp) pe"
  by (auto simp: prev_at_def from_previous_def dest: by_path_SomeD split: option.splits)

lemma groups_sha:
  assumes "e \<in> set (groups (compute U inp))"
  shows "e_sha e = [] \<or> (\<exists>pe. from_previous (in_prev inp) pe \<and> e_sha e = e_sha pe)"
proof -
  have absent: "e \<in> set (absent U inp) \<Longrightarrow> from_previous (in_prev inp) e" for e
    by (auto simp: absent_def from_previous_def split: option.splits)
  have carry: "has_bytes inp f \<Longrightarrow> from_previous (in_prev inp) (the (prev_at inp (pf_path f)))" for f
    using prev_at_from by (auto elim!: has_bytesE)
  have oos: "e_sha (out_of_scope f (prev_at inp (pf_path f))) = []
      \<or> (\<exists>pe. from_previous (in_prev inp) pe \<and> e_sha (out_of_scope f (prev_at inp (pf_path f))) = e_sha pe)" for f
    by (auto simp: out_of_scope_def skipped_entry_def dest: prev_at_from split: option.splits)
  show ?thesis
    using assms absent carry oos
    by (auto simp: compute_eq classification_def Let_def groups_def skip_of_def skipped_entry_def locked_entry_def tombstone_def)
qed

lemma list_all2_right: "list_all2 P xs ys \<Longrightarrow> y \<in> set ys \<Longrightarrow> \<exists>x \<in> set xs. P x y"
  by (induction rule: list_all2_induct) auto

lemma fetch_previous:
  "ft \<in> set (pl_fetch (compute U inp)) \<Longrightarrow> ft_prev ft = Some pe \<Longrightarrow> from_previous (in_prev inp) pe \<and> e_path pe = pf_path (ft_file ft)"
  by (auto simp: compute_eq classification_def Let_def fetch_of_def dest: prev_at_from prev_at_SomeD)

context exclusive_store
begin

lemma load_manifest_in:
  assumes "load_manifest S D s course r = Inr m"
  shows "manifest_in D (obj s) (manifest_key course r) = Some m \<and> mf_course m = course \<and> mf_run m = r"
proof -
  obtain b where b: "s_get S s (manifest_key course r) = Inr b" "manifest_decode D b = Inr m" and m: "mf_course m = course" "mf_run m = r"
    using assms by (auto simp: load_manifest_def Let_def split: sum.splits if_splits)
  obtain t where "obj s (manifest_key course r) = Some (b, t)" using get_ok [OF b(1)] by auto
  then show ?thesis using b(2) m by (simp add: manifest_in_def manifest_key_def has_prefix_def has_suffix_def)
qed

lemma first_intact_in: "first_intact S D s course ks = Some m \<Longrightarrow> \<exists>r. load_manifest S D s course r = Inr m"
  by (induction ks) (auto split: sum.splits)

lemma read_previous_in:
  assumes "read_previous S D s course = Inr (Some m)"
  shows "manifest_in D (obj s) (manifest_key course (mf_run m)) = Some m \<and> mf_course m = course"
proof -
  have recover: "recover_manifest S D s course = Inr (Some m) \<Longrightarrow> \<exists>r. load_manifest S D s course r = Inr m"
    by (auto simp: recover_manifest_def Let_def dest: first_intact_in split: option.splits)
  have "\<exists>r. load_manifest S D s course r = Inr m"
    using assms recover by (auto simp: read_previous_def Let_def split: sum.splits if_splits)
  then show ?thesis using load_manifest_in by blast
qed

lemma previous_served:
  assumes "vault_ok H D (obj s)" and "read_previous S D s course = Inr prev" and "from_previous prev pe"
  shows "e_sha pe = [] \<or> served (obj s) (e_sha pe)"
proof -
  obtain m where m: "prev = Some m" "pe \<in> set (entries m)" using assms(3) by (auto simp: from_previous_def)
  then have "manifest_in D (obj s) (manifest_key course (mf_run m)) = Some m" using assms(2) read_previous_in by blast
  then have "e_sha pe \<noteq> [] \<Longrightarrow> referenced_in D (obj s) (e_sha pe)"
    using m(2) by (auto simp: referenced_in_def entry_hashes_def)
  then show ?thesis using assms(1) by (auto simp: vault_ok_def)
qed

lemma adds_served: "adds P (obj s) (obj s') \<Longrightarrow> served (obj s) h \<Longrightarrow> served (obj s') h"
  using adds_present [of P "obj s" "obj s'"] by (simp add: served_def)

lemma catalogue_served:
  assumes ok: "vault_ok H D (obj s)" and prev: "read_previous S D s (cc_id c) = Inr prev" and S: "rn_store R = S"
    and loop: "fetch_loop U H R (ro_run opt) (prev_run_id prev) by_id i s st (groups (course_plan U R opt c prev raw folders))
      (pl_fetch (course_plan U R opt c prev raw folders)) = ((s1, st1, i1), Inr es)"
    and e: "e \<in> set es" and sha: "e_sha e \<noteq> []"
  shows "served (obj s1) (e_sha e)"
proof -
  let ?p = "course_plan U R opt c prev raw folders"
  have inp: "in_prev (run_input R opt c prev fs) = prev" for fs by (simp add: run_input_def)
  note loop_effect = fetch_loop_effect [OF loop S]
  then obtain out where es: "es = groups ?p @ out" and results: "list_all2 (outcome U H R (ro_run opt) (prev_run_id prev) by_id) (pl_fetch ?p) out"
    and blobs: "\<forall>e \<in> set out. obj s1 (blob_key (e_sha e)) \<noteq> None \<or> (\<exists>ft \<in> set (pl_fetch ?p). \<exists>err. e = fallback_entry (ro_run opt) (prev_run_id prev) ft err)"
    by blast
  have grow: "adds (hashed_blob H) (obj s) (obj s1)" using loop_effect by blast
  have old: "served (obj s1) (e_sha e)" if "from_previous prev pe" "e_sha e = e_sha pe" for pe
    using previous_served [OF ok prev that(1)] that(2) sha adds_served [OF grow] by simp
  have fallback: "served (obj s1) (e_sha e)"
    if ft: "ft \<in> set (pl_fetch ?p)" and fb: "e = fallback_entry (ro_run opt) (prev_run_id prev) ft err" for ft err
  proof -
    obtain pe where pe: "stored_before ft = Some pe"
      using sha fb by (auto simp: fallback_entry_def failed_entry_def split: option.splits)
    then have "ft_prev ft = Some pe" by (auto simp: stored_before_def split: option.splits if_splits)
    then have "from_previous prev pe" using fetch_previous [OF ft [unfolded course_plan_def], of pe] inp by simp
    moreover have "e_sha e = e_sha pe" using fb pe by (simp add: fallback_entry_def kept_entry_def)
    ultimately show ?thesis by (rule old)
  qed
  consider "e \<in> set (groups ?p)" | "e \<in> set out" using e es by auto
  then show ?thesis
  proof cases
    case 1
    then show ?thesis using groups_sha [of e U "run_input R opt c prev (map (plan_file_of U folders) raw)"] sha old inp
      by (auto simp: course_plan_def)
  next
    case 2
    then obtain ft where "ft \<in> set (pl_fetch ?p)" "outcome U H R (ro_run opt) (prev_run_id prev) by_id ft e"
      using list_all2_right [OF results] by blast
    then show ?thesis using fallback blobs 2 hex_encode_name
      by (auto simp: outcome_def downloaded_def fetched_entry_def served_def)
  qed
qed

lemma run_course_change:
  assumes run: "run_course U H D R opt c s = (s', st, err)" and S: "rn_store R = S"
  shows "k \<noteq> latest_key (cc_id c) \<Longrightarrow> obj s' k = obj s k \<or> obj s k = None \<and> (\<exists>b t. obj s' k = Some (b, t) \<and>
      (hashed_blob H k b \<or> k = manifest_key (cc_id c) (ro_run opt) \<and> (\<exists>m n. manifest_encode m = (n, Inr b) \<and>
        (vault_ok H D (obj s) \<longrightarrow> (\<forall>h \<in> entry_hashes m. served (obj s') h)))))"
    and "(\<And>e. err \<noteq> Some (Publish_failed e)) \<Longrightarrow> err \<noteq> None \<or> rn_dry R \<Longrightarrow> obj s' (latest_key (cc_id c)) = obj s (latest_key (cc_id c))"
    and "rn_dry R \<Longrightarrow> s' = s"
proof -
  let ?mk = "manifest_key (cc_id c) (ro_run opt)" and ?lk = "latest_key (cc_id c)"
  have keys: "?lk \<noteq> blob_key h" "?mk \<noteq> ?lk" "?mk \<noteq> blob_key h" for h using store_keys_separate by metis+
  have "(\<forall>k. k \<noteq> ?lk \<longrightarrow> obj s' k = obj s k \<or> obj s k = None \<and> (\<exists>b t. obj s' k = Some (b, t) \<and>
      (hashed_blob H k b \<or> k = ?mk \<and> (\<exists>m n. manifest_encode m = (n, Inr b) \<and>
        (vault_ok H D (obj s) \<longrightarrow> (\<forall>h \<in> entry_hashes m. served (obj s') h))))))
    \<and> ((\<forall>e. err \<noteq> Some (Publish_failed e)) \<longrightarrow> err \<noteq> None \<or> rn_dry R \<longrightarrow> obj s' ?lk = obj s ?lk)
    \<and> (rn_dry R \<longrightarrow> s' = s)"
    using run
  proof (cases rule: run_course_cases [where me = Malformed])
    case stopped
    then show ?thesis by auto
  next
    case (worked prev raw folders i st0 s1 st1 i1 r)
    note loop = fetch_loop_effect [OF worked(4) S]
    have grow: "adds (hashed_blob H) (obj s) (obj s1)" using loop by blast
    have lk1: "obj s1 ?lk = obj s ?lk" by (rule adds_other [OF grow]) (simp add: hashed_blob_def keys)
    have mk1: "obj s1 ?mk = obj s ?mk" by (rule adds_other [OF grow]) (simp add: hashed_blob_def keys)
    have step1: "obj s1 k = obj s k \<or> obj s k = None \<and> (\<exists>b t. obj s1 k = Some (b, t) \<and> hashed_blob H k b)" for k
      using grow by (simp add: adds_def)
    show ?thesis
    proof (cases r)
      case (Inl e)
      then have "s' = s1 \<and> err = Some e" using worked(5) by simp
      then show ?thesis using worked(1) lk1 step1 by (metis option.distinct(1))
    next
      case (Inr es)
      define m where "m = assemble H R opt c (prev_run_id prev) es"
      have pub: "publish R opt c i1 s1 st1 m = (s', st, err)" using worked(5) Inr by (simp add: m_def)
      note effect = publish_effect [OF pub S]
      have blob2: "obj s' (blob_key h) = obj s1 (blob_key h)" for h
        using effect(1) [of "blob_key h"] keys by metis
      have served2: "served (obj s') h" if ok: "vault_ok H D (obj s)" and h: "h \<in> entry_hashes m" for h
      proof -
        obtain e where "e \<in> set es" "e_sha e = h" "h \<noteq> []"
          using h by (auto simp: entry_hashes_def m_def assemble_def entries_def)
        then have "served (obj s1) h" using catalogue_served [OF ok _ S worked(4) [unfolded Inr]] worked(2) S by blast
        then show ?thesis using blob2 by (simp add: served_def)
      qed
      have step: "obj s' k = obj s k \<or> obj s k = None \<and> (\<exists>b t. obj s' k = Some (b, t) \<and>
        (hashed_blob H k b \<or> k = ?mk \<and> (\<exists>m n. manifest_encode m = (n, Inr b) \<and>
        (vault_ok H D (obj s) \<longrightarrow> (\<forall>h \<in> entry_hashes m. served (obj s') h)))))" if nk: "k \<noteq> ?lk" for k
      proof (cases "obj s' k = obj s1 k")
        case True
        then show ?thesis using step1 [of k] by auto
      next
        case False
        then obtain n b t where "k = ?mk" "obj s1 k = None" "manifest_encode m = (n, Inr b)" "obj s' k = Some (b, t)"
          using effect(1) [OF nk] by blast
        then show ?thesis using mk1 served2 by auto
      qed
      have "obj s' ?lk = obj s ?lk" if "\<forall>e. err \<noteq> Some (Publish_failed e)" "err \<noteq> None"
        using effect(2) that lk1 by simp
      then show ?thesis using step worked(1) by blast
    qed
  qed
  then show "k \<noteq> ?lk \<Longrightarrow> obj s' k = obj s k \<or> obj s k = None \<and> (\<exists>b t. obj s' k = Some (b, t) \<and>
      (hashed_blob H k b \<or> k = ?mk \<and> (\<exists>m n. manifest_encode m = (n, Inr b) \<and>
        (vault_ok H D (obj s) \<longrightarrow> (\<forall>h \<in> entry_hashes m. served (obj s') h)))))"
    and "(\<And>e. err \<noteq> Some (Publish_failed e)) \<Longrightarrow> err \<noteq> None \<or> rn_dry R \<Longrightarrow> obj s' ?lk = obj s ?lk"
    and "rn_dry R \<Longrightarrow> s' = s"
    by blast+
qed

lemma run_keeps_vault_ok:
  assumes "run_course U H D R opt c s = (s', st, err)" and "rn_store R = S" and ok: "vault_ok H D (obj s)" and "reads_back D"
  shows "vault_ok H D (obj s')"
proof (rule vault_ok_step [OF ok assms(4)])
  fix k assume k: "k \<noteq> latest_key (cc_id c)"
  show "obj s' k = obj s k \<or> obj s k = None \<and> (\<exists>b t. obj s' k = Some (b, t) \<and> (hashed_blob H k b \<or>
      k = manifest_key (cc_id c) (ro_run opt) \<and> (\<exists>m n. manifest_encode m = (n, Inr b) \<and> (\<forall>h \<in> entry_hashes m. served (obj s') h))))"
    using run_course_change(1) [OF assms(1,2) k] ok by simp
qed

lemma run_committed:
  assumes run: "run_course U H D R opt c s = (s', st, None)" and S: "rn_store R = S" and dry: "\<not> rn_dry R"
  shows "\<exists>prev raw folders fetched n body. read_previous S D s (cc_id c) = Inr prev \<and> listed_as R c raw folders
    \<and> list_all2 (outcome U H R (ro_run opt) (prev_run_id prev) (index_raw Map.empty raw))
        (pl_fetch (course_plan U R opt c prev raw folders)) fetched
    \<and> manifest_encode (assemble H R opt c (prev_run_id prev) (groups (course_plan U R opt c prev raw folders) @ fetched)) = (n, Inr body)
    \<and> map_option fst (obj s' (manifest_key (cc_id c) (ro_run opt))) = Some body
    \<and> map_option fst (obj s' (latest_key (cc_id c))) = Some (ro_run opt) \<and> st_committed st"
  using run
proof (cases rule: run_course_cases [where me = Malformed])
  case stopped
  then show ?thesis using dry by simp
next
  case (worked prev raw folders i st0 s1 st1 i1 r)
  then obtain es where es: "r = Inr es" by (cases r) auto
  then have pub: "publish R opt c i1 s1 st1 (assemble H R opt c (prev_run_id prev) es) = (s', st, None)" using worked(5) by simp
  obtain fetched where f: "es = groups (course_plan U R opt c prev raw folders) @ fetched"
    "list_all2 (outcome U H R (ro_run opt) (prev_run_id prev) (index_raw Map.empty raw)) (pl_fetch (course_plan U R opt c prev raw folders)) fetched"
    using fetch_loop_effect [OF worked(4) S] es by blast
  show ?thesis using publish_effect(3) [OF pub S] worked(2,3) S f by blast
qed

end

section \<open>The assembled catalogue is valid\<close>

lemma sanitize_path_nonempty: "sanitize_path U p = Inr q \<Longrightarrow> q \<noteq> []"
proof -
  assume "sanitize_path U p = Inr q"
  then obtain parts out where out: "sanitize_parts U parts [] = Inr out" "out \<noteq> []" "q = join_with ''/'' out"
    by (auto simp: sanitize_path_def sum_split Let_def split: if_splits)
  have "list_all (safe_component MaxComponent) out" using sanitize_parts_safe [OF out(1)] by simp
  then show "q \<noteq> []" using out(2,3) by (cases out; cases "tl out") (auto simp: safe_component_def stable_end_def)
qed

lemma resolve_path_nonempty: "fst (resolve_path U dir name cid) \<noteq> []"
proof -
  have "fallback U name cid \<noteq> []" by (auto simp: fallback_def Let_def split: sum.splits)
  then show ?thesis by (auto simp: resolve_path_def Let_def dest: sanitize_path_nonempty split: sum.splits)
qed

lemma disambiguate_nonempty: "disambiguate p cid \<noteq> []"
  by (simp add: disambiguate_def Let_def)

lemma dedupe_subset: "set (fst (dedupe files)) \<subseteq> set files"
proof -
  obtain out dups where loop: "dedupe_loop Map.empty [] [] files = (out, dups)" by fastforce
  have "positions_ok Map.empty []" by (simp add: positions_ok_def)
  from dedupe_loop_spec [OF this loop] show ?thesis by (simp add: dedupe_def Let_def loop)
qed

lemma disambiguate_rounds_nonempty:
  "[] \<notin> pf_path ` set fs \<Longrightarrow> [] \<notin> pf_path ` set (disambiguate_rounds U n fs)"
proof (induction n arbitrary: fs)
  case (Suc n)
  have "[] \<notin> pf_path ` set (map (\<lambda>f. if collides U fs f then suffixed f else f) fs)"
    using Suc.prems disambiguate_nonempty [THEN not_sym] by (auto simp: suffixed_def)
  then show ?case using Suc by simp
qed simp

lemma plan_files_nonempty: "[] \<notin> pf_path ` set (in_files inp) \<Longrightarrow> [] \<notin> pf_path ` set (plan_files U inp)"
  unfolding plan_files_def disambiguate_files_def
  by (rule disambiguate_rounds_nonempty) (use dedupe_subset [of "in_files inp"] in blast)

text \<open>Errors have a text, and a digest is not empty.\<close>

definition errors_named :: "'s runner \<Rightarrow> bool" where
  "errors_named R \<longleftrightarrow> (\<forall>cf. rn_open R cf \<noteq> Inl []) \<and> (\<forall>i. rn_seek R i \<noteq> Some [])"

lemma fetch_error_named:
  "errors_named R \<Longrightarrow> fetch_file U H R s cf f = (s', Inl err) \<Longrightarrow> err \<noteq> []"
  by (auto simp: fetch_file_def Let_def errors_named_def split: sum.splits option.splits prod.splits if_splits)

lemma kept_entry_ok: "entry_ok pe \<Longrightarrow> entry_ok (kept_entry run_id prev_run err pe) \<and> e_path (kept_entry run_id prev_run err pe) = e_path pe"
  by (auto simp: entry_ok_def kept_entry_def)

lemma outcome_ok:
  assumes R: "errors_named R" and H: "\<And>b. H b \<noteq> []" and out: "outcome U H R run_id prev_run by_id ft e"
    and path: "pf_path (ft_file ft) \<noteq> []"
    and prev: "\<And>pe. ft_prev ft = Some pe \<Longrightarrow> entry_ok pe \<and> e_path pe = pf_path (ft_file ft)"
  shows "entry_ok e \<and> e_path e = pf_path (ft_file ft)"
proof (cases "downloaded H R (raw_of by_id ft) (ft_file ft) e")
  case True
  then obtain b where "e = fetched_entry (ft_file ft) (pf_size (ft_file ft)) (hex_encode (H b))" by (auto simp: downloaded_def)
  moreover have "hex_encode (H b) \<noteq> []" using H [of b] by (cases "H b") simp_all
  ultimately show ?thesis using path by (simp add: entry_ok_def fetched_entry_def state_defs)
next
  case False
  then obtain s s' err where ff: "fetch_file U H R s (raw_of by_id ft) (ft_file ft) = (s', Inl err)"
    and e: "e = fallback_entry run_id prev_run ft err" using out by (auto simp: outcome_def)
  have err: "err \<noteq> []" by (rule fetch_error_named [OF R ff])
  show ?thesis
  proof (cases "stored_before ft")
    case None
    then show ?thesis using e err path by (simp add: fallback_entry_def entry_ok_def failed_entry_def)
  next
    case (Some pe)
    then have "ft_prev ft = Some pe" by (auto simp: stored_before_def split: option.splits if_splits)
    then show ?thesis using prev [of pe] e Some kept_entry_ok by (simp add: fallback_entry_def)
  qed
qed

context exclusive_store
begin

lemma previous_ok:
  assumes "read_previous S D s course = Inr prev"
  shows "case prev of None \<Rightarrow> True | Some m \<Rightarrow> manifest_validate m = None"
proof (cases prev)
  case (Some m)
  then have "manifest_in D (obj s) (manifest_key course (mf_run m)) = Some m" using read_previous_in assms by blast
  then show ?thesis using Some by (auto simp: manifest_in_def manifest_decode_def split: option.splits if_splits)
qed simp

lemma run_invalid_only_collisions:
  assumes run: "run_course U H D R opt c s = (s', st, Some (Invalid_manifest me))" and S: "rn_store R = S"
    and R: "errors_named R" and H: "\<And>b. H b \<noteq> []" and run_id: "ro_run opt \<noteq> []"
  shows "\<exists>prev raw folders. listed_as R c raw folders \<and>
    \<not> distinct (map pf_path (plan_files U (run_input R opt c prev (map (plan_file_of U folders) raw))))"
  using run
proof (cases rule: run_course_cases [where me = me])
  case stopped
  then show ?thesis by simp
next
  case (worked prev raw folders i st0 s1 st1 i1 r)
  let ?files = "map (plan_file_of U folders) raw"
  let ?inp = "run_input R opt c prev ?files"
  note loop = fetch_loop_effect [OF worked(4) S]
  obtain es where es: "r = Inr es" using loop worked(5) by (cases r) auto
  obtain out where out: "es = groups (compute U ?inp) @ out"
    "list_all2 (outcome U H R (ro_run opt) (prev_run_id prev) (index_raw Map.empty raw)) (pl_fetch (compute U ?inp)) out"
    using loop es by (auto simp: course_plan_def)
  let ?m = "assemble H R opt c (prev_run_id prev) es"
  have prev: "prev_ok ?inp" using previous_ok worked(2) S by (auto simp: prev_ok_def run_input_def)
  have "[] \<notin> pf_path ` set (in_files ?inp)"
    using resolve_path_nonempty [THEN not_sym] by (auto simp: run_input_def plan_file_of_def Let_def)
  then have paths: "[] \<notin> pf_path ` set (plan_files U ?inp)" by (rule plan_files_nonempty)
  have "\<not> distinct (map pf_path (plan_files U ?inp))"
  proof
    assume dist: "distinct (map pf_path (plan_files U ?inp))"
    have one: "entry_ok e \<and> e_path e = pf_path (ft_file ft)"
      if ft: "ft \<in> set (pl_fetch (compute U ?inp))" and o1: "outcome U H R (ro_run opt) (prev_run_id prev) (index_raw Map.empty raw) ft e" for ft e
    proof (rule outcome_ok [OF R H o1])
      have "ft_file ft \<in> set (plan_files U ?inp)" using ft by (auto simp: compute_eq classification_def Let_def fetch_of_def)
      then show "pf_path (ft_file ft) \<noteq> []" using paths by (metis imageI)
      show "entry_ok pe \<and> e_path pe = pf_path (ft_file ft)" if "ft_prev ft = Some pe" for pe
        using ft that prev_entry_ok [OF prev] by (auto simp: compute_eq classification_def Let_def fetch_of_def dest: prev_at_SomeD)
    qed
    have "list_all2 (\<lambda>ft e. entry_ok e \<and> e_path e = pf_path (ft_file ft)) (pl_fetch (compute U ?inp)) out"
      by (rule list.rel_mono_strong [OF out(2)]) (use one in blast)
    then have "catalogue_ok es" unfolding out(1) by (rule catalogue_assembled [OF prev paths dist])
    then have "manifest_validate (normalize_manifest ?m) = None"
      using run_id catalogue_ok_perm [of "sort_key e_path es" es]
      by (simp add: manifest_validate_iff entries_normalize) (simp add: assemble_def normalize_manifest_def entries_def)
    then have "is_ok (snd (manifest_encode ?m))" by (simp add: manifest_encode_def Let_def)
    moreover have "\<not> is_ok (snd (manifest_encode ?m))"
      using publish_effect(4) [OF _ S] worked(5) es by fastforce
    ultimately show False by simp
  qed
  then show ?thesis using worked(3) by blast
qed

end

section \<open>Sequences of passes\<close>

text \<open>
  Passes over courses and garbage collections hold the lease, so they follow one another;
  a crash is a pass that is cancelled at the corresponding check.
\<close>

inductive vault_pass :: "unicode_tables \<Rightarrow> (string \<Rightarrow> byte list) \<Rightarrow> (string \<Rightarrow> manifest option) \<Rightarrow> 's store_ops \<Rightarrow> 's \<Rightarrow> 's \<Rightarrow> bool"
  for U H D S where
  course: "run_course U H D R opt c s = (s', st, err) \<Longrightarrow> rn_store R = S \<Longrightarrow> vault_pass U H D S s s'"
| collect: "gc_run S D gopt cancel s = (s', rep, err) \<Longrightarrow> vault_pass U H D S s s'"

lemma content_addressed_subset:
  "content_addressed H st \<Longrightarrow> (\<And>k. st' k = st k \<or> st' k = None) \<Longrightarrow> content_addressed H st'"
  unfolding content_addressed_def by (metis option.distinct(1))

context exclusive_store
begin

lemma gc_keeps_vault_ok:
  assumes run: "gc_run S D gopt cancel s = (s', rep, err)" and ok: "vault_ok H D (obj s)"
  shows "vault_ok H D (obj s')" and "manifest_in D (obj s') = manifest_in D (obj s)"
proof -
  have effect: "obj s' k = obj s k \<or> garbage D gopt (obj s) k \<and> obj s' k = None" for k
    using gc_run_effect(1) [OF run, of k] by blast
  have keep: "obj s' k = obj s k" if "has_prefix k ''manifests/''" for k
    using effect garbage_not_manifest that by blast
  show same: "manifest_in D (obj s') = manifest_in D (obj s)"
    by (rule ext, rule manifest_in_cong) (rule keep)
  have "obj s' k = obj s k \<or> obj s' k = None" for k using effect [of k] by (elim disjE) simp_all
  then have "content_addressed H (obj s')"
    by (rule content_addressed_subset [OF conjunct1 [OF ok [unfolded vault_ok_def]]])
  moreover have "served (obj s') h" if "referenced_in D (obj s') h" for h
  proof -
    have ref: "referenced_in D (obj s) h" using that by (simp add: referenced_in_def same)
    then have "obj s' (blob_key h) = obj s (blob_key h)" using effect [of "blob_key h"] garbage_unreferenced by blast
    then show ?thesis using ref ok by (simp add: vault_ok_def served_def)
  qed
  ultimately show "vault_ok H D (obj s')" by (simp add: vault_ok_def)
qed

lemma run_keeps_manifests:
  assumes "run_course U H D R opt c s = (s', st, err)" and "rn_store R = S" and m: "manifest_in D (obj s) k = Some m"
  shows "manifest_in D (obj s') k = Some m"
proof -
  have k: "has_suffix k ''.json''" "obj s k \<noteq> None" using m by (auto simp: manifest_in_def split: if_splits option.splits)
  then have "k \<noteq> latest_key (cc_id c)" by (auto simp: latest_key_def has_suffix_def)
  then have "obj s' k = obj s k" using run_course_change(1) [OF assms(1,2), of k] k(2) by blast
  then show ?thesis using m manifest_in_cong [of k "obj s'" "obj s" D] by simp
qed

lemma passes_keep:
  assumes "(vault_pass U H D S)\<^sup>*\<^sup>* s s'" and "vault_ok H D (obj s)" and "reads_back D"
  shows "vault_ok H D (obj s') \<and> (\<forall>k m. manifest_in D (obj s) k = Some m \<longrightarrow> manifest_in D (obj s') k = Some m)"
  using assms(1)
proof (induction rule: rtranclp_induct)
  case (step s1 s2)
  from step.hyps(2) show ?case
  proof (cases rule: vault_pass.cases)
    case course
    then show ?thesis using step.IH run_keeps_vault_ok [OF course] run_keeps_manifests [OF course] assms(3) by blast
  next
    case collect
    then show ?thesis using step.IH gc_keeps_vault_ok [OF collect] by fastforce
  qed
qed (use assms(2) in blast)

end

section \<open>Properties\<close>

text \<open>
  C5: A pass over a course never destroys anything. On every store with atomic write-once,
  whatever fails or is cancelled, a key changes only if it was absent and now holds a blob
  under the hash of its content or the manifest of this run, or if it is the latest pointer
  of this course; the pointer changes only when the pass commits or its very last write
  reports an error. A dry run writes nothing.
\<close>
theorem run_never_overwrites:
  assumes "exclusive_store S obj put_absent" and "run_course U H D R opt c s = (s', st, err)" and "rn_store R = S"
  shows "(obj s' k = obj s k
      \<or> obj s k = None \<and> (\<exists>b t. obj s' k = Some (b, t) \<and> (hashed_blob H k b \<or> k = manifest_key (cc_id c) (ro_run opt)))
      \<or> k = latest_key (cc_id c) \<and> \<not> rn_dry R \<and> (err = None \<or> (\<exists>e. err = Some (Publish_failed e))))
    \<and> (rn_dry R \<longrightarrow> s' = s)"
proof (cases "k = latest_key (cc_id c)")
  case True
  then show ?thesis using exclusive_store.run_course_change(2,3) [OF assms] by (cases "rn_dry R") blast+
next
  case False
  then show ?thesis using exclusive_store.run_course_change(1,3) [OF assms] by blast
qed

text \<open>
  C4: A pass that commits has published a complete catalogue: the latest pointer names this
  run, its manifest is stored, and that manifest is the encoding of the groups of the plan
  followed by one entry per fetch in order; each of these is the downloaded file under the
  hash of its bytes, with the size Canvas reports, or else, with the error of the download as
  its reason, the previous entry when there were stored bytes to serve and a failed entry
  when not.
\<close>
theorem run_commits_catalogue:
  assumes "exclusive_store S obj put_absent" and "run_course U H D R opt c s = (s', st, None)" and "rn_store R = S" and "\<not> rn_dry R"
  shows "\<exists>prev raw folders fetched n body. read_previous S D s (cc_id c) = Inr prev \<and> listed_as R c raw folders
    \<and> list_all2 (outcome U H R (ro_run opt) (prev_run_id prev) (index_raw Map.empty raw))
        (pl_fetch (course_plan U R opt c prev raw folders)) fetched
    \<and> manifest_encode (assemble H R opt c (prev_run_id prev) (groups (course_plan U R opt c prev raw folders) @ fetched)) = (n, Inr body)
    \<and> map_option fst (obj s' (manifest_key (cc_id c) (ro_run opt))) = Some body
    \<and> map_option fst (obj s' (latest_key (cc_id c))) = Some (ro_run opt) \<and> st_committed st"
  using assms by (rule exclusive_store.run_committed)

text \<open>
  C3: The vault stays consistent for ever. Along every sequence of passes over courses and
  garbage collections, with any failures and cancellations, every blob hashes to its key,
  every hash a readable manifest names is a blob that is there, and no readable manifest is
  ever lost or altered.
\<close>
theorem vault_stays_consistent:
  assumes "exclusive_store S obj put_absent" and "reads_back D" and "vault_ok H D (obj s)" and "(vault_pass U H D S)\<^sup>*\<^sup>* s s'"
  shows "vault_ok H D (obj s') \<and> (\<forall>k m. manifest_in D (obj s) k = Some m \<longrightarrow> manifest_in D (obj s') k = Some m)"
  by (rule exclusive_store.passes_keep [OF assms(1,4,3,2)])

text \<open>
  C6: A pass refuses its own catalogue only for a path collision: if the run is named,
  digests are not empty, errors have a text and the listed files have distinct paths after
  collision handling, then the manifest it assembles is valid, whatever the previous
  manifest, the Canvas names, the rules, the scope and the failed downloads are.
\<close>
theorem run_catalogue_accepted:
  assumes "exclusive_store S obj put_absent" and "run_course U H D R opt c s = (s', st, err)"
    and "rn_store R = S" and "errors_named R" and "\<And>b. H b \<noteq> []" and "ro_run opt \<noteq> []" and "listed_as R c raw folders"
    and "distinct (map pf_path (plan_files U (run_input R opt c None (map (plan_file_of U folders) raw))))"
  shows "err \<noteq> Some (Invalid_manifest me)"
proof
  assume "err = Some (Invalid_manifest me)"
  then have run: "run_course U H D R opt c s = (s', st, Some (Invalid_manifest me))" using assms(2) by simp
  obtain prev raw' folders' where "listed_as R c raw' folders'"
    "\<not> distinct (map pf_path (plan_files U (run_input R opt c prev (map (plan_file_of U folders') raw'))))"
    using exclusive_store.run_invalid_only_collisions [OF assms(1) run assms(3-6)] by blast
  then show False using assms(7,8) by (simp add: listed_as_def plan_files_def run_input_def)
qed

text \<open>
  When Canvas lists an id twice, the planner keeps the newest copy but the download takes the
  copy listed last: a stale copy listed after the newest one is what is fetched.
\<close>
lemma stale_copy_downloaded:
  assumes "cf_id f = cf_id g" and "cf_updated g < cf_updated f"
  shows "index_raw Map.empty [f, g] (cf_id f) = Some g"
    and "fst (dedupe (map (plan_file_of U folders) [f, g])) = [plan_file_of U folders f]"
  using assms by (simp_all add: plan_file_of_def dedupe_def newer_def Let_def)

section \<open>Witnesses\<close>

definition sample_canvas_file :: canvas_file where
  "sample_canvas_file = zero_canvas_file\<lparr>cf_id := 1, cf_display_name := ''x'', cf_size := 1, cf_updated := 0, cf_modified := 0\<rparr>"

definition sample_course :: canvas_course where
  "sample_course = \<lparr>cc_id = 3, cc_name = ''c'', cc_code = ''c1''\<rparr>"

definition sample_runner :: "memory runner" where
  "sample_runner = \<lparr>rn_files = (\<lambda>_. Inr [sample_canvas_file]), rn_folders = (\<lambda>_. Inr Map.empty),
     rn_open = (\<lambda>_. Inr (''z'', None)), rn_store = memory_ops, rn_policy = in_policy sample_input, rn_now = 0, rn_generated = 0,
     rn_tmp = (\<lambda>_. None), rn_seek = (\<lambda>_. None), rn_guard = None, rn_dry = False, rn_cancel = (\<lambda>_. False), rn_others = id\<rparr>"

definition sample_run_options :: run_options where
  "sample_run_options = \<lparr>ro_run = ''r1'', ro_scope = []\<rparr>"

definition sample_digest :: "string \<Rightarrow> byte list" where
  "sample_digest b = [171, 205]"

abbreviation sample_run :: "memory \<times> stats \<times> run_error option" where
  "sample_run \<equiv> run_course plain_tables sample_digest (\<lambda>_. None) sample_runner sample_run_options sample_course (new_memory 0)"

lemma sample_name: "resolve_path plain_tables [] ''x'' i = (''x'', [])"
proof -
  have "character_pass ''x'' = ''x''" by (simp add: character_pass_id ascii_string illegal_def is_control_def)
  moreover have "\<not> reserved_name plain_tables ''x''" by (simp add: path_eval)
  ultimately have "component_of plain_tables ''x'' = Inr ''x''" by (simp add: component_of_def MaxComponent_def)
  then have "sanitize_path plain_tables ''x'' = Inr ''x''"
    by (simp add: sanitize_path_def replace_byte_def has_prefix_def MaxTotal_def)
  then show ?thesis by (simp add: resolve_path_def join_path_def trim_prefix_def has_prefix_def)
qed

lemma sample_listing: "plan_file_of plain_tables Map.empty sample_canvas_file = named_file ''x'' 1"
proof -
  have "folder_of Map.empty sample_canvas_file = []" by (simp add: folder_of_def sample_canvas_file_def zero_canvas_file_def)
  then show ?thesis
    using sample_name [of 1] by (simp add: plan_file_of_def named_file_def sample_canvas_file_def zero_canvas_file_def)
qed

lemma sample_run_input: "run_input sample_runner sample_run_options sample_course None [named_file ''x'' 1] = sample_input"
  by (simp add: run_input_def sample_input_def sample_runner_def sample_run_options_def sample_course_def)

lemma sample_previous: "read_previous memory_ops D (new_memory 0) c = Inr None"
  by (simp add: read_previous_def memory_ops_def mem_get_def new_memory_def)

lemma sample_runner_simps:
  "rn_files sample_runner c = Inr [sample_canvas_file]" "rn_folders sample_runner c = Inr Map.empty"
  "rn_open sample_runner cf = Inr (''z'', None)" "rn_store sample_runner = memory_ops" "rn_tmp sample_runner i = None"
  "rn_seek sample_runner i = None" "rn_guard sample_runner = None" "\<not> rn_dry sample_runner" "\<not> rn_cancel sample_runner n"
  by (simp_all add: sample_runner_def)

definition sample_entry1 :: entry where
  "sample_entry1 = fetched_entry (named_file ''x'' 1) 1 ''abcd''"

definition sample_blob :: memory where
  "sample_blob = mem_store (new_memory 0) ''blobs/sha256/ab/cd/abcd'' ''z''"

lemma sample_hash: "hex_encode (sample_digest b) = ''abcd''" "blob_key ''abcd'' = ''blobs/sha256/ab/cd/abcd''"
  by (simp_all add: sample_digest_def hex_digit_def blob_key_def slice_def char_of_eq)

lemma sample_put: "mem_put (new_memory 0) ''blobs/sha256/ab/cd/abcd'' ''z'' 1 = (sample_blob, None)"
  by (simp add: mem_put_def mem_read_def valid_key_def has_prefix_def check_size_def new_memory_def sample_blob_def)

lemma named_file_fields: "pf_size (named_file p i) = 1" "pf_canvas_id (named_file p i) = i" "pf_path (named_file p i) = p"
  "pf_note (named_file p i) = []"
  by (simp_all add: named_file_def)

lemma sample_fetch:
  "fetch_file plain_tables sample_digest sample_runner (new_memory 0) cf (named_file ''x'' 1) = (sample_blob, Inr (sample_entry1, 1, False))"
proof -
  have "s_exists memory_ops (new_memory 0) k = Inr False" for k by (simp add: memory_ops_def mem_exists_def new_memory_def)
  moreover have "s_put memory_ops = mem_put" by (simp add: memory_ops_def)
  ultimately show ?thesis
    using sample_put by (simp add: fetch_file_def sample_runner_simps sample_hash sample_entry1_def Let_def named_file_fields)
qed

definition sample_published :: manifest where
  "sample_published = assemble sample_digest sample_runner sample_run_options sample_course [] [sample_entry1]"

lemma sample_loop:
  "fetch_loop plain_tables sample_digest sample_runner r p by_id i (new_memory 0) st [] [fetch_of sample_input (named_file ''x'' 1)]
     = ((sample_blob, st\<lparr>st_fetched := st_fetched st + 1, st_bytes := st_bytes st + 1\<rparr>, i + 1), Inr [sample_entry1])"
  by (simp add: fetch_loop_step sample_runner_simps sample_fetch Let_def)

lemma sample_encodes: "\<exists>n body. manifest_encode sample_published = (n, Inr body)"
proof -
  have "manifest_validate (normalize_manifest sample_published) = None"
    by (simp add: sample_published_def assemble_def sample_run_options_def normalize_manifest_def manifest_validate_def
        SchemaVersion_def sample_entry1_def fetched_entry_def named_file_fields state_defs)
  then show ?thesis by (simp add: manifest_encode_def Let_def)
qed

lemma sample_keys:
  "manifest_key 3 ''r1'' = ''manifests/3/r1.json''" "latest_key 3 = ''manifests/3/latest''"
  "valid_key ''manifests/3/r1.json'' = None" "valid_key ''manifests/3/latest'' = None"
proof -
  have "string_of_int 3 = ''3''" by code_simp
  then show "manifest_key 3 ''r1'' = ''manifests/3/r1.json''" "latest_key 3 = ''manifests/3/latest''"
    by (simp_all add: manifest_key_def latest_key_def)
  show "valid_key ''manifests/3/r1.json'' = None" "valid_key ''manifests/3/latest'' = None"
    by (simp_all add: valid_key_def has_prefix_def)
qed

lemma sample_publish: "snd (snd (publish sample_runner sample_run_options sample_course i sample_blob st sample_published)) = None"
proof -
  obtain n body where enc: "manifest_encode sample_published = (n, Inr body)" using sample_encodes by blast
  have data: "mem_data sample_blob = [(''blobs/sha256/ab/cd/abcd'', ''z'')]" "mem_put_err sample_blob k = None" for k
    by (simp_all add: sample_blob_def mem_store_def new_memory_def)
  have w: "put_once memory_ops I sample_blob ''manifests/3/r1.json'' body (int (length body))
      = (mem_store sample_blob ''manifests/3/r1.json'' body, True, None)" for I
    by (simp add: memx.put_once_absent mem_put_if_absent_def mem_read_def sample_keys check_size_def data)
  have l: "s_put memory_ops m ''manifests/3/latest'' ''r1'' 2 = (mem_store m ''manifests/3/latest'' ''r1'', None)"
    if "\<And>k. mem_put_err m k = None" for m
    by (simp add: memory_ops_def mem_put_def mem_read_def sample_keys check_size_def that)
  have course: "cc_id sample_course = 3" "ro_run sample_run_options = ''r1''" by (simp_all add: sample_course_def sample_run_options_def)
  show ?thesis
    using l [of "mem_store sample_blob ''manifests/3/r1.json'' body"]
    by (simp add: publish_def enc Let_def course sample_keys sample_runner_simps w)
      (simp add: mem_store_def data)
qed

lemma sample_commits: "snd (snd sample_run) = None"
proof -
  have "scope_all (ro_scope sample_run_options)" by (simp add: sample_run_options_def scope_all_def)
  then have "\<exists>i st. sample_run = publish sample_runner sample_run_options sample_course i sample_blob st sample_published"
    unfolding run_course_def sample_runner_simps sample_previous sum.case
    by (simp add: sample_runner_simps to_plan_files_def sample_listing sample_run_input sample_plan prev_run_id_def
        sample_loop sample_published_def Let_def named_file_fields) blast
  then show ?thesis using sample_publish by metis
qed

lemma run_commits_catalogue_witness:
  "map_option fst (mem_obj (fst sample_run) (latest_key 3)) = Some ''r1''"
proof -
  have run: "sample_run = (fst sample_run, fst (snd sample_run), None)" using sample_commits by (metis prod.collapse)
  have course: "cc_id sample_course = 3" "ro_run sample_run_options = ''r1''" by (simp_all add: sample_course_def sample_run_options_def)
  from run_commits_catalogue [OF memx.exclusive_store_axioms run sample_runner_simps(4) sample_runner_simps(8)]
  show ?thesis unfolding course by blast
qed

lemma run_never_overwrites_witness: "mem_obj (fst sample_run) ''y'' = mem_obj (new_memory 0) ''y''"
proof -
  have run: "sample_run = (fst sample_run, fst (snd sample_run), None)" using sample_commits by (metis prod.collapse)
  have "blob_key h \<noteq> ''y''" for h by (simp add: blob_key_def)
  then have k: "''y'' \<noteq> manifest_key c r" "''y'' \<noteq> latest_key c" "\<not> hashed_blob H ''y'' b" for c r H b
    by (auto simp: manifest_key_def latest_key_def hashed_blob_def dest: not_sym)
  from run_never_overwrites [OF memx.exclusive_store_axioms run sample_runner_simps(4), of "''y''"] k
  show ?thesis by blast
qed

lemma vault_stays_consistent_witness:
  "vault_ok sample_digest (\<lambda>_. Some sample_manifest) (mem_obj (fst (run_course plain_tables sample_digest (\<lambda>_. Some sample_manifest)
     sample_runner sample_run_options sample_course (new_memory 0))))"
proof -
  let ?D = "\<lambda>_ :: string. Some sample_manifest"
  have "entry_hashes sample_manifest = {}" by (auto simp: entry_hashes_def sample_manifest_def sample_entry_def entries_def)
  then have D: "reads_back ?D" by (simp add: reads_back_def)
  have empty: "mem_obj (new_memory 0) k = None" for k by (simp add: mem_obj_def new_memory_def)
  then have ok: "vault_ok sample_digest ?D (mem_obj (new_memory 0))"
    by (auto simp: vault_ok_def content_addressed_def referenced_in_def manifest_in_def split: if_splits)
  obtain s' st err where run: "run_course plain_tables sample_digest ?D sample_runner sample_run_options sample_course (new_memory 0) = (s', st, err)"
    by (metis prod_cases3)
  have "(vault_pass plain_tables sample_digest ?D memory_ops)\<^sup>*\<^sup>* (new_memory 0) s'"
    by (rule r_into_rtranclp) (rule vault_pass.course [OF run sample_runner_simps(4)])
  from vault_stays_consistent [OF memx.exclusive_store_axioms D ok this] show ?thesis by (simp add: run)
qed


lemma run_catalogue_accepted_witness: "snd (snd sample_run) \<noteq> Some (Invalid_manifest Empty_run_id)"
proof -
  obtain s' st err where run: "sample_run = (s', st, err)" by (metis prod_cases3)
  have named: "errors_named sample_runner" by (simp add: errors_named_def sample_runner_simps)
  have listed: "listed_as sample_runner sample_course [sample_canvas_file] Map.empty" by (simp add: listed_as_def sample_runner_simps)
  have "distinct (map pf_path (plan_files plain_tables (run_input sample_runner sample_run_options sample_course None
      (map (plan_file_of plain_tables Map.empty) [sample_canvas_file]))))"
    by (simp add: sample_listing sample_run_input sample_files)
  note paths = this
  have "err \<noteq> Some (Invalid_manifest Empty_run_id)"
    by (rule run_catalogue_accepted [OF memx.exclusive_store_axioms run sample_runner_simps(4) named _ _ listed paths]) (simp_all add: sample_digest_def sample_run_options_def)
  then show ?thesis by (simp add: run)
qed

end
