(* ===== verification/Annot_Ops.thy ===== *)
theory Annot_Ops
  imports Annot_Model
begin

text \<open>
  Operation sets of the annotation core, \<^verbatim>\<open>internal/core/annot/ops.go\<close>: checking,
  encoding and parsing. A Go loop that may return an error is a recursion over the same
  list with the loop's variables as arguments.
\<close>

section \<open>Types\<close>

text \<open>\<open>OpKind\<close> is a byte; only 1 and 2 are operations.\<close>

datatype op_kind = OpPut | OpDel | OpOther nat

record element_op =
  eo_op :: op_kind
  eo_key :: element_key
  eo_value :: string

record entry_op =
  no_op :: op_kind
  no_key :: entry_key
  no_value :: string

record annot_ops =
  ao_elements :: "element_op list"
  ao_entries :: "entry_op list"
  ao_meta_put :: "(string \<times> string) list"
  ao_meta_del :: "string list"
  ao_replace :: bool

definition no_ops :: annot_ops where
  "no_ops = \<lparr>ao_elements = [], ao_entries = [], ao_meta_put = [], ao_meta_del = [], ao_replace = False\<rparr>"

section \<open>Encoding\<close>

definition encode_element_key :: "element_key \<Rightarrow> string" where
  "encode_element_key k =
    append_member (append_member ''{'' ''kind'' (quoted (ek_kind k))) ''id'' (quoted (ek_id k)) @ ''}''"

definition encode_entry_key :: "entry_key \<Rightarrow> string" where
  "encode_entry_key k =
    append_member (append_member ''{'' ''family'' (quoted (nk_family k))) ''page'' (string_of_int (nk_page k)) @ ''}''"

definition encode_item :: "op_kind \<Rightarrow> string \<Rightarrow> string \<Rightarrow> string" where
  "encode_item k key v =
    (if k = OpPut then append_member (append_member ''{'' ''put'' key) ''value'' v
     else append_member ''{'' ''del'' key) @ ''}''"

definition encode_ops :: "annot_ops \<Rightarrow> string" where
  "encode_ops o1 =
    (let elements = map (\<lambda>e. encode_item (eo_op e) (encode_element_key (eo_key e)) (eo_value e)) (ao_elements o1);
         entries = map (\<lambda>e. encode_item (no_op e) (encode_entry_key (no_key e)) (no_value e)) (ao_entries o1);
         puts = fold (append_key (ao_meta_put o1)) (sort (map fst (ao_meta_put o1))) ''{'' @ ''}'';
         meta = append_member (append_member ''{'' ''put'' puts) ''del'' (raw_array (map quoted (ao_meta_del o1))) @ ''}'';
         out = append_member (append_member (append_member ''{'' ''elements'' (raw_array elements))
                 ''entries'' (raw_array entries)) ''meta'' meta
     in (if ao_replace o1 then append_member out ''replace'' ''true'' else out) @ ''}'')"

section \<open>Checking\<close>

definition only_fields :: "(string \<times> string) list \<Rightarrow> string list \<Rightarrow> annot_error + unit" where
  "only_fields obj names = (if list_all (\<lambda>(k, _). k \<in> set names) obj then Inr () else Inl AErrNonCanonical)"

definition valid_element_key :: "element_key \<Rightarrow> annot_limits \<Rightarrow> annot_error + unit" where
  "valid_element_key k l =
    (if kind_index (ek_kind k) < 0 then Inl AErrNonCanonical
     else if ek_id k = [] \<or> \<not> valid_string (ek_id k) then Inl AErrMissingID
     else if int (length (ek_id k)) > al_max_id_bytes l then Inl AErrLimit
     else Inr ())"

definition valid_entry :: "entry_key \<Rightarrow> string \<Rightarrow> op_kind \<Rightarrow> annot_error + unit" where
  "valid_entry k v p =
    (if nk_page k \<le> 0 \<or> nk_page k > 2147483647 then Inl AErrNonCanonical
     else if nk_family k = pdf_page_state then
       if p = OpPut \<and> v \<noteq> raw_hidden \<and> v \<noteq> raw_permanent then Inl AErrNonCanonical else Inr ()
     else if nk_family k = pdf_page_templates then
       if p = OpPut then
         (case object_of v of Inl _ \<Rightarrow> Inl AErrNonCanonical
          | Inr obj \<Rightarrow>
            (case page_number (case map_of obj ''page'' of Some t \<Rightarrow> t | None \<Rightarrow> []) of
               Inl _ \<Rightarrow> Inl AErrNonCanonical
             | Inr page \<Rightarrow> if page \<noteq> nk_page k then Inl AErrNonCanonical else Inr ()))
       else Inr ()
     else Inl AErrNonCanonical)"

text \<open>\<open>consume\<close>: the budget that is left, or nothing.\<close>

definition consume :: "nat \<Rightarrow> int \<Rightarrow> annot_error + int" where
  "consume n budget = (if int n > budget then Inl AErrLimit else Inr (budget - int n))"

text \<open>One element operation; \<open>deleting\<close> is the key of the last deletion.\<close>

definition check_element :: "annot_limits \<Rightarrow> int \<Rightarrow> element_key option \<Rightarrow> element_op \<Rightarrow> annot_error + element_op \<times> element_key option" where
  "check_element l max_bytes deleting e =
    (case eo_op e of
       OpPut \<Rightarrow>
         if deleting \<noteq> None then Inl AErrNonCanonical
         else rbind (strict_json l (eo_value e) max_bytes) (\<lambda>raw.
           rbind (get_id raw l) (\<lambda>id.
           if id \<noteq> ek_id (eo_key e) then Inl AErrMissingID
           else Inr (e\<lparr>eo_value := raw\<rparr>, deleting)))
     | OpDel \<Rightarrow>
         if eo_value e \<noteq> [] \<or> (case deleting of Some p \<Rightarrow> compare_element p (eo_key e) \<ge> 0 | None \<Rightarrow> False)
         then Inl AErrNonCanonical else Inr (e, Some (eo_key e))
     | OpOther _ \<Rightarrow> Inl AErrNonCanonical)"

fun check_elements :: "annot_limits \<Rightarrow> int \<Rightarrow> element_key list \<Rightarrow> element_key option \<Rightarrow> int \<Rightarrow> element_op list
    \<Rightarrow> annot_error + element_op list \<times> int" where
  "check_elements l max_bytes seen deleting budget [] = Inr ([], budget)"
| "check_elements l max_bytes seen deleting budget (e # es) =
    rbind (valid_element_key (eo_key e) l) (\<lambda>_.
    if eo_key e \<in> set seen then Inl AErrNonCanonical
    else rbind (consume (length (ek_id (eo_key e)) + length (eo_value e)) budget) (\<lambda>b.
    rbind (check_element l max_bytes deleting e) (\<lambda>(e1, d1).
    rbind (check_elements l max_bytes (eo_key e # seen) d1 b es) (\<lambda>(es1, b1). Inr (e1 # es1, b1)))))"

definition check_entry :: "annot_limits \<Rightarrow> int \<Rightarrow> entry_op \<Rightarrow> annot_error + entry_op" where
  "check_entry l max_bytes e =
    rbind (case no_op e of
       OpPut \<Rightarrow> rbind (strict_json l (no_value e) max_bytes) (\<lambda>raw. Inr (e\<lparr>no_value := raw\<rparr>))
     | OpDel \<Rightarrow> if no_value e \<noteq> [] then Inl AErrNonCanonical else Inr e
     | OpOther _ \<Rightarrow> Inl AErrNonCanonical) (\<lambda>e1.
    rbind (valid_entry (no_key e1) (no_value e1) (no_op e1)) (\<lambda>_. Inr e1))"

fun check_entries :: "annot_limits \<Rightarrow> int \<Rightarrow> entry_key option \<Rightarrow> int \<Rightarrow> entry_op list \<Rightarrow> annot_error + entry_op list \<times> int" where
  "check_entries l max_bytes prev budget [] = Inr ([], budget)"
| "check_entries l max_bytes prev budget (e # es) =
    (if (case prev of Some p \<Rightarrow> compare_entry p (no_key e) \<ge> 0 | None \<Rightarrow> False) then Inl AErrNonCanonical
     else rbind (consume (length (no_value e)) budget) (\<lambda>b.
     rbind (check_entry l max_bytes e) (\<lambda>e1.
     rbind (check_entries l max_bytes (Some (no_key e)) b es) (\<lambda>(es1, b1). Inr (e1 # es1, b1)))))"

text \<open>The members of \<open>MetaPut\<close> in key order, and the deleted keys.\<close>

fun check_meta_puts :: "annot_limits \<Rightarrow> int \<Rightarrow> bool \<Rightarrow> int \<Rightarrow> (string \<times> string) list \<Rightarrow> annot_error + (string \<times> string) list \<times> int" where
  "check_meta_puts l max_bytes replace budget [] = Inr ([], budget)"
| "check_meta_puts l max_bytes replace budget ((key, v) # ms) =
    (if \<not> valid_string key \<or> reserved key then Inl AErrNonCanonical
     else if structural key \<and> \<not> replace then Inl AErrStructuralKey
     else rbind (consume (length key + length v) budget) (\<lambda>b.
     rbind (strict_json l v max_bytes) (\<lambda>raw.
     if structural key \<and> \<not> is_ok (array_of raw) then Inl AErrNonCanonical
     else rbind (check_meta_puts l max_bytes replace b ms) (\<lambda>(ms1, b1). Inr ((key, raw) # ms1, b1)))))"

fun check_meta_dels :: "(string \<times> string) list \<Rightarrow> bool \<Rightarrow> string option \<Rightarrow> int \<Rightarrow> string list \<Rightarrow> annot_error + int" where
  "check_meta_dels puts replace prev budget [] = Inr budget"
| "check_meta_dels puts replace prev budget (key # ks) =
    (if \<not> valid_string key \<or> reserved key \<or> (case prev of Some p \<Rightarrow> p \<ge> key | None \<Rightarrow> False) then Inl AErrNonCanonical
     else if structural key \<and> \<not> replace then Inl AErrStructuralKey
     else if map_of puts key \<noteq> None then Inl AErrNonCanonical
     else rbind (consume (length key) budget) (\<lambda>b. check_meta_dels puts replace (Some key) b ks))"

definition sorted_members :: "(string \<times> string) list \<Rightarrow> (string \<times> string) list" where
  "sorted_members m = map (\<lambda>k. (k, case map_of m k of Some v \<Rightarrow> v | None \<Rightarrow> [])) (sort (map fst m))"

definition ops_count :: "annot_ops \<Rightarrow> int" where
  "ops_count o1 = int (length (ao_elements o1) + length (ao_entries o1) + length (ao_meta_put o1) + length (ao_meta_del o1))"

definition checked_ops :: "annot_ops \<Rightarrow> annot_limits \<Rightarrow> bool \<Rightarrow> annot_error + annot_ops" where
  "checked_ops o1 l trusted =
    (if ao_replace o1 \<and> \<not> trusted then Inl AErrNonCanonical
     else let max_count = (if trusted then al_max_state_bytes l else al_max_ops l);
              max_bytes = (if trusted then al_max_state_bytes l else al_max_op_bytes l) in
     if ops_count o1 > max_count then Inl AErrLimit
     else rbind (check_elements l max_bytes [] None max_bytes (ao_elements o1)) (\<lambda>(elements, b1).
     rbind (check_entries l max_bytes None b1 (ao_entries o1)) (\<lambda>(entries, b2).
     rbind (check_meta_puts l max_bytes (ao_replace o1) b2 (sorted_members (ao_meta_put o1))) (\<lambda>(puts, b3).
     rbind (check_meta_dels (ao_meta_put o1) (ao_replace o1) None b3 (ao_meta_del o1)) (\<lambda>_.
     let out = \<lparr>ao_elements = elements, ao_entries = entries, ao_meta_put = puts, ao_meta_del = ao_meta_del o1,
         ao_replace = ao_replace o1\<rparr> in
     if int (length (encode_ops out)) > max_bytes then Inl AErrLimit else Inr out)))))"

section \<open>Marshalling\<close>

definition ops_marshal_json :: "annot_ops \<Rightarrow> annot_error + string" where
  "ops_marshal_json o1 = rbind (checked_ops o1 annot_default_limits (ao_replace o1)) (\<lambda>c. Inr (encode_ops c))"

definition marshal_ops_with :: "annot_limits \<Rightarrow> annot_ops \<Rightarrow> bool \<Rightarrow> annot_error + string" where
  "marshal_ops_with l0 o1 trusted = rbind (annot_normalized l0) (\<lambda>l.
     rbind (checked_ops o1 l trusted) (\<lambda>c. Inr (encode_ops c)))"

definition marshal_ops :: "annot_limits \<Rightarrow> annot_ops \<Rightarrow> annot_error + string" where
  "marshal_ops l o1 = marshal_ops_with l o1 False"

definition marshal_committed :: "annot_limits \<Rightarrow> annot_ops \<Rightarrow> annot_error + string" where
  "marshal_committed l o1 = marshal_ops_with l o1 True"

section \<open>Parsing\<close>

text \<open>
  \<^verbatim>\<open>json.Unmarshal\<close> into a field of type string or int of a struct; the callers have checked
  that the members are exactly the struct's. A null leaves the zero value.
\<close>

definition string_field :: "(string \<times> string) list \<Rightarrow> string \<Rightarrow> string option" where
  "string_field obj name =
    (case map_of obj name of None \<Rightarrow> Some []
     | Some t \<Rightarrow> (case parse_json t of
         Some (RStr b) \<Rightarrow> Some (unquote b)
       | Some (RWord w) \<Rightarrow> if w = ''null'' then Some [] else None
       | _ \<Rightarrow> None))"

definition int_field :: "(string \<times> string) list \<Rightarrow> string \<Rightarrow> int option" where
  "int_field obj name =
    (case map_of obj name of None \<Rightarrow> Some 0
     | Some t \<Rightarrow> (case parse_json t of
         Some (RWord w) \<Rightarrow> if w = ''null'' then Some 0 else if w = ''true'' \<or> w = ''false'' then None else parse_int64 w
       | _ \<Rightarrow> None))"

definition decode_element_key :: "(string \<times> string) list \<Rightarrow> element_key option" where
  "decode_element_key obj =
    (case string_field obj ''kind'' of None \<Rightarrow> None
     | Some k \<Rightarrow> (case string_field obj ''id'' of None \<Rightarrow> None
       | Some i \<Rightarrow> Some \<lparr>ek_kind = k, ek_id = i\<rparr>))"

definition decode_entry_key :: "(string \<times> string) list \<Rightarrow> entry_key option" where
  "decode_entry_key obj =
    (case string_field obj ''family'' of None \<Rightarrow> None
     | Some f \<Rightarrow> (case int_field obj ''page'' of None \<Rightarrow> None
       | Some p \<Rightarrow> Some \<lparr>nk_family = f, nk_page = p\<rparr>))"

text \<open>Any failure to read a part of an operation is \<open>ErrNonCanonical\<close>.\<close>

definition as_noncanonical :: "annot_error + 'a \<Rightarrow> annot_error + 'a" where
  "as_noncanonical m = (case m of Inl _ \<Rightarrow> Inl AErrNonCanonical | Inr x \<Rightarrow> Inr x)"

definition parse_item :: "string \<Rightarrow> annot_error + op_kind \<times> (string \<times> string) list \<times> string" where
  "parse_item item =
    rbind (as_noncanonical (object_of item)) (\<lambda>fields.
    rbind (only_fields fields [''put'', ''del'', ''value'']) (\<lambda>_.
    let put = map_of fields ''put''; del = map_of fields ''del''; v = map_of fields ''value'' in
    if (put = None) = (del = None) then Inl AErrNonCanonical
    else if put \<noteq> None \<and> v = None then Inl AErrNonCanonical
    else if del \<noteq> None \<and> v \<noteq> None then Inl AErrNonCanonical
    else rbind (as_noncanonical (object_of (the (if del = None then put else del)))) (\<lambda>key.
      Inr (if del = None then OpPut else OpDel, key, case v of Some x \<Rightarrow> x | None \<Rightarrow> []))))"

definition parse_element_op :: "string \<Rightarrow> annot_error + element_op" where
  "parse_element_op item = rbind (parse_item item) (\<lambda>(p, key, v).
     if \<not> is_ok (only_fields key [''kind'', ''id'']) \<or> length key \<noteq> 2 then Inl AErrNonCanonical
     else (case decode_element_key key of None \<Rightarrow> Inl AErrNonCanonical
       | Some k \<Rightarrow> Inr \<lparr>eo_op = p, eo_key = k, eo_value = v\<rparr>))"

definition parse_entry_op :: "string \<Rightarrow> annot_error + entry_op" where
  "parse_entry_op item = rbind (parse_item item) (\<lambda>(p, key, v).
     if \<not> is_ok (only_fields key [''family'', ''page'']) \<or> length key \<noteq> 2 then Inl AErrNonCanonical
     else (case decode_entry_key key of None \<Rightarrow> Inl AErrNonCanonical
       | Some k \<Rightarrow> Inr \<lparr>no_op = p, no_key = k, no_value = v\<rparr>))"

fun rmap :: "('a \<Rightarrow> 'e + 'b) \<Rightarrow> 'a list \<Rightarrow> 'e + 'b list" where
  "rmap f [] = Inr []"
| "rmap f (x # xs) = rbind (f x) (\<lambda>y. rbind (rmap f xs) (\<lambda>ys. Inr (y # ys)))"

definition parse_items_field :: "(string \<times> string) list \<Rightarrow> string \<Rightarrow> (string \<Rightarrow> annot_error + 'a) \<Rightarrow> annot_error + 'a list" where
  "parse_items_field obj name f = (case map_of obj name of None \<Rightarrow> Inr []
     | Some v \<Rightarrow> rbind (as_noncanonical (array_of v)) (rmap f))"

definition string_item :: "string \<Rightarrow> annot_error + string" where
  "string_item t = (case parse_json t of
     Some (RStr b) \<Rightarrow> Inr (unquote b)
   | Some (RWord w) \<Rightarrow> if w = ''null'' then Inr [] else Inl AErrNonCanonical
   | _ \<Rightarrow> Inl AErrNonCanonical)"

definition parse_meta :: "(string \<times> string) list \<Rightarrow> annot_error + (string \<times> string) list \<times> string list" where
  "parse_meta obj = (case map_of obj ''meta'' of None \<Rightarrow> Inr ([], [])
   | Some raw \<Rightarrow>
     rbind (as_noncanonical (object_of raw)) (\<lambda>meta.
     rbind (only_fields meta [''put'', ''del'']) (\<lambda>_.
     rbind (case map_of meta ''put'' of None \<Rightarrow> Inr [] | Some v \<Rightarrow> as_noncanonical (object_of v)) (\<lambda>puts.
     rbind (parse_items_field meta ''del'' string_item) (\<lambda>dels. Inr (puts, dels))))))"

definition parse_ops_with :: "string \<Rightarrow> annot_limits \<Rightarrow> bool \<Rightarrow> annot_error + annot_ops" where
  "parse_ops_with s l0 trusted =
    rbind (annot_normalized l0) (\<lambda>l.
    rbind (strict_json l s (if trusted then al_max_state_bytes l else al_max_op_bytes l)) (\<lambda>compact.
    rbind (as_noncanonical (object_of compact)) (\<lambda>obj.
    rbind (only_fields obj ([''elements'', ''entries'', ''meta''] @ (if trusted then [''replace''] else []))) (\<lambda>_.
    rbind (case map_of obj ''replace'' of None \<Rightarrow> Inr False
       | Some r \<Rightarrow> if r \<noteq> ''true'' \<and> r \<noteq> ''false'' then Inl AErrNonCanonical else Inr (r = ''true'')) (\<lambda>replace.
    rbind (parse_items_field obj ''elements'' parse_element_op) (\<lambda>elements.
    rbind (parse_items_field obj ''entries'' parse_entry_op) (\<lambda>entries.
    rbind (parse_meta obj) (\<lambda>(puts, dels).
      checked_ops \<lparr>ao_elements = elements, ao_entries = entries, ao_meta_put = puts, ao_meta_del = dels,
        ao_replace = replace\<rparr> l trusted))))))))"

definition parse_ops :: "string \<Rightarrow> annot_limits \<Rightarrow> annot_error + annot_ops" where
  "parse_ops s l = parse_ops_with s l False"

definition parse_committed :: "string \<Rightarrow> annot_limits \<Rightarrow> annot_error + annot_ops" where
  "parse_committed s l = parse_ops_with s l True"

end
