(* ===== verification/Annot_Apply.thy ===== *)
theory Annot_Apply
  imports Annot_Ops
begin

text \<open>
  Changing a sidecar: \<open>Apply\<close> (\<^verbatim>\<open>internal/core/annot/apply.go\<close>), \<open>Diff\<close> and
  \<open>ReplaceOps\<close> (\<^verbatim>\<open>diff.go\<close>), and the durable form with its pruning
  (\<^verbatim>\<open>state.go\<close>).
\<close>

section \<open>Encoding the state\<close>

definition encode_order :: "element_key \<times> element \<Rightarrow> string" where
  "encode_order x =
    append_member (append_member (append_member ''{'' ''key'' (encode_element_key (fst x)))
      ''version'' (string_of_int (ok_version (el_order (snd x))))) ''ordinal'' (string_of_int (ok_ordinal (el_order (snd x)))) @ ''}''"

definition encode_tombstone :: "element_key \<times> int \<Rightarrow> string" where
  "encode_tombstone x =
    append_member (append_member ''{'' ''key'' (encode_element_key (fst x))) ''version'' (string_of_int (snd x)) @ ''}''"

text \<open>The members of a map in key order.\<close>

definition by_element_key :: "(element_key \<times> 'a) list \<Rightarrow> (element_key \<times> 'a) list" where
  "by_element_key m = map (\<lambda>k. (k, the (map_of m k))) (sort_func compare_element (map fst m))"

definition encode_state :: "sidecar \<Rightarrow> annot_error + string" where
  "encode_state sc0 =
    (let sc = configured sc0 in
     rbind (annot_marshal sc) (\<lambda>content.
     case parse_json content of None \<Rightarrow> Inl AErrInvalidState
     | Some v \<Rightarrow>
       let out = append_member (append_member (append_member (append_member (append_member ''{''
             ''v'' ''1'') ''version'' (string_of_int (sc_version sc))) ''content'' (raw_compact v))
             ''order'' (raw_array (map encode_order (by_element_key (sc_elements sc)))))
             ''tombstones'' (raw_array (map encode_tombstone (by_element_key (sc_tombstones sc)))) @ ''}''
       in if int (length out) > al_max_state_bytes (sc_limits sc) then Inl AErrLimit else Inr out))"

section \<open>Applying operations\<close>

record apply_result =
  ar_sidecar :: sidecar
  ar_effective :: annot_ops
  ar_dropped :: "element_key list"

text \<open>The loop over the element operations: elements, tombstones, effective and dropped so far.\<close>

fun apply_elements :: "bool \<Rightarrow> int \<Rightarrow> element_op list \<Rightarrow> (element_key \<times> element) list \<Rightarrow> (element_key \<times> int) list
    \<Rightarrow> element_op list \<Rightarrow> element_key list
    \<Rightarrow> (element_key \<times> element) list \<times> (element_key \<times> int) list \<times> element_op list \<times> element_key list" where
  "apply_elements replace at [] els tombs eff dropped = (els, tombs, eff, dropped)"
| "apply_elements replace at (e # es) els tombs eff dropped =
    (case eo_op e of
       OpPut \<Rightarrow>
         if map_of tombs (eo_key e) \<noteq> None \<and> \<not> replace
         then apply_elements replace at es els tombs eff (dropped @ [eo_key e])
         else let order = (case map_of els (eo_key e) of Some old \<Rightarrow> el_order old
                | None \<Rightarrow> \<lparr>ok_version = at, ok_ordinal = int (length eff)\<rparr>) in
           apply_elements replace at es (AList.update (eo_key e) \<lparr>el_value = eo_value e, el_order = order\<rparr> els)
             (AList.delete (eo_key e) tombs) (eff @ [e]) dropped
     | OpDel \<Rightarrow> apply_elements replace at es (AList.delete (eo_key e) els) (AList.update (eo_key e) at tombs) (eff @ [e]) dropped
     | OpOther _ \<Rightarrow> apply_elements replace at es els tombs (eff @ [e]) dropped)"

definition apply_entry :: "entry_op \<Rightarrow> (entry_key \<times> string) list \<Rightarrow> (entry_key \<times> string) list" where
  "apply_entry e ents = (case no_op e of OpPut \<Rightarrow> AList.update (no_key e) (no_value e) ents
     | OpDel \<Rightarrow> AList.delete (no_key e) ents | OpOther _ \<Rightarrow> ents)"

definition apply_meta :: "annot_ops \<Rightarrow> (string \<times> string) list \<Rightarrow> (string \<times> string) list" where
  "apply_meta o1 m = fold AList.delete (ao_meta_del o1)
     (fold (\<lambda>(k, v). AList.update k v) (sorted_members (ao_meta_put o1)) m)"

text \<open>Where the loops start: at the head's maps, or at empty ones with a tombstone for every element.\<close>

definition apply_start :: "bool \<Rightarrow> int \<Rightarrow> sidecar \<Rightarrow> sidecar" where
  "apply_start replace at head =
    (if replace then head\<lparr>sc_version := at, sc_elements := [], sc_entries := [], sc_meta := [],
       sc_tombstones := fold (\<lambda>k. AList.update k at) (ordered_elements head) (sc_tombstones head)\<rparr>
     else head\<lparr>sc_version := at\<rparr>)"

definition apply_checked :: "int \<Rightarrow> annot_ops \<Rightarrow> sidecar \<Rightarrow> sidecar \<times> annot_ops \<times> element_key list" where
  "apply_checked at c head =
    (let s = apply_start (ao_replace c) at head in
     case apply_elements (ao_replace c) at (ao_elements c) (sc_elements s) (sc_tombstones s) [] [] of
       (els, tombs, eff, dropped) \<Rightarrow>
         (s\<lparr>sc_elements := els, sc_tombstones := tombs, sc_entries := fold apply_entry (ao_entries c) (sc_entries s),
            sc_meta := apply_meta c (sc_meta s)\<rparr>, c\<lparr>ao_elements := eff\<rparr>, dropped))"

definition annot_apply :: "sidecar \<Rightarrow> annot_ops \<Rightarrow> int \<Rightarrow> annot_error + apply_result" where
  "annot_apply head0 ops at =
    (let head = configured head0 in
     if at \<le> sc_version head then Inl AErrInvalidState
     else if \<not> ao_replace ops \<and> requires_whole_document head then Inl AErrWholeDocument
     else rbind (checked_ops ops (sc_limits head) (ao_replace ops)) (\<lambda>c.
       case apply_checked at c head of (next_sc, eff, dropped) \<Rightarrow>
       if int (length (sc_elements next_sc)) + int (length (sc_entries next_sc)) > al_max_elements (sc_limits next_sc)
         \<or> int (length (sc_tombstones next_sc)) > al_max_tombstones (sc_limits next_sc) then Inl AErrLimit
       else rbind (annot_marshal next_sc) (\<lambda>raw.
         rbind (strict_json (sc_limits next_sc) raw (al_max_bytes (sc_limits next_sc))) (\<lambda>_.
         rbind (encode_state next_sc) (\<lambda>_.
           Inr \<lparr>ar_sidecar = next_sc, ar_effective = eff, ar_dropped = dropped\<rparr>)))))"

section \<open>Differences\<close>

definition masked_meta :: "string \<Rightarrow> string \<Rightarrow> string" where
  "masked_meta key raw =
    (if key \<noteq> ''sourcePdf'' then raw
     else case object_of raw of Inl _ \<Rightarrow> raw
     | Inr obj \<Rightarrow>
       let obj1 = AList.delete ''mtime'' (AList.delete ''ctime'' obj) in
       fold (append_key obj1) (sort (map fst obj1)) ''{'' @ ''}'')"

definition diff_element_puts :: "sidecar \<Rightarrow> sidecar \<Rightarrow> bool \<Rightarrow> element_op list" where
  "diff_element_puts base cur replace =
    List.map_filter (\<lambda>k.
      case map_of (sc_elements cur) k of None \<Rightarrow> None
      | Some e \<Rightarrow>
        if replace \<or> (case map_of (sc_elements base) k of None \<Rightarrow> True | Some old \<Rightarrow> el_value old \<noteq> el_value e)
        then Some \<lparr>eo_op = OpPut, eo_key = k, eo_value = el_value e\<rparr> else None) (ordered_elements cur)"

definition diff_element_dels :: "sidecar \<Rightarrow> sidecar \<Rightarrow> element_op list" where
  "diff_element_dels base cur =
    map (\<lambda>k. \<lparr>eo_op = OpDel, eo_key = k, eo_value = []\<rparr>)
      (sort_func compare_element (filter (\<lambda>k. map_of (sc_elements cur) k = None) (map fst (sc_elements base))))"

definition diff_entries :: "sidecar \<Rightarrow> sidecar \<Rightarrow> bool \<Rightarrow> entry_op list" where
  "diff_entries base cur replace =
    List.map_filter (\<lambda>k.
      case map_of (sc_entries cur) k of
        None \<Rightarrow> Some \<lparr>no_op = OpDel, no_key = k, no_value = []\<rparr>
      | Some v \<Rightarrow> if replace \<or> map_of (sc_entries base) k \<noteq> Some v
          then Some \<lparr>no_op = OpPut, no_key = k, no_value = v\<rparr> else None)
      (sorted_entries (fold (\<lambda>(k, v). AList.update k v) (sc_entries cur) (sc_entries base)))"

definition masked_key :: "bool \<Rightarrow> string \<Rightarrow> bool" where
  "masked_key replace key \<longleftrightarrow> \<not> replace \<and> (key = ''updatedAt'' \<or> structural key)"

definition diff_meta_puts :: "sidecar \<Rightarrow> sidecar \<Rightarrow> bool \<Rightarrow> (string \<times> string) list" where
  "diff_meta_puts base cur replace =
    List.map_filter (\<lambda>key.
      case map_of (sc_meta cur) key of None \<Rightarrow> None
      | Some v \<Rightarrow>
        if masked_key replace key then None
        else if replace \<or> (case map_of (sc_meta base) key of None \<Rightarrow> True
               | Some old \<Rightarrow> masked_meta key old \<noteq> masked_meta key v)
        then Some (key, v) else None) (sort (map fst (sc_meta cur)))"

definition diff_meta_dels :: "sidecar \<Rightarrow> sidecar \<Rightarrow> bool \<Rightarrow> string list" where
  "diff_meta_dels base cur replace =
    filter (\<lambda>key. \<not> masked_key replace key \<and> map_of (sc_meta cur) key = None) (sort (map fst (sc_meta base)))"

definition annot_difference :: "sidecar \<Rightarrow> sidecar \<Rightarrow> bool \<Rightarrow> annot_ops" where
  "annot_difference base cur replace =
    \<lparr>ao_elements = diff_element_puts base cur replace @ diff_element_dels base cur,
     ao_entries = diff_entries base cur replace,
     ao_meta_put = diff_meta_puts base cur replace,
     ao_meta_del = diff_meta_dels base cur replace,
     ao_replace = replace\<rparr>"

definition annot_diff :: "sidecar \<Rightarrow> sidecar \<Rightarrow> annot_error + annot_ops" where
  "annot_diff base0 cur0 =
    (let base = configured base0; cur = configured cur0 in
     if requires_whole_document base \<or> requires_whole_document cur then Inl AErrWholeDocument
     else checked_ops (annot_difference base cur False) (sc_limits base) False)"

definition replace_ops :: "sidecar \<Rightarrow> sidecar \<Rightarrow> annot_ops" where
  "replace_ops head doc1 = annot_difference (configured head) (configured doc1) True"

section \<open>Reading the state\<close>

definition check_state_key :: "string \<Rightarrow> annot_limits \<Rightarrow> annot_error + element_key" where
  "check_state_key raw l =
    (case object_of raw of Inl _ \<Rightarrow> Inl AErrInvalidState
     | Inr obj \<Rightarrow>
       if length obj \<noteq> 2 then Inl AErrInvalidState
       else rbind (only_fields obj [''kind'', ''id'']) (\<lambda>_.
         case decode_element_key obj of None \<Rightarrow> Inl AErrInvalidState
         | Some k \<Rightarrow> rbind (valid_element_key k l) (\<lambda>_. Inr k)))"

definition field_text :: "(string \<times> string) list \<Rightarrow> string \<Rightarrow> string" where
  "field_text obj k = (case map_of obj k of Some v \<Rightarrow> v | None \<Rightarrow> [])"

text \<open>The fields of an item of the order table or the tombstones, the key among them checked.\<close>

definition state_fields :: "string \<Rightarrow> string list \<Rightarrow> annot_limits \<Rightarrow> annot_error + (string \<times> string) list \<times> element_key" where
  "state_fields raw names l =
    (case object_of raw of Inl _ \<Rightarrow> Inl AErrInvalidState
     | Inr obj \<Rightarrow>
       if length obj \<noteq> length names then Inl AErrInvalidState
       else rbind (only_fields obj names) (\<lambda>_.
         rbind (check_state_key (field_text obj ''key'') l) (\<lambda>k. Inr (obj, k))))"

fun decode_orders :: "annot_limits \<Rightarrow> int \<Rightarrow> string list \<Rightarrow> element_key option \<Rightarrow> order_key list
    \<Rightarrow> (element_key \<times> element) list \<Rightarrow> annot_error + (element_key \<times> element) list" where
  "decode_orders l version [] prev seen els = Inr els"
| "decode_orders l version (raw # raws) prev seen els =
    rbind (state_fields raw [''key'', ''version'', ''ordinal''] l) (\<lambda>(obj, key).
    case (int_field obj ''version'', int_field obj ''ordinal'') of
      (Some v, Some n) \<Rightarrow>
        if (case prev of Some p \<Rightarrow> compare_element p key \<ge> 0 | None \<Rightarrow> False) then Inl AErrInvalidState
        else (case map_of els key of None \<Rightarrow> Inl AErrInvalidState
          | Some e \<Rightarrow>
            if v < 0 \<or> v > version \<or> n < 0 \<or> n \<ge> max (al_max_ops l) (al_max_elements l) then Inl AErrInvalidState
            else let order = \<lparr>ok_version = v, ok_ordinal = n\<rparr> in
              if order \<in> set seen then Inl AErrInvalidState
              else decode_orders l version raws (Some key) (order # seen) (AList.update key (e\<lparr>el_order := order\<rparr>) els))
    | _ \<Rightarrow> Inl AErrInvalidState)"

fun decode_tombstones :: "annot_limits \<Rightarrow> int \<Rightarrow> (element_key \<times> element) list \<Rightarrow> string list \<Rightarrow> element_key option
    \<Rightarrow> (element_key \<times> int) list \<Rightarrow> annot_error + (element_key \<times> int) list" where
  "decode_tombstones l version els [] prev tombs = Inr tombs"
| "decode_tombstones l version els (raw # raws) prev tombs =
    rbind (state_fields raw [''key'', ''version''] l) (\<lambda>(obj, key).
    case int_field obj ''version'' of None \<Rightarrow> Inl AErrInvalidState
    | Some v \<Rightarrow>
      if (case prev of Some p \<Rightarrow> compare_element p key \<ge> 0 | None \<Rightarrow> False) then Inl AErrInvalidState
      else if v \<le> 0 \<or> v > version then Inl AErrInvalidState
      else if map_of els key \<noteq> None then Inl AErrInvalidState
      else decode_tombstones l version els raws (Some key) (AList.update key v tombs))"

definition decode_state_with :: "(string \<Rightarrow> string) \<Rightarrow> string \<Rightarrow> annot_limits \<Rightarrow> annot_error + sidecar" where
  "decode_state_with H b l0 =
    rbind (annot_normalized l0) (\<lambda>l.
    rbind (strict_json (l\<lparr>al_max_depth := al_max_depth l + 2, al_max_nodes := al_max_state_bytes l\<rparr>) b (al_max_state_bytes l)) (\<lambda>compact.
    rbind (object_of compact) (\<lambda>root.
    if length root \<noteq> 5 then Inl AErrInvalidState
    else rbind (only_fields root [''v'', ''version'', ''content'', ''order'', ''tombstones'']) (\<lambda>_.
    if field_text root ''v'' \<noteq> ''1'' then Inl AErrInvalidState
    else case parse_int64 (field_text root ''version'') of None \<Rightarrow> Inl AErrInvalidState
    | Some version \<Rightarrow>
      if version < 0 then Inl AErrInvalidState
      else rbind (annot_parse (field_text root ''content'') l) (\<lambda>original.
      case array_of (field_text root ''order'') of Inl _ \<Rightarrow> Inl AErrInvalidState
      | Inr orders \<Rightarrow>
        if length orders \<noteq> length (sc_elements original) then Inl AErrInvalidState
        else rbind (decode_orders l version orders None [] (sc_elements original)) (\<lambda>els.
        rbind (array_of (field_text root ''tombstones'')) (\<lambda>tombs_raw.
        if int (length tombs_raw) > al_max_tombstones l then Inl AErrLimit
        else rbind (decode_tombstones l version els tombs_raw None []) (\<lambda>tombs.
        let sc = original\<lparr>sc_version := version, sc_elements := els, sc_tombstones := tombs\<rparr> in
        if canonical_hash H original \<noteq> canonical_hash H sc then Inl AErrInvalidState
        else rbind (encode_state sc) (\<lambda>_. Inr sc))))))))) "

text \<open>\<open>DecodeState\<close> wraps the error into \<open>ErrInvalidState\<close>; both stay visible.\<close>

definition decode_state :: "(string \<Rightarrow> string) \<Rightarrow> string \<Rightarrow> annot_limits \<Rightarrow> (annot_error \<times> annot_error) + sidecar" where
  "decode_state H b l = (case decode_state_with H b l of Inl e \<Rightarrow> Inl (AErrInvalidState, e) | Inr sc \<Rightarrow> Inr sc)"

definition prune_tombstones :: "sidecar \<Rightarrow> int \<Rightarrow> sidecar" where
  "prune_tombstones sc0 before =
    (let sc = configured sc0 in sc\<lparr>sc_tombstones := filter (\<lambda>(_, v). \<not> v < before) (sc_tombstones sc)\<rparr>)"

end
