(* ===== verification/Annot_Indent.thy ===== *)
theory Annot_Indent
  imports Annot_Model
begin

text \<open>
  \<open>indentFits\<close> of \<^verbatim>\<open>internal/core/annot/model.go\<close> counts what \<^verbatim>\<open>json.Indent\<close> would
  add, byte by byte, before anything is allocated. Here it is proved exact: on the compact
  text of a JSON value it answers whether the indented text fits.
\<close>

section \<open>What indenting adds\<close>

text \<open>The bytes added to a value that stands at the given depth.\<close>

fun added :: "int \<Rightarrow> raw \<Rightarrow> int" where
  "added d (RArr vs) = (if vs = [] then 0
     else (1 + 2 * (d + 1)) * int (length vs) + sum_list (map (added (d + 1)) vs) + (1 + 2 * d))"
| "added d (RObj ms) = (if ms = [] then 0
     else (1 + 2 * (d + 1)) * int (length ms) + sum_list (map (\<lambda>(k, v). 1 + added (d + 1) v) ms) + (1 + 2 * d))"
| "added d v = 0"

definition indent_at :: "nat \<Rightarrow> string" where
  "indent_at d = line_break @ replicate (2 * d) (CHR '' '')"

lemma indent_at_Suc: "indent_at d @ ''  '' = indent_at (Suc d)"
proof -
  have "replicate n c @ [c, c] = replicate (n + 2) c" for n and c :: char
    by (induction n) simp_all
  then show ?thesis by (simp add: indent_at_def)
qed

lemma length_join: "xs \<noteq> [] \<Longrightarrow> length (join_with sep xs) + length sep = sum_list (map length xs) + length sep * length xs"
proof (induction xs)
  case (Cons x xs)
  then show ?case by (cases "xs = []") (simp_all add: join_with_cons)
qed simp

lemma length_join_int:
  "xs \<noteq> [] \<Longrightarrow> int (length (join_with sep xs)) = sum_list (map (\<lambda>x. int (length x)) xs) + int (length sep) * (int (length xs) - 1)"
proof (induction xs)
  case (Cons x xs)
  then show ?case by (cases "xs = []") (simp_all add: join_with_cons algebra_simps)
qed simp

lemma sum_list_add: "sum_list (map (\<lambda>x. f x + g x) xs) = sum_list (map f xs) + sum_list (map g xs)"
  for f :: "'a \<Rightarrow> int"
  by (induction xs) simp_all

lemma sum_list_cong_map: "(\<And>x. x \<in> set xs \<Longrightarrow> f x = g x) \<Longrightarrow> sum_list (map f xs) = sum_list (map g xs)"
  by (metis map_cong)

lemma indent_length: "int (length (raw_indent (indent_at d) v)) = int (length (raw_compact v)) + added (int d) v"
proof (induction v arbitrary: d)
  case (RArr vs)
  have e: "int (length (raw_indent (indent_at (Suc d)) v)) = int (length (raw_compact v)) + added (int d + 1) v" if "v \<in> set vs" for v
    using RArr [OF that, of "Suc d"] by (simp add: add.commute)
  have l: "int (length (indent_at k)) = 1 + 2 * int k" for k by (simp add: indent_at_def line_break_def)
  have s: "sum_list (map (\<lambda>v. int (length (raw_indent (indent_at (Suc d)) v))) vs)
      = sum_list (map (\<lambda>v. int (length (raw_compact v))) vs) + sum_list (map (added (int d + 1)) vs)"
    unfolding sum_list_add [symmetric] by (rule sum_list_cong_map) (rule e)
  show ?case
  proof (cases "vs = []")
    case False
    then show ?thesis
      using s by (simp add: indent_at_Suc append_assoc [symmetric] length_join_int l o_def algebra_simps del: append_assoc)
  qed simp
next
  case (RObj ms)
  have e: "int (length (raw_indent (indent_at (Suc d)) v)) = int (length (raw_compact v)) + added (int d + 1) v" if "(k, v) \<in> set ms" for k v
    using RObj [OF that, of v "Suc d"] by (simp add: add.commute)
  have l: "int (length (indent_at k)) = 1 + 2 * int k" for k by (simp add: indent_at_def line_break_def)
  let ?a = "\<lambda>(k, v). quote_char # k @ quote_char # '': '' @ raw_indent (indent_at (Suc d)) v"
  let ?b = "\<lambda>(k, v). quote_char # k @ quote_char # '':'' @ raw_compact v"
  have s: "sum_list (map (\<lambda>m. int (length (?a m))) ms)
      = sum_list (map (\<lambda>m. int (length (?b m))) ms) + sum_list (map (\<lambda>(k, v). 1 + added (int d + 1) v) ms)"
    unfolding sum_list_add [symmetric] by (rule sum_list_cong_map) (use e in auto)
  show ?case
  proof (cases "ms = []")
    case False
    have i: "int (length (join_with ('','' @ indent_at (Suc d)) (map ?a ms)))
        = sum_list (map (\<lambda>m. int (length (?a m))) ms) + (1 + int (length (indent_at (Suc d)))) * (int (length ms) - 1)"
      using False by (subst length_join_int) (simp_all add: o_def)
    have j: "int (length (join_with '','' (map ?b ms))) = sum_list (map (\<lambda>m. int (length (?b m))) ms) + (int (length ms) - 1)"
      using False by (subst length_join_int) (simp_all add: o_def)
    define A B where "A = join_with ('','' @ indent_at (Suc d)) (map ?a ms)" and "B = join_with '','' (map ?b ms)"
    have "raw_indent (indent_at d) (RObj ms) = ''{'' @ indent_at (Suc d) @ A @ indent_at d @ ''}''"
      unfolding A_def using False by (simp add: indent_at_Suc append_assoc [symmetric] del: append_assoc)
    then have x: "int (length (raw_indent (indent_at d) (RObj ms))) = 2 + int (length (indent_at (Suc d))) + int (length A) + int (length (indent_at d))"
      by simp
    have y: "int (length (raw_compact (RObj ms))) = 2 + int (length B)" unfolding B_def by simp
    have z: "added (int d) (RObj ms) = (1 + 2 * (int d + 1)) * int (length ms) + sum_list (map (\<lambda>(k, v). 1 + added (int d + 1) v) ms) + (1 + 2 * int d)"
      using False by simp
    show ?thesis unfolding x y z i [folded A_def] j [folded B_def] s l by (simp add: algebra_simps)
  qed simp
qed simp_all

section \<open>What the loop counts\<close>

lemma added_nonneg: "0 \<le> d \<Longrightarrow> 0 \<le> added d v"
proof (induction v arbitrary: d)
  case (RArr vs)
  have "0 \<le> sum_list (map (added (d + 1)) vs)" by (rule sum_list_nonneg_int) (use RArr in simp)
  then show ?case using RArr.prems by simp
next
  case (RObj ms)
  have "0 \<le> sum_list (map (\<lambda>(k, v). 1 + added (d + 1) v) ms)"
    by (rule sum_list_nonneg_int) (use RObj.IH RObj.prems in fastforce)
  then show ?case using RObj.prems by simp
qed simp_all

text \<open>A stretch of text that adds \<open>x\<close> bytes: the loop goes on after it, or has answered no.\<close>

definition counts :: "int \<Rightarrow> int \<Rightarrow> string \<Rightarrow> int \<Rightarrow> bool" where
  "counts d d' t x \<longleftrightarrow> (\<forall>limit n p r. n \<le> limit \<longrightarrow>
     (\<exists>p'. p' \<noteq> CHR ''{'' \<and> p' \<noteq> CHR ''['' \<and>
       indent_loop limit n d False False p (t @ r) = (n + x \<le> limit \<and> indent_loop limit (n + x) d' False False p' r)))"

lemma countsI:
  "(\<And>limit n p r. n \<le> limit \<Longrightarrow> \<exists>p'. p' \<noteq> CHR ''{'' \<and> p' \<noteq> CHR ''['' \<and>
       indent_loop limit n d False False p (t @ r) = (n + x \<le> limit \<and> indent_loop limit (n + x) d' False False p' r)) \<Longrightarrow> counts d d' t x"
  by (simp add: counts_def)

lemma counts_append:
  assumes "counts d d' t x" "counts d' d'' u y" "0 \<le> y"
  shows "counts d d'' (t @ u) (x + y)"
proof (rule countsI)
  fix limit n :: int and p :: char and r
  assume n: "n \<le> limit"
  obtain p1 where p1: "indent_loop limit n d False False p (t @ u @ r) = (n + x \<le> limit \<and> indent_loop limit (n + x) d' False False p1 (u @ r))"
    using assms(1) n unfolding counts_def by metis
  show "\<exists>p'. p' \<noteq> CHR ''{'' \<and> p' \<noteq> CHR ''['' \<and> indent_loop limit n d False False p ((t @ u) @ r)
      = (n + (x + y) \<le> limit \<and> indent_loop limit (n + (x + y)) d'' False False p' r)"
  proof (cases "n + x \<le> limit")
    case True
    then obtain p2 where "p2 \<noteq> CHR ''{''" "p2 \<noteq> CHR ''[''"
      "indent_loop limit (n + x) d' False False p1 (u @ r) = (n + x + y \<le> limit \<and> indent_loop limit (n + x + y) d'' False False p2 r)"
      using assms(2) unfolding counts_def by metis
    then show ?thesis using p1 True by (intro exI [of _ p2]) (simp add: add.assoc)
  next
    case False
    then show ?thesis using p1 assms(3) by (intro exI [of _ "CHR '',''"]) simp
  qed
qed

lemma counts_comma: "0 \<le> d \<Longrightarrow> counts d d '','' (1 + 2 * d)"
  by (rule countsI) (rule exI [of _ "CHR '',''"], auto simp: Let_def)

lemma counts_colon: "counts d d '':'' 1"
  by (rule countsI) (rule exI [of _ "CHR '':''"], auto)

definition indent_plain :: "char \<Rightarrow> bool" where
  "indent_plain c \<longleftrightarrow> c \<notin> {quote_char, CHR ''{'', CHR ''['', CHR ''}'', CHR '']'', CHR '','', CHR '':''}"

lemma loop_plain:
  "n \<le> limit \<Longrightarrow> \<forall>c \<in> set w. indent_plain c \<Longrightarrow>
     indent_loop limit n d False False p (w @ r) = indent_loop limit n d False False (if w = [] then p else last w) r"
  by (induction w arbitrary: p) (auto simp: indent_plain_def)

lemma counts_plain: "w \<noteq> [] \<Longrightarrow> \<forall>c \<in> set w. indent_plain c \<Longrightarrow> counts d d w 0"
proof (rule countsI)
  fix limit n :: int and p :: char and r
  assume w: "w \<noteq> []" "\<forall>c \<in> set w. indent_plain c" and n: "n \<le> limit"
  have "indent_plain (last w)" using w by simp
  then show "\<exists>p'. p' \<noteq> CHR ''{'' \<and> p' \<noteq> CHR ''['' \<and> indent_loop limit n d False False p (w @ r)
      = (n + 0 \<le> limit \<and> indent_loop limit (n + 0) d False False p' r)"
    using loop_plain [OF n w(2)] w(1) n by (intro exI [of _ "last w"]) (simp add: indent_plain_def)
qed

lemma hex_not_special: "is_hex c \<Longrightarrow> c \<noteq> quote_char \<and> c \<noteq> CHR 0x5C"
  by (auto simp: is_hex_def is_digit_def)

lemma loop_literal:
  "json_chars b \<Longrightarrow> indent_loop limit n d True False p (b @ quote_char # r) = indent_loop limit n d False False quote_char r"
proof (induction arbitrary: p rule: json_chars.induct)
  case (unicode h1 h2 h3 h4 s)
  then show ?case using hex_not_special [of h1] hex_not_special [of h2] hex_not_special [of h3] hex_not_special [of h4] by simp
qed simp_all

lemma counts_literal: "json_chars b \<Longrightarrow> counts d d (quote_char # b @ [quote_char]) 0"
  by (rule countsI) (rule exI [of _ quote_char], auto simp: loop_literal)

lemma counts_bracket:
  assumes "counts (d + 1) (d + 1) t x" "0 \<le> d" "0 \<le> x" "c = CHR ''{'' \<or> c = CHR ''[''" "e = CHR ''}'' \<or> e = CHR '']''"
    and "t = a # u" "a \<noteq> CHR ''}''" "a \<noteq> CHR '']''"
  shows "counts d d (c # t @ [e]) ((1 + 2 * (d + 1)) + x + (1 + 2 * d))"
proof (rule countsI)
  fix limit n :: int and p :: char and r
  assume n: "n \<le> limit"
  let ?o = "1 + 2 * (d + 1)" and ?c = "1 + 2 * d"
  have op: "indent_loop limit n d False False p (c # t @ e # r) = (n + ?o \<le> limit \<and> indent_loop limit (n + ?o) (d + 1) False False c (t @ e # r))"
    using assms(4,6-8) by (auto simp: Let_def)
  have cl: "indent_loop limit m (d + 1) False False q (e # r) = (m + ?c \<le> limit \<and> indent_loop limit (m + ?c) d False False e r)"
    if "q \<noteq> CHR ''{''" "q \<noteq> CHR ''[''" for m q
    using assms(5) that by (auto simp: Let_def)
  show "\<exists>p'. p' \<noteq> CHR ''{'' \<and> p' \<noteq> CHR ''['' \<and> indent_loop limit n d False False p ((c # t @ [e]) @ r)
      = (n + (?o + x + ?c) \<le> limit \<and> indent_loop limit (n + (?o + x + ?c)) d False False p' r)"
  proof (cases "n + ?o \<le> limit")
    case True
    then obtain q where q: "q \<noteq> CHR ''{''" "q \<noteq> CHR ''[''"
      "indent_loop limit (n + ?o) (d + 1) False False c (t @ e # r) = (n + ?o + x \<le> limit \<and> indent_loop limit (n + ?o + x) (d + 1) False False q (e # r))"
      using assms(1) unfolding counts_def by metis
    have "(n + ?o + x \<le> limit \<and> n + ?o + x + ?c \<le> limit \<and> P) = (n + ?o + x + ?c \<le> limit \<and> P)" for P using assms(2) by auto
    then show ?thesis using op True q(3) cl [OF q(1,2), of "n + ?o + x"] assms(5)
      by (intro exI [of _ e]) (auto simp: add.assoc)
  next
    case False
    then show ?thesis using op assms(2,3) by (intro exI [of _ "CHR '',''"]) auto
  qed
qed

lemma counts_empty: "counts d d ''[]'' 0" "counts d d ''{}'' 0"
  by (rule countsI, rule exI [of _ "CHR '']''"], simp add: Let_def)
    (rule countsI, rule exI [of _ "CHR ''}''"], simp add: Let_def)

lemma counts_join:
  assumes "xs \<noteq> []" "0 \<le> d" "\<And>x. x \<in> set xs \<Longrightarrow> counts d d (f x) (g x)" "\<And>x. x \<in> set xs \<Longrightarrow> 0 \<le> g x"
  shows "counts d d (join_with '','' (map f xs)) (sum_list (map g xs) + (1 + 2 * d) * (int (length xs) - 1))"
  using assms
proof (induction xs)
  case (Cons x xs)
  show ?case
  proof (cases "xs = []")
    case True
    then show ?thesis using Cons.prems(3) [of x] by simp
  next
    case False
    let ?y = "sum_list (map g xs) + (1 + 2 * d) * (int (length xs) - 1)"
    have "0 \<le> sum_list (map g xs)" by (rule sum_list_nonneg_int) (use Cons.prems in simp)
    moreover have "0 \<le> (1 + 2 * d) * (int (length xs) - 1)" using False Cons.prems(2) by (cases xs) simp_all
    ultimately have y: "0 \<le> ?y" by simp
    have IH: "counts d d (join_with '','' (map f xs)) ?y" using Cons False by simp
    have "counts d d ('','' @ join_with '','' (map f xs)) (1 + 2 * d + ?y)"
      by (rule counts_append [OF counts_comma IH y]) (use Cons.prems in simp)
    from counts_append [OF Cons.prems(3) [of x] this]
    have "counts d d (f x @ '','' @ join_with '','' (map f xs)) (g x + (1 + 2 * d + ?y))"
      using y Cons.prems(2) by simp
    then show ?thesis using False by (simp add: join_with_cons algebra_simps)
  qed
qed simp

lemma word_indent_plain: "json_word w \<Longrightarrow> w \<noteq> [] \<and> (\<forall>c \<in> set w. indent_plain c)"
proof -
  have "indent_plain c" if "is_digit c \<or> c \<in> set ''-+.eE''" for c
    using that by (auto simp: indent_plain_def is_digit_def)
  then have "\<forall>c \<in> set w. indent_plain c" if "json_number w" using number_chars [OF that] by blast
  moreover assume w: "json_word w"
  ultimately have "\<forall>c \<in> set w. indent_plain c" by (auto simp: json_word_def indent_plain_def)
  then show ?thesis using word_hd [OF w] by auto
qed

lemma counts_value: "raw_ok v \<Longrightarrow> 0 \<le> d \<Longrightarrow> counts d d (raw_compact v) (added d v)"
proof (induction v arbitrary: d)
  case (RWord w)
  have "json_word w" using RWord.prems(1) unfolding raw_ok_def by (cases rule: renders.cases) auto
  then show ?case using counts_plain word_indent_plain by simp
next
  case (RStr b)
  have "json_chars b" using RStr.prems(1) unfolding raw_ok_def by (cases rule: renders.cases) auto
  then show ?case using counts_literal by simp
next
  case (RArr vs)
  show ?case
  proof (cases "vs = []")
    case True
    then show ?thesis using counts_empty by simp
  next
    case False
    let ?x = "sum_list (map (added (d + 1)) vs) + (1 + 2 * (d + 1)) * (int (length vs) - 1)"
    have c: "counts (d + 1) (d + 1) (join_with '','' (map raw_compact vs)) ?x"
      by (rule counts_join) (use False RArr raw_ok_parts(1) [OF RArr.prems(1)] added_nonneg in auto)
    have x: "0 \<le> ?x" using sum_list_nonneg_int [of vs "added (d + 1)"] added_nonneg [of "d + 1"] RArr.prems(2) False by (cases vs) simp_all
    obtain v us where v: "vs = v # us" using False by (cases vs) auto
    obtain a u where a: "raw_compact v = a # u" "a \<noteq> CHR ''}''" "a \<noteq> CHR '']''"
      using raw_ok_parts(1) [OF RArr.prems(1), of v] v renders_hd unfolding raw_ok_def by fastforce
    have "join_with '','' (map raw_compact vs) = a # tl (join_with '','' (map raw_compact vs))" using a(1) v by (cases us) simp_all
    from counts_bracket [OF c RArr.prems(2) x _ _ this a(2,3), of "CHR ''[''" "CHR '']''"]
    show ?thesis using False by (simp add: algebra_simps)
  qed
next
  case (RObj ms)
  show ?case
  proof (cases "ms = []")
    case True
    then show ?thesis using counts_empty by simp
  next
    case False
    let ?f = "\<lambda>(k, v). quote_char # k @ quote_char # '':'' @ raw_compact v"
    let ?g = "\<lambda>(k, v). 1 + added (d + 1) v"
    let ?x = "sum_list (map ?g ms) + (1 + 2 * (d + 1)) * (int (length ms) - 1)"
    have mem: "counts (d + 1) (d + 1) (?f m) (?g m)" "0 \<le> ?g m" if "m \<in> set ms" for m
    proof -
      obtain k v where m: "m = (k, v)" by (cases m)
      have kv: "json_chars k" "raw_ok v" using raw_ok_parts(2) [OF RObj.prems(1), of k v] that m by simp_all
      have "counts (d + 1) (d + 1) (raw_compact v) (added (d + 1) v)" using RObj.IH [OF that, of v] m kv(2) RObj.prems(2) by simp
      from counts_append [OF counts_literal [OF kv(1)] counts_append [OF counts_colon this]]
      show "counts (d + 1) (d + 1) (?f m) (?g m)" "0 \<le> ?g m" using added_nonneg [of "d + 1" v] RObj.prems(2) m by simp_all
    qed
    have c: "counts (d + 1) (d + 1) (join_with '','' (map ?f ms)) ?x"
      by (rule counts_join) (use False mem RObj.prems(2) in auto)
    have x: "0 \<le> ?x" using sum_list_nonneg_int [of ms ?g] mem(2) RObj.prems(2) False by (cases ms) simp_all
    obtain k v us where v: "ms = (k, v) # us" using False by (cases ms) auto
    have "join_with '','' (map ?f ms) = quote_char # tl (join_with '','' (map ?f ms))" using v by (cases us) simp_all
    from counts_bracket [OF c RObj.prems(2) x _ _ this, of "CHR ''{''" "CHR ''}''"]
    show ?thesis using False by (simp add: algebra_simps)
  qed
qed

lemma indent_fits_length:
  assumes "raw_ok v"
  shows "indent_fits (raw_compact v) limit \<longleftrightarrow> int (length (raw_indent line_break v)) \<le> limit"
proof -
  have len: "int (length (raw_indent line_break v)) = int (length (raw_compact v)) + added 0 v"
    using indent_length [of 0 v] by (simp add: indent_at_def)
  show ?thesis
  proof (cases "int (length (raw_compact v)) \<le> limit")
    case True
    then show ?thesis using counts_value [OF assms, of 0] unfolding counts_def indent_fits_def len
      by (metis append_Nil2 indent_loop.simps(1) order_refl)
  next
    case False
    obtain c u where c: "raw_compact v = c # u" "c \<noteq> CHR '']''" "c \<noteq> CHR ''}''"
      using renders_hd assms unfolding raw_ok_def by blast
    have "\<not> indent_fits (raw_compact v) limit" unfolding indent_fits_def using False unfolding c(1) by (simp add: Let_def c(2,3))
    then show ?thesis using False added_nonneg [of 0 v] len by simp
  qed
qed

end
