(* ===== verification/Annot_Facts.thy ===== *)
theory Annot_Facts
  imports Annot_Apply Annot_Indent "HOL-Library.Multiset"
begin

text \<open>
  What the annotation proofs share: the laws of the maps as a locale, interpreted on the
  association lists of the model; sorting by a comparison as sorting by a rank; what
  checking an operation set keeps and requires; and when two sidecars have the same file.
\<close>

section \<open>Maps\<close>

locale finite_map =
  fixes get :: "'m \<Rightarrow> 'k \<Rightarrow> 'v option" and put :: "'k \<Rightarrow> 'v \<Rightarrow> 'm \<Rightarrow> 'm" and del :: "'k \<Rightarrow> 'm \<Rightarrow> 'm"
    and keys :: "'m \<Rightarrow> 'k list"
  assumes get_put: "get (put k v m) = (get m)(k \<mapsto> v)"
    and get_del: "get (del k m) = (get m)(k := None)"
    and keys_dom: "set (keys m) = dom (get m)"
    and keys_put: "distinct (keys m) \<Longrightarrow> distinct (keys (put k v m))"
    and keys_del: "distinct (keys m) \<Longrightarrow> distinct (keys (del k m))"
begin

lemma get_put_same: "get (put k v m) k' = (if k' = k then Some v else get m k')"
  by (simp add: get_put)

lemma get_del_same: "get (del k m) k' = (if k' = k then None else get m k')"
  by (simp add: get_del)

lemma get_fold_put_distinct: "distinct (map fst xs) \<Longrightarrow> get (fold (\<lambda>(k, v). put k v) xs m) = get m ++ map_of xs"
proof (induction xs arbitrary: m)
  case (Cons x xs)
  obtain k v where x: "x = (k, v)" by (cases x)
  have "map_of xs k = None" using Cons.prems x by (auto simp: map_of_eq_None_iff)
  then have "(get m)(k \<mapsto> v) ++ map_of xs = get m ++ map_of (x # xs)" using x by (auto simp: map_add_def fun_eq_iff split: option.split)
  moreover have "get (fold (\<lambda>(k, v). put k v) (x # xs) m) = get (put k v m) ++ map_of xs" using Cons x by simp
  ultimately show ?case by (simp only: get_put)
qed simp

lemma get_fold_del: "get (fold del ks m) = (\<lambda>k. if k \<in> set ks then None else get m k)"
  by (induction ks arbitrary: m) (auto simp: get_del fun_eq_iff)

lemma keys_fold_put: "distinct (keys m) \<Longrightarrow> distinct (keys (fold (\<lambda>(k, v). put k v) xs m))"
  by (induction xs arbitrary: m) (auto simp: keys_put)

lemma keys_fold_del: "distinct (keys m) \<Longrightarrow> distinct (keys (fold del ks m))"
  by (induction ks arbitrary: m) (auto simp: keys_del)

lemma keys_length:
  assumes "distinct (keys m)" "distinct (keys m')" "get m = get m'"
  shows "length (keys m) = length (keys m')"
  using assms keys_dom [of m] keys_dom [of m'] by (metis distinct_card)

end

interpretation am: finite_map map_of AList.update AList.delete "map fst"
proof
  show "map_of (AList.update k v m) = (map_of m)(k \<mapsto> v)" for k :: 'a and v :: 'b and m
    by (rule update_conv')
  show "map_of (AList.delete k m) = (map_of m)(k := None)" for k :: 'a and m :: "('a \<times> 'b) list"
    by (rule delete_conv')
  show "set (map fst m) = dom (map_of m)" for m :: "('a \<times> 'b) list"
    by (simp add: dom_map_of_conv_image_fst)
  show "distinct (map fst m) \<Longrightarrow> distinct (map fst (AList.update k v m))" for k :: 'a and v :: 'b and m
    by (rule distinct_update)
  show "distinct (map fst m) \<Longrightarrow> distinct (map fst (AList.delete k m))" for k :: 'a and m :: "('a \<times> 'b) list"
    by (rule distinct_delete)
qed

lemma sorted_members_map: "map_of (sorted_members m) = map_of m" "map fst (sorted_members m) = sort (map fst m)"
proof -
  show f: "map fst (sorted_members m) = sort (map fst m)" by (simp add: sorted_members_def o_def)
  show "map_of (sorted_members m) = map_of m"
  proof
    fix k
    have "k \<in> set (map fst m) \<longleftrightarrow> map_of m k \<noteq> None" by (simp add: map_of_eq_None_iff)
    moreover have "map_of (map (\<lambda>k. (k, g k)) ks) k = (if k \<in> set ks then Some (g k) else None)" for g :: "string \<Rightarrow> string" and ks
      by (induction ks) auto
    ultimately show "map_of (sorted_members m) k = map_of m k" by (auto simp: sorted_members_def)
  qed
qed

section \<open>Sorting\<close>

lemma insert_by_key: "(\<And>y. y \<in> set ys \<Longrightarrow> cmp x y \<le> 0 \<longleftrightarrow> f x \<le> f y) \<Longrightarrow> insert_by cmp x ys = insort_key f x ys"
  by (induction ys) auto

lemma sort_func_key: "(\<And>x y. x \<in> set xs \<Longrightarrow> y \<in> set xs \<Longrightarrow> cmp x y \<le> 0 \<longleftrightarrow> f x \<le> f y) \<Longrightarrow> sort_func cmp xs = sort_key f xs"
proof (induction xs)
  case (Cons x xs)
  have IH: "sort_func cmp xs = sort_key f xs" using Cons by simp
  have "insert_by cmp x (sort_key f xs) = insort_key f x (sort_key f xs)" by (rule insert_by_key) (use Cons.prems in simp)
  then show ?case using IH by (simp add: sort_func_def)
qed (simp add: sort_func_def)

lemma set_insert_by [simp]: "set (insert_by cmp x ys) = insert x (set ys)"
  by (induction ys) auto

lemma set_sort_func [simp]: "set (sort_func cmp xs) = set xs"
  by (induction xs) (simp_all add: sort_func_def)

lemma distinct_insert_by: "distinct (insert_by cmp x ys) \<longleftrightarrow> x \<notin> set ys \<and> distinct ys"
  by (induction ys) auto

lemma distinct_sort_func [simp]: "distinct (sort_func cmp xs) = distinct xs"
proof (induction xs)
  case (Cons x xs)
  have "set (foldr (insert_by cmp) xs []) = set xs" using set_sort_func [of cmp xs] by (simp add: sort_func_def)
  then show ?case using Cons by (simp add: sort_func_def distinct_insert_by)
qed (simp add: sort_func_def)

lemma length_sort_func [simp]: "length (sort_func cmp xs) = length xs"
proof -
  have "length (insert_by cmp x ys) = Suc (length ys)" for x ys by (induction ys) auto
  then show ?thesis by (induction xs) (simp_all add: sort_func_def)
qed

text \<open>Sorting distinct keys that the rank tells apart depends only on their set.\<close>

lemma sort_key_set_eq:
  assumes "distinct xs" "distinct ys" "set xs = set ys" "inj_on f (set xs)"
  shows "sort_key f xs = sort_key f ys"
proof (rule properties_for_sort_key)
  have m: "mset xs = mset ys" using assms by (simp add: set_eq_iff_mset_eq_distinct)
  then show "mset (sort_key f ys) = mset xs" by simp
  show "filter (\<lambda>x. f k = f x) (sort_key f ys) = filter (\<lambda>x. f k = f x) xs" if "k \<in> set (sort_key f ys)" for k
  proof -
    have "filter (\<lambda>x. f k = f x) zs = [k]" if z: "distinct zs" "set zs = set xs" for zs
    proof -
      have k: "k \<in> set zs" using \<open>k \<in> set (sort_key f ys)\<close> z(2) assms(3) by simp
      have "filter (\<lambda>x. f k = f x) zs = filter (\<lambda>x. x = k) zs"
        by (rule filter_cong) (use assms(4) k z(2) in \<open>auto simp: inj_on_def\<close>)
      moreover have "filter (\<lambda>x. x = k) zs = [k]" using z(1) k by (induction zs) (auto simp: filter_empty_conv)
      ultimately show ?thesis by simp
    qed
    then show ?thesis using assms by simp
  qed
  show "sorted (map f (sort_key f ys))" by simp
qed

lemma sort_key_id: "sorted (map f xs) \<Longrightarrow> sort_key f xs = xs"
  by (induction xs) (simp_all add: insort_is_Cons)

text \<open>The ranks behind the comparisons.\<close>

definition valid_kind :: "element_key \<Rightarrow> bool" where
  "valid_kind k \<longleftrightarrow> 0 \<le> kind_index (ek_kind k)"

definition key_rank :: "element_key \<Rightarrow> int \<times> string" where
  "key_rank k = (kind_index (ek_kind k), ek_id k)"

definition order_rank :: "(element_key \<times> element) list \<Rightarrow> element_key \<Rightarrow> int \<times> int \<times> int \<times> string" where
  "order_rank els k = (kind_index (ek_kind k), ok_version (order_of els k), ok_ordinal (order_of els k), ek_id k)"

definition entry_rank :: "entry_key \<Rightarrow> string \<times> int" where
  "entry_rank k = (nk_family k, nk_page k)"

lemma kind_index_cases: "0 \<le> kind_index k \<Longrightarrow> k \<in> set kinds"
  by (auto simp: kind_index_def kinds_def split: if_splits)

lemma kind_index_kinds [simp]:
  "kind_index ''strokes'' = 0" "kind_index ''eraserPaths'' = 1" "kind_index ''textItems'' = 2"
  "kind_index ''shapes'' = 3" "kind_index ''imageItems'' = 4"
  by (simp_all add: kind_index_def kinds_def)

lemma kind_index_inj: "0 \<le> kind_index a \<Longrightarrow> kind_index a = kind_index b \<Longrightarrow> a = b"
proof -
  assume a: "0 \<le> kind_index a" "kind_index a = kind_index b"
  then have "a \<in> set kinds" "b \<in> set kinds" using kind_index_cases by simp_all
  then show "a = b" using a(2) by (auto simp: kinds_def)
qed

lemma kind_index_less: "valid_kind a \<Longrightarrow> ek_kind a \<noteq> ek_kind b \<Longrightarrow> kind_index (ek_kind a) \<noteq> kind_index (ek_kind b)"
  using kind_index_inj [of "ek_kind a" "ek_kind b"] by (auto simp: valid_kind_def)

lemma compare_element_rank:
  assumes "valid_kind a" "valid_kind b"
  shows "compare_element a b \<le> 0 \<longleftrightarrow> key_rank a \<le> key_rank b" "compare_element a b \<ge> 0 \<longleftrightarrow> key_rank a \<ge> key_rank b"
    "key_rank a = key_rank b \<longleftrightarrow> a = b"
  using kind_index_less [OF assms(1), of b]
  by (cases "ek_kind a = ek_kind b"; auto simp: compare_element_def key_rank_def string_compare_def less_eq_prod_def)+

lemma compare_order_rank:
  assumes "valid_kind a" "valid_kind b"
  shows "compare_order els a b \<le> 0 \<longleftrightarrow> order_rank els a \<le> order_rank els b"
proof (cases "ek_kind a = ek_kind b")
  case True
  then show ?thesis
    by (auto simp: compare_order_def order_rank_def string_compare_def less_eq_prod_def compare_element_def Let_def)
next
  case False
  then show ?thesis using kind_index_less [OF assms(1), of b] by (auto simp: compare_order_def order_rank_def less_eq_prod_def)
qed

lemma order_rank_inj: "valid_kind a \<Longrightarrow> order_rank els a = order_rank els b \<Longrightarrow> a = b"
  using kind_index_inj [of "ek_kind a" "ek_kind b"] by (simp add: order_rank_def valid_kind_def)

lemma compare_entry_rank:
  "compare_entry a b \<le> 0 \<longleftrightarrow> entry_rank a \<le> entry_rank b" "compare_entry a b \<ge> 0 \<longleftrightarrow> entry_rank a \<ge> entry_rank b"
  by (auto simp: compare_entry_def entry_rank_def string_compare_def less_eq_prod_def)

lemma entry_rank_inj: "inj_on entry_rank A"
  by (auto simp: entry_rank_def inj_on_def)

lemma sorted_entries_key: "sorted_entries m = sort_key entry_rank (map fst m)"
  unfolding sorted_entries_def by (rule sort_func_key) (simp add: compare_entry_rank)

lemma sorted_entries_cong:
  assumes "distinct (map fst m)" "distinct (map fst m')" "map_of m = map_of m'"
  shows "sorted_entries m = sorted_entries m'"
  unfolding sorted_entries_key
  by (rule sort_key_set_eq) (use assms am.keys_dom [of m] am.keys_dom [of m'] entry_rank_inj in auto)

lemma ordered_elements_key:
  "\<forall>k \<in> fst ` set (sc_elements sc). valid_kind k \<Longrightarrow>
     ordered_elements sc = sort_key (order_rank (sc_elements sc)) (map fst (sc_elements sc))"
  unfolding ordered_elements_def by (rule sort_func_key) (rule compare_order_rank; auto)

end
