(* ===== verification/Annot_Check.thy ===== *)
theory Annot_Check
  imports Annot_Facts
begin

text \<open>
  What \<open>checkedOps\<close> (\<^verbatim>\<open>internal/core/annot/ops.go\<close>) establishes for the operations it
  returns, and that it accepts its own result, also after puts have been left out.
\<close>

section \<open>Checked operations\<close>

definition element_op_ok :: "annot_limits \<Rightarrow> element_op \<Rightarrow> bool" where
  "element_op_ok l e \<longleftrightarrow> valid_element_key (eo_key e) l = Inr () \<and>
     (case eo_op e of OpPut \<Rightarrow> strict_text l (eo_value e) \<and> get_id (eo_value e) l = Inr (ek_id (eo_key e))
      | OpDel \<Rightarrow> eo_value e = [] | OpOther _ \<Rightarrow> False)"

definition entry_op_ok :: "annot_limits \<Rightarrow> entry_op \<Rightarrow> bool" where
  "entry_op_ok l e \<longleftrightarrow> valid_entry (no_key e) (no_value e) (no_op e) = Inr () \<and>
     (case no_op e of OpPut \<Rightarrow> strict_text l (no_value e) | OpDel \<Rightarrow> no_value e = [] | OpOther _ \<Rightarrow> False)"

definition meta_ok :: "annot_limits \<Rightarrow> string \<Rightarrow> string \<Rightarrow> bool" where
  "meta_ok l key v \<longleftrightarrow> valid_string key \<and> \<not> reserved key \<and> strict_text l v \<and> (structural key \<longrightarrow> is_ok (array_of v))"

lemma check_element_ok:
  assumes "check_element l m d e = Inr (e1, d1)" "valid_element_key (eo_key e) l = Inr ()"
  shows "element_op_ok l e1 \<and> eo_key e1 = eo_key e \<and> eo_op e1 = eo_op e \<and> length (eo_value e1) \<le> length (eo_value e)
    \<and> check_element l m d e1 = Inr (e1, d1)"
proof (cases "eo_op e")
  case OpPut
  then obtain raw where raw: "d = None" "strict_json l (eo_value e) m = Inr raw" "get_id raw l = Inr (ek_id (eo_key e))"
    "e1 = e\<lparr>eo_value := raw\<rparr>" "d1 = d"
    using assms(1) by (auto simp: check_element_def sum_split split: if_splits)
  note s = strict_json_strict [OF raw(2)]
  have "strict_json l raw m = Inr raw" using strict_json_id s by auto
  then show ?thesis using raw s OpPut assms(2) by (simp add: element_op_ok_def check_element_def)
next
  case OpDel
  then show ?thesis using assms by (auto simp: check_element_def element_op_ok_def split: if_splits)
next
  case (OpOther n)
  then show ?thesis using assms(1) by (simp add: check_element_def)
qed

lemma check_elements_ok:
  "check_elements l m seen d b es = Inr (out, b1) \<Longrightarrow>
     map eo_key out = map eo_key es \<and> map eo_op out = map eo_op es \<and> (\<forall>e \<in> set out. element_op_ok l e)
     \<and> distinct (map eo_key es) \<and> set seen \<inter> eo_key ` set es = {}"
proof (induction l m seen d b es arbitrary: out b1 rule: check_elements.induct)
  case (2 l m seen d b e es)
  obtain b2 e1 d1 es1 where x: "valid_element_key (eo_key e) l = Inr ()" "eo_key e \<notin> set seen"
    "consume (length (ek_id (eo_key e)) + length (eo_value e)) b = Inr b2" "check_element l m d e = Inr (e1, d1)"
    "check_elements l m (eo_key e # seen) d1 b2 es = Inr (es1, b1)" "out = e1 # es1"
    using "2.prems" by (auto simp: sum_split split: if_splits)
  note IH = "2.IH" [OF x(2,5)]
  show ?case using IH check_element_ok [OF x(4,1)] x(2,6) by auto
qed simp

text \<open>What came out passes again, also without some of its puts.\<close>

lemma check_elements_again:
  assumes "check_elements l m seen d b es = Inr (out, b1)" "set seen2 \<subseteq> set seen" "b \<le> c"
    and "\<And>e. e \<in> set out \<Longrightarrow> eo_op e = OpDel \<Longrightarrow> P e"
  shows "\<exists>c1 \<ge> b1. check_elements l m seen2 d c (filter P out) = Inr (filter P out, c1)"
  using assms
proof (induction l m seen d b es arbitrary: out b1 seen2 c rule: check_elements.induct)
  case (2 l m seen d b e es)
  let ?k = "eo_key e"
  obtain b2 e1 d1 es1 where x: "valid_element_key ?k l = Inr ()" "?k \<notin> set seen"
    "consume (length (ek_id ?k) + length (eo_value e)) b = Inr b2" "check_element l m d e = Inr (e1, d1)"
    "check_elements l m (?k # seen) d1 b2 es = Inr (es1, b1)" "out = e1 # es1"
    using "2.prems"(1) by (auto simp: sum_split split: if_splits)
  note e1 = check_element_ok [OF x(4,1)]
  have b2: "b2 \<le> b" "int (length (ek_id ?k) + length (eo_value e)) \<le> b" "b2 = b - int (length (ek_id ?k) + length (eo_value e))"
    using x(3) by (auto simp: consume_def split: if_splits)
  show ?case
  proof (cases "P e1")
    case False
    then have "eo_op e1 \<noteq> OpDel" using "2.prems"(4) x(6) by auto
    then have "eo_op e = OpPut" using e1 by (cases "eo_op e1") (auto simp: element_op_ok_def)
    then have "d1 = d" using x(4) by (auto simp: check_element_def sum_split split: if_splits)
    moreover have "\<exists>c1 \<ge> b1. check_elements l m seen2 d1 c (filter P es1) = Inr (filter P es1, c1)"
      by (rule "2.IH" [OF x(2,5)]) (use "2.prems"(2,3,4) b2(1) x(6) in auto)
    ultimately show ?thesis using False x(6) by simp
  next
    case True
    define c2 where "c2 = c - int (length (ek_id ?k) + length (eo_value e1))"
    have c2: "consume (length (ek_id ?k) + length (eo_value e1)) c = Inr c2" "b2 \<le> c2"
      using b2 "2.prems"(3) e1 by (auto simp: consume_def c2_def)
    obtain c1 where c1: "c1 \<ge> b1" "check_elements l m (?k # seen2) d1 c2 (filter P es1) = Inr (filter P es1, c1)"
      using "2.IH" [OF x(2,5), of "?k # seen2" c2] "2.prems"(2,4) c2(2) x(6) by auto
    have "?k \<notin> set seen2" using x(2) "2.prems"(2) by blast
    then show ?thesis using True x(1,6) e1 c1 c2(1) by simp
  qed
qed simp

lemma check_entry_ok:
  assumes "check_entry l m e = Inr e1"
  shows "entry_op_ok l e1 \<and> no_key e1 = no_key e \<and> no_op e1 = no_op e \<and> length (no_value e1) \<le> length (no_value e)
    \<and> check_entry l m e1 = Inr e1"
proof (cases "no_op e")
  case OpPut
  then obtain raw where raw: "strict_json l (no_value e) m = Inr raw" "e1 = e\<lparr>no_value := raw\<rparr>"
    "valid_entry (no_key e1) (no_value e1) (no_op e1) = Inr ()"
    using assms by (auto simp: check_entry_def sum_split)
  note s = strict_json_strict [OF raw(1)]
  have "strict_json l raw m = Inr raw" using strict_json_id s by auto
  then show ?thesis using raw s OpPut by (simp add: entry_op_ok_def check_entry_def)
next
  case OpDel
  then show ?thesis using assms by (auto simp: check_entry_def entry_op_ok_def sum_split split: if_splits)
next
  case (OpOther n)
  then show ?thesis using assms by (simp add: check_entry_def)
qed

definition entries_sorted :: "entry_op list \<Rightarrow> bool" where
  "entries_sorted es \<longleftrightarrow> sorted_wrt (<) (map (entry_rank \<circ> no_key) es)"

lemma check_entries_ok:
  "check_entries l m prev b es = Inr (out, b1) \<Longrightarrow>
     map no_key out = map no_key es \<and> map no_op out = map no_op es \<and> (\<forall>e \<in> set out. entry_op_ok l e)
     \<and> entries_sorted es \<and> (case prev of None \<Rightarrow> True | Some p \<Rightarrow> \<forall>e \<in> set es. entry_rank p < entry_rank (no_key e))"
proof (induction l m prev b es arbitrary: out b1 rule: check_entries.induct)
  case (2 l m prev b e es)
  obtain b2 e1 es1 where x: "\<not> (case prev of Some p \<Rightarrow> compare_entry p (no_key e) \<ge> 0 | None \<Rightarrow> False)"
    "consume (length (no_value e)) b = Inr b2" "check_entry l m e = Inr e1"
    "check_entries l m (Some (no_key e)) b2 es = Inr (es1, b1)" "out = e1 # es1"
    using "2.prems" by (auto simp: sum_split split: if_splits)
  note IH = "2.IH" [OF x(1,4)] and e1 = check_entry_ok [OF x(3)]
  have "case prev of None \<Rightarrow> True | Some p \<Rightarrow> entry_rank p < entry_rank (no_key e)"
    using x(1) by (auto simp: compare_entry_rank split: option.splits)
  then have "case prev of None \<Rightarrow> True | Some p \<Rightarrow> \<forall>x \<in> set (e # es). entry_rank p < entry_rank (no_key x)"
    using IH by (auto split: option.splits dest: less_trans)
  then show ?case using IH e1 x(5) by (auto simp: entries_sorted_def)
qed (simp add: entries_sorted_def split: option.splits)

lemma check_entries_again:
  assumes "check_entries l m prev b es = Inr (out, b1)" "b \<le> c"
  shows "\<exists>c1 \<ge> b1. check_entries l m prev c out = Inr (out, c1)"
  using assms
proof (induction l m prev b es arbitrary: out b1 c rule: check_entries.induct)
  case (2 l m prev b e es)
  obtain b2 e1 es1 where x: "\<not> (case prev of Some p \<Rightarrow> compare_entry p (no_key e) \<ge> 0 | None \<Rightarrow> False)"
    "consume (length (no_value e)) b = Inr b2" "check_entry l m e = Inr e1"
    "check_entries l m (Some (no_key e)) b2 es = Inr (es1, b1)" "out = e1 # es1"
    using "2.prems" by (auto simp: sum_split split: if_splits)
  note e1 = check_entry_ok [OF x(3)]
  define c2 where "c2 = c - int (length (no_value e1))"
  have c2: "consume (length (no_value e1)) c = Inr c2" "b2 \<le> c2"
    using x(2) "2.prems"(2) e1 by (auto simp: consume_def c2_def split: if_splits)
  obtain c1 where "c1 \<ge> b1" "check_entries l m (Some (no_key e)) c2 es1 = Inr (es1, c1)"
    using "2.IH" [OF x(1,4) c2(2)] by blast
  then show ?case using x(1,5) e1 c2(1) by (cases prev) simp_all
qed simp

lemma check_meta_puts_ok:
  "check_meta_puts l m r b ms = Inr (out, b1) \<Longrightarrow>
     map fst out = map fst ms \<and> (\<forall>(k, v) \<in> set out. meta_ok l k v \<and> (structural k \<longrightarrow> r))"
proof (induction l m r b ms arbitrary: out b1 rule: check_meta_puts.induct)
  case (2 l m r b key v ms)
  obtain b2 raw out1 where x: "\<not> (\<not> valid_string key \<or> reserved key)" "\<not> (structural key \<and> \<not> r)"
    "consume (length key + length v) b = Inr b2" "strict_json l v m = Inr raw" "\<not> (structural key \<and> \<not> is_ok (array_of raw))"
    "check_meta_puts l m r b2 ms = Inr (out1, b1)" "out = (key, raw) # out1"
    using "2.prems" by (auto simp: sum_split split: if_splits)
  note IH = "2.IH" [OF x(1,2,5,6)]
  then show ?case using x strict_json_strict [OF x(4)] by (auto simp: meta_ok_def)
qed simp

lemma check_meta_puts_again:
  assumes "check_meta_puts l m r b ms = Inr (out, b1)" "b \<le> c"
  shows "\<exists>c1 \<ge> b1. check_meta_puts l m r c out = Inr (out, c1)"
  using assms
proof (induction l m r b ms arbitrary: out b1 c rule: check_meta_puts.induct)
  case (2 l m r b key v ms)
  obtain b2 raw out1 where x: "\<not> (\<not> valid_string key \<or> reserved key)" "\<not> (structural key \<and> \<not> r)"
    "consume (length key + length v) b = Inr b2" "strict_json l v m = Inr raw" "\<not> (structural key \<and> \<not> is_ok (array_of raw))"
    "check_meta_puts l m r b2 ms = Inr (out1, b1)" "out = (key, raw) # out1"
    using "2.prems"(1) by (auto simp: sum_split split: if_splits)
  note s = strict_json_strict [OF x(4)]
  define c2 where "c2 = c - int (length key + length raw)"
  have c2: "consume (length key + length raw) c = Inr c2" "b2 \<le> c2"
    using x(3) "2.prems"(2) s by (auto simp: consume_def c2_def split: if_splits)
  obtain c1 where "c1 \<ge> b1" "check_meta_puts l m r c2 out1 = Inr (out1, c1)"
    using "2.IH" [OF x(1,2,5,6) c2(2)] by blast
  moreover have "strict_json l raw m = Inr raw" using strict_json_id s by auto
  ultimately show ?case using x(1,2,5,7) c2(1) by auto
qed simp

lemma check_meta_dels_ok:
  "check_meta_dels puts r prev b ks = Inr b1 \<Longrightarrow>
     (\<forall>k \<in> set ks. valid_string k \<and> \<not> reserved k \<and> (structural k \<longrightarrow> r) \<and> map_of puts k = None) \<and> sorted_wrt (<) ks
     \<and> (case prev of None \<Rightarrow> True | Some p \<Rightarrow> \<forall>k \<in> set ks. p < k)"
proof (induction puts r prev b ks rule: check_meta_dels.induct)
  case (2 puts r prev b key ks)
  obtain b2 where x: "\<not> (\<not> valid_string key \<or> reserved key \<or> (case prev of Some p \<Rightarrow> p \<ge> key | None \<Rightarrow> False))"
    "\<not> (structural key \<and> \<not> r)" "\<not> (map_of puts key \<noteq> None)" "consume (length key) b = Inr b2"
    "check_meta_dels puts r (Some key) b2 ks = Inr b1"
    using "2.prems" by (auto simp: sum_split split: if_splits)
  note IH = "2.IH" [OF x(1,2,3,5)]
  have "case prev of None \<Rightarrow> True | Some p \<Rightarrow> p < key" using x(1) by (auto split: option.splits)
  then have "case prev of None \<Rightarrow> True | Some p \<Rightarrow> \<forall>k \<in> set (key # ks). p < k"
    using IH by (auto split: option.splits dest: less_trans)
  then show ?case using IH x by auto
qed (simp split: option.splits)

lemma check_meta_dels_again:
  assumes "check_meta_dels puts r prev b ks = Inr b1" "b \<le> c" "\<And>k. map_of puts2 k = None \<longleftrightarrow> map_of puts k = None"
  shows "\<exists>c1. check_meta_dels puts2 r prev c ks = Inr c1"
  using assms
proof (induction puts r prev b ks arbitrary: c rule: check_meta_dels.induct)
  case (2 puts r prev b key ks)
  obtain b2 where x: "\<not> (\<not> valid_string key \<or> reserved key \<or> (case prev of Some p \<Rightarrow> p \<ge> key | None \<Rightarrow> False))"
    "\<not> (structural key \<and> \<not> r)" "\<not> (map_of puts key \<noteq> None)" "consume (length key) b = Inr b2"
    "check_meta_dels puts r (Some key) b2 ks = Inr b1"
    using "2.prems"(1) by (auto simp: sum_split split: if_splits)
  have c: "consume (length key) c = Inr (c - int (length key))" "b2 \<le> c - int (length key)"
    using x(4) "2.prems"(2) by (auto simp: consume_def split: if_splits)
  obtain c1 where "check_meta_dels puts2 r (Some key) (c - int (length key)) ks = Inr c1"
    using "2.IH" [OF x(1,2,3,5) c(2) "2.prems"(3)] by blast
  moreover have "\<not> (map_of puts2 key \<noteq> None)" using x(3) "2.prems"(3) [of key] by simp
  ultimately show ?case using x(1,2) c(1) by auto
qed simp

section \<open>The whole set\<close>

text \<open>\<open>MetaPut\<close> is a map: its keys are distinct.\<close>

definition ops_map :: "annot_ops \<Rightarrow> bool" where
  "ops_map o1 \<longleftrightarrow> distinct (map fst (ao_meta_put o1))"

definition ops_ok :: "annot_limits \<Rightarrow> annot_ops \<Rightarrow> bool" where
  "ops_ok l c \<longleftrightarrow> (\<forall>e \<in> set (ao_elements c). element_op_ok l e) \<and> distinct (map eo_key (ao_elements c))
     \<and> (\<forall>e \<in> set (ao_entries c). entry_op_ok l e) \<and> entries_sorted (ao_entries c)
     \<and> (\<forall>(k, v) \<in> set (ao_meta_put c). meta_ok l k v \<and> (structural k \<longrightarrow> ao_replace c))
     \<and> sorted (map fst (ao_meta_put c)) \<and> distinct (map fst (ao_meta_put c))
     \<and> (\<forall>k \<in> set (ao_meta_del c). valid_string k \<and> \<not> reserved k \<and> map_of (ao_meta_put c) k = None)
     \<and> sorted_wrt (<) (ao_meta_del c)"

lemma checked_opsE:
  assumes "checked_ops o1 l t = Inr c"
  obtains m es b1 ns b2 ps b3 b4 where
    "m = (if t then al_max_state_bytes l else al_max_op_bytes l)"
    "\<not> (ao_replace o1 \<and> \<not> t)" "ops_count o1 \<le> (if t then al_max_state_bytes l else al_max_ops l)"
    "check_elements l m [] None m (ao_elements o1) = Inr (es, b1)"
    "check_entries l m None b1 (ao_entries o1) = Inr (ns, b2)"
    "check_meta_puts l m (ao_replace o1) b2 (sorted_members (ao_meta_put o1)) = Inr (ps, b3)"
    "check_meta_dels (ao_meta_put o1) (ao_replace o1) None b3 (ao_meta_del o1) = Inr b4"
    "c = \<lparr>ao_elements = es, ao_entries = ns, ao_meta_put = ps, ao_meta_del = ao_meta_del o1, ao_replace = ao_replace o1\<rparr>"
    "int (length (encode_ops c)) \<le> m"
proof -
  define m where "m = (if t then al_max_state_bytes l else al_max_op_bytes l)"
  have r: "\<not> (ao_replace o1 \<and> \<not> t)"
  proof
    assume a: "ao_replace o1 \<and> \<not> t"
    show False using assms unfolding checked_ops_def if_P [OF a] by simp
  qed
  have n: "\<not> ops_count o1 > (if t then al_max_state_bytes l else al_max_ops l)"
    using assms r unfolding checked_ops_def Let_def by (auto split: if_split_asm)
  note e = assms [unfolded checked_ops_def Let_def if_not_P [OF r] if_not_P [OF n], folded m_def]
  show thesis using e that [OF m_def r] n by (auto simp: sum_split not_less split: if_split_asm)
qed

lemma checked_opsI:
  assumes "m = (if t then al_max_state_bytes l else al_max_op_bytes l)"
    "\<not> (ao_replace o1 \<and> \<not> t)" "ops_count o1 \<le> (if t then al_max_state_bytes l else al_max_ops l)"
    "check_elements l m [] None m (ao_elements o1) = Inr (es, b1)"
    "check_entries l m None b1 (ao_entries o1) = Inr (ns, b2)"
    "check_meta_puts l m (ao_replace o1) b2 (sorted_members (ao_meta_put o1)) = Inr (ps, b3)"
    "check_meta_dels (ao_meta_put o1) (ao_replace o1) None b3 (ao_meta_del o1) = Inr b4"
    "c = \<lparr>ao_elements = es, ao_entries = ns, ao_meta_put = ps, ao_meta_del = ao_meta_del o1, ao_replace = ao_replace o1\<rparr>"
    "int (length (encode_ops c)) \<le> m"
  shows "checked_ops o1 l t = Inr c"
proof -
  have n: "\<not> ops_count o1 > (if t then al_max_state_bytes l else al_max_ops l)" using assms(3) by simp
  show ?thesis unfolding checked_ops_def Let_def if_not_P [OF assms(2)] if_not_P [OF n] assms(1) [symmetric] assms(4)
    using assms(5-9) by simp
qed

lemma checked_ops_ok:
  assumes "checked_ops o1 l t = Inr c" "ops_map o1"
  shows "ops_ok l c" and "map eo_key (ao_elements c) = map eo_key (ao_elements o1)" and "map eo_op (ao_elements c) = map eo_op (ao_elements o1)"
    and "map no_key (ao_entries c) = map no_key (ao_entries o1)" and "map no_op (ao_entries c) = map no_op (ao_entries o1)"
    and "map fst (ao_meta_put c) = sort (map fst (ao_meta_put o1))" and "ao_meta_del c = ao_meta_del o1" and "ao_replace c = ao_replace o1"
proof -
  obtain m es b1 ns b2 ps b3 b4 where x: "m = (if t then al_max_state_bytes l else al_max_op_bytes l)"
    "\<not> (ao_replace o1 \<and> \<not> t)" "ops_count o1 \<le> (if t then al_max_state_bytes l else al_max_ops l)"
    "check_elements l m [] None m (ao_elements o1) = Inr (es, b1)"
    "check_entries l m None b1 (ao_entries o1) = Inr (ns, b2)"
    "check_meta_puts l m (ao_replace o1) b2 (sorted_members (ao_meta_put o1)) = Inr (ps, b3)"
    "check_meta_dels (ao_meta_put o1) (ao_replace o1) None b3 (ao_meta_del o1) = Inr b4"
    "c = \<lparr>ao_elements = es, ao_entries = ns, ao_meta_put = ps, ao_meta_del = ao_meta_del o1, ao_replace = ao_replace o1\<rparr>"
    by (rule checked_opsE [OF assms(1)])
  note e = check_elements_ok [OF x(4)] and n = check_entries_ok [OF x(5)] and p = check_meta_puts_ok [OF x(6)] and d = check_meta_dels_ok [OF x(7)]
  have keys: "map fst ps = sort (map fst (ao_meta_put o1))" using p sorted_members_map(2) by simp
  then have "set (map fst ps) = set (map fst (ao_meta_put o1))" by simp
  then have none: "map_of ps k = None \<longleftrightarrow> map_of (ao_meta_put o1) k = None" for k by (simp add: map_of_eq_None_iff)
  have ks: "distinct (map eo_key es)" "entries_sorted ns" using e n by (auto simp: entries_sorted_def simp flip: map_map)
  have srt: "sorted (map fst ps)" "distinct (map fst ps)" unfolding keys using assms(2) by (simp_all add: ops_map_def)
  have el: "\<forall>e \<in> set es. element_op_ok l e" "\<forall>e \<in> set ns. entry_op_ok l e"
    "\<forall>(k, v) \<in> set ps. meta_ok l k v \<and> (structural k \<longrightarrow> ao_replace o1)" using e n p by blast+
  have dl: "\<forall>k \<in> set (ao_meta_del o1). valid_string k \<and> \<not> reserved k \<and> map_of ps k = None" "sorted_wrt (<) (ao_meta_del o1)"
    using d none by simp_all
  show "ops_ok l c" unfolding ops_ok_def x(8) using ks srt el dl by simp
  show "map eo_key (ao_elements c) = map eo_key (ao_elements o1)" "map eo_op (ao_elements c) = map eo_op (ao_elements o1)"
    "map no_key (ao_entries c) = map no_key (ao_entries o1)" "map no_op (ao_entries c) = map no_op (ao_entries o1)"
    "map fst (ao_meta_put c) = sort (map fst (ao_meta_put o1))" "ao_meta_del c = ao_meta_del o1" "ao_replace c = ao_replace o1"
    using e n x(8) keys by simp_all
qed

lemma sorted_members_id:
  assumes "sorted (map fst m)" "distinct (map fst m)"
  shows "sorted_members m = m"
proof -
  have "sort (map fst m) = map fst m" using assms(1) by (simp add: sorted_sort_id)
  moreover have "map (\<lambda>k. (k, case map_of m k of Some v \<Rightarrow> v | None \<Rightarrow> [])) (map fst m) = m"
    using assms(2) by (auto simp: o_def intro!: map_idI)
  ultimately show ?thesis by (simp only: sorted_members_def)
qed

lemma join_filter_length: "length (join_with sep (map f (filter P xs))) \<le> length (join_with sep (map f xs))"
proof (induction xs)
  case (Cons x xs)
  show ?case
  proof (cases "xs = []")
    case False
    then have c: "join_with sep (map f (x # xs)) = f x @ sep @ join_with sep (map f xs)" by (simp add: join_with_cons)
    show ?thesis using Cons unfolding c by (cases "filter P xs = []") (auto simp: join_with_cons)
  qed simp
qed simp

text \<open>The result is accepted again and unchanged, also with some puts left out.\<close>

lemma checked_ops_again:
  assumes "checked_ops o1 l t = Inr c" "ops_map o1" "\<And>e. e \<in> set (ao_elements c) \<Longrightarrow> eo_op e = OpDel \<Longrightarrow> P e"
  defines "c2 \<equiv> c\<lparr>ao_elements := filter P (ao_elements c)\<rparr>"
  shows "checked_ops c2 l t = Inr c2"
proof -
  obtain m es b1 ns b2 ps b3 b4 where x: "m = (if t then al_max_state_bytes l else al_max_op_bytes l)"
    "\<not> (ao_replace o1 \<and> \<not> t)" "ops_count o1 \<le> (if t then al_max_state_bytes l else al_max_ops l)"
    "check_elements l m [] None m (ao_elements o1) = Inr (es, b1)"
    "check_entries l m None b1 (ao_entries o1) = Inr (ns, b2)"
    "check_meta_puts l m (ao_replace o1) b2 (sorted_members (ao_meta_put o1)) = Inr (ps, b3)"
    "check_meta_dels (ao_meta_put o1) (ao_replace o1) None b3 (ao_meta_del o1) = Inr b4"
    "c = \<lparr>ao_elements = es, ao_entries = ns, ao_meta_put = ps, ao_meta_del = ao_meta_del o1, ao_replace = ao_replace o1\<rparr>"
    "int (length (encode_ops c)) \<le> m"
    by (rule checked_opsE [OF assms(1)])
  note ok = checked_ops_ok [OF assms(1,2)]
  obtain c1 where c1: "c1 \<ge> b1" "check_elements l m [] None m (filter P es) = Inr (filter P es, c1)"
    using check_elements_again [OF x(4), of "[]" m P] assms(3) x(8) by auto
  obtain d1 where d1: "d1 \<ge> b2" "check_entries l m None c1 ns = Inr (ns, d1)" using check_entries_again [OF x(5) c1(1)] by blast
  obtain e1 where e1: "e1 \<ge> b3" "check_meta_puts l m (ao_replace o1) d1 ps = Inr (ps, e1)" using check_meta_puts_again [OF x(6) d1(1)] by blast
  have "set (map fst ps) = set (map fst (ao_meta_put o1))" using ok(6) x(8) by simp
  then have none: "map_of ps k = None \<longleftrightarrow> map_of (ao_meta_put o1) k = None" for k by (simp add: map_of_eq_None_iff)
  obtain f1 where f1: "check_meta_dels ps (ao_replace o1) None e1 (ao_meta_del o1) = Inr f1"
    using check_meta_dels_again [OF x(7) e1(1), of ps] none by blast
  have srt: "sorted_members ps = ps" using ok(1) x(8) by (intro sorted_members_id) (simp_all add: ops_ok_def)
  have len: "length es = length (ao_elements o1)" "length ns = length (ao_entries o1)" "length ps = length (ao_meta_put o1)"
    using arg_cong [OF ok(2), of length] arg_cong [OF ok(4), of length] arg_cong [OF ok(6), of length] x(8) by simp_all
  have cnt: "ops_count c2 \<le> ops_count o1"
    using len length_filter_le [of P es] by (simp add: ops_count_def c2_def x(8))
  have "length (encode_ops c2) \<le> length (encode_ops c)"
    unfolding encode_ops_def Let_def c2_def append_member_def raw_array_def
    using join_filter_length [of "'',''" "\<lambda>e. encode_item (eo_op e) (encode_element_key (eo_key e)) (eo_value e)" P "ao_elements c"]
    by simp
  then have enc: "int (length (encode_ops c2)) \<le> m" using x(9) by simp
  show ?thesis
    by (rule checked_opsI [OF x(1), of _ "filter P es" c1 ns d1 ps e1 f1])
      (use x c1 d1 e1 f1 srt cnt enc in \<open>simp_all add: c2_def\<close>)
qed

end
