(* ===== verification/Annot_Loop.thy ===== *)
theory Annot_Loop
  imports Annot_Check
begin

text \<open>
  The invariant of a sidecar and the loop of \<open>Apply\<close> (\<^verbatim>\<open>internal/core/annot/apply.go\<close>)
  over the element operations: what it does to each key, that it keeps the invariant, and
  that the effective operations alone take the same steps.
\<close>

section \<open>The invariant\<close>

definition limits_positive :: "annot_limits \<Rightarrow> bool" where
  "limits_positive l \<longleftrightarrow> 0 < al_max_bytes l \<and> 0 < al_max_elements l \<and> 0 < al_max_id_bytes l \<and> 0 < al_max_op_bytes l
     \<and> 0 < al_max_state_bytes l \<and> 0 < al_max_ops l \<and> 0 < al_max_tombstones l \<and> 0 < al_max_depth l \<and> 0 < al_max_nodes l"

definition element_ok :: "annot_limits \<Rightarrow> element_key \<Rightarrow> string \<Rightarrow> bool" where
  "element_ok l k v \<longleftrightarrow> valid_element_key k l = Inr () \<and> strict_text l v \<and> get_id v l = Inr (ek_id k)"

definition entry_ok :: "annot_limits \<Rightarrow> entry_key \<Rightarrow> string \<Rightarrow> bool" where
  "entry_ok l k v \<longleftrightarrow> valid_entry k v OpPut = Inr () \<and> strict_text l v"

text \<open>Orders of live elements: within the version, and no two alike.\<close>

definition orders_ok :: "int \<Rightarrow> (element_key \<times> element) list \<Rightarrow> bool" where
  "orders_ok v els \<longleftrightarrow> distinct (map fst els) \<and> distinct (map (el_order \<circ> snd) els)
     \<and> (\<forall>(k, e) \<in> set els. 0 \<le> ok_version (el_order e) \<and> ok_version (el_order e) \<le> v \<and> 0 \<le> ok_ordinal (el_order e))"

definition tombstones_ok :: "annot_limits \<Rightarrow> int \<Rightarrow> (element_key \<times> element) list \<Rightarrow> (element_key \<times> int) list \<Rightarrow> bool" where
  "tombstones_ok l v els tombs \<longleftrightarrow> distinct (map fst tombs)
     \<and> (\<forall>(k, t) \<in> set tombs. valid_element_key k l = Inr () \<and> k \<notin> fst ` set els \<and> 0 < t \<and> t \<le> v)"

definition sidecar_ok :: "sidecar \<Rightarrow> bool" where
  "sidecar_ok sc \<longleftrightarrow> limits_positive (sc_limits sc) \<and> 0 \<le> sc_version sc
     \<and> orders_ok (sc_version sc) (sc_elements sc)
     \<and> (\<forall>(k, e) \<in> set (sc_elements sc). element_ok (sc_limits sc) k (el_value e))
     \<and> tombstones_ok (sc_limits sc) (sc_version sc) (sc_elements sc) (sc_tombstones sc)
     \<and> distinct (map fst (sc_entries sc)) \<and> (\<forall>(k, v) \<in> set (sc_entries sc). entry_ok (sc_limits sc) k v)
     \<and> distinct (map fst (sc_meta sc)) \<and> (\<forall>(k, v) \<in> set (sc_meta sc). meta_ok (sc_limits sc) k v)"

lemma valid_element_kind: "valid_element_key k l = Inr () \<Longrightarrow> valid_kind k"
  by (auto simp: valid_element_key_def valid_kind_def split: if_splits)

lemma element_kind: "element_ok l k v \<Longrightarrow> valid_kind k"
  unfolding element_ok_def using valid_element_kind by blast

lemma configured_id: "0 < al_max_bytes (sc_limits sc) \<Longrightarrow> configured sc = sc"
  by (simp add: configured_def)

lemma sidecar_ok_configured: "sidecar_ok sc \<Longrightarrow> configured sc = sc"
  by (simp add: sidecar_ok_def limits_positive_def configured_id)

lemma sidecar_ok_kinds: "sidecar_ok sc \<Longrightarrow> \<forall>k \<in> fst ` set (sc_elements sc). valid_kind k"
  using element_kind by (fastforce simp: sidecar_ok_def)

section \<open>Updating one key\<close>

lemma set_update:
  assumes "distinct (map fst m)"
  shows "(k', v') \<in> set (AList.update k v m) \<longleftrightarrow> (k' = k \<and> v' = v) \<or> (k' \<noteq> k \<and> (k', v') \<in> set m)"
proof -
  have "(k', v') \<in> set (AList.update k v m) \<longleftrightarrow> map_of (AList.update k v m) k' = Some v'"
    by (rule map_of_eq_Some_iff [symmetric]) (rule am.keys_put [OF assms])
  also have "\<dots> \<longleftrightarrow> (k' = k \<and> v' = v) \<or> (k' \<noteq> k \<and> map_of m k' = Some v')" by (auto simp: am.get_put_same)
  finally show ?thesis by (simp add: map_of_eq_Some_iff [OF assms])
qed

lemma set_delete:
  assumes "distinct (map fst m)"
  shows "(k', v') \<in> set (AList.delete k m) \<longleftrightarrow> k' \<noteq> k \<and> (k', v') \<in> set m"
proof -
  have "(k', v') \<in> set (AList.delete k m) \<longleftrightarrow> map_of (AList.delete k m) k' = Some v'"
    by (rule map_of_eq_Some_iff [symmetric]) (rule am.keys_del [OF assms])
  also have "\<dots> \<longleftrightarrow> k' \<noteq> k \<and> map_of m k' = Some v'" by (simp add: am.get_del_same)
  finally show ?thesis by (simp add: map_of_eq_Some_iff [OF assms])
qed

lemma distinct_snd_iff:
  assumes "distinct (map fst m)"
  shows "distinct (map (f \<circ> snd) m) \<longleftrightarrow> (\<forall>(k, v) \<in> set m. \<forall>(k', v') \<in> set m. f v = f v' \<longrightarrow> k = k')"
proof -
  have "distinct m" using assms by (simp add: distinct_map)
  then have "distinct (map (f \<circ> snd) m) \<longleftrightarrow> inj_on (f \<circ> snd) (set m)" by (simp add: distinct_map)
  also have "\<dots> \<longleftrightarrow> (\<forall>(k, v) \<in> set m. \<forall>(k', v') \<in> set m. f v = f v' \<longrightarrow> k = k')"
  proof
    show "\<forall>(k, v) \<in> set m. \<forall>(k', v') \<in> set m. f v = f v' \<longrightarrow> k = k'" if "inj_on (f \<circ> snd) (set m)"
    proof clarify
      fix k v k' v' assume "(k, v) \<in> set m" "(k', v') \<in> set m" "f v = f v'"
      then show "k = k'" using inj_onD [OF that, of "(k, v)" "(k', v')"] by simp
    qed
  next
    assume all: "\<forall>(k, v) \<in> set m. \<forall>(k', v') \<in> set m. f v = f v' \<longrightarrow> k = k'"
    show "inj_on (f \<circ> snd) (set m)"
    proof (rule inj_onI)
      fix p q assume p: "p \<in> set m" and q: "q \<in> set m" and eq: "(f \<circ> snd) p = (f \<circ> snd) q"
      obtain k v k' v' where pq: "p = (k, v)" "q = (k', v')" by (cases p; cases q)
      have "k = k'" using bspec [OF bspec [OF all p, unfolded pq prod.case], of q] q eq pq by simp
      moreover have "v = v'" using eq_key_imp_eq_value [OF assms, of k v v'] p q pq \<open>k = k'\<close> by simp
      ultimately show "p = q" using pq by simp
    qed
  qed
  finally show ?thesis .
qed

section \<open>The loop over the element operations\<close>

definition put_order :: "int \<Rightarrow> (element_key \<times> element) list \<Rightarrow> element_op list \<Rightarrow> element_key \<Rightarrow> order_key" where
  "put_order at els eff k = (case map_of els k of Some old \<Rightarrow> el_order old | None \<Rightarrow> \<lparr>ok_version = at, ok_ordinal = int (length eff)\<rparr>)"

lemma apply_elements_dropped:
  "eo_op e = OpPut \<Longrightarrow> map_of tombs (eo_key e) \<noteq> None \<and> \<not> r \<Longrightarrow>
     apply_elements r at (e # es) els tombs eff dr = apply_elements r at es els tombs eff (dr @ [eo_key e])"
  by simp

lemma apply_elements_put:
  "eo_op e = OpPut \<Longrightarrow> \<not> (map_of tombs (eo_key e) \<noteq> None \<and> \<not> r) \<Longrightarrow>
     apply_elements r at (e # es) els tombs eff dr =
       apply_elements r at es (AList.update (eo_key e) \<lparr>el_value = eo_value e, el_order = put_order at els eff (eo_key e)\<rparr> els)
         (AList.delete (eo_key e) tombs) (eff @ [e]) dr"
  unfolding apply_elements.simps(2) put_order_def Let_def by (simp only: op_kind.case if_False)

lemma apply_elements_del:
  "eo_op e = OpDel \<Longrightarrow> apply_elements r at (e # es) els tombs eff dr =
     apply_elements r at es (AList.delete (eo_key e) els) (AList.update (eo_key e) at tombs) (eff @ [e]) dr"
  by simp

lemma apply_elements_noop:
  "eo_op e = OpOther n \<Longrightarrow> apply_elements r at (e # es) els tombs eff dr = apply_elements r at es els tombs (eff @ [e]) dr"
  by simp

declare apply_elements.simps(2) [simp del]

lemmas apply_elements_step = apply_elements_dropped apply_elements_put apply_elements_del apply_elements_noop

text \<open>Induction over the loop, one case per outcome of a step.\<close>

lemma apply_elements_induct [case_names nil dropped put del noop]:
  assumes "\<And>els tombs eff dr. P [] els tombs eff dr"
    and "\<And>e es els tombs eff dr. eo_op e = OpPut \<Longrightarrow> map_of tombs (eo_key e) \<noteq> None \<and> \<not> r \<Longrightarrow>
      P es els tombs eff (dr @ [eo_key e]) \<Longrightarrow> P (e # es) els tombs eff dr"
    and "\<And>e es els tombs eff dr. eo_op e = OpPut \<Longrightarrow> \<not> (map_of tombs (eo_key e) \<noteq> None \<and> \<not> r) \<Longrightarrow>
      P es (AList.update (eo_key e) \<lparr>el_value = eo_value e, el_order = put_order at els eff (eo_key e)\<rparr> els)
        (AList.delete (eo_key e) tombs) (eff @ [e]) dr \<Longrightarrow> P (e # es) els tombs eff dr"
    and "\<And>e es els tombs eff dr. eo_op e = OpDel \<Longrightarrow>
      P es (AList.delete (eo_key e) els) (AList.update (eo_key e) at tombs) (eff @ [e]) dr \<Longrightarrow> P (e # es) els tombs eff dr"
    and "\<And>e es els tombs eff dr n. eo_op e = OpOther n \<Longrightarrow> P es els tombs (eff @ [e]) dr \<Longrightarrow> P (e # es) els tombs eff dr"
  shows "P es els tombs eff dr"
proof (induction es arbitrary: els tombs eff dr)
  case (Cons e es)
  show ?case
  proof (cases "eo_op e")
    case OpPut
    show ?thesis
      by (cases "map_of tombs (eo_key e) \<noteq> None \<and> \<not> r") (rule assms(2) [OF OpPut _ Cons], assumption, rule assms(3) [OF OpPut _ Cons])
  next
    case OpDel
    then show ?thesis by (rule assms(4) [OF _ Cons])
  next
    case (OpOther n)
    then show ?thesis by (rule assms(5) [OF _ Cons])
  qed
qed (rule assms(1))

lemma apply_elements_append:
  "apply_elements r at (xs @ ys) els tombs eff dr =
    (case apply_elements r at xs els tombs eff dr of (els1, tombs1, eff1, dr1) \<Rightarrow> apply_elements r at ys els1 tombs1 eff1 dr1)"
  by (induction xs els tombs eff dr rule: apply_elements_induct [where r = r and at = at])
    (simp_all add: apply_elements_step del: not_None_eq)

text \<open>A key no operation names keeps its element and its tombstone.\<close>

lemma apply_elements_other:
  assumes "apply_elements r at es els tombs eff dr = (els1, tombs1, eff1, dr1)" "k \<notin> eo_key ` set es"
  shows "map_of els1 k = map_of els k \<and> map_of tombs1 k = map_of tombs k"
  using assms
  by (induction es els tombs eff dr rule: apply_elements_induct [where r = r and at = at])
    (simp_all add: apply_elements_step am.get_put_same am.get_del_same del: not_None_eq)

definition suppressed :: "bool \<Rightarrow> (element_key \<times> int) list \<Rightarrow> element_op \<Rightarrow> bool" where
  "suppressed r tombs e \<longleftrightarrow> eo_op e = OpPut \<and> map_of tombs (eo_key e) \<noteq> None \<and> \<not> r"

text \<open>Keys are distinct, so the tombstones at the start decide which puts are dropped.\<close>

lemma apply_elements_lists:
  assumes "apply_elements r at es els tombs eff dr = (els1, tombs1, eff1, dr1)" "distinct (map eo_key es)"
    and "\<And>k. k \<in> eo_key ` set es \<Longrightarrow> map_of tombs k = map_of tombs0 k"
  shows "eff1 = eff @ filter (\<lambda>e. \<not> suppressed r tombs0 e) es \<and> dr1 = dr @ map eo_key (filter (suppressed r tombs0) es)"
  using assms
proof (induction es els tombs eff dr rule: apply_elements_induct [where r = r and at = at])
  case (dropped e es els tombs eff dr)
  then show ?case by (simp add: apply_elements_dropped suppressed_def del: not_None_eq)
next
  case (put e es els tombs eff dr)
  have "eo_key e \<notin> eo_key ` set es" using put.prems(2) by simp
  then have ne: "k \<noteq> eo_key e" if "k \<in> eo_key ` set es" for k using that by blast
  have "map_of (AList.delete (eo_key e) tombs) k = map_of tombs0 k" if "k \<in> eo_key ` set es" for k
    using put.prems(3) [of k] that ne [OF that] by (simp add: am.get_del_same)
  moreover have "\<not> suppressed r tombs0 e" using put.prems(3) [of "eo_key e"] put.hyps by (simp add: suppressed_def)
  ultimately show ?case using put.IH put.prems(1,2) put.hyps by (simp add: apply_elements_put del: not_None_eq)
next
  case (del e es els tombs eff dr)
  have "eo_key e \<notin> eo_key ` set es" using del.prems(2) by simp
  then have ne: "k \<noteq> eo_key e" if "k \<in> eo_key ` set es" for k using that by blast
  have "map_of (AList.update (eo_key e) at tombs) k = map_of tombs0 k" if "k \<in> eo_key ` set es" for k
    using del.prems(3) [of k] that ne [OF that] by (simp add: am.get_put_same)
  then show ?case using del.IH del.prems(1,2) del.hyps by (simp add: apply_elements_del suppressed_def)
next
  case (noop e es els tombs eff dr n)
  then show ?case by (simp add: apply_elements_noop suppressed_def)
qed simp

text \<open>The effective operations alone take the same steps, whatever the original dropped.\<close>

lemma apply_elements_replay:
  "apply_elements r at es els tombs eff dr = (els1, tombs1, eff1, dr1) \<Longrightarrow>
     \<exists>xs. eff1 = eff @ xs \<and> (\<forall>dr2. apply_elements r at xs els tombs eff dr2 = (els1, tombs1, eff1, dr2))"
proof (induction es els tombs eff dr rule: apply_elements_induct [where r = r and at = at])
  case (dropped e es els tombs eff dr)
  then show ?case by (simp add: apply_elements_dropped del: not_None_eq)
next
  case (put e es els tombs eff dr)
  obtain xs where xs: "eff1 = (eff @ [e]) @ xs"
    "\<forall>dr2. apply_elements r at xs (AList.update (eo_key e) \<lparr>el_value = eo_value e, el_order = put_order at els eff (eo_key e)\<rparr> els)
      (AList.delete (eo_key e) tombs) (eff @ [e]) dr2 = (els1, tombs1, eff1, dr2)"
    using put.IH put.prems put.hyps by (auto simp: apply_elements_put simp del: not_None_eq)
  then show ?case using apply_elements_put [OF put.hyps] by (intro exI [of _ "e # xs"]) simp
next
  case (del e es els tombs eff dr)
  obtain xs where "eff1 = (eff @ [e]) @ xs"
    "\<forall>dr2. apply_elements r at xs (AList.delete (eo_key e) els) (AList.update (eo_key e) at tombs) (eff @ [e]) dr2 = (els1, tombs1, eff1, dr2)"
    using del.IH del.prems del.hyps by (auto simp: apply_elements_del)
  then show ?case using apply_elements_del [OF del.hyps] by (intro exI [of _ "e # xs"]) simp
next
  case (noop e es els tombs eff dr n)
  obtain xs where "eff1 = (eff @ [e]) @ xs" "\<forall>dr2. apply_elements r at xs els tombs (eff @ [e]) dr2 = (els1, tombs1, eff1, dr2)"
    using noop.IH noop.prems noop.hyps by (auto simp: apply_elements_noop)
  then show ?case using apply_elements_noop [OF noop.hyps] by (intro exI [of _ "e # xs"]) simp
qed auto

section \<open>The loop keeps the invariant\<close>

definition loop_ok :: "annot_limits \<Rightarrow> int \<Rightarrow> (element_key \<times> element) list \<Rightarrow> (element_key \<times> int) list \<Rightarrow> nat \<Rightarrow> bool" where
  "loop_ok l at els tombs n \<longleftrightarrow> orders_ok at els \<and> (\<forall>(k, e) \<in> set els. element_ok l k (el_value e))
     \<and> tombstones_ok l at els tombs
     \<and> (\<forall>(k, e) \<in> set els. ok_version (el_order e) = at \<longrightarrow> ok_ordinal (el_order e) < int n)"

lemma loop_okD:
  assumes "loop_ok l at els tombs n" "(k, e) \<in> set els"
  shows "0 \<le> ok_version (el_order e)" "ok_version (el_order e) \<le> at" "0 \<le> ok_ordinal (el_order e)"
    "element_ok l k (el_value e)" "ok_version (el_order e) = at \<Longrightarrow> ok_ordinal (el_order e) < int n"
  using assms by (auto simp: loop_ok_def orders_ok_def)

lemma loop_ok_orders:
  assumes "loop_ok l at els tombs n" "(k, e) \<in> set els" "(k', e') \<in> set els" "el_order e = el_order e'"
  shows "k = k'"
proof -
  have "distinct (map fst els)" "distinct (map (el_order \<circ> snd) els)" using assms(1) by (simp_all add: loop_ok_def orders_ok_def)
  then have "\<forall>(k, v) \<in> set els. \<forall>(k', v') \<in> set els. el_order v = el_order v' \<longrightarrow> k = k'" using distinct_snd_iff [of els el_order] by blast
  then show ?thesis using assms(2-4) by blast
qed

lemma loop_okI:
  assumes "distinct (map fst els)" "distinct (map fst tombs)"
    and "\<And>k e. (k, e) \<in> set els \<Longrightarrow> 0 \<le> ok_version (el_order e) \<and> ok_version (el_order e) \<le> at \<and> 0 \<le> ok_ordinal (el_order e)
      \<and> element_ok l k (el_value e) \<and> (ok_version (el_order e) = at \<longrightarrow> ok_ordinal (el_order e) < int n)"
    and "\<And>k e k' e'. (k, e) \<in> set els \<Longrightarrow> (k', e') \<in> set els \<Longrightarrow> el_order e = el_order e' \<Longrightarrow> k = k'"
    and "\<And>k t. (k, t) \<in> set tombs \<Longrightarrow> valid_element_key k l = Inr () \<and> (\<forall>e. (k, e) \<notin> set els) \<and> 0 < t \<and> t \<le> at"
  shows "loop_ok l at els tombs n"
proof -
  have "distinct (map (el_order \<circ> snd) els)" unfolding distinct_snd_iff [OF assms(1)] using assms(4) by blast
  moreover have "\<forall>(k, t) \<in> set tombs. k \<notin> fst ` set els" using assms(5) by fastforce
  ultimately show ?thesis using assms(1,2,3,5) unfolding loop_ok_def orders_ok_def tombstones_ok_def by fastforce
qed

lemma loop_ok_keys: "loop_ok l at els tombs n \<Longrightarrow> distinct (map fst els) \<and> distinct (map fst tombs)"
  by (simp add: loop_ok_def orders_ok_def tombstones_ok_def)

lemma loop_ok_tombs:
  assumes "loop_ok l at els tombs n" "(k, t) \<in> set tombs"
  shows "valid_element_key k l = Inr () \<and> (\<forall>e. (k, e) \<notin> set els) \<and> 0 < t \<and> t \<le> at"
proof -
  have "\<forall>(k, t) \<in> set tombs. valid_element_key k l = Inr () \<and> k \<notin> fst ` set els \<and> 0 < t \<and> t \<le> at"
    using assms(1) by (simp add: loop_ok_def tombstones_ok_def)
  then have "valid_element_key k l = Inr () \<and> k \<notin> fst ` set els \<and> 0 < t \<and> t \<le> at" using assms(2) by blast
  then show ?thesis by (metis fst_conv imageI)
qed

lemma loop_ok_put:
  assumes ok: "loop_ok l at els tombs (length eff)" and e: "element_op_ok l e" "eo_op e = OpPut" and at: "0 \<le> at"
  shows "loop_ok l at (AList.update (eo_key e) \<lparr>el_value = eo_value e, el_order = put_order at els eff (eo_key e)\<rparr> els)
    (AList.delete (eo_key e) tombs) (Suc (length eff))"
proof (rule loop_okI)
  let ?k = "eo_key e" and ?x = "\<lparr>el_value = eo_value e, el_order = put_order at els eff (eo_key e)\<rparr>"
  note d = loop_ok_keys [OF ok]
  have d1: "distinct (map fst els)" and d2: "distinct (map fst tombs)" using d by blast+
  show "distinct (map fst (AList.update ?k ?x els))" "distinct (map fst (AList.delete ?k tombs))"
    using am.keys_put [OF d1] am.keys_del [OF d2] by blast+
  have val: "element_ok l ?k (eo_value e)" using e by (simp add: element_op_ok_def element_ok_def)
  have new: "map_of els ?k = None \<Longrightarrow> put_order at els eff ?k = \<lparr>ok_version = at, ok_ordinal = int (length eff)\<rparr>"
    and old: "\<And>y. map_of els ?k = Some y \<Longrightarrow> put_order at els eff ?k = el_order y \<and> (?k, y) \<in> set els"
    by (simp_all add: put_order_def map_of_SomeD)
  have ord: "0 \<le> ok_version (put_order at els eff ?k) \<and> ok_version (put_order at els eff ?k) \<le> at \<and> 0 \<le> ok_ordinal (put_order at els eff ?k)
      \<and> (ok_version (put_order at els eff ?k) = at \<longrightarrow> ok_ordinal (put_order at els eff ?k) < int (Suc (length eff)))"
  proof (cases "map_of els ?k")
    case None
    then show ?thesis using new at by simp
  next
    case (Some y)
    note y = old [OF Some]
    show ?thesis using loop_okD(1-3,5) [OF ok, of ?k y] y by fastforce
  qed
  show "0 \<le> ok_version (el_order x) \<and> ok_version (el_order x) \<le> at \<and> 0 \<le> ok_ordinal (el_order x) \<and> element_ok l k (el_value x)
      \<and> (ok_version (el_order x) = at \<longrightarrow> ok_ordinal (el_order x) < int (Suc (length eff)))"
    if "(k, x) \<in> set (AList.update ?k ?x els)" for k x
  proof (cases "k = ?k")
    case True
    then show ?thesis using that set_update [OF d1] ord val by simp
  next
    case False
    then have "(k, x) \<in> set els" using that set_update [OF d1] by simp
    then show ?thesis using loop_okD [OF ok, of k x] by fastforce
  qed
  have fresh: "el_order x \<noteq> put_order at els eff ?k" if "(k, x) \<in> set els" "k \<noteq> ?k" for k x
  proof (cases "map_of els ?k")
    case None
    then show ?thesis using new loop_okD(5) [OF ok that(1)] by auto
  next
    case (Some y)
    then show ?thesis using old [OF Some] loop_ok_orders [OF ok that(1), of ?k y] that(2) by auto
  qed
  show "k = k'" if "(k, x) \<in> set (AList.update ?k ?x els)" "(k', x') \<in> set (AList.update ?k ?x els)" "el_order x = el_order x'" for k x k' x'
    using that fresh [of k x] fresh [of k' x'] loop_ok_orders [OF ok, of k x k' x'] unfolding set_update [OF d1] by auto
  show "valid_element_key k l = Inr () \<and> (\<forall>x. (k, x) \<notin> set (AList.update ?k ?x els)) \<and> 0 < t \<and> t \<le> at"
    if "(k, t) \<in> set (AList.delete ?k tombs)" for k t
    using that loop_ok_tombs [OF ok, of k t] by (simp add: set_update [OF d1] set_delete [OF d2])
qed

lemma loop_ok_del:
  assumes ok: "loop_ok l at els tombs n" and e: "element_op_ok l e" and at: "0 < at"
  shows "loop_ok l at (AList.delete (eo_key e) els) (AList.update (eo_key e) at tombs) (Suc n)"
proof (rule loop_okI)
  let ?k = "eo_key e"
  have d1: "distinct (map fst els)" and d2: "distinct (map fst tombs)" using loop_ok_keys [OF ok] by blast+
  show "distinct (map fst (AList.delete ?k els))" "distinct (map fst (AList.update ?k at tombs))"
    using am.keys_del [OF d1] am.keys_put [OF d2] by blast+
  show "0 \<le> ok_version (el_order x) \<and> ok_version (el_order x) \<le> at \<and> 0 \<le> ok_ordinal (el_order x) \<and> element_ok l k (el_value x)
      \<and> (ok_version (el_order x) = at \<longrightarrow> ok_ordinal (el_order x) < int (Suc n))"
    if "(k, x) \<in> set (AList.delete ?k els)" for k x
  proof -
    have "(k, x) \<in> set els" using that by (simp add: set_delete [OF d1])
    then show ?thesis using loop_okD [OF ok, of k x] by fastforce
  qed
  show "k = k'" if "(k, x) \<in> set (AList.delete ?k els)" "(k', x') \<in> set (AList.delete ?k els)" "el_order x = el_order x'" for k x k' x'
    using that loop_ok_orders [OF ok, of k x k' x'] by (simp add: set_delete [OF d1])
  have "valid_element_key ?k l = Inr ()" using e by (simp add: element_op_ok_def)
  then show "valid_element_key k l = Inr () \<and> (\<forall>x. (k, x) \<notin> set (AList.delete ?k els)) \<and> 0 < t \<and> t \<le> at"
    if "(k, t) \<in> set (AList.update ?k at tombs)" for k t
    using that loop_ok_tombs [OF ok, of k t] at by (auto simp: set_update [OF d2] set_delete [OF d1])
qed

lemma apply_elements_ok:
  assumes "apply_elements r at es els tombs eff dr = (els1, tombs1, eff1, dr1)" "loop_ok l at els tombs (length eff)"
    and "\<forall>e \<in> set es. element_op_ok l e" "0 < at"
  shows "loop_ok l at els1 tombs1 (length eff1)"
  using assms
proof (induction es els tombs eff dr rule: apply_elements_induct [where r = r and at = at])
  case (dropped e es els tombs eff dr)
  then show ?case by (simp add: apply_elements_dropped del: not_None_eq)
next
  case (put e es els tombs eff dr)
  have "loop_ok l at (AList.update (eo_key e) \<lparr>el_value = eo_value e, el_order = put_order at els eff (eo_key e)\<rparr> els)
      (AList.delete (eo_key e) tombs) (length (eff @ [e]))"
    using loop_ok_put [OF put.prems(2)] put by simp
  then show ?case using put.IH put.prems put.hyps by (simp add: apply_elements_put del: not_None_eq)
next
  case (del e es els tombs eff dr)
  have "loop_ok l at (AList.delete (eo_key e) els) (AList.update (eo_key e) at tombs) (length (eff @ [e]))"
    using loop_ok_del [OF del.prems(2)] del.prems by simp
  then show ?case using del.IH del.prems del.hyps by (simp add: apply_elements_del)
next
  case (noop e es els tombs eff dr n)
  then show ?case by (simp add: element_op_ok_def)
qed auto

end
