(* ===== verification/Annot_Reach.thy ===== *)
theory Annot_Reach
  imports Annot_Loop
begin

text \<open>
  What a successful \<open>Apply\<close> (\<^verbatim>\<open>internal/core/annot/apply.go\<close>) has gone through, and that
  it keeps the invariant of the sidecar.
\<close>

section \<open>Applying\<close>

lemma annot_applyE:
  assumes "annot_apply head ops at = Inr r" "sidecar_ok head"
  obtains c raw st where "sc_version head < at" "ao_replace ops \<or> \<not> requires_whole_document head"
    "checked_ops ops (sc_limits head) (ao_replace ops) = Inr c"
    "apply_checked at c head = (ar_sidecar r, ar_effective r, ar_dropped r)"
    "int (length (sc_elements (ar_sidecar r))) + int (length (sc_entries (ar_sidecar r))) \<le> al_max_elements (sc_limits (ar_sidecar r))"
    "int (length (sc_tombstones (ar_sidecar r))) \<le> al_max_tombstones (sc_limits (ar_sidecar r))"
    "annot_marshal (ar_sidecar r) = Inr raw"
    "is_ok (strict_json (sc_limits (ar_sidecar r)) raw (al_max_bytes (sc_limits (ar_sidecar r))))"
    "encode_state (ar_sidecar r) = Inr st"
proof -
  note conf = sidecar_ok_configured [OF assms(2)]
  have v: "\<not> at \<le> sc_version head" using assms(1) by (auto simp: annot_apply_def conf Let_def)
  have w: "\<not> (\<not> ao_replace ops \<and> requires_whole_document head)"
  proof
    assume a: "\<not> ao_replace ops \<and> requires_whole_document head"
    show False using assms(1) unfolding annot_apply_def conf Let_def if_not_P [OF v] if_P [OF a] by simp
  qed
  obtain c where c: "checked_ops ops (sc_limits head) (ao_replace ops) = Inr c"
    using assms(1) unfolding annot_apply_def conf Let_def if_not_P [OF v] if_not_P [OF w] rbind_Inr_iff by blast
  obtain s eff dr where s: "apply_checked at c head = (s, eff, dr)" by (metis prod_cases3)
  note e = assms(1) [unfolded annot_apply_def conf Let_def if_not_P [OF v] if_not_P [OF w] c rbind.simps s prod.case]
  have lim: "\<not> (int (length (sc_elements s)) + int (length (sc_entries s)) > al_max_elements (sc_limits s)
         \<or> int (length (sc_tombstones s)) > al_max_tombstones (sc_limits s))"
  proof
    assume a: "int (length (sc_elements s)) + int (length (sc_entries s)) > al_max_elements (sc_limits s)
         \<or> int (length (sc_tombstones s)) > al_max_tombstones (sc_limits s)"
    show False using e unfolding if_P [OF a] by simp
  qed
  obtain raw x st where raw: "annot_marshal s = Inr raw" "strict_json (sc_limits s) raw (al_max_bytes (sc_limits s)) = Inr x"
    "encode_state s = Inr st" "r = \<lparr>ar_sidecar = s, ar_effective = eff, ar_dropped = dr\<rparr>"
    using e unfolding if_not_P [OF lim] rbind_Inr_iff by blast
  show thesis using that [of c raw st] v w c s lim raw by (simp add: not_less)
qed

lemma apply_checkedE:
  assumes "apply_checked at c head = (s, eff, dr)"
  obtains els tombs xs where
    "apply_elements (ao_replace c) at (ao_elements c) (sc_elements (apply_start (ao_replace c) at head))
       (sc_tombstones (apply_start (ao_replace c) at head)) [] [] = (els, tombs, xs, dr)"
    "s = (apply_start (ao_replace c) at head)\<lparr>sc_elements := els, sc_tombstones := tombs,
       sc_entries := fold apply_entry (ao_entries c) (sc_entries (apply_start (ao_replace c) at head)),
       sc_meta := apply_meta c (sc_meta (apply_start (ao_replace c) at head))\<rparr>"
    "eff = c\<lparr>ao_elements := xs\<rparr>"
  using assms by (auto simp: apply_checked_def Let_def split: prod.splits)

lemma apply_start_simps [simp]:
  "sc_version (apply_start r at head) = at" "sc_limits (apply_start r at head) = sc_limits head"
  "sc_elements (apply_start r at head) = (if r then [] else sc_elements head)"
  "sc_entries (apply_start r at head) = (if r then [] else sc_entries head)"
  "sc_meta (apply_start r at head) = (if r then [] else sc_meta head)"
  by (simp_all add: apply_start_def)

lemma orders_ok_mono: "orders_ok v els \<Longrightarrow> v \<le> w \<Longrightarrow> orders_ok w els"
  by (fastforce simp: orders_ok_def)

lemma tombstones_ok_mono: "tombstones_ok l v els tombs \<Longrightarrow> v \<le> w \<Longrightarrow> tombstones_ok l w els tombs"
  by (fastforce simp: tombstones_ok_def)

lemma replace_tombstones:
  assumes "distinct (map fst tombs)" "\<And>k t. (k, t) \<in> set tombs \<Longrightarrow> P k \<and> 0 < t \<and> t \<le> at" "\<And>k. k \<in> set ks \<Longrightarrow> P k" "0 < (at :: int)"
  shows "distinct (map fst (fold (\<lambda>k. AList.update k at) ks tombs))
    \<and> (\<forall>(k, t) \<in> set (fold (\<lambda>k. AList.update k at) ks tombs). P k \<and> 0 < t \<and> t \<le> at)"
  using assms
proof (induction ks arbitrary: tombs)
  case (Cons k ks)
  have "P k' \<and> 0 < t \<and> t \<le> at" if "(k', t) \<in> set (AList.update k at tombs)" for k' t
    using that Cons.prems by (auto simp: set_update [OF Cons.prems(1)])
  then show ?case using Cons.IH [of "AList.update k at tombs"] am.keys_put [OF Cons.prems(1)] Cons.prems(3,4) by simp
qed auto

lemma loop_ok_start:
  assumes "sidecar_ok head" "sc_version head < at"
  shows "loop_ok (sc_limits head) at (sc_elements (apply_start r at head)) (sc_tombstones (apply_start r at head)) 0"
proof (cases r)
  case False
  have "orders_ok at (sc_elements head)" "tombstones_ok (sc_limits head) at (sc_elements head) (sc_tombstones head)"
    using assms orders_ok_mono [of "sc_version head"] tombstones_ok_mono [of _ "sc_version head"] by (simp_all add: sidecar_ok_def)
  moreover have "\<forall>(k, e) \<in> set (sc_elements head). ok_version (el_order e) < at"
    using assms by (fastforce simp: sidecar_ok_def orders_ok_def)
  ultimately show ?thesis using False assms(1) by (fastforce simp: loop_ok_def sidecar_ok_def apply_start_def)
next
  case True
  have at: "0 < at" using assms by (simp add: sidecar_ok_def)
  have t: "tombstones_ok (sc_limits head) (sc_version head) (sc_elements head) (sc_tombstones head)" using assms(1) by (simp add: sidecar_ok_def)
  have d: "distinct (map fst (sc_tombstones head))" using t by (simp add: tombstones_ok_def)
  have p: "valid_element_key k (sc_limits head) = Inr () \<and> 0 < x \<and> x \<le> at" if "(k, x) \<in> set (sc_tombstones head)" for k x
    using t that assms(2) by (fastforce simp: tombstones_ok_def)
  have q: "valid_element_key k (sc_limits head) = Inr ()" if k: "k \<in> set (ordered_elements head)" for k
  proof -
    obtain e where "(k, e) \<in> set (sc_elements head)" using k by (auto simp: ordered_elements_def)
    then show ?thesis using assms(1) by (fastforce simp: sidecar_ok_def element_ok_def)
  qed
  have "distinct (map fst (sc_tombstones (apply_start True at head)))
    \<and> (\<forall>(k, t) \<in> set (sc_tombstones (apply_start True at head)). valid_element_key k (sc_limits head) = Inr () \<and> 0 < t \<and> t \<le> at)"
    using replace_tombstones [OF d, of "\<lambda>k. valid_element_key k (sc_limits head) = Inr ()" at "ordered_elements head"] p q at
    by (simp add: apply_start_def)
  then show ?thesis using True by (auto simp: loop_ok_def orders_ok_def tombstones_ok_def)
qed

lemma fold_entries_ok:
  assumes "\<forall>e \<in> set es. entry_op_ok l e" "distinct (map fst ents)" "\<forall>(k, v) \<in> set ents. entry_ok l k v"
  shows "distinct (map fst (fold apply_entry es ents)) \<and> (\<forall>(k, v) \<in> set (fold apply_entry es ents). entry_ok l k v)"
  using assms
proof (induction es arbitrary: ents)
  case (Cons e es)
  note d = Cons.prems(2)
  have "distinct (map fst (apply_entry e ents)) \<and> (\<forall>(k, v) \<in> set (apply_entry e ents). entry_ok l k v)"
  proof (cases "no_op e")
    case OpPut
    then have "entry_ok l (no_key e) (no_value e)" using Cons.prems(1) by (simp add: entry_op_ok_def entry_ok_def)
    then show ?thesis using OpPut Cons.prems(3) am.keys_put [OF d] by (auto simp: apply_entry_def set_update [OF d])
  next
    case OpDel
    then show ?thesis using Cons.prems(3) am.keys_del [OF d] by (auto simp: apply_entry_def set_delete [OF d])
  next
    case (OpOther n)
    then show ?thesis using Cons.prems by (simp add: apply_entry_def)
  qed
  then show ?case using Cons.IH [of "apply_entry e ents"] Cons.prems(1) by simp
qed simp

lemma fold_put_ok:
  assumes "distinct (map fst m)" "\<forall>(k, v) \<in> set m. P k v" "\<forall>(k, v) \<in> set xs. P k v"
  shows "distinct (map fst (fold (\<lambda>(k, v). AList.update k v) xs m)) \<and> (\<forall>(k, v) \<in> set (fold (\<lambda>(k, v). AList.update k v) xs m). P k v)"
  using assms
proof (induction xs arbitrary: m)
  case (Cons x xs)
  obtain k v where x: "x = (k, v)" by (cases x)
  have "\<forall>(k', v') \<in> set (AList.update k v m). P k' v'" using Cons.prems x by (auto simp: set_update [OF Cons.prems(1)])
  then show ?case using Cons.IH [of "AList.update k v m"] am.keys_put [OF Cons.prems(1)] Cons.prems(3) x by simp
qed simp

lemma fold_del_ok:
  assumes "distinct (map fst m)" "\<forall>(k, v) \<in> set m. P k v"
  shows "distinct (map fst (fold AList.delete ks m)) \<and> (\<forall>(k, v) \<in> set (fold AList.delete ks m). P k v)"
  using assms
proof (induction ks arbitrary: m)
  case (Cons k ks)
  have "\<forall>(k', v') \<in> set (AList.delete k m). P k' v'" using Cons.prems by (auto simp: set_delete [OF Cons.prems(1)])
  then show ?case using Cons.IH [of "AList.delete k m"] am.keys_del [OF Cons.prems(1)] by simp
qed simp

lemma sorted_members_set: "distinct (map fst m) \<Longrightarrow> set (sorted_members m) = set m"
proof -
  assume d: "distinct (map fst m)"
  have "distinct (map fst (sorted_members m))" using d by (simp add: sorted_members_map(2))
  then have "(k, v) \<in> set (sorted_members m) \<longleftrightarrow> (k, v) \<in> set m" for k v
    using map_of_eq_Some_iff [of "sorted_members m" k v] map_of_eq_Some_iff [OF d, of k v] by (simp add: sorted_members_map(1))
  then show ?thesis by auto
qed

lemma apply_meta_ok:
  assumes "ops_ok l c" "distinct (map fst m)" "\<forall>(k, v) \<in> set m. meta_ok l k v"
  shows "distinct (map fst (apply_meta c m)) \<and> (\<forall>(k, v) \<in> set (apply_meta c m). meta_ok l k v)"
proof -
  have "\<forall>(k, v) \<in> set (sorted_members (ao_meta_put c)). meta_ok l k v"
    using assms(1) sorted_members_set [of "ao_meta_put c"] by (auto simp: ops_ok_def)
  then show ?thesis using fold_put_ok [OF assms(2,3)] fold_del_ok [where P = "meta_ok l"] unfolding apply_meta_def by blast
qed

lemma apply_sidecar_ok:
  assumes "sidecar_ok head" "ops_map ops" "annot_apply head ops at = Inr r"
  shows "sidecar_ok (ar_sidecar r) \<and> sc_limits (ar_sidecar r) = sc_limits head \<and> sc_version (ar_sidecar r) = at"
proof -
  obtain c where c: "sc_version head < at" "checked_ops ops (sc_limits head) (ao_replace ops) = Inr c"
    "apply_checked at c head = (ar_sidecar r, ar_effective r, ar_dropped r)"
    by (rule annot_applyE [OF assms(3,1)]) auto
  let ?l = "sc_limits head" and ?s = "apply_start (ao_replace c) at head"
  note ok = checked_ops_ok(1) [OF c(2) assms(2)]
  obtain els tombs xs where a: "apply_elements (ao_replace c) at (ao_elements c) (sc_elements ?s) (sc_tombstones ?s) [] [] = (els, tombs, xs, ar_dropped r)"
    "ar_sidecar r = ?s\<lparr>sc_elements := els, sc_tombstones := tombs, sc_entries := fold apply_entry (ao_entries c) (sc_entries ?s),
       sc_meta := apply_meta c (sc_meta ?s)\<rparr>"
    by (rule apply_checkedE [OF c(3)]) auto
  have at: "0 < at" using assms(1) c(1) by (simp add: sidecar_ok_def)
  have loop: "loop_ok ?l at els tombs (length xs)"
    by (rule apply_elements_ok [OF a(1) _ _ at]) (use loop_ok_start [OF assms(1) c(1)] ok in \<open>simp_all add: ops_ok_def\<close>)
  have ents: "distinct (map fst (fold apply_entry (ao_entries c) (sc_entries ?s))) \<and> (\<forall>(k, v) \<in> set (fold apply_entry (ao_entries c) (sc_entries ?s)). entry_ok ?l k v)"
    by (rule fold_entries_ok) (use assms(1) ok in \<open>simp_all add: sidecar_ok_def ops_ok_def\<close>)
  have meta: "distinct (map fst (apply_meta c (sc_meta ?s))) \<and> (\<forall>(k, v) \<in> set (apply_meta c (sc_meta ?s)). meta_ok ?l k v)"
    by (rule apply_meta_ok [OF ok]) (use assms(1) in \<open>simp_all add: sidecar_ok_def\<close>)
  show ?thesis using loop ents meta assms(1) at unfolding sidecar_ok_def a(2) loop_ok_def by simp
qed

end
