(* ===== verification/Annot_Parsed.thy ===== *)
theory Annot_Parsed
  imports Annot_Reach
begin

text \<open>
  What \<open>Parse\<close> (\<^verbatim>\<open>internal/core/annot/model.go\<close>) and \<open>DecodeState\<close> (\<^verbatim>\<open>state.go\<close>)
  accept satisfies the invariant, and so does every sidecar made of it by \<open>Apply\<close> and
  \<open>PruneTombstones\<close>.
\<close>

section \<open>Elements\<close>

lemma get_id_ok: "get_id s l = Inr i \<Longrightarrow> i \<noteq> [] \<and> valid_string i \<and> int (length i) \<le> al_max_id_bytes l"
  by (auto simp: get_id_def Let_def not_less split: sum.splits option.splits raw.splits if_splits)

lemma parse_elements_ok:
  assumes "parse_elements l kind vs els n = Inr (els1, n1)" "0 \<le> kind_index kind" "\<forall>v \<in> set vs. strict_text l v"
    and "0 \<le> n" "loop_ok l 0 els [] (nat n)"
  shows "0 \<le> n1 \<and> loop_ok l 0 els1 [] (nat n1)"
  using assms
proof (induction l kind vs els n rule: parse_elements.induct)
  case (2 l kind v vs els n)
  obtain i where i: "get_id v l = Inr i" using "2.prems"(1) by (auto simp: rbind_Inr_iff)
  let ?k = "\<lparr>ek_kind = kind, ek_id = i\<rparr>" and ?o = "\<lparr>ok_version = 0, ok_ordinal = n\<rparr>"
  have none: "\<not> (map_of els ?k \<noteq> None)" and room: "\<not> (int (length els) \<ge> al_max_elements l)"
    using "2.prems"(1) i by (auto simp: Let_def split: if_split_asm)
  have rest: "parse_elements l kind vs (AList.update ?k \<lparr>el_value = v, el_order = ?o\<rparr> els) (n + 1) = Inr (els1, n1)"
    using "2.prems"(1) i none room by (simp add: Let_def)
  define eff where "eff = replicate (nat n) \<lparr>eo_op = OpPut, eo_key = ?k, eo_value = v\<rparr>"
  define e where "e = \<lparr>eo_op = OpPut, eo_key = ?k, eo_value = v\<rparr>"
  have len: "length eff = nat n" by (simp add: eff_def)
  have "valid_element_key ?k l = Inr ()" using get_id_ok [OF i] "2.prems"(2) by (simp add: valid_element_key_def)
  then have ok: "element_op_ok l e" using i "2.prems"(3) by (simp add: element_op_ok_def e_def)
  have "put_order 0 els eff ?k = ?o" using none "2.prems"(4) len by (simp add: put_order_def)
  moreover have "loop_ok l 0 (AList.update (eo_key e) \<lparr>el_value = eo_value e, el_order = put_order 0 els eff (eo_key e)\<rparr> els)
    (AList.delete (eo_key e) []) (Suc (length eff))"
    by (rule loop_ok_put [OF _ ok]) (use "2.prems"(5) len in \<open>simp_all add: e_def\<close>)
  ultimately have "loop_ok l 0 (AList.update ?k \<lparr>el_value = v, el_order = ?o\<rparr> els) [] (Suc (nat n))"
    using len by (simp add: e_def)
  moreover have "nat (n + 1) = Suc (nat n)" using "2.prems"(4) by simp
  ultimately show ?case using "2.IH" [OF refl none room] rest "2.prems"(2,3,4) by simp
qed simp

text \<open>The arrays that are read are the ones deleted from the root.\<close>

lemma delete_absent: "map_of m k = None \<Longrightarrow> AList.delete k m = m"
  by (simp add: AList.delete_id map_of_eq_None_iff)

lemma map_of_strict:
  assumes "\<forall>(k, v) \<in> set m. strict_text l v" "map_of m k = Some v"
  shows "strict_text l v"
  using assms map_of_SomeD by fastforce

lemma delete_subset: "set (AList.delete k m) \<subseteq> set m"
  by (simp add: AList.delete_eq)

lemma parse_kinds_ok:
  assumes "parse_kinds l ks root els n = Inr (root1, els1)" "\<forall>k \<in> set ks. 0 \<le> kind_index k"
    and "\<forall>(k, v) \<in> set root. strict_text l v" "0 \<le> n" "loop_ok l 0 els [] (nat n)"
  shows "root1 = fold AList.delete ks root \<and> (\<exists>m. loop_ok l 0 els1 [] m)"
  using assms
proof (induction l ks root els n rule: parse_kinds.induct)
  case (2 l k ks root els n)
  show ?case
  proof (cases "map_of root k")
    case None
    then show ?thesis using "2.IH"(1) "2.prems" delete_absent [OF None] by simp
  next
    case (Some v)
    obtain vs els2 n2 where x: "array_of v = Inr vs" "parse_elements l k vs els n = Inr (els2, n2)"
      "parse_kinds l ks (AList.delete k root) els2 n2 = Inr (root1, els1)"
      using "2.prems"(1) Some by (auto simp: rbind_Inr_iff)
    have "\<forall>v \<in> set vs. strict_text l v" using strict_array [OF map_of_strict [OF "2.prems"(3) Some] x(1)] by blast
    then have e: "0 \<le> n2 \<and> loop_ok l 0 els2 [] (nat n2)"
      using parse_elements_ok [OF x(2)] "2.prems"(2,4,5) by simp
    have "\<forall>(k, v) \<in> set (AList.delete k root). strict_text l v" using "2.prems"(3) delete_subset [of k root] by blast
    then show ?thesis using "2.IH"(2) [OF Some, of els2 n2] x(3) e "2.prems"(2) by simp
  qed
qed auto

section \<open>Entries\<close>

lemma page_number_ok: "page_number s = Inr n \<Longrightarrow> 0 < n \<and> n \<le> 2147483647"
  by (auto simp: page_number_def split: option.splits if_splits)

lemma plain_literal:
  assumes "\<forall>c \<in> set b. 0x20 \<le> bv c \<and> c \<noteq> quote_char \<and> c \<noteq> CHR 0x5C"
  shows "json_chars b \<and> paired b"
  using assms by (induction b) (auto simp: json_chars.none json_chars.plain paired.simps [of "[]"] paired.simps [of "_ # _"])

lemma strict_state:
  assumes "limits_positive l"
  shows "strict_text l raw_hidden" "strict_text l raw_permanent"
proof -
  have r: "raw_hidden = raw_compact (RStr ''hidden'')" "raw_permanent = raw_compact (RStr ''permanent'')"
    by (simp_all add: raw_hidden_def raw_permanent_def)
  have ok: "strict_text l (raw_compact (RStr b))" if "json_chars b \<and> paired b" "valid_string (raw_compact (RStr b))" for b
  proof (rule strict_textI)
    have "renders 0 (RStr b) (raw_compact (RStr b))" using json_rules that(1) by simp
    then show "raw_ok (RStr b)" using renders_compact(1) renders_mono(1) unfolding raw_ok_def by blast
    show "strict_tree l (RStr b)" using assms that(1) by (simp add: strict_tree_def limits_positive_def)
  qed (rule that(2))
  show "strict_text l raw_hidden" "strict_text l raw_permanent"
    unfolding r by (rule ok [OF plain_literal]; simp)+
qed

lemma parse_pages_ok:
  assumes "parse_pages sc name vs seen ents = Inr ents1" "limits_positive l" "\<forall>v \<in> set vs. strict_text l v"
    and "distinct (map fst ents)" "\<forall>(k, v) \<in> set ents. entry_ok l k v"
  shows "distinct (map fst ents1) \<and> (\<forall>(k, v) \<in> set ents1. entry_ok l k v)"
  using assms
proof (induction sc name vs seen ents rule: parse_pages.induct)
  case (2 sc name v vs seen ents)
  obtain p family entry page where x: "page_entry name v = Inr (p, family, entry)" "page_number p = Inr page"
    using "2.prems"(1) by (auto simp: rbind_Inr_iff)
  let ?k = "\<lparr>nk_family = family, nk_page = page\<rparr>"
  have new: "\<not> page \<in> set seen"
    and room: "\<not> (int (length (AList.update ?k entry ents)) + int (length (sc_elements sc)) > al_max_elements (sc_limits sc))"
    and rest: "parse_pages sc name vs (page # seen) (AList.update ?k entry ents) = Inr ents1"
    using "2.prems"(1) x by (auto simp: Let_def split: if_split_asm)
  have v: "strict_text l v" using "2.prems"(3) by simp
  have "entry_ok l ?k entry"
  proof (cases "name = ''pdfPageTemplates''")
    case True
    then obtain obj where "object_of v = Inr obj" "p = (case map_of obj ''page'' of Some p \<Rightarrow> p | None \<Rightarrow> [])"
      "family = pdf_page_templates" "entry = v"
      using x(1) by (auto simp: page_entry_def rbind_Inr_iff)
    then show ?thesis using x(2) page_number_ok [OF x(2)] v
      by (simp add: entry_ok_def valid_entry_def pdf_page_state_def pdf_page_templates_def)
  next
    case False
    then have "family = pdf_page_state" "entry = raw_hidden \<or> entry = raw_permanent"
      using x(1) by (auto simp: page_entry_def split: if_splits)
    then show ?thesis using page_number_ok [OF x(2)] strict_state [OF "2.prems"(2)] by (auto simp: entry_ok_def valid_entry_def)
  qed
  then have "\<forall>(k, v) \<in> set (AList.update ?k entry ents). entry_ok l k v"
    using "2.prems"(5) by (auto simp: set_update [OF "2.prems"(4)])
  then show ?case using "2.IH" [OF new refl room] rest "2.prems"(2,3) am.keys_put [OF "2.prems"(4)] by simp
qed simp

lemma parse_page_arrays_ok:
  assumes "parse_page_arrays sc names root ents = Inr (root1, ents1)" "limits_positive l" "\<forall>(k, v) \<in> set root. strict_text l v"
    and "distinct (map fst ents)" "\<forall>(k, v) \<in> set ents. entry_ok l k v"
  shows "root1 = fold AList.delete names root \<and> distinct (map fst ents1) \<and> (\<forall>(k, v) \<in> set ents1. entry_ok l k v)"
  using assms
proof (induction sc names root ents rule: parse_page_arrays.induct)
  case (2 sc name names root ents)
  show ?case
  proof (cases "map_of root name")
    case None
    then show ?thesis using "2.IH"(1) "2.prems" delete_absent [OF None] by simp
  next
    case (Some v)
    obtain vs ents2 where x: "array_of v = Inr vs" "parse_pages sc name vs [] ents = Inr ents2"
      "parse_page_arrays sc names (AList.delete name root) ents2 = Inr (root1, ents1)"
      using "2.prems"(1) Some by (auto simp: rbind_Inr_iff)
    have "\<forall>v \<in> set vs. strict_text l v" using strict_array [OF map_of_strict [OF "2.prems"(3) Some] x(1)] by blast
    then have e: "distinct (map fst ents2) \<and> (\<forall>(k, v) \<in> set ents2. entry_ok l k v)"
      using parse_pages_ok [OF x(2) "2.prems"(2)] "2.prems"(4,5) by simp
    have "\<forall>(k, v) \<in> set (AList.delete name root). strict_text l v" using "2.prems"(3) delete_subset [of name root] by blast
    then show ?thesis using "2.IH"(2) [OF Some, of ents2] x(3) e "2.prems"(2) by simp
  qed
qed auto

section \<open>The file\<close>

lemma check_arrays_ok: "check_arrays root ks = Inr () \<Longrightarrow> k \<in> set ks \<Longrightarrow> map_of root k = Some v \<Longrightarrow> is_ok (array_of v)"
  by (induction root ks rule: check_arrays.induct) (auto simp: rbind_Inr_iff is_ok_def split: option.splits)

lemma annot_parseE:
  assumes "annot_parse b l0 = Inr sc"
  obtains l raw root root1 els root2 sc1 out where "annot_normalized l0 = Inr l" "strict_json l b (al_max_bytes l) = Inr raw"
    "object_of raw = Inr root" "map_of root ''strokes'' \<noteq> None" "parse_kinds l kinds root [] 0 = Inr (root1, els)"
    "parse_page_arrays ((new_sidecar l)\<lparr>sc_elements := els\<rparr>) page_arrays root1 [] = Inr (root2, sc_entries sc)"
    "check_arrays root2 [''appendedPages'', ''removedPages''] = Inr ()"
    "sc = (new_sidecar l)\<lparr>sc_elements := els, sc_entries := sc_entries sc, sc_meta := root2\<rparr>" "annot_marshal sc = Inr out"
proof -
  obtain l raw root where x: "annot_normalized l0 = Inr l" "strict_json l b (al_max_bytes l) = Inr raw" "object_of raw = Inr root"
    using assms unfolding annot_parse_def rbind_Inr_iff by blast
  note e = assms [unfolded annot_parse_def x rbind.simps]
  have s: "\<not> map_of root ''strokes'' = None"
  proof
    assume a: "map_of root ''strokes'' = None"
    show False using e unfolding if_P [OF a] by simp
  qed
  obtain y where y: "parse_kinds l kinds root [] 0 = Inr y" using e unfolding if_not_P [OF s] rbind_Inr_iff by blast
  obtain root1 els where k: "parse_kinds l kinds root [] 0 = Inr (root1, els)" using y by (cases y) blast
  obtain z where z: "parse_entries root1 ((new_sidecar l)\<lparr>sc_elements := els\<rparr>) = Inr z"
    using e unfolding if_not_P [OF s] k rbind.simps prod.case rbind_Inr_iff by blast
  obtain root2 sc1 where r: "parse_entries root1 ((new_sidecar l)\<lparr>sc_elements := els\<rparr>) = Inr (root2, sc1)" using z by (cases z) blast
  obtain u out where c: "check_arrays root2 [''appendedPages'', ''removedPages''] = Inr u" "annot_marshal (sc1\<lparr>sc_meta := root2\<rparr>) = Inr out"
    "Inr (sc1\<lparr>sc_meta := root2\<rparr>) = (Inr sc :: annot_error + sidecar)"
    using e unfolding if_not_P [OF s] k r rbind.simps prod.case Let_def rbind_Inr_iff by blast
  obtain ents where p: "parse_page_arrays ((new_sidecar l)\<lparr>sc_elements := els\<rparr>) page_arrays root1 [] = Inr (root2, ents)"
    "sc1 = (new_sidecar l)\<lparr>sc_elements := els, sc_entries := ents\<rparr>"
  proof -
    obtain y where y: "parse_page_arrays ((new_sidecar l)\<lparr>sc_elements := els\<rparr>) page_arrays root1 [] = Inr y"
      "(case y of (root1, ents) \<Rightarrow> Inr (root1, (new_sidecar l)\<lparr>sc_elements := els, sc_entries := ents\<rparr>)) = (Inr (root2, sc1) :: annot_error + _)"
      using r unfolding parse_entries_def rbind_Inr_iff by (auto simp only: new_sidecar_def sidecar.simps sidecar.update_convs)
    obtain ra ea where ra: "y = (ra, ea)" by (cases y)
    show thesis using that [of ea] y unfolding ra prod.case sum.inject prod.inject by blast
  qed
  have sc: "sc = (new_sidecar l)\<lparr>sc_elements := els, sc_entries := ents, sc_meta := root2\<rparr>" using c(3) p(2) by simp
  then have en: "sc_entries sc = ents" by simp
  have m: "annot_marshal sc = Inr out" using c(2,3) by simp
  have ch: "check_arrays root2 [''appendedPages'', ''removedPages''] = Inr ()" using c(1) by (cases u) (simp only: unit_eq)
  show thesis by (rule that [OF x s k _ ch _ m]) (use p(1) sc in \<open>simp_all add: en\<close>)
qed

lemma fold_delete_set: "distinct (map fst m) \<Longrightarrow> (k, v) \<in> set (fold AList.delete ks m) \<longleftrightarrow> k \<notin> set ks \<and> (k, v) \<in> set m"
  by (induction ks arbitrary: m) (auto simp: set_delete am.keys_del)

lemma parse_sidecar_ok:
  assumes "annot_parse b l0 = Inr sc"
  shows "sidecar_ok sc" and "sc_version sc = 0" and "sc_tombstones sc = []" and "annot_normalized l0 = Inr (sc_limits sc)"
    and "\<exists>m. loop_ok (sc_limits sc) 0 (sc_elements sc) [] m"
proof -
  obtain l raw root root1 els root2 sc1 out where x: "annot_normalized l0 = Inr l" "strict_json l b (al_max_bytes l) = Inr raw"
    "object_of raw = Inr root" "parse_kinds l kinds root [] 0 = Inr (root1, els)"
    "parse_page_arrays ((new_sidecar l)\<lparr>sc_elements := els\<rparr>) page_arrays root1 [] = Inr (root2, sc_entries sc)"
    "check_arrays root2 [''appendedPages'', ''removedPages''] = Inr ()"
    "sc = (new_sidecar l)\<lparr>sc_elements := els, sc_entries := sc_entries sc, sc_meta := root2\<rparr>"
    by (rule annot_parseE [OF assms]) blast
  have pos: "limits_positive l" using annot_normalized_pos [OF x(1)] by (simp add: limits_positive_def)
  have raw: "strict_text l raw" using strict_json_strict [OF x(2)] by blast
  note obj = strict_object [OF raw x(3)]
  have str: "\<forall>(k, v) \<in> set root. strict_text l v" using obj(2) by blast
  have k: "root1 = fold AList.delete kinds root \<and> (\<exists>m. loop_ok l 0 els [] m)"
    by (rule parse_kinds_ok [OF x(4) _ str]) (simp_all add: kinds_def loop_ok_def orders_ok_def tombstones_ok_def)
  have d1: "distinct (map fst root1)" using k fold_del_ok [OF obj(1), of "\<lambda>_ _. True"] by simp
  have "\<forall>(k, v) \<in> set root1. strict_text l v" using k str fold_delete_set [OF obj(1)] by blast
  then have p: "root2 = fold AList.delete page_arrays root1 \<and> distinct (map fst (sc_entries sc)) \<and> (\<forall>(k, v) \<in> set (sc_entries sc). entry_ok l k v)"
    using parse_page_arrays_ok [OF x(5) pos] by simp
  have d2: "distinct (map fst root2)" using p fold_del_ok [OF d1, of "\<lambda>_ _. True"] by simp
  have "meta_ok l key v" if m: "(key, v) \<in> set root2" for key v
  proof -
    have r: "(key, v) \<in> set root" "key \<notin> set kinds" "key \<notin> set page_arrays"
      using m p k fold_delete_set [OF d1] fold_delete_set [OF obj(1)] by blast+
    have "\<not> 0 \<le> kind_index key" using r(2) kind_index_cases by blast
    then have "\<not> reserved key" using r(3) by (auto simp: reserved_def page_arrays_def)
    moreover have "is_ok (array_of v)" if "structural key"
      by (rule check_arrays_ok [OF x(6), of key]) (use that m d2 in \<open>auto simp: structural_def\<close>)
    ultimately show ?thesis using obj(2) [OF r(1)] by (simp add: meta_ok_def)
  qed
  then have meta: "\<forall>(key, v) \<in> set root2. meta_ok l key v" by blast
  have lim: "sc_limits sc = l" and els: "sc_elements sc = els" and ver: "sc_version sc = 0" and tomb: "sc_tombstones sc = []"
    and mt: "sc_meta sc = root2" by (subst x(7), simp add: new_sidecar_def)+
  show "sc_version sc = 0" "sc_tombstones sc = []" "annot_normalized l0 = Inr (sc_limits sc)" using ver tomb x(1) lim by simp_all
  show "\<exists>m. loop_ok (sc_limits sc) 0 (sc_elements sc) [] m" using k lim els by simp
  then show "sidecar_ok sc" using pos p d2 meta by (auto simp: sidecar_ok_def loop_ok_def lim els ver tomb mt)
qed

section \<open>The durable form\<close>

lemma check_state_key_ok: "check_state_key raw l = Inr k \<Longrightarrow> valid_element_key k l = Inr ()"
  unfolding check_state_key_def by (auto simp: rbind_Inr_iff split: sum.splits option.splits if_split_asm)

lemma state_fields_ok: "state_fields raw names l = Inr (obj, k) \<Longrightarrow> valid_element_key k l = Inr ()"
  unfolding state_fields_def using check_state_key_ok
  by (auto simp: rbind_Inr_iff split: sum.splits if_split_asm)

lemma state_key_kind: "state_fields raw names l = Inr (obj, k) \<Longrightarrow> valid_kind k"
  using state_fields_ok valid_element_kind by blast

definition order_within :: "annot_limits \<Rightarrow> int \<Rightarrow> order_key \<Rightarrow> bool" where
  "order_within l version x \<longleftrightarrow> 0 \<le> ok_version x \<and> ok_version x \<le> version \<and> 0 \<le> ok_ordinal x
     \<and> ok_ordinal x < max (al_max_ops l) (al_max_elements l)"

text \<open>The table assigns orders to increasing keys; orders assigned are pairwise different.\<close>

definition table_ok :: "annot_limits \<Rightarrow> int \<Rightarrow> element_key option \<Rightarrow> order_key list \<Rightarrow> (element_key \<times> order_key) list \<Rightarrow> bool" where
  "table_ok l version prev seen t \<longleftrightarrow> sorted_wrt (<) (map (key_rank \<circ> fst) t)
     \<and> (case prev of None \<Rightarrow> True | Some p \<Rightarrow> \<forall>(k, x) \<in> set t. key_rank p < key_rank k)
     \<and> distinct (map snd t) \<and> (\<forall>(k, x) \<in> set t. x \<notin> set seen \<and> order_within l version x)"

definition with_orders :: "(element_key \<times> order_key) list \<Rightarrow> (element_key \<times> element) list \<Rightarrow> (element_key \<times> element) list" where
  "with_orders t els = map (\<lambda>(k, e). (k, case map_of t k of Some x \<Rightarrow> e\<lparr>el_order := x\<rparr> | None \<Rightarrow> e)) els"

lemma update_present:
  "distinct (map fst m) \<Longrightarrow> map_of m k = Some v \<Longrightarrow> AList.update k w m = map (\<lambda>(k', v'). (k', if k' = k then w else v')) m"
proof (induction m)
  case (Cons p m)
  obtain k1 v1 where p: "p = (k1, v1)" by (cases p)
  show ?case
  proof (cases "k1 = k")
    case True
    then have "k \<notin> fst ` set m" using Cons.prems(1) p by auto
    then have "map (\<lambda>(k', v'). (k', if k' = k then w else v')) m = m" by (intro map_idI) (auto simp: image_iff)
    then show ?thesis using True p by simp
  next
    case False
    then show ?thesis using Cons p by simp
  qed
qed simp

lemma decode_orders_table:
  assumes "decode_orders l version raws prev seen els = Inr els1" "distinct (map fst els)"
    and "case prev of None \<Rightarrow> True | Some p \<Rightarrow> valid_kind p"
  shows "\<exists>t. length t = length raws \<and> table_ok l version prev seen t \<and> fst ` set t \<subseteq> fst ` set els \<and> els1 = with_orders t els"
  using assms
proof (induction l version raws prev seen els rule: decode_orders.induct)
  case (1 l version prev seen els)
  then show ?case by (intro exI [of _ "[]"]) (simp add: table_ok_def with_orders_def split: option.splits)
next
  case (2 l version raw raws prev seen els)
  obtain y where y: "state_fields raw [''key'', ''version'', ''ordinal''] l = Inr y"
    using "2.prems"(1) unfolding decode_orders.simps rbind_Inr_iff by blast
  obtain obj key where f: "state_fields raw [''key'', ''version'', ''ordinal''] l = Inr (obj, key)" using y by (cases y) blast
  note e = "2.prems"(1) [unfolded decode_orders.simps f rbind.simps prod.case]
  obtain v n where vn: "int_field obj ''version'' = Some v" "int_field obj ''ordinal'' = Some n"
    using e by (cases "int_field obj ''version''"; cases "int_field obj ''ordinal''") simp_all
  note e1 = e [unfolded vn option.case prod.case]
  have pk: "\<not> (case prev of Some p \<Rightarrow> compare_element p key \<ge> 0 | None \<Rightarrow> False)"
  proof
    assume a: "case prev of Some p \<Rightarrow> compare_element p key \<ge> 0 | None \<Rightarrow> False"
    show False using e1 unfolding if_P [OF a] by simp
  qed
  note e2 = e1 [unfolded if_not_P [OF pk]]
  obtain x where x: "map_of els key = Some x" using e2 by (cases "map_of els key") simp_all
  note e3 = e2 [unfolded x option.case]
  let ?o = "\<lparr>ok_version = v, ok_ordinal = n\<rparr>"
  have b: "\<not> (v < 0 \<or> v > version \<or> n < 0 \<or> n \<ge> max (al_max_ops l) (al_max_elements l))" and new: "\<not> (?o \<in> set seen)"
    and rest: "decode_orders l version raws (Some key) (?o # seen) (AList.update key (x\<lparr>el_order := ?o\<rparr>) els) = Inr els1"
    using e3 by (simp_all add: Let_def split: if_split_asm)
  have kind: "valid_kind key" by (rule state_key_kind [OF f])
  have up: "AList.update key (x\<lparr>el_order := ?o\<rparr>) els = map (\<lambda>(k', v'). (k', if k' = key then x\<lparr>el_order := ?o\<rparr> else v')) els"
    by (rule update_present [OF "2.prems"(2) x])
  then have keys: "map fst (AList.update key (x\<lparr>el_order := ?o\<rparr>) els) = map fst els" by (simp add: o_def case_prod_beta)
  obtain t where t: "length t = length raws" "table_ok l version (Some key) (?o # seen) t" "fst ` set t \<subseteq> fst ` set els"
    "els1 = with_orders t (AList.update key (x\<lparr>el_order := ?o\<rparr>) els)"
    using "2.IH" [OF refl vn pk x b refl new rest] keys "2.prems"(2) kind unfolding set_map [symmetric] by auto
  show ?case
  proof (intro exI [of _ "(key, ?o) # t"] conjI)
    have after: "\<forall>(k, y) \<in> set t. key_rank key < key_rank k" using t(2) by (simp add: table_ok_def)
    then have nk: "map_of t key = None" by (auto simp: map_of_eq_None_iff)
    have "key_rank p < key_rank key" if "prev = Some p" for p
      using pk compare_element_rank(2) [of p key] "2.prems"(3) kind that by (simp add: not_le)
    then have "case prev of None \<Rightarrow> True | Some p \<Rightarrow> \<forall>(k, y) \<in> set ((key, ?o) # t). key_rank p < key_rank k"
      using after by (auto split: option.splits intro: less_trans)
    moreover have "sorted_wrt (<) (map (key_rank \<circ> fst) ((key, ?o) # t))" using after t(2) by (auto simp: table_ok_def)
    moreover have "distinct (map snd ((key, ?o) # t))" using t(2) by (auto simp: table_ok_def)
    moreover have "\<forall>(k, y) \<in> set ((key, ?o) # t). y \<notin> set seen \<and> order_within l version y"
      using t(2) new b by (auto simp: table_ok_def order_within_def)
    ultimately show "table_ok l version prev seen ((key, ?o) # t)" unfolding table_ok_def by blast
    show "fst ` set ((key, ?o) # t) \<subseteq> fst ` set els" using t(3) map_of_SomeD [OF x] by force
    have "x = v'" if "(key, v') \<in> set els" for v' using x map_of_is_SomeI [OF "2.prems"(2) that] by simp
    then have "AList.update key (x\<lparr>el_order := ?o\<rparr>) els = map (\<lambda>(k', v'). (k', if k' = key then v'\<lparr>el_order := ?o\<rparr> else v')) els"
      unfolding up by (auto intro!: map_cong)
    then show "els1 = with_orders ((key, ?o) # t) els" unfolding t(4) with_orders_def using nk by (auto split: option.splits)
  qed (simp add: t(1))
qed

lemma table_keys:
  assumes "table_ok l version prev seen t"
  shows "distinct (map fst t)"
proof -
  have "sorted_wrt (<) (map key_rank (map fst t))" using assms by (simp add: table_ok_def)
  then have "distinct (map key_rank (map fst t))" using strict_sorted_iff by blast
  then show ?thesis by (simp only: distinct_map)
qed

text \<open>A table of full length assigns every element its own order.\<close>

lemma with_orders_ok:
  assumes t: "table_ok l version prev seen t" "length t = length els" "fst ` set t \<subseteq> fst ` set els" and d: "distinct (map fst els)"
  shows "map fst (with_orders t els) = map fst els" "orders_ok version (with_orders t els)"
    and "(k, e) \<in> set (with_orders t els) \<Longrightarrow> \<exists>e'. (k, e') \<in> set els \<and> el_value e = el_value e'"
proof -
  note dt = table_keys [OF t(1)]
  show keys: "map fst (with_orders t els) = map fst els" by (simp add: with_orders_def o_def case_prod_beta)
  have "card (fst ` set t) = card (fst ` set els)" using distinct_card [OF dt] distinct_card [OF d] t(2) by simp
  then have all: "fst ` set t = fst ` set els" using t(3) by (intro card_subset_eq) simp_all
  have el: "\<exists>e' x. (k, e') \<in> set els \<and> map_of t k = Some x \<and> e = e'\<lparr>el_order := x\<rparr>" if ke: "(k, e) \<in> set (with_orders t els)" for k e
  proof -
    obtain e' where e': "(k, e') \<in> set els" "e = (case map_of t k of Some x \<Rightarrow> e'\<lparr>el_order := x\<rparr> | None \<Rightarrow> e')"
      using ke by (auto simp: with_orders_def)
    have "k \<in> fst ` set t" unfolding all using e'(1) by (metis fst_conv imageI)
    then obtain x where "map_of t k = Some x" using map_of_eq_None_iff [of t k] by auto
    then show ?thesis using e' by auto
  qed
  then show "\<exists>e'. (k, e') \<in> set els \<and> el_value e = el_value e'" if "(k, e) \<in> set (with_orders t els)" using that by fastforce
  have bounds: "0 \<le> ok_version (el_order e) \<and> ok_version (el_order e) \<le> version \<and> 0 \<le> ok_ordinal (el_order e)"
    if ke: "(k, e) \<in> set (with_orders t els)" for k e
  proof -
    obtain e' x where x: "map_of t k = Some x" "e = e'\<lparr>el_order := x\<rparr>" using el [OF ke] by blast
    have "order_within l version x" using t(1) map_of_SomeD [OF x(1)] by (auto simp: table_ok_def)
    then show ?thesis using x(2) by (simp add: order_within_def)
  qed
  have same: "k = k'" if a: "(k, e) \<in> set (with_orders t els)" "(k', e') \<in> set (with_orders t els)" "el_order e = el_order e'" for k e k' e'
  proof -
    obtain f x where x: "map_of t k = Some x" "e = f\<lparr>el_order := x\<rparr>" using el [OF a(1)] by blast
    obtain f' x' where x': "map_of t k' = Some x'" "e' = f'\<lparr>el_order := x'\<rparr>" using el [OF a(2)] by blast
    have eq: "x = x'" using a(3) x(2) x'(2) by simp
    have "inj_on snd (set t)" using t(1) by (simp add: table_ok_def distinct_map)
    then have "(k, x) = (k', x')" using inj_onD [of snd "set t" "(k, x)" "(k', x')"] map_of_SomeD [OF x(1)] map_of_SomeD [OF x'(1)] eq by simp
    then show ?thesis by simp
  qed
  have dk: "distinct (map fst (with_orders t els))" using keys d by simp
  have "distinct (map (el_order \<circ> snd) (with_orders t els))" unfolding distinct_snd_iff [OF dk] using same by blast
  then show "orders_ok version (with_orders t els)" unfolding orders_ok_def using dk bounds by blast
qed

lemma decode_tombstones_ok:
  assumes "decode_tombstones l version els raws prev tombs = Inr tombs1" "tombstones_ok l version els tombs"
  shows "tombstones_ok l version els tombs1"
  using assms
proof (induction l version els raws prev tombs rule: decode_tombstones.induct)
  case (2 l version els raw raws prev tombs)
  obtain y where y: "state_fields raw [''key'', ''version''] l = Inr y"
    using "2.prems"(1) unfolding decode_tombstones.simps rbind_Inr_iff by blast
  obtain obj key where f: "state_fields raw [''key'', ''version''] l = Inr (obj, key)" using y by (cases y) blast
  note e = "2.prems"(1) [unfolded decode_tombstones.simps f rbind.simps prod.case]
  obtain v where v: "int_field obj ''version'' = Some v" using e by (cases "int_field obj ''version''") simp_all
  note e1 = e [unfolded v option.case]
  have pk: "\<not> (case prev of Some p \<Rightarrow> compare_element p key \<ge> 0 | None \<Rightarrow> False)"
  proof
    assume a: "case prev of Some p \<Rightarrow> compare_element p key \<ge> 0 | None \<Rightarrow> False"
    show False using e1 unfolding if_P [OF a] by simp
  qed
  have b: "\<not> (v \<le> 0 \<or> v > version)" and none: "\<not> map_of els key \<noteq> None"
    and rest: "decode_tombstones l version els raws (Some key) (AList.update key v tombs) = Inr tombs1"
    using e1 unfolding if_not_P [OF pk] by (simp_all split: if_split_asm)
  have d: "distinct (map fst tombs)" using "2.prems"(2) by (simp add: tombstones_ok_def)
  have nk: "key \<notin> fst ` set els" using none by (simp add: map_of_eq_None_iff)
  have old: "\<forall>(k, t) \<in> set tombs. valid_element_key k l = Inr () \<and> k \<notin> fst ` set els \<and> 0 < t \<and> t \<le> version"
    using "2.prems"(2) unfolding tombstones_ok_def by blast
  have "valid_element_key k l = Inr () \<and> k \<notin> fst ` set els \<and> 0 < t \<and> t \<le> version"
    if kt: "(k, t) \<in> set (AList.update key v tombs)" for k t
  proof (cases "k = key")
    case True
    then have "t = v" using kt set_update [OF d] by blast
    then show ?thesis using True nk b state_fields_ok [OF f] by simp
  next
    case False
    then have "(k, t) \<in> set tombs" using kt set_update [OF d] by blast
    then show ?thesis using old by blast
  qed
  then have "tombstones_ok l version els (AList.update key v tombs)" using am.keys_put [OF d] unfolding tombstones_ok_def by blast
  then show ?case using "2.IH" [OF v pk b none rest] by simp
qed simp

lemma decode_stateE:
  assumes "decode_state_with H b l0 = Inr sc"
  obtains l content version original orders els raws tombs out where "annot_normalized l0 = Inr l" "0 \<le> version"
    "annot_parse content l = Inr original" "length orders = length (sc_elements original)"
    "decode_orders l version orders None [] (sc_elements original) = Inr els"
    "decode_tombstones l version els raws None [] = Inr tombs"
    "sc = original\<lparr>sc_version := version, sc_elements := els, sc_tombstones := tombs\<rparr>"
    "canonical_hash H original = canonical_hash H sc" "encode_state sc = Inr out"
proof -
  obtain l compact root u where x: "annot_normalized l0 = Inr l"
    "strict_json (l\<lparr>al_max_depth := al_max_depth l + 2, al_max_nodes := al_max_state_bytes l\<rparr>) b (al_max_state_bytes l) = Inr compact"
    "object_of compact = Inr root"
    using assms unfolding decode_state_with_def rbind_Inr_iff by blast
  note e = assms [unfolded decode_state_with_def x rbind.simps]
  have five: "\<not> length root \<noteq> 5"
  proof
    assume a: "length root \<noteq> 5"
    show False using e unfolding if_P [OF a] by simp
  qed
  obtain u where u: "only_fields root [''v'', ''version'', ''content'', ''order'', ''tombstones''] = Inr u"
    using e unfolding if_not_P [OF five] rbind_Inr_iff by blast
  note e1 = e [unfolded if_not_P [OF five] u rbind.simps]
  have one: "\<not> field_text root ''v'' \<noteq> ''1''"
  proof
    assume a: "field_text root ''v'' \<noteq> ''1''"
    show False using e1 unfolding if_P [OF a] by simp
  qed
  obtain version where v: "parse_int64 (field_text root ''version'') = Some version"
    using e1 unfolding if_not_P [OF one] by (cases "parse_int64 (field_text root ''version'')") simp_all
  note e2 = e1 [unfolded if_not_P [OF one] v option.case]
  have pos: "\<not> version < 0"
  proof
    assume a: "version < 0"
    show False using e2 unfolding if_P [OF a] by simp
  qed
  obtain original where o: "annot_parse (field_text root ''content'') l = Inr original"
    using e2 unfolding if_not_P [OF pos] rbind_Inr_iff by blast
  note e3 = e2 [unfolded if_not_P [OF pos] o rbind.simps]
  obtain orders where os: "array_of (field_text root ''order'') = Inr orders" using e3 by (cases "array_of (field_text root ''order'')") simp_all
  note e4 = e3 [unfolded os sum.case]
  have len: "\<not> length orders \<noteq> length (sc_elements original)"
  proof
    assume a: "length orders \<noteq> length (sc_elements original)"
    show False using e4 unfolding if_P [OF a] by simp
  qed
  obtain els raws where y: "decode_orders l version orders None [] (sc_elements original) = Inr els" "array_of (field_text root ''tombstones'') = Inr raws"
    using e4 unfolding if_not_P [OF len] rbind_Inr_iff by blast
  note e5 = e4 [unfolded if_not_P [OF len] y rbind.simps]
  have few: "\<not> int (length raws) > al_max_tombstones l"
  proof
    assume a: "int (length raws) > al_max_tombstones l"
    show False using e5 unfolding if_P [OF a] by simp
  qed
  obtain tombs where t: "decode_tombstones l version els raws None [] = Inr tombs" using e5 unfolding if_not_P [OF few] rbind_Inr_iff by blast
  note e6 = e5 [unfolded if_not_P [OF few] t rbind.simps Let_def]
  have h: "\<not> canonical_hash H original \<noteq> canonical_hash H (original\<lparr>sc_version := version, sc_elements := els, sc_tombstones := tombs\<rparr>)"
  proof
    assume a: "canonical_hash H original \<noteq> canonical_hash H (original\<lparr>sc_version := version, sc_elements := els, sc_tombstones := tombs\<rparr>)"
    show False using e6 unfolding if_P [OF a] by simp
  qed
  obtain out where out: "encode_state (original\<lparr>sc_version := version, sc_elements := els, sc_tombstones := tombs\<rparr>) = Inr out"
    "Inr (original\<lparr>sc_version := version, sc_elements := els, sc_tombstones := tombs\<rparr>) = (Inr sc :: annot_error + sidecar)"
    using e6 unfolding if_not_P [OF h] rbind_Inr_iff by blast
  show thesis by (rule that [OF x(1) _ o _ y(1) t]) (use pos len h out in simp_all)
qed

lemma normalized_again: "annot_normalized l0 = Inr l \<Longrightarrow> annot_normalized l = Inr l"
  using annot_normalized_pos [of l0 l] by (simp add: annot_normalized_def optional_limit_def Let_def)

lemma decode_sidecar_ok:
  assumes "decode_state_with H b l0 = Inr sc"
  shows "sidecar_ok sc"
proof -
  obtain l content version original orders els raws tombs where x: "annot_normalized l0 = Inr l" "0 \<le> version"
    "annot_parse content l = Inr original" "length orders = length (sc_elements original)"
    "decode_orders l version orders None [] (sc_elements original) = Inr els"
    "decode_tombstones l version els raws None [] = Inr tombs"
    "sc = original\<lparr>sc_version := version, sc_elements := els, sc_tombstones := tombs\<rparr>"
    by (rule decode_stateE [OF assms]) blast
  note p = parse_sidecar_ok [OF x(3)]
  have lim: "sc_limits original = l" using p(4) normalized_again [OF x(1)] by simp
  have d: "distinct (map fst (sc_elements original))" using p(1) by (simp add: sidecar_ok_def orders_ok_def)
  obtain t where t: "length t = length orders" "table_ok l version None [] t" "fst ` set t \<subseteq> fst ` set (sc_elements original)"
    "els = with_orders t (sc_elements original)"
    using decode_orders_table [OF x(5) d] by auto
  note w = with_orders_ok [OF t(2) _ t(3) d, folded t(4)]
  have len: "length t = length (sc_elements original)" using t(1) x(4) by simp
  have el: "element_ok l k (el_value e)" if "(k, e) \<in> set els" for k e
    using w(3) [OF len that] p(1) lim by (auto simp: sidecar_ok_def)
  have "tombstones_ok l version els tombs"
    by (rule decode_tombstones_ok [OF x(6)]) (simp add: tombstones_ok_def)
  then show ?thesis using p(1) w(2) [OF len] el x(2) lim unfolding sidecar_ok_def x(7) by auto
qed

lemma prune_sidecar_ok: "sidecar_ok sc \<Longrightarrow> sidecar_ok (prune_tombstones sc n)"
  using sidecar_ok_configured [of sc]
  by (auto simp: sidecar_ok_def prune_tombstones_def tombstones_ok_def Let_def distinct_map_filter)

section \<open>Reachable sidecars\<close>

inductive sidecar_reachable :: "(string \<Rightarrow> string) \<Rightarrow> sidecar \<Rightarrow> bool" for H where
  fresh: "sidecar_reachable H empty_sidecar"
| parsed: "annot_parse b l = Inr sc \<Longrightarrow> sidecar_reachable H sc"
| decoded: "decode_state H b l = Inr sc \<Longrightarrow> sidecar_reachable H sc"
| applied: "sidecar_reachable H sc \<Longrightarrow> ops_map ops \<Longrightarrow> annot_apply sc ops at = Inr r \<Longrightarrow> sidecar_reachable H (ar_sidecar r)"
| pruned: "sidecar_reachable H sc \<Longrightarrow> sidecar_reachable H (prune_tombstones sc n)"

lemma empty_sidecar_ok: "sidecar_ok empty_sidecar"
  by (simp add: sidecar_ok_def empty_sidecar_def new_sidecar_def limits_positive_def annot_default_limits_def orders_ok_def tombstones_ok_def)

lemma reachable_sidecar_ok: "sidecar_reachable H sc \<Longrightarrow> sidecar_ok sc"
proof (induction rule: sidecar_reachable.induct)
  case (parsed b l sc)
  then show ?case by (rule parse_sidecar_ok(1))
next
  case (decoded b l sc)
  then show ?case using decode_sidecar_ok [of H b l sc] by (auto simp: decode_state_def split: sum.splits)
next
  case (applied sc ops at r)
  then show ?case using apply_sidecar_ok by blast
next
  case (pruned sc n)
  show ?case by (rule prune_sidecar_ok [OF pruned.IH])
qed (rule empty_sidecar_ok)

end
