(* ===== verification/Annot_Effects.thy ===== *)
theory Annot_Effects
  imports Annot_Parsed
begin

text \<open>
  What \<open>Apply\<close> (\<^verbatim>\<open>internal/core/annot/apply.go\<close>) does to each key: it implements one
  remove-wins register per element, tombstones are never lost, and the effective
  operations it reports can be applied in its place.
\<close>

section \<open>A register per key\<close>

datatype key_state = Absent | Live string | Dead int

definition key_state :: "sidecar \<Rightarrow> element_key \<Rightarrow> key_state" where
  "key_state sc k =
    (case map_of (sc_tombstones sc) k of Some t \<Rightarrow> Dead t
     | None \<Rightarrow> (case map_of (sc_elements sc) k of Some e \<Rightarrow> Live (el_value e) | None \<Rightarrow> Absent))"

text \<open>One operation on the register of \<open>k\<close>: a put never revives a dead key, unless the whole document is replaced.\<close>

definition key_step :: "bool \<Rightarrow> int \<Rightarrow> element_key \<Rightarrow> element_op \<Rightarrow> key_state \<Rightarrow> key_state" where
  "key_step replace at k e s =
    (if eo_key e \<noteq> k then s
     else case eo_op e of
       OpPut \<Rightarrow> (case s of Dead t \<Rightarrow> if replace then Live (eo_value e) else Dead t | _ \<Rightarrow> Live (eo_value e))
     | OpDel \<Rightarrow> Dead at
     | OpOther _ \<Rightarrow> s)"

text \<open>A replacement first kills every element.\<close>

definition key_start :: "bool \<Rightarrow> int \<Rightarrow> key_state \<Rightarrow> key_state" where
  "key_start replace at s = (if replace then (case s of Live _ \<Rightarrow> Dead at | _ \<Rightarrow> s) else s)"

definition pair_state :: "(element_key \<times> element) list \<Rightarrow> (element_key \<times> int) list \<Rightarrow> element_key \<Rightarrow> key_state" where
  "pair_state els tombs k = (case map_of tombs k of Some t \<Rightarrow> Dead t
     | None \<Rightarrow> (case map_of els k of Some e \<Rightarrow> Live (el_value e) | None \<Rightarrow> Absent))"

lemma key_state_pair: "key_state sc k = pair_state (sc_elements sc) (sc_tombstones sc) k"
  by (simp add: key_state_def pair_state_def)

lemma pair_state_put:
  assumes "eo_op e = OpPut" "\<not> (map_of tombs (eo_key e) \<noteq> None \<and> \<not> r)" "el_value x = eo_value e"
  shows "pair_state (AList.update (eo_key e) x els) (AList.delete (eo_key e) tombs) k = key_step r at k e (pair_state els tombs k)"
  using assms by (auto simp: pair_state_def key_step_def am.get_put_same am.get_del_same split: option.splits)

lemma pair_state_del:
  assumes "eo_op e = OpDel"
  shows "pair_state (AList.delete (eo_key e) els) (AList.update (eo_key e) at tombs) k = key_step r at k e (pair_state els tombs k)"
  using assms by (auto simp: pair_state_def key_step_def am.get_put_same am.get_del_same split: option.splits)

lemma pair_state_dropped:
  assumes "eo_op e = OpPut" "map_of tombs (eo_key e) \<noteq> None \<and> \<not> r"
  shows "key_step r at k e (pair_state els tombs k) = pair_state els tombs k"
  using assms by (auto simp: pair_state_def key_step_def)

lemma apply_elements_states:
  "apply_elements r at es els tombs eff dr = (els1, tombs1, eff1, dr1) \<Longrightarrow>
     pair_state els1 tombs1 k = fold (key_step r at k) es (pair_state els tombs k)"
proof (induction es els tombs eff dr rule: apply_elements_induct [where r = r and at = at])
  case (dropped e es els tombs eff dr)
  then show ?case using pair_state_dropped [OF dropped.hyps] by (simp add: apply_elements_dropped del: not_None_eq)
next
  case (put e es els tombs eff dr)
  then show ?case
    using pair_state_put [OF put.hyps, of "\<lparr>el_value = eo_value e, el_order = put_order at els eff (eo_key e)\<rparr>"] by (simp add: apply_elements_put del: not_None_eq)
next
  case (del e es els tombs eff dr)
  then show ?case using pair_state_del [OF del.hyps] by (simp add: apply_elements_del)
next
  case (noop e es els tombs eff dr n)
  then show ?case by (simp add: apply_elements_noop key_step_def)
qed simp

lemma fold_tombs: "map_of (fold (\<lambda>k. AList.update k at) ks m) k = (if k \<in> set ks then Some at else map_of m k)"
  by (induction ks arbitrary: m) (auto simp: am.get_put_same)

lemma start_state:
  assumes "sidecar_ok head"
  shows "pair_state (sc_elements (apply_start r at head)) (sc_tombstones (apply_start r at head)) k = key_start r at (key_state head k)"
proof (cases r)
  case False
  then show ?thesis by (simp add: key_start_def pair_state_def key_state_def apply_start_def)
next
  case True
  have mem: "k \<in> set (ordered_elements head) \<longleftrightarrow> map_of (sc_elements head) k \<noteq> None"
    by (simp add: ordered_elements_def map_of_eq_None_iff)
  have dead: "map_of (sc_elements head) k = None" if t: "map_of (sc_tombstones head) k = Some t" for t
  proof -
    have "tombstones_ok (sc_limits head) (sc_version head) (sc_elements head) (sc_tombstones head)" using assms by (simp add: sidecar_ok_def)
    then have "k \<notin> fst ` set (sc_elements head)" using map_of_SomeD [OF t] by (auto simp: tombstones_ok_def)
    then show ?thesis by (simp add: map_of_eq_None_iff)
  qed
  have ts: "map_of (sc_tombstones (apply_start r at head)) k
      = (if map_of (sc_elements head) k \<noteq> None then Some at else map_of (sc_tombstones head) k)"
    using True mem by (simp add: apply_start_def fold_tombs del: not_None_eq)
  show ?thesis
  proof (cases "map_of (sc_tombstones head) k")
    case None
    then show ?thesis using True ts by (cases "map_of (sc_elements head) k") (simp_all add: key_start_def pair_state_def key_state_def)
  next
    case (Some t)
    then show ?thesis using True ts dead [OF Some] by (simp add: key_start_def pair_state_def key_state_def)
  qed
qed

lemma apply_states:
  assumes "sidecar_ok head" "annot_apply head ops at = Inr r"
  shows "\<exists>c. checked_ops ops (sc_limits head) (ao_replace ops) = Inr c \<and> ao_replace c = ao_replace ops
    \<and> (\<forall>k. key_state (ar_sidecar r) k = fold (key_step (ao_replace c) at k) (ao_elements c) (key_start (ao_replace c) at (key_state head k)))"
proof -
  obtain c where c: "checked_ops ops (sc_limits head) (ao_replace ops) = Inr c"
    "apply_checked at c head = (ar_sidecar r, ar_effective r, ar_dropped r)"
    by (rule annot_applyE [OF assms(2,1)]) auto
  let ?s = "apply_start (ao_replace c) at head"
  obtain els tombs xs where a: "apply_elements (ao_replace c) at (ao_elements c) (sc_elements ?s) (sc_tombstones ?s) [] [] = (els, tombs, xs, ar_dropped r)"
    "ar_sidecar r = ?s\<lparr>sc_elements := els, sc_tombstones := tombs, sc_entries := fold apply_entry (ao_entries c) (sc_entries ?s),
       sc_meta := apply_meta c (sc_meta ?s)\<rparr>"
    by (rule apply_checkedE [OF c(2)]) auto
  have "key_state (ar_sidecar r) k = pair_state els tombs k" for k unfolding key_state_pair a(2) by simp
  then have "key_state (ar_sidecar r) k = fold (key_step (ao_replace c) at k) (ao_elements c) (key_start (ao_replace c) at (key_state head k))" for k
    using apply_elements_states [OF a(1), of k] start_state [OF assms(1), of "ao_replace c" at k] by simp
  moreover have "ao_replace c = ao_replace ops"
    by (rule checked_opsE [OF c(1)]) simp
  ultimately show ?thesis using c(1) by blast
qed

section \<open>Deletions last\<close>

definition dead_since :: "int \<Rightarrow> key_state \<Rightarrow> bool" where
  "dead_since v s \<longleftrightarrow> (case s of Dead t \<Rightarrow> v \<le> t | _ \<Rightarrow> False)"

lemma key_steps_dead: "dead_since v s \<Longrightarrow> v \<le> at \<Longrightarrow> dead_since v (fold (key_step False at k) es s)"
proof (induction es arbitrary: s)
  case (Cons e es)
  then have "dead_since v (key_step False at k e s)"
    by (auto simp: key_step_def dead_since_def split: key_state.splits op_kind.splits)
  then show ?case using Cons by simp
qed simp

text \<open>A history of commits: each operation set at its version, over what the one before left.\<close>

fun annot_commits :: "sidecar \<Rightarrow> (annot_ops \<times> int) list \<Rightarrow> annot_error + sidecar" where
  "annot_commits sc [] = Inr sc"
| "annot_commits sc ((ops, at) # cs) = rbind (annot_apply sc ops at) (\<lambda>r. annot_commits (ar_sidecar r) cs)"

lemma commits_keep_dead:
  assumes "annot_commits sc cs = Inr sc1" "sidecar_ok sc" "\<forall>(ops, at) \<in> set cs. ops_map ops \<and> \<not> ao_replace ops"
    and "key_state sc k = Dead t"
  shows "\<exists>t1 \<ge> t. key_state sc1 k = Dead t1"
proof -
  have "dead_since t (key_state sc1 k)" if "dead_since t (key_state sc k)"
    using assms(1-3) that
  proof (induction sc cs rule: annot_commits.induct)
    case (2 sc ops at cs)
    obtain r where r: "annot_apply sc ops at = Inr r" "annot_commits (ar_sidecar r) cs = Inr sc1"
      using "2.prems"(1) by (auto simp: rbind_Inr_iff)
    have m: "ops_map ops" "\<not> ao_replace ops" using "2.prems"(3) by auto
    obtain c where c: "checked_ops ops (sc_limits sc) (ao_replace ops) = Inr c" "ao_replace c = ao_replace ops"
      "\<forall>k. key_state (ar_sidecar r) k = fold (key_step (ao_replace c) at k) (ao_elements c) (key_start (ao_replace c) at (key_state sc k))"
      using apply_states [OF "2.prems"(2) r(1)] by blast
    obtain x where x: "key_state sc k = Dead x" "t \<le> x" using "2.prems"(4) by (auto simp: dead_since_def split: key_state.splits)
    have "x \<le> sc_version sc"
    proof -
      have "map_of (sc_tombstones sc) k = Some x" using x(1) by (auto simp: key_state_def split: option.splits)
      then show ?thesis using "2.prems"(2) map_of_SomeD by (fastforce simp: sidecar_ok_def tombstones_ok_def)
    qed
    moreover have "sc_version sc < at" by (rule annot_applyE [OF r(1) "2.prems"(2)])
    ultimately have "dead_since t (key_state (ar_sidecar r) k)"
      using key_steps_dead [of t "key_state sc k" at k] "2.prems"(4) x(2) c(2,3) m(2) by (simp add: key_start_def)
    then show ?case using "2.IH" [OF r(2)] apply_sidecar_ok [OF "2.prems"(2) m(1) r(1)] "2.prems"(3) by simp
  qed simp
  then show ?thesis using assms(4) by (auto simp: dead_since_def split: key_state.splits)
qed

section \<open>Replaying what took effect\<close>

lemma checked_sorted: 
  assumes "checked_ops ops l t = Inr c" "ops_map ops"
  shows "sorted_members (ao_meta_put c) = ao_meta_put c"
  using checked_ops_ok(1) [OF assms] by (intro sorted_members_id) (simp_all add: ops_ok_def)

lemma effective_checked:
  assumes "sidecar_ok head" "ops_map ops" "checked_ops ops (sc_limits head) (ao_replace ops) = Inr c"
    and "apply_checked at c head = (s, eff, dr)"
  shows "checked_ops eff (sc_limits head) (ao_replace ops) = Inr eff" "ao_replace eff = ao_replace ops"
    and "apply_checked at eff head = (s, eff, [])"
proof -
  note ok = checked_ops_ok [OF assms(3,2)]
  let ?s = "apply_start (ao_replace c) at head"
  obtain els tombs xs where a: "apply_elements (ao_replace c) at (ao_elements c) (sc_elements ?s) (sc_tombstones ?s) [] [] = (els, tombs, xs, dr)"
    "s = ?s\<lparr>sc_elements := els, sc_tombstones := tombs, sc_entries := fold apply_entry (ao_entries c) (sc_entries ?s),
       sc_meta := apply_meta c (sc_meta ?s)\<rparr>" "eff = c\<lparr>ao_elements := xs\<rparr>"
    by (rule apply_checkedE [OF assms(4)])
  define P where "P e \<longleftrightarrow> \<not> suppressed (ao_replace c) (sc_tombstones ?s) e" for e
  have "distinct (map eo_key (ao_elements c))" using ok(1) by (simp add: ops_ok_def)
  then have xs: "xs = filter P (ao_elements c)"
    using apply_elements_lists [OF a(1), of "sc_tombstones ?s"] unfolding P_def by simp
  have "checked_ops (c\<lparr>ao_elements := filter P (ao_elements c)\<rparr>) (sc_limits head) (ao_replace ops)
      = Inr (c\<lparr>ao_elements := filter P (ao_elements c)\<rparr>)"
    by (rule checked_ops_again [OF assms(3,2)]) (simp add: P_def suppressed_def)
  then show "checked_ops eff (sc_limits head) (ao_replace ops) = Inr eff" unfolding a(3) xs .
  show "ao_replace eff = ao_replace ops" using a(3) ok(8) by simp
  obtain ys where ys: "xs = [] @ ys" "\<forall>dr2. apply_elements (ao_replace c) at ys (sc_elements ?s) (sc_tombstones ?s) [] dr2 = (els, tombs, xs, dr2)"
    using apply_elements_replay [OF a(1)] by blast
  then have replay: "apply_elements (ao_replace c) at xs (sc_elements ?s) (sc_tombstones ?s) [] [] = (els, tombs, xs, [])" by simp
  show "apply_checked at eff head = (s, eff, [])"
    unfolding apply_checked_def Let_def using replay by (simp add: a(2,3) apply_meta_def)
qed

lemma effective_apply:
  assumes "sidecar_ok head" "ops_map ops" "annot_apply head ops at = Inr r"
  shows "annot_apply head (ar_effective r) at = Inr (r\<lparr>ar_dropped := []\<rparr>)"
proof -
  obtain c raw st where c: "sc_version head < at" "ao_replace ops \<or> \<not> requires_whole_document head"
    "checked_ops ops (sc_limits head) (ao_replace ops) = Inr c"
    "apply_checked at c head = (ar_sidecar r, ar_effective r, ar_dropped r)"
    "int (length (sc_elements (ar_sidecar r))) + int (length (sc_entries (ar_sidecar r))) \<le> al_max_elements (sc_limits (ar_sidecar r))"
    "int (length (sc_tombstones (ar_sidecar r))) \<le> al_max_tombstones (sc_limits (ar_sidecar r))"
    "annot_marshal (ar_sidecar r) = Inr raw"
    "is_ok (strict_json (sc_limits (ar_sidecar r)) raw (al_max_bytes (sc_limits (ar_sidecar r))))"
    "encode_state (ar_sidecar r) = Inr st"
    by (rule annot_applyE [OF assms(3,1)])
  note e = effective_checked [OF assms(1,2) c(3,4)]
  obtain x where x: "strict_json (sc_limits (ar_sidecar r)) raw (al_max_bytes (sc_limits (ar_sidecar r))) = Inr x"
    using c(8) by (auto simp: is_ok_def split: sum.splits)
  have v: "\<not> at \<le> sc_version head" and w: "\<not> (\<not> ao_replace ops \<and> requires_whole_document head)" using c(1,2) by auto
  have n: "\<not> (int (length (sc_elements (ar_sidecar r))) + int (length (sc_entries (ar_sidecar r))) > al_max_elements (sc_limits (ar_sidecar r))
     \<or> int (length (sc_tombstones (ar_sidecar r))) > al_max_tombstones (sc_limits (ar_sidecar r)))" using c(5,6) by simp
  show ?thesis
    unfolding annot_apply_def sidecar_ok_configured [OF assms(1)] Let_def e if_not_P [OF v] if_not_P [OF w] rbind.simps prod.case
      if_not_P [OF n] c(7,9) x by simp
qed

end
