(* ===== verification/Annot_Content.thy ===== *)
theory Annot_Content
  imports Annot_Effects
begin

text \<open>
  The content of a sidecar: the file depends only on it (\<^verbatim>\<open>internal/core/annot/model.go\<close>),
  \<open>Diff\<close> followed by \<open>Apply\<close> reproduces it, and so do the operations of \<open>ReplaceOps\<close>, in the
  same order (\<^verbatim>\<open>diff.go\<close>, \<^verbatim>\<open>apply.go\<close>).
\<close>

section \<open>The file is a function of the content\<close>

definition same_map :: "('k \<times> 'v) list \<Rightarrow> ('k \<times> 'v) list \<Rightarrow> bool" where
  "same_map m m' \<longleftrightarrow> map_of m = map_of m' \<and> distinct (map fst m) \<and> distinct (map fst m')"

lemma same_map_put: "same_map m m' \<Longrightarrow> same_map (AList.update k v m) (AList.update k v m')"
  unfolding same_map_def am.get_put using am.keys_put by metis

lemma same_map_del: "same_map m m' \<Longrightarrow> same_map (AList.delete k m) (AList.delete k m')"
  unfolding same_map_def am.get_del using am.keys_del by metis

lemma write_known_cong:
  "same_map m m' \<Longrightarrow> snd (write_known ks m out) = snd (write_known ks m' out)
    \<and> same_map (fst (write_known ks m out)) (fst (write_known ks m' out))"
proof (induction ks arbitrary: m m' out)
  case (Cons k ks)
  have eq: "map_of m k = map_of m' k" using Cons.prems by (simp add: same_map_def)
  show ?case
  proof (cases "map_of m' k")
    case None
    then show ?thesis using Cons.IH [OF Cons.prems] eq by simp
  next
    case (Some v)
    then show ?thesis using Cons.IH [OF same_map_del [OF Cons.prems]] eq by simp
  qed
qed simp

lemma map_of_keys:
  assumes "same_map m m'"
  shows "sort (map fst m) = sort (map fst m')"
proof -
  have "set (map fst m) = set (map fst m')" using assms am.keys_dom unfolding same_map_def by metis
  then show ?thesis using assms sort_key_set_eq [of "map fst m" "map fst m'" "\<lambda>x. x"] by (simp add: same_map_def)
qed

definition root_text :: "(string \<times> string) list \<Rightarrow> string" where
  "root_text m = (case write_known top_level_keys m ''{'' of (root, out) \<Rightarrow> fold (append_key root) (sort (map fst root)) out @ ''}'')"

lemma root_text_cong:
  assumes "same_map m m'"
  shows "root_text m = root_text m'"
proof -
  note w = write_known_cong [OF assms, of top_level_keys "''{''"]
  obtain r out where r: "write_known top_level_keys m ''{'' = (r, out)" by (cases "write_known top_level_keys m ''{''")
  obtain r' out' where r': "write_known top_level_keys m' ''{'' = (r', out')" by (cases "write_known top_level_keys m' ''{''")
  have e: "out = out'" "same_map r r'" using w r r' by simp_all
  have "append_key r = append_key r'" using e(2) by (intro ext) (simp add: append_key_def same_map_def)
  then show ?thesis using map_of_keys [OF e(2)] by (simp add: root_text_def r r' e(1))
qed

definition kind_values :: "sidecar \<Rightarrow> (string \<times> string list) list" where
  "kind_values sc = map (\<lambda>kind. (kind, element_values sc kind)) kinds"

definition same_content :: "sidecar \<Rightarrow> sidecar \<Rightarrow> bool" where
  "same_content a b \<longleftrightarrow> kind_values a = kind_values b \<and> map_of (sc_entries a) = map_of (sc_entries b)
     \<and> map_of (sc_meta a) = map_of (sc_meta b)"

lemma fold_kinds_cong:
  "\<forall>k \<in> set ks. f k = g k \<Longrightarrow> same_map m m' \<Longrightarrow>
     same_map (fold (\<lambda>k root. AList.update k (f k) root) ks m) (fold (\<lambda>k root. AList.update k (g k) root) ks m')"
proof (induction ks arbitrary: m m')
  case (Cons k ks)
  have "f k = g k" "\<forall>k \<in> set ks. f k = g k" using Cons.prems(1) by simp_all
  then show ?case using Cons.IH [OF _ same_map_put [OF Cons.prems(2), of k "g k"]] by simp
qed simp

text \<open>The maps of a sidecar have distinct keys, and its limits are set.\<close>

definition sidecar_maps :: "sidecar \<Rightarrow> bool" where
  "sidecar_maps sc \<longleftrightarrow> 0 < al_max_bytes (sc_limits sc) \<and> distinct (map fst (sc_entries sc)) \<and> distinct (map fst (sc_meta sc))"

lemma sidecar_ok_maps: "sidecar_ok sc \<Longrightarrow> sidecar_maps sc"
  by (simp add: sidecar_ok_def limits_positive_def sidecar_maps_def)

lemma annot_marshal_cong:
  assumes "sidecar_maps a" "sidecar_maps b" "same_content a b" "sc_limits a = sc_limits b"
  shows "annot_marshal a = annot_marshal b"
proof -
  have conf: "configured a = a" "configured b = b" using assms(1,2) by (simp_all add: sidecar_maps_def configured_id)
  have de: "distinct (map fst (sc_entries a))" "distinct (map fst (sc_entries b))" using assms(1,2) by (simp_all add: sidecar_maps_def)
  have dm: "distinct (map fst (sc_meta a))" "distinct (map fst (sc_meta b))" using assms(1,2) by (simp_all add: sidecar_maps_def)
  have me: "map_of (sc_entries a) = map_of (sc_entries b)" and mm: "map_of (sc_meta a) = map_of (sc_meta b)"
    and mv: "\<forall>k \<in> set kinds. element_values a k = element_values b k"
    using assms(3) by (simp_all add: same_content_def kind_values_def)
  have ents: "sorted_entries (sc_entries a) = sorted_entries (sc_entries b)" by (rule sorted_entries_cong [OF de me])
  have "entry_value a = entry_value b" by (intro ext) (simp add: entry_value_def me)
  then have p: "page_values a = page_values b" and t: "template_values a = template_values b"
    by (intro ext, simp add: page_values_def ents, simp add: template_values_def ents)
  have "\<forall>k \<in> set kinds. raw_array (element_values a k) = raw_array (element_values b k)" using mv by simp
  note f = fold_kinds_cong [OF this, of "sc_meta a" "sc_meta b"]
  have "same_map (sc_meta a) (sc_meta b)" using dm mm by (simp add: same_map_def)
  then have "same_map (marshal_root a) (marshal_root b)"
    unfolding marshal_root_def p t by (intro same_map_put f)
  then have "marshal_compact a = marshal_compact b" using root_text_cong by (simp add: marshal_compact_def root_text_def)
  then show ?thesis
    unfolding annot_marshal_def Let_def conf assms(4) by (simp only:)
qed

lemma sidecar_marshal_cong:
  "sidecar_ok a \<Longrightarrow> sidecar_ok b \<Longrightarrow> same_content a b \<Longrightarrow> sc_limits a = sc_limits b \<Longrightarrow> annot_marshal a = annot_marshal b"
  using annot_marshal_cong sidecar_ok_maps by blast

section \<open>Checking strict operations changes nothing\<close>

lemma strict_json_same: "strict_json l s m = Inr out \<Longrightarrow> strict_text l s \<Longrightarrow> out = s"
  using strict_json_id [of l s m] strict_json_strict [of l s m out] by simp

lemma check_elements_same:
  "check_elements l m seen d b es = Inr (out, b1) \<Longrightarrow> \<forall>e \<in> set es. eo_op e = OpPut \<longrightarrow> strict_text l (eo_value e) \<Longrightarrow> out = es"
proof (induction l m seen d b es arbitrary: out b1 rule: check_elements.induct)
  case (2 l m seen d b e es)
  obtain b2 e1 d1 es1 where x: "eo_key e \<notin> set seen" "check_element l m d e = Inr (e1, d1)"
    "check_elements l m (eo_key e # seen) d1 b2 es = Inr (es1, b1)" "out = e1 # es1"
    using "2.prems"(1) by (auto simp: sum_split split: if_split_asm)
  have "e1 = e"
  proof (cases "eo_op e")
    case OpPut
    then obtain raw where "strict_json l (eo_value e) m = Inr raw" "e1 = e\<lparr>eo_value := raw\<rparr>"
      using x(2) by (auto simp: check_element_def sum_split split: if_split_asm)
    then show ?thesis using strict_json_same OpPut "2.prems"(2) by simp
  qed (use x(2) in \<open>auto simp: check_element_def split: if_split_asm\<close>)
  then show ?case using "2.IH" [OF x(1,3)] "2.prems"(2) x(4) by simp
qed simp

lemma check_entries_same:
  "check_entries l m prev b es = Inr (out, b1) \<Longrightarrow> \<forall>e \<in> set es. no_op e = OpPut \<longrightarrow> strict_text l (no_value e) \<Longrightarrow> out = es"
proof (induction l m prev b es arbitrary: out b1 rule: check_entries.induct)
  case (2 l m prev b e es)
  obtain b2 e1 es1 where x: "\<not> (case prev of Some p \<Rightarrow> compare_entry p (no_key e) \<ge> 0 | None \<Rightarrow> False)" "check_entry l m e = Inr e1"
    "check_entries l m (Some (no_key e)) b2 es = Inr (es1, b1)" "out = e1 # es1"
    using "2.prems"(1) by (auto simp: sum_split split: if_split_asm)
  have "e1 = e"
  proof (cases "no_op e")
    case OpPut
    then obtain raw where "strict_json l (no_value e) m = Inr raw" "e1 = e\<lparr>no_value := raw\<rparr>"
      using x(2) by (auto simp: check_entry_def sum_split)
    then show ?thesis using strict_json_same OpPut "2.prems"(2) by simp
  qed (use x(2) in \<open>auto simp: check_entry_def sum_split split: if_split_asm\<close>)
  then show ?case using "2.IH" [OF x(1,3)] "2.prems"(2) x(4) by simp
qed simp

lemma check_meta_puts_same:
  "check_meta_puts l m r b ms = Inr (out, b1) \<Longrightarrow> \<forall>(k, v) \<in> set ms. strict_text l v \<Longrightarrow> out = ms"
proof (induction l m r b ms arbitrary: out b1 rule: check_meta_puts.induct)
  case (2 l m r b key v ms)
  obtain b2 raw out1 where x: "\<not> (\<not> valid_string key \<or> reserved key)" "\<not> (structural key \<and> \<not> r)" "strict_json l v m = Inr raw"
    "\<not> (structural key \<and> \<not> is_ok (array_of raw))" "check_meta_puts l m r b2 ms = Inr (out1, b1)" "out = (key, raw) # out1"
    using "2.prems"(1) by (auto simp: sum_split split: if_split_asm)
  then show ?case using "2.IH" [OF x(1,2,4,5)] strict_json_same [OF x(3)] "2.prems"(2) by simp
qed simp

definition ops_strict :: "annot_limits \<Rightarrow> annot_ops \<Rightarrow> bool" where
  "ops_strict l o1 \<longleftrightarrow> (\<forall>e \<in> set (ao_elements o1). eo_op e = OpPut \<longrightarrow> strict_text l (eo_value e))
     \<and> (\<forall>e \<in> set (ao_entries o1). no_op e = OpPut \<longrightarrow> strict_text l (no_value e))
     \<and> (\<forall>(k, v) \<in> set (ao_meta_put o1). strict_text l v)
     \<and> sorted (map fst (ao_meta_put o1)) \<and> distinct (map fst (ao_meta_put o1))"

lemma checked_ops_same:
  assumes "checked_ops o1 l t = Inr c" "ops_strict l o1"
  shows "c = o1"
proof -
  obtain m es b1 ns b2 ps b3 b4 where x: 
    "check_elements l m [] None m (ao_elements o1) = Inr (es, b1)"
    "check_entries l m None b1 (ao_entries o1) = Inr (ns, b2)"
    "check_meta_puts l m (ao_replace o1) b2 (sorted_members (ao_meta_put o1)) = Inr (ps, b3)"
    "c = \<lparr>ao_elements = es, ao_entries = ns, ao_meta_put = ps, ao_meta_del = ao_meta_del o1, ao_replace = ao_replace o1\<rparr>"
    by (rule checked_opsE [OF assms(1)]) blast
  have "sorted_members (ao_meta_put o1) = ao_meta_put o1" using assms(2) by (intro sorted_members_id) (simp_all add: ops_strict_def)
  then have "ps = ao_meta_put o1" using check_meta_puts_same [OF x(3)] assms(2) by (simp add: ops_strict_def)
  moreover have "es = ao_elements o1" using check_elements_same [OF x(1)] assms(2) by (simp add: ops_strict_def)
  moreover have "ns = ao_entries o1" using check_entries_same [OF x(2)] assms(2) by (simp add: ops_strict_def)
  ultimately show ?thesis by (simp add: x(4))
qed

section \<open>What a difference contains\<close>

lemma map_filter_keys:
  "List.map_filter (\<lambda>k. map_option (h k) (f k)) ks = map (\<lambda>k. h k (the (f k))) (filter (\<lambda>k. f k \<noteq> None) ks)"
  by (induction ks) (auto simp: List.map_filter_def)

definition put_value :: "sidecar \<Rightarrow> sidecar \<Rightarrow> bool \<Rightarrow> element_key \<Rightarrow> string option" where
  "put_value base cur replace k = (case map_of (sc_elements cur) k of None \<Rightarrow> None
     | Some e \<Rightarrow> if replace \<or> map_option el_value (map_of (sc_elements base) k) \<noteq> Some (el_value e) then Some (el_value e) else None)"

lemma diff_element_puts_eq:
  "diff_element_puts base cur replace = map (\<lambda>k. \<lparr>eo_op = OpPut, eo_key = k, eo_value = the (put_value base cur replace k)\<rparr>)
     (filter (\<lambda>k. put_value base cur replace k \<noteq> None) (ordered_elements cur))"
proof -
  have "(\<lambda>k. case map_of (sc_elements cur) k of None \<Rightarrow> None
      | Some e \<Rightarrow> if replace \<or> (case map_of (sc_elements base) k of None \<Rightarrow> True | Some old \<Rightarrow> el_value old \<noteq> el_value e)
        then Some \<lparr>eo_op = OpPut, eo_key = k, eo_value = el_value e\<rparr> else None)
    = (\<lambda>k. map_option (\<lambda>v. \<lparr>eo_op = OpPut, eo_key = k, eo_value = v\<rparr>) (put_value base cur replace k))"
    by (intro ext) (simp add: put_value_def split: option.splits)
  then show ?thesis unfolding diff_element_puts_def by (simp only: map_filter_keys)
qed

definition entry_change :: "sidecar \<Rightarrow> sidecar \<Rightarrow> bool \<Rightarrow> entry_key \<Rightarrow> string option option" where
  "entry_change base cur replace k = (case map_of (sc_entries cur) k of None \<Rightarrow> Some None
     | Some v \<Rightarrow> if replace \<or> map_of (sc_entries base) k \<noteq> Some v then Some (Some v) else None)"

definition entry_op_of :: "entry_key \<Rightarrow> string option \<Rightarrow> entry_op" where
  "entry_op_of k x = (case x of None \<Rightarrow> \<lparr>no_op = OpDel, no_key = k, no_value = []\<rparr> | Some v \<Rightarrow> \<lparr>no_op = OpPut, no_key = k, no_value = v\<rparr>)"

definition entry_keys :: "sidecar \<Rightarrow> sidecar \<Rightarrow> entry_key list" where
  "entry_keys base cur = sorted_entries (fold (\<lambda>(k, v). AList.update k v) (sc_entries cur) (sc_entries base))"

lemma diff_entries_eq:
  "diff_entries base cur replace = map (\<lambda>k. entry_op_of k (the (entry_change base cur replace k)))
     (filter (\<lambda>k. entry_change base cur replace k \<noteq> None) (entry_keys base cur))"
proof -
  have "(\<lambda>k. case map_of (sc_entries cur) k of None \<Rightarrow> Some \<lparr>no_op = OpDel, no_key = k, no_value = []\<rparr>
      | Some v \<Rightarrow> if replace \<or> map_of (sc_entries base) k \<noteq> Some v then Some \<lparr>no_op = OpPut, no_key = k, no_value = v\<rparr> else None)
    = (\<lambda>k. map_option (entry_op_of k) (entry_change base cur replace k))"
    by (intro ext) (simp add: entry_change_def entry_op_of_def split: option.splits)
  then show ?thesis unfolding diff_entries_def entry_keys_def [symmetric] by (simp only: map_filter_keys)
qed

definition meta_change :: "sidecar \<Rightarrow> sidecar \<Rightarrow> bool \<Rightarrow> string \<Rightarrow> string option" where
  "meta_change base cur replace key = (case map_of (sc_meta cur) key of None \<Rightarrow> None
     | Some v \<Rightarrow> if masked_key replace key then None
       else if replace \<or> map_option (masked_meta key) (map_of (sc_meta base) key) \<noteq> Some (masked_meta key v) then Some v else None)"

lemma diff_meta_puts_eq:
  "diff_meta_puts base cur replace = map (\<lambda>k. (k, the (meta_change base cur replace k)))
     (filter (\<lambda>k. meta_change base cur replace k \<noteq> None) (sort (map fst (sc_meta cur))))"
proof -
  have "(\<lambda>key. case map_of (sc_meta cur) key of None \<Rightarrow> None
      | Some v \<Rightarrow> if masked_key replace key then None
        else if replace \<or> (case map_of (sc_meta base) key of None \<Rightarrow> True | Some old \<Rightarrow> masked_meta key old \<noteq> masked_meta key v)
        then Some (key, v) else None)
    = (\<lambda>key. map_option (Pair key) (meta_change base cur replace key))"
    by (intro ext) (simp add: meta_change_def split: option.splits)
  then show ?thesis unfolding diff_meta_puts_def by (simp only: map_filter_keys)
qed

lemma map_of_map_pair: "map_of (map (\<lambda>k. (k, g k)) ks) k = (if k \<in> set ks then Some (g k) else None)"
  by (induction ks) auto

lemma diff_meta_puts_map:
  "map_of (diff_meta_puts base cur replace) = meta_change base cur replace"
proof
  fix k
  have "k \<in> set (map fst (sc_meta cur))" if "meta_change base cur replace k \<noteq> None"
  proof -
    have "map_of (sc_meta cur) k \<noteq> None" using that by (auto simp: meta_change_def split: option.splits)
    then show ?thesis by (simp add: map_of_eq_None_iff)
  qed
  then show "map_of (diff_meta_puts base cur replace) k = meta_change base cur replace k"
    unfolding diff_meta_puts_eq map_of_map_pair by (cases "meta_change base cur replace k") simp_all
qed

lemma difference_strict:
  assumes "sidecar_ok cur" "sc_limits cur = l"
  shows "ops_strict l (annot_difference base cur replace)" "ops_map (annot_difference base cur replace)"
proof -
  have v: "strict_text l (el_value e)" if "map_of (sc_elements cur) k = Some e" for k e
    using map_of_SomeD [OF that] assms by (auto simp: sidecar_ok_def element_ok_def)
  have n: "strict_text l x" if "map_of (sc_entries cur) k = Some x" for k x
    using map_of_SomeD [OF that] assms by (auto simp: sidecar_ok_def entry_ok_def)
  have m: "strict_text l x" if "map_of (sc_meta cur) k = Some x" for k x
    using map_of_SomeD [OF that] assms by (auto simp: sidecar_ok_def meta_ok_def)
  have pv: "strict_text l x" if "put_value base cur replace k = Some x" for k x
    using that v by (auto simp: put_value_def split: option.splits if_splits)
  have ev: "strict_text l x" if "entry_change base cur replace k = Some (Some x)" for k x
    using that n by (auto simp: entry_change_def split: option.splits if_splits)
  have mv: "strict_text l x" if "meta_change base cur replace k = Some x" for k x
    using that m by (auto simp: meta_change_def split: option.splits if_splits)
  have d: "distinct (map fst (sc_meta cur))" using assms(1) by (simp add: sidecar_ok_def)
  have keys: "map fst (diff_meta_puts base cur replace) = filter (\<lambda>k. meta_change base cur replace k \<noteq> None) (sort (map fst (sc_meta cur)))"
    by (simp add: diff_meta_puts_eq o_def)
  have srt: "sorted (map fst (diff_meta_puts base cur replace))" "distinct (map fst (diff_meta_puts base cur replace))"
    unfolding keys using d by (simp_all add: sorted_filter [of "\<lambda>x. x", simplified])
  show "ops_map (annot_difference base cur replace)" using srt by (simp add: ops_map_def annot_difference_def)
  have els: "\<forall>e \<in> set (diff_element_puts base cur replace @ diff_element_dels base cur). eo_op e = OpPut \<longrightarrow> strict_text l (eo_value e)"
    using pv by (auto simp: diff_element_puts_eq diff_element_dels_def)
  have ents: "strict_text l (no_value e)" if e: "e \<in> set (diff_entries base cur replace)" "no_op e = OpPut" for e
  proof -
    obtain k where k: "e = entry_op_of k (the (entry_change base cur replace k))" "entry_change base cur replace k \<noteq> None"
      using e(1) unfolding diff_entries_eq by auto
    then obtain x where x: "entry_change base cur replace k = Some x" by blast
    then show ?thesis using k(1) e(2) ev by (cases x) (auto simp: entry_op_of_def)
  qed
  have meta: "\<forall>(k, v) \<in> set (diff_meta_puts base cur replace). strict_text l v" using mv by (auto simp: diff_meta_puts_eq)
  show "ops_strict l (annot_difference base cur replace)"
    using els ents meta srt by (simp add: ops_strict_def annot_difference_def)
qed

section \<open>What a difference does\<close>

lemma fold_entries_effect:
  "distinct (map no_key es) \<Longrightarrow> map_of (fold apply_entry es m) k =
     (case map_of (map (\<lambda>e. (no_key e, e)) es) k of None \<Rightarrow> map_of m k
      | Some e \<Rightarrow> (case no_op e of OpPut \<Rightarrow> Some (no_value e) | OpDel \<Rightarrow> None | OpOther _ \<Rightarrow> map_of m k))"
proof (induction es arbitrary: m)
  case (Cons e es)
  have "map_of (map (\<lambda>e. (no_key e, e)) es) (no_key e) = None" using Cons.prems by (auto simp: map_of_eq_None_iff)
  then show ?case using Cons by (auto simp: apply_entry_def am.get_put_same am.get_del_same split: op_kind.splits option.splits)
qed simp

lemma entry_op_of_key [simp]: "no_key (entry_op_of k x) = k"
  by (cases x) (simp_all add: entry_op_of_def)

lemma map_of_map_key: "(\<And>k. f (g k) = k) \<Longrightarrow> map_of (map (\<lambda>e. (f e, e)) (map g ks)) k = (if k \<in> set ks then Some (g k) else None)"
  by (induction ks) auto

lemma entry_keys_set:
  assumes "distinct (map fst (sc_entries base))" "distinct (map fst (sc_entries cur))"
  shows "distinct (entry_keys base cur)" and "k \<in> set (entry_keys base cur) \<longleftrightarrow> map_of (sc_entries base) k \<noteq> None \<or> map_of (sc_entries cur) k \<noteq> None"
proof -
  let ?m = "fold (\<lambda>(k, v). AList.update k v) (sc_entries cur) (sc_entries base)"
  have m: "map_of ?m = map_of (sc_entries base) ++ map_of (sc_entries cur)" by (rule am.get_fold_put_distinct [OF assms(2)])
  show "distinct (entry_keys base cur)" using am.keys_fold_put [OF assms(1)] by (simp add: entry_keys_def sorted_entries_def)
  have "k \<in> set (entry_keys base cur) \<longleftrightarrow> k \<in> dom (map_of ?m)"
    unfolding am.keys_dom [symmetric] entry_keys_def sorted_entries_def by simp
  then show "k \<in> set (entry_keys base cur) \<longleftrightarrow> map_of (sc_entries base) k \<noteq> None \<or> map_of (sc_entries cur) k \<noteq> None"
    unfolding m by auto
qed

lemma diff_entries_effect:
  assumes d: "distinct (map fst (sc_entries base))" "distinct (map fst (sc_entries cur))"
    and m: "map_of m = (if replace then Map.empty else map_of (sc_entries base))"
  shows "map_of (fold apply_entry (diff_entries base cur replace) m) = map_of (sc_entries cur)"
proof
  fix k
  let ?ks = "filter (\<lambda>k. entry_change base cur replace k \<noteq> None) (entry_keys base cur)"
  let ?g = "\<lambda>k. entry_op_of k (the (entry_change base cur replace k))"
  have "map no_key (diff_entries base cur replace) = ?ks" by (simp add: diff_entries_eq o_def)
  then have dis: "distinct (map no_key (diff_entries base cur replace))" using entry_keys_set(1) [OF d] by simp
  have find: "map_of (map (\<lambda>e. (no_key e, e)) (diff_entries base cur replace)) k = (if k \<in> set ?ks then Some (?g k) else None)"
    unfolding diff_entries_eq by (rule map_of_map_key) simp
  have mem: "k \<in> set ?ks \<longleftrightarrow> (map_of (sc_entries base) k \<noteq> None \<or> map_of (sc_entries cur) k \<noteq> None) \<and> entry_change base cur replace k \<noteq> None"
    using entry_keys_set(2) [OF d, of k] by auto
  show "map_of (fold apply_entry (diff_entries base cur replace) m) k = map_of (sc_entries cur) k"
    unfolding fold_entries_effect [OF dis] find mem
    by (cases "map_of (sc_entries cur) k"; cases "map_of (sc_entries base) k") (auto simp: entry_change_def entry_op_of_def m)
qed

lemma apply_meta_map:
  assumes "distinct (map fst (ao_meta_put c))"
  shows "map_of (apply_meta c m) k = (if k \<in> set (ao_meta_del c) then None
    else case map_of (ao_meta_put c) k of Some v \<Rightarrow> Some v | None \<Rightarrow> map_of m k)"
proof -
  have "distinct (map fst (sorted_members (ao_meta_put c)))" using assms by (simp add: sorted_members_map(2))
  then show ?thesis unfolding apply_meta_def am.get_fold_del
    by (simp add: am.get_fold_put_distinct sorted_members_map(1) map_add_def split: option.split)
qed

lemma diff_meta_dels_set:
  "k \<in> set (diff_meta_dels base cur replace) \<longleftrightarrow> map_of (sc_meta base) k \<noteq> None \<and> \<not> masked_key replace k \<and> map_of (sc_meta cur) k = None"
proof -
  have "k \<in> fst ` set (sc_meta base) \<longleftrightarrow> map_of (sc_meta base) k \<noteq> None" by (simp add: map_of_eq_None_iff)
  then show ?thesis by (auto simp: diff_meta_dels_def)
qed

lemma diff_element_dels_set:
  "k \<in> eo_key ` set (diff_element_dels base cur) \<longleftrightarrow> map_of (sc_elements base) k \<noteq> None \<and> map_of (sc_elements cur) k = None"
proof -
  have "k \<in> fst ` set (sc_elements base) \<longleftrightarrow> map_of (sc_elements base) k \<noteq> None" by (simp add: map_of_eq_None_iff)
  then show ?thesis by (auto simp: diff_element_dels_def image_iff)
qed

lemma put_value_present: "put_value base cur replace k \<noteq> None \<Longrightarrow> map_of (sc_elements cur) k \<noteq> None"
  by (auto simp: put_value_def split: option.splits)

lemma difference_element_keys:
  assumes "distinct (map fst (sc_elements base))" "distinct (map fst (sc_elements cur))"
  shows "distinct (map eo_key (diff_element_puts base cur replace @ diff_element_dels base cur))"
proof -
  have p: "map eo_key (diff_element_puts base cur replace) = filter (\<lambda>k. put_value base cur replace k \<noteq> None) (ordered_elements cur)"
    by (simp add: diff_element_puts_eq o_def)
  have d: "distinct (map eo_key (diff_element_puts base cur replace))" unfolding p using assms(2) by (simp add: ordered_elements_def)
  have e: "distinct (map eo_key (diff_element_dels base cur))" using assms(1) by (simp add: diff_element_dels_def o_def)
  have "k \<notin> eo_key ` set (diff_element_dels base cur)" if "k \<in> set (map eo_key (diff_element_puts base cur replace))" for k
    using that put_value_present [of base cur replace k] diff_element_dels_set [of k base cur] unfolding p by auto
  then show ?thesis using d e by (auto simp: image_iff)
qed

lemma fold_key_steps:
  "distinct (map eo_key es) \<Longrightarrow> fold (key_step r at k) es s =
     (case map_of (map (\<lambda>e. (eo_key e, e)) es) k of None \<Rightarrow> s | Some e \<Rightarrow> key_step r at k e s)"
proof (induction es arbitrary: s)
  case (Cons e es)
  have "map_of (map (\<lambda>e. (eo_key e, e)) es) (eo_key e) = None" using Cons.prems by (auto simp: map_of_eq_None_iff)
  then show ?case using Cons by (auto simp: key_step_def)
qed simp

text \<open>The operation a difference has on a key.\<close>

lemma difference_find:
  assumes "distinct (map fst (sc_elements base))" "distinct (map fst (sc_elements cur))"
  shows "map_of (map (\<lambda>e. (eo_key e, e)) (diff_element_puts base cur replace @ diff_element_dels base cur)) k =
    (case put_value base cur replace k of Some v \<Rightarrow> Some \<lparr>eo_op = OpPut, eo_key = k, eo_value = v\<rparr>
     | None \<Rightarrow> if map_of (sc_elements base) k \<noteq> None \<and> map_of (sc_elements cur) k = None
         then Some \<lparr>eo_op = OpDel, eo_key = k, eo_value = []\<rparr> else None)"
proof -
  have puts: "map_of (map (\<lambda>e. (eo_key e, e)) (diff_element_puts base cur replace)) k =
    (case put_value base cur replace k of Some v \<Rightarrow> Some \<lparr>eo_op = OpPut, eo_key = k, eo_value = v\<rparr> | None \<Rightarrow> None)"
  proof -
    have "k \<in> set (ordered_elements cur)" if "put_value base cur replace k \<noteq> None"
      using put_value_present [OF that] by (simp add: ordered_elements_def map_of_eq_None_iff)
    then show ?thesis unfolding diff_element_puts_eq by (subst map_of_map_key) (auto split: option.splits)
  qed
  have dels: "map_of (map (\<lambda>e. (eo_key e, e)) (diff_element_dels base cur)) k =
    (if map_of (sc_elements base) k \<noteq> None \<and> map_of (sc_elements cur) k = None
     then Some \<lparr>eo_op = OpDel, eo_key = k, eo_value = []\<rparr> else None)"
  proof -
    have "k \<in> fst ` set (sc_elements base) \<longleftrightarrow> map_of (sc_elements base) k \<noteq> None" by (simp add: map_of_eq_None_iff)
    then show ?thesis unfolding diff_element_dels_def by (subst map_of_map_key) auto
  qed
  show ?thesis unfolding map_append map_of_append map_add_def puts dels using put_value_present [of base cur replace k]
    by (auto split: option.splits)
qed

end
