(* ===== verification/Annot_Diff.thy ===== *)
theory Annot_Diff
  imports Annot_Content
begin

text \<open>
  \<open>Diff\<close> and \<open>ReplaceOps\<close> against \<open>Apply\<close> (\<^verbatim>\<open>internal/core/annot/diff.go\<close>, \<^verbatim>\<open>apply.go\<close>):
  applying a difference to its base gives the other document, except for the keys that
  are masked or dead in the base; applying a replacement gives the document's own file.
\<close>

section \<open>Differences\<close>

lemma sidecar_ok_distinct:
  assumes "sidecar_ok sc"
  shows "distinct (map fst (sc_elements sc))" "distinct (map fst (sc_entries sc))" "distinct (map fst (sc_meta sc))"
    "distinct (map fst (sc_tombstones sc))"
  using assms by (simp_all add: sidecar_ok_def orders_ok_def tombstones_ok_def)

lemma live_key_state:
  assumes "sidecar_ok sc"
  shows "map_option el_value (map_of (sc_elements sc) k) = (case key_state sc k of Live v \<Rightarrow> Some v | _ \<Rightarrow> None)"
proof (cases "map_of (sc_tombstones sc) k")
  case None
  then show ?thesis by (cases "map_of (sc_elements sc) k") (simp_all add: key_state_def)
next
  case (Some t)
  have "tombstones_ok (sc_limits sc) (sc_version sc) (sc_elements sc) (sc_tombstones sc)" using assms by (simp add: sidecar_ok_def)
  then have "k \<notin> fst ` set (sc_elements sc)" using map_of_SomeD [OF Some] by (auto simp: tombstones_ok_def)
  then have "map_of (sc_elements sc) k = None" by (simp add: map_of_eq_None_iff)
  then show ?thesis using Some by (simp add: key_state_def)
qed

text \<open>The applied sidecar when the operations pass the check unchanged.\<close>

lemma apply_unchanged:
  assumes "sidecar_ok head" "annot_apply head ops at = Inr r" "ops_strict (sc_limits head) ops"
  shows "map_of (sc_entries (ar_sidecar r)) = map_of (fold apply_entry (ao_entries ops) (if ao_replace ops then [] else sc_entries head))"
    and "map_of (sc_meta (ar_sidecar r)) = map_of (apply_meta ops (if ao_replace ops then [] else sc_meta head))"
    and "key_state (ar_sidecar r) k = fold (key_step (ao_replace ops) at k) (ao_elements ops) (key_start (ao_replace ops) at (key_state head k))"
    and "\<exists>tombs xs. apply_elements (ao_replace ops) at (ao_elements ops) (sc_elements (apply_start (ao_replace ops) at head))
       (sc_tombstones (apply_start (ao_replace ops) at head)) [] [] = (sc_elements (ar_sidecar r), tombs, xs, ar_dropped r)"
proof -
  obtain c where c: "checked_ops ops (sc_limits head) (ao_replace ops) = Inr c"
    "apply_checked at c head = (ar_sidecar r, ar_effective r, ar_dropped r)"
    by (rule annot_applyE [OF assms(2,1)]) auto
  have co: "c = ops" by (rule checked_ops_same [OF c(1) assms(3)])
  let ?s = "apply_start (ao_replace c) at head"
  obtain els tombs xs where a: "apply_elements (ao_replace c) at (ao_elements c) (sc_elements ?s) (sc_tombstones ?s) [] [] = (els, tombs, xs, ar_dropped r)"
    "ar_sidecar r = ?s\<lparr>sc_elements := els, sc_tombstones := tombs, sc_entries := fold apply_entry (ao_entries c) (sc_entries ?s),
       sc_meta := apply_meta c (sc_meta ?s)\<rparr>"
    by (rule apply_checkedE [OF c(2)]) auto
  have f: "sc_elements (ar_sidecar r) = els" "sc_entries (ar_sidecar r) = fold apply_entry (ao_entries c) (sc_entries ?s)"
    "sc_meta (ar_sidecar r) = apply_meta c (sc_meta ?s)"
    unfolding a(2) by simp_all
  show "map_of (sc_entries (ar_sidecar r)) = map_of (fold apply_entry (ao_entries ops) (if ao_replace ops then [] else sc_entries head))"
    "map_of (sc_meta (ar_sidecar r)) = map_of (apply_meta ops (if ao_replace ops then [] else sc_meta head))"
    unfolding f co by simp_all
  show "\<exists>tombs xs. apply_elements (ao_replace ops) at (ao_elements ops) (sc_elements (apply_start (ao_replace ops) at head))
       (sc_tombstones (apply_start (ao_replace ops) at head)) [] [] = (sc_elements (ar_sidecar r), tombs, xs, ar_dropped r)"
    using a(1) unfolding f(1) co by blast
  show "key_state (ar_sidecar r) k = fold (key_step (ao_replace ops) at k) (ao_elements ops) (key_start (ao_replace ops) at (key_state head k))"
    using apply_states [OF assms(1,2)] c(1) co by auto
qed

lemma diff_meta_effect:
  assumes "distinct (map fst (sc_meta cur))" "\<not> masked_key False key"
  shows "map_option (masked_meta key) (map_of (apply_meta (annot_difference base cur False) (sc_meta base)) key)
    = map_option (masked_meta key) (map_of (sc_meta cur) key)"
proof -
  have d: "distinct (map fst (ao_meta_put (annot_difference base cur False)))"
    using assms(1) by (simp add: annot_difference_def diff_meta_puts_eq o_def)
  show ?thesis unfolding apply_meta_map [OF d]
    by (cases "map_of (sc_meta cur) key"; cases "map_of (sc_meta base) key")
      (auto simp: annot_difference_def diff_meta_dels_set diff_meta_puts_map meta_change_def assms(2))
qed

lemma diff_meta_masked:
  assumes "distinct (map fst (sc_meta cur))" "masked_key False key"
  shows "map_of (apply_meta (annot_difference base cur False) (sc_meta base)) key = map_of (sc_meta base) key"
proof -
  have d: "distinct (map fst (ao_meta_put (annot_difference base cur False)))"
    using assms(1) by (simp add: annot_difference_def diff_meta_puts_eq o_def)
  show ?thesis unfolding apply_meta_map [OF d]
    by (cases "map_of (sc_meta cur) key") (simp_all add: annot_difference_def diff_meta_dels_set diff_meta_puts_map meta_change_def assms(2))
qed

lemma difference_state:
  assumes "sidecar_ok base" "sidecar_ok cur" "replace \<or> map_of (sc_tombstones base) k = None"
  shows "(case fold (key_step replace at k) (ao_elements (annot_difference base cur replace)) (key_start replace at (key_state base k)) of Live v \<Rightarrow> Some v | _ \<Rightarrow> None)
    = map_option el_value (map_of (sc_elements cur) k)"
proof -
  note d = sidecar_ok_distinct(1) [OF assms(1)] sidecar_ok_distinct(1) [OF assms(2)]
  have es: "ao_elements (annot_difference base cur replace) = diff_element_puts base cur replace @ diff_element_dels base cur"
    by (simp add: annot_difference_def)
  have start: "key_start replace at (key_state base k) \<noteq> Live v" if "replace" for v
    using that by (simp add: key_start_def split: key_state.splits)
  have plain: "key_state base k = (case map_of (sc_elements base) k of Some e \<Rightarrow> Live (el_value e) | None \<Rightarrow> Absent)" if "\<not> replace"
    using that assms(3) by (simp add: key_state_def)
  show ?thesis unfolding es fold_key_steps [OF difference_element_keys [OF d]] difference_find [OF d]
  proof (cases replace)
    case True
    then show "(case case case put_value base cur replace k of Some v \<Rightarrow> Some \<lparr>eo_op = OpPut, eo_key = k, eo_value = v\<rparr>
          | None \<Rightarrow> if map_of (sc_elements base) k \<noteq> None \<and> map_of (sc_elements cur) k = None
              then Some \<lparr>eo_op = OpDel, eo_key = k, eo_value = []\<rparr> else None of
        None \<Rightarrow> key_start replace at (key_state base k) | Some e \<Rightarrow> key_step replace at k e (key_start replace at (key_state base k)) of
        Live v \<Rightarrow> Some v | _ \<Rightarrow> None) = map_option el_value (map_of (sc_elements cur) k)"
      using start by (cases "map_of (sc_elements cur) k") (auto simp: put_value_def key_step_def split: key_state.split)
  next
    case False
    then show "(case case case put_value base cur replace k of Some v \<Rightarrow> Some \<lparr>eo_op = OpPut, eo_key = k, eo_value = v\<rparr>
          | None \<Rightarrow> if map_of (sc_elements base) k \<noteq> None \<and> map_of (sc_elements cur) k = None
              then Some \<lparr>eo_op = OpDel, eo_key = k, eo_value = []\<rparr> else None of
        None \<Rightarrow> key_start replace at (key_state base k) | Some e \<Rightarrow> key_step replace at k e (key_start replace at (key_state base k)) of
        Live v \<Rightarrow> Some v | _ \<Rightarrow> None) = map_option el_value (map_of (sc_elements cur) k)"
      using plain by (cases "map_of (sc_elements cur) k"; cases "map_of (sc_elements base) k") (auto simp: put_value_def key_step_def key_start_def)
  qed
qed

lemma diff_checked:
  assumes "sidecar_ok base" "sidecar_ok cur" "sc_limits cur = sc_limits base" "annot_diff base cur = Inr ops"
  shows "ops = annot_difference base cur False"
proof -
  have "\<not> (requires_whole_document base \<or> requires_whole_document cur)"
  proof
    assume a: "requires_whole_document base \<or> requires_whole_document cur"
    show False using assms(4) unfolding annot_diff_def Let_def sidecar_ok_configured [OF assms(1)] sidecar_ok_configured [OF assms(2)] if_P [OF a]
      by simp
  qed
  then have "checked_ops (annot_difference base cur False) (sc_limits base) False = Inr ops"
    using assms(4) by (simp add: annot_diff_def sidecar_ok_configured [OF assms(1)] sidecar_ok_configured [OF assms(2)])
  then show ?thesis by (rule checked_ops_same) (rule difference_strict(1) [OF assms(2,3)])
qed

lemma diff_apply_content:
  assumes "sidecar_ok base" "sidecar_ok cur" "sc_limits cur = sc_limits base" "annot_diff base cur = Inr ops"
    and "annot_apply base ops at = Inr r"
  shows "map_of (sc_tombstones base) k = None \<Longrightarrow>
      map_option el_value (map_of (sc_elements (ar_sidecar r)) k) = map_option el_value (map_of (sc_elements cur) k)"
    and "map_of (sc_tombstones base) k \<noteq> None \<Longrightarrow> map_of (sc_elements (ar_sidecar r)) k = None"
    and "map_of (sc_entries (ar_sidecar r)) = map_of (sc_entries cur)"
    and "\<not> masked_key False key \<Longrightarrow>
      map_option (masked_meta key) (map_of (sc_meta (ar_sidecar r)) key) = map_option (masked_meta key) (map_of (sc_meta cur) key)"
    and "masked_key False key \<Longrightarrow> map_of (sc_meta (ar_sidecar r)) key = map_of (sc_meta base) key"
proof -
  have ops: "ops = annot_difference base cur False" by (rule diff_checked [OF assms(1-4)])
  have str: "ops_strict (sc_limits base) ops" unfolding ops by (rule difference_strict(1) [OF assms(2,3)])
  have om: "ops_map ops" unfolding ops by (rule difference_strict(2) [OF assms(2,3)])
  have rep: "ao_replace ops = False" by (simp add: ops annot_difference_def)
  note a = apply_unchanged [OF assms(1,5) str, unfolded rep if_False]
  note ok = apply_sidecar_ok [OF assms(1) om assms(5)]
  show "map_option el_value (map_of (sc_elements (ar_sidecar r)) k) = map_option el_value (map_of (sc_elements cur) k)"
    if "map_of (sc_tombstones base) k = None"
    using difference_state [OF assms(1,2), of False k at] that a(3) [of k] live_key_state [of "ar_sidecar r" k] ok
    by (simp add: ops key_start_def)
  show "map_of (sc_elements (ar_sidecar r)) k = None" if t: "map_of (sc_tombstones base) k \<noteq> None"
  proof -
    obtain x where x: "map_of (sc_tombstones base) k = Some x" using t by blast
    have "dead_since (min x at) (key_state base k)" using x by (simp add: dead_since_def key_state_def)
    then have "dead_since (min x at) (key_state (ar_sidecar r) k)" using key_steps_dead a(3) [of k] by (simp add: key_start_def)
    then have "map_option el_value (map_of (sc_elements (ar_sidecar r)) k) = None"
      using live_key_state [of "ar_sidecar r" k] ok by (auto simp: dead_since_def split: key_state.splits)
    then show ?thesis by simp
  qed
  show "map_of (sc_entries (ar_sidecar r)) = map_of (sc_entries cur)"
    unfolding a(1) ops using diff_entries_effect [OF sidecar_ok_distinct(2) [OF assms(1)] sidecar_ok_distinct(2) [OF assms(2)]]
    by (simp add: annot_difference_def)
  show "map_option (masked_meta key) (map_of (sc_meta (ar_sidecar r)) key) = map_option (masked_meta key) (map_of (sc_meta cur) key)"
    if "\<not> masked_key False key"
    unfolding a(2) ops by (rule diff_meta_effect [OF sidecar_ok_distinct(3) [OF assms(2)] that])
  show "map_of (sc_meta (ar_sidecar r)) key = map_of (sc_meta base) key" if "masked_key False key"
    unfolding a(2) ops by (rule diff_meta_masked [OF sidecar_ok_distinct(3) [OF assms(2)] that])
qed

section \<open>Replacements\<close>

text \<open>Puts of distinct new keys get ordinals in their order.\<close>

definition put_op :: "(element_key \<Rightarrow> string) \<Rightarrow> element_key \<Rightarrow> element_op" where
  "put_op f k = \<lparr>eo_op = OpPut, eo_key = k, eo_value = f k\<rparr>"

lemma put_op_simps [simp]: "eo_op (put_op f k) = OpPut" "eo_key (put_op f k) = k" "eo_value (put_op f k) = f k"
  by (simp_all add: put_op_def)

lemma apply_puts:
  assumes "distinct ks" "\<forall>k \<in> set ks. map_of els k = None" "apply_elements True at (map (put_op f) ks) els tombs eff dr = (els1, tombs1, eff1, dr1)"
  shows "\<forall>i < length ks. map_of els1 (ks ! i) = Some \<lparr>el_value = f (ks ! i), el_order = \<lparr>ok_version = at, ok_ordinal = int (length eff + i)\<rparr>\<rparr>"
  using assms
proof (induction ks arbitrary: els tombs eff)
  case (Cons k ks)
  let ?x = "\<lparr>el_value = f k, el_order = \<lparr>ok_version = at, ok_ordinal = int (length eff)\<rparr>\<rparr>"
  have step: "apply_elements True at (map (put_op f) ks) (AList.update k ?x els) (AList.delete k tombs) (eff @ [put_op f k]) dr = (els1, tombs1, eff1, dr1)"
    using Cons.prems(2,3) apply_elements_put [of "put_op f k" tombs True at "map (put_op f) ks" els eff dr]
    by (simp add: put_order_def)
  have none: "\<forall>k' \<in> set ks. map_of (AList.update k ?x els) k' = None" using Cons.prems(1,2) by (auto simp: am.get_put_same)
  have rest: "\<forall>i < length ks. map_of els1 (ks ! i) = Some \<lparr>el_value = f (ks ! i), el_order = \<lparr>ok_version = at, ok_ordinal = int (length eff + Suc i)\<rparr>\<rparr>"
    using Cons.IH [OF _ none step] Cons.prems(1) by simp
  have "k \<notin> eo_key ` set (map (put_op f) ks)" using Cons.prems(1) by auto
  then have "map_of els1 k = Some ?x" using apply_elements_other [OF step] by (simp add: am.get_put_same)
  then show ?case using rest by (simp add: nth_Cons split: nat.split)
qed simp

lemma replace_puts: "diff_element_puts base cur True = map (put_op (\<lambda>k. the (map_option el_value (map_of (sc_elements cur) k)))) (ordered_elements cur)"
proof -
  have pv: "put_value base cur True k = map_option el_value (map_of (sc_elements cur) k)" for k by (simp add: put_value_def split: option.splits)
  have "map_of (sc_elements cur) k \<noteq> None" if "k \<in> set (ordered_elements cur)" for k
    using that by (simp add: ordered_elements_def map_of_eq_None_iff)
  then have "filter (\<lambda>k. put_value base cur True k \<noteq> None) (ordered_elements cur) = ordered_elements cur"
    unfolding pv by (intro filter_True) auto
  then show ?thesis unfolding diff_element_puts_eq pv put_op_def by simp
qed

lemma replace_content:
  assumes "sidecar_ok head" "sidecar_ok cur" "sc_limits cur = sc_limits head" "annot_apply head (replace_ops head cur) at = Inr r"
  shows "ordered_elements (ar_sidecar r) = ordered_elements cur" and "same_content (ar_sidecar r) cur"
    and "sidecar_ok (ar_sidecar r)" and "sc_limits (ar_sidecar r) = sc_limits cur"
proof -
  let ?ops = "replace_ops head cur" and ?ks = "ordered_elements cur" and ?r = "ar_sidecar r"
  let ?f = "\<lambda>k. the (map_option el_value (map_of (sc_elements cur) k))"
  have ops: "?ops = annot_difference head cur True"
    by (simp add: replace_ops_def sidecar_ok_configured [OF assms(1)] sidecar_ok_configured [OF assms(2)])
  have str: "ops_strict (sc_limits head) ?ops" unfolding ops by (rule difference_strict(1) [OF assms(2,3)])
  have om: "ops_map ?ops" unfolding ops by (rule difference_strict(2) [OF assms(2,3)])
  have rep: "ao_replace ?ops = True" by (simp add: ops annot_difference_def)
  note a = apply_unchanged [OF assms(1,4) str, unfolded rep if_True]
  show ok: "sidecar_ok ?r" and lim: "sc_limits ?r = sc_limits cur"
    using apply_sidecar_ok [OF assms(1) om assms(4)] assms(3) by simp_all
  note dc = sidecar_ok_distinct [OF assms(2)] and dr = sidecar_ok_distinct [OF ok] and dh = sidecar_ok_distinct [OF assms(1)]
  have vals: "map_option el_value (map_of (sc_elements ?r) k) = map_option el_value (map_of (sc_elements cur) k)" for k
    using difference_state [OF assms(1,2), of True k at] a(3) [of k] live_key_state [OF ok, of k] by (simp add: ops)
  have keys: "set (map fst (sc_elements ?r)) = set ?ks"
  proof -
    have "dom (map_of (sc_elements ?r)) = dom (map_of (sc_elements cur))"
    proof (rule set_eqI)
      fix k
      show "k \<in> dom (map_of (sc_elements ?r)) \<longleftrightarrow> k \<in> dom (map_of (sc_elements cur))" using vals [of k] unfolding domIff by (metis option.map_disc_iff)
    qed
    then show ?thesis unfolding am.keys_dom by (simp add: ordered_elements_def am.keys_dom [symmetric])
  qed
  have dks: "distinct ?ks" using dc(1) by (simp add: ordered_elements_def)
  have kind: "valid_kind k" if "k \<in> set ?ks" for k
    using that bspec [OF sidecar_ok_kinds [OF assms(2)], of k] by (simp add: ordered_elements_def)
  obtain tombs xs where run: "apply_elements True at (map (put_op ?f) ?ks @ diff_element_dels head cur) (sc_elements (apply_start True at head))
       (sc_tombstones (apply_start True at head)) [] [] = (sc_elements ?r, tombs, xs, ar_dropped r)"
    using a(4) by (auto simp: ops annot_difference_def replace_puts)
  obtain els2 tombs2 eff2 dr2 where puts: "apply_elements True at (map (put_op ?f) ?ks) [] (sc_tombstones (apply_start True at head)) [] [] = (els2, tombs2, eff2, dr2)"
    by (metis prod_cases4)
  have dels: "apply_elements True at (diff_element_dels head cur) els2 tombs2 eff2 dr2 = (sc_elements ?r, tombs, xs, ar_dropped r)"
    using run by (simp add: apply_elements_append puts)
  have ord: "map_of (sc_elements ?r) (?ks ! i) = Some \<lparr>el_value = ?f (?ks ! i), el_order = \<lparr>ok_version = at, ok_ordinal = int i\<rparr>\<rparr>"
    if i: "i < length ?ks" for i
  proof -
    have "?ks ! i \<in> fst ` set (sc_elements cur)" using nth_mem [OF i] by (simp add: ordered_elements_def)
    then have "map_of (sc_elements cur) (?ks ! i) \<noteq> None" by (simp add: map_of_eq_None_iff)
    then have "?ks ! i \<notin> eo_key ` set (diff_element_dels head cur)" unfolding diff_element_dels_set by blast
    then show ?thesis using apply_elements_other [OF dels] apply_puts [OF dks _ puts] i by simp
  qed
  have "sorted (map (order_rank (sc_elements ?r)) ?ks)"
    unfolding sorted_iff_nth_mono_less
  proof (intro allI impI)
    fix i j assume ij: "i < j" "j < length (map (order_rank (sc_elements ?r)) ?ks)"
    have "sorted (map (order_rank (sc_elements cur)) ?ks)"
      using ordered_elements_key [OF sidecar_ok_kinds [OF assms(2)]] by simp
    then have "order_rank (sc_elements cur) (?ks ! i) \<le> order_rank (sc_elements cur) (?ks ! j)"
      using ij sorted_nth_mono [of "map (order_rank (sc_elements cur)) ?ks" i j] by simp
    then have "kind_index (ek_kind (?ks ! i)) \<le> kind_index (ek_kind (?ks ! j))" by (auto simp: order_rank_def less_eq_prod_def)
    then show "map (order_rank (sc_elements ?r)) ?ks ! i \<le> map (order_rank (sc_elements ?r)) ?ks ! j"
      using ij ord [of i] ord [of j] by (auto simp: order_rank_def order_of_def less_eq_prod_def)
  qed
  then have "sort_key (order_rank (sc_elements ?r)) ?ks = ?ks" by (rule sort_key_id)
  moreover have "sort_key (order_rank (sc_elements ?r)) (map fst (sc_elements ?r)) = sort_key (order_rank (sc_elements ?r)) ?ks"
    by (rule sort_key_set_eq [OF dr(1) dks keys]) (use order_rank_inj kind keys in \<open>blast intro: inj_onI\<close>)
  ultimately show order: "ordered_elements ?r = ?ks" using ordered_elements_key [OF sidecar_ok_kinds [OF ok]] by simp
  have "(case map_of (sc_elements ?r) k of Some e \<Rightarrow> el_value e | None \<Rightarrow> []) = (case map_of (sc_elements cur) k of Some e \<Rightarrow> el_value e | None \<Rightarrow> [])" for k
    using vals [of k] by (cases "map_of (sc_elements ?r) k"; cases "map_of (sc_elements cur) k") simp_all
  then have "kind_values ?r = kind_values cur" by (simp add: kind_values_def element_values_def order)
  moreover have "map_of (sc_entries ?r) = map_of (sc_entries cur)"
    unfolding a(1) ops using diff_entries_effect [OF dh(2) dc(2), of "[]" True] by (simp add: annot_difference_def)
  moreover have "map_of (sc_meta ?r) k = map_of (sc_meta cur) k" for k
  proof -
    have d: "distinct (map fst (ao_meta_put (annot_difference head cur True)))"
      using dc(3) by (simp add: annot_difference_def diff_meta_puts_eq o_def)
    show ?thesis unfolding a(2) ops apply_meta_map [OF d]
      by (cases "map_of (sc_meta cur) k") (simp_all add: annot_difference_def diff_meta_dels_set diff_meta_puts_map meta_change_def masked_key_def)
  qed
  ultimately show "same_content ?r cur" unfolding same_content_def by blast
qed

lemma replace_file:
  assumes "sidecar_ok head" "sidecar_ok cur" "sc_limits cur = sc_limits head" "annot_apply head (replace_ops head cur) at = Inr r"
  shows "annot_marshal (ar_sidecar r) = annot_marshal cur"
  using replace_content [OF assms] assms(2) sidecar_marshal_cong by blast

end
