(* ===== verification/Annot_Text.thy ===== *)
theory Annot_Text
  imports Annot_Diff
begin

text \<open>
  Texts the annotation core writes (\<^verbatim>\<open>internal/core/annot/json.go\<close>), member by member, and
  the JSON trees they are texts of; reading the members and items back.
\<close>

section \<open>Trees of compact text\<close>

definition text_of :: "raw \<Rightarrow> string \<Rightarrow> bool" where
  "text_of v s \<longleftrightarrow> raw_compact v = s \<and> (\<exists>d. renders d v s)"

lemma text_of_ok: "raw_ok v \<Longrightarrow> text_of v (raw_compact v)"
  unfolding raw_ok_def text_of_def by blast

lemma text_strict: "strict_text l s \<Longrightarrow> \<exists>v. text_of v s"
  by (erule strict_textE) (use text_of_ok in blast)

lemma text_unique:
  assumes "text_of v s" "parse_json s = Some w"
  shows "w = v"
proof -
  obtain d where d: "renders d v s" using assms(1) by (auto simp: text_of_def)
  obtain a t b where s: "s = a @ t @ b" "blank a" "blank b" "renders json_max_depth w t"
    using assms(2) unfolding parse_json_exact json_document_def by blast
  define e where "e = max d json_max_depth"
  have "parse_value e (2 * length s) ([] @ s @ []) = Some (v, [])"
    by (rule parse_complete(1)) (use renders_mono(1) [OF d, of e] in \<open>simp_all add: e_def ends_word_def\<close>)
  moreover have "parse_value e (2 * length s) (a @ t @ b) = Some (w, b)"
    by (rule parse_complete(1)) (use renders_mono(1) [OF s(4), of e] s in \<open>simp_all add: e_def ends_word_blank\<close>)
  ultimately show ?thesis using s(1) by simp
qed

lemma text_number: "text_of (RWord (string_of_int i)) (string_of_int i)"
  unfolding text_of_def using json_word_rule [of "string_of_int i" 0] string_of_int_number [of i] by (auto simp: json_word_def)

lemma common_depth:
  assumes "\<forall>v \<in> set vs. \<exists>d. renders d v (f v)"
  shows "\<exists>d. \<forall>v \<in> set vs. renders d v (f v)"
  using assms
proof (induction vs)
  case (Cons v vs)
  obtain d e where d: "\<forall>v \<in> set vs. renders d v (f v)" "renders e v (f v)" using Cons by auto
  then have "\<forall>u \<in> set (v # vs). renders (max d e) u (f u)" using renders_mono(1) by fastforce
  then show ?case by blast
qed simp

lemma text_array:
  assumes "list_all2 text_of vs xs"
  shows "text_of (RArr vs) (raw_array xs)"
proof -
  have x: "map raw_compact vs = xs" using assms by (auto simp: list_all2_conv_all_nth text_of_def intro!: nth_equalityI)
  have each: "\<forall>v \<in> set vs. \<exists>d. renders d v (raw_compact v)"
    using assms by (auto simp: list_all2_conv_all_nth in_set_conv_nth text_of_def)
  show ?thesis
  proof (cases "vs = []")
    case True
    then show ?thesis using x json_no_items [of "[]" 0] by (auto simp: text_of_def raw_array_def)
  next
    case False
    obtain d where d: "\<forall>v \<in> set vs. renders d v (raw_compact v)" using common_depth [OF each] by blast
    have "renders_items d vs (join_with '','' (map raw_compact vs))" by (rule renders_items_compact [OF False]) (use d in blast)
    then have "renders (Suc d) (RArr vs) (''['' @ join_with '','' (map raw_compact vs) @ '']'')" using json_items by simp
    then show ?thesis using x by (auto simp: text_of_def raw_array_def)
  qed
qed

section \<open>Members\<close>

text \<open>A name is written without the HTML escapes; it is read back all the same.\<close>

lemma plain_rune_read:
  assumes "scalar r"
  shows "unquote (plain_rune r @ t) = encode_rune r @ unquote t" and "json_chars t \<Longrightarrow> json_chars (plain_rune r @ t)"
    and "paired (plain_rune r @ t) = paired t"
proof -
  have *: "unquote (char_of r # t) = encode_rune r @ unquote t \<and> (json_chars t \<longrightarrow> json_chars (char_of r # t)) \<and> paired (char_of r # t) = paired t"
    if "r \<in> {0x3C, 0x3E, 0x26}"
  proof -
    have r: "r < 0x80" "0x20 \<le> r" "r \<noteq> 0x22" "r \<noteq> 0x5C" using that by auto
    then have b: "bv (char_of r) = r" by (simp add: bv_char_of)
    then have c: "char_of r \<noteq> quote_char" "char_of r \<noteq> CHR 0x5C" using r bv_inj [of "char_of r"] by (auto simp: char_of_iff)
    have "decode_rune (char_of r # t) = (r, 1)" using r(1) b by (simp add: decode_rune_def seq_len_def)
    then have "unquote_step (char_of r # t) = (encode_rune r, t)" using c r(1) b by (simp add: unquote_step_def encode_rune_def scalar_small)
    then show ?thesis using unquote_step_eq c r(2) b by (simp add: json_chars.plain paired_plain)
  qed
  show "unquote (plain_rune r @ t) = encode_rune r @ unquote t" "json_chars t \<Longrightarrow> json_chars (plain_rune r @ t)"
    "paired (plain_rune r @ t) = paired t"
    using * json_rune_read [OF assms] by (auto simp: plain_rune_def)
qed

lemma plain_body_read: "valid_string s \<Longrightarrow> unquote (plain_body s) = s \<and> json_chars (plain_body s) \<and> paired (plain_body s)"
proof (induction s rule: plain_body.induct)
  case (1 s)
  show ?case
  proof (cases "s = []")
    case True
    then show ?thesis by (simp add: plain_body.simps json_chars.none)
  next
    case False
    then have d: "decode_rune s \<noteq> (rune_error, 1)" and v: "valid_string (drop (snd (decode_rune s)) s)"
      using "1.prems" by (simp_all add: valid_string_cons)
    note ed = encode_decode [OF False d]
    have nd: "\<not> (fst (decode_rune s) = rune_error \<and> snd (decode_rune s) = 1)" using d by (simp add: prod_eq_iff)
    have "plain_body s = plain_rune (fst (decode_rune s)) @ plain_body (drop (snd (decode_rune s)) s)"
      using False nd unfolding plain_body.simps [of s] Let_def by (simp only: if_False)
    then show ?thesis
      using "1.IH" [OF False refl refl v] ed plain_rune_read [of "fst (decode_rune s)"] by simp
  qed
qed

definition member_text :: "string \<times> string \<Rightarrow> string" where
  "member_text m = quoted (fst m) @ '':'' @ snd m"

definition members_text :: "(string \<times> string) list \<Rightarrow> string" where
  "members_text ms = join_with '','' (map member_text ms)"

lemma members_text_empty: "members_text [] = []"
  by (simp add: members_text_def)

lemma join_snoc: "join_with sep (xs @ [x]) = (if xs = [] then x else join_with sep xs @ sep @ x)"
  by (induction xs) (auto simp: join_with_cons)

lemma members_text_nonempty: "ms \<noteq> [] \<Longrightarrow> members_text ms \<noteq> []"
  by (cases ms; cases "tl ms") (simp_all add: members_text_def member_text_def quoted_def)

lemma append_member_text: "append_member (c # members_text ms) k v = c # members_text (ms @ [(k, v)])"
proof (cases "ms = []")
  case True
  then show ?thesis by (simp add: append_member_def members_text_def member_text_def)
next
  case False
  then show ?thesis using members_text_nonempty [OF False]
    by (simp add: append_member_def members_text_def member_text_def join_snoc)
qed

lemma append_member_first: "append_member [c] k v = c # members_text [(k, v)]"
  using append_member_text [of c "[]" k v] by (simp add: members_text_empty)

lemma fold_append_key: "fold (append_key m) ks (c # members_text ms) = c # members_text (ms @ map (\<lambda>k. (k, case map_of m k of Some v \<Rightarrow> v | None \<Rightarrow> [])) ks)"
  by (induction ks arbitrary: ms) (simp_all add: append_key_def append_member_text)

definition object_text :: "(string \<times> string) list \<Rightarrow> string" where
  "object_text ms = ''{'' @ members_text ms @ ''}''"

lemma text_object:
  assumes "\<forall>(k, v) \<in> set ms. valid_string k \<and> (\<exists>t. text_of t v)"
  shows "\<exists>ts. text_of (RObj ts) (object_text ms) \<and> map (\<lambda>(k, t). (unquote k, raw_compact t)) ts = ms \<and> list_all2 (\<lambda>(k, v) t. text_of t v) ms (map snd ts)"
proof -
  have "\<exists>ts. list_all2 (\<lambda>(k, v) t. text_of t v) ms ts"
    using assms by (induction ms) (auto simp: list_all2_Cons1)
  then obtain ts where ts: "list_all2 (\<lambda>(k, v) t. text_of t v) ms ts" by blast
  define os where "os = map2 (\<lambda>(k, v) t. (plain_body k, t)) ms ts"
  have len: "length ts = length ms" using ts by (simp add: list_all2_lengthD)
  have nth: "i < length ms \<Longrightarrow> os ! i = (plain_body (fst (ms ! i)), ts ! i)" and lo: "length os = length ms" for i
    using len by (simp_all add: os_def case_prod_beta)
  have tx: "text_of (ts ! i) (snd (ms ! i))" if "i < length ms" for i
    using ts that by (simp add: list_all2_conv_all_nth case_prod_beta)
  have sn: "map snd os = ts" using nth lo len by (intro nth_equalityI) simp_all
  have each: "\<forall>v \<in> set ts. \<exists>d. renders d v (raw_compact v)"
    using tx len by (auto simp: in_set_conv_nth text_of_def)
  have rd: "map (\<lambda>(k, t). (unquote k, raw_compact t)) os = ms"
  proof (rule nth_equalityI)
    show "map (\<lambda>(k, t). (unquote k, raw_compact t)) os ! i = ms ! i" if i: "i < length (map (\<lambda>(k, t). (unquote k, raw_compact t)) os)" for i
    proof -
      have "valid_string (fst (ms ! i))" using assms nth_mem [of i ms] i lo by (auto simp: case_prod_beta)
      then show ?thesis using i lo nth [of i] tx [of i] plain_body_read by (simp add: text_of_def)
    qed
  qed (simp add: lo)
  have texts: "map (\<lambda>(k, v). quote_char # k @ quote_char # '':'' @ raw_compact v) os = map member_text ms"
    by (rule nth_equalityI) (use lo nth tx in \<open>simp_all add: member_text_def quoted_def text_of_def case_prod_beta\<close>)
  have comp: "raw_compact (RObj os) = object_text ms" using texts by (simp add: object_text_def members_text_def)
  have "\<exists>d. renders d (RObj os) (object_text ms)"
  proof (cases "os = []")
    case True
    then show ?thesis using comp json_no_members [of "[]" 0] by auto
  next
    case False
    obtain d where d: "\<forall>v \<in> set ts. renders d v (raw_compact v)" using common_depth [OF each] by blast
    have "renders_members d os (join_with '','' (map (\<lambda>(k, v). quote_char # k @ quote_char # '':'' @ raw_compact v) os))"
    proof (rule renders_members_compact [OF False])
      fix k v assume kv: "(k, v) \<in> set os"
      then obtain i where i: "i < length ms" "os ! i = (k, v)" using lo by (auto simp: in_set_conv_nth)
      have "valid_string (fst (ms ! i))" using assms nth_mem [OF i(1)] by (auto simp: case_prod_beta)
      then show "json_chars k \<and> renders d v (raw_compact v)" using i nth [of i] d len plain_body_read by auto
    qed
    then have "renders (Suc d) (RObj os) (''{'' @ join_with '','' (map (\<lambda>(k, v). quote_char # k @ quote_char # '':'' @ raw_compact v) os) @ ''}'')"
      by (simp add: json_members)
    then have "renders (Suc d) (RObj os) (object_text ms)" using comp by simp
    then show ?thesis by blast
  qed
  then show ?thesis using comp rd ts sn by (intro exI [of _ os]) (simp add: text_of_def)
qed

section \<open>Reading back\<close>

lemma read_array:
  assumes "list_all2 text_of vs xs" "strict_text l (raw_array xs)"
  shows "array_of (raw_array xs) = Inr xs"
proof -
  obtain w where w: "parse_json (raw_array xs) = Some w" using assms(2) by (auto elim: strict_textE)
  then have "w = RArr vs" using text_unique [OF text_array [OF assms(1)]] by simp
  moreover have "map raw_compact vs = xs" using assms(1) by (auto simp: list_all2_conv_all_nth text_of_def intro!: nth_equalityI)
  ultimately show ?thesis using w by (simp add: array_of_def raw_array_def)
qed

lemma read_object:
  assumes "\<forall>(k, v) \<in> set ms. valid_string k \<and> (\<exists>t. text_of t v)" "parse_json (object_text ms) = Some w" "raw_distinct w"
  shows "object_of (object_text ms) = Inr ms"
proof -
  obtain ts where ts: "text_of (RObj ts) (object_text ms)" "map (\<lambda>(k, t). (unquote k, raw_compact t)) ts = ms"
    using text_object [OF assms(1)] by blast
  have w: "w = RObj ts" by (rule text_unique [OF ts(1) assms(2)])
  then have "distinct (map (unquote \<circ> fst) ts)" using assms(3) by simp
  then have "fold put_member ts [] = ms" using put_members [of ts "[]"] ts(2) by simp
  then show ?thesis using assms(2) w by (simp add: object_of_def object_text_def)
qed

end
