(* ===== verification/Annot_Round.thy ===== *)
theory Annot_Round
  imports Annot_Text
begin

text \<open>
  \<open>Parse\<close> reads back what \<open>Marshal\<close> writes (\<^verbatim>\<open>internal/core/annot/model.go\<close>): the file of a
  sidecar that \<open>Apply\<close> let through is accepted, and gives the same content.
\<close>

section \<open>The members of the file\<close>

lemma update_absent: "map_of m k = None \<Longrightarrow> AList.update k v m = m @ [(k, v)]"
  by (induction m) (auto split: if_splits)

lemma write_known_members:
  "\<exists>ms'. write_known ks root (c # members_text ms) = (fold AList.delete ks root, c # members_text (ms @ ms'))
     \<and> map_of ms' = map_of root |` set ks \<and> distinct (map fst ms')"
proof (induction ks arbitrary: root ms)
  case Nil
  show ?case by (rule exI [of _ "[]"]) simp
next
  case (Cons k ks)
  show ?case
  proof (cases "map_of root k")
    case None
    obtain ms' where ms': "write_known ks root (c # members_text ms) = (fold AList.delete ks root, c # members_text (ms @ ms'))"
      "map_of ms' = map_of root |` set ks" "distinct (map fst ms')" using Cons by blast
    then have "map_of ms' = map_of root |` set (k # ks)" using None by (auto simp: restrict_map_def fun_eq_iff)
    then show ?thesis using ms' None delete_absent [OF None] by (intro exI [of _ ms']) simp
  next
    case (Some v)
    obtain ms' where ms': "write_known ks (AList.delete k root) (c # members_text (ms @ [(k, v)]))
        = (fold AList.delete ks (AList.delete k root), c # members_text ((ms @ [(k, v)]) @ ms'))"
      "map_of ms' = map_of (AList.delete k root) |` set ks" "distinct (map fst ms')" using Cons by blast
    have m: "map_of ((k, v) # ms') = map_of root |` set (k # ks)"
      using ms'(2) Some by (auto simp: restrict_map_def fun_eq_iff am.get_del_same)
    have "map_of ms' k = None" using ms'(2) by (simp add: restrict_map_def am.get_del_same)
    then have "distinct (map fst ((k, v) # ms'))" using ms'(3) by (simp add: map_of_eq_None_iff)
    then show ?thesis using ms'(1) m Some by (intro exI [of _ "(k, v) # ms'"]) (simp add: append_member_text)
  qed
qed

lemma root_text_members:
  assumes "distinct (map fst root)"
  shows "\<exists>ms. root_text root = object_text ms \<and> map_of ms = map_of root \<and> distinct (map fst ms)"
proof -
  obtain ms where ms: "write_known top_level_keys root (CHR ''{'' # members_text []) = (fold AList.delete top_level_keys root, CHR ''{'' # members_text ([] @ ms))"
    "map_of ms = map_of root |` set top_level_keys" "distinct (map fst ms)" using write_known_members by blast
  define rest where "rest = fold AList.delete top_level_keys root"
  define all where "all = ms @ map (\<lambda>k. (k, case map_of rest k of Some v \<Rightarrow> v | None \<Rightarrow> [])) (sort (map fst rest))"
  have "root_text root = object_text all"
    using ms(1) by (simp add: root_text_def members_text_empty fold_append_key rest_def [symmetric] object_text_def all_def)
  moreover have rm: "map_of rest = map_of root |` (- set top_level_keys)"
    by (auto simp: rest_def am.get_fold_del restrict_map_def)
  have keys: "k \<in> fst ` set rest \<longleftrightarrow> map_of rest k \<noteq> None" for k by (simp add: map_of_eq_None_iff)
  have "map_of all k = map_of root k" for k
    unfolding all_def map_of_append map_add_def map_of_map_pair ms(2) set_sort set_map keys rm
    by (auto simp: restrict_map_def split: option.splits)
  moreover have "distinct (map fst all)"
  proof -
    have d: "distinct (map fst rest)" using fold_del_ok [OF assms, of "\<lambda>_ _. True"] by (simp add: rest_def)
    have "k \<notin> fst ` set ms" if "k \<in> fst ` set rest" for k
    proof -
      have "map_of ms k = None" using that unfolding keys rm ms(2) by (auto simp: restrict_map_def split: if_splits)
      then show ?thesis by (simp add: map_of_eq_None_iff)
    qed
    then show ?thesis using d ms(3) by (auto simp: all_def o_def)
  qed
  ultimately show ?thesis by blast
qed

lemma fold_kinds_map: "map_of (fold (\<lambda>k root. AList.update k (f k) root) ks m) key = (if key \<in> set ks then Some (f key) else map_of m key)"
  by (induction ks arbitrary: m) (auto simp: am.get_put_same)

lemma fold_kinds_keys: "distinct (map fst m) \<Longrightarrow> distinct (map fst (fold (\<lambda>k root. AList.update k (f k) root) ks m))"
  by (induction ks arbitrary: m) (auto simp: am.keys_put)

lemma marshal_root_map:
  "map_of (marshal_root sc) key =
    (if key \<in> set kinds then Some (raw_array (element_values sc key))
     else if key = ''deletedPdfPages'' then Some (raw_array (page_values sc True))
     else if key = ''permanentlyDeletedPdfPages'' then Some (raw_array (page_values sc False))
     else if key = ''pdfPageTemplates'' then Some (raw_array (template_values sc))
     else map_of (sc_meta sc) key)"
  by (simp add: marshal_root_def am.get_put_same fold_kinds_map) (simp add: kinds_def)

section \<open>Reading the elements\<close>

definition numbered :: "(element_key \<Rightarrow> string) \<Rightarrow> element_key list \<Rightarrow> (element_key \<times> element) list" where
  "numbered f ks = map (\<lambda>(i, k). (k, \<lparr>el_value = f k, el_order = \<lparr>ok_version = 0, ok_ordinal = int i\<rparr>\<rparr>)) (enumerate 0 ks)"

lemma numbered_snoc: "numbered f (ks @ [k]) = numbered f ks @ [(k, \<lparr>el_value = f k, el_order = \<lparr>ok_version = 0, ok_ordinal = int (length ks)\<rparr>\<rparr>)]"
  by (simp add: numbered_def enumerate_append_eq)

lemma numbered_keys [simp]: "map fst (numbered f ks) = ks" "length (numbered f ks) = length ks"
  by (simp_all add: numbered_def o_def case_prod_beta)

lemma numbered_nth: "distinct ks \<Longrightarrow> i < length ks \<Longrightarrow> map_of (numbered f ks) (ks ! i) = Some \<lparr>el_value = f (ks ! i), el_order = \<lparr>ok_version = 0, ok_ordinal = int i\<rparr>\<rparr>"
proof -
  assume d: "distinct ks" and i: "i < length ks"
  have "(ks ! i, \<lparr>el_value = f (ks ! i), el_order = \<lparr>ok_version = 0, ok_ordinal = int i\<rparr>\<rparr>) \<in> set (numbered f ks)"
    using i by (force simp: numbered_def in_set_enumerate_eq)
  then show ?thesis using d by (intro map_of_is_SomeI) simp_all
qed

lemma parse_elements_run:
  "distinct (pre @ ks) \<Longrightarrow> \<forall>k \<in> set ks. ek_kind k = kind \<and> get_id (f k) l = Inr (ek_id k) \<Longrightarrow>
     int (length pre + length ks) \<le> al_max_elements l \<Longrightarrow>
     parse_elements l kind (map f ks) (numbered f pre) (int (length pre)) = Inr (numbered f (pre @ ks), int (length (pre @ ks)))"
proof (induction ks arbitrary: pre)
  case (Cons k ks)
  have k: "\<lparr>ek_kind = kind, ek_id = ek_id k\<rparr> = k" using Cons.prems(2) by (metis element_key.surjective list.set_intros(1) old.unit.exhaust)
  have "k \<notin> fst ` set (numbered f pre)" using Cons.prems(1) numbered_keys(1) [of f pre] by (metis disjoint_iff distinct_append list.set_intros(1) list.set_map)
  then have none: "map_of (numbered f pre) k = None" by (simp add: map_of_eq_None_iff)
  have up: "AList.update k \<lparr>el_value = f k, el_order = \<lparr>ok_version = 0, ok_ordinal = int (length pre)\<rparr>\<rparr> (numbered f pre) = numbered f (pre @ [k])"
    unfolding numbered_snoc by (rule update_absent [OF none])
  have "parse_elements l kind (map f ks) (numbered f (pre @ [k])) (int (length (pre @ [k]))) = Inr (numbered f ((pre @ [k]) @ ks), int (length ((pre @ [k]) @ ks)))"
    by (rule Cons.IH) (use Cons.prems in auto)
  moreover have "int (length (pre @ [k])) = int (length pre) + 1" by simp
  moreover have gid: "get_id (f k) l = Inr (ek_id k)" using Cons.prems(2) by simp
  moreover have n1: "\<not> map_of (numbered f pre) k \<noteq> None" and n2: "\<not> int (length (numbered f pre)) \<ge> al_max_elements l"
    using none Cons.prems(3) by simp_all
  ultimately show ?case
    unfolding list.map parse_elements.simps gid rbind.simps Let_def k if_not_P [OF n1] if_not_P [OF n2] up by (simp add: ac_simps)
qed simp

lemma fold_delete_map: "k \<notin> set ks \<Longrightarrow> map_of (fold AList.delete ks m) k = map_of m k"
  by (simp add: am.get_fold_del)

lemma parse_kinds_run:
  assumes "distinct ks" "\<forall>kind \<in> set ks. map_of root kind = Some (raw_array (map f (g kind))) \<and> array_of (raw_array (map f (g kind))) = Inr (map f (g kind))
      \<and> (\<forall>k \<in> set (g kind). ek_kind k = kind \<and> get_id (f k) l = Inr (ek_id k))"
    and "distinct (pre @ concat (map g ks))" "int (length pre + length (concat (map g ks))) \<le> al_max_elements l"
  shows "parse_kinds l ks root (numbered f pre) (int (length pre)) = Inr (fold AList.delete ks root, numbered f (pre @ concat (map g ks)))"
  using assms
proof (induction ks arbitrary: root pre)
  case (Cons k ks)
  have el: "parse_elements l k (map f (g k)) (numbered f pre) (int (length pre)) = Inr (numbered f (pre @ g k), int (length (pre @ g k)))"
    by (rule parse_elements_run) (use Cons.prems in auto)
  have "parse_kinds l ks (AList.delete k root) (numbered f (pre @ g k)) (int (length (pre @ g k)))
      = Inr (fold AList.delete ks (AList.delete k root), numbered f ((pre @ g k) @ concat (map g ks)))"
  proof (rule Cons.IH)
    show "\<forall>kind \<in> set ks. map_of (AList.delete k root) kind = Some (raw_array (map f (g kind))) \<and> array_of (raw_array (map f (g kind))) = Inr (map f (g kind))
      \<and> (\<forall>k \<in> set (g kind). ek_kind k = kind \<and> get_id (f k) l = Inr (ek_id k))"
      using Cons.prems(1,2) by (auto simp: am.get_del_same)
  qed (use Cons.prems in auto)
  then show ?case using Cons.prems(2) el by simp
qed simp

section \<open>Reading the entries\<close>

lemma parse_pages_run:
  assumes "\<forall>k \<in> set ks. \<exists>p. page_entry name (f k) = Inr (p, nk_family k, h k) \<and> page_number p = Inr (nk_page k)"
    and "distinct (map nk_page ks)" "nk_page ` set ks \<inter> set seen = {}" "distinct (map fst ents @ ks)"
    and "int (length ents + length ks + length (sc_elements sc)) \<le> al_max_elements (sc_limits sc)"
  shows "parse_pages sc name (map f ks) seen ents = Inr (ents @ map (\<lambda>k. (k, h k)) ks)"
  using assms
proof (induction ks arbitrary: seen ents)
  case (Cons k ks)
  obtain p where p: "page_entry name (f k) = Inr (p, nk_family k, h k)" "page_number p = Inr (nk_page k)" using Cons.prems(1) by auto
  have k: "\<lparr>nk_family = nk_family k, nk_page = nk_page k\<rparr> = k" by simp
  have "map_of ents k = None" using Cons.prems(4) by (simp add: map_of_eq_None_iff)
  then have up: "AList.update k (h k) ents = ents @ [(k, h k)]" by (rule update_absent)
  have "parse_pages sc name (map f ks) (nk_page k # seen) (ents @ [(k, h k)]) = Inr ((ents @ [(k, h k)]) @ map (\<lambda>k. (k, h k)) ks)"
    by (rule Cons.IH) (use Cons.prems in auto)
  moreover have n1: "\<not> nk_page k \<in> set seen" using Cons.prems(3) by auto
  moreover have n2: "\<not> int (length (ents @ [(k, h k)])) + int (length (sc_elements sc)) > al_max_elements (sc_limits sc)"
    using Cons.prems(5) by simp
  ultimately show ?case
    unfolding list.map parse_pages.simps p rbind.simps prod.case Let_def k if_not_P [OF n1] up if_not_P [OF n2] by simp
qed simp

lemma parse_page_arrays_run:
  assumes "distinct names" "\<forall>name \<in> set names. map_of root name = Some (raw_array (map (f name) (g name)))
      \<and> array_of (raw_array (map (f name) (g name))) = Inr (map (f name) (g name))
      \<and> (\<forall>k \<in> set (g name). \<exists>p. page_entry name (f name k) = Inr (p, nk_family k, h k) \<and> page_number p = Inr (nk_page k))
      \<and> distinct (map nk_page (g name))"
    and "distinct (map fst ents @ concat (map g names))"
    and "int (length ents + length (concat (map g names)) + length (sc_elements sc)) \<le> al_max_elements (sc_limits sc)"
  shows "parse_page_arrays sc names root ents = Inr (fold AList.delete names root, ents @ map (\<lambda>k. (k, h k)) (concat (map g names)))"
  using assms
proof (induction names arbitrary: root ents)
  case (Cons name names)
  have pages: "parse_pages sc name (map (f name) (g name)) [] ents = Inr (ents @ map (\<lambda>k. (k, h k)) (g name))"
    by (rule parse_pages_run) (use Cons.prems in auto)
  have "parse_page_arrays sc names (AList.delete name root) (ents @ map (\<lambda>k. (k, h k)) (g name))
      = Inr (fold AList.delete names (AList.delete name root), (ents @ map (\<lambda>k. (k, h k)) (g name)) @ map (\<lambda>k. (k, h k)) (concat (map g names)))"
  proof (rule Cons.IH)
    show "\<forall>n \<in> set names. map_of (AList.delete name root) n = Some (raw_array (map (f n) (g n)))
      \<and> array_of (raw_array (map (f n) (g n))) = Inr (map (f n) (g n))
      \<and> (\<forall>k \<in> set (g n). \<exists>p. page_entry n (f n k) = Inr (p, nk_family k, h k) \<and> page_number p = Inr (nk_page k))
      \<and> distinct (map nk_page (g n))"
      using Cons.prems(1,2) by (auto simp: am.get_del_same)
  qed (use Cons.prems in \<open>auto simp: o_def\<close>)
  then show ?case using Cons.prems(2) pages by simp
qed simp

section \<open>The parts of a sidecar\<close>

definition value_at :: "sidecar \<Rightarrow> element_key \<Rightarrow> string" where
  "value_at sc k = (case map_of (sc_elements sc) k of Some e \<Rightarrow> el_value e | None \<Rightarrow> [])"

definition kind_keys :: "sidecar \<Rightarrow> string \<Rightarrow> element_key list" where
  "kind_keys sc kind = filter (\<lambda>k. ek_kind k = kind) (ordered_elements sc)"

definition file_keys :: "sidecar \<Rightarrow> element_key list" where
  "file_keys sc = concat (map (kind_keys sc) kinds)"

definition array_keys :: "sidecar \<Rightarrow> string \<Rightarrow> entry_key list" where
  "array_keys sc name = (if name = ''pdfPageTemplates'' then filter (\<lambda>k. nk_family k = pdf_page_templates) (sorted_entries (sc_entries sc))
     else filter (\<lambda>k. nk_family k = pdf_page_state \<and> (entry_value sc k = raw_hidden) = (name = ''deletedPdfPages'')) (sorted_entries (sc_entries sc)))"

definition array_value :: "sidecar \<Rightarrow> string \<Rightarrow> entry_key \<Rightarrow> string" where
  "array_value sc name k = (if name = ''pdfPageTemplates'' then entry_value sc k else string_of_int (nk_page k))"

lemma element_values_keys: "element_values sc kind = map (value_at sc) (kind_keys sc kind)"
  by (simp add: element_values_def value_at_def kind_keys_def)

lemma array_values_keys:
  "raw_array (page_values sc True) = raw_array (map (array_value sc ''deletedPdfPages'') (array_keys sc ''deletedPdfPages''))"
  "raw_array (page_values sc False) = raw_array (map (array_value sc ''permanentlyDeletedPdfPages'') (array_keys sc ''permanentlyDeletedPdfPages''))"
  "raw_array (template_values sc) = raw_array (map (array_value sc ''pdfPageTemplates'') (array_keys sc ''pdfPageTemplates''))"
  by (simp_all add: page_values_def template_values_def array_keys_def array_value_def [abs_def])

lemma ordered_mem: "k \<in> set (ordered_elements sc) \<longleftrightarrow> map_of (sc_elements sc) k \<noteq> None"
  by (simp add: ordered_elements_def map_of_eq_None_iff)

lemma value_at_ok:
  assumes "sidecar_ok sc" "k \<in> set (ordered_elements sc)"
  shows "element_ok (sc_limits sc) k (value_at sc k)"
proof -
  obtain e where e: "map_of (sc_elements sc) k = Some e" using assms(2) by (auto simp: ordered_mem)
  then show ?thesis using assms(1) map_of_SomeD [OF e] by (auto simp: sidecar_ok_def value_at_def)
qed

lemma file_keys_facts:
  assumes "sidecar_ok sc"
  shows "distinct (file_keys sc)" "set (file_keys sc) = set (ordered_elements sc)" "length (file_keys sc) = length (sc_elements sc)"
    and "sorted (map (kind_index \<circ> ek_kind) (file_keys sc))" and "kind \<in> set kinds \<Longrightarrow> filter (\<lambda>k. ek_kind k = kind) (file_keys sc) = kind_keys sc kind"
proof -
  have d: "distinct (ordered_elements sc)" using sidecar_ok_distinct(1) [OF assms] by (simp add: ordered_elements_def)
  have kd: "ek_kind k \<in> set kinds" if "k \<in> set (ordered_elements sc)" for k
    using value_at_ok [OF assms that] element_kind kind_index_cases by (auto simp: valid_kind_def)
  have five: "file_keys sc = kind_keys sc ''strokes'' @ kind_keys sc ''eraserPaths'' @ kind_keys sc ''textItems''
      @ kind_keys sc ''shapes'' @ kind_keys sc ''imageItems''"
    by (simp add: file_keys_def kinds_def)
  show dk: "distinct (file_keys sc)" using d unfolding five by (auto simp: kind_keys_def)
  show st: "set (file_keys sc) = set (ordered_elements sc)" using kd by (auto simp: file_keys_def kind_keys_def)
  show "length (file_keys sc) = length (sc_elements sc)"
    using distinct_card [OF dk] distinct_card [OF d] st by (simp add: ordered_elements_def)
  show "sorted (map (kind_index \<circ> ek_kind) (file_keys sc))"
  proof -
    have one: "sorted (map (kind_index \<circ> ek_kind) (filter (\<lambda>k. ek_kind k = kind) xs))" for kind and xs :: "element_key list"
      by (induction xs) auto
    show ?thesis unfolding five map_append sorted_append kind_keys_def using one by auto
  qed
  show "filter (\<lambda>k. ek_kind k = kind) (file_keys sc) = kind_keys sc kind" if "kind \<in> set kinds"
    using that unfolding five by (auto simp: kinds_def kind_keys_def conj_commute intro!: filter_False)
qed

lemma entry_facts:
  assumes "sidecar_ok sc" "k \<in> set (sorted_entries (sc_entries sc))"
  shows "map_of (sc_entries sc) k = Some (entry_value sc k)" "entry_ok (sc_limits sc) k (entry_value sc k)" "0 < nk_page k" "nk_page k \<le> 2147483647"
    and "nk_family k = pdf_page_state \<and> entry_value sc k \<in> {raw_hidden, raw_permanent} \<or> nk_family k = pdf_page_templates
      \<and> (\<exists>obj. object_of (entry_value sc k) = Inr obj \<and> page_number (case map_of obj ''page'' of Some t \<Rightarrow> t | None \<Rightarrow> []) = Inr (nk_page k))"
proof -
  have "k \<in> fst ` set (sc_entries sc)" using assms(2) by (simp add: sorted_entries_def)
  then obtain v where v: "map_of (sc_entries sc) k = Some v" using map_of_eq_None_iff [of "sc_entries sc" k] by auto
  then show m: "map_of (sc_entries sc) k = Some (entry_value sc k)" by (simp add: entry_value_def)
  show ok: "entry_ok (sc_limits sc) k (entry_value sc k)" using assms(1) map_of_SomeD [OF m] by (auto simp: sidecar_ok_def)
  then show "0 < nk_page k" "nk_page k \<le> 2147483647" by (auto simp: entry_ok_def valid_entry_def split: if_splits)
  show "nk_family k = pdf_page_state \<and> entry_value sc k \<in> {raw_hidden, raw_permanent} \<or> nk_family k = pdf_page_templates
      \<and> (\<exists>obj. object_of (entry_value sc k) = Inr obj \<and> page_number (case map_of obj ''page'' of Some t \<Rightarrow> t | None \<Rightarrow> []) = Inr (nk_page k))"
    using ok by (auto simp: entry_ok_def valid_entry_def split: if_splits sum.splits)
qed

lemma page_number_string: "0 < n \<Longrightarrow> n \<le> 2147483647 \<Longrightarrow> page_number (string_of_int n) = Inr n"
  using parse_int64_string [of n] by (simp add: page_number_def)

lemma array_keys_read:
  assumes "sidecar_ok sc" "name \<in> set page_arrays" "k \<in> set (array_keys sc name)"
  shows "\<exists>p. page_entry name (array_value sc name k) = Inr (p, nk_family k, entry_value sc k) \<and> page_number p = Inr (nk_page k)"
proof -
  have k: "k \<in> set (sorted_entries (sc_entries sc))" using assms(3) by (auto simp: array_keys_def split: if_splits)
  note e = entry_facts [OF assms(1) k]
  have fam: "pdf_page_state \<noteq> pdf_page_templates" by (simp add: pdf_page_state_def pdf_page_templates_def)
  have st: "raw_hidden \<noteq> raw_permanent" by (simp add: raw_hidden_def raw_permanent_def)
  show ?thesis
  proof (cases "name = ''pdfPageTemplates''")
    case True
    then have "nk_family k = pdf_page_templates" using assms(3) by (simp add: array_keys_def)
    then show ?thesis using e(5) fam True by (auto simp: page_entry_def array_value_def)
  next
    case False
    then have n: "name = ''deletedPdfPages'' \<or> name = ''permanentlyDeletedPdfPages''" using assms(2) by (auto simp: page_arrays_def)
    have "nk_family k = pdf_page_state" "(entry_value sc k = raw_hidden) = (name = ''deletedPdfPages'')"
      using assms(3) False by (auto simp: array_keys_def)
    then have "entry_value sc k = (if name = ''permanentlyDeletedPdfPages'' then raw_permanent else raw_hidden)" "nk_family k = pdf_page_state"
      using e(5) fam st n by auto
    then show ?thesis using False page_number_string [OF e(3,4)] by (simp add: page_entry_def array_value_def)
  qed
qed

lemma array_keys_distinct:
  assumes "sidecar_ok sc"
  shows "distinct (map nk_page (array_keys sc name))" "distinct (concat (map (array_keys sc) page_arrays))"
    and "set (concat (map (array_keys sc) page_arrays)) = set (sorted_entries (sc_entries sc))"
    and "length (concat (map (array_keys sc) page_arrays)) = length (sc_entries sc)"
proof -
  have d: "distinct (sorted_entries (sc_entries sc))" using sidecar_ok_distinct(2) [OF assms] by (simp add: sorted_entries_def)
  have fam: "pdf_page_state \<noteq> pdf_page_templates" by (simp add: pdf_page_state_def pdf_page_templates_def)
  have one: "distinct (map nk_page (filter P (sorted_entries (sc_entries sc))))" if "\<And>k. P k \<Longrightarrow> nk_family k = fam" for P fam
    using d that by (auto simp: distinct_map intro!: inj_onI entry_key.equality)
  show "distinct (map nk_page (array_keys sc name))"
    unfolding array_keys_def using one [of "\<lambda>k. nk_family k = pdf_page_templates" pdf_page_templates]
      one [of "\<lambda>k. nk_family k = pdf_page_state \<and> (entry_value sc k = raw_hidden) = (name = ''deletedPdfPages'')" pdf_page_state] by auto
  have three: "concat (map (array_keys sc) page_arrays) = array_keys sc ''deletedPdfPages'' @ array_keys sc ''permanentlyDeletedPdfPages'' @ array_keys sc ''pdfPageTemplates''"
    by (simp add: page_arrays_def)
  show dc: "distinct (concat (map (array_keys sc) page_arrays))" using d fam unfolding three by (auto simp: array_keys_def)
  show sc: "set (concat (map (array_keys sc) page_arrays)) = set (sorted_entries (sc_entries sc))"
    unfolding three using entry_facts(5) [OF assms] by (auto simp: array_keys_def)
  show "length (concat (map (array_keys sc) page_arrays)) = length (sc_entries sc)"
    using distinct_card [OF dc] distinct_card [OF d] sc by (simp add: sorted_entries_def)
qed

lemma check_arrays_run: "\<forall>k \<in> set ks. \<forall>v. map_of root k = Some v \<longrightarrow> is_ok (array_of v) \<Longrightarrow> check_arrays root ks = Inr ()"
proof (induction ks)
  case (Cons k ks)
  have IH: "check_arrays root ks = Inr ()" using Cons by simp
  show ?case
  proof (cases "map_of root k")
    case None
    then show ?thesis using IH by simp
  next
    case (Some v)
    then have "is_ok (array_of v)" using Cons.prems by simp
    then obtain vs where "array_of v = Inr vs" by (cases "array_of v") simp_all
    then show ?thesis using IH Some by simp
  qed
qed simp

lemma texts_exist: "\<forall>x \<in> set xs. \<exists>v. text_of v x \<Longrightarrow> \<exists>vs. list_all2 text_of vs xs"
  by (induction xs) (auto simp: list_all2_Cons2)

lemma kind_set_index: "kind \<in> set kinds \<Longrightarrow> 0 \<le> kind_index kind"
  by (auto simp: kinds_def)

lemma distinct_kinds: "distinct kinds"
  by (simp add: kinds_def)

lemma distinct_page_arrays: "distinct page_arrays"
  by (simp add: page_arrays_def)

section \<open>Reading the file back\<close>

lemma file_members:
  assumes "sidecar_ok sc"
  shows "\<exists>ms. marshal_compact sc = object_text ms \<and> map_of ms = map_of (marshal_root sc) \<and> distinct (map fst ms)
    \<and> (\<forall>(k, v) \<in> set ms. valid_string k \<and> (\<exists>t. text_of t v))"
proof -
  note d = sidecar_ok_distinct [OF assms]
  have "distinct (map fst (marshal_root sc))" unfolding marshal_root_def by (intro am.keys_put fold_kinds_keys d(3))
  then obtain ms where ms: "root_text (marshal_root sc) = object_text ms" "map_of ms = map_of (marshal_root sc)" "distinct (map fst ms)"
    using root_text_members by blast
  have arr: "\<exists>t. text_of t (raw_array xs)" if "\<forall>x \<in> set xs. \<exists>v. text_of v x" for xs
    using texts_exist [OF that] text_array by blast
  have el: "\<exists>v. text_of v x" if "x \<in> set (element_values sc kind)" for x kind
    using that value_at_ok [OF assms] text_strict by (auto simp: element_values_keys kind_keys_def element_ok_def)
  have pg: "\<exists>v. text_of v x" if "x \<in> set (page_values sc hidden)" for x hidden
    using that text_number by (auto simp: page_values_def)
  have tm: "\<exists>v. text_of v x" if "x \<in> set (template_values sc)" for x
    using that entry_facts(2) [OF assms] text_strict by (fastforce simp: template_values_def entry_ok_def)
  have ok: "valid_string k \<and> (\<exists>t. text_of t v)" if "(k, v) \<in> set ms" for k v
  proof -
    have kv: "map_of (marshal_root sc) k = Some v" using map_of_is_SomeI [OF ms(3) that] ms(2) by simp
    have asc: "valid_string k" if "k \<in> set kinds \<or> k \<in> set page_arrays"
      using that by (auto simp: kinds_def page_arrays_def)
    consider "k \<in> set kinds" | "k \<notin> set kinds" "k \<in> set page_arrays" | "k \<notin> set kinds" "k \<notin> set page_arrays" by blast
    then show ?thesis
    proof cases
      case 1
      then show ?thesis using kv arr el asc by (auto simp: marshal_root_map)
    next
      case 2
      then show ?thesis using kv arr pg tm asc by (auto simp: marshal_root_map page_arrays_def)
    next
      case 3
      then have "map_of (sc_meta sc) k = Some v" using kv by (auto simp: marshal_root_map page_arrays_def)
      then have "meta_ok (sc_limits sc) k v" using assms map_of_SomeD [of "sc_meta sc" k v] by (auto simp: sidecar_ok_def)
      then show ?thesis using text_strict by (auto simp: meta_ok_def)
    qed
  qed
  have "marshal_compact sc = object_text ms" using ms(1) by (simp add: marshal_compact_def root_text_def)
  then show ?thesis using ms(2,3) ok by blast
qed

text \<open>What strictly reading the indented file gives.\<close>

lemma file_strict:
  assumes "sidecar_ok sc" "annot_marshal sc = Inr raw" "strict_json (sc_limits sc) raw m = Inr x"
  shows "\<exists>ms. object_of x = Inr ms \<and> strict_text (sc_limits sc) x \<and> map_of ms = map_of (marshal_root sc)"
proof -
  obtain ms where ms: "marshal_compact sc = object_text ms" "map_of ms = map_of (marshal_root sc)"
    "\<forall>(k, v) \<in> set ms. valid_string k \<and> (\<exists>t. text_of t v)"
    using file_members [OF assms(1)] by blast
  obtain v where v: "parse_json (marshal_compact sc) = Some v" "raw = raw_indent line_break v"
    using assms(2) by (auto simp: annot_marshal_def sidecar_ok_configured [OF assms(1)] Let_def split: if_split_asm option.splits)
  have "blank line_break" by (simp add: line_break_def is_ws_def)
  then have pj: "parse_json raw = Some v" using parse_indent [OF parse_json_ok [OF v(1)], of line_break "[]"] v(2) by simp
  obtain w where w: "json_document w raw" "strict_tree (sc_limits sc) w" "x = raw_compact w"
    using assms(3) unfolding strict_json_document by blast
  have wv: "w = v" using w(1) pj by (simp add: parse_json_exact [symmetric])
  obtain ts where ts: "text_of (RObj ts) (object_text ms)" using text_object [OF ms(3)] by blast
  have "v = RObj ts" by (rule text_unique [OF ts]) (use v(1) ms(1) in simp)
  then have x: "x = object_text ms" using ts w(3) wv by (simp add: text_of_def)
  have "raw_distinct v" using w(2) wv by (simp add: strict_tree_def)
  then have "object_of x = Inr ms" unfolding x using read_object [OF ms(3)] v(1) ms(1) by simp
  then show ?thesis using ms(2) strict_json_strict [OF assms(3)] by blast
qed

lemma read_member:
  assumes "strict_text l x" "object_of x = Inr ms" "map_of ms k = Some (raw_array xs)" "\<forall>x \<in> set xs. \<exists>v. text_of v x"
  shows "array_of (raw_array xs) = Inr xs"
proof -
  obtain vs where "list_all2 text_of vs xs" using texts_exist [OF assms(4)] by blast
  then show ?thesis using read_array strict_object(2) [OF assms(1,2) map_of_SomeD [OF assms(3)]] by blast
qed

text \<open>The three parts of the root: the kinds, the page arrays, and what is left.\<close>

lemma file_kinds_read:
  assumes ok: "sidecar_ok sc" and x: "strict_text (sc_limits sc) x" "object_of x = Inr ms" "map_of ms = map_of (marshal_root sc)"
    and few: "int (length (sc_elements sc)) \<le> al_max_elements (sc_limits sc)"
  shows "parse_kinds (sc_limits sc) kinds ms [] 0 = Inr (fold AList.delete kinds ms, numbered (value_at sc) (file_keys sc))"
proof -
  let ?l = "sc_limits sc"
  note fk = file_keys_facts [OF ok]
  have "parse_kinds ?l kinds ms (numbered (value_at sc) []) (int (length ([] :: element_key list)))
      = Inr (fold AList.delete kinds ms, numbered (value_at sc) ([] @ concat (map (kind_keys sc) kinds)))"
  proof (rule parse_kinds_run)
    show "\<forall>kind \<in> set kinds. map_of ms kind = Some (raw_array (map (value_at sc) (kind_keys sc kind)))
        \<and> array_of (raw_array (map (value_at sc) (kind_keys sc kind))) = Inr (map (value_at sc) (kind_keys sc kind))
        \<and> (\<forall>k \<in> set (kind_keys sc kind). ek_kind k = kind \<and> get_id (value_at sc k) ?l = Inr (ek_id k))"
    proof (intro ballI conjI)
      fix kind assume kind: "kind \<in> set kinds"
      show m: "map_of ms kind = Some (raw_array (map (value_at sc) (kind_keys sc kind)))"
        using kind by (simp add: x(3) marshal_root_map element_values_keys)
      show "array_of (raw_array (map (value_at sc) (kind_keys sc kind))) = Inr (map (value_at sc) (kind_keys sc kind))"
        by (rule read_member [OF x(1,2) m]) (use value_at_ok [OF ok] text_strict in \<open>auto simp: kind_keys_def element_ok_def\<close>)
      fix k assume "k \<in> set (kind_keys sc kind)"
      then show "ek_kind k = kind" "get_id (value_at sc k) ?l = Inr (ek_id k)"
        using value_at_ok [OF ok] by (auto simp: kind_keys_def element_ok_def)
    qed
  qed (use fk(1,3) few in \<open>simp_all add: file_keys_def [symmetric] distinct_kinds\<close>)
  then show ?thesis by (simp add: numbered_def file_keys_def)
qed

lemma array_values_text:
  assumes ok: "sidecar_ok sc" and y: "y \<in> set (map (array_value sc name) (array_keys sc name))"
  shows "\<exists>v. text_of v y"
proof -
  obtain k where k: "k \<in> set (array_keys sc name)" "y = array_value sc name k" using y by auto
  then have "k \<in> set (sorted_entries (sc_entries sc))" by (auto simp: array_keys_def split: if_splits)
  then have "strict_text (sc_limits sc) (entry_value sc k)" using entry_facts(2) [OF ok] by (simp add: entry_ok_def)
  then show ?thesis using k(2) text_strict text_number by (auto simp: array_value_def)
qed

lemma file_pages_read:
  assumes ok: "sidecar_ok sc" and x: "strict_text (sc_limits sc) x" "object_of x = Inr ms" "map_of ms = map_of (marshal_root sc)"
    and s: "sc_limits s = sc_limits sc" "length (sc_elements s) = length (sc_elements sc)"
    and few: "int (length (sc_elements sc)) + int (length (sc_entries sc)) \<le> al_max_elements (sc_limits sc)"
  shows "parse_page_arrays s page_arrays (fold AList.delete kinds ms) []
    = Inr (fold AList.delete page_arrays (fold AList.delete kinds ms), map (\<lambda>k. (k, entry_value sc k)) (concat (map (array_keys sc) page_arrays)))"
proof -
  note ak = array_keys_distinct [OF ok]
  have "parse_page_arrays s page_arrays (fold AList.delete kinds ms) []
    = Inr (fold AList.delete page_arrays (fold AList.delete kinds ms), [] @ map (\<lambda>k. (k, entry_value sc k)) (concat (map (array_keys sc) page_arrays)))"
  proof (rule parse_page_arrays_run [where f = "array_value sc"])
    show "\<forall>name \<in> set page_arrays. map_of (fold AList.delete kinds ms) name = Some (raw_array (map (array_value sc name) (array_keys sc name)))
      \<and> array_of (raw_array (map (array_value sc name) (array_keys sc name))) = Inr (map (array_value sc name) (array_keys sc name))
      \<and> (\<forall>k \<in> set (array_keys sc name). \<exists>p. page_entry name (array_value sc name k) = Inr (p, nk_family k, entry_value sc k) \<and> page_number p = Inr (nk_page k))
      \<and> distinct (map nk_page (array_keys sc name))"
    proof (intro ballI conjI)
      fix name assume name: "name \<in> set page_arrays"
      have m: "map_of ms name = Some (raw_array (map (array_value sc name) (array_keys sc name)))"
        using name unfolding x(3) marshal_root_map array_values_keys by (auto simp: page_arrays_def kinds_def)
      then show "map_of (fold AList.delete kinds ms) name = Some (raw_array (map (array_value sc name) (array_keys sc name)))"
        using name by (auto simp: am.get_fold_del page_arrays_def kinds_def)
      show "array_of (raw_array (map (array_value sc name) (array_keys sc name))) = Inr (map (array_value sc name) (array_keys sc name))"
        by (rule read_member [OF x(1,2) m]) (use array_values_text [OF ok] in blast)
      show "distinct (map nk_page (array_keys sc name))" by (rule ak(1))
      fix k assume "k \<in> set (array_keys sc name)"
      then show "\<exists>p. page_entry name (array_value sc name k) = Inr (p, nk_family k, entry_value sc k) \<and> page_number p = Inr (nk_page k)"
        by (rule array_keys_read [OF ok name])
    qed
  qed (use ak(2,4) few s in \<open>simp_all add: distinct_page_arrays\<close>)
  then show ?thesis by simp
qed

lemma meta_not_reserved:
  assumes "sidecar_ok sc" "map_of (sc_meta sc) key = Some v"
  shows "meta_ok (sc_limits sc) key v" "key \<notin> set kinds" "key \<notin> set page_arrays"
proof -
  show m: "meta_ok (sc_limits sc) key v" using assms(1) map_of_SomeD [OF assms(2)] by (auto simp: sidecar_ok_def)
  show "key \<notin> set kinds" using m kind_set_index [of key] by (auto simp: meta_ok_def reserved_def)
  show "key \<notin> set page_arrays" using m by (auto simp: meta_ok_def reserved_def page_arrays_def)
qed

lemma file_rest_read:
  assumes "sidecar_ok sc" "map_of ms = map_of (marshal_root sc)"
  shows "map_of (fold AList.delete page_arrays (fold AList.delete kinds ms)) = map_of (sc_meta sc)"
proof
  fix key
  have none: "map_of (sc_meta sc) key = None" if "key \<in> set kinds \<or> key \<in> set page_arrays"
    using that meta_not_reserved [OF assms(1), of key] by (cases "map_of (sc_meta sc) key") auto
  have rest: "map_of (marshal_root sc) key = map_of (sc_meta sc) key" if k: "key \<notin> set kinds" "key \<notin> set page_arrays"
  proof -
    have "key \<noteq> ''deletedPdfPages''" "key \<noteq> ''permanentlyDeletedPdfPages''" "key \<noteq> ''pdfPageTemplates''"
      using k(2) by (auto simp: page_arrays_def)
    then show ?thesis using k(1) by (simp only: marshal_root_map if_False)
  qed
  have "map_of (fold AList.delete page_arrays (fold AList.delete kinds ms)) key
      = (if key \<in> set page_arrays then None else if key \<in> set kinds then None else map_of (marshal_root sc) key)"
    by (simp only: am.get_fold_del assms(2))
  then show "map_of (fold AList.delete page_arrays (fold AList.delete kinds ms)) key = map_of (sc_meta sc) key"
    using none rest by (cases "key \<in> set page_arrays"; cases "key \<in> set kinds") simp_all
qed

text \<open>The sidecar that is read back.\<close>

definition reread :: "sidecar \<Rightarrow> (string \<times> string) list \<Rightarrow> sidecar" where
  "reread sc root = (new_sidecar (sc_limits sc))\<lparr>sc_elements := numbered (value_at sc) (file_keys sc),
     sc_entries := map (\<lambda>k. (k, entry_value sc k)) (concat (map (array_keys sc) page_arrays)), sc_meta := root\<rparr>"

lemma reread_simps [simp]:
  "sc_limits (reread sc root) = sc_limits sc" "sc_elements (reread sc root) = numbered (value_at sc) (file_keys sc)"
  "sc_entries (reread sc root) = map (\<lambda>k. (k, entry_value sc k)) (concat (map (array_keys sc) page_arrays))"
  "sc_meta (reread sc root) = root"
  by (simp_all add: reread_def new_sidecar_def)

lemma reread_ordered:
  assumes ok: "sidecar_ok sc"
  shows "ordered_elements (reread sc root) = file_keys sc"
proof -
  let ?ks = "file_keys sc"
  note fk = file_keys_facts [OF ok]
  have vk: "\<forall>k \<in> fst ` set (sc_elements (reread sc root)). valid_kind k"
    unfolding reread_simps set_map [symmetric] numbered_keys fk(2) using element_kind [OF value_at_ok [OF ok]] by blast
  have "sorted (map (order_rank (numbered (value_at sc) ?ks)) ?ks)"
    unfolding sorted_iff_nth_mono_less
  proof (intro allI impI)
    fix i j assume ij: "i < j" "j < length (map (order_rank (numbered (value_at sc) ?ks)) ?ks)"
    have "kind_index (ek_kind (?ks ! i)) \<le> kind_index (ek_kind (?ks ! j))"
      using sorted_nth_mono [OF fk(4), of i j] ij by simp
    then show "map (order_rank (numbered (value_at sc) ?ks)) ?ks ! i \<le> map (order_rank (numbered (value_at sc) ?ks)) ?ks ! j"
      using ij numbered_nth [OF fk(1), of i] numbered_nth [OF fk(1), of j]
      by (auto simp: order_rank_def order_of_def less_eq_prod_def)
  qed
  then have "sort_key (order_rank (numbered (value_at sc) ?ks)) ?ks = ?ks" by (rule sort_key_id)
  then show ?thesis using ordered_elements_key [OF vk] by (simp del: set_map)
qed

lemma reread_content:
  assumes ok: "sidecar_ok sc" and root: "map_of root = map_of (sc_meta sc)"
  shows "same_content (reread sc root) sc"
proof -
  let ?p = "reread sc root" and ?ks = "file_keys sc"
  note fk = file_keys_facts [OF ok] and ak = array_keys_distinct [OF ok]
  have val: "value_at ?p k = value_at sc k" if k: "k \<in> set ?ks" for k
  proof -
    obtain i where i: "i < length ?ks" "k = ?ks ! i" using k by (auto simp: in_set_conv_nth)
    show ?thesis unfolding value_at_def [of ?p] reread_simps i(2) numbered_nth [OF fk(1) i(1)] by simp
  qed
  have "element_values ?p kind = element_values sc kind" if "kind \<in> set kinds" for kind
  proof -
    have "kind_keys ?p kind = kind_keys sc kind" unfolding kind_keys_def [of ?p] reread_ordered [OF ok] by (rule fk(5) [OF that])
    moreover have "set (kind_keys sc kind) \<subseteq> set ?ks" using fk(2) by (auto simp: kind_keys_def)
    ultimately show ?thesis unfolding element_values_keys using val by (auto intro: map_cong)
  qed
  then have "kind_values ?p = kind_values sc" by (simp add: kind_values_def)
  moreover have "map_of (sc_entries ?p) k = map_of (sc_entries sc) k" for k
  proof (cases "k \<in> set (sorted_entries (sc_entries sc))")
    case True
    then show ?thesis unfolding reread_simps map_of_map_pair ak(3) using entry_facts(1) [OF ok True] by simp
  next
    case False
    then have "map_of (sc_entries sc) k = None" by (simp add: sorted_entries_def map_of_eq_None_iff)
    then show ?thesis unfolding reread_simps map_of_map_pair ak(3) using False by simp
  qed
  ultimately show ?thesis using root unfolding same_content_def by auto
qed

lemma file_read_back:
  assumes ok: "sidecar_ok sc" and raw: "annot_marshal sc = Inr raw" "is_ok (strict_json (sc_limits sc) raw (al_max_bytes (sc_limits sc)))"
    and few: "int (length (sc_elements sc)) + int (length (sc_entries sc)) \<le> al_max_elements (sc_limits sc)"
  shows "\<exists>p. annot_parse raw (sc_limits sc) = Inr p \<and> same_content p sc \<and> ordered_elements p = file_keys sc"
proof -
  let ?l = "sc_limits sc"
  have pos: "limits_positive ?l" using ok by (simp add: sidecar_ok_def)
  then have norm: "annot_normalized ?l = Inr ?l"
    by (simp add: annot_normalized_def optional_limit_def Let_def limits_positive_def)
  obtain x where x: "strict_json ?l raw (al_max_bytes ?l) = Inr x" using raw(2) by (cases "strict_json ?l raw (al_max_bytes ?l)") simp_all
  obtain ms where ms: "strict_text ?l x" "object_of x = Inr ms" "map_of ms = map_of (marshal_root sc)"
    using file_strict [OF ok raw(1) x] by blast
  define root where "root = fold AList.delete page_arrays (fold AList.delete kinds ms)"
  let ?p = "reread sc root"
  have few1: "int (length (sc_elements sc)) \<le> al_max_elements ?l" using few by simp
  have kinds: "parse_kinds ?l kinds ms [] 0 = Inr (fold AList.delete kinds ms, numbered (value_at sc) (file_keys sc))"
    by (rule file_kinds_read [OF ok ms few1])
  have meta: "map_of root = map_of (sc_meta sc)" unfolding root_def by (rule file_rest_read [OF ok ms(3)])
  have entries: "parse_entries (fold AList.delete kinds ms) ((new_sidecar ?l)\<lparr>sc_elements := numbered (value_at sc) (file_keys sc)\<rparr>)
      = Inr (root, ?p\<lparr>sc_meta := []\<rparr>)"
    using file_pages_read [OF ok ms _ _ few, of "(new_sidecar ?l)\<lparr>sc_elements := numbered (value_at sc) (file_keys sc)\<rparr>"]
      file_keys_facts(3) [OF ok] by (simp add: parse_entries_def new_sidecar_def reread_def root_def)
  have structural: "check_arrays root [''appendedPages'', ''removedPages''] = Inr ()"
    using meta_not_reserved(1) [OF ok] by (intro check_arrays_run) (auto simp: meta meta_ok_def structural_def)
  have content: "same_content ?p sc" by (rule reread_content [OF ok meta])
  have "distinct (map fst root)" unfolding root_def by (intro am.keys_fold_del strict_object(1) [OF ms(1,2)])
  then have "sidecar_maps ?p" using array_keys_distinct(2) [OF ok] pos by (simp add: sidecar_maps_def o_def limits_positive_def)
  then have again: "annot_marshal ?p = Inr raw"
    using annot_marshal_cong [OF _ sidecar_ok_maps [OF ok] content] raw(1) by simp
  have strokes: "\<not> map_of ms ''strokes'' = None" by (simp add: ms(3) marshal_root_map kinds_def)
  have p: "(?p\<lparr>sc_meta := []\<rparr>)\<lparr>sc_meta := root\<rparr> = ?p" by (simp add: reread_def)
  have "annot_parse raw ?l = Inr ?p"
    unfolding annot_parse_def norm x ms(2) rbind.simps if_not_P [OF strokes] kinds prod.case entries structural Let_def p again ..
  then show ?thesis using content reread_ordered [OF ok] by blast
qed

end
