(* ===== verification/Annot_Ops_Round.thy ===== *)
theory Annot_Ops_Round
  imports Annot_Round
begin

text \<open>
  \<open>ParseOps\<close> reads back what \<open>MarshalOps\<close> writes (\<^verbatim>\<open>internal/core/annot/ops.go\<close>), provided
  the text as a whole stays within the depth and the number of values allowed.
\<close>

section \<open>Small texts\<close>

lemma text_quoted: "valid_string s \<Longrightarrow> text_of (RStr (plain_body s)) (quoted s)"
  unfolding text_of_def using json_literal [of "plain_body s" 0] plain_body_read [of s] by (auto simp: quoted_def)

lemma read_members:
  assumes "strict_text l (object_text ms)" "\<forall>(k, v) \<in> set ms. valid_string k \<and> (\<exists>t. text_of t v)"
  shows "object_of (object_text ms) = Inr ms" and "(k, v) \<in> set ms \<Longrightarrow> strict_text l v"
proof -
  obtain w where w: "parse_json (object_text ms) = Some w" "strict_tree l w" using assms(1) by (auto elim: strict_textE)
  show o: "object_of (object_text ms) = Inr ms" by (rule read_object [OF assms(2) w(1)]) (use w(2) in \<open>simp add: strict_tree_def\<close>)
  show "strict_text l v" if "(k, v) \<in> set ms" using strict_object(2) [OF assms(1) o that] by blast
qed

lemma object_text_exists:
  "\<forall>(k, v) \<in> set ms. valid_string k \<and> (\<exists>t. text_of t v) \<Longrightarrow> \<exists>t. text_of t (object_text ms)"
  using text_object by blast

lemma read_string_field:
  assumes "valid_string s"
  shows "map_of obj name = Some (quoted s) \<Longrightarrow> strict_text l (quoted s) \<Longrightarrow> string_field obj name = Some s"
proof -
  assume m: "map_of obj name = Some (quoted s)" and st: "strict_text l (quoted s)"
  obtain w where w: "parse_json (quoted s) = Some w" using st by (auto elim: strict_textE)
  then have "w = RStr (plain_body s)" using text_unique [OF text_quoted [OF assms]] by blast
  then show ?thesis using m w plain_body_read [OF assms] by (simp add: string_field_def)
qed

lemma number_words: "string_of_int i \<noteq> ''null''" "string_of_int i \<noteq> ''true''" "string_of_int i \<noteq> ''false''"
  using number_chars [OF string_of_int_number [of i]] by (auto simp: is_digit_def)

lemma read_int_field:
  assumes "- (2 ^ 63) \<le> i" "i < 2 ^ 63" "map_of obj name = Some (string_of_int i)" "strict_text l (string_of_int i)"
  shows "int_field obj name = Some i"
proof -
  obtain w where w: "parse_json (string_of_int i) = Some w" using assms(4) by (auto elim: strict_textE)
  then have "w = RWord (string_of_int i)" using text_unique [OF text_number] by blast
  then show ?thesis using assms(3) w number_words parse_int64_string [OF assms(1,2)] by (simp add: int_field_def)
qed

section \<open>The texts of operations\<close>

lemma encode_element_key_text: "encode_element_key k = object_text [(''kind'', quoted (ek_kind k)), (''id'', quoted (ek_id k))]"
  by (simp add: encode_element_key_def append_member_first append_member_text object_text_def)

lemma encode_entry_key_text: "encode_entry_key k = object_text [(''family'', quoted (nk_family k)), (''page'', string_of_int (nk_page k))]"
  by (simp add: encode_entry_key_def append_member_first append_member_text object_text_def)

lemma encode_item_text:
  "encode_item p key v = object_text (if p = OpPut then [(''put'', key), (''value'', v)] else [(''del'', key)])"
  by (simp add: encode_item_def append_member_first append_member_text object_text_def)

lemma encode_ops_text:
  "encode_ops c = object_text
    ([(''elements'', raw_array (map (\<lambda>e. encode_item (eo_op e) (encode_element_key (eo_key e)) (eo_value e)) (ao_elements c))),
      (''entries'', raw_array (map (\<lambda>e. encode_item (no_op e) (encode_entry_key (no_key e)) (no_value e)) (ao_entries c))),
      (''meta'', object_text [(''put'', object_text (sorted_members (ao_meta_put c))), (''del'', raw_array (map quoted (ao_meta_del c)))])]
     @ (if ao_replace c then [(''replace'', ''true'')] else []))"
proof -
  have "fold (append_key m) (sort (map fst m)) [CHR ''{''] @ ''}'' = object_text (sorted_members m)" for m
    using fold_append_key [of m "sort (map fst m)" "CHR ''{''" "[]"]
    by (simp add: members_text_empty object_text_def sorted_members_def)
  then show ?thesis
    by (simp add: encode_ops_def Let_def append_member_first append_member_text object_text_def)
qed

lemma element_key_ok:
  assumes "valid_element_key k l = Inr ()"
  shows "valid_string (ek_kind k)" "valid_string (ek_id k)"
proof -
  have "0 \<le> kind_index (ek_kind k)" and i: "valid_string (ek_id k)"
    using assms by (auto simp: valid_element_key_def split: if_splits)
  then have "ek_kind k \<in> set kinds" using kind_index_cases by blast
  then show "valid_string (ek_kind k)" by (auto simp: kinds_def)
qed (use assms in \<open>auto simp: valid_element_key_def split: if_splits\<close>)

lemma read_element_key:
  assumes "valid_element_key k l = Inr ()" "strict_text l2 (encode_element_key k)"
  shows "\<exists>obj. object_of (encode_element_key k) = Inr obj \<and> is_ok (only_fields obj [''kind'', ''id'']) \<and> length obj = 2 \<and> decode_element_key obj = Some k"
proof -
  let ?ms = "[(''kind'', quoted (ek_kind k)), (''id'', quoted (ek_id k))]"
  note v = element_key_ok [OF assms(1)]
  have t: "\<forall>(k, v) \<in> set ?ms. valid_string k \<and> (\<exists>t. text_of t v)" using text_quoted [OF v(1)] text_quoted [OF v(2)] by auto
  note r = read_members [OF assms(2) [unfolded encode_element_key_text] t]
  have "string_field ?ms ''kind'' = Some (ek_kind k)" "string_field ?ms ''id'' = Some (ek_id k)"
    using read_string_field [OF v(1), of ?ms "''kind''" l2] read_string_field [OF v(2), of ?ms "''id''" l2] r(2) by auto
  then have "decode_element_key ?ms = Some k" by (simp add: decode_element_key_def)
  then show ?thesis using r(1) unfolding encode_element_key_text by (intro exI [of _ ?ms]) (simp add: only_fields_def)
qed

lemma entry_key_ok:
  assumes "valid_entry k v p = Inr ()"
  shows "valid_string (nk_family k)" "0 < nk_page k" "nk_page k \<le> 2147483647"
  using assms by (auto simp: valid_entry_def pdf_page_state_def pdf_page_templates_def split: if_splits)

lemma read_entry_key:
  assumes "valid_entry k v p = Inr ()" "strict_text l2 (encode_entry_key k)"
  shows "\<exists>obj. object_of (encode_entry_key k) = Inr obj \<and> is_ok (only_fields obj [''family'', ''page'']) \<and> length obj = 2 \<and> decode_entry_key obj = Some k"
proof -
  let ?ms = "[(''family'', quoted (nk_family k)), (''page'', string_of_int (nk_page k))]"
  note v = entry_key_ok [OF assms(1)]
  have t: "\<forall>(k, v) \<in> set ?ms. valid_string k \<and> (\<exists>t. text_of t v)" using text_quoted [OF v(1)] text_number by auto
  note r = read_members [OF assms(2) [unfolded encode_entry_key_text] t]
  have "string_field ?ms ''family'' = Some (nk_family k)" using read_string_field [OF v(1), of ?ms "''family''" l2] r(2) by auto
  moreover have "int_field ?ms ''page'' = Some (nk_page k)" using read_int_field [of "nk_page k" ?ms "''page''" l2] v(2,3) r(2) by auto
  ultimately have "decode_entry_key ?ms = Some k" by (simp add: decode_entry_key_def)
  then show ?thesis using r(1) unfolding encode_entry_key_text by (intro exI [of _ ?ms]) (simp add: only_fields_def)
qed

text \<open>One item: an operation with its key, and its value when it puts one.\<close>

definition item_members :: "op_kind \<Rightarrow> string \<Rightarrow> string \<Rightarrow> (string \<times> string) list" where
  "item_members p key v = (if p = OpPut then [(''put'', key), (''value'', v)] else [(''del'', key)])"

lemma item_members_text:
  assumes "\<exists>t. text_of t key" "p = OpPut \<longrightarrow> (\<exists>t. text_of t v)"
  shows "\<forall>(k, v) \<in> set (item_members p key v). valid_string k \<and> (\<exists>t. text_of t v)"
  using assms by (auto simp: item_members_def)

lemma read_item:
  assumes "strict_text l2 (encode_item p key v)" "p = OpPut \<or> p = OpDel \<and> v = []"
    and "\<exists>t. text_of t key" "p = OpPut \<longrightarrow> (\<exists>t. text_of t v)"
  shows "strict_text l2 key" and "object_of key = Inr obj \<Longrightarrow> parse_item (encode_item p key v) = Inr (p, obj, v)"
proof -
  have e: "encode_item p key v = object_text (item_members p key v)" by (simp add: encode_item_text item_members_def)
  note r = read_members [OF assms(1) [unfolded e] item_members_text [OF assms(3,4)]]
  show "strict_text l2 key"
    by (rule r(2) [of "if p = OpPut then ''put'' else ''del''"]) (simp_all add: item_members_def)
  show "parse_item (encode_item p key v) = Inr (p, obj, v)" if o: "object_of key = Inr obj"
    using assms(2) o unfolding e parse_item_def r(1) as_noncanonical_def sum.case by (auto simp: item_members_def only_fields_def)
qed

lemma encode_element_key_tree: "valid_element_key k l = Inr () \<Longrightarrow> \<exists>t. text_of t (encode_element_key k)"
  unfolding encode_element_key_text using text_quoted element_key_ok [of k l] by (intro object_text_exists) auto

lemma encode_entry_key_tree: "valid_entry k v p = Inr () \<Longrightarrow> \<exists>t. text_of t (encode_entry_key k)"
  unfolding encode_entry_key_text using text_quoted text_number entry_key_ok [of k v p] by (intro object_text_exists) auto

lemma element_op_text:
  assumes "element_op_ok l e"
  shows "\<exists>t. text_of t (encode_item (eo_op e) (encode_element_key (eo_key e)) (eo_value e))"
    and "strict_text l2 (encode_item (eo_op e) (encode_element_key (eo_key e)) (eo_value e)) \<Longrightarrow>
      parse_element_op (encode_item (eo_op e) (encode_element_key (eo_key e)) (eo_value e)) = Inr e"
proof -
  have v: "valid_element_key (eo_key e) l = Inr ()" using assms by (simp add: element_op_ok_def)
  note k = encode_element_key_tree [OF v]
  have p: "eo_op e = OpPut \<or> eo_op e = OpDel \<and> eo_value e = []" and t: "eo_op e = OpPut \<longrightarrow> (\<exists>t. text_of t (eo_value e))"
    using assms text_strict by (cases "eo_op e"; auto simp: element_op_ok_def)+
  show "\<exists>t. text_of t (encode_item (eo_op e) (encode_element_key (eo_key e)) (eo_value e))"
    unfolding encode_item_text item_members_def [symmetric] by (rule object_text_exists) (rule item_members_text [OF k t])
  assume s: "strict_text l2 (encode_item (eo_op e) (encode_element_key (eo_key e)) (eo_value e))"
  note r = read_item [OF s p k t]
  obtain obj where obj: "object_of (encode_element_key (eo_key e)) = Inr obj" "is_ok (only_fields obj [''kind'', ''id''])"
    "length obj = 2" "decode_element_key obj = Some (eo_key e)"
    using read_element_key [OF v r(1)] by blast
  show "parse_element_op (encode_item (eo_op e) (encode_element_key (eo_key e)) (eo_value e)) = Inr e"
    by (simp add: parse_element_op_def r(2) [OF obj(1)] obj(2-4))
qed

lemma entry_op_text:
  assumes "entry_op_ok l e"
  shows "\<exists>t. text_of t (encode_item (no_op e) (encode_entry_key (no_key e)) (no_value e))"
    and "strict_text l2 (encode_item (no_op e) (encode_entry_key (no_key e)) (no_value e)) \<Longrightarrow>
      parse_entry_op (encode_item (no_op e) (encode_entry_key (no_key e)) (no_value e)) = Inr e"
proof -
  have v: "valid_entry (no_key e) (no_value e) (no_op e) = Inr ()" using assms by (simp add: entry_op_ok_def)
  note k = encode_entry_key_tree [OF v]
  have p: "no_op e = OpPut \<or> no_op e = OpDel \<and> no_value e = []" and t: "no_op e = OpPut \<longrightarrow> (\<exists>t. text_of t (no_value e))"
    using assms text_strict by (cases "no_op e"; auto simp: entry_op_ok_def)+
  show "\<exists>t. text_of t (encode_item (no_op e) (encode_entry_key (no_key e)) (no_value e))"
    unfolding encode_item_text item_members_def [symmetric] by (rule object_text_exists) (rule item_members_text [OF k t])
  assume s: "strict_text l2 (encode_item (no_op e) (encode_entry_key (no_key e)) (no_value e))"
  note r = read_item [OF s p k t]
  obtain obj where obj: "object_of (encode_entry_key (no_key e)) = Inr obj" "is_ok (only_fields obj [''family'', ''page''])"
    "length obj = 2" "decode_entry_key obj = Some (no_key e)"
    using read_entry_key [OF v r(1)] by blast
  show "parse_entry_op (encode_item (no_op e) (encode_entry_key (no_key e)) (no_value e)) = Inr e"
    by (simp add: parse_entry_op_def r(2) [OF obj(1)] obj(2-4))
qed

section \<open>Lists of items\<close>

lemma rmap_map: "(\<And>x. x \<in> set xs \<Longrightarrow> f (g x) = Inr x) \<Longrightarrow> rmap f (map g xs) = Inr xs"
  by (induction xs) auto

lemma read_items:
  assumes "map_of obj name = Some (raw_array (map g xs))" "strict_text l (raw_array (map g xs))" "\<And>x. x \<in> set xs \<Longrightarrow> \<exists>t. text_of t (g x)"
    and "\<And>x. x \<in> set xs \<Longrightarrow> strict_text l (g x) \<Longrightarrow> f (g x) = Inr x"
  shows "parse_items_field obj name f = Inr xs"
proof -
  obtain vs where "list_all2 text_of vs (map g xs)" using texts_exist [of "map g xs"] assms(3) by auto
  then have arr: "array_of (raw_array (map g xs)) = Inr (map g xs)" by (rule read_array [OF _ assms(2)])
  have "f (g x) = Inr x" if "x \<in> set xs" for x
    using assms(4) [OF that] strict_array [OF assms(2) arr, of "g x"] that by simp
  then show ?thesis by (simp add: parse_items_field_def assms(1) arr as_noncanonical_def rmap_map)
qed

lemma raw_array_text: "(\<And>x. x \<in> set xs \<Longrightarrow> \<exists>t. text_of t (g x)) \<Longrightarrow> \<exists>t. text_of t (raw_array (map g xs))"
  using texts_exist [of "map g xs"] text_array by fastforce

lemma read_quoted:
  assumes "valid_string s" "strict_text l (quoted s)"
  shows "string_item (quoted s) = Inr s"
proof -
  obtain w where w: "parse_json (quoted s) = Some w" using assms(2) by (auto elim: strict_textE)
  then have "w = RStr (plain_body s)" using text_unique [OF text_quoted [OF assms(1)]] by blast
  then show ?thesis using w plain_body_read [OF assms(1)] by (simp add: string_item_def)
qed

section \<open>The whole set\<close>

definition ops_members :: "annot_ops \<Rightarrow> (string \<times> string) list" where
  "ops_members c = [(''elements'', raw_array (map (\<lambda>e. encode_item (eo_op e) (encode_element_key (eo_key e)) (eo_value e)) (ao_elements c))),
      (''entries'', raw_array (map (\<lambda>e. encode_item (no_op e) (encode_entry_key (no_key e)) (no_value e)) (ao_entries c))),
      (''meta'', object_text [(''put'', object_text (sorted_members (ao_meta_put c))), (''del'', raw_array (map quoted (ao_meta_del c)))])]
     @ (if ao_replace c then [(''replace'', ''true'')] else [])"

lemma text_true: "text_of (RWord ''true'') ''true''"
  unfolding text_of_def using json_word_rule [of "''true''" 0] by (auto simp: json_word_def)

lemma meta_members_text:
  assumes "ops_ok l c"
  shows "\<forall>(k, v) \<in> set (ao_meta_put c). valid_string k \<and> (\<exists>t. text_of t v)" and "sorted_members (ao_meta_put c) = ao_meta_put c"
    and "\<forall>(k, v) \<in> set [(''put'', object_text (ao_meta_put c)), (''del'', raw_array (map quoted (ao_meta_del c)))]. valid_string k \<and> (\<exists>t. text_of t v)"
proof -
  show p: "\<forall>(k, v) \<in> set (ao_meta_put c). valid_string k \<and> (\<exists>t. text_of t v)"
    using assms text_strict by (fastforce simp: ops_ok_def meta_ok_def)
  show "sorted_members (ao_meta_put c) = ao_meta_put c" using assms by (intro sorted_members_id) (simp_all add: ops_ok_def)
  have "\<exists>t. text_of t (raw_array (map quoted (ao_meta_del c)))"
    by (rule raw_array_text) (use assms text_quoted in \<open>fastforce simp: ops_ok_def\<close>)
  then show "\<forall>(k, v) \<in> set [(''put'', object_text (ao_meta_put c)), (''del'', raw_array (map quoted (ao_meta_del c)))]. valid_string k \<and> (\<exists>t. text_of t v)"
    using object_text_exists [OF p] by auto
qed

lemma ops_members_text:
  assumes "ops_ok l c"
  shows "\<forall>(k, v) \<in> set (ops_members c). valid_string k \<and> (\<exists>t. text_of t v)"
proof -
  have e: "\<exists>t. text_of t (raw_array (map (\<lambda>e. encode_item (eo_op e) (encode_element_key (eo_key e)) (eo_value e)) (ao_elements c)))"
    by (rule raw_array_text) (use assms element_op_text(1) in \<open>auto simp: ops_ok_def\<close>)
  have n: "\<exists>t. text_of t (raw_array (map (\<lambda>e. encode_item (no_op e) (encode_entry_key (no_key e)) (no_value e)) (ao_entries c)))"
    by (rule raw_array_text) (use assms entry_op_text(1) in \<open>auto simp: ops_ok_def\<close>)
  note m = object_text_exists [OF meta_members_text(3) [OF assms]]
  show ?thesis using e n m text_true meta_members_text(2) [OF assms] unfolding ops_members_def by auto
qed

lemma read_meta:
  assumes "ops_ok l c" "map_of obj ''meta'' = Some (object_text [(''put'', object_text (ao_meta_put c)), (''del'', raw_array (map quoted (ao_meta_del c)))])"
    and "strict_text l2 (object_text [(''put'', object_text (ao_meta_put c)), (''del'', raw_array (map quoted (ao_meta_del c)))])"
  shows "parse_meta obj = Inr (ao_meta_put c, ao_meta_del c)"
proof -
  let ?ms = "[(''put'', object_text (ao_meta_put c)), (''del'', raw_array (map quoted (ao_meta_del c)))]"
  note t = meta_members_text [OF assms(1)] and r = read_members [OF assms(3) meta_members_text(3) [OF assms(1)]]
  have puts: "object_of (object_text (ao_meta_put c)) = Inr (ao_meta_put c)"
    by (rule read_members(1) [of l2]) (use r(2) t(1) in auto)
  have dels: "parse_items_field ?ms ''del'' string_item = Inr (ao_meta_del c)"
    by (rule read_items [where l = l2]) (use assms(1) r(2) text_quoted read_quoted in \<open>fastforce simp: ops_ok_def\<close>)+
  show ?thesis using puts dels unfolding parse_meta_def assms(2) by (simp add: r(1) only_fields_def as_noncanonical_def)
qed

lemma parse_encoded:
  assumes "ops_ok l c" "strict_text l2 (encode_ops c)" "ao_replace c \<longrightarrow> t" "annot_normalized l0 = Inr l1"
    and "strict_json l1 s (if t then al_max_state_bytes l1 else al_max_op_bytes l1) = Inr (encode_ops c)"
  shows "parse_ops_with s l0 t = checked_ops c l1 t"
proof -
  have e: "encode_ops c = object_text (ops_members c)" by (simp add: encode_ops_text ops_members_def)
  note r = read_members [OF assms(2) [unfolded e] ops_members_text [OF assms(1)]] and m = meta_members_text(2) [OF assms(1)]
  have els: "parse_items_field (ops_members c) ''elements'' parse_element_op = Inr (ao_elements c)"
  proof (rule read_items [where l = l2])
    show m: "map_of (ops_members c) ''elements'' = Some (raw_array (map (\<lambda>e. encode_item (eo_op e) (encode_element_key (eo_key e)) (eo_value e)) (ao_elements c)))"
      by (simp add: ops_members_def)
    show "strict_text l2 (raw_array (map (\<lambda>e. encode_item (eo_op e) (encode_element_key (eo_key e)) (eo_value e)) (ao_elements c)))"
      by (rule r(2) [OF map_of_SomeD [OF m]])
    fix e assume "e \<in> set (ao_elements c)"
    then have ok: "element_op_ok l e" using assms(1) by (simp add: ops_ok_def)
    show "\<exists>t. text_of t (encode_item (eo_op e) (encode_element_key (eo_key e)) (eo_value e))" by (rule element_op_text(1) [OF ok])
    assume "strict_text l2 (encode_item (eo_op e) (encode_element_key (eo_key e)) (eo_value e))"
    then show "parse_element_op (encode_item (eo_op e) (encode_element_key (eo_key e)) (eo_value e)) = Inr e" by (rule element_op_text(2) [OF ok])
  qed
  have ents: "parse_items_field (ops_members c) ''entries'' parse_entry_op = Inr (ao_entries c)"
  proof (rule read_items [where l = l2])
    show m: "map_of (ops_members c) ''entries'' = Some (raw_array (map (\<lambda>e. encode_item (no_op e) (encode_entry_key (no_key e)) (no_value e)) (ao_entries c)))"
      by (simp add: ops_members_def)
    show "strict_text l2 (raw_array (map (\<lambda>e. encode_item (no_op e) (encode_entry_key (no_key e)) (no_value e)) (ao_entries c)))"
      by (rule r(2) [OF map_of_SomeD [OF m]])
    fix e assume "e \<in> set (ao_entries c)"
    then have ok: "entry_op_ok l e" using assms(1) by (simp add: ops_ok_def)
    show "\<exists>t. text_of t (encode_item (no_op e) (encode_entry_key (no_key e)) (no_value e))" by (rule entry_op_text(1) [OF ok])
    assume "strict_text l2 (encode_item (no_op e) (encode_entry_key (no_key e)) (no_value e))"
    then show "parse_entry_op (encode_item (no_op e) (encode_entry_key (no_key e)) (no_value e)) = Inr e" by (rule entry_op_text(2) [OF ok])
  qed
  have meta: "parse_meta (ops_members c) = Inr (ao_meta_put c, ao_meta_del c)"
  proof (rule read_meta [OF assms(1)])
    show mm: "map_of (ops_members c) ''meta'' = Some (object_text [(''put'', object_text (ao_meta_put c)), (''del'', raw_array (map quoted (ao_meta_del c)))])"
      by (simp add: ops_members_def m)
    show "strict_text l2 (object_text [(''put'', object_text (ao_meta_put c)), (''del'', raw_array (map quoted (ao_meta_del c)))])"
      by (rule r(2) [OF map_of_SomeD [OF mm]])
  qed
  have rep: "(case map_of (ops_members c) ''replace'' of None \<Rightarrow> Inr False
       | Some r \<Rightarrow> if r \<noteq> ''true'' \<and> r \<noteq> ''false'' then Inl AErrNonCanonical else Inr (r = ''true'')) = Inr (ao_replace c)"
    by (simp add: ops_members_def)
  have only: "only_fields (ops_members c) ([''elements'', ''entries'', ''meta''] @ (if t then [''replace''] else [])) = Inr ()"
    using assms(3) by (simp add: only_fields_def ops_members_def)
  have c: "\<lparr>ao_elements = ao_elements c, ao_entries = ao_entries c, ao_meta_put = ao_meta_put c, ao_meta_del = ao_meta_del c, ao_replace = ao_replace c\<rparr> = c"
    by simp
  show ?thesis
    unfolding parse_ops_with_def assms(4,5) rbind.simps e r(1) as_noncanonical_def sum.case only rep els ents meta prod.case c ..
qed

text \<open>The text of checked operations, once its own depth and size are allowed, is read as those operations.\<close>

lemma parse_marshalled:
  assumes "annot_normalized l0 = Inr l" "ops_map o1" "marshal_ops_with l0 o1 t = Inr s"
    and "is_ok (strict_json l s (if t then al_max_state_bytes l else al_max_op_bytes l))"
  shows "parse_ops_with s l0 t = checked_ops o1 l t \<and> is_ok (checked_ops o1 l t)"
proof -
  obtain c where c: "checked_ops o1 l t = Inr c" "s = encode_ops c"
    using assms(3) unfolding marshal_ops_with_def assms(1) rbind.simps rbind_Inr_iff by blast
  note ok = checked_ops_ok [OF c(1) assms(2)]
  have rep: "ao_replace c \<longrightarrow> t" using ok(8) by (rule_tac checked_opsE [OF c(1)]) simp
  obtain x where x: "strict_json l s (if t then al_max_state_bytes l else al_max_op_bytes l) = Inr x"
    using assms(4) by (cases "strict_json l s (if t then al_max_state_bytes l else al_max_op_bytes l)") simp_all
  have "x = s \<and> strict_text l s"
  proof -
    have e: "s = object_text (ops_members c)" unfolding c(2) by (simp add: encode_ops_text ops_members_def)
    obtain ts where ts: "text_of (RObj ts) s" using text_object [OF ops_members_text [OF ok(1)]] e by blast
    obtain v where v: "json_document v s" "x = raw_compact v" using x unfolding strict_json_document by blast
    have "v = RObj ts" using text_unique [OF ts] v(1) by (simp add: parse_json_exact)
    then have "x = s" using v(2) ts by (simp add: text_of_def)
    then show ?thesis using strict_json_strict [OF x] by simp
  qed
  then have "parse_ops_with s l0 t = checked_ops c l t"
    using parse_encoded [OF ok(1) _ rep assms(1), of l s] x c(2) by simp
  moreover have "checked_ops c l t = Inr c" using checked_ops_again [OF c(1) assms(2), of "\<lambda>_. True"] by simp
  ultimately show ?thesis using c(1) by simp
qed

end
