(* ===== verification/Annot_Eval.thy ===== *)
theory Annot_Eval
  imports Annot_Ops_Round
begin

text \<open>
  Equations with which the annotation core is evaluated on concrete inputs: parsing with a
  depth no larger than the text, and reading plain bytes without counting runes.
\<close>

text \<open>No text nests deeper than it is long, so short texts can be parsed with a smaller depth.\<close>

lemma renders_depth:
  "renders d v t \<Longrightarrow> length t \<le> e \<Longrightarrow> renders e v t"
  "renders_items d vs t \<Longrightarrow> length t \<le> e \<Longrightarrow> renders_items e vs t"
  "renders_members d ms t \<Longrightarrow> length t \<le> e \<Longrightarrow> renders_members e ms t"
proof (induction arbitrary: e and e and e rule: renders_renders_items_renders_members.inducts)
  case (no_items w d)
  then show ?case by (cases e) (auto intro: json_rules)
next
  case (items d vs t)
  then show ?case by (cases e) (auto intro: json_rules)
next
  case (no_members w d)
  then show ?case by (cases e) (auto intro: json_rules)
next
  case (members d ms t)
  then show ?case by (cases e) (auto intro: json_rules)
qed (auto intro: json_rules)

lemma parse_value_exact:
  "(\<exists>r. parse_value d (2 * length s + 2) s = Some (v, r) \<and> skip_ws r = []) \<longleftrightarrow> (\<exists>w t w1. s = w @ t @ w1 \<and> blank w \<and> blank w1 \<and> renders d v t)"
proof
  assume "\<exists>r. parse_value d (2 * length s + 2) s = Some (v, r) \<and> skip_ws r = []"
  then obtain r where r: "parse_value d (2 * length s + 2) s = Some (v, r)" "skip_ws r = []" by blast
  obtain w t where "s = w @ t @ r" "blank w" "renders d v t" using parse_sound(1) [OF r(1)] by blast
  moreover have "blank r" using skip_ws_blank [of r] r(2) by auto
  ultimately show "\<exists>w t w1. s = w @ t @ w1 \<and> blank w \<and> blank w1 \<and> renders d v t" by blast
next
  assume "\<exists>w t w1. s = w @ t @ w1 \<and> blank w \<and> blank w1 \<and> renders d v t"
  then obtain w t w1 where s: "s = w @ t @ w1" "blank w" "blank w1" "renders d v t" by blast
  have "parse_value d (2 * length s + 2) (w @ t @ w1) = Some (v, w1)"
    by (rule parse_complete(1) [OF s(4,2)]) (use s in \<open>simp_all add: ends_word_blank\<close>)
  moreover have "skip_ws w1 = []" using skip_ws_append [OF s(3), of "[]"] by (simp add: skip_ws_def)
  ultimately show "\<exists>r. parse_value d (2 * length s + 2) s = Some (v, r) \<and> skip_ws r = []" using s(1) by blast
qed

definition parse_json_at :: "nat \<Rightarrow> string \<Rightarrow> raw option" where
  "parse_json_at d s = (case parse_value d (2 * length s + 2) s of
     Some (v, r) \<Rightarrow> if skip_ws r = [] then Some v else None | None \<Rightarrow> None)"

lemma parse_json_at_iff: "parse_json_at d s = Some v \<longleftrightarrow> (\<exists>w t w1. s = w @ t @ w1 \<and> blank w \<and> blank w1 \<and> renders d v t)"
  unfolding parse_value_exact [symmetric] by (auto simp: parse_json_at_def split: option.splits if_splits)

lemma parse_json_short [code]:
  "parse_json s = parse_json_at (if int (length s) < 10000 then length s else json_max_depth) s"
proof -
  have m: "parse_json s = parse_json_at json_max_depth s" by (simp only: parse_json_def parse_json_at_def)
  have e: "parse_json_at json_max_depth s = parse_json_at (length s) s" if le: "length s \<le> json_max_depth"
  proof -
    have "parse_json_at json_max_depth s = Some v \<longleftrightarrow> parse_json_at (length s) s = Some v" for v
    proof -
      have "renders json_max_depth v t \<longleftrightarrow> renders (length s) v t" if "length t \<le> length s" for t
        using renders_depth(1) [OF _ that, of json_max_depth] renders_mono(1) [OF _ le] by blast
      then show ?thesis unfolding parse_json_at_iff by (metis (no_types, lifting) le_add1 le_add2 le_trans length_append)
    qed
    then show ?thesis by (metis not_None_eq)
  qed
  show ?thesis unfolding m using e by (simp add: json_max_depth_def)
qed



text \<open>Plain bytes of a text are the common case; the general equations count runes in unary.\<close>

lemma ascii_decode: "bv c < 0x80 \<Longrightarrow> decode_rune (c # t) = (bv c, 1)"
  by (simp add: decode_rune_def seq_len_def)

lemma valid_string_code [code]:
  "valid_string s = (case s of [] \<Rightarrow> True | c # t \<Rightarrow>
     if bv c < 0x80 then valid_string t
     else decode_rune s \<noteq> (rune_error, 1) \<and> valid_string (drop (snd (decode_rune s)) s))"
proof (cases s)
  case (Cons c t)
  show ?thesis
  proof (cases "bv c < 0x80")
    case True
    then show ?thesis using Cons ascii_decode [OF True, of t] by (simp add: valid_string.simps [of "c # t"] rune_error_def)
  next
    case False
    then show ?thesis using Cons by (simp add: valid_string.simps [of "c # t"])
  qed
qed (simp add: valid_string.simps)

lemma plain_body_code [code]:
  "plain_body s = (case s of [] \<Rightarrow> [] | c # t \<Rightarrow>
     if 0x20 \<le> bv c \<and> bv c < 0x80 \<and> c \<noteq> quote_char \<and> c \<noteq> CHR 0x5C then c # plain_body t
     else let r = fst (decode_rune s); n = snd (decode_rune s) in
       (if r = rune_error \<and> n = 1 then CHR 0x5C # ''ufffd'' else plain_rune r) @ plain_body (drop n s))"
proof (cases s)
  case (Cons c t)
  show ?thesis
  proof (cases "0x20 \<le> bv c \<and> bv c < 0x80 \<and> c \<noteq> quote_char \<and> c \<noteq> CHR 0x5C")
    case True
    then have b: "bv c < 0x80" "bv c \<noteq> 0x22" "bv c \<noteq> 0x5C" using bv_inj [of c quote_char] bv_inj [of c "CHR 0x5C"] by auto
    have "plain_rune (bv c) = [c]"
      using True b by (simp add: plain_rune_def json_rune_def encode_rune_def scalar_def)
    then show ?thesis using Cons True ascii_decode [OF b(1), of t] by (simp add: plain_body.simps [of "c # t"] rune_error_def)
  next
    case False
    then show ?thesis unfolding Cons list.case if_not_P [OF False] plain_body.simps [of "c # t"] by simp
  qed
qed (simp add: plain_body.simps)

end
