(* ===== verification/Annot_Correct.thy ===== *)
theory Annot_Correct
  imports Annot_Eval
begin

text \<open>
  What the annotation core promises, \<^verbatim>\<open>internal/core/annot\<close>: the properties, each with an
  instance evaluated on a small document.
\<close>

section \<open>A small document\<close>

definition stroke_a :: element_key where "stroke_a = \<lparr>ek_kind = ''strokes'', ek_id = ''a''\<rparr>"
definition stroke_text :: string where "stroke_text = ''{'' @ quoted ''id'' @ '':'' @ quoted ''a'' @ ''}''"
definition stroke_file :: string where "stroke_file = ''{'' @ quoted ''strokes'' @ '':['' @ stroke_text @ '']}''"
definition put_stroke :: annot_ops where
  "put_stroke = no_ops\<lparr>ao_elements := [\<lparr>eo_op = OpPut, eo_key = stroke_a, eo_value = stroke_text\<rparr>]\<rparr>"
definition del_stroke :: annot_ops where
  "del_stroke = no_ops\<lparr>ao_elements := [\<lparr>eo_op = OpDel, eo_key = stroke_a, eo_value = []\<rparr>]\<rparr>"

text \<open>The document with the stroke, read from the file or put at version 1, and after its deletion.\<close>

definition stroke_parsed :: sidecar where
  "stroke_parsed = empty_sidecar\<lparr>sc_elements := [(stroke_a, \<lparr>el_value = stroke_text, el_order = \<lparr>ok_version = 0, ok_ordinal = 0\<rparr>\<rparr>)]\<rparr>"
definition stroke_put :: sidecar where
  "stroke_put = empty_sidecar\<lparr>sc_version := 1, sc_elements := [(stroke_a, \<lparr>el_value = stroke_text, el_order = \<lparr>ok_version = 1, ok_ordinal = 0\<rparr>\<rparr>)]\<rparr>"
definition stroke_dead :: "int \<Rightarrow> sidecar" where
  "stroke_dead v = empty_sidecar\<lparr>sc_version := v, sc_tombstones := [(stroke_a, 1)]\<rparr>"

lemma stroke_parses: "annot_parse stroke_file annot_default_limits = Inr stroke_parsed"
  by code_simp

lemma put_applies: "annot_apply empty_sidecar put_stroke 1 = Inr \<lparr>ar_sidecar = stroke_put, ar_effective = put_stroke, ar_dropped = []\<rparr>"
  by code_simp

lemma del_applies: "annot_apply empty_sidecar del_stroke 1 = Inr \<lparr>ar_sidecar = stroke_dead 1, ar_effective = del_stroke, ar_dropped = []\<rparr>"
  by code_simp

lemma dead_put_applies: "annot_apply (stroke_dead 1) put_stroke 2 = Inr \<lparr>ar_sidecar = stroke_dead 2, ar_effective = no_ops, ar_dropped = [stroke_a]\<rparr>"
  by code_simp

lemma replace_applies: "annot_apply (stroke_dead 1) (replace_ops (stroke_dead 1) stroke_parsed) 2
  = Inr \<lparr>ar_sidecar = stroke_put\<lparr>sc_version := 2, sc_elements := [(stroke_a, \<lparr>el_value = stroke_text, el_order = \<lparr>ok_version = 2, ok_ordinal = 0\<rparr>\<rparr>)]\<rparr>,
      ar_effective = put_stroke\<lparr>ao_replace := True\<rparr>, ar_dropped = []\<rparr>"
  by code_simp

lemma diff_stroke: "annot_diff empty_sidecar stroke_parsed = Inr put_stroke"
  by code_simp

lemma stroke_ops_map: "ops_map put_stroke" "ops_map del_stroke" "ops_map (replace_ops (stroke_dead 1) stroke_parsed)"
  by (simp_all add: ops_map_def put_stroke_def del_stroke_def no_ops_def) code_simp

lemma stroke_reachable: "sidecar_reachable H stroke_parsed" "sidecar_reachable H stroke_put" "sidecar_reachable H (stroke_dead 1)"
  using sidecar_reachable.parsed [OF stroke_parses] sidecar_reachable.applied [OF sidecar_reachable.fresh stroke_ops_map(1) put_applies]
    sidecar_reachable.applied [OF sidecar_reachable.fresh stroke_ops_map(2) del_applies] by simp_all

section \<open>Reading JSON\<close>

text \<open>
  C14: \<open>strictJSON\<close> accepts exactly the valid UTF-8 texts of JSON documents within the byte
  budget whose tree has unique decoded names, paired surrogate escapes and no more depth
  and values than allowed, and returns the document without its blanks.
\<close>

theorem strict_json_exact:
  "strict_json l s m = Inr out \<longleftrightarrow> int (length s) \<le> m \<and> valid_string s
     \<and> (\<exists>v. json_document v s \<and> raw_depth_ok (al_max_depth l) v \<and> raw_nodes v \<le> al_max_nodes l
          \<and> raw_distinct v \<and> raw_paired v \<and> out = raw_compact v)"
  unfolding strict_json_document strict_tree_def by blast

text \<open>
  \<open>indentFits\<close> is exact: on the compact form of a document it answers, without building
  it, whether the indented form is within the limit.
\<close>

theorem indent_fits_exact:
  "case parse_json s of None \<Rightarrow> True
   | Some v \<Rightarrow> indent_fits (raw_compact v) limit \<longleftrightarrow> int (length (raw_indent line_break v)) \<le> limit"
  using indent_fits_length parse_json_ok by (auto split: option.split)

section \<open>Every sidecar is well-formed\<close>

text \<open>
  C13: every sidecar that the package hands out, from \<open>Empty\<close>, \<open>Parse\<close> or \<open>DecodeState\<close>
  through any sequence of \<open>Apply\<close> and \<open>PruneTombstones\<close>, has positive limits, distinct keys,
  strict values with their own ids, valid entries and metadata, pairwise different orders
  within the version, and tombstones only for keys that are not live.
\<close>

theorem sidecars_wellformed: "sidecar_reachable H sc \<Longrightarrow> sidecar_ok sc"
  by (rule reachable_sidecar_ok)

theorem sidecars_wellformed_witness: "sidecar_ok (stroke_dead 1)"
  by (rule sidecars_wellformed [OF stroke_reachable(3) [where H = "\<lambda>s. s"]])

section \<open>Applying operations\<close>

text \<open>
  C7: \<open>Apply\<close> implements one remove-wins register per element key: the checked operations are
  run in order on the register of each key, where a put never revives a dead key unless
  the whole document is replaced, which first kills every element.
\<close>

theorem apply_registers:
  "sidecar_reachable H head \<Longrightarrow> annot_apply head ops at = Inr r \<Longrightarrow>
     \<exists>c. checked_ops ops (sc_limits head) (ao_replace ops) = Inr c \<and> ao_replace c = ao_replace ops
       \<and> (\<forall>k. key_state (ar_sidecar r) k
              = fold (key_step (ao_replace c) at k) (ao_elements c) (key_start (ao_replace c) at (key_state head k)))"
  by (rule apply_states [OF reachable_sidecar_ok])

theorem apply_registers_witness:
  "\<exists>c. checked_ops put_stroke (sc_limits (stroke_dead 1)) (ao_replace put_stroke) = Inr c \<and> ao_replace c = ao_replace put_stroke
     \<and> (\<forall>k. key_state (stroke_dead 2) k
            = fold (key_step (ao_replace c) 2 k) (ao_elements c) (key_start (ao_replace c) 2 (key_state (stroke_dead 1) k)))"
  using apply_registers [OF stroke_reachable(3) [where H = "\<lambda>s. s"] dead_put_applies] by simp

text \<open>
  C12: deletions last: along any history of commits without replacements a dead key stays
  dead, with a tombstone that is never older.
\<close>

theorem deletions_last:
  "sidecar_reachable H sc \<Longrightarrow> annot_commits sc cs = Inr sc1 \<Longrightarrow> \<forall>(ops, at) \<in> set cs. ops_map ops \<and> \<not> ao_replace ops \<Longrightarrow>
     key_state sc k = Dead t \<Longrightarrow> \<exists>t1 \<ge> t. key_state sc1 k = Dead t1"
  by (rule commits_keep_dead [OF _ reachable_sidecar_ok])

theorem deletions_last_witness: "\<exists>t1 \<ge> 1. key_state (stroke_dead 2) stroke_a = Dead t1"
  by (rule deletions_last [OF stroke_reachable(3) [where H = "\<lambda>s. s"], of "[(put_stroke, 2)]"])
    (simp_all add: dead_put_applies stroke_ops_map(1), simp_all add: put_stroke_def no_ops_def key_state_def stroke_dead_def)

text \<open>
  C11: what \<open>Apply\<close> reports as effective can be committed in place of the operations: applied to
  the same head at the same version it gives the same sidecar and drops nothing.
\<close>

theorem effective_replay:
  "sidecar_reachable H head \<Longrightarrow> ops_map ops \<Longrightarrow> annot_apply head ops at = Inr r \<Longrightarrow>
     annot_apply head (ar_effective r) at = Inr (r\<lparr>ar_dropped := []\<rparr>)"
  by (rule effective_apply [OF reachable_sidecar_ok])

theorem effective_replay_witness:
  "annot_apply (stroke_dead 1) no_ops 2 = Inr \<lparr>ar_sidecar = stroke_dead 2, ar_effective = no_ops, ar_dropped = []\<rparr>"
  using effective_replay [OF stroke_reachable(3) [where H = "\<lambda>s. s"] stroke_ops_map(1) dead_put_applies] by simp

section \<open>Differences\<close>

text \<open>
  C9: applying \<open>Diff(base, cur)\<close> to the base, two sidecars under the same limits, gives the content of \<open>cur\<close>: every element value
  except of keys dead in the base, which stay dead; every entry; every metadata key up to
  the masked parts, and the masked keys keep the base's value.
\<close>

theorem diff_apply:
  "sidecar_reachable H base \<Longrightarrow> sidecar_reachable H cur \<Longrightarrow> sc_limits cur = sc_limits base \<Longrightarrow>
     annot_diff base cur = Inr ops \<Longrightarrow> annot_apply base ops at = Inr r \<Longrightarrow>
     (\<forall>k. map_option el_value (map_of (sc_elements (ar_sidecar r)) k)
          = (if map_of (sc_tombstones base) k = None then map_option el_value (map_of (sc_elements cur) k) else None))
     \<and> map_of (sc_entries (ar_sidecar r)) = map_of (sc_entries cur)
     \<and> (\<forall>key. if masked_key False key then map_of (sc_meta (ar_sidecar r)) key = map_of (sc_meta base) key
          else map_option (masked_meta key) (map_of (sc_meta (ar_sidecar r)) key) = map_option (masked_meta key) (map_of (sc_meta cur) key))"
  using diff_apply_content [OF reachable_sidecar_ok reachable_sidecar_ok, of H base H cur ops at r] by auto

theorem diff_apply_witness:
  "(\<forall>k. map_option el_value (map_of (sc_elements stroke_put) k)
          = (if map_of (sc_tombstones empty_sidecar) k = None then map_option el_value (map_of (sc_elements stroke_parsed) k) else None))
     \<and> map_of (sc_entries stroke_put) = map_of (sc_entries stroke_parsed)
     \<and> (\<forall>key. if masked_key False key then map_of (sc_meta stroke_put) key = map_of (sc_meta empty_sidecar) key
          else map_option (masked_meta key) (map_of (sc_meta stroke_put) key) = map_option (masked_meta key) (map_of (sc_meta stroke_parsed) key))"
proof -
  have lim: "sc_limits stroke_parsed = sc_limits empty_sidecar" by (simp add: stroke_parsed_def)
  show ?thesis
    using diff_apply [OF sidecar_reachable.fresh [where H = "\<lambda>s. s"] stroke_reachable(1) lim diff_stroke put_applies]
    unfolding apply_result.select_convs .
qed

text \<open>
  C10: committing \<open>ReplaceOps(head, doc)\<close> on the head reproduces the document: the result has
  the same file, byte for byte, and its elements come in the same order.
\<close>

theorem replace_reproduces:
  "sidecar_reachable H head \<Longrightarrow> sidecar_reachable H cur \<Longrightarrow> sc_limits cur = sc_limits head \<Longrightarrow>
     annot_apply head (replace_ops head cur) at = Inr r \<Longrightarrow>
     annot_marshal (ar_sidecar r) = annot_marshal cur \<and> ordered_elements (ar_sidecar r) = ordered_elements cur"
  using replace_file replace_content(1) reachable_sidecar_ok by blast

theorem replace_reproduces_witness:
  "annot_marshal (stroke_put\<lparr>sc_version := 2, sc_elements := [(stroke_a, \<lparr>el_value = stroke_text, el_order = \<lparr>ok_version = 2, ok_ordinal = 0\<rparr>\<rparr>)]\<rparr>)
    = annot_marshal stroke_parsed"
  using replace_reproduces [OF stroke_reachable(3) [where H = "\<lambda>s. s"] stroke_reachable(1) _ replace_applies]
  by (simp add: stroke_parsed_def stroke_dead_def)

section \<open>Reading back what is written\<close>

text \<open>
  C8: the file of a sidecar that \<open>Apply\<close> returned is always accepted by \<open>Parse\<close> under the same
  limits, and gives the same values of every kind in the same order, the same entries and
  the same metadata.
\<close>

theorem parse_reads_marshal:
  "sidecar_reachable H head \<Longrightarrow> ops_map ops \<Longrightarrow> annot_apply head ops at = Inr r \<Longrightarrow>
     \<exists>raw p. annot_marshal (ar_sidecar r) = Inr raw \<and> annot_parse raw (sc_limits head) = Inr p \<and> same_content p (ar_sidecar r)"
proof -
  assume a: "sidecar_reachable H head" "ops_map ops" "annot_apply head ops at = Inr r"
  note ok = apply_sidecar_ok [OF reachable_sidecar_ok [OF a(1)] a(2,3)]
  show ?thesis
    by (rule annot_applyE [OF a(3) reachable_sidecar_ok [OF a(1)]]) (use file_read_back ok in force)
qed

theorem parse_reads_marshal_witness:
  "\<exists>raw p. annot_marshal stroke_put = Inr raw \<and> annot_parse raw annot_default_limits = Inr p \<and> same_content p stroke_put"
  using parse_reads_marshal [OF sidecar_reachable.fresh [where H = "\<lambda>s. s"] stroke_ops_map(1) put_applies]
  by (simp add: empty_sidecar_def new_sidecar_def)



text \<open>
  The budget for the depth is shared with the text around the values when operations are
  parsed, but not when they are checked and written: with four levels the put of a flat
  element is written, and what was written is refused.
\<close>

lemma too_deep:
  "case marshal_ops (annot_default_limits\<lparr>al_max_depth := 4\<rparr>) put_stroke of
     Inl _ \<Rightarrow> False | Inr s \<Rightarrow> parse_ops s (annot_default_limits\<lparr>al_max_depth := 4\<rparr>) = Inl AErrLimit"
  by code_simp

text \<open>
  The envelope of the state allows two levels more than a document, but the keys of
  tombstones lie five levels deep: with two levels a deletion is applied and encoded, and
  the encoded state is refused.
\<close>

lemma shallow_state:
  "case annot_apply (new_sidecar (annot_default_limits\<lparr>al_max_depth := 2\<rparr>)) del_stroke 1 of
     Inl _ \<Rightarrow> False
   | Inr r \<Rightarrow> (case encode_state (ar_sidecar r) of Inl _ \<Rightarrow> False
     | Inr s \<Rightarrow> decode_state (\<lambda>b. b) s (annot_default_limits\<lparr>al_max_depth := 2\<rparr>) = Inl (AErrInvalidState, AErrLimit))"
  by code_simp

end
