(* ===== verification/Proto_Types.thy ===== *)
theory Proto_Types
  imports Textop_Json Annot_Ops Ids Rules_Decisions
begin

text \<open>
  The \<^verbatim>\<open>stele.v1\<close> wire contract, \<^verbatim>\<open>internal/proto\<close>: codes and errors
  (\<^verbatim>\<open>codes.go\<close>), the message catalogue (\<^verbatim>\<open>types.go\<close>), device tokens
  (\<^verbatim>\<open>token.go\<close>) and the configuration (\<^verbatim>\<open>config.go\<close>). Codes, kinds and reasons
  are strings, as in the source, so that a message built locally may hold any. A nil
  interface or pointer is \<open>None\<close>. A \<^verbatim>\<open>[32]byte\<close> is a list of 32 bytes.
\<close>

section \<open>Codes and errors\<close>

type_synonym code = string

definition InvalidSubmission :: code where "InvalidSubmission = ''invalid_submission''"
definition InvalidOp :: code where "InvalidOp = ''invalid_op''"
definition InvalidPath :: code where "InvalidPath = ''invalid_path''"
definition TooLargeCode :: code where "TooLargeCode = ''too_large''"
definition InvalidRequest :: code where "InvalidRequest = ''invalid_request''"

definition codes :: "code list" where
  "codes = [InvalidSubmission, InvalidOp, InvalidPath, TooLargeCode, ''rate_limited'', ''unknown_file'',
     ''file_exists'', ''file_deleted'', ''path_taken'', ''stale_delete'', ''invalid_base'', ''read_only_path'',
     ''class_change'', ''group_required'', ''class_mismatch'', ''bulk_delete_guard'', ''rebase_required'',
     ''whole_document_required'', ''blob_missing'', ''internal'']"

definition query_codes :: "code list" where
  "query_codes = [''resync_required'', InvalidRequest, ''rate_limited'', ''internal'']"

datatype close_code = CloseNormal | CloseShutdown | CloseTooLarge | CloseInternal | CloseProtocol | CloseAuth
  | CloseReplaced | CloseUnsupported | CloseSlowConsumer

fun close_status :: "close_code \<Rightarrow> 16 word" where
  "close_status CloseNormal = 1000"
| "close_status CloseShutdown = 1001"
| "close_status CloseTooLarge = 1009"
| "close_status CloseInternal = 1011"
| "close_status CloseProtocol = 4400"
| "close_status CloseAuth = 4401"
| "close_status CloseReplaced = 4409"
| "close_status CloseUnsupported = 4426"
| "close_status CloseSlowConsumer = 4429"

record detail =
  dt_field :: string
  dt_reason :: string
  dt_component :: "int option"
  dt_class :: file_class
  dt_demotion :: demotion
  dt_limit :: int
  dt_scope :: string
  dt_retry_after_ms :: int

definition no_detail :: detail where
  "no_detail = \<lparr>dt_field = [], dt_reason = [], dt_component = None, dt_class = OtherClass 0,
     dt_demotion = Kept, dt_limit = 0, dt_scope = [], dt_retry_after_ms = 0\<rparr>"

type_synonym req = "32 word"

text \<open>The errors of decoding and encoding; the last two are the package's error values.\<close>

datatype proto_error = CloseError close_code string
  | RejectError client_op_id code detail
  | QueryError req code detail
  | ErrFrameTooLarge
  | ErrInvalidMessage

section \<open>Messages\<close>

datatype token = Token (token_secret: string)

record blob_ref =
  br_sha256 :: "byte list"
  br_size :: int

datatype content = InlineText string | InlineSidecar string | BlobContent blob_ref

record target =
  tg_file :: file_id
  tg_path :: path

record copy_of =
  co_file :: file_id
  co_reason :: string

datatype body =
    TextEdit file_id int op
  | AnnotEdit file_id int annot_ops
  | AnnotReplace file_id int "content option"
  | PutBlob file_id int blob_ref
  | CreateFile file_id path file_class "content option" on_taken "copy_of option"
  | RenameFile file_id path on_taken
  | RenameGroup target target on_taken
  | DeleteFile file_id int bool

datatype client_msg =
    Hello token
  | PullChanges req int
  | ListFiles req "file_id option"
  | SubmitMsg client_op_id "body option"
  | Pong "32 word"

record origin =
  or_copy_of :: file_id
  or_reason :: string

datatype payload = TextPayload op | AnnotPayload annot_ops | BlobPayload blob_ref | Omitted

text \<open>A member of a committed transaction; an absent length or hash is a nil pointer.\<close>

record tx_member =
  mb_file :: file_id
  mb_version :: int
  mb_kind :: string
  mb_path :: path
  mb_class :: file_class
  mb_owner :: owner
  mb_origin :: "origin option"
  mb_payload :: "payload option"
  mb_len :: "int option"
  mb_hash :: "byte list option"

text \<open>A committed transaction. A time is an instant and the offset of its zone, in nanoseconds.\<close>

record transaction =
  tx_seq :: int
  tx_at :: int
  tx_zone :: int
  tx_actor :: actor
  tx_device :: device_id
  tx_id :: client_op_id
  tx_members :: "tx_member list"

record file_info =
  fi_file :: file_id
  fi_path :: path
  fi_class :: file_class
  fi_owner :: owner
  fi_version :: int
  fi_size :: int
  fi_blob :: "blob_ref option"
  fi_len :: "int option"
  fi_hash :: "byte list option"

record advertised =
  ad_max_frame :: int
  ad_max_server_frame :: int
  ad_split_bytes :: int
  ad_page_entries :: int
  ad_inflight :: int
  ad_per_sec :: int
  ad_burst :: int
  ad_text_exts :: "string list"
  ad_max_text :: int
  ad_max_sidecar :: int
  ad_window_ms :: int
  ad_max_count :: int
  ad_min_for_ratio :: int
  ad_ratio :: go_float
  ad_buckets :: int

datatype server_msg =
    Welcome device_id int advertised
  | Changes req "transaction list" bool
  | Live transaction
  | Files req int "file_info list" bool
  | RejectMsg client_op_id code detail
  | ErrorMsg req code detail
  | Ping "32 word"

text \<open>The kinds of submissions and members, and the reasons of conflict copies.\<close>

definition KindTextEdit :: string where "KindTextEdit = ''text_edit''"
definition KindAnnotEdit :: string where "KindAnnotEdit = ''annot_edit''"
definition KindAnnotReplace :: string where "KindAnnotReplace = ''annot_replace''"
definition KindPutBlob :: string where "KindPutBlob = ''put_blob''"
definition KindCreate :: string where "KindCreate = ''create''"
definition KindRename :: string where "KindRename = ''rename''"
definition KindRenameGroup :: string where "KindRenameGroup = ''rename_group''"
definition KindDelete :: string where "KindDelete = ''delete''"

lemmas kind_defs = KindTextEdit_def KindAnnotEdit_def KindAnnotReplace_def KindPutBlob_def KindCreate_def
  KindRename_def KindRenameGroup_def KindDelete_def

text \<open>Reasons a client may give, and those only the server gives.\<close>

definition copy_reasons :: "string list" where
  "copy_reasons = [''rebase'', ''deleted'', ''class_change'', ''first_sync'']"

definition server_copy_reasons :: "string list" where
  "server_copy_reasons = [''stale_put'', ''stale_replace'']"

section \<open>Tokens\<close>

text \<open>\<open>ParseToken\<close>: the prefix and 43 characters of base64url.\<close>

definition token_rune :: "nat \<Rightarrow> bool" where
  "token_rune r \<longleftrightarrow> \<not> ((r < 65 \<or> r > 90) \<and> (r < 97 \<or> r > 122) \<and> (r < 48 \<or> r > 57) \<and> r \<noteq> 45 \<and> r \<noteq> 95)"

definition parse_token :: "string \<Rightarrow> token option" where
  "parse_token s =
    (if length s \<noteq> 49 \<or> take 6 s \<noteq> ''stele_'' then None
     else if list_all token_rune (runes (drop 6 s)) then Some (Token s) else None)"

text \<open>What \<open>String\<close>, \<open>GoString\<close>, \<open>Format\<close>, \<open>LogValue\<close> and \<open>MarshalJSON\<close> show of a token.\<close>

definition token_string :: "token \<Rightarrow> string" where
  "token_string t = ''stele_[redacted]''"

definition token_marshal_json :: "token \<Rightarrow> string" where
  "token_marshal_json t = CHR 0x22 # ''stele_[redacted]'' @ [CHR 0x22]"

text \<open>\<open>Hash\<close>, over the SHA-256 function.\<close>

definition token_hash :: "(string \<Rightarrow> byte list) \<Rightarrow> token \<Rightarrow> byte list" where
  "token_hash S t = S (token_secret t)"

section \<open>Configuration\<close>

definition MaxFrameDepth :: int where "MaxFrameDepth = 64"

definition subprotocols :: "string list" where
  "subprotocols = [''stele.v1'']"

record proto_config =
  pc_max_frame :: int
  pc_envelope_reserve :: int
  pc_max_server_frame :: int
  pc_max_inline :: int
  pc_page_entries :: int
  pc_text :: limits
  pc_annot :: annot_limits
  pc_max_inline_content :: int

definition proto_default_config :: proto_config where
  "proto_default_config =
    (let inline = 2 ^ 20 - 16 * 2 ^ 10 in
     \<lparr>pc_max_frame = 2 ^ 20, pc_envelope_reserve = 16 * 2 ^ 10, pc_max_server_frame = 2 * 2 ^ 20,
      pc_max_inline = 512 * 2 ^ 10, pc_page_entries = 500,
      pc_text = default_limits\<lparr>MaxJSONBytes := inline\<rparr>,
      pc_annot = annot_default_limits\<lparr>al_max_op_bytes := inline\<rparr>,
      pc_max_inline_content = inline\<rparr>)"

datatype config_error = CfgRange string | CfgReserve | CfgPayload string | CfgServerFrame
  | CfgText textop_error | CfgAnnot annot_error

text \<open>
  A Go \<^verbatim>\<open>int\<close> difference wraps and a Go division truncates; both matter for limits that are
  out of range, whose errors are reported together with the others.
\<close>

definition go_int :: "int \<Rightarrow> int" where
  "go_int x = sint (word_of_int x :: 64 word)"

definition go_half :: "int \<Rightarrow> int" where
  "go_half x = (if x < 0 then - ((- x) div 2) else x div 2)"

text \<open>\<open>errors.Join\<close> of every violation; the empty list is nil.\<close>

definition proto_config_validate :: "proto_config \<Rightarrow> config_error list" where
  "proto_config_validate c =
    (let budget = go_int (pc_max_frame c - pc_envelope_reserve c);
         payloads = [(''Text.MaxJSONBytes'', MaxJSONBytes (pc_text c)), (''Annot.MaxOpBytes'', al_max_op_bytes (pc_annot c)),
           (''MaxInlineContent'', pc_max_inline_content c)] in
     map (\<lambda>(k, _). CfgRange k)
       (filter (\<lambda>(_, n). n \<le> 0 \<or> n > MaxSafe)
         [(''MaxFrame'', pc_max_frame c), (''EnvelopeReserve'', pc_envelope_reserve c),
          (''MaxServerFrame'', pc_max_server_frame c), (''MaxInline'', pc_max_inline c),
          (''PageEntries'', pc_page_entries c), (''MaxInlineContent'', pc_max_inline_content c),
          (''Text.MaxJSONBytes'', MaxJSONBytes (pc_text c)), (''Annot.MaxOpBytes'', al_max_op_bytes (pc_annot c))])
     @ (if pc_envelope_reserve c \<ge> pc_max_frame c then [CfgReserve] else [])
     @ map (\<lambda>(k, _). CfgPayload k) (filter (\<lambda>(_, n). n > budget \<or> pc_max_inline c > n) payloads)
     @ (if pc_max_server_frame c < pc_envelope_reserve c
          \<or> pc_max_inline c > go_half (go_int (pc_max_server_frame c - pc_envelope_reserve c)) then [CfgServerFrame] else [])
     @ (case textop_parse (pc_text c) ''[]'' of Inl e \<Rightarrow> [CfgText e] | Inr _ \<Rightarrow> [])
     @ (case annot_limits_validate (pc_annot c) of Some e \<Rightarrow> [CfgAnnot e] | None \<Rightarrow> []))"

end
