(* ===== verification/Proto_Json.thy ===== *)
theory Proto_Json
  imports Proto_Types
begin

text \<open>
  The part of Go's \<^verbatim>\<open>encoding/json/v2\<close> and \<^verbatim>\<open>jsontext\<close> that the wire codec uses:
  the strict validity of a value, the members and items of a value as the texts they are
  spelled with (\<^verbatim>\<open>jsontext.Value\<close>), and the deterministic text of a wire value.
\<close>

section \<open>Reading\<close>

text \<open>\<^verbatim>\<open>Value.IsValid\<close>: the grammar, valid UTF-8, paired surrogates and distinct names.\<close>

definition json_strict :: "string \<Rightarrow> bool" where
  "json_strict s \<longleftrightarrow> (case parse_json s of None \<Rightarrow> False
     | Some v \<Rightarrow> valid_string s \<and> raw_paired v \<and> raw_distinct v)"

text \<open>The text of the value at the front, without the white space before it, and the rest.\<close>

definition next_value :: "string \<Rightarrow> (string \<times> string) option" where
  "next_value s = (let s1 = skip_ws s in
     case parse_value json_max_depth (2 * length s1 + 2) s1 of None \<Rightarrow> None
     | Some (v, r) \<Rightarrow> Some (take (length s1 - length r) s1, r))"

lemma next_value_shorter: "next_value s = Some (t, r) \<Longrightarrow> length r < length s"
proof -
  assume n: "next_value s = Some (t, r)"
  obtain v where "parse_value json_max_depth (2 * length (skip_ws s) + 2) (skip_ws s) = Some (v, r)"
    using n by (cases "parse_value json_max_depth (2 * length (skip_ws s) + 2) (skip_ws s)") (auto simp only: next_value_def Let_def option.case prod.case split: prod.splits)
  then have "length r < length (skip_ws s)" by (rule parse_value_shorter)
  then show ?thesis using skip_ws_length [of s] by simp
qed

text \<open>A name and its colon.\<close>

definition next_name :: "string \<Rightarrow> (string \<times> string) option" where
  "next_name s = (case skip_ws s of [] \<Rightarrow> None
     | q # s1 \<Rightarrow> if q \<noteq> quote_char then None
       else (case scan_string s1 of None \<Rightarrow> None
         | Some (k, s2) \<Rightarrow> (case skip_ws s2 of [] \<Rightarrow> None
           | e # s3 \<Rightarrow> if e = CHR '':'' then Some (unquote k, s3) else None)))"

lemma next_name_shorter: "next_name s = Some (k, r) \<Longrightarrow> length r \<le> length s"
proof -
  assume n: "next_name s = Some (k, r)"
  obtain q s1 where s1: "skip_ws s = q # s1" using n by (auto simp: next_name_def split: list.splits)
  obtain b s2 where s2: "scan_string s1 = Some (b, s2)" using n s1 by (auto simp: next_name_def split: if_splits option.splits)
  obtain e where e: "skip_ws s2 = e # r" using n s1 s2 by (auto simp: next_name_def split: if_splits list.splits)
  have "length s2 \<le> length s1" using scan_string_sound [OF s2] by auto
  then show ?thesis using skip_ws_length [of s] skip_ws_length [of s2] s1 e by simp
qed

function split_members :: "string \<Rightarrow> (string \<times> string) list option" where
  "split_members s =
    (case next_name s of None \<Rightarrow> None
     | Some (k, s1) \<Rightarrow> (case next_value s1 of None \<Rightarrow> None
       | Some (t, r) \<Rightarrow> (case skip_ws r of [] \<Rightarrow> None
         | c # r1 \<Rightarrow> if c = CHR '','' then map_option ((#) (k, t)) (split_members r1)
           else if c = CHR ''}'' \<and> skip_ws r1 = [] then Some [(k, t)] else None)))"
  by pat_completeness auto
termination
proof (relation "measure length", goal_cases)
  case (2 s x k s1 y t r c r1)
  then have "length s1 \<le> length s" "length r < length s1" "length r1 < length r"
    using next_name_shorter [of s k s1] next_value_shorter [of s1 t r] skip_ws_length [of r] by auto
  then show ?case by simp
qed simp

function split_items :: "string \<Rightarrow> string list option" where
  "split_items s =
    (case next_value s of None \<Rightarrow> None
     | Some (t, r) \<Rightarrow> (case skip_ws r of [] \<Rightarrow> None
       | c # r1 \<Rightarrow> if c = CHR '','' then map_option ((#) t) (split_items r1)
         else if c = CHR '']'' \<and> skip_ws r1 = [] then Some [t] else None))"
  by pat_completeness auto
termination
proof (relation "measure length", goal_cases)
  case (2 s y t r c r1)
  then have "length r < length s" "length r1 < length r"
    using next_value_shorter [of s t r] skip_ws_length [of r] by auto
  then show ?case by simp
qed simp

declare split_members.simps [simp del] split_items.simps [simp del]

text \<open>
  \<^verbatim>\<open>json.Unmarshal\<close> of a text into a map of values, a list of values and a string; the
  callers have checked the first byte.
\<close>

definition unmarshal_object :: "string \<Rightarrow> (string \<times> string) list option" where
  "unmarshal_object s =
    (if \<not> json_strict s then None
     else case skip_ws s of [] \<Rightarrow> None
       | c # r \<Rightarrow> if c \<noteq> CHR ''{'' then None
         else (case skip_ws r of [] \<Rightarrow> None
           | e # _ \<Rightarrow> if e = CHR ''}'' then Some [] else split_members r))"

definition unmarshal_array :: "string \<Rightarrow> string list option" where
  "unmarshal_array s =
    (if \<not> json_strict s then None
     else case skip_ws s of [] \<Rightarrow> None
       | c # r \<Rightarrow> if c \<noteq> CHR ''['' then None
         else (case skip_ws r of [] \<Rightarrow> None
           | e # _ \<Rightarrow> if e = CHR '']'' then Some [] else split_items r))"

definition unmarshal_string :: "string \<Rightarrow> string option" where
  "unmarshal_string s =
    (if \<not> json_strict s then None
     else case parse_json s of Some (RStr b) \<Rightarrow> Some (unquote b) | _ \<Rightarrow> None)"

section \<open>Writing\<close>

text \<open>
  A literal with the escapes that JSON requires and no others, which is also how
  \<^verbatim>\<open>jsontext\<close> spells a string it copies out of a \<^verbatim>\<open>jsontext.Value\<close>.
\<close>

definition wire_rune :: "nat \<Rightarrow> string" where
  "wire_rune r = (if r < 0x20 \<or> r = 0x22 \<or> r = 0x5C then json_rune r else encode_rune r)"

definition wire_body :: "string \<Rightarrow> string" where
  "wire_body s = concat (map wire_rune (runes s))"

fun raw_reformat :: "raw \<Rightarrow> raw" where
  "raw_reformat (RWord w) = RWord w"
| "raw_reformat (RStr b) = RStr (wire_body (unquote b))"
| "raw_reformat (RArr vs) = RArr (map raw_reformat vs)"
| "raw_reformat (RObj ms) = RObj (map (\<lambda>(k, v). (wire_body (unquote k), raw_reformat v)) ms)"

text \<open>
  The values the encoder hands to \<^verbatim>\<open>json.Marshal\<close>: a \<^verbatim>\<open>map[string]any\<close> is \<open>WObj\<close>,
  a \<^verbatim>\<open>jsontext.Value\<close> is \<open>WJson\<close> and the result of \<^verbatim>\<open>MarshalText\<close> is \<open>WText\<close>.
  Maps are written in the order of their keys; invalid UTF-8 is an error.
\<close>

datatype wire = WStr string | WInt int | WBool bool | WText "ids_error + string" | WJson string
  | WArr "wire list" | WObj "(string \<times> wire) list"

fun wire_raw :: "wire \<Rightarrow> raw option" where
  "wire_raw (WStr s) = (if valid_string s then Some (RStr (wire_body s)) else None)"
| "wire_raw (WInt i) = Some (RWord (string_of_int i))"
| "wire_raw (WBool b) = Some (RWord (if b then ''true'' else ''false''))"
| "wire_raw (WText t) = (case t of Inl _ \<Rightarrow> None | Inr s \<Rightarrow> if valid_string s then Some (RStr (wire_body s)) else None)"
| "wire_raw (WJson t) = (if json_strict t then map_option raw_reformat (parse_json t) else None)"
| "wire_raw (WArr vs) = map_option RArr (those (map wire_raw vs))"
| "wire_raw (WObj ms) =
    map_option RObj (those (map (\<lambda>(k, v). map_option (Pair (wire_body k)) v)
      (sort_key fst (map (\<lambda>(k, v). (k, wire_raw v)) ms))))"

definition marshal_wire :: "wire \<Rightarrow> string option" where
  "marshal_wire v = map_option raw_compact (wire_raw v)"

end
