(* ===== verification/Proto_Read.thy ===== *)
theory Proto_Read
  imports Proto_Json
begin

text \<open>
  Reading the members of a frame, \<^verbatim>\<open>internal/proto/read.go\<close>. Every method of
  \<^verbatim>\<open>object\<close> records its failure in one shared cell that keeps the first failure only,
  and goes on with a zero value. Here a method returns its value with the list of the
  failures in the order they occur; what the cell holds is the head of the list, and it is
  empty exactly when the list is.
\<close>

section \<open>Values with their failures\<close>

type_synonym fault = "code \<times> detail"
type_synonym 'a logged = "'a \<times> fault list"

definition lpure :: "'a \<Rightarrow> 'a logged" where
  "lpure x = (x, [])"

definition lbind :: "'a logged \<Rightarrow> ('a \<Rightarrow> 'b logged) \<Rightarrow> 'b logged" where
  "lbind m f = (let (x, fs) = m; (y, gs) = f x in (y, fs @ gs))"

lemma fst_lbind [simp]: "fst (lbind m f) = fst (f (fst m))"
  by (simp add: lbind_def split: prod.split)

lemma snd_lbind [simp]: "snd (lbind m f) = snd m @ snd (f (fst m))"
  by (simp add: lbind_def split: prod.split)

lemma lpure_simps [simp]: "fst (lpure x) = x" "snd (lpure x) = []"
  by (simp_all add: lpure_def)

section \<open>Objects\<close>

record object =
  ob_fields :: "(string \<times> string) list"
  ob_strict :: bool
  ob_prefix :: string

definition fail_at :: "object \<Rightarrow> string \<Rightarrow> code \<Rightarrow> detail \<Rightarrow> fault list" where
  "fail_at r k c d = [(c, d\<lparr>dt_field := ob_prefix r @ k\<rparr>)]"

abbreviation invalid_at :: "object \<Rightarrow> string \<Rightarrow> fault list" where
  "invalid_at r k \<equiv> fail_at r k InvalidSubmission no_detail"

definition new_object :: "string \<Rightarrow> bool \<Rightarrow> string \<Rightarrow> object logged" where
  "new_object raw strict prefix =
    (let r = \<lparr>ob_fields = [], ob_strict = strict, ob_prefix = prefix\<rparr> in
     if raw = [] \<or> hd raw \<noteq> CHR ''{'' then (r, invalid_at r [])
     else case unmarshal_object raw of None \<Rightarrow> (r, invalid_at r [])
       | Some fs \<Rightarrow> (r\<lparr>ob_fields := fs\<rparr>, []))"

definition only_names :: "object \<Rightarrow> string list \<Rightarrow> unit logged" where
  "only_names r names =
    ((), if \<not> ob_strict r then []
         else concat (map (\<lambda>k. if k \<in> set names then [] else invalid_at r k) (sort (map fst (ob_fields r)))))"

definition has_field :: "object \<Rightarrow> string \<Rightarrow> bool" where
  "has_field r k \<longleftrightarrow> map_of (ob_fields r) k \<noteq> None"

definition raw_field :: "object \<Rightarrow> string \<Rightarrow> string logged" where
  "raw_field r k = (case map_of (ob_fields r) k of None \<Rightarrow> ([], invalid_at r k)
     | Some v \<Rightarrow> (v, if v = ''null'' then invalid_at r k else []))"

definition str_field :: "object \<Rightarrow> string \<Rightarrow> string logged" where
  "str_field r k = lbind (raw_field r k) (\<lambda>v.
     if v = [] \<or> hd v \<noteq> quote_char then ([], invalid_at r k)
     else case unmarshal_string v of None \<Rightarrow> ([], invalid_at r k) | Some s \<Rightarrow> lpure s)"

definition integer_field :: "object \<Rightarrow> string \<Rightarrow> int \<Rightarrow> int \<Rightarrow> int logged" where
  "integer_field r k lo hi = lbind (raw_field r k) (\<lambda>v.
     case parse_int64 v of None \<Rightarrow> (0, invalid_at r k)
     | Some n \<Rightarrow> if n < lo \<or> n > hi then (0, invalid_at r k) else lpure n)"

definition boolean_field :: "object \<Rightarrow> string \<Rightarrow> bool logged" where
  "boolean_field r k = lbind (raw_field r k) (\<lambda>v.
     if v \<noteq> ''true'' \<and> v \<noteq> ''false'' then (False, invalid_at r k) else lpure (v = ''true''))"

definition child_field :: "object \<Rightarrow> string \<Rightarrow> object logged" where
  "child_field r k = lbind (raw_field r k) (\<lambda>v. new_object v (ob_strict r) (ob_prefix r @ k @ ''.''))"

definition zero_file :: file_id where "zero_file = FileID (replicate 16 0)"
definition zero_device :: device_id where "zero_device = DeviceID (replicate 16 0)"
definition zero_op_id :: client_op_id where "zero_op_id = ClientOpID (replicate 16 0)"

definition file_field :: "object \<Rightarrow> string \<Rightarrow> file_id logged" where
  "file_field r k = lbind (str_field r k) (\<lambda>s.
     case parse_file_id s of Inl _ \<Rightarrow> (zero_file, invalid_at r k) | Inr v \<Rightarrow> lpure v)"

definition version_field :: "object \<Rightarrow> int logged" where
  "version_field r = integer_field r ''base_version'' 1 MaxSafe"

definition path_field :: "unicode_tables \<Rightarrow> object \<Rightarrow> path logged" where
  "path_field U r = lbind (str_field r ''path'') (\<lambda>s.
     case parse_path U s of
       Inl e \<Rightarrow> (zero_path, fail_at r ''path'' InvalidPath
         (no_detail\<lparr>dt_reason := reason_string (pe_reason e), dt_component := Some (pe_component e)\<rparr>))
     | Inr p \<Rightarrow> lpure p)"

text \<open>\<^verbatim>\<open>hex.DecodeString\<close>.\<close>

fun hex_bytes :: "string \<Rightarrow> byte list option" where
  "hex_bytes [] = Some []"
| "hex_bytes [c] = None"
| "hex_bytes (c # d # s) =
    (if is_hex c \<and> is_hex d then map_option ((#) (word_of_nat (hex_val c * 16 + hex_val d))) (hex_bytes s) else None)"

definition zero_hash :: "byte list" where "zero_hash = replicate 32 0"

definition hash_field :: "unicode_tables \<Rightarrow> object \<Rightarrow> string \<Rightarrow> byte list logged" where
  "hash_field U r k = lbind (str_field r k) (\<lambda>s.
     if length s \<noteq> 64 \<or> lower_string U s \<noteq> s then (zero_hash, invalid_at r k)
     else case hex_bytes s of None \<Rightarrow> (zero_hash, invalid_at r k) | Some b \<Rightarrow> lpure b)"

definition class_field :: "object \<Rightarrow> file_class logged" where
  "class_field r = lbind (str_field r ''class'') (\<lambda>s.
     if s = ''A'' then lpure Text else if s = ''B'' then lpure Sidecar else if s = ''C'' then lpure Opaque
     else (OtherClass 0, invalid_at r ''class''))"

definition array_field :: "object \<Rightarrow> string \<Rightarrow> int \<Rightarrow> string list logged" where
  "array_field r k hi = lbind (raw_field r k) (\<lambda>v.
     if v = [] \<or> hd v \<noteq> CHR ''['' then ([], invalid_at r k)
     else case unmarshal_array v of None \<Rightarrow> ([], invalid_at r k)
       | Some out \<Rightarrow> if int (length out) > hi then ([], invalid_at r k) else lpure out)"

definition blob_object :: "unicode_tables \<Rightarrow> object \<Rightarrow> blob_ref logged" where
  "blob_object U r = lbind (only_names r [''sha256'', ''size'']) (\<lambda>_.
     lbind (hash_field U r ''sha256'') (\<lambda>h.
     lbind (integer_field r ''size'' 0 MaxSafe) (\<lambda>n. lpure \<lparr>br_sha256 = h, br_size = n\<rparr>)))"

definition uint32_field :: "object \<Rightarrow> string \<Rightarrow> bool \<Rightarrow> 32 word logged" where
  "uint32_field r k positive =
    lbind (integer_field r k (if positive then 1 else 0) (2 ^ 32 - 1)) (\<lambda>n.
      if n < 0 \<or> n > 2 ^ 32 - 1 then (0, invalid_at r k) else lpure (word_of_int n))"

section \<open>Framing\<close>

text \<open>The scan for the nesting depth: inside a literal or not, after a backslash or not.\<close>

fun depth_scan :: "int \<Rightarrow> bool \<Rightarrow> bool \<Rightarrow> string \<Rightarrow> bool" where
  "depth_scan depth inside esc [] = True"
| "depth_scan depth inside esc (b # s) =
    (if inside then
       if esc then depth_scan depth inside False s
       else if b = CHR 0x5C then depth_scan depth inside True s
       else if b = quote_char then depth_scan depth False esc s
       else depth_scan depth inside esc s
     else if b = quote_char then depth_scan depth True esc s
     else if b \<in> {CHR ''['', CHR ''{''} then
       (if depth + 1 > MaxFrameDepth then False else depth_scan (depth + 1) inside esc s)
     else if b \<in> {CHR '']'', CHR ''}''} then depth_scan (depth - 1) inside esc s
     else depth_scan depth inside esc s)"

definition framing :: "string \<Rightarrow> int \<Rightarrow> proto_error + unit" where
  "framing frame hi =
    (if int (length frame) > hi then Inl (CloseError CloseTooLarge ''frame_too_large'')
     else if \<not> depth_scan 0 False False frame then Inl (CloseError CloseProtocol ''protocol'')
     else let raw = trim_space frame in
       if raw = [] \<or> hd raw \<noteq> CHR ''{'' \<or> \<not> json_strict raw then Inl (CloseError CloseProtocol ''protocol'')
       else Inr ())"

end
