(* ===== verification/Proto_Client.thy ===== *)
theory Proto_Client
  imports Proto_Read
begin

text \<open>
  The client half of the codec: the wire form of a submission and \<open>EncodeClient\<close>
  (\<^verbatim>\<open>internal/proto/encode_client.go\<close>), and \<open>DecodeClient\<close> with the readers of the
  submission bodies (\<^verbatim>\<open>decode_client.go\<close>). The two call each other's parts: an annotation
  edit is admitted only if its canonical form fits a frame too, and nothing is sent that
  would not be accepted.
\<close>

section \<open>The wire form\<close>

definition class_byte :: "file_class \<Rightarrow> nat" where
  "class_byte c = (case c of Text \<Rightarrow> 65 | Sidecar \<Rightarrow> 66 | Opaque \<Rightarrow> 67 | OtherClass n \<Rightarrow> n)"

definition blob_wire :: "blob_ref \<Rightarrow> wire" where
  "blob_wire b = WObj [(''sha256'', WStr (hex_encode (br_sha256 b))), (''size'', WInt (br_size b))]"

definition content_wire :: "content option \<Rightarrow> proto_error + wire" where
  "content_wire v = (case v of
     Some (InlineText s) \<Rightarrow> Inr (WObj [(''text'', WStr s)])
   | Some (InlineSidecar s) \<Rightarrow> Inr (WObj [(''sidecar'', WStr s)])
   | Some (BlobContent b) \<Rightarrow> Inr (WObj [(''blob'', blob_wire b)])
   | None \<Rightarrow> Inl ErrInvalidMessage)"

definition taken_wire :: "on_taken \<Rightarrow> string" where
  "taken_wire v = (case v of Number \<Rightarrow> ''number'' | Reject \<Rightarrow> ''reject'' | OtherOnTaken _ \<Rightarrow> ''invalid'')"

definition class_wire :: "file_class \<Rightarrow> string" where
  "class_wire c = [char_of (class_byte c)]"

definition owner_wire :: "owner \<Rightarrow> string" where
  "owner_wire v = (case v of User \<Rightarrow> ''user'' | Canvas \<Rightarrow> ''canvas'' | OtherOwner _ \<Rightarrow> ''invalid'')"

definition actor_wire :: "actor \<Rightarrow> string" where
  "actor_wire v = (case v of Device \<Rightarrow> ''device'' | Bridge \<Rightarrow> ''bridge'' | Admin \<Rightarrow> ''admin'' | OtherActor _ \<Rightarrow> ''invalid'')"

definition file_wire_id :: "file_id \<Rightarrow> wire" where
  "file_wire_id i = WText (file_id_marshal i)"

definition taken_members :: "on_taken \<Rightarrow> (string \<times> wire) list" where
  "taken_members v = (if v = Number then [] else [(''on_taken'', WStr (taken_wire v))])"

text \<open>An error of marshalling a part is passed on; \<^verbatim>\<open>Op.MarshalJSON\<close> cannot fail.\<close>

definition body_wire :: "body option \<Rightarrow> proto_config \<Rightarrow> (annot_error + proto_error) + (string \<times> wire) list" where
  "body_wire body c = (case body of
     None \<Rightarrow> Inl (Inr ErrInvalidMessage)
   | Some (TextEdit f v o1) \<Rightarrow>
       Inr [(''kind'', WStr KindTextEdit), (''file_id'', file_wire_id f), (''base_version'', WInt v), (''op'', WJson (marshal_op o1))]
   | Some (AnnotEdit f v ops) \<Rightarrow>
       (case marshal_ops (pc_annot c) ops of Inl e \<Rightarrow> Inl (Inl e)
        | Inr raw \<Rightarrow> Inr [(''kind'', WStr KindAnnotEdit), (''file_id'', file_wire_id f), (''base_version'', WInt v), (''ops'', WStr raw)])
   | Some (AnnotReplace f v x) \<Rightarrow>
       (case content_wire x of Inl e \<Rightarrow> Inl (Inr e)
        | Inr w \<Rightarrow> Inr [(''kind'', WStr KindAnnotReplace), (''file_id'', file_wire_id f), (''base_version'', WInt v), (''content'', w)])
   | Some (PutBlob f v b) \<Rightarrow>
       Inr [(''kind'', WStr KindPutBlob), (''file_id'', file_wire_id f), (''base_version'', WInt v), (''blob'', blob_wire b)]
   | Some (CreateFile f p cl x ot cp) \<Rightarrow>
       (case content_wire x of Inl e \<Rightarrow> Inl (Inr e)
        | Inr w \<Rightarrow> Inr ([(''kind'', WStr KindCreate), (''file_id'', file_wire_id f), (''path'', WStr (path_s p)), (''class'', WStr (class_wire cl))]
            @ taken_members ot @ [(''content'', w)]
            @ (case cp of None \<Rightarrow> []
               | Some q \<Rightarrow> [(''copy_of'', WObj [(''file_id'', file_wire_id (co_file q)), (''reason'', WStr (co_reason q))])])))
   | Some (RenameFile f p ot) \<Rightarrow>
       Inr ([(''kind'', WStr KindRename), (''file_id'', file_wire_id f), (''path'', WStr (path_s p))] @ taken_members ot)
   | Some (RenameGroup a b ot) \<Rightarrow>
       Inr ([(''kind'', WStr KindRenameGroup),
          (''pdf'', WObj [(''file_id'', file_wire_id (tg_file a)), (''path'', WStr (path_s (tg_path a)))]),
          (''sidecar'', WObj [(''file_id'', file_wire_id (tg_file b)), (''path'', WStr (path_s (tg_path b)))])] @ taken_members ot)
   | Some (DeleteFile f v conf) \<Rightarrow>
       Inr ([(''kind'', WStr KindDelete), (''file_id'', file_wire_id f), (''base_version'', WInt v)]
          @ (if conf then [(''confirmed'', WBool True)] else [])))"

definition marshal_frame :: "wire \<Rightarrow> int \<Rightarrow> proto_error + string" where
  "marshal_frame v hi = (case marshal_wire v of None \<Rightarrow> Inl ErrInvalidMessage
     | Some raw \<Rightarrow> if int (length raw) > hi then Inl ErrFrameTooLarge else Inr raw)"

definition submit_wire :: "client_op_id \<Rightarrow> (string \<times> wire) list \<Rightarrow> wire" where
  "submit_wire i w = WObj ([(''t'', WStr ''submit''), (''client_op_id'', WText (client_op_id_marshal i))] @ w)"

section \<open>Reading submission bodies\<close>

definition error_names :: "(annot_error \<times> string) list" where
  "error_names = [(AErrInvalidJSON, ''ErrInvalidJSON''), (AErrNotSidecar, ''ErrNotSidecar''), (AErrDuplicateKey, ''ErrDuplicateKey''),
     (AErrDuplicateID, ''ErrDuplicateID''), (AErrMissingID, ''ErrMissingID''), (AErrStructuralKey, ''ErrStructuralKey''),
     (AErrWholeDocument, ''ErrWholeDocument''), (AErrNonCanonical, ''ErrNonCanonical''), (AErrInvalidLimits, ''ErrInvalidLimits''),
     (AErrInvalidState, ''ErrInvalidState'')]"

text \<open>\<^verbatim>\<open>errors.Is\<close> looks through the component number that wraps an error.\<close>

fun text_error_name :: "textop_error \<Rightarrow> string option" where
  "text_error_name ErrLimit = None"
| "text_error_name ErrInvalidUTF8 = Some ''ErrInvalidUTF8''"
| "text_error_name ErrInvalidJSON = Some ''ErrInvalidJSON''"
| "text_error_name ErrInvalidCount = Some ''ErrInvalidCount''"
| "text_error_name ErrNonCanonical = Some ''ErrNonCanonical''"
| "text_error_name ErrLengthMismatch = Some ''ErrLengthMismatch''"
| "text_error_name ErrSplitsSurrogate = Some ''ErrSplitsSurrogate''"
| "text_error_name ErrInvalidUnicode = Some ''ErrInvalidUnicode''"
| "text_error_name ErrInvalidLimits = Some ''ErrInvalidLimits''"
| "text_error_name (ErrComponent i e) = text_error_name e"

text \<open>\<open>opFault\<close>; no name is a limit.\<close>

definition op_fault :: "object \<Rightarrow> string \<Rightarrow> string option \<Rightarrow> int \<Rightarrow> fault list" where
  "op_fault r field name limit = (case name of
     None \<Rightarrow> fail_at r field TooLargeCode (no_detail\<lparr>dt_limit := limit\<rparr>)
   | Some n \<Rightarrow> fail_at r field InvalidOp (no_detail\<lparr>dt_reason := n\<rparr>))"

definition zero_op :: op where
  "zero_op = \<lparr>comps = [], op_base = 0, op_target = 0\<rparr>"

definition text_field :: "object \<Rightarrow> proto_config \<Rightarrow> op logged" where
  "text_field r c = lbind (raw_field r ''op'') (\<lambda>raw.
     case textop_parse (pc_text c) raw of
       Inl e \<Rightarrow> (zero_op, op_fault r ''op'' (text_error_name e) (MaxJSONBytes (pc_text c)))
     | Inr o1 \<Rightarrow> lpure o1)"

definition ops_field :: "object \<Rightarrow> (string \<Rightarrow> annot_error + annot_ops) \<Rightarrow> int \<Rightarrow> annot_ops logged" where
  "ops_field r parse limit = lbind (str_field r ''ops'') (\<lambda>raw.
     case parse raw of
       Inl e \<Rightarrow> (no_ops, op_fault r ''ops'' (map_of error_names e) limit)
     | Inr ops \<Rightarrow> lpure ops)"

definition read_on_taken :: "object \<Rightarrow> on_taken logged" where
  "read_on_taken r =
    (if \<not> has_field r ''on_taken'' then lpure Number
     else lbind (str_field r ''on_taken'') (\<lambda>s.
       if s = ''number'' then lpure Number else if s = ''reject'' then lpure Reject
       else (Number, invalid_at r ''on_taken'')))"

definition read_copy_reason :: "object \<Rightarrow> bool \<Rightarrow> string logged" where
  "read_copy_reason r server = lbind (str_field r ''reason'') (\<lambda>v.
     if v \<in> set copy_reasons \<or> server \<and> v \<in> set server_copy_reasons then lpure v
     else (v, invalid_at r ''reason''))"

definition read_content :: "unicode_tables \<Rightarrow> object \<Rightarrow> file_class \<Rightarrow> proto_config \<Rightarrow> content option logged" where
  "read_content U r class c = lbind (only_names r [''text'', ''sidecar'', ''blob'']) (\<lambda>_.
     if length (ob_fields r) \<noteq> 1 then (None, invalid_at r [])
     else if has_field r ''blob'' then
       lbind (child_field r ''blob'') (\<lambda>b. lbind (blob_object U b) (\<lambda>ref. lpure (Some (BlobContent ref))))
     else if class \<noteq> Sidecar \<and> class \<noteq> Text then (None, invalid_at r [])
     else let key = (if class = Sidecar then ''sidecar'' else ''text'') in
       lbind (str_field r key) (\<lambda>raw.
       lbind ((), if int (length raw) > pc_max_inline_content c
           then fail_at r key TooLargeCode (no_detail\<lparr>dt_limit := pc_max_inline_content c\<rparr>) else []) (\<lambda>_.
         lpure (Some (if class = Text then InlineText raw else InlineSidecar raw)))))"

definition read_target :: "unicode_tables \<Rightarrow> object \<Rightarrow> string \<Rightarrow> target logged" where
  "read_target U r k = lbind (child_field r k) (\<lambda>v.
     lbind (only_names v [''file_id'', ''path'']) (\<lambda>_.
     lbind (file_field v ''file_id'') (\<lambda>f.
     lbind (path_field U v) (\<lambda>p. lpure \<lparr>tg_file = f, tg_path = p\<rparr>))))"

definition read_copy_of :: "object \<Rightarrow> copy_of option logged" where
  "read_copy_of r =
    (if \<not> has_field r ''copy_of'' then lpure None
     else lbind (child_field r ''copy_of'') (\<lambda>b.
       lbind (only_names b [''file_id'', ''reason'']) (\<lambda>_.
       lbind (file_field b ''file_id'') (\<lambda>f.
       lbind (read_copy_reason b False) (\<lambda>s. lpure (Some \<lparr>co_file = f, co_reason = s\<rparr>))))))"

definition only_body :: "object \<Rightarrow> string list \<Rightarrow> unit logged" where
  "only_body r names = only_names r ([''t'', ''client_op_id'', ''kind''] @ names)"

definition read_body :: "unicode_tables \<Rightarrow> object \<Rightarrow> proto_config \<Rightarrow> body option logged" where
  "read_body U r c = lbind (str_field r ''kind'') (\<lambda>kind.
     if kind = KindTextEdit then
       lbind (only_body r [''file_id'', ''base_version'', ''op'']) (\<lambda>_.
       lbind (file_field r ''file_id'') (\<lambda>f.
       lbind (version_field r) (\<lambda>v.
       lbind (text_field r c) (\<lambda>o1. lpure (Some (TextEdit f v o1))))))
     else if kind = KindAnnotEdit then
       lbind (only_body r [''file_id'', ''base_version'', ''ops'']) (\<lambda>_.
       lbind (file_field r ''file_id'') (\<lambda>f.
       lbind (version_field r) (\<lambda>v.
       lbind (ops_field r (\<lambda>s. parse_ops s (pc_annot c)) (al_max_op_bytes (pc_annot c))) (\<lambda>ops.
         lpure (Some (AnnotEdit f v ops))))))
     else if kind = KindAnnotReplace then
       lbind (only_body r [''file_id'', ''base_version'', ''content'']) (\<lambda>_.
       lbind (file_field r ''file_id'') (\<lambda>f.
       lbind (version_field r) (\<lambda>v.
       lbind (child_field r ''content'') (\<lambda>ch.
       lbind (read_content U ch Sidecar c) (\<lambda>x. lpure (Some (AnnotReplace f v x)))))))
     else if kind = KindPutBlob then
       lbind (only_body r [''file_id'', ''base_version'', ''blob'']) (\<lambda>_.
       lbind (file_field r ''file_id'') (\<lambda>f.
       lbind (version_field r) (\<lambda>v.
       lbind (child_field r ''blob'') (\<lambda>ch.
       lbind (blob_object U ch) (\<lambda>b. lpure (Some (PutBlob f v b)))))))
     else if kind = KindCreate then
       lbind (only_body r [''file_id'', ''path'', ''class'', ''content'', ''on_taken'', ''copy_of'']) (\<lambda>_.
       lbind (file_field r ''file_id'') (\<lambda>f.
       lbind (path_field U r) (\<lambda>p.
       lbind (class_field r) (\<lambda>cl.
       lbind (read_on_taken r) (\<lambda>ot.
       lbind (child_field r ''content'') (\<lambda>ch.
       lbind (read_content U ch cl c) (\<lambda>x.
       lbind (read_copy_of r) (\<lambda>cp. lpure (Some (CreateFile f p cl x ot cp))))))))))
     else if kind = KindRename then
       lbind (only_body r [''file_id'', ''path'', ''on_taken'']) (\<lambda>_.
       lbind (file_field r ''file_id'') (\<lambda>f.
       lbind (path_field U r) (\<lambda>p.
       lbind (read_on_taken r) (\<lambda>ot. lpure (Some (RenameFile f p ot))))))
     else if kind = KindRenameGroup then
       lbind (only_body r [''pdf'', ''sidecar'', ''on_taken'']) (\<lambda>_.
       lbind (read_target U r ''pdf'') (\<lambda>a.
       lbind (read_target U r ''sidecar'') (\<lambda>b.
       lbind (read_on_taken r) (\<lambda>ot.
       lbind ((), if tg_file a = tg_file b then invalid_at r ''sidecar.file_id'' else []) (\<lambda>_.
         lpure (Some (RenameGroup a b ot)))))))
     else if kind = KindDelete then
       lbind (only_body r [''file_id'', ''base_version'', ''confirmed'']) (\<lambda>_.
       lbind (file_field r ''file_id'') (\<lambda>f.
       lbind (version_field r) (\<lambda>v.
       lbind (if has_field r ''confirmed'' then boolean_field r ''confirmed'' else lpure False) (\<lambda>conf.
         lpure (Some (DeleteFile f v conf))))))
     else (None, invalid_at r ''kind''))"

section \<open>Decoding and encoding\<close>

text \<open>The last check of an annotation edit: its canonical form must fit a frame as well.\<close>

definition admit_submit :: "client_op_id \<Rightarrow> body option \<Rightarrow> proto_config \<Rightarrow> proto_error + client_msg" where
  "admit_submit i body c = (case body of
     Some (AnnotEdit f v ops) \<Rightarrow>
       (case body_wire body c of
          Inl _ \<Rightarrow> Inl (RejectError i InvalidOp (no_detail\<lparr>dt_field := ''ops'', dt_reason := ''ErrNonCanonical''\<rparr>))
        | Inr w \<Rightarrow> (case marshal_frame (submit_wire i w) (pc_max_frame c) of
            Inl _ \<Rightarrow> Inl (RejectError i TooLargeCode (no_detail\<lparr>dt_field := ''frame'', dt_limit := pc_max_frame c\<rparr>))
          | Inr _ \<Rightarrow> Inr (SubmitMsg i body)))
   | _ \<Rightarrow> Inr (SubmitMsg i body))"

definition protocol_close :: proto_error where
  "protocol_close = CloseError CloseProtocol ''protocol''"

definition decode_submit :: "unicode_tables \<Rightarrow> object \<Rightarrow> proto_config \<Rightarrow> proto_error + client_msg" where
  "decode_submit U r c =
    (let (s, fs) = str_field r ''client_op_id'' in
     case parse_client_op_id s of Inl _ \<Rightarrow> Inl protocol_close
     | Inr i \<Rightarrow> if fs \<noteq> [] then Inl protocol_close
       else (case read_body U r c of
           (body, []) \<Rightarrow> admit_submit i body c
         | (_, (code, d) # _) \<Rightarrow> Inl (RejectError i code d)))"

definition decode_query :: "string \<Rightarrow> object \<Rightarrow> proto_error + client_msg" where
  "decode_query typ r =
    (let (q, fs) = uint32_field r ''req'' True in
     if fs \<noteq> [] then Inl protocol_close
     else
       let m = (if typ = ''pull_changes'' then
             lbind (only_names r [''t'', ''req'', ''after_seq'']) (\<lambda>_.
             lbind (integer_field r ''after_seq'' 0 MaxSafe) (\<lambda>n. lpure (PullChanges q n)))
           else
             lbind (only_names r [''t'', ''req'', ''after_file_id'']) (\<lambda>_.
             lbind (if has_field r ''after_file_id''
               then lbind (file_field r ''after_file_id'') (\<lambda>f. lpure (Some f)) else lpure None) (\<lambda>f.
               lpure (ListFiles q f)))) in
       case m of (v, []) \<Rightarrow> Inr v | (_, (_, d) # _) \<Rightarrow> Inl (QueryError q InvalidRequest d))"

definition decode_hello :: "object \<Rightarrow> proto_error + client_msg" where
  "decode_hello r =
    (if snd (only_names r [''t'', ''token'']) \<noteq> [] then Inl protocol_close
     else let (s, fs) = str_field r ''token'' in
       case parse_token s of None \<Rightarrow> Inl (CloseError CloseAuth ''bad_token'')
       | Some t \<Rightarrow> if fs \<noteq> [] then Inl (CloseError CloseAuth ''bad_token'') else Inr (Hello t))"

text \<open>The switch on the type of the frame.\<close>

definition decode_typed :: "unicode_tables \<Rightarrow> string \<Rightarrow> object \<Rightarrow> proto_config \<Rightarrow> proto_error + client_msg" where
  "decode_typed U typ r c =
    (if typ = ''submit'' then decode_submit U r c
     else if typ = ''pull_changes'' \<or> typ = ''list_files'' then decode_query typ r
     else if typ = ''hello'' then decode_hello r
     else if typ = ''pong'' then
       (case lbind (only_names r [''t'', ''n'']) (\<lambda>_. uint32_field r ''n'' False) of
          (n, []) \<Rightarrow> Inr (Pong n) | _ \<Rightarrow> Inl protocol_close)
     else Inl protocol_close)"

definition decode_client :: "unicode_tables \<Rightarrow> string \<Rightarrow> proto_config \<Rightarrow> proto_error + client_msg" where
  "decode_client U frame c =
    rbind (framing frame (pc_max_frame c)) (\<lambda>_.
      let (r, fs) = new_object (trim_space frame) True []; (typ, gs) = str_field r ''t'' in
      if fs @ gs \<noteq> [] then Inl protocol_close else decode_typed U typ r c)"

definition client_wire :: "client_msg option \<Rightarrow> proto_config \<Rightarrow> (annot_error + proto_error) + wire" where
  "client_wire m c = (case m of
     None \<Rightarrow> Inl (Inr ErrInvalidMessage)
   | Some (Hello t) \<Rightarrow> Inr (WObj [(''t'', WStr ''hello''), (''token'', WStr (token_secret t))])
   | Some (PullChanges q n) \<Rightarrow> Inr (WObj [(''t'', WStr ''pull_changes''), (''req'', WInt (uint q)), (''after_seq'', WInt n)])
   | Some (ListFiles q f) \<Rightarrow> Inr (WObj ([(''t'', WStr ''list_files''), (''req'', WInt (uint q))]
       @ (case f of None \<Rightarrow> [] | Some i \<Rightarrow> [(''after_file_id'', file_wire_id i)])))
   | Some (Pong n) \<Rightarrow> Inr (WObj [(''t'', WStr ''pong''), (''n'', WInt (uint n))])
   | Some (SubmitMsg i body) \<Rightarrow> rbind (body_wire body c) (\<lambda>w. Inr (submit_wire i w)))"

definition encode_client :: "unicode_tables \<Rightarrow> client_msg option \<Rightarrow> proto_config \<Rightarrow> (annot_error + proto_error) + string" where
  "encode_client U m c =
    rbind (client_wire m c) (\<lambda>w.
      case marshal_frame w (pc_max_frame c) of Inl e \<Rightarrow> Inl (Inr e)
      | Inr raw \<Rightarrow> (case decode_client U raw c of Inl e \<Rightarrow> Inl (Inr e) | Inr _ \<Rightarrow> Inr raw))"

end
