(* ===== verification/Proto_Facts.thy ===== *)
theory Proto_Facts
  imports Proto_Client Annot_Ops_Round
begin

text \<open>
  Facts about the JSON layer of the wire codec (\<^verbatim>\<open>encoding/json/v2\<close>): the trees of written
  values, and reading the members of a written object back as the texts they were written
  with.
\<close>

section \<open>Literals\<close>

lemma runes_scalar: "\<forall>r \<in> set (runes s). scalar r"
proof (induction s rule: runes.induct)
  case (1 s)
  show ?case
  proof (cases "s = []")
    case False
    have "scalar (fst (decode_rune s))"
    proof (cases "decode_rune s = (rune_error, 1)")
      case True
      then show ?thesis by (simp add: rune_error_def scalar_def)
    next
      case d: False
      then show ?thesis using encode_decode [OF False d] by simp
    qed
    moreover have "\<forall>r \<in> set (runes (drop (snd (decode_rune s)) s)). scalar r" by (rule "1.IH" [OF False])
    ultimately show ?thesis using False by (simp add: runes_cons)
  qed simp
qed

lemma wire_rune_read:
  assumes "scalar r"
  shows "unquote (wire_rune r @ t) = encode_rune r @ unquote t" and "json_chars t \<Longrightarrow> json_chars (wire_rune r @ t)"
    and "paired (wire_rune r @ t) = paired t"
proof -
  have "unquote (wire_rune r @ t) = encode_rune r @ unquote t \<and> (json_chars t \<longrightarrow> json_chars (wire_rune r @ t))
    \<and> paired (wire_rune r @ t) = paired t"
  proof (cases "r < 0x20 \<or> r = 0x22 \<or> r = 0x5C")
    case True
    then show ?thesis using json_rune_read [OF assms] by (simp add: wire_rune_def)
  next
    case no: False
    then have w: "wire_rune r = encode_rune r" by (simp add: wire_rune_def)
    show ?thesis
    proof (cases "r < 0x80")
      case True
      then have b: "bv (char_of r) = r" by (simp add: bv_char_of)
      then have c: "char_of r \<noteq> quote_char" "char_of r \<noteq> CHR 0x5C" using no bv_inj [of "char_of r"] by (auto simp: char_of_iff)
      have e: "encode_rune r = [char_of r]" using True by (simp add: encode1)
      have "unquote_step (char_of r # t) = (encode_rune r, t)" using c True b e by (simp add: unquote_step_def)
      then show ?thesis using unquote_step_eq [of "char_of r # t"] c no b e unfolding w by (simp add: json_chars.plain paired_plain)
    next
      case False
      have hi: "\<forall>c \<in> set (encode_rune r). 0x80 \<le> bv c" by (rule multi_bytes [OF assms]) (use False in simp)
      obtain c u where c: "encode_rune r @ t = c # u" "0x80 \<le> bv c"
        using hi encode_rune_nonempty [of r] by (cases "encode_rune r") auto
      have d: "decode_rune (c # u) = (r, length (encode_rune r))" using decode_encode [OF assms, of t] c(1) by simp
      have "unquote_step (c # u) = (encode_rune r, t)"
        using d c high_bytes [OF c(2)] by (simp add: unquote_step_def) (metis append_eq_conv_conj)
      then have "unquote (c # u) = encode_rune r @ unquote t" by (intro unquote_step_eq) simp_all
      then show ?thesis using paired_high [OF hi] json_chars_high [OF hi] unfolding w c(1) [symmetric] by simp
    qed
  qed
  then show "unquote (wire_rune r @ t) = encode_rune r @ unquote t" "json_chars t \<Longrightarrow> json_chars (wire_rune r @ t)"
    "paired (wire_rune r @ t) = paired t" by blast+
qed

lemma wire_runes_read:
  "\<forall>r \<in> set rs. scalar r \<Longrightarrow> unquote (concat (map wire_rune rs)) = string_of_runes rs
     \<and> json_chars (concat (map wire_rune rs)) \<and> paired (concat (map wire_rune rs))"
  by (induction rs) (auto simp: string_of_runes_def wire_rune_read json_chars.none)

lemma wire_rune_valid: "scalar r \<Longrightarrow> valid_string (wire_rune r)"
  using json_rune_valid [of r] runes_string_of_runes [of "[r]"] by (auto simp: wire_rune_def string_of_runes_def)

lemma wire_body_valid: "valid_string (wire_body s)"
proof -
  have "\<forall>r \<in> set rs. scalar r \<Longrightarrow> valid_string (concat (map wire_rune rs))" for rs
    by (induction rs) (simp_all add: wire_rune_valid valid_string_append)
  then show ?thesis using runes_scalar by (simp add: wire_body_def)
qed

lemma wire_body_chars: "json_chars (wire_body s)" "paired (wire_body s)"
  using wire_runes_read [OF runes_scalar] by (simp_all add: wire_body_def)

lemma wire_body_read: "valid_string s \<Longrightarrow> unquote (wire_body s) = s"
  using wire_runes_read [OF runes_scalar, of s] valid_string_runes [of s] by (simp add: wire_body_def)

section \<open>Values and members of a text\<close>

lemma next_value_text:
  assumes "renders d v x" "d \<le> json_max_depth" "blank w" "ends_word r"
  shows "next_value (w @ x @ r) = Some (x, r)"
proof -
  obtain c u where x: "x = c # u" "\<not> is_ws c" using renders_hd [OF assms(1)] by blast
  have s: "skip_ws (w @ x @ r) = x @ r" using x by (simp add: skip_ws_append [OF assms(3)] skip_ws_id)
  have "parse_value json_max_depth (2 * length (x @ r) + 2) ([] @ x @ r) = Some (v, r)"
    by (rule parse_complete(1) [OF renders_mono(1) [OF assms(1,2)] _ assms(4)]) simp_all
  then show ?thesis by (simp only: next_value_def s Let_def option.case prod.case append_Nil) simp
qed

lemma next_name_text:
  assumes "json_chars k" "blank w" "blank w1"
  shows "next_name (w @ quote_char # k @ quote_char # w1 @ CHR '':'' # r) = Some (unquote k, r)"
  using scan_string_complete [OF assms(1)]
  by (simp add: next_name_def skip_ws_append [OF assms(2)] skip_ws_append [OF assms(3)] skip_ws_id not_ws)

text \<open>The members as texts: the name decoded, the value as it is spelled.\<close>

definition spelled :: "nat \<Rightarrow> string \<times> raw \<Rightarrow> string \<times> string \<Rightarrow> bool" where
  "spelled d m f \<longleftrightarrow> fst f = unquote (fst m) \<and> renders d (snd m) (snd f)"

lemma spelled_pair [simp]: "spelled d (k, v) (n, x) \<longleftrightarrow> n = unquote k \<and> renders d v x"
  by (simp add: spelled_def)

lemma split_members_step:
  assumes "json_chars k" "blank w" "blank w1" "blank w2" "renders d v t" "blank w3" "d \<le> json_max_depth"
    and "c = CHR '','' \<or> c = CHR ''}''"
  shows "split_members (w @ quote_char # k @ quote_char # w1 @ CHR '':'' # w2 @ t @ w3 @ c # r) =
    (if c = CHR '','' then map_option ((#) (unquote k, t)) (split_members r)
     else if skip_ws r = [] then Some [(unquote k, t)] else None)"
proof -
  have n: "next_name (w @ quote_char # k @ quote_char # w1 @ CHR '':'' # (w2 @ t @ w3 @ c # r)) = Some (unquote k, w2 @ t @ w3 @ c # r)"
    by (rule next_name_text [OF assms(1-3)])
  have v: "next_value (w2 @ t @ w3 @ c # r) = Some (t, w3 @ c # r)"
    by (rule next_value_text [OF assms(5,7,4) ends_word_rest [OF assms(6)]]) (use assms(8) in auto)
  show ?thesis using n v assms(8)
    by (auto simp add: split_members.simps [of "w @ _"] skip_ws_append [OF assms(6)] skip_ws_id not_ws)
qed

lemma split_items_step:
  assumes "blank w" "renders d v t" "blank w1" "d \<le> json_max_depth" "c = CHR '','' \<or> c = CHR '']''"
  shows "split_items (w @ t @ w1 @ c # r) =
    (if c = CHR '','' then map_option ((#) t) (split_items r) else if skip_ws r = [] then Some [t] else None)"
proof -
  have v: "next_value (w @ t @ w1 @ c # r) = Some (t, w1 @ c # r)"
    by (rule next_value_text [OF assms(2,4,1) ends_word_rest [OF assms(3)]]) (use assms(5) in auto)
  show ?thesis using v assms(5)
    by (auto simp add: split_items.simps [of "w @ _"] skip_ws_append [OF assms(3)] skip_ws_id not_ws)
qed

lemma skip_blank: "blank z \<Longrightarrow> skip_ws z = []"
  by (simp add: skip_ws_def blank_def list_all_iff)

lemma split_members_text:
  "renders_members d ms t \<Longrightarrow> d \<le> json_max_depth \<Longrightarrow> blank z \<Longrightarrow>
     \<exists>fs. split_members (t @ CHR ''}'' # z) = Some fs \<and> list_all2 (spelled d) ms fs"
proof (induction d ms t rule: renders_renders_items_renders_members.inducts(3) [where ?P1.0 = "\<lambda>_ _ _. True" and ?P2.0 = "\<lambda>_ _ _. True"])
  case (last_member w k w1 w2 d v t w3)
  have b: "json_chars k" "blank w" "blank w1" "blank w2" "renders d v t" "blank w3" by fact+
  show ?case using split_members_step [OF b last_member.prems(1), of "CHR ''}''" z] skip_blank [OF last_member.prems(2)] b(5)
    by simp
next
  case (more_members w k w1 w2 d v t w3 ms u)
  have b: "json_chars k" "blank w" "blank w1" "blank w2" "renders d v t" "blank w3" by fact+
  obtain fs where fs: "split_members (u @ CHR ''}'' # z) = Some fs" "list_all2 (spelled d) ms fs"
    using more_members.IH more_members.prems by blast
  show ?case using split_members_step [OF b more_members.prems(1), of "CHR '',''" "u @ CHR ''}'' # z"] fs b(5)
    by simp
qed simp_all

lemma split_items_text:
  "renders_items d vs t \<Longrightarrow> d \<le> json_max_depth \<Longrightarrow> blank z \<Longrightarrow>
     \<exists>xs. split_items (t @ CHR '']'' # z) = Some xs \<and> list_all2 (renders d) vs xs"
proof (induction d vs t rule: renders_renders_items_renders_members.inducts(2) [where ?P1.0 = "\<lambda>_ _ _. True" and ?P3.0 = "\<lambda>_ _ _. True"])
  case (last_item w d v t w1)
  have b: "blank w" "renders d v t" "blank w1" by fact+
  show ?case using split_items_step [OF b last_item.prems(1), of "CHR '']''" z] skip_blank [OF last_item.prems(2)] b(2) by simp
next
  case (more_items w d v t w1 vs u)
  have b: "blank w" "renders d v t" "blank w1" by fact+
  obtain xs where xs: "split_items (u @ CHR '']'' # z) = Some xs" "list_all2 (renders d) vs xs"
    using more_items.IH more_items.prems by blast
  show ?case using split_items_step [OF b more_items.prems(1), of "CHR '',''" "u @ CHR '']'' # z"] xs b(2) by simp
qed simp_all

text \<open>In compact text the spelling is determined.\<close>

abbreviation member_spelling :: "string \<times> raw \<Rightarrow> string" where
  "member_spelling m \<equiv> (case m of (k, v) \<Rightarrow> quote_char # k @ quote_char # '':'' @ raw_compact v)"

lemma split_members_compact:
  assumes "d \<le> json_max_depth" "ms \<noteq> []" "\<forall>(k, v) \<in> set ms. json_chars k \<and> renders d v (raw_compact v)"
  shows "split_members (join_with '','' (map member_spelling ms) @ ''}'') = Some (map (\<lambda>(k, v). (unquote k, raw_compact v)) ms)"
  using assms(2,3)
proof (induction ms)
  case (Cons m ms)
  obtain k v where m: "m = (k, v)" by fastforce
  have b: "json_chars k" "blank []" "blank []" "blank []" "renders d v (raw_compact v)" "blank []" using Cons.prems m by auto
  note step = split_members_step [OF b assms(1)]
  show ?case
  proof (cases "ms = []")
    case True
    then show ?thesis using step [of "CHR ''}''" "[]"] m by (simp add: skip_ws_def)
  next
    case False
    then show ?thesis using Cons.IH Cons.prems(2) step [of "CHR '',''" "join_with '','' (map member_spelling ms) @ ''}''"] m
      by (simp add: join_with_cons)
  qed
qed simp

lemma split_items_compact:
  assumes "d \<le> json_max_depth" "vs \<noteq> []" "\<forall>v \<in> set vs. renders d v (raw_compact v)"
  shows "split_items (join_with '','' (map raw_compact vs) @ '']'') = Some (map raw_compact vs)"
  using assms(2,3)
proof (induction vs)
  case (Cons v vs)
  have b: "blank []" "renders d v (raw_compact v)" "blank []" using Cons.prems by auto
  note step = split_items_step [OF b assms(1)]
  show ?case
  proof (cases "vs = []")
    case True
    then show ?thesis using step [of "CHR '']''" "[]"] by (simp add: skip_ws_def)
  next
    case False
    then show ?thesis using Cons.IH Cons.prems(2) step [of "CHR '',''" "join_with '','' (map raw_compact vs) @ '']''"]
      by (simp add: join_with_cons)
  qed
qed simp

lemma renders_members_each: "renders_members d ms t \<Longrightarrow> \<forall>(k, v) \<in> set ms. json_chars k \<and> renders d v (raw_compact v)"
  by (induction d ms t rule: renders_renders_items_renders_members.inducts(3) [where ?P1.0 = "\<lambda>_ _ _. True" and ?P2.0 = "\<lambda>_ _ _. True"])
    (auto intro: renders_compact(1))

lemma renders_items_each: "renders_items d vs t \<Longrightarrow> \<forall>v \<in> set vs. renders d v (raw_compact v)"
  by (induction d vs t rule: renders_renders_items_renders_members.inducts(2) [where ?P1.0 = "\<lambda>_ _ _. True" and ?P3.0 = "\<lambda>_ _ _. True"])
    (auto intro: renders_compact(1))

lemma unmarshal_object_compact:
  assumes "text_of (RObj ms) s" "json_strict s"
  shows "unmarshal_object s = Some (map (\<lambda>(k, v). (unquote k, raw_compact v)) ms)"
proof -
  obtain w where w: "parse_json s = Some w" using assms(2) by (auto simp: json_strict_def split: option.splits)
  have "w = RObj ms" by (rule text_unique [OF assms(1) w])
  then obtain t where t: "renders json_max_depth (RObj ms) t" using w unfolding parse_json_exact json_document_def by blast
  have s: "s = ''{'' @ join_with '','' (map member_spelling ms) @ ''}''" using assms(1) by (simp add: text_of_def)
  show ?thesis
  proof (cases "ms = []")
    case True
    then show ?thesis using assms(2) s by (simp add: unmarshal_object_def skip_ws_id not_ws)
  next
    case False
    obtain d t1 where d: "json_max_depth = Suc d" "renders_members d ms t1"
      using t False by (cases rule: renders.cases) auto
    note each = renders_members_each [OF d(2)]
    have "split_members (join_with '','' (map member_spelling ms) @ ''}'') = Some (map (\<lambda>(k, v). (unquote k, raw_compact v)) ms)"
      by (rule split_members_compact [OF _ False each]) (use d(1) in simp)
    moreover obtain z where "join_with '','' (map member_spelling ms) @ ''}'' = quote_char # z"
      using False by (cases ms; cases "tl ms") auto
    ultimately show ?thesis using assms(2) unfolding s by (simp add: unmarshal_object_def skip_ws_id not_ws)
  qed
qed

lemma unmarshal_array_compact:
  assumes "text_of (RArr vs) s" "json_strict s"
  shows "unmarshal_array s = Some (map raw_compact vs)"
proof -
  obtain w where w: "parse_json s = Some w" using assms(2) by (auto simp: json_strict_def split: option.splits)
  have "w = RArr vs" by (rule text_unique [OF assms(1) w])
  then obtain t where t: "renders json_max_depth (RArr vs) t" using w unfolding parse_json_exact json_document_def by blast
  have s: "s = ''['' @ join_with '','' (map raw_compact vs) @ '']''" using assms(1) by (simp add: text_of_def)
  show ?thesis
  proof (cases vs)
    case Nil
    then show ?thesis using assms(2) s by (simp add: unmarshal_array_def skip_ws_id not_ws)
  next
    case (Cons v us)
    obtain d t1 where d: "json_max_depth = Suc d" "renders_items d vs t1"
      using t Cons by (cases rule: renders.cases) auto
    note each = renders_items_each [OF d(2)]
    have sp: "split_items (join_with '','' (map raw_compact vs) @ '']'') = Some (map raw_compact vs)"
      by (rule split_items_compact [OF _ _ each]) (use d(1) Cons in simp_all)
    obtain c u where c: "raw_compact v = c # u" "\<not> is_ws c" "c \<noteq> CHR '']''"
      using renders_hd [of d v "raw_compact v"] each Cons by auto
    then obtain z where "join_with '','' (map raw_compact vs) @ '']'' = c # z"
      using Cons by (cases us) auto
    then show ?thesis using assms(2) sp c unfolding s by (simp add: unmarshal_array_def skip_ws_id not_ws)
  qed
qed

section \<open>Trees of written values\<close>

lemma those_iff: "those (map f xs) = Some ys \<longleftrightarrow> list_all2 (\<lambda>x y. f x = Some y) xs ys"
  by (induction xs arbitrary: ys) (auto simp: list_all2_Cons1 split: option.splits)

lemma text_array_raw:
  assumes "\<forall>v \<in> set vs. text_of v (raw_compact v)"
  shows "text_of (RArr vs) (raw_compact (RArr vs))"
  using text_array [of vs "map raw_compact vs"] assms by (simp add: raw_array_def list_all2_conv_all_nth)

lemma text_object_raw:
  assumes "\<forall>(k, v) \<in> set ms. json_chars k \<and> text_of v (raw_compact v)"
  shows "text_of (RObj ms) (raw_compact (RObj ms))"
proof (cases "ms = []")
  case True
  then show ?thesis using json_no_members [of "[]" 0] by (auto simp: text_of_def)
next
  case False
  have "\<forall>v \<in> set (map snd ms). \<exists>d. renders d v (raw_compact v)" using assms by (auto simp: text_of_def)
  then obtain d where d: "\<forall>v \<in> set (map snd ms). renders d v (raw_compact v)" using common_depth by blast
  have "renders_members d ms (join_with '','' (map member_spelling ms))"
    by (rule renders_members_compact [OF False]) (use d assms in \<open>auto\<close>)
  then show ?thesis unfolding text_of_def using json_members by fastforce
qed

lemma reformat_text: "renders d v t \<Longrightarrow> text_of (raw_reformat v) (raw_compact (raw_reformat v))"
proof (induction v arbitrary: d t rule: raw_reformat.induct)
  case (1 w)
  then have "json_word w" by (cases rule: renders.cases) auto
  then show ?case using json_word_rule [of w 0] by (auto simp: text_of_def)
next
  case (2 b)
  then show ?case using json_literal [OF wire_body_chars(1), of 0 "unquote b"] by (auto simp: text_of_def)
next
  case (3 vs)
  have "text_of (raw_reformat v) (raw_compact (raw_reformat v))" if v: "v \<in> set vs" for v
  proof -
    obtain d1 t1 where "renders_items d1 vs t1" using "3.prems" v by (cases rule: renders.cases) auto
    then show ?thesis using renders_items_each v "3.IH" [OF v] by blast
  qed
  then show ?case using text_array_raw [of "map raw_reformat vs"] by simp
next
  case (4 ms)
  have "text_of (raw_reformat v) (raw_compact (raw_reformat v))" if v: "(k, v) \<in> set ms" for k v
  proof -
    obtain d1 t1 where "renders_members d1 ms t1" using "4.prems" v by (cases rule: renders.cases) auto
    then have "renders d1 v (raw_compact v)" using renders_members_each v by blast
    then show ?thesis using "4.IH" [OF v refl] by blast
  qed
  then have "\<forall>(k, v) \<in> set (map (\<lambda>(k, v). (wire_body (unquote k), raw_reformat v)) ms). json_chars k \<and> text_of v (raw_compact v)"
    using wire_body_chars(1) by auto
  then show ?case unfolding raw_reformat.simps by (rule text_object_raw)
qed

lemma text_literal: "text_of (RStr (wire_body s)) (quote_char # wire_body s @ [quote_char])"
  using json_literal [OF wire_body_chars(1), of 0 s] by (auto simp: text_of_def)

lemma text_bool: "text_of (RWord (if b then ''true'' else ''false'')) (if b then ''true'' else ''false'')"
  using json_word_rule [of "if b then ''true'' else ''false''" 0] by (auto simp: text_of_def json_word_def)

text \<open>The texts of the members of a written map, in the order of their keys.\<close>

definition wire_members :: "(string \<times> wire) list \<Rightarrow> (string \<times> raw) list \<Rightarrow> bool" where
  "wire_members ms ts \<longleftrightarrow> list_all2 (\<lambda>(k, w) (n, t). n = wire_body k \<and> w = Some t) (sort_key fst (map (\<lambda>(k, v). (k, wire_raw v)) ms)) ts"

lemma wire_object: "wire_raw (WObj ms) = Some t \<longleftrightarrow> (\<exists>ts. t = RObj ts \<and> wire_members ms ts)"
proof -
  have "list_all2 (\<lambda>x y. (case x of (k, v) \<Rightarrow> map_option (Pair (wire_body k)) v) = Some y) xs ts
      \<longleftrightarrow> list_all2 (\<lambda>(k, w) (n, t). n = wire_body k \<and> w = Some t) xs ts" for xs :: "(string \<times> raw option) list" and ts
    by (rule arg_cong [where f = "\<lambda>P. list_all2 P xs ts"]) (auto simp: fun_eq_iff)
  then show ?thesis by (auto simp: those_iff wire_members_def)
qed

lemma wire_raw_text: "wire_raw v = Some t \<Longrightarrow> text_of t (raw_compact t)"
proof (induction v arbitrary: t rule: wire_raw.induct)
  case (1 s)
  then show ?case using text_literal by (auto split: if_splits)
next
  case (2 i)
  then show ?case using text_number by auto
next
  case (3 b)
  then show ?case using text_bool [of b] by auto
next
  case (4 u)
  then show ?case using text_literal by (auto split: sum.splits if_splits)
next
  case (5 s)
  then obtain v where v: "parse_json s = Some v" "t = raw_reformat v" by (auto split: if_splits)
  then show ?case using reformat_text unfolding parse_json_exact json_document_def by blast
next
  case (6 vs)
  then obtain ts where ts: "t = RArr ts" "list_all2 (\<lambda>v t. wire_raw v = Some t) vs ts" by (auto simp: those_iff)
  have "\<forall>u \<in> set ts. text_of u (raw_compact u)"
  proof
    fix u assume "u \<in> set ts"
    then obtain i where i: "i < length ts" "u = ts ! i" by (auto simp: in_set_conv_nth)
    then have "wire_raw (vs ! i) = Some u" "vs ! i \<in> set vs" using ts(2) by (auto simp: list_all2_conv_all_nth)
    then show "text_of u (raw_compact u)" using "6.IH" by blast
  qed
  then show ?case using text_array_raw ts(1) by blast
next
  case (7 ms)
  then obtain ts where ts: "t = RObj ts" "wire_members ms ts" unfolding wire_object by blast
  have "\<forall>(k, u) \<in> set ts. json_chars k \<and> text_of u (raw_compact u)"
  proof clarify
    fix n u assume "(n, u) \<in> set ts"
    then obtain i where i: "i < length ts" "ts ! i = (n, u)" by (auto simp: in_set_conv_nth)
    let ?xs = "sort_key fst (map (\<lambda>(k, v). (k, wire_raw v)) ms)"
    obtain k where k: "?xs ! i = (k, Some u)" "n = wire_body k" "i < length ?xs"
      using ts(2) i by (cases "?xs ! i") (auto simp: wire_members_def list_all2_conv_all_nth)
    then have "(k, Some u) \<in> set ?xs" using nth_mem by metis
    then obtain v where "(k, v) \<in> set ms" "wire_raw v = Some u" by auto
    then show "json_chars n \<and> text_of u (raw_compact u)" using "7.IH" k(2) wire_body_chars(1) by blast
  qed
  then show ?case using text_object_raw ts(1) by blast
qed

end
