(* ===== verification/Proto_Fields.thy ===== *)
theory Proto_Fields
  imports Proto_Facts
begin

text \<open>
  Reading the members of a written object (\<^verbatim>\<open>internal/proto/read.go\<close> against
  \<^verbatim>\<open>encode_client.go\<close>): every reader that succeeds returns the value that was written.
\<close>

section \<open>Successful reads\<close>

lemma lbind_ok: "lbind m f = (y, []) \<longleftrightarrow> (\<exists>x. m = (x, []) \<and> f x = (y, []))"
  by (auto simp: lbind_def split: prod.splits)

lemma lpure_ok [simp]: "lpure x = (y, []) \<longleftrightarrow> y = x"
  by (auto simp: lpure_def)

lemma fail_at_nonempty [simp]: "fail_at r k c d \<noteq> []"
  by (simp add: fail_at_def)

lemma option_read: "(case v of None \<Rightarrow> (z, fail_at r k c d) | Some x \<Rightarrow> f x) = (y, []) \<longleftrightarrow> (\<exists>x. v = Some x \<and> f x = (y, []))"
  by (cases v) auto

lemma sum_read: "(case v of Inl e \<Rightarrow> (z, g e) | Inr x \<Rightarrow> f x) = (y, []) \<Longrightarrow> (\<And>e. g e \<noteq> []) \<Longrightarrow> (\<exists>x. v = Inr x \<and> f x = (y, []))"
  by (cases v) auto

section \<open>Written objects\<close>

text \<open>The keys of a wire map: names of the protocol, ASCII and distinct.\<close>

definition wire_keys :: "(string \<times> wire) list \<Rightarrow> bool" where
  "wire_keys ms \<longleftrightarrow> list_all (\<lambda>m. list_all (\<lambda>c. bv c < 0x80) (fst m)) ms \<and> distinct (map fst ms)"

lemma wire_keysD: "wire_keys ms \<Longrightarrow> (\<forall>(k, v) \<in> set ms. valid_string k) \<and> distinct (map fst ms)"
  using ascii_string by (fastforce simp: wire_keys_def list_all_iff)

definition written :: "object \<Rightarrow> (string \<times> wire) list \<Rightarrow> bool" where
  "written r ms \<longleftrightarrow> (\<forall>k. map_of (ob_fields r) k = Option.bind (map_of ms k) marshal_wire)
     \<and> length (ob_fields r) = length ms \<and> (\<forall>(k, v) \<in> set ms. wire_raw v \<noteq> None)"

lemma written_fields:
  assumes "wire_members ms ts" "wire_keys ms"
  defines "fs \<equiv> map (\<lambda>(k, v). (unquote k, raw_compact v)) ts"
  shows "(\<forall>k. map_of fs k = Option.bind (map_of ms k) marshal_wire) \<and> length fs = length ms \<and> (\<forall>(k, v) \<in> set ms. wire_raw v \<noteq> None)"
proof -
  have valid: "\<forall>(k, v) \<in> set ms. valid_string k" and dist: "distinct (map fst ms)" using wire_keysD [OF assms(2)] by blast+
  let ?xs = "map (\<lambda>(k, v). (k, wire_raw v)) ms"
  let ?ys = "map (\<lambda>(k, v). (k, raw_compact (the (wire_raw v)))) ms"
  have all: "list_all2 (\<lambda>(k, w) (n, t). n = wire_body k \<and> w = Some t) (sort_key fst ?xs) ts"
    using assms(1) by (simp add: wire_members_def)
  then have len: "length ts = length ms" by (simp add: list_all2_lengthD [symmetric])
  have at: "i < length ms \<Longrightarrow> fst (ts ! i) = wire_body (fst (sort_key fst ?xs ! i)) \<and> snd (sort_key fst ?xs ! i) = Some (snd (ts ! i))" for i
    using all by (simp add: list_all2_conv_all_nth case_prod_beta)
  have mem: "i < length ms \<Longrightarrow> \<exists>v. (fst (sort_key fst ?xs ! i), v) \<in> set ms \<and> wire_raw v = Some (snd (ts ! i))" for i
  proof -
    assume i: "i < length ms"
    have "sort_key fst ?xs ! i \<in> set ?xs" using nth_mem [of i "sort_key fst ?xs"] i by simp
    then show ?thesis using at [OF i] by auto
  qed
  have fs: "fs = map (\<lambda>(k, w). (k, raw_compact (the w))) (sort_key fst ?xs)"
  proof (rule nth_equalityI)
    show "length fs = length (map (\<lambda>(k, w). (k, raw_compact (the w))) (sort_key fst ?xs))" using len by (simp add: fs_def)
    fix i assume "i < length fs"
    then have i: "i < length ms" using len by (simp add: fs_def)
    obtain v where v: "(fst (sort_key fst ?xs ! i), v) \<in> set ms" using mem [OF i] by blast
    then have "valid_string (fst (sort_key fst ?xs ! i))" using valid by auto
    then show "fs ! i = map (\<lambda>(k, w). (k, raw_compact (the w))) (sort_key fst ?xs) ! i"
      using at [OF i] i len wire_body_read by (simp add: fs_def case_prod_beta)
  qed
  have set: "set fs = set ?ys" unfolding fs by (force simp: image_iff)
  have keys: "map fst fs = map fst (sort_key fst ?xs)" unfolding fs by (simp add: case_prod_beta comp_def)
  have "distinct (map fst ?xs)" using dist by (simp add: comp_def case_prod_beta)
  then have "distinct (map fst (sort_key fst ?xs))"
    by (simp only: distinct_map distinct_sort set_sort)
  then have "map_of fs = map_of ?ys"
    using map_of_inject_set [of fs ?ys] set keys dist by (simp add: comp_def case_prod_beta)
  moreover have some: "wire_raw v \<noteq> None" if "(k, v) \<in> set ms" for k v
  proof -
    have "(k, wire_raw v) \<in> set (sort_key fst ?xs)" using that by auto
    then obtain i where "i < length (sort_key fst ?xs)" "sort_key fst ?xs ! i = (k, wire_raw v)" unfolding in_set_conv_nth by blast
    then show ?thesis using at [of i] by simp
  qed
  moreover have "map_of ?ys k = Option.bind (map_of ms k) marshal_wire" for k
  proof (cases "map_of ms k")
    case None
    then show ?thesis by (simp add: map_of_map)
  next
    case (Some v)
    then obtain t where "wire_raw v = Some t" using some map_of_SomeD by fastforce
    then show ?thesis using Some by (simp add: map_of_map marshal_wire_def)
  qed
  ultimately show ?thesis using len by (auto simp: fs_def)
qed

lemma new_object_written:
  assumes "wire_raw (WObj ms) = Some t" "wire_keys ms"
    and "new_object (raw_compact t) st p = (r, [])"
  shows "written r ms"
proof -
  obtain ts where ts: "t = RObj ts" "wire_members ms ts" using assms(1) unfolding wire_object by blast
  have tx: "text_of (RObj ts) (raw_compact t)" using wire_raw_text [OF assms(1)] ts(1) by simp
  obtain fs where fs: "unmarshal_object (raw_compact t) = Some fs" "ob_fields r = fs"
    using assms(3) by (auto simp: new_object_def Let_def split: if_splits option.splits)
  then have "json_strict (raw_compact t)" by (auto simp: unmarshal_object_def split: if_splits)
  then have "fs = map (\<lambda>(k, v). (unquote k, raw_compact v)) ts" using unmarshal_object_compact [OF tx] fs(1) by simp
  then show ?thesis using written_fields [OF ts(2) assms(2)] fs(2) by (simp add: written_def)
qed

section \<open>Fields\<close>

lemma has_written: "written r ms \<Longrightarrow> has_field r k \<longleftrightarrow> map_of ms k \<noteq> None"
  unfolding has_field_def written_def by (cases "map_of ms k") (auto simp: marshal_wire_def dest!: map_of_SomeD)

lemma raw_written:
  "written r ms \<Longrightarrow> map_of ms k = Some v \<Longrightarrow> marshal_wire v = Some x \<Longrightarrow> raw_field r k = (x, if x = ''null'' then invalid_at r k else [])"
  by (simp add: raw_field_def written_def)

lemma marshal_written: "written r ms \<Longrightarrow> map_of ms k = Some v \<Longrightarrow> \<exists>t. wire_raw v = Some t \<and> marshal_wire v = Some (raw_compact t)"
  unfolding written_def marshal_wire_def by (auto dest!: map_of_SomeD)

lemma literal_strict:
  assumes "valid_string s"
  defines "x \<equiv> quote_char # wire_body s @ [quote_char]"
  shows "unmarshal_string x = Some s" and "json_strict x"
proof -
  have p: "parse_json x = Some (RStr (wire_body s))"
    unfolding parse_json_exact json_document_def x_def
    by (intro exI [of _ "[]"] exI [of _ "quote_char # wire_body s @ [quote_char]"]) (simp add: json_literal wire_body_chars)
  have "valid_string [quote_char]" using ascii_string [of "[quote_char]"] by simp
  then have "valid_string ([quote_char] @ wire_body s @ [quote_char])" using wire_body_valid by (simp only: valid_string_append)
  then show "json_strict x" using p wire_body_chars(2) by (simp add: json_strict_def x_def)
  then show "unmarshal_string x = Some s" using p assms(1) by (simp add: unmarshal_string_def wire_body_read)
qed

lemma str_text: "written r ms \<Longrightarrow> map_of ms k = Some v \<Longrightarrow> wire_raw v = Some (RStr (wire_body s)) \<Longrightarrow> valid_string s \<Longrightarrow> str_field r k = (s, [])"
  using raw_written [of r ms k v "quote_char # wire_body s @ [quote_char]"] literal_strict(1) [of s]
  by (simp add: marshal_wire_def str_field_def lbind_def lpure_def)

lemma str_written: "written r ms \<Longrightarrow> map_of ms k = Some (WStr s) \<Longrightarrow> str_field r k = (s, []) \<and> valid_string s"
  using marshal_written [of r ms k "WStr s"] str_text [of r ms k "WStr s" s] by (auto split: if_splits)

lemma parse_int64_unique: "parse_int64 (string_of_int n) = Some i \<Longrightarrow> i = n"
proof -
  assume p: "parse_int64 (string_of_int n) = Some i"
  have ds: "list_all is_digit (digits_of k)" "digits_of k \<noteq> []" "hd (digits_of k) \<noteq> CHR ''-''" "hd (digits_of k) \<noteq> CHR ''+''" for k
  proof -
    show d: "list_all is_digit (digits_of k)" "digits_of k \<noteq> []"
      using digits_are_digits [of k] length_digits_pos [of k] by (auto simp: list_all_iff)
    then have "is_digit (hd (digits_of k))" by (cases "digits_of k") simp_all
    then show "hd (digits_of k) \<noteq> CHR ''-''" "hd (digits_of k) \<noteq> CHR ''+''" using is_digit_no by metis+
  qed
  show "i = n"
  proof (cases "n < 0")
    case True
    then have "string_of_int n = CHR ''-'' # digits_of (nat (- n))" by (simp add: string_of_int_def)
    then show ?thesis using ds True p by (simp add: parse_int64_def number_digits split: if_splits)
  next
    case False
    then have "string_of_int n = digits_of (nat n)" by (simp add: string_of_int_def)
    then show ?thesis using ds False p by (simp add: parse_int64_def number_digits split: if_splits)
  qed
qed

lemma integer_written:
  assumes "written r ms" "map_of ms k = Some (WInt n)" "integer_field r k lo hi = (x, [])"
  shows "x = n \<and> lo \<le> n \<and> n \<le> hi"
proof -
  have "string_of_int n \<noteq> ''null''" by (rule number_words)
  then have "raw_field r k = (string_of_int n, [])"
    using raw_written [OF assms(1,2)] by (simp add: marshal_wire_def)
  then obtain i where i: "parse_int64 (string_of_int n) = Some i" "\<not> (i < lo \<or> i > hi)" "x = i"
    using assms(3) by (auto simp: integer_field_def lbind_ok option_read split: if_splits)
  then show ?thesis using parse_int64_unique [of n i] by simp
qed

lemma boolean_written: "written r ms \<Longrightarrow> map_of ms k = Some (WBool b) \<Longrightarrow> boolean_field r k = (b, [])"
  using raw_written [of r ms k "WBool b"] by (cases b) (simp_all add: marshal_wire_def boolean_field_def lbind_def lpure_def)

lemma child_written:
  assumes "written r ms" "map_of ms k = Some (WObj xs)" "child_field r k = (x, [])"
    and "wire_keys xs"
  shows "written x xs"
proof -
  obtain t where t: "wire_raw (WObj xs) = Some t" "marshal_wire (WObj xs) = Some (raw_compact t)"
    using marshal_written [OF assms(1,2)] by blast
  obtain ts where "t = RObj ts" using t(1) unfolding wire_object by blast
  then have "raw_compact t \<noteq> ''null''" by simp
  then have "raw_field r k = (raw_compact t, [])" using raw_written [OF assms(1,2) t(2)] by simp
  then have "new_object (raw_compact t) (ob_strict r) (ob_prefix r @ k @ ''.'') = (x, [])"
    using assms(3) by (simp add: child_field_def lbind_ok)
  then show ?thesis using new_object_written [OF t(1) assms(4)] by blast
qed

lemma parse_id_format: "length b = 16 \<Longrightarrow> id_valid b \<Longrightarrow> parse_id (format_id b) = Inr b"
  using scan_format [of b] by (simp add: parse_id_def hex_decode_encode)

lemma id_written:
  assumes "written r ms" "map_of ms k = Some (WText (marshal_id b))" "length b = 16"
  shows "\<exists>s. str_field r k = (s, []) \<and> parse_id s = Inr b"
proof -
  obtain t where t: "wire_raw (WText (marshal_id b)) = Some t" using marshal_written [OF assms(1,2)] by blast
  then have v: "id_valid b" "valid_string (format_id b)" "t = RStr (wire_body (format_id b))"
    by (auto simp: marshal_id_def split: if_splits)
  then have "str_field r k = (format_id b, [])" using str_text [OF assms(1,2)] t by simp
  then show ?thesis using parse_id_format [OF assms(3) v(1)] by blast
qed

lemma file_written:
  assumes "written r ms" "map_of ms k = Some (file_wire_id f)" "length (file_bytes f) = 16"
  shows "file_field r k = (f, [])"
  using id_written [of r ms k "file_bytes f"] assms
  by (auto simp: file_wire_id_def file_id_marshal_def file_field_def lbind_def lpure_def parse_file_id_def)

lemma path_written: "written r ms \<Longrightarrow> map_of ms ''path'' = Some (WStr (path_s p)) \<Longrightarrow> path_field U r = (x, []) \<Longrightarrow> x = p"
  using str_written [of r ms "''path''" "path_s p"]
  by (auto simp: path_field_def lbind_def lpure_def dest!: parse_path_s split: sum.splits)

lemma hex_value_val: "hex_lower c \<Longrightarrow> is_hex c \<and> hex_val c = hex_value c"
  by (auto simp: hex_lower_def is_hex_def is_digit_def hex_val_def hex_value_def)

lemma hex_bytes_encode: "hex_bytes (hex_encode bs) = Some bs"
proof (induction bs)
  case (Cons b bs)
  have "hex_lower (hex_digit (unat b div 16))" "hex_lower (hex_digit (unat b mod 16))"
    using hex_digit_lower byte_digits by blast+
  moreover have "unat b div 16 * 16 + unat b mod 16 = unat b" by simp
  ultimately show ?case using Cons hex_value_val hex_digit_lower [OF byte_digits(1) [of b]] hex_digit_lower [OF byte_digits(2) [of b]]
    by (simp add: hex_byte_def)
qed (simp add: hex_encode_def)

lemma hash_written:
  "written r ms \<Longrightarrow> map_of ms k = Some (WStr (hex_encode h)) \<Longrightarrow> hash_field U r k = (x, []) \<Longrightarrow> x = h"
  using str_written [of r ms k "hex_encode h"]
  by (auto simp: hash_field_def lbind_def lpure_def hex_bytes_encode split: if_splits)

lemma blob_written:
  assumes "written r ms" "map_of ms k = Some (blob_wire b)" "child_field r k = (ch, [])" "blob_object U ch = (x, [])"
  shows "x = b"
proof -
  have w: "written ch [(''sha256'', WStr (hex_encode (br_sha256 b))), (''size'', WInt (br_size b))]"
    by (rule child_written [OF assms(1) _ assms(3)]) (use assms(2) in \<open>simp_all add: blob_wire_def wire_keys_def\<close>)
  obtain h n where h: "hash_field U ch ''sha256'' = (h, [])" "integer_field ch ''size'' 0 MaxSafe = (n, [])"
      "x = \<lparr>br_sha256 = h, br_size = n\<rparr>"
    using assms(4) unfolding blob_object_def lbind_ok by auto
  have "h = br_sha256 b" by (rule hash_written [OF w _ h(1)]) simp
  moreover have "n = br_size b" using integer_written [OF w _ h(2)] by simp
  ultimately show ?thesis using h(3) by simp
qed

section \<open>Operations\<close>

text \<open>
  The text of an operation, copied by the encoder with the escapes of \<^verbatim>\<open>jsontext\<close>: the
  second writer of components.
\<close>

lemma wire_rune_escapes: "scalar r \<Longrightarrow> valid_escapes (wire_rune r @ t) = valid_escapes t"
proof -
  assume r: "scalar r"
  show ?thesis
  proof (cases "r < 0x20 \<or> r = 0x22 \<or> r = 0x5C")
    case True
    then show ?thesis using valid_escapes_rune [OF r] by (simp add: wire_rune_def)
  next
    case False
    then have w: "wire_rune r = encode_rune r" by (simp add: wire_rune_def)
    have plain: "valid_escapes (u @ t) = valid_escapes t" if "\<forall>c \<in> set u. c \<noteq> CHR 0x5C" for u
      using that by (induction u) (auto simp: valid_escapes.simps [of "_ # _"])
    have "\<forall>c \<in> set (encode_rune r). c \<noteq> CHR 0x5C"
    proof (cases "r < 0x80")
      case True
      then show ?thesis using False by (auto simp: encode1 char_of_iff)
    next
      case hi: False
      then show ?thesis using multi_bytes [OF r] high_bytes by simp
    qed
    then show ?thesis using plain w by simp
  qed
qed

lemma wire_body_escapes: "valid_escapes (wire_body s) = None"
proof -
  have "\<forall>r \<in> set rs. scalar r \<Longrightarrow> valid_escapes (concat (map wire_rune rs)) = None" for rs
    by (induction rs) (simp_all add: wire_rune_escapes)
  then show ?thesis using runes_scalar by (simp add: wire_body_def)
qed

interpretation wired: component_texts "\<lambda>c. raw_reformat (raw_of_json (comp_json c))"
proof
  fix c :: component and l b
  assume c: "comp_ok c"
  let ?t = "raw_reformat (raw_of_json (comp_json c))"
  have q: "valid_string (quote_char # wire_body s @ [quote_char])" for s
  proof -
    have "valid_string [quote_char]" using ascii_string [of "[quote_char]"] by simp
    then have "valid_string ([quote_char] @ wire_body s @ [quote_char])" using wire_body_valid by (simp only: valid_string_append)
    then show ?thesis by simp
  qed
  have all: "renders json_max_depth ?t (raw_compact ?t) \<and> valid_string (raw_compact ?t)
      \<and> add_component l ?t b = add_component l (raw_of_json (comp_json c)) b"
    using c
  proof (cases rule: comp_ok_cases)
    case (insert u)
    let ?s = "string_of_runes (decode_utf16 u)"
    have v: "valid_string ?s" using encode_decode_utf16 [OF insert(2)] runes_string_of_runes by blast
    have u: "unquote (json_body ?s) = ?s" using json_body_read [OF v] by blast
    have t: "?t = RStr (wire_body ?s)" "raw_of_json (comp_json c) = RStr (json_body ?s)" using insert u by (simp_all add: comp_json_def)
    show ?thesis unfolding t using q wire_body_chars(1) u wire_body_read [OF v] wire_body_escapes json_body_valid [OF v]
      by (simp add: json_literal add_component_def)
  qed (use string_of_int_number in \<open>auto simp: comp_json_def json_word_def ascii_valid digits_ascii intro: json_word_rule\<close>)
  show "renders json_max_depth ?t (raw_compact ?t)" "valid_string (raw_compact ?t)"
    "add_component l ?t b = add_component l (raw_of_json (comp_json c)) b" using all by blast+
qed

lemma marshal_op_tree: "marshal_op o1 = raw_compact (RArr (map (\<lambda>c. raw_of_json (comp_json c)) (comps o1)))"
  by (simp add: marshal_op_def json_text_raw comp_def)

lemma op_written:
  assumes "written r ms" "map_of ms ''op'' = Some (WJson (marshal_op o1))" "text_field r c = (x, [])"
    and "op_ok o1" "admit (pc_text c) o1 = Inr ()"
  shows "x = o1"
proof -
  let ?v = "RArr (map (\<lambda>c. raw_of_json (comp_json c)) (comps o1))"
  let ?x = "raw_compact (raw_reformat ?v)"
  obtain t where t: "wire_raw (WJson (marshal_op o1)) = Some t" "marshal_wire (WJson (marshal_op o1)) = Some (raw_compact t)"
    using marshal_written [OF assms(1,2)] by blast
  then obtain w where w: "parse_json (marshal_op o1) = Some w" "t = raw_reformat w" by (auto split: if_splits)
  have "text_of ?v (marshal_op o1)"
    unfolding marshal_op_tree by (rule text_array_raw) (auto intro: exI raw_of_json_renders [OF order_refl] simp: text_of_def)
  then have "w = ?v" using text_unique w(1) by blast
  then have m: "marshal_wire (WJson (marshal_op o1)) = Some ?x" using t(2) w(2) by simp
  have x: "?x = ''['' @ join_with '','' (map (\<lambda>c. raw_compact (raw_reformat (raw_of_json (comp_json c)))) (comps o1)) @ '']''"
    by (simp add: comp_def)
  have "raw_field r ''op'' = (?x, [])" using raw_written [OF assms(1,2) m] by (simp add: x)
  then have p: "textop_parse (pc_text c) ?x = Inr x"
    using assms(3) unfolding text_field_def lbind_ok by (auto simp: op_fault_def split: sum.splits option.splits)
  then have "limits_check (pc_text c) = Inr ()" "int (length ?x) \<le> MaxJSONBytes (pc_text c)"
    unfolding textop_parse_def by (auto simp: sum_split split: if_splits)
  then have "textop_parse (pc_text c) ?x = Inr o1" using wired.parse_texts [OF _ assms(4,5)] unfolding x by blast
  then show ?thesis using p by simp
qed

end
