(* ===== verification/Proto_Round.thy ===== *)
theory Proto_Round
  imports Proto_Fields Vpath_Correct
begin

text \<open>
  \<open>DecodeClient\<close> against \<open>EncodeClient\<close> (\<^verbatim>\<open>internal/proto\<close>): a frame that was encoded is
  read as the message it was encoded from, with annotation operations in canonical form.
\<close>

section \<open>Trimming\<close>

lemma wide_rune:
  assumes "snd (decode_rune w) = length w" "2 \<le> length w" "c \<in> set w"
  shows "0x80 \<le> bv c"
proof -
  have ne: "w \<noteq> []" "decode_rune w \<noteq> (rune_error, 1)" using assms(1,2) by (auto simp: prod_eq_iff)
  have e: "scalar (fst (decode_rune w))" "encode_rune (fst (decode_rune w)) = w" using encode_decode [OF ne] assms(1) by simp_all
  have "\<not> fst (decode_rune w) < 0x80"
  proof
    assume "fst (decode_rune w) < 0x80"
    then have "length (encode_rune (fst (decode_rune w))) = 1" by (simp add: encode1)
    then show False using e(2) assms(2) by simp
  qed
  then show ?thesis using multi_bytes [OF e(1)] e(2) assms(3) by simp
qed

lemma last_rune_ascii:
  assumes "bv c < 0x80"
  shows "last_rune (s @ [c]) = (bv c, 1)"
proof -
  let ?t = "s @ [c]"
  have no: "\<not> (n \<le> length ?t \<and> decode_rune (drop (length ?t - n) ?t) = (fst (decode_rune (drop (length ?t - n) ?t)), n))" if n: "2 \<le> n" for n
  proof
    assume d: "n \<le> length ?t \<and> decode_rune (drop (length ?t - n) ?t) = (fst (decode_rune (drop (length ?t - n) ?t)), n)"
    define w where "w = drop (length ?t - n) ?t"
    have w: "length w = n" "decode_rune w = (fst (decode_rune w), n)" using d by (simp_all add: w_def)
    have "last w = c" "w \<noteq> []" unfolding w_def using n d by (auto simp: last_drop)
    then have "c \<in> set w" by force
    then have "0x80 \<le> bv c" using wide_rune [of w c] w n by (simp add: prod_eq_iff)
    then show False using assms by simp
  qed
  have "decode_rune [c] = (bv c, 1)" using assms by (simp add: decode_rune_def seq_len_def)
  then have one: "drop (length ?t - 1) ?t = [c]" "decode_rune [c] = (bv c, 1)" by simp_all
  define P where "P = (\<lambda>n. n \<le> length ?t \<and> decode_rune (drop (length ?t - n) ?t) = (fst (decode_rune (drop (length ?t - n) ?t)), n))"
  have "\<not> P n" if "2 \<le> n" for n unfolding P_def by (rule no [OF that])
  then have "\<not> P 4" "\<not> P 3" "\<not> P 2" by simp_all
  moreover have "P 1" unfolding P_def using one by simp
  ultimately have "filter P [4, 3, 2, 1] = [1]" by simp
  then show ?thesis using one unfolding last_rune_def P_def by simp
qed

lemma trim_space_braces: "trim_space (CHR ''{'' # s @ ''}'') = CHR ''{'' # s @ ''}''"
proof -
  let ?t = "CHR ''{'' # s @ ''}''"
  have "decode_rune ?t = (bv (CHR ''{''), 1)" by (simp add: decode_rune_def seq_len_def)
  then have l: "trim_space_left ?t = ?t" by (simp add: trim_space_left.simps [of ?t] is_space_def)
  have "last_rune ((CHR ''{'' # s) @ [CHR ''}'']) = (bv (CHR ''}''), 1)" by (rule last_rune_ascii) simp
  then have "trim_space_right ?t = ?t" by (simp add: trim_space_right.simps [of ?t] is_space_def)
  then show ?thesis using l by (simp add: trim_space_def)
qed

lemma trim_written: "wire_raw (WObj ms) = Some t \<Longrightarrow> trim_space (raw_compact t) = raw_compact t"
  using trim_space_braces unfolding wire_object by fastforce

section \<open>Messages\<close>

text \<open>
  Messages as Go's types have them: identifiers of 16 bytes, hashes of 32, classes that are
  spelled one way, operations as the text-operation core builds them and maps with distinct
  keys.
\<close>

definition file_typed :: "file_id \<Rightarrow> bool" where
  "file_typed f \<longleftrightarrow> length (file_bytes f) = 16"

definition blob_typed :: "blob_ref \<Rightarrow> bool" where
  "blob_typed b \<longleftrightarrow> length (br_sha256 b) = 32"

definition class_typed :: "file_class \<Rightarrow> bool" where
  "class_typed cl \<longleftrightarrow> (case cl of OtherClass n \<Rightarrow> n < 256 \<and> n \<notin> {65, 66, 67} | _ \<Rightarrow> True)"

definition content_typed :: "content option \<Rightarrow> bool" where
  "content_typed x \<longleftrightarrow> (case x of Some (BlobContent b) \<Rightarrow> blob_typed b | _ \<Rightarrow> True)"

fun body_typed :: "proto_config \<Rightarrow> body \<Rightarrow> bool" where
  "body_typed c (TextEdit f v o1) \<longleftrightarrow> file_typed f \<and> op_ok o1 \<and> admit (pc_text c) o1 = Inr ()"
| "body_typed c (AnnotEdit f v ops) \<longleftrightarrow> file_typed f \<and> ops_map ops"
| "body_typed c (AnnotReplace f v x) \<longleftrightarrow> file_typed f \<and> content_typed x"
| "body_typed c (PutBlob f v b) \<longleftrightarrow> file_typed f \<and> blob_typed b"
| "body_typed c (CreateFile f p cl x ot cp) \<longleftrightarrow> file_typed f \<and> class_typed cl \<and> content_typed x
     \<and> (case cp of None \<Rightarrow> True | Some q \<Rightarrow> file_typed (co_file q))"
| "body_typed c (RenameFile f p ot) \<longleftrightarrow> file_typed f"
| "body_typed c (RenameGroup a b ot) \<longleftrightarrow> file_typed (tg_file a) \<and> file_typed (tg_file b)"
| "body_typed c (DeleteFile f v conf) \<longleftrightarrow> file_typed f"

fun msg_typed :: "proto_config \<Rightarrow> client_msg \<Rightarrow> bool" where
  "msg_typed c (ListFiles q f) \<longleftrightarrow> (case f of None \<Rightarrow> True | Some i \<Rightarrow> file_typed i)"
| "msg_typed c (SubmitMsg i body) \<longleftrightarrow> length (client_op_bytes i) = 16 \<and> (case body of None \<Rightarrow> True | Some b \<Rightarrow> body_typed c b)"
| "msg_typed c _ \<longleftrightarrow> True"

text \<open>The canonical form that an annotation edit is sent in.\<close>

definition canonical_ops :: "proto_config \<Rightarrow> annot_ops \<Rightarrow> annot_ops" where
  "canonical_ops c ops = (case rbind (annot_normalized (pc_annot c)) (\<lambda>l. checked_ops ops l False) of
     Inr x \<Rightarrow> x | Inl _ \<Rightarrow> ops)"

fun canonical_msg :: "proto_config \<Rightarrow> client_msg \<Rightarrow> client_msg" where
  "canonical_msg c (SubmitMsg i (Some (AnnotEdit f v ops))) = SubmitMsg i (Some (AnnotEdit f v (canonical_ops c ops)))"
| "canonical_msg c m = m"

section \<open>The bodies\<close>

lemma str_missing: "written r ms \<Longrightarrow> map_of ms k = None \<Longrightarrow> str_field r k \<noteq> (x, [])"
  by (auto simp: str_field_def lbind_ok raw_field_def written_def)

lemma class_written:
  assumes "written r ms" "map_of ms ''class'' = Some (WStr (class_wire cl))" "class_field r = (x, [])" "class_typed cl"
  shows "x = cl"
proof -
  have "str_field r ''class'' = (class_wire cl, [])" using str_written [OF assms(1,2)] by blast
  then show ?thesis using assms(3,4)
    by (cases cl) (auto simp: class_field_def lbind_def lpure_def class_wire_def class_byte_def class_typed_def char_of_iff split: if_splits)
qed

lemma taken_keys [simp]: "map_of (taken_members ot) k = (if k = ''on_taken'' \<and> ot \<noteq> Number then Some (WStr (taken_wire ot)) else None)"
  by (simp add: taken_members_def)

lemma taken_written:
  assumes "written r ms" "map_of ms ''on_taken'' = map_of (taken_members ot) ''on_taken''" "read_on_taken r = (x, [])"
  shows "x = ot"
proof (cases "ot = Number")
  case True
  then show ?thesis using assms has_written [OF assms(1), of "''on_taken''"] by (simp add: read_on_taken_def)
next
  case False
  then have m: "map_of ms ''on_taken'' = Some (WStr (taken_wire ot))" using assms(2) by simp
  then have "str_field r ''on_taken'' = (taken_wire ot, [])" using str_written [OF assms(1)] by blast
  then show ?thesis using assms(3) False m has_written [OF assms(1), of "''on_taken''"]
    by (cases ot) (auto simp: read_on_taken_def lbind_def lpure_def taken_wire_def split: if_splits)
qed

lemma reason_written:
  assumes "written r ms" "map_of ms ''reason'' = Some (WStr s)" "read_copy_reason r b = (x, [])"
  shows "x = s"
  using str_written [OF assms(1,2)] assms(3) by (auto simp: read_copy_reason_def lbind_def lpure_def split: if_splits)

lemma target_written:
  assumes "written r ms" "read_target U r k = (x, [])" "file_typed (tg_file a)"
    and "map_of ms k = Some (WObj [(''file_id'', file_wire_id (tg_file a)), (''path'', WStr (path_s (tg_path a)))])"
  shows "x = a"
proof -
  obtain v f p where v: "child_field r k = (v, [])" "file_field v ''file_id'' = (f, [])" "path_field U v = (p, [])"
      "x = \<lparr>tg_file = f, tg_path = p\<rparr>"
    using assms(2) unfolding read_target_def lbind_ok by auto
  have w: "written v [(''file_id'', file_wire_id (tg_file a)), (''path'', WStr (path_s (tg_path a)))]"
    by (rule child_written [OF assms(1,4) v(1)]) (simp add: wire_keys_def)
  have "file_field v ''file_id'' = (tg_file a, [])" by (rule file_written [OF w]) (use assms(3) in \<open>simp_all add: file_typed_def\<close>)
  moreover have "p = tg_path a" by (rule path_written [OF w _ v(3)]) simp
  ultimately show ?thesis using v by simp
qed

lemma copy_written:
  assumes "written r ms" "read_copy_of r = (x, [])" "case cp of None \<Rightarrow> True | Some q \<Rightarrow> file_typed (co_file q)"
    and "map_of ms ''copy_of'' = (case cp of None \<Rightarrow> None
      | Some q \<Rightarrow> Some (WObj [(''file_id'', file_wire_id (co_file q)), (''reason'', WStr (co_reason q))]))"
  shows "x = cp"
proof (cases cp)
  case None
  then show ?thesis using assms has_written [OF assms(1), of "''copy_of''"] by (simp add: read_copy_of_def)
next
  case (Some q)
  then have m: "map_of ms ''copy_of'' = Some (WObj [(''file_id'', file_wire_id (co_file q)), (''reason'', WStr (co_reason q))])"
    using assms(4) by simp
  then have "has_field r ''copy_of''" using has_written [OF assms(1)] by simp
  then obtain v f s where v: "child_field r ''copy_of'' = (v, [])" "file_field v ''file_id'' = (f, [])"
      "read_copy_reason v False = (s, [])" "x = Some \<lparr>co_file = f, co_reason = s\<rparr>"
    using assms(2) unfolding read_copy_of_def by (simp add: lbind_ok) blast
  have w: "written v [(''file_id'', file_wire_id (co_file q)), (''reason'', WStr (co_reason q))]"
    by (rule child_written [OF assms(1) m v(1)]) (simp add: wire_keys_def)
  have "file_field v ''file_id'' = (co_file q, [])"
    by (rule file_written [OF w]) (use assms(3) Some in \<open>simp_all add: file_typed_def\<close>)
  moreover have "s = co_reason q" by (rule reason_written [OF w _ v(3)]) simp
  ultimately show ?thesis using v Some by simp
qed

lemma content_written:
  assumes "written r ms" "content_wire x = Inr w" "map_of ms ''content'' = Some w"
    and "child_field r ''content'' = (ch, [])" "read_content U ch class c = (y, [])"
  shows "y = x"
proof -
  obtain z where z: "x = Some z" using assms(2) by (cases x) (simp_all add: content_wire_def)
  have key: "class = Sidecar \<or> class = Text \<Longrightarrow> (\<exists>raw. str_field ch (if class = Sidecar then ''sidecar'' else ''text'') = (raw, [])
      \<and> y = Some (if class = Text then InlineText raw else InlineSidecar raw))" if "\<not> has_field ch ''blob''"
    using assms(5) that unfolding read_content_def by (auto simp: lbind_ok Let_def lbind_def split: if_splits prod.splits)
  have cls: "class = Sidecar \<or> class = Text" if "\<not> has_field ch ''blob''"
    using assms(5) that unfolding read_content_def by (auto simp: lbind_ok split: if_splits)
  show ?thesis
  proof (cases z)
    case (InlineText s)
    have wr: "written ch [(''text'', WStr s)]"
      by (rule child_written [OF assms(1) _ assms(4)]) (use assms(2,3) z InlineText in \<open>simp_all add: content_wire_def wire_keys_def\<close>)
    have nb: "\<not> has_field ch ''blob''" using has_written [OF wr] by simp
    have "class \<noteq> Sidecar" using key [OF nb] str_missing [OF wr, of "''sidecar''"] by auto
    then show ?thesis using key [OF nb] cls [OF nb] str_written [OF wr, of "''text''" s] z InlineText by auto
  next
    case (InlineSidecar s)
    have wr: "written ch [(''sidecar'', WStr s)]"
      by (rule child_written [OF assms(1) _ assms(4)]) (use assms(2,3) z InlineSidecar in \<open>simp_all add: content_wire_def wire_keys_def\<close>)
    have nb: "\<not> has_field ch ''blob''" using has_written [OF wr] by simp
    have "class \<noteq> Text" using key [OF nb] str_missing [OF wr, of "''text''"] by auto
    then show ?thesis using key [OF nb] cls [OF nb] str_written [OF wr, of "''sidecar''" s] z InlineSidecar by auto
  next
    case (BlobContent b)
    have wr: "written ch [(''blob'', blob_wire b)]"
      by (rule child_written [OF assms(1) _ assms(4)]) (use assms(2,3) z BlobContent in \<open>simp_all add: content_wire_def wire_keys_def\<close>)
    have hb: "has_field ch ''blob''" using has_written [OF wr] by simp
    then obtain bo ref where bo: "child_field ch ''blob'' = (bo, [])" "blob_object U bo = (ref, [])" "y = Some (BlobContent ref)"
      using assms(5) unfolding read_content_def by (auto simp: lbind_ok split: if_splits)
    have "ref = b" by (rule blob_written [OF wr _ bo(1,2)]) simp
    then show ?thesis using bo(3) z BlobContent by simp
  qed
qed

lemma ops_written:
  assumes "written r ms" "map_of ms ''ops'' = Some (WStr raw)" "marshal_ops (pc_annot c) ops = Inr raw" "ops_map ops"
    and "ops_field r (\<lambda>s. parse_ops s (pc_annot c)) n = (x, [])"
  shows "x = canonical_ops c ops"
proof -
  have "str_field r ''ops'' = (raw, [])" using str_written [OF assms(1,2)] by blast
  then have p: "parse_ops raw (pc_annot c) = Inr x"
    using assms(5) unfolding ops_field_def lbind_ok by (auto simp: op_fault_def split: sum.splits option.splits)
  obtain l where l: "annot_normalized (pc_annot c) = Inr l"
    using assms(3) unfolding marshal_ops_def marshal_ops_with_def rbind_Inr_iff by blast
  have "is_ok (strict_json l raw (if False then al_max_state_bytes l else al_max_op_bytes l))"
    using p unfolding parse_ops_def parse_ops_with_def l rbind.simps rbind_Inr_iff by (auto simp: is_ok_def)
  then have "parse_ops_with raw (pc_annot c) False = checked_ops ops l False"
    using parse_marshalled [OF l assms(4) assms(3) [unfolded marshal_ops_def]] by blast
  then show ?thesis using p l by (simp add: parse_ops_def canonical_ops_def)
qed

lemma body_written:
  assumes "body_wire (Some b) c = Inr w" "written r ([(''t'', x1), (''client_op_id'', x2)] @ w)" "body_typed c b"
    and "read_body U r c = (y, [])"
  shows "canonical_msg c (SubmitMsg i (Some b)) = SubmitMsg i y"
proof (cases b)
  case (TextEdit f v o1)
  note w = assms(2) [unfolded assms(1) [unfolded TextEdit body_wire_def, simplified, symmetric]]
  have k: "str_field r ''kind'' = (KindTextEdit, [])" using str_written [OF w, of "''kind''"] by simp
  obtain f' v' o' where y: "file_field r ''file_id'' = (f', [])" "version_field r = (v', [])" "text_field r c = (o', [])"
      "y = Some (TextEdit f' v' o')"
    using assms(4) unfolding read_body_def k by (auto simp: lbind_ok kind_defs)
  have "f' = f" using file_written [OF w, of "''file_id''" f] y(1) assms(3) TextEdit by (simp add: file_typed_def)
  moreover have "v' = v" using integer_written [OF w _ y(2) [unfolded version_field_def]] by simp
  moreover have "o' = o1" using op_written [OF w _ y(3), of o1] assms(3) TextEdit by simp
  ultimately show ?thesis using y TextEdit by simp
next
  case (AnnotEdit f v ops)
  obtain raw where raw: "marshal_ops (pc_annot c) ops = Inr raw"
      "w = [(''kind'', WStr KindAnnotEdit), (''file_id'', file_wire_id f), (''base_version'', WInt v), (''ops'', WStr raw)]"
    using assms(1) AnnotEdit by (auto simp: body_wire_def split: sum.splits)
  note w = assms(2) [unfolded raw(2)]
  have k: "str_field r ''kind'' = (KindAnnotEdit, [])" using str_written [OF w, of "''kind''"] by simp
  obtain f' v' o' where y: "file_field r ''file_id'' = (f', [])" "version_field r = (v', [])"
      "ops_field r (\<lambda>s. parse_ops s (pc_annot c)) (al_max_op_bytes (pc_annot c)) = (o', [])" "y = Some (AnnotEdit f' v' o')"
    using assms(4) unfolding read_body_def k by (auto simp: lbind_ok kind_defs)
  have "f' = f" using file_written [OF w, of "''file_id''" f] y(1) assms(3) AnnotEdit by (simp add: file_typed_def)
  moreover have "v' = v" using integer_written [OF w _ y(2) [unfolded version_field_def]] by simp
  moreover have "o' = canonical_ops c ops" using ops_written [OF w _ raw(1) _ y(3)] assms(3) AnnotEdit by simp
  ultimately show ?thesis using y AnnotEdit by simp
next
  case (AnnotReplace f v x)
  obtain xw where xw: "content_wire x = Inr xw"
      "w = [(''kind'', WStr KindAnnotReplace), (''file_id'', file_wire_id f), (''base_version'', WInt v), (''content'', xw)]"
    using assms(1) AnnotReplace by (auto simp: body_wire_def split: sum.splits)
  note w = assms(2) [unfolded xw(2)]
  have k: "str_field r ''kind'' = (KindAnnotReplace, [])" using str_written [OF w, of "''kind''"] by simp
  obtain f' v' ch x' where y: "file_field r ''file_id'' = (f', [])" "version_field r = (v', [])"
      "child_field r ''content'' = (ch, [])" "read_content U ch Sidecar c = (x', [])" "y = Some (AnnotReplace f' v' x')"
    using assms(4) unfolding read_body_def k by (auto simp: lbind_ok kind_defs)
  have "f' = f" using file_written [OF w, of "''file_id''" f] y(1) assms(3) AnnotReplace by (simp add: file_typed_def)
  moreover have "v' = v" using integer_written [OF w _ y(2) [unfolded version_field_def]] by simp
  moreover have "x' = x" by (rule content_written [OF w xw(1) _ y(3,4)]) simp
  ultimately show ?thesis using y AnnotReplace by simp
next
  case (PutBlob f v b1)
  note w = assms(2) [unfolded assms(1) [unfolded PutBlob body_wire_def, simplified, symmetric]]
  have k: "str_field r ''kind'' = (KindPutBlob, [])" using str_written [OF w, of "''kind''"] by simp
  obtain f' v' ch b' where y: "file_field r ''file_id'' = (f', [])" "version_field r = (v', [])"
      "child_field r ''blob'' = (ch, [])" "blob_object U ch = (b', [])" "y = Some (PutBlob f' v' b')"
    using assms(4) unfolding read_body_def k by (auto simp: lbind_ok kind_defs)
  have "f' = f" using file_written [OF w, of "''file_id''" f] y(1) assms(3) PutBlob by (simp add: file_typed_def)
  moreover have "v' = v" using integer_written [OF w _ y(2) [unfolded version_field_def]] by simp
  moreover have "b' = b1" by (rule blob_written [OF w _ y(3,4)]) simp
  ultimately show ?thesis using y PutBlob by simp
next
  case (CreateFile f p cl x ot cp)
  obtain xw where xw: "content_wire x = Inr xw"
      "w = [(''kind'', WStr KindCreate), (''file_id'', file_wire_id f), (''path'', WStr (path_s p)), (''class'', WStr (class_wire cl))]
            @ taken_members ot @ [(''content'', xw)]
            @ (case cp of None \<Rightarrow> []
               | Some q \<Rightarrow> [(''copy_of'', WObj [(''file_id'', file_wire_id (co_file q)), (''reason'', WStr (co_reason q))])])"
    using assms(1) CreateFile by (auto simp: body_wire_def split: sum.splits)
  note w = assms(2) [unfolded xw(2)]
  have k: "str_field r ''kind'' = (KindCreate, [])" using str_written [OF w, of "''kind''"] by simp
  obtain f' p' cl' ot' ch x' cp' where y: "file_field r ''file_id'' = (f', [])" "path_field U r = (p', [])"
      "class_field r = (cl', [])" "read_on_taken r = (ot', [])" "child_field r ''content'' = (ch, [])"
      "read_content U ch cl' c = (x', [])" "read_copy_of r = (cp', [])" "y = Some (CreateFile f' p' cl' x' ot' cp')"
    using assms(4) unfolding read_body_def k by (auto simp: lbind_ok kind_defs)
  have "f' = f" using file_written [OF w, of "''file_id''" f] y(1) assms(3) CreateFile by (simp add: file_typed_def)
  moreover have "p' = p" by (rule path_written [OF w _ y(2)]) simp
  moreover have "cl' = cl" by (rule class_written [OF w _ y(3)]) (use assms(3) CreateFile in simp_all)
  moreover have "ot' = ot" by (rule taken_written [OF w _ y(4)]) (simp add: map_add_def split: option.split)
  moreover have "x' = x" by (rule content_written [OF w xw(1) _ y(5,6)]) (simp add: map_add_def split: option.split)
  moreover have "cp' = cp"
    by (rule copy_written [OF w y(7)]) (use assms(3) CreateFile in \<open>auto simp: map_add_def split: option.split\<close>)
  ultimately show ?thesis using y CreateFile by simp
next
  case (RenameFile f p ot)
  note w = assms(2) [unfolded assms(1) [unfolded RenameFile body_wire_def, simplified, symmetric]]
  have k: "str_field r ''kind'' = (KindRename, [])" using str_written [OF w, of "''kind''"] by simp
  obtain f' p' ot' where y: "file_field r ''file_id'' = (f', [])" "path_field U r = (p', [])" "read_on_taken r = (ot', [])"
      "y = Some (RenameFile f' p' ot')"
    using assms(4) unfolding read_body_def k by (auto simp: lbind_ok kind_defs)
  have "f' = f" using file_written [OF w, of "''file_id''" f] y(1) assms(3) RenameFile by (simp add: file_typed_def)
  moreover have "p' = p" by (rule path_written [OF w _ y(2)]) simp
  moreover have "ot' = ot" by (rule taken_written [OF w _ y(3)]) simp
  ultimately show ?thesis using y RenameFile by simp
next
  case (RenameGroup a b1 ot)
  note w = assms(2) [unfolded assms(1) [unfolded RenameGroup body_wire_def, simplified, symmetric]]
  have k: "str_field r ''kind'' = (KindRenameGroup, [])" using str_written [OF w, of "''kind''"] by simp
  obtain a' b' ot' where y: "read_target U r ''pdf'' = (a', [])" "read_target U r ''sidecar'' = (b', [])" "read_on_taken r = (ot', [])"
      "y = Some (RenameGroup a' b' ot')"
    using assms(4) unfolding read_body_def k by (auto simp: lbind_ok kind_defs)
  have "a' = a" by (rule target_written [OF w y(1)]) (use assms(3) RenameGroup in simp_all)
  moreover have "b' = b1" by (rule target_written [OF w y(2)]) (use assms(3) RenameGroup in simp_all)
  moreover have "ot' = ot" by (rule taken_written [OF w _ y(3)]) simp
  ultimately show ?thesis using y RenameGroup by simp
next
  case (DeleteFile f v conf)
  note w = assms(2) [unfolded assms(1) [unfolded DeleteFile body_wire_def, simplified, symmetric]]
  have k: "str_field r ''kind'' = (KindDelete, [])" using str_written [OF w, of "''kind''"] by simp
  obtain f' v' conf' where y: "file_field r ''file_id'' = (f', [])" "version_field r = (v', [])"
      "(if has_field r ''confirmed'' then boolean_field r ''confirmed'' else lpure False) = (conf', [])" "y = Some (DeleteFile f' v' conf')"
    using assms(4) unfolding read_body_def k by (auto simp: lbind_ok kind_defs)
  have "f' = f" using file_written [OF w, of "''file_id''" f] y(1) assms(3) DeleteFile by (simp add: file_typed_def)
  moreover have "v' = v" using integer_written [OF w _ y(2) [unfolded version_field_def]] by simp
  moreover have "conf' = conf" using y(3) has_written [OF w, of "''confirmed''"] boolean_written [OF w, of "''confirmed''" True] by (cases conf) auto
  ultimately show ?thesis using y DeleteFile by simp
qed

section \<open>The frames\<close>

lemma body_wire_keys:
  assumes "body_wire b c = Inr w"
  shows "wire_keys ([(''t'', x1), (''client_op_id'', x2)] @ w)"
proof -
  obtain b1 where b1: "b = Some b1" using assms by (cases b) (simp_all add: body_wire_def)
  show ?thesis using assms unfolding b1
    by (cases b1) (auto simp: body_wire_def wire_keys_def kind_defs taken_members_def split: sum.splits option.splits if_splits)
qed

lemma client_wire_keys:
  assumes "client_wire (Some m) c = Inr w"
  obtains ms where "w = WObj ms" "wire_keys ms"
proof (cases m)
  case (SubmitMsg i b)
  then obtain ws where ws: "body_wire b c = Inr ws" "w = submit_wire i ws" using assms by (auto simp: client_wire_def rbind_Inr_iff)
  then show thesis using that body_wire_keys [OF ws(1)] unfolding submit_wire_def by blast
qed (use assms that in \<open>auto simp: client_wire_def wire_keys_def split: option.splits\<close>)

lemma uint32_written:
  assumes "written r ms" "map_of ms k = Some (WInt (uint q))" "uint32_field r k p = (x, [])"
  shows "x = q"
proof -
  obtain n where n: "integer_field r k (if p then 1 else 0) (2 ^ 32 - 1) = (n, [])" "x = word_of_int n"
    using assms(3) unfolding uint32_field_def lbind_ok by (auto split: if_splits)
  then show ?thesis using integer_written [OF assms(1,2) n(1)] by simp
qed

lemma decode_submit_written:
  assumes "written r ([(''t'', x1), (''client_op_id'', WText (client_op_id_marshal i))] @ w)" "body_wire b c = Inr w"
    and "length (client_op_bytes i) = 16" "case b of None \<Rightarrow> True | Some b1 \<Rightarrow> body_typed c b1" "decode_submit U r c = Inr m"
  shows "m = canonical_msg c (SubmitMsg i b)"
proof -
  obtain b1 where b1: "b = Some b1" using assms(2) by (cases b) (simp_all add: body_wire_def)
  obtain s where s: "str_field r ''client_op_id'' = (s, [])" "parse_id s = Inr (client_op_bytes i)"
    using id_written [OF assms(1) _ assms(3), of "''client_op_id''"] by (auto simp: client_op_id_marshal_def)
  then have i: "parse_client_op_id s = Inr i" by (simp add: parse_client_op_id_def)
  obtain y where y: "read_body U r c = (y, [])" "admit_submit i y c = Inr m"
    using assms(5) s i by (auto simp: decode_submit_def split: prod.splits list.splits)
  have "m = SubmitMsg i y" using y(2) by (auto simp: admit_submit_def split: option.splits body.splits sum.splits)
  then show ?thesis using body_written [OF assms(2) [unfolded b1] assms(1) _ y(1), of i] assms(4) b1 by simp
qed

lemma decode_written:
  assumes "client_wire (Some m) c = Inr (WObj ms)" "written r ms" "msg_typed c m"
    and "str_field r ''t'' = (typ, [])" 
    and "decode_typed U typ r c = Inr m'"
  shows "m' = canonical_msg c m"
proof (cases m)
  case (Hello t)
  then have ms: "ms = [(''t'', WStr ''hello''), (''token'', WStr (token_secret t))]" using assms(1) by (simp add: client_wire_def)
  note w = assms(2) [unfolded ms]
  have "typ = ''hello''" "str_field r ''token'' = (token_secret t, [])"
    using str_written [OF w, of "''t''"] str_written [OF w, of "''token''"] assms(4) by auto
  then show ?thesis using assms(5) Hello by (auto simp: decode_typed_def decode_hello_def parse_token_def split: if_splits)
next
  case (PullChanges q n)
  then have ms: "ms = [(''t'', WStr ''pull_changes''), (''req'', WInt (uint q)), (''after_seq'', WInt n)]" using assms(1) by (simp add: client_wire_def)
  note w = assms(2) [unfolded ms]
  have t: "typ = ''pull_changes''" using str_written [OF w, of "''t''"] assms(4) by auto
  obtain q' n' where y: "uint32_field r ''req'' True = (q', [])" "integer_field r ''after_seq'' 0 MaxSafe = (n', [])" "m' = PullChanges q' n'"
    using assms(5) t by (auto simp: decode_typed_def decode_query_def lbind_def split: prod.splits if_splits list.splits)
  then show ?thesis using uint32_written [OF w _ y(1), of q] integer_written [OF w _ y(2), of n] PullChanges by simp
next
  case (ListFiles q f)
  then have ms: "ms = [(''t'', WStr ''list_files''), (''req'', WInt (uint q))] @ (case f of None \<Rightarrow> [] | Some i \<Rightarrow> [(''after_file_id'', file_wire_id i)])"
    using assms(1) by (simp add: client_wire_def)
  note w = assms(2) [unfolded ms]
  have t: "typ = ''list_files''" using str_written [OF w, of "''t''"] assms(4) by auto
  obtain q' f' where y: "uint32_field r ''req'' True = (q', [])"
      "(if has_field r ''after_file_id'' then lbind (file_field r ''after_file_id'') (\<lambda>f. lpure (Some f)) else lpure None) = (f', [])"
      "m' = ListFiles q' f'"
    using assms(5) t by (auto simp: decode_typed_def decode_query_def lbind_def split: prod.splits if_splits list.splits)
  have "q' = q" by (rule uint32_written [OF w _ y(1)]) simp
  moreover have "f' = f"
  proof (cases f)
    case None
    then show ?thesis using y(2) has_written [OF w, of "''after_file_id''"] by simp
  next
    case (Some i)
    have "file_field r ''after_file_id'' = (i, [])"
      by (rule file_written [OF w]) (use assms(3) ListFiles Some in \<open>simp_all add: file_typed_def\<close>)
    then show ?thesis using y(2) has_written [OF w, of "''after_file_id''"] Some by (simp add: lbind_ok)
  qed
  ultimately show ?thesis using y ListFiles by simp
next
  case (SubmitMsg i b)
  then obtain ws where ws: "body_wire b c = Inr ws" "ms = [(''t'', WStr ''submit''), (''client_op_id'', WText (client_op_id_marshal i))] @ ws"
    using assms(1) by (auto simp: client_wire_def submit_wire_def rbind_Inr_iff)
  note w = assms(2) [unfolded ws(2)]
  have "typ = ''submit''" using str_written [OF w, of "''t''"] assms(4) by auto
  then show ?thesis using decode_submit_written [OF w ws(1)] assms(3,5) SubmitMsg by (simp add: decode_typed_def)
next
  case (Pong n)
  then have ms: "ms = [(''t'', WStr ''pong''), (''n'', WInt (uint n))]" using assms(1) by (simp add: client_wire_def)
  note w = assms(2) [unfolded ms]
  have t: "typ = ''pong''" using str_written [OF w, of "''t''"] assms(4) by auto
  obtain n' where y: "uint32_field r ''n'' False = (n', [])" "m' = Pong n'"
    using assms(5) t by (auto simp: decode_typed_def lbind_def split: prod.splits if_splits list.splits)
  then show ?thesis using uint32_written [OF w _ y(1), of n] Pong by simp
qed

lemma decode_encoded:
  assumes "encode_client U (Some m) c = Inr raw" "msg_typed c m"
  shows "decode_client U raw c = Inr (canonical_msg c m) \<and> int (length raw) \<le> pc_max_frame c"
proof -
  obtain w where w1: "client_wire (Some m) c = Inr w"
      "(case marshal_frame w (pc_max_frame c) of Inl e \<Rightarrow> Inl (Inr e)
        | Inr raw \<Rightarrow> (case decode_client U raw c of Inl e \<Rightarrow> Inl (Inr e) | Inr _ \<Rightarrow> Inr raw)) = (Inr raw :: (annot_error + proto_error) + string)"
    using assms(1) unfolding encode_client_def rbind_Inr_iff by blast
  obtain raw1 where raw1: "marshal_frame w (pc_max_frame c) = Inr raw1" using w1(2) by (cases "marshal_frame w (pc_max_frame c)") simp_all
  obtain m1 where m1: "decode_client U raw1 c = Inr m1" using w1(2) raw1 by (cases "decode_client U raw1 c") simp_all
  have w: "client_wire (Some m) c = Inr w" "marshal_frame w (pc_max_frame c) = Inr raw" using w1 raw1 m1 by simp_all
  obtain m' where m': "decode_client U raw c = Inr m'" using w1(2) raw1 m1 by simp
  obtain ms where ms: "w = WObj ms" "wire_keys ms" using client_wire_keys [OF w(1)] by blast
  obtain t where t: "wire_raw (WObj ms) = Some t" "raw = raw_compact t" "int (length raw) \<le> pc_max_frame c"
    using w(2) ms(1) by (auto simp: marshal_frame_def marshal_wire_def split: option.splits if_splits)
  obtain r fs ty gs where rt: "new_object raw True [] = (r, fs)" "str_field r ''t'' = (ty, gs)" by fastforce
  have "(if fs @ gs \<noteq> [] then Inl protocol_close else decode_typed U ty r c) = Inr m'"
    using m' trim_written [OF t(1)] rt unfolding decode_client_def t(2) [symmetric] rbind_Inr_iff by (simp only: Let_def prod.case) blast
  then have r: "new_object raw True [] = (r, [])" "str_field r ''t'' = (ty, [])" "decode_typed U ty r c = Inr m'"
    using rt by (auto split: if_splits)
  have wr: "written r ms" by (rule new_object_written [OF t(1) ms(2) r(1) [unfolded t(2)]])
  have "m' = canonical_msg c m"
    by (rule decode_written [OF w(1) [unfolded ms(1)] wr assms(2) r(2,3)])
  then show ?thesis using m' t(3) by simp
qed

end
