(* ===== verification/Proto_Accept.thy ===== *)
theory Proto_Accept
  imports Proto_Round
begin

text \<open>
  What \<open>DecodeClient\<close> (\<^verbatim>\<open>internal/proto/decode_client.go\<close>) lets through and how it
  refuses: the faults a reader may record, to whom an error is attributed, and the types,
  ranges and members of an accepted message.
\<close>

section \<open>Which errors there are\<close>

text \<open>The faults a reader may record.\<close>

definition body_codes :: "code set" where
  "body_codes = {InvalidSubmission, InvalidOp, InvalidPath, TooLargeCode}"

definition faults_in :: "code set \<Rightarrow> 'a logged \<Rightarrow> bool" where
  "faults_in C m \<longleftrightarrow> (\<forall>f \<in> set (snd m). fst f \<in> C)"

named_theorems faults "which faults a reader may record"

lemma faults_bind [faults]: "faults_in C m \<Longrightarrow> (\<And>x. faults_in C (f x)) \<Longrightarrow> faults_in C (lbind m f)"
  by (auto simp: faults_in_def)

lemma faults_pure [faults]: "faults_in C (lpure x)" "faults_in C (x, [])"
  by (simp_all add: faults_in_def)

lemma faults_fail [faults]: "k \<in> C \<Longrightarrow> faults_in C (x, fail_at r field k d)"
  by (simp add: faults_in_def fail_at_def)

lemma faults_if [faults]: "(b \<Longrightarrow> faults_in C m) \<Longrightarrow> (\<not> b \<Longrightarrow> faults_in C n) \<Longrightarrow> faults_in C (if b then m else n)"
  by simp

lemma faults_if_list [faults]: "faults_in C (x, fs) \<Longrightarrow> faults_in C (x, if b then fs else [])" "faults_in C (x, fs) \<Longrightarrow> faults_in C (x, if b then [] else fs)"
  by (simp_all add: faults_in_def)

lemma faults_let [faults]: "(\<And>x. faults_in C (f x)) \<Longrightarrow> faults_in C (let x = y in f x)"
  by simp

lemma faults_option [faults]: "faults_in C m \<Longrightarrow> (\<And>x. faults_in C (f x)) \<Longrightarrow> faults_in C (case v of None \<Rightarrow> m | Some x \<Rightarrow> f x)"
  by (cases v) simp_all

lemma faults_sum [faults]: "(\<And>e. faults_in C (g e)) \<Longrightarrow> (\<And>x. faults_in C (f x)) \<Longrightarrow> faults_in C (case v of Inl e \<Rightarrow> g e | Inr x \<Rightarrow> f x)"
  by (cases v) simp_all

lemma body_codes_simps [simp]: "InvalidSubmission \<in> body_codes" "InvalidOp \<in> body_codes" "InvalidPath \<in> body_codes" "TooLargeCode \<in> body_codes"
  by (simp_all add: body_codes_def)

lemma faults_only [faults]: "faults_in body_codes (only_names r ks)"
  by (auto simp: faults_in_def only_names_def fail_at_def)

lemma faults_object [faults]: "faults_in body_codes (new_object s st p)"
  unfolding new_object_def by (intro faults) simp_all

lemma faults_raw [faults]: "faults_in body_codes (raw_field r k)"
  unfolding raw_field_def by (intro faults) simp_all

lemma faults_str [faults]: "faults_in body_codes (str_field r k)"
  unfolding str_field_def by (intro faults) simp_all

lemma faults_integer [faults]: "faults_in body_codes (integer_field r k lo hi)"
  unfolding integer_field_def by (intro faults) simp_all

lemma faults_boolean [faults]: "faults_in body_codes (boolean_field r k)"
  unfolding boolean_field_def by (intro faults) simp_all

lemma faults_child [faults]: "faults_in body_codes (child_field r k)"
  unfolding child_field_def by (intro faults)

lemma faults_file [faults]: "faults_in body_codes (file_field r k)"
  unfolding file_field_def by (intro faults) simp_all

lemma faults_path [faults]: "faults_in body_codes (path_field U r)"
  unfolding path_field_def by (intro faults) simp_all

lemma faults_hash [faults]: "faults_in body_codes (hash_field U r k)"
  unfolding hash_field_def by (intro faults) simp_all

lemma faults_class [faults]: "faults_in body_codes (class_field r)"
  unfolding class_field_def by (intro faults) simp_all

lemma faults_blob [faults]: "faults_in body_codes (blob_object U r)"
  unfolding blob_object_def by (intro faults)

lemma faults_op [faults]: "faults_in body_codes (x, op_fault r k n l)"
  unfolding op_fault_def by (cases n) (simp_all add: faults_in_def fail_at_def)

lemma faults_body: "faults_in body_codes (read_body U r c)"
  unfolding read_body_def only_body_def version_field_def text_field_def ops_field_def read_target_def read_on_taken_def
    read_copy_of_def read_copy_reason_def read_content_def
  by (intro faults) simp_all

text \<open>What a member of the outermost object says, when it is a string.\<close>

definition says :: "string \<Rightarrow> string \<Rightarrow> string \<Rightarrow> bool" where
  "says frame k s \<longleftrightarrow> (\<exists>fs. unmarshal_object (trim_space frame) = Some fs \<and> Option.bind (map_of fs k) unmarshal_string = Some s)"

lemma str_says:
  assumes "new_object (trim_space frame) True [] = (r, [])" "str_field r k = (s, [])"
  shows "says frame k s"
proof -
  obtain fs where fs: "unmarshal_object (trim_space frame) = Some fs" "ob_fields r = fs"
    using assms(1) by (auto simp: new_object_def Let_def split: if_splits option.splits)
  obtain v where "map_of fs k = Some v" "unmarshal_string v = Some s"
    using assms(2) fs(2) by (auto simp: str_field_def raw_field_def lbind_ok option_read split: if_splits option.splits)
  then show ?thesis using fs(1) by (auto simp: says_def)
qed

lemma decode_client_cases:
  assumes "decode_client U frame c = x"
  obtains (large) "x = Inl (CloseError CloseTooLarge ''frame_too_large'')" "int (length frame) > pc_max_frame c"
    | (closed) "x = Inl protocol_close" "int (length frame) \<le> pc_max_frame c"
    | (read) r ty where "int (length frame) \<le> pc_max_frame c" "depth_scan 0 False False frame" "json_strict (trim_space frame)"
        "new_object (trim_space frame) True [] = (r, [])" "str_field r ''t'' = (ty, [])" "decode_typed U ty r c = x"
proof -
  obtain r fs ty gs where rt: "new_object (trim_space frame) True [] = (r, fs)" "str_field r ''t'' = (ty, gs)" by fastforce
  show thesis
  proof (cases "framing frame (pc_max_frame c)")
    case (Inl e)
    then have "x = Inl e" using assms by (simp add: decode_client_def)
    then show thesis using Inl large closed by (auto simp: framing_def Let_def protocol_close_def split: if_splits)
  next
    case (Inr u)
    then have fr: "int (length frame) \<le> pc_max_frame c" "depth_scan 0 False False frame" "json_strict (trim_space frame)"
      by (auto simp: framing_def Let_def split: if_splits)
    have "x = (if fs @ gs \<noteq> [] then Inl protocol_close else decode_typed U ty r c)"
      using assms Inr rt unfolding decode_client_def by (simp only: rbind.simps Let_def prod.case)
    then show thesis using closed read fr rt by (cases "fs @ gs = []") auto
  qed
qed

lemma parse_id_inverse: "parse_id s = Inr b \<Longrightarrow> s = format_id b \<and> length b = 16 \<and> id_valid b"
  by (simp add: parse_id_iff)

lemma submit_error:
  assumes "decode_submit U r c = Inl e" "e \<noteq> protocol_close"
  shows "\<exists>i k d. e = RejectError i k d \<and> str_field r ''client_op_id'' = (client_op_id_string i, []) \<and> k \<in> body_codes"
proof -
  obtain s fs where s: "str_field r ''client_op_id'' = (s, fs)" by fastforce
  obtain i where i: "parse_client_op_id s = Inr i" "fs = []"
    using assms s by (auto simp: decode_submit_def split: sum.splits if_splits)
  then have str: "s = client_op_id_string i"
    using parse_id_inverse by (auto simp: parse_client_op_id_def client_op_id_string_def rbind_Inr_iff)
  obtain body gs where b: "read_body U r c = (body, gs)" by fastforce
  show ?thesis
  proof (cases gs)
    case Nil
    then have "admit_submit i body c = Inl e" using assms s i b by (simp add: decode_submit_def)
    then show ?thesis using s str i by (auto simp: admit_submit_def split: option.splits body.splits sum.splits)
  next
    case (Cons f fs')
    obtain k d where f: "f = (k, d)" by fastforce
    have "k \<in> body_codes" using faults_body [of U r c] Cons f b by (simp add: faults_in_def)
    moreover have "e = RejectError i k d" using assms s i b Cons f by (simp add: decode_submit_def)
    ultimately show ?thesis using s str i by blast
  qed
qed

lemma positive_word: "1 \<le> n \<Longrightarrow> n \<le> 2 ^ 32 - 1 \<Longrightarrow> (word_of_int n :: 32 word) \<noteq> 0"
proof
  assume n: "1 \<le> n" "n \<le> 2 ^ 32 - 1" and z: "(word_of_int n :: 32 word) = 0"
  have "uint (word_of_int n :: 32 word) = n mod 2 ^ 32" by (simp add: uint_word_of_int)
  also have "\<dots> = n" by (rule mod_pos_pos_trivial) (use n in linarith)+
  finally show False using z n(1) by simp
qed

lemma query_error:
  assumes "decode_query ty r = Inl e" "e \<noteq> protocol_close"
  shows "\<exists>q d. e = QueryError q InvalidRequest d \<and> q \<noteq> 0 \<and> uint32_field r ''req'' True = (q, [])"
proof -
  obtain q fs where q: "uint32_field r ''req'' True = (q, fs)" by fastforce
  then have fs: "fs = []" using assms by (auto simp: decode_query_def split: if_splits)
  then have "uint32_field r ''req'' True = (q, [])" using q by simp
  then obtain n where n: "integer_field r ''req'' 1 (2 ^ 32 - 1) = (n, [])" "q = word_of_int n"
    unfolding uint32_field_def lbind_ok by (auto split: if_splits)
  then have b: "1 \<le> n" "n \<le> 2 ^ 32 - 1" unfolding integer_field_def lbind_ok option_read by (auto split: if_splits)
  have "q \<noteq> 0" using positive_word [of n] b n(2) by simp
  then show ?thesis using assms q fs by (auto simp: decode_query_def Let_def split: prod.splits list.splits)
qed

lemma attributed:
  assumes "decode_client U frame c = Inl e"
  shows "case e of
      CloseError k s \<Rightarrow> (k = CloseTooLarge) = (int (length frame) > pc_max_frame c)
    | RejectError i k d \<Rightarrow> says frame ''t'' ''submit'' \<and> says frame ''client_op_id'' (client_op_id_string i) \<and> k \<in> body_codes
    | QueryError q k d \<Rightarrow> (says frame ''t'' ''pull_changes'' \<or> says frame ''t'' ''list_files'') \<and> q \<noteq> 0 \<and> k = InvalidRequest
    | _ \<Rightarrow> False"
  using assms
proof (cases rule: decode_client_cases)
  case (read r ty)
  note t = str_says [OF read(4,5)]
  consider "e = protocol_close" | "ty = ''submit''" "decode_submit U r c = Inl e" "e \<noteq> protocol_close"
    | "ty = ''pull_changes'' \<or> ty = ''list_files''" "decode_query ty r = Inl e" "e \<noteq> protocol_close"
    | "decode_hello r = Inl e"
  proof -
    have pong: "(case m of (n, []) \<Rightarrow> Inr (Pong n) | _ \<Rightarrow> Inl protocol_close) = (Inl e :: proto_error + client_msg) \<Longrightarrow> e = protocol_close"
      for m :: "32 word logged" by (auto split: prod.splits list.splits)
    show ?thesis
    proof (cases "ty = ''submit''")
      case True
      then show ?thesis using read(6) that(1,2) unfolding decode_typed_def if_P [OF True] by blast
    next
      case s: False
      show ?thesis
      proof (cases "ty = ''pull_changes'' \<or> ty = ''list_files''")
        case True
        then show ?thesis using read(6) that(1,3) unfolding decode_typed_def if_not_P [OF s] if_P [OF True] by blast
      next
        case q: False
        show ?thesis
        proof (cases "ty = ''hello''")
          case True
          then show ?thesis using read(6) that(4) unfolding decode_typed_def if_not_P [OF s] if_not_P [OF q] if_P [OF True] by blast
        next
          case False
          then show ?thesis using read(6) that(1) pong unfolding decode_typed_def if_not_P [OF s] if_not_P [OF q] if_not_P [OF False]
            by (cases "ty = ''pong''") (metis (no_types, lifting) if_P, metis (no_types, lifting) if_not_P sum.inject(1))
        qed
      qed
    qed
  qed
  then show ?thesis
  proof cases
    case 2
    then show ?thesis using submit_error [OF 2(2,3)] str_says [OF read(4)] t by auto
  next
    case 3
    then show ?thesis using query_error [OF 3(2,3)] t by auto
  next
    case 4
    then show ?thesis using read(1) by (auto simp: decode_hello_def protocol_close_def split: if_splits prod.splits option.splits)
  qed (use read(1) in \<open>simp add: protocol_close_def\<close>)
qed (simp_all add: protocol_close_def)

section \<open>What is accepted\<close>

text \<open>
  The types and ranges of an accepted message: identifiers are UUIDv7, counters are positive
  and exact in JavaScript, paths are portable, a class is named and its inline content is of
  that class and within the limit, a text operation is canonical and within the limits, and
  the canonical form of an annotation edit fits a frame.
\<close>

definition file_accepted :: "file_id \<Rightarrow> bool" where
  "file_accepted f \<longleftrightarrow> length (file_bytes f) = 16 \<and> id_valid (file_bytes f)"

definition path_accepted :: "unicode_tables \<Rightarrow> path \<Rightarrow> bool" where
  "path_accepted U p \<longleftrightarrow> parse_path U (path_s p) = Inr p"

definition blob_accepted :: "blob_ref \<Rightarrow> bool" where
  "blob_accepted b \<longleftrightarrow> length (br_sha256 b) = 32 \<and> 0 \<le> br_size b \<and> br_size b \<le> MaxSafe"

definition content_accepted :: "proto_config \<Rightarrow> file_class \<Rightarrow> content option \<Rightarrow> bool" where
  "content_accepted c cl x \<longleftrightarrow> (case x of
     Some (InlineText s) \<Rightarrow> cl = Text \<and> int (length s) \<le> pc_max_inline_content c
   | Some (InlineSidecar s) \<Rightarrow> cl = Sidecar \<and> int (length s) \<le> pc_max_inline_content c
   | Some (BlobContent b) \<Rightarrow> blob_accepted b
   | None \<Rightarrow> False)"

fun body_accepted :: "unicode_tables \<Rightarrow> proto_config \<Rightarrow> body \<Rightarrow> bool" where
  "body_accepted U c (TextEdit f v o1) \<longleftrightarrow> file_accepted f \<and> version_valid v \<and> op_ok o1 \<and> admit (pc_text c) o1 = Inr ()"
| "body_accepted U c (AnnotEdit f v ops) \<longleftrightarrow> file_accepted f \<and> version_valid v"
| "body_accepted U c (AnnotReplace f v x) \<longleftrightarrow> file_accepted f \<and> version_valid v \<and> content_accepted c Sidecar x"
| "body_accepted U c (PutBlob f v b) \<longleftrightarrow> file_accepted f \<and> version_valid v \<and> blob_accepted b"
| "body_accepted U c (CreateFile f p cl x ot cp) \<longleftrightarrow> file_accepted f \<and> path_accepted U p \<and> cl \<in> {Text, Sidecar, Opaque}
     \<and> content_accepted c cl x \<and> ot \<in> {Number, Reject}
     \<and> (case cp of None \<Rightarrow> True | Some q \<Rightarrow> file_accepted (co_file q) \<and> co_reason q \<in> set copy_reasons)"
| "body_accepted U c (RenameFile f p ot) \<longleftrightarrow> file_accepted f \<and> path_accepted U p \<and> ot \<in> {Number, Reject}"
| "body_accepted U c (RenameGroup a b ot) \<longleftrightarrow> file_accepted (tg_file a) \<and> path_accepted U (tg_path a)
     \<and> file_accepted (tg_file b) \<and> path_accepted U (tg_path b) \<and> tg_file a \<noteq> tg_file b \<and> ot \<in> {Number, Reject}"
| "body_accepted U c (DeleteFile f v conf) \<longleftrightarrow> file_accepted f \<and> version_valid v"

fun msg_accepted :: "unicode_tables \<Rightarrow> proto_config \<Rightarrow> client_msg \<Rightarrow> bool" where
  "msg_accepted U c (Hello t) \<longleftrightarrow> parse_token (token_secret t) = Some t"
| "msg_accepted U c (PullChanges q n) \<longleftrightarrow> q \<noteq> 0 \<and> seq_valid n"
| "msg_accepted U c (ListFiles q f) \<longleftrightarrow> q \<noteq> 0 \<and> (case f of None \<Rightarrow> True | Some i \<Rightarrow> file_accepted i)"
| "msg_accepted U c (SubmitMsg i b) \<longleftrightarrow> length (client_op_bytes i) = 16 \<and> id_valid (client_op_bytes i)
     \<and> (\<exists>b1. b = Some b1 \<and> body_accepted U c b1
       \<and> (\<forall>f v ops. b1 = AnnotEdit f v ops \<longrightarrow>
           (\<exists>w raw. body_wire b c = Inr w \<and> marshal_frame (submit_wire i w) (pc_max_frame c) = Inr raw)))"
| "msg_accepted U c (Pong n) \<longleftrightarrow> True"

lemma sum_read_fail: "(case v of Inl e \<Rightarrow> (z, fail_at r k (c e) (d e)) | Inr x \<Rightarrow> f x) = (y, []) \<longleftrightarrow> (\<exists>x. v = Inr x \<and> f x = (y, []))"
  by (cases v) auto

lemma op_fault_nonempty [simp]: "op_fault r k n l \<noteq> []"
  by (simp add: op_fault_def split: option.split)

lemma sum_read_op: "(case v of Inl e \<Rightarrow> (z, op_fault r k (n e) l) | Inr x \<Rightarrow> f x) = (y, []) \<longleftrightarrow> (\<exists>x. v = Inr x \<and> f x = (y, []))"
  by (cases v) auto

lemma file_read: "file_field r k = (f, []) \<Longrightarrow> file_accepted f"
  unfolding file_field_def lbind_ok sum_read_fail parse_file_id_def rbind_Inr_iff file_accepted_def
  by (auto dest: parse_id_inverse)

lemma integer_read: "integer_field r k lo hi = (n, []) \<Longrightarrow> lo \<le> n \<and> n \<le> hi"
  unfolding integer_field_def lbind_ok option_read by (auto split: if_splits)

lemma version_read: "version_field r = (n, []) \<Longrightarrow> version_valid n"
  unfolding version_field_def version_valid_def by (rule integer_read)

lemma path_read: "path_field U r = (p, []) \<Longrightarrow> path_accepted U p"
  unfolding path_field_def lbind_ok sum_read_fail path_accepted_def by (auto dest: parse_path_s)

lemma hex_bytes_length: "hex_bytes s = Some b \<Longrightarrow> length s = 2 * length b"
  by (induction s arbitrary: b rule: hex_bytes.induct) (auto split: if_splits)

lemma hash_read: "hash_field U r k = (h, []) \<Longrightarrow> length h = 32"
  unfolding hash_field_def lbind_ok by (auto simp: option_read split: if_splits dest!: hex_bytes_length)

lemma blob_read: "blob_object U r = (b, []) \<Longrightarrow> blob_accepted b"
  unfolding blob_object_def lbind_ok by (auto simp: blob_accepted_def dest: hash_read integer_read)

lemma class_read: "class_field r = (cl, []) \<Longrightarrow> cl \<in> {Text, Sidecar, Opaque}"
  unfolding class_field_def lbind_ok by (auto split: if_splits)

lemma taken_read: "read_on_taken r = (ot, []) \<Longrightarrow> ot \<in> {Number, Reject}"
  unfolding read_on_taken_def by (auto simp: lbind_ok split: if_splits)

lemma reason_read: "read_copy_reason r False = (s, []) \<Longrightarrow> s \<in> set copy_reasons"
  unfolding read_copy_reason_def lbind_ok by (auto split: if_splits)

lemma copy_read: "read_copy_of r = (cp, []) \<Longrightarrow> case cp of None \<Rightarrow> True | Some q \<Rightarrow> file_accepted (co_file q) \<and> co_reason q \<in> set copy_reasons"
  unfolding read_copy_of_def by (auto simp: lbind_ok split: if_splits dest: file_read reason_read)

lemma target_read: "read_target U r k = (a, []) \<Longrightarrow> file_accepted (tg_file a) \<and> path_accepted U (tg_path a)"
  unfolding read_target_def lbind_ok by (auto dest: file_read path_read)

lemma text_read: "text_field r c = (o1, []) \<Longrightarrow> op_ok o1 \<and> admit (pc_text c) o1 = Inr ()"
  unfolding text_field_def lbind_ok sum_read_op by (auto dest: textop_parse_ok)

lemma content_read:
  assumes "read_content U r cl c = (x, [])"
  shows "content_accepted c cl x"
proof (cases "has_field r ''blob''")
  case True
  then show ?thesis using assms unfolding read_content_def
    by (auto simp: lbind_ok content_accepted_def split: if_splits dest: blob_read)
next
  case False
  have "cl = Sidecar \<or> cl = Text" using assms False unfolding read_content_def by (auto simp: lbind_ok split: if_splits)
  moreover obtain raw where "int (length raw) \<le> pc_max_inline_content c"
      "x = Some (if cl = Text then InlineText raw else InlineSidecar raw)"
    using assms False unfolding read_content_def by (auto simp: lbind_ok Let_def not_less split: if_splits)
  ultimately show ?thesis by (auto simp: content_accepted_def)
qed

lemmas field_reads = file_read version_read path_read blob_read class_read taken_read copy_read target_read text_read content_read

text \<open>
  The members a message may have, and the members that the objects in it may have. A text
  conforms to a schema if it is an object with no other member and each member conforms to
  its own schema. As in a Go map, a member is the one that looking up its name gives.
\<close>

datatype schema = Leaf | Members "(string \<times> schema) list"

fun conforms :: "schema \<Rightarrow> string \<Rightarrow> bool"
  and member_conforms :: "(string \<times> schema) list \<Rightarrow> string \<Rightarrow> string \<Rightarrow> bool" where
  "conforms Leaf t = True"
| "conforms (Members ms) t = (case unmarshal_object t of None \<Rightarrow> False
     | Some fs \<Rightarrow> (\<forall>k \<in> set (map fst fs). member_conforms ms k (the (map_of fs k))))"
| "member_conforms [] k v = False"
| "member_conforms ((n, s) # ms) k v = (if k = n then conforms s v else member_conforms ms k v)"

definition leaves :: "string list \<Rightarrow> (string \<times> schema) list" where
  "leaves = map (\<lambda>k. (k, Leaf))"

definition blob_schema :: schema where
  "blob_schema = Members (leaves [''sha256'', ''size''])"

definition content_schema :: schema where
  "content_schema = Members (leaves [''text'', ''sidecar''] @ [(''blob'', blob_schema)])"

definition target_schema :: schema where
  "target_schema = Members (leaves [''file_id'', ''path''])"

definition copy_schema :: schema where
  "copy_schema = Members (leaves [''file_id'', ''reason''])"

fun body_schema :: "body \<Rightarrow> (string \<times> schema) list" where
  "body_schema (TextEdit f v o1) = leaves [''file_id'', ''base_version'', ''op'']"
| "body_schema (AnnotEdit f v ops) = leaves [''file_id'', ''base_version'', ''ops'']"
| "body_schema (AnnotReplace f v x) = leaves [''file_id'', ''base_version''] @ [(''content'', content_schema)]"
| "body_schema (PutBlob f v b) = leaves [''file_id'', ''base_version''] @ [(''blob'', blob_schema)]"
| "body_schema (CreateFile f p cl x ot cp) =
     leaves [''file_id'', ''path'', ''class''] @ [(''content'', content_schema)] @ leaves [''on_taken''] @ [(''copy_of'', copy_schema)]"
| "body_schema (RenameFile f p ot) = leaves [''file_id'', ''path'', ''on_taken'']"
| "body_schema (RenameGroup a b ot) = [(''pdf'', target_schema), (''sidecar'', target_schema)] @ leaves [''on_taken'']"
| "body_schema (DeleteFile f v conf) = leaves [''file_id'', ''base_version'', ''confirmed'']"

fun msg_schema :: "client_msg \<Rightarrow> schema" where
  "msg_schema (Hello t) = Members (leaves [''t'', ''token''])"
| "msg_schema (PullChanges q n) = Members (leaves [''t'', ''req'', ''after_seq''])"
| "msg_schema (ListFiles q f) = Members (leaves [''t'', ''req'', ''after_file_id''])"
| "msg_schema (SubmitMsg i b) = Members (leaves [''t'', ''client_op_id'', ''kind''] @ (case b of None \<Rightarrow> [] | Some b1 \<Rightarrow> body_schema b1))"
| "msg_schema (Pong n) = Members (leaves [''t'', ''n''])"

lemma member_conforms_iff: "member_conforms ms k v \<longleftrightarrow> (\<exists>s. map_of ms k = Some s \<and> conforms s v)"
  by (induction ms) auto

definition members_conform :: "object \<Rightarrow> (string \<times> schema) list \<Rightarrow> bool" where
  "members_conform r ms \<longleftrightarrow> (\<forall>k v. map_of (ob_fields r) k = Some v \<longrightarrow> member_conforms ms k v)"

definition nested_conform :: "object \<Rightarrow> string \<Rightarrow> schema \<Rightarrow> bool" where
  "nested_conform r k s \<longleftrightarrow> s = Leaf \<or> (\<forall>v. map_of (ob_fields r) k = Some v \<longrightarrow> conforms s v)"

lemma nested_leaf [simp]: "nested_conform r k Leaf"
  by (simp add: nested_conform_def)

lemma leaves_simps [simp]: "map fst (leaves ks) = ks" "(k, s) \<in> set (leaves ks) \<longleftrightarrow> k \<in> set ks \<and> s = Leaf"
  by (auto simp: leaves_def o_def)

lemma only_read: "only_names r ks = (u, []) \<Longrightarrow> ob_strict r \<Longrightarrow> fst ` set (ob_fields r) \<subseteq> set ks"
proof
  fix k assume o: "only_names r ks = (u, [])" "ob_strict r" and k: "k \<in> fst ` set (ob_fields r)"
  have "\<forall>k \<in> fst ` set (ob_fields r). (if k \<in> set ks then [] else invalid_at r k) = []"
    using o by (simp add: only_names_def)
  then have "(if k \<in> set ks then [] else invalid_at r k) = []" using k by (rule bspec)
  then show "k \<in> set ks" by (cases "k \<in> set ks") simp_all
qed

lemma members_conformI:
  assumes "only_names r ks = (u, [])" "ob_strict r" "ks = map fst ms" "\<forall>(k, s) \<in> set ms. nested_conform r k s"
  shows "members_conform r ms"
  unfolding members_conform_def
proof (intro allI impI)
  fix k v assume v: "map_of (ob_fields r) k = Some v"
  then have "k \<in> fst ` set (ob_fields r)" by (rule map_of_SomeD [THEN rev_image_eqI]) simp
  then have "k \<in> fst ` set ms" using only_read [OF assms(1,2)] assms(3) by auto
  then obtain s where s: "map_of ms k = Some s" by (metis map_of_eq_None_iff not_None_eq)
  then have "conforms s v" using assms(4) map_of_SomeD [OF s] v by (auto simp: nested_conform_def)
  then show "member_conforms ms k v" using s by (auto simp: member_conforms_iff)
qed

lemma members_leaves: "only_names r ks = (u, []) \<Longrightarrow> ob_strict r \<Longrightarrow> members_conform r (leaves ks)"
  by (rule members_conformI) auto

lemma conforms_object: "unmarshal_object t = Some (ob_fields r) \<Longrightarrow> members_conform r ms \<Longrightarrow> conforms (Members ms) t"
  by (auto simp: members_conform_def dest!: weak_map_of_SomeI)

lemma child_read:
  assumes "child_field r k = (ch, [])" "ob_strict r"
  shows "ob_strict ch \<and> (\<forall>v. map_of (ob_fields r) k = Some v \<longrightarrow> unmarshal_object v = Some (ob_fields ch))"
proof -
  obtain v where v: "map_of (ob_fields r) k = Some v" "new_object v (ob_strict r) (ob_prefix r @ k @ ''.'') = (ch, [])"
    using assms(1) by (auto simp: child_field_def raw_field_def lbind_ok option_read split: if_splits option.splits)
  then show ?thesis using assms(2) by (auto simp: new_object_def Let_def split: if_splits option.splits)
qed

lemma child_conform: "child_field r k = (ch, []) \<Longrightarrow> ob_strict r \<Longrightarrow> (ob_strict ch \<Longrightarrow> members_conform ch ms) \<Longrightarrow> nested_conform r k (Members ms)"
  using child_read [of r k ch] conforms_object by (auto simp: nested_conform_def)

lemma blob_conform: "child_field r k = (ch, []) \<Longrightarrow> blob_object U ch = (b, []) \<Longrightarrow> ob_strict r \<Longrightarrow> nested_conform r k blob_schema"
  unfolding blob_schema_def
proof (rule child_conform, assumption, assumption)
  assume "blob_object U ch = (b, [])" and st: "ob_strict ch"
  then obtain u where "only_names ch [''sha256'', ''size''] = (u, [])" unfolding blob_object_def lbind_ok by blast
  then show "members_conform ch (leaves [''sha256'', ''size''])" by (rule members_leaves [OF _ st])
qed

lemma content_conform:
  "child_field r k = (ch, []) \<Longrightarrow> read_content U ch cl c = (x, []) \<Longrightarrow> ob_strict r \<Longrightarrow> nested_conform r k content_schema"
  unfolding content_schema_def
proof (rule child_conform, assumption, assumption)
  assume x: "read_content U ch cl c = (x, [])" and st: "ob_strict ch"
  then obtain u where o: "only_names ch [''text'', ''sidecar'', ''blob''] = (u, [])" unfolding read_content_def lbind_ok by blast
  have "nested_conform ch ''blob'' blob_schema"
  proof (cases "has_field ch ''blob''")
    case True
    then obtain b ref where "child_field ch ''blob'' = (b, [])" "blob_object U b = (ref, [])"
      using x unfolding read_content_def by (auto simp: lbind_ok split: if_splits)
    then show ?thesis using blob_conform st by blast
  next
    case False
    then show ?thesis by (simp add: has_field_def nested_conform_def)
  qed
  then show "members_conform ch (leaves [''text'', ''sidecar''] @ [(''blob'', blob_schema)])"
    by (intro members_conformI [OF o st]) auto
qed

lemma target_conform: "read_target U r k = (a, []) \<Longrightarrow> ob_strict r \<Longrightarrow> nested_conform r k target_schema"
  unfolding target_schema_def
proof -
  assume "read_target U r k = (a, [])" and st: "ob_strict r"
  then obtain ch u where ch: "child_field r k = (ch, [])" "only_names ch [''file_id'', ''path''] = (u, [])"
    unfolding read_target_def lbind_ok by blast
  show "nested_conform r k (Members (leaves [''file_id'', ''path'']))"
    by (rule child_conform [OF ch(1) st], rule members_leaves [OF ch(2)])
qed

lemma copy_conform: "read_copy_of r = (cp, []) \<Longrightarrow> ob_strict r \<Longrightarrow> nested_conform r ''copy_of'' copy_schema"
  unfolding copy_schema_def
proof (cases "has_field r ''copy_of''")
  case True
  assume "read_copy_of r = (cp, [])" and st: "ob_strict r"
  then obtain ch u where ch: "child_field r ''copy_of'' = (ch, [])" "only_names ch [''file_id'', ''reason''] = (u, [])"
    using True unfolding read_copy_of_def by (auto simp: lbind_ok split: if_splits)
  show "nested_conform r ''copy_of'' (Members (leaves [''file_id'', ''reason'']))"
    by (rule child_conform [OF ch(1) st], rule members_leaves [OF ch(2)])
qed (simp add: has_field_def nested_conform_def)

lemma body_nested:
  assumes "read_body U r c = (Some b, [])" "ob_strict r"
  shows "\<forall>(k, s) \<in> set (body_schema b). nested_conform r k s"
  using assms(1) unfolding read_body_def
  by (auto simp: lbind_ok kind_defs split: if_splits
      intro: blob_conform [OF _ _ assms(2)] content_conform [OF _ _ assms(2)] target_conform [OF _ assms(2)] copy_conform [OF _ assms(2)])

lemma body_read:
  assumes "read_body U r c = (y, [])" "ob_strict r"
  shows "\<exists>b. y = Some b \<and> body_accepted U c b \<and> members_conform r (leaves [''t'', ''client_op_id'', ''kind''] @ body_schema b)"
proof -
  obtain k where k: "str_field r ''kind'' = (k, [])" using assms unfolding read_body_def lbind_ok by blast
  consider "k = KindTextEdit" | "k = KindAnnotEdit" | "k = KindAnnotReplace" | "k = KindPutBlob" | "k = KindCreate"
    | "k = KindRename" | "k = KindRenameGroup" | "k = KindDelete"
    using assms(1) k unfolding read_body_def by (auto simp: lbind_ok split: if_splits)
  then obtain b where b: "y = Some b" "body_accepted U c b" "only_body r (map fst (body_schema b)) = ((), [])"
    by cases (use assms(1) k in \<open>auto simp: read_body_def lbind_ok kind_defs dest!: field_reads split: if_splits\<close>)
  have "members_conform r (leaves [''t'', ''client_op_id'', ''kind''] @ body_schema b)"
  proof (rule members_conformI [OF b(3) [unfolded only_body_def] assms(2)])
    show "\<forall>(k, s) \<in> set (leaves [''t'', ''client_op_id'', ''kind''] @ body_schema b). nested_conform r k s"
      using body_nested [OF assms(1) [unfolded b(1)] assms(2)] by auto
  qed simp
  then show ?thesis using b by blast
qed

lemma submit_read:
  assumes "decode_submit U r c = Inr m" "ob_strict r"
  shows "msg_accepted U c m \<and> (\<exists>ms. msg_schema m = Members ms \<and> members_conform r ms)"
proof -
  obtain s fs where s: "str_field r ''client_op_id'' = (s, fs)" by fastforce
  obtain i where i: "parse_client_op_id s = Inr i" "fs = []"
    using assms s by (auto simp: decode_submit_def split: sum.splits if_splits)
  then have ok: "length (client_op_bytes i) = 16 \<and> id_valid (client_op_bytes i)"
    using parse_id_inverse by (auto simp: parse_client_op_id_def rbind_Inr_iff)
  obtain y where y: "read_body U r c = (y, [])" "admit_submit i y c = Inr m"
    using assms s i by (auto simp: decode_submit_def split: prod.splits list.splits)
  obtain b where b: "y = Some b" "body_accepted U c b" "members_conform r (leaves [''t'', ''client_op_id'', ''kind''] @ body_schema b)"
    using body_read [OF y(1) assms(2)] by blast
  have m: "m = SubmitMsg i (Some b)" using y(2) b(1) by (auto simp: admit_submit_def split: option.splits body.splits sum.splits)
  have "\<exists>w raw. body_wire y c = Inr w \<and> marshal_frame (submit_wire i w) (pc_max_frame c) = Inr raw" if an: "b = AnnotEdit f v ops" for f v ops
  proof -
    obtain w where w: "body_wire y c = Inr w" using y(2) b(1) an by (cases "body_wire y c") (simp_all add: admit_submit_def)
    then show ?thesis using y(2) b(1) an by (cases "marshal_frame (submit_wire i w) (pc_max_frame c)") (simp_all add: admit_submit_def)
  qed
  then show ?thesis using m b ok by auto
qed

lemma query_read:
  assumes "decode_query ty r = Inr m" "ob_strict r"
  shows "msg_accepted U c m \<and> (\<exists>ms. msg_schema m = Members ms \<and> members_conform r ms)"
proof -
  obtain q fs where q0: "uint32_field r ''req'' True = (q, fs)" by fastforce
  then have q: "uint32_field r ''req'' True = (q, [])" using assms(1) by (auto simp: decode_query_def split: if_splits)
  obtain n where n: "integer_field r ''req'' 1 (2 ^ 32 - 1) = (n, [])" "q = word_of_int n"
    using q unfolding uint32_field_def lbind_ok by (auto split: if_splits)
  have nz: "q \<noteq> 0" using positive_word [of n] integer_read [OF n(1)] n(2) by simp
  show ?thesis
  proof (cases "ty = ''pull_changes''")
    case True
    obtain u a where a: "only_names r [''t'', ''req'', ''after_seq''] = (u, [])" "integer_field r ''after_seq'' 0 MaxSafe = (a, [])" "m = PullChanges q a"
      using assms(1) q True by (auto simp: decode_query_def lbind_def split: prod.splits list.splits if_splits)
    then show ?thesis using members_leaves [OF a(1) assms(2)] integer_read [OF a(2)] nz by (simp add: seq_valid_def)
  next
    case False
    obtain u f where f: "only_names r [''t'', ''req'', ''after_file_id''] = (u, [])"
        "(if has_field r ''after_file_id'' then lbind (file_field r ''after_file_id'') (\<lambda>f. lpure (Some f)) else lpure None) = (f, [])"
        "m = ListFiles q f"
      using assms(1) q False by (auto simp: decode_query_def lbind_def split: prod.splits list.splits if_splits)
    have "case f of None \<Rightarrow> True | Some i \<Rightarrow> file_accepted i"
      using f(2) by (auto simp: lbind_ok split: if_splits dest: file_read)
    then show ?thesis using members_leaves [OF f(1) assms(2)] nz f(3) by simp
  qed
qed

lemma hello_read:
  assumes "decode_hello r = Inr m" "ob_strict r"
  shows "msg_accepted U c m \<and> (\<exists>ms. msg_schema m = Members ms \<and> members_conform r ms)"
proof -
  have o: "only_names r [''t'', ''token''] = ((), [])"
    using assms(1) by (cases "only_names r [''t'', ''token'']") (auto simp: decode_hello_def split: if_splits)
  obtain s t where "parse_token s = Some t" "m = Hello t" using assms(1) by (auto simp: decode_hello_def split: if_splits prod.splits option.splits)
  moreover have "parse_token s = Some t \<Longrightarrow> parse_token (token_secret t) = Some t" by (auto simp: parse_token_def split: if_splits)
  ultimately show ?thesis using members_leaves [OF o assms(2)] by auto
qed

lemma client_accepted:
  assumes "decode_client U frame c = Inr m"
  shows "msg_accepted U c m \<and> int (length frame) \<le> pc_max_frame c
    \<and> conforms (msg_schema m) (trim_space frame)"
  using assms
proof (cases rule: decode_client_cases)
  case (read r ty)
  obtain fs where fs: "unmarshal_object (trim_space frame) = Some fs" "ob_fields r = fs" "ob_strict r"
    using read(4) by (auto simp: new_object_def Let_def split: if_splits option.splits)
  have "msg_accepted U c m \<and> (\<exists>ms. msg_schema m = Members ms \<and> members_conform r ms)"
  proof -
    consider "decode_submit U r c = Inr m" | "decode_query ty r = Inr m" | "decode_hello r = Inr m"
      | n where "lbind (only_names r [''t'', ''n'']) (\<lambda>_. uint32_field r ''n'' False) = (n, [])" "m = Pong n"
    proof -
      have pong: "(case p of (n, []) \<Rightarrow> Inr (Pong n) | _ \<Rightarrow> Inl protocol_close) = (Inr m :: proto_error + client_msg) \<Longrightarrow> \<exists>n. p = (n, []) \<and> m = Pong n"
        for p :: "32 word logged" by (auto split: prod.splits list.splits)
      consider "ty = ''submit''" | "ty \<noteq> ''submit''" "ty = ''pull_changes'' \<or> ty = ''list_files''"
        | "ty \<noteq> ''submit''" "\<not> (ty = ''pull_changes'' \<or> ty = ''list_files'')" "ty = ''hello''"
        | "ty \<noteq> ''submit''" "\<not> (ty = ''pull_changes'' \<or> ty = ''list_files'')" "ty \<noteq> ''hello''" "ty = ''pong''"
        | "ty \<noteq> ''submit''" "\<not> (ty = ''pull_changes'' \<or> ty = ''list_files'')" "ty \<noteq> ''hello''" "ty \<noteq> ''pong''" by blast
      then show thesis
      proof cases
        case 1
        then show thesis using read(6) that(1) by (simp add: decode_typed_def)
      next
        case 2
        then show thesis using read(6) that(2) unfolding decode_typed_def if_not_P [OF 2(1)] if_P [OF 2(2)] by blast
      next
        case 3
        then show thesis using read(6) that(3) unfolding decode_typed_def if_not_P [OF 3(1)] if_not_P [OF 3(2)] if_P [OF 3(3)] by blast
      next
        case 4
        have "(case lbind (only_names r [''t'', ''n'']) (\<lambda>_. uint32_field r ''n'' False) of (n, []) \<Rightarrow> Inr (Pong n) | _ \<Rightarrow> Inl protocol_close) = (Inr m :: proto_error + client_msg)"
          using read(6) unfolding decode_typed_def if_not_P [OF 4(1)] if_not_P [OF 4(2)] if_not_P [OF 4(3)] if_P [OF 4(4)] .
        from pong [OF this] that(4) show thesis by blast
      next
        case 5
        then show thesis using read(6)
          unfolding decode_typed_def if_not_P [OF 5(1)] if_not_P [OF 5(2)] if_not_P [OF 5(3)] if_not_P [OF 5(4)] by blast
      qed
    qed
    then show ?thesis
    proof cases
      case 1
      then show ?thesis by (rule submit_read [OF _ fs(3)])
    next
      case 2
      then show ?thesis by (rule query_read [OF _ fs(3)])
    next
      case 3
      then show ?thesis by (rule hello_read [OF _ fs(3)])
    next
      case (4 n)
      then obtain u where u: "only_names r [''t'', ''n''] = (u, [])" unfolding lbind_ok by blast
      show ?thesis using members_leaves [OF u fs(3)] 4(2) by auto
    qed
  qed
  then show ?thesis using fs read(1) conforms_object [of "trim_space frame" r] by auto
qed (simp_all add: protocol_close_def)

end
