(* ===== verification/Proto_Framing.thy ===== *)
theory Proto_Framing
  imports Proto_Facts
begin

text \<open>
  \<open>framing\<close> (\<^verbatim>\<open>internal/proto/read.go\<close>) scans the bytes for their nesting depth before
  anything is allocated. Here the scan is proved exact on JSON text: it answers whether the
  containers of the value nest at most 64 deep.
\<close>

section \<open>Nesting\<close>

fun nesting :: "raw \<Rightarrow> int" where
  "nesting (RArr vs) = 1 + Max (insert 0 (nesting ` set vs))"
| "nesting (RObj ms) = 1 + Max (insert 0 ((\<lambda>(k, v). nesting v) ` set ms))"
| "nesting v = 0"

lemma nesting_nonneg: "0 \<le> nesting v"
proof (cases v)
  case (RArr vs)
  have "0 \<le> Max (insert 0 (nesting ` set vs))" by (rule Max_ge) simp_all
  then show ?thesis using RArr by simp
next
  case (RObj ms)
  have "0 \<le> Max (insert 0 ((\<lambda>(k, v). nesting v) ` set ms))" by (rule Max_ge) simp_all
  then show ?thesis using RObj by simp
qed simp_all

lemma Max_le_insert: "finite A \<Longrightarrow> 0 \<le> (m :: int) \<Longrightarrow> Max (insert 0 A) \<le> m \<longleftrightarrow> (\<forall>a \<in> A. a \<le> m)"
  by simp

section \<open>The scan\<close>

definition frame_mark :: "char \<Rightarrow> bool" where
  "frame_mark c \<longleftrightarrow> c = quote_char \<or> c = CHR ''['' \<or> c = CHR ''{'' \<or> c = CHR '']'' \<or> c = CHR ''}''"

lemma scan_other: "\<not> frame_mark c \<Longrightarrow> depth_scan n False False (c # r) = depth_scan n False False r"
  by (simp add: frame_mark_def)

lemma scan_plain: "\<forall>c \<in> set t. \<not> frame_mark c \<Longrightarrow> depth_scan n False False (t @ r) = depth_scan n False False r"
proof (induction t)
  case (Cons c t)
  then show ?case using scan_other [of c n "t @ r"] by (simp del: depth_scan.simps)
qed simp

lemma frame_mark_value: "frame_mark c \<longleftrightarrow> bv c = 34 \<or> bv c = 91 \<or> bv c = 123 \<or> bv c = 93 \<or> bv c = 125"
  unfolding frame_mark_def bv_inj [symmetric] by simp

lemma ws_value: "is_ws c \<longleftrightarrow> bv c = 32 \<or> bv c = 9 \<or> bv c = 13 \<or> bv c = 10"
  unfolding is_ws_def insert_iff empty_iff bv_inj [symmetric] by simp

lemma scan_blank: "blank w \<Longrightarrow> depth_scan n False False (w @ r) = depth_scan n False False r"
  by (rule scan_plain) (auto simp: blank_def list_all_iff ws_value frame_mark_value)

lemma scan_quoted: "c \<noteq> quote_char \<Longrightarrow> c \<noteq> CHR 0x5C \<Longrightarrow> depth_scan n True False (c # r) = depth_scan n True False r"
  by simp

lemma scan_escape: "depth_scan n True False (CHR 0x5C # d # r) = depth_scan n True False r"
  by simp

lemma scan_chars: "json_chars b \<Longrightarrow> depth_scan n True False (b @ quote_char # r) = depth_scan n False False r"
proof (induction rule: json_chars.induct)
  case none
  then show ?case by simp
next
  case (plain c s)
  then show ?case using scan_quoted [of c n "s @ quote_char # r"] by (simp del: depth_scan.simps)
next
  case (escape d s)
  then show ?case using scan_escape [of n d "s @ quote_char # r"] by (simp del: depth_scan.simps)
next
  case (unicode h1 h2 h3 h4 s)
  have h: "is_hex h \<Longrightarrow> h \<noteq> quote_char \<and> h \<noteq> CHR 0x5C" for h by (auto simp: is_hex_def is_digit_def)
  have s: "is_hex h \<Longrightarrow> depth_scan n True False (h # t) = depth_scan n True False t" for h t
    using scan_quoted h by blast
  show ?case
    using unicode by (simp only: append_Cons scan_escape s list.pred_inject simp_thms)
qed

lemma word_unmarked: "json_word w \<Longrightarrow> c \<in> set w \<Longrightarrow> \<not> frame_mark c"
proof -
  assume w: "json_word w" and c: "c \<in> set w"
  have dig: "digits ds \<Longrightarrow> c \<in> set ds \<Longrightarrow> is_digit c" for ds by (auto simp: digits_def list_all_iff)
  have "is_digit c \<or> c \<in> set ''truefalsn-+.E''"
  proof (cases "json_number w")
    case True
    then obtain sg i f e where n: "w = sg @ i @ f @ e" "sg \<in> {[], ''-''}" "i = ''0'' \<or> digits i \<and> hd i \<noteq> CHR ''0''"
        "f = [] \<or> (\<exists>ds. f = CHR ''.'' # ds \<and> digits ds)"
        "e = [] \<or> (\<exists>x z ds. e = x # z @ ds \<and> x \<in> {CHR ''e'', CHR ''E''} \<and> z \<in> {[], ''+'', ''-''} \<and> digits ds)"
      unfolding json_number_def by blast
    consider "c \<in> set sg" | "c \<in> set i" | "c \<in> set f" | "c \<in> set e" using c n(1) by auto
    then show ?thesis
    proof cases
      case 2
      then show ?thesis using n(3) by (auto simp: is_digit_def dest: dig)
    next
      case 3
      then show ?thesis using n(4) by (auto dest: dig)
    next
      case 4
      then show ?thesis using n(5) by (auto dest: dig)
    qed (use n(2) in auto)
  next
    case False
    then have "w \<in> {''true'', ''false'', ''null''}" using w by (simp add: json_word_def)
    then show ?thesis using c by auto
  qed
  moreover have "\<forall>c \<in> set ''truefalsn-+.E''. \<not> frame_mark c" by (simp add: frame_mark_value)
  moreover have "is_digit c \<Longrightarrow> \<not> frame_mark c" by (auto simp: is_digit_def frame_mark_value)
  ultimately show "\<not> frame_mark c" by blast
qed

lemma scan_renders:
  "renders d v t \<Longrightarrow> n \<le> MaxFrameDepth \<Longrightarrow>
     depth_scan n False False (t @ r) \<longleftrightarrow> n + nesting v \<le> MaxFrameDepth \<and> depth_scan n False False r"
  "renders_items d vs t \<Longrightarrow> n \<le> MaxFrameDepth \<Longrightarrow>
     depth_scan n False False (t @ r) \<longleftrightarrow> (\<forall>v \<in> set vs. n + nesting v \<le> MaxFrameDepth) \<and> depth_scan n False False r"
  "renders_members d ms t \<Longrightarrow> n \<le> MaxFrameDepth \<Longrightarrow>
     depth_scan n False False (t @ r) \<longleftrightarrow> (\<forall>(k, v) \<in> set ms. n + nesting v \<le> MaxFrameDepth) \<and> depth_scan n False False r"
proof (induction arbitrary: n r and n r and n r rule: renders_renders_items_renders_members.inducts)
  case (word w d)
  then show ?case using scan_plain [of w] word_unmarked by simp
next
  case (literal b d)
  then show ?case using scan_chars [OF literal.hyps, of n r] by simp
next
  case (no_items w d)
  then show ?case using scan_blank [OF no_items.hyps] by auto
next
  case (items d vs t)
  have m: "Max (insert 0 (nesting ` set vs)) \<le> MaxFrameDepth - n - 1 \<longleftrightarrow> (\<forall>v \<in> set vs. nesting v \<le> MaxFrameDepth - n - 1)" if "n + 1 \<le> MaxFrameDepth"
    using Max_le_insert [of "nesting ` set vs" "MaxFrameDepth - n - 1"] that by simp
  show ?case
  proof (cases "n + 1 \<le> MaxFrameDepth")
    case True
    have "(\<forall>v \<in> set vs. n + 1 + nesting v \<le> MaxFrameDepth) \<longleftrightarrow> (\<forall>v \<in> set vs. nesting v \<le> MaxFrameDepth - n - 1)"
      by (intro ball_cong refl) linarith
    moreover have "n + nesting (RArr vs) \<le> MaxFrameDepth \<longleftrightarrow> Max (insert 0 (nesting ` set vs)) \<le> MaxFrameDepth - n - 1"
      by (simp only: nesting.simps) linarith
    ultimately show ?thesis using items.IH [OF True, of "CHR '']'' # r"] m [OF True] True by (simp del: nesting.simps)
  next
    case False
    have "0 \<le> Max (insert 0 (nesting ` set vs))" by (rule Max_ge) simp_all
    then have "\<not> n + nesting (RArr vs) \<le> MaxFrameDepth" using False unfolding nesting.simps by linarith
    then show ?thesis using False by (simp del: nesting.simps)
  qed
next
  case (no_members w d)
  then show ?case using scan_blank [OF no_members.hyps] by auto
next
  case (members d ms t)
  have m: "Max (insert 0 ((\<lambda>(k, v). nesting v) ` set ms)) \<le> MaxFrameDepth - n - 1 \<longleftrightarrow> (\<forall>(k, v) \<in> set ms. nesting v \<le> MaxFrameDepth - n - 1)" if "n + 1 \<le> MaxFrameDepth"
    using Max_le_insert [of "(\<lambda>(k, v). nesting v) ` set ms" "MaxFrameDepth - n - 1"] that by (auto simp: case_prod_beta)
  show ?case
  proof (cases "n + 1 \<le> MaxFrameDepth")
    case True
    have "(\<forall>(k, v) \<in> set ms. n + 1 + nesting v \<le> MaxFrameDepth) \<longleftrightarrow> (\<forall>(k, v) \<in> set ms. nesting v \<le> MaxFrameDepth - n - 1)"
      by (intro ball_cong refl) (auto simp: case_prod_beta)
    moreover have "n + nesting (RObj ms) \<le> MaxFrameDepth \<longleftrightarrow> Max (insert 0 ((\<lambda>(k, v). nesting v) ` set ms)) \<le> MaxFrameDepth - n - 1"
      by (simp only: nesting.simps) linarith
    ultimately show ?thesis using members.IH [OF True, of "CHR ''}'' # r"] m [OF True] True by (simp del: nesting.simps)
  next
    case False
    have "0 \<le> Max (insert 0 ((\<lambda>(k, v). nesting v) ` set ms))" by (rule Max_ge) simp_all
    then have "\<not> n + nesting (RObj ms) \<le> MaxFrameDepth" using False unfolding nesting.simps by linarith
    then show ?thesis using False by (simp del: nesting.simps)
  qed
next
  case (last_item w d v t w1)
  then show ?case by (auto simp add: scan_blank)
next
  case (more_items w d v t w1 vs u)
  then show ?case by (auto simp add: scan_blank)
next
  case (last_member w k w1 w2 d v t w3)
  then show ?case by (simp add: scan_blank scan_chars)
next
  case (more_members w k w1 w2 d v t w3 ms u)
  then show ?case by (auto simp add: scan_blank scan_chars)
qed

section \<open>White space around a frame\<close>

lemma space_plain:
  assumes "scalar r" "is_space r" "c \<in> set (encode_rune r)"
  shows "\<not> frame_mark c"
proof (cases "r < 0x80")
  case True
  then show ?thesis using assms bv_char_of [of r] by (auto simp: encode1 is_space_def frame_mark_value)
next
  case False
  then have "0x80 \<le> bv c" using multi_bytes [OF assms(1)] assms(3) by simp
  then show ?thesis by (auto simp: frame_mark_value)
qed

lemma space_bytes:
  assumes "s \<noteq> []" "is_space (fst (decode_rune s))" "c \<in> set (take (snd (decode_rune s)) s)"
  shows "\<not> frame_mark c"
proof -
  have "decode_rune s \<noteq> (rune_error, 1)" using assms(2) by (auto simp: rune_error_def is_space_def)
  then show ?thesis using encode_decode [OF assms(1)] space_plain assms(2,3) by metis
qed

lemma trim_left_plain: "\<exists>a. s = a @ trim_space_left s \<and> (\<forall>c \<in> set a. \<not> frame_mark c)"
proof (induction s rule: trim_space_left.induct)
  case (1 s)
  show ?case
  proof (cases "s \<noteq> [] \<and> is_space (fst (decode_rune s))")
    case True
    obtain a where a: "drop (snd (decode_rune s)) s = a @ trim_space_left (drop (snd (decode_rune s)) s)" "\<forall>c \<in> set a. \<not> frame_mark c"
      using "1.IH" [OF True] by blast
    have "s = (take (snd (decode_rune s)) s @ a) @ trim_space_left s"
      using a(1) True trim_space_left.simps [of s] append_take_drop_id [of "snd (decode_rune s)" s] by (metis append.assoc)
    moreover have "\<forall>c \<in> set (take (snd (decode_rune s)) s @ a). \<not> frame_mark c" using a(2) space_bytes True by auto
    ultimately show ?thesis by blast
  next
    case False
    then show ?thesis unfolding trim_space_left.simps [of s] if_not_P [OF False] by simp
  qed
qed

lemma last_rune_bytes: "last_rune s = (rune_error, 1) \<or> (\<exists>n. n \<le> length s \<and> 0 < n \<and> last_rune s = decode_rune (drop (length s - n) s) \<and> snd (last_rune s) = n)"
proof -
  let ?P = "\<lambda>n. n \<le> length s \<and> decode_rune (drop (length s - n) s) = (fst (decode_rune (drop (length s - n) s)), n)"
  show ?thesis
  proof (cases "filter ?P [4, 3, 2, 1]")
    case Nil
    then have "last_rune s = (rune_error, 1)" by (simp only: last_rune_def list.case)
    then show ?thesis by blast
  next
    case (Cons n ns)
    then have "n \<in> set (filter ?P [4, 3, 2, 1])" by (metis list.set_intros(1))
    then have n: "?P n" "n \<in> set [4, 3, 2, 1]" unfolding set_filter mem_Collect_eq by blast+
    then have pos: "0 < n" by auto
    have "last_rune s = (fst (decode_rune (drop (length s - n) s)), n)" using Cons by (simp only: last_rune_def list.case)
    then have "snd (last_rune s) = n" by simp
    moreover have "last_rune s = decode_rune (drop (length s - n) s)"
      using \<open>last_rune s = (fst (decode_rune (drop (length s - n) s)), n)\<close> n(1) by metis
    ultimately show ?thesis using n(1) pos by blast
  qed
qed

lemma trim_right_plain: "\<exists>b. s = trim_space_right s @ b \<and> (\<forall>c \<in> set b. \<not> frame_mark c)"
proof (induction s rule: trim_space_right.induct)
  case (1 s)
  let ?n = "snd (last_rune s)"
  show ?case
  proof (cases "s \<noteq> [] \<and> 0 < ?n \<and> is_space (fst (last_rune s))")
    case True
    obtain b where b: "take (length s - ?n) s = trim_space_right (take (length s - ?n) s) @ b" "\<forall>c \<in> set b. \<not> frame_mark c"
      using "1.IH" [OF True] by blast
    have "last_rune s \<noteq> (rune_error, 1)" using True by (auto simp: rune_error_def is_space_def)
    then have l: "?n \<le> length s" "last_rune s = decode_rune (drop (length s - ?n) s)" using last_rune_bytes [of s] by auto
    let ?w = "drop (length s - ?n) s"
    have w: "length ?w = ?n" using l(1) by simp
    have "\<forall>c \<in> set ?w. \<not> frame_mark c"
      using space_bytes [of ?w] True l(2) w by (metis length_greater_0_conv order_refl take_all)
    moreover have "s = trim_space_right s @ b @ ?w"
      using b(1) True trim_space_right.simps [of s] append_take_drop_id [of "length s - ?n" s] by (metis append.assoc)
    ultimately show ?thesis using b(2) by (intro exI [of _ "b @ ?w"]) auto
  next
    case False
    then show ?thesis unfolding trim_space_right.simps [of s] if_not_P [OF False] by simp
  qed
qed

lemma scan_trim: "depth_scan n False False s = depth_scan n False False (trim_space s)"
proof -
  obtain a where a: "s = a @ trim_space_left s" "\<forall>c \<in> set a. \<not> frame_mark c" using trim_left_plain by blast
  obtain b where b: "trim_space_left s = trim_space s @ b" "\<forall>c \<in> set b. \<not> frame_mark c"
    using trim_right_plain [of "trim_space_left s"] by (auto simp: trim_space_def)
  have end_ok: "\<forall>c \<in> set b. \<not> frame_mark c \<Longrightarrow> depth_scan n i e b" for n i e b
  proof (induction b arbitrary: n i e)
    case (Cons c b)
    then show ?case by (simp add: frame_mark_def)
  qed simp
  have tail: "depth_scan n i e (x @ b) = depth_scan n i e x" if plain: "\<forall>c \<in> set b. \<not> frame_mark c" for n i e x b
  proof (induction x arbitrary: n i e)
    case Nil
    show ?case using end_ok [OF plain, of n i e] by simp
  next
    case (Cons c x)
    show ?case unfolding append_Cons depth_scan.simps(2) Cons.IH by (rule refl)
  qed
  have "depth_scan n False False s = depth_scan n False False (trim_space_left s)" using scan_plain [OF a(2), of n "trim_space_left s"] a(1) by simp
  also have "\<dots> = depth_scan n False False (trim_space s)" using tail [OF b(2), of n False False "trim_space s"] b(1) by simp
  finally show ?thesis .
qed

text \<open>Exactly the frames within the size whose value is an object that nests at most 64 deep.\<close>

lemma framing_iff:
  "framing frame hi = Inr () \<longleftrightarrow> int (length frame) \<le> hi \<and> json_strict (trim_space frame)
     \<and> (\<exists>s v. trim_space frame = CHR ''{'' # s \<and> parse_json (trim_space frame) = Some v \<and> nesting v \<le> MaxFrameDepth)"
proof (cases "json_strict (trim_space frame)")
  case True
  let ?s = "trim_space frame"
  obtain v where v: "parse_json ?s = Some v" using True by (auto simp: json_strict_def split: option.splits)
  obtain w t w1 where t: "?s = w @ t @ w1" "blank w" "blank w1" "renders json_max_depth v t"
    using v unfolding parse_json_exact json_document_def by blast
  have pos: "(0 :: int) \<le> MaxFrameDepth" by (simp add: MaxFrameDepth_def)
  have e: "depth_scan 0 False False w1" using scan_blank [OF t(3), of 0 "[]"] by simp
  have d: "depth_scan 0 False False frame \<longleftrightarrow> nesting v \<le> MaxFrameDepth"
    unfolding scan_trim [of 0 frame] t(1) scan_blank [OF t(2)] using scan_renders(1) [OF t(4) pos, of w1] e by simp
  show ?thesis using True d v by (cases ?s) (auto simp: framing_def Let_def)
next
  case False
  then show ?thesis by (simp add: framing_def Let_def)
qed

end
