(* ===== verification/Proto_Eval.thy ===== *)
theory Proto_Eval
  imports Proto_Accept Proto_Framing Annot_Eval Vpath_Correct
begin

text \<open>
  Equations with which the codec is evaluated on concrete frames: a bound for the depth that
  does not exceed the fuel, and the bytes of a literal without counting runes.
\<close>

lemma parse_depth:
  "n \<le> d \<Longrightarrow> n \<le> e \<Longrightarrow> parse_value d n = parse_value e n \<and> parse_items d n = parse_items e n \<and> parse_members d n = parse_members e n"
proof (induction n arbitrary: d e)
  case (Suc n)
  obtain d' e' where de: "d = Suc d'" "e = Suc e'" "n \<le> d'" "n \<le> e'" using Suc.prems by (cases d; cases e) auto
  have s: "parse_items d' n = parse_items e' n" "parse_members d' n = parse_members e' n" using Suc.IH [OF de(3,4)] by blast+
  have t: "parse_value d n = parse_value e n" "parse_items d n = parse_items e n" "parse_members d n = parse_members e n"
    using Suc.IH [of d e] Suc.prems by simp_all
  have "parse_value d (Suc n) s = parse_value e (Suc n) s" for s
    unfolding de(1,2) parse_value.simps(2) s nat.case by (rule refl)
  moreover have "parse_items d (Suc n) s = parse_items e (Suc n) s" for s
    unfolding parse_items.simps(2) t by (rule refl)
  moreover have "parse_members d (Suc n) s = parse_members e (Suc n) s" for s
    unfolding parse_members.simps(2) t by (rule refl)
  ultimately show ?case by blast
qed (auto simp: fun_eq_iff)

lemma next_value_code [code]:
  "next_value s = (let s1 = skip_ws s; n = 2 * length s1 + 2 in
     case parse_value (if int n < 10000 then n else json_max_depth) n s1 of None \<Rightarrow> None
     | Some (v, r) \<Rightarrow> Some (take (length s1 - length r) s1, r))"
proof -
  have "parse_value json_max_depth n t = parse_value (if int n < 10000 then n else json_max_depth) n t" for n t
    using parse_depth [of n json_max_depth n] by (simp add: json_max_depth_def)
  then show ?thesis by (simp only: next_value_def Let_def)
qed

lemma wire_body_code [code]:
  "wire_body s = (case s of [] \<Rightarrow> [] | c # t \<Rightarrow>
     if 0x20 \<le> bv c \<and> bv c < 0x80 \<and> c \<noteq> quote_char \<and> c \<noteq> CHR 0x5C then c # wire_body t
     else concat (map wire_rune (runes s)))"
proof (cases s)
  case (Cons c t)
  show ?thesis
  proof (cases "0x20 \<le> bv c \<and> bv c < 0x80 \<and> c \<noteq> quote_char \<and> c \<noteq> CHR 0x5C")
    case True
    then have b: "bv c < 0x80" "bv c \<noteq> 0x22" "bv c \<noteq> 0x5C" using bv_inj [of c quote_char] bv_inj [of c "CHR 0x5C"] by auto
    have "runes (c # t) = bv c # runes t" using ascii_decode [OF b(1), of t] by (simp add: runes_cons)
    moreover have "wire_rune (bv c) = [c]" using True b by (simp add: wire_rune_def encode_rune_def scalar_def)
    ultimately show ?thesis using Cons True by (simp add: wire_body_def)
  next
    case False
    show ?thesis unfolding Cons list.case if_not_P [OF False] wire_body_def by (rule refl)
  qed
qed (simp add: wire_body_def)

lemma trim_space_left_code [code]:
  "trim_space_left s = (case s of [] \<Rightarrow> [] | c # t \<Rightarrow>
     if bv c < 0x80 then if is_space (bv c) then trim_space_left t else s
     else if is_space (fst (decode_rune s)) then trim_space_left (drop (snd (decode_rune s)) s) else s)"
proof (cases s)
  case (Cons c t)
  show ?thesis using Cons ascii_decode [of c t] trim_space_left.simps [of s] by simp
qed (simp add: trim_space_left.simps)

end
