(* ===== verification/Proto_Correct.thy ===== *)
theory Proto_Correct
  imports Proto_Eval Proto_Framing
begin

text \<open>
  The properties of the client half of the \<^verbatim>\<open>stele.v1\<close> codec
  (\<^verbatim>\<open>internal/proto\<close>) and their evaluation on small frames.
\<close>

section \<open>Two frames\<close>

definition quoted_text :: "string \<Rightarrow> string" where
  "quoted_text s = quote_char # s @ [quote_char]"

definition pong_body :: string where
  "pong_body = quoted_text ''n'' @ '':7,'' @ quoted_text ''t'' @ '':'' @ quoted_text ''pong''"


definition frame_of :: "string \<Rightarrow> string" where
  "frame_of s = CHR ''{'' # s @ ''}''"

lemma trim_frame: "trim_space (frame_of s) = frame_of s"
  unfolding frame_of_def by (rule trim_space_braces)

lemma frame_framing: "int (length (frame_of s)) \<le> hi \<Longrightarrow> depth_scan 0 False False (frame_of s) \<Longrightarrow> json_strict (frame_of s) \<Longrightarrow> framing (frame_of s) hi = Inr ()"
  by (simp add: framing_def trim_frame del: depth_scan.simps) (simp add: frame_of_def)

lemma pong_eval:
  "depth_scan 0 False False (frame_of pong_body)" "json_strict (frame_of pong_body)" "int (length (frame_of pong_body)) \<le> 2 ^ 20"
  "new_object (frame_of pong_body) True [] = (\<lparr>ob_fields = [(''n'', ''7''), (''t'', quoted_text ''pong'')], ob_strict = True, ob_prefix = []\<rparr>, [])"
  "marshal_wire (WObj [(''t'', WStr ''pong''), (''n'', WInt 7)]) = Some (frame_of pong_body)"
  "unmarshal_string (quoted_text ''pong'') = Some ''pong''"
  by code_simp+


lemma max_frame_default: "pc_max_frame proto_default_config = 2 ^ 20"
  by (simp add: proto_default_config_def Let_def)

lemma seven: "parse_int64 ''7'' = Some 7"
  by code_simp

lemma pong_decoded: "decode_client U (frame_of pong_body) proto_default_config = Inr (Pong 7)"
proof -
  let ?r = "\<lparr>ob_fields = [(''n'', ''7''), (''t'', quoted_text ''pong'')], ob_strict = True, ob_prefix = []\<rparr>"
  have t: "str_field ?r ''t'' = (''pong'', [])"
    using pong_eval(6) by (simp add: str_field_def raw_field_def lbind_def lpure_def) (simp add: quoted_text_def)
  have "uint32_field ?r ''n'' False = (7, [])"
    using seven by (simp add: uint32_field_def integer_field_def raw_field_def lbind_def lpure_def)
  then have "decode_typed U ''pong'' ?r proto_default_config = Inr (Pong 7)"
    by (simp add: decode_typed_def lbind_def only_names_def)
  then show ?thesis
    using t frame_framing [OF pong_eval(3,1,2)] pong_eval(4)
    by (simp only: decode_client_def max_frame_default trim_frame rbind.simps Let_def prod.case append_Nil simp_thms if_False)
qed


lemma pong_encoded: "encode_client U (Some (Pong 7)) proto_default_config = Inr (frame_of pong_body)"
proof -
  have "marshal_frame (WObj [(''t'', WStr ''pong''), (''n'', WInt 7)]) (2 ^ 20) = Inr (frame_of pong_body)"
    using pong_eval(3,5) by (simp only: marshal_frame_def option.case not_less [symmetric] if_False)
  moreover have "client_wire (Some (Pong 7)) proto_default_config = Inr (WObj [(''t'', WStr ''pong''), (''n'', WInt 7)])"
    by (simp add: client_wire_def)
  ultimately show ?thesis
    by (simp only: encode_client_def max_frame_default rbind.simps sum.case pong_decoded)
qed

section \<open>Properties\<close>

text \<open>
  C16: round trip of the client messages. What \<open>EncodeClient\<close> sends for a message of Go's
  types, \<open>DecodeClient\<close> reads as that same message, whatever its kind; only the operations of
  an annotation edit come back in canonical form. The frame is within \<^verbatim>\<open>MaxFrame\<close>.
\<close>

theorem client_roundtrip:
  "encode_client U (Some m) c = Inr raw \<Longrightarrow> msg_typed c m \<Longrightarrow>
     decode_client U raw c = Inr (canonical_msg c m) \<and> int (length raw) \<le> pc_max_frame c"
  by (rule decode_encoded)

theorem client_roundtrip_witness:
  "decode_client plain_tables (frame_of pong_body) proto_default_config = Inr (Pong 7)"
  using client_roundtrip [OF pong_encoded] by simp



text \<open>
  C18: what is accepted. A message that \<open>DecodeClient\<close> returns is well-formed: identifiers
  are UUIDv7, counters are positive and below 2^53, paths are portable, content is of the
  class that is named and within the limit, operations are canonical and admitted, a group
  rename has two different files. The frame is within \<^verbatim>\<open>MaxFrame\<close>, and neither the message nor
  an object in it (content, blob reference, rename target, copied file) has a member that the
  kind of message does not know.
\<close>

theorem accepted_wellformed:
  "decode_client U frame c = Inr m \<Longrightarrow> msg_accepted U c m \<and> int (length frame) \<le> pc_max_frame c
    \<and> conforms (msg_schema m) (trim_space frame)"
  by (rule client_accepted)

theorem accepted_wellformed_witness:
  "conforms (Members [(''t'', Leaf), (''n'', Leaf)]) (trim_space (frame_of pong_body))"
  using accepted_wellformed [OF pong_decoded [of plain_tables]] by (simp add: leaves_def del: conforms.simps)

text \<open>
  C19: the bound on the depth is exact. \<open>framing\<close>, which counts brackets outside literals
  byte by byte, accepts exactly the frames within the size whose text, without the white
  space around it, is strict JSON of an object that nests at most 64 deep.
\<close>

theorem framing_exact:
  "framing frame hi = Inr () \<longleftrightarrow> int (length frame) \<le> hi \<and> json_strict (trim_space frame)
     \<and> (\<exists>s v. trim_space frame = CHR ''{'' # s \<and> parse_json (trim_space frame) = Some v \<and> nesting v \<le> MaxFrameDepth)"
  by (rule framing_iff)

end
