(* ===== verification/Spec2Isabelle.thy ===== *)
theory Spec2Isabelle
  imports Textop_Correct Textop_Json Ids Rules_Decisions Run_Correct Annot_Correct Proto_Correct
begin

text \<open>
  Verification of the core of stele-sync.

  \<^bold>\<open>The program.\<close> stele-sync keeps a vault of course files in step with Canvas and between
  devices. It has two halves. The pull half (phase 1) is a worker that lists a course in
  Canvas, plans which files to fetch, stores their content under their hash and publishes a
  manifest, and a consumer that reads it. The sync half (phase 2) is the core of a server on
  which devices edit shared files: text by operational transformation, FreeDraw sidecars as
  sets of remove-wins registers, everything else as whole blobs; its decisions and its wire
  format are pure functions that the shell, which is not written yet, will call.

  \<^bold>\<open>Conventions.\<close> A Go string or byte slice is the list of its bytes. A Go function with an
  error result is a HOL function into a sum, \<open>Inl\<close> the error. A struct is a record, a
  named constant type a datatype whose last constructor stands for the values without a name.
  A Go map is an association list with distinct keys, or a function where only lookups occur.
  Integers are \<open>int\<close>; wherever the source computes near the ends of \<^verbatim>\<open>int64\<close>
  the bound is checked by the code itself and is part of the model, and bytes of identifiers
  are 8-bit words. Loops are recursive functions over the same data, terminating by
  structure or by a measure.

  \<^bold>\<open>What the definitions take as arguments.\<close> Code that is not in the repository:
  \<open>U\<close>, the Unicode tables and normalization forms of the Go release and of
  \<^verbatim>\<open>golang.org/x/text\<close>; \<open>H\<close> or \<open>S\<close>, SHA-256; \<open>D\<close>, the decoding of a
  manifest, lease or rules object from JSON into its struct; the object store (a record of
  operations with its laws as a locale); the Canvas source, the clock, cancellation and
  other writers of a lease (an environment indexed by step). Where a property needs a fact
  about one of them the fact is a hypothesis, and the witness instantiates it.

  \<^bold>\<open>The theories.\<close>

  \<^item> \<open>Prelude\<close>: fallible computations, integers, strings, the shared simplification rules.
  \<^item> \<open>Unicode\<close>, \<open>Go_Strings\<close>, \<open>Go_Path\<close>, \<open>Go_Time\<close>, \<open>Go_Json\<close>, \<open>Json_Raw\<close>,
    \<open>Json_String\<close>: the parts of Go's standard library that the sources use. The JSON reader is
    a recursive-descent parser with fuel; its fuel \<open>2 * length + 2\<close> is always enough and its
    depth bound 10000 is that of \<^verbatim>\<open>encoding/json\<close>: it is proved to accept exactly the
    texts of the grammar within that depth (\<open>parse_json_exact\<close>).
  \<^item> \<open>Textop_Doc\<close>, \<open>Textop_Op\<close>, \<open>Textop_Builder\<close>, \<open>Textop_Apply\<close>, \<open>Textop_Algebra\<close>,
    \<open>Textop_Json\<close>, \<open>Textop_Correct\<close> (\<^verbatim>\<open>internal/core/textop\<close>): UTF-16 documents,
    operations, the builder (a state machine whose interface is the locale \<open>op_sink\<close>),
    validation and application, Compose and Transform. The case tables of \<^verbatim>\<open>doc.go\<close> are
    step relations that the loops follow; from them come convergence and sequential
    composition.
  \<^item> \<open>Vpath\<close>, \<open>Vpath_Correct\<close> (\<^verbatim>\<open>internal/core/vpath\<close>): paths and the sanitizer.
    Disambiguation tries ever shorter stems and stops because the stem shrinks.
  \<^item> \<open>Ids\<close> (\<^verbatim>\<open>internal/core/ids\<close>): UUIDv7 identities.
  \<^item> \<open>Classify\<close> (\<^verbatim>\<open>internal/core/classify\<close>): the class of a file.
  \<^item> \<open>Rules_Guard\<close>, \<open>Rules_Names\<close>, \<open>Rules_Decisions\<close> (\<^verbatim>\<open>internal/core/rules\<close>): the
    bulk-deletion guard (reachable guards are an inductive relation, its window the
    invariant), free names, and the decision table with settling.
  \<^item> \<open>Annot_Limits\<close>, \<open>Annot_Json\<close>, \<open>Annot_Model\<close>, \<open>Annot_Ops\<close>, \<open>Annot_Apply\<close>: the definitions
    of \<^verbatim>\<open>internal/core/annot\<close>, every function. \<open>Annot_Facts\<close> to \<open>Annot_Ops_Round\<close> are their
    lemmas: maps (locale \<open>finite_map\<close>), checked operations, the loop of Apply, the invariant
    \<open>sidecar_ok\<close> of every reachable sidecar, the effect on each key as a register, the content
    that determines the file, and the texts with their trees. \<open>Annot_Eval\<close> has equations for
    evaluation and \<open>Annot_Correct\<close> the properties.
  \<^item> \<open>Policy\<close>, \<open>Scope\<close>, \<open>Manifest\<close>, \<open>Plan\<close>, \<open>Plan_Correct\<close> (\<^verbatim>\<open>internal/core/policy\<close>,
    \<^verbatim>\<open>internal/scope\<close>, \<^verbatim>\<open>internal/manifest\<close>, \<^verbatim>\<open>internal/plan\<close>): exclusion rules,
    pull scopes, the catalogue and the differ. The plan's collision handling makes four
    rounds, as the code does.
  \<^item> \<open>Proto_Types\<close>, \<open>Proto_Json\<close>, \<open>Proto_Read\<close>, \<open>Proto_Client\<close> (\<^verbatim>\<open>internal/proto\<close>): the
    client half of the wire protocol \<^verbatim>\<open>stele.v1\<close>: codes, messages, tokens and the
    configuration; the encoding and strict decoding of \<^verbatim>\<open>encoding/json/v2\<close>; the object reader
    and framing; \<open>DecodeClient\<close> and \<open>EncodeClient\<close>. \<open>Proto_Facts\<close>, \<open>Proto_Framing\<close>,
    \<open>Proto_Fields\<close>, \<open>Proto_Round\<close> and \<open>Proto_Accept\<close> are their lemmas: written texts are strict
    JSON that reads back, the byte scan against the nesting of the tree, the members of a
    message, the round trip, what is accepted (a schema of members, nested objects included)
    and to whom an error is attributed. \<open>Proto_Eval\<close> has equations for evaluation and
    \<open>Proto_Correct\<close> the properties.
  \<^item> \<open>Objects\<close> (\<^verbatim>\<open>internal/storage/objects\<close>): the store interface as locales
    (\<open>object_store\<close>, with \<open>exclusive_store\<close> for atomic exclusive creation, and the weaker
    \<open>write_once_store\<close> for any store, with or without that capability and whatever fails), the
    in-memory store and the same store without the capability and with failing reads as their
    interpretations. \<open>Lease\<close> (\<^verbatim>\<open>internal/lease\<close>): the single-writer
    lease against any other writers, on any store; acquisition tries at most as often as the code.
    \<open>Gc\<close> (\<^verbatim>\<open>internal/gc\<close>): garbage collection of blobs.
  \<^item> \<open>Run\<close>, \<open>Run_Correct\<close> (\<^verbatim>\<open>internal/run\<close>): one pass over a course, which composes the
    plan, the store, the lease and the manifest; the vault's invariant over passes.

  \<^bold>\<open>How they interact.\<close> Run lists Canvas, reads the previous manifest from the store,
  calls Plan (which calls Policy, Scope, Vpath), fetches into the store, verifies the Lease and
  publishes; Gc deletes what no manifest names. Rules decides on submissions with Vpath for
  names, Classify for content and the guard for deletions; Classify asks Annot whether a file
  is a sidecar. Annot and Textop read and write JSON by \<open>Json_Raw\<close> and \<open>Json_String\<close>. Proto
  carries submissions: its bodies hold Textop and Annot operations, Vpath paths and Ids
  identities, each read by its own component's parser.

  \<^bold>\<open>Not modelled.\<close> The server half of \<^verbatim>\<open>internal/proto\<close> (\<^verbatim>\<open>decode_server.go\<close>,
  \<^verbatim>\<open>encode_server.go\<close>: the messages from the server to a device, which need RFC 3339 times
  and floating-point numbers in JSON); the commands under \<^verbatim>\<open>cmd/\<close> (flags, environment, signals, HTTP servers
  and the local file system); the Canvas client of \<^verbatim>\<open>internal/canvas\<close> and the
  file-system and S3 stores (calls of the network, the operating system and third-party
  clients; the run and the store interface abstract them); metrics and logging, which do not
  influence a result; the packages that consist of a comment only; the phase 1 repository
  under \<^verbatim>\<open>legacy/\<close>, whose maintained copies are modelled. Aliasing of byte slices between a
  result and its input, formatted error texts and run times are not in the model.
\<close>

end
